(* ===== verification/Sccp_Prelude.thy ===== *)
theory Sccp_Prelude
  imports Main "HOL-Library.Word" "HOL-Library.AList" "HOL-Library.Product_Lexorder"
begin

text \<open>
  Shared vocabulary of the development: the machine integers and collections of
  the Rust standard library that the components use, the shape of a fallible
  state-changing method, and the two contracts that several registries of the
  call-control crate share.

  \<^item> \<^emph>\<open>Results.\<close> A method \<open>fn f(&mut self, ..) -> Result<A, E>\<close> is a
    function returning \<open>('e + 'a) \<times> 's\<close>: the result and the state it leaves
    behind, so that an \<open>Err\<close> that has already changed the state is visible.
  \<^item> \<^emph>\<open>Hash maps.\<close> A \<open>HashMap\<close> is an association list without repeated
    keys. The list order is the iteration order, which Rust leaves open: lemmas
    hold for every list, so for every iteration order.
  \<^item> \<^emph>\<open>Time.\<close> \<open>Instant\<close> and \<open>Duration\<close> are natural numbers of clock
    ticks; the latest representable instant is an argument of the operations
    that can overflow it.
\<close>

section \<open>Machine integers\<close>

type_synonym u8 = "8 word"
type_synonym u16 = "16 word"
type_synonym u32 = "32 word"
type_synonym u64 = "64 word"

text \<open>Identities: a station name, a handset call and a PBX channel.\<close>

type_synonym device_id = string
type_synonym call_id = u64
type_synonym pbx_call_id = u64

text \<open>\<open>value.checked_add(1)\<close>.\<close>

definition checked_succ :: "'a::len word \<Rightarrow> 'a word option" where
  "checked_succ x = (if x = - 1 then None else Some (x + 1))"

lemma checked_succ_None [simp]: "checked_succ x = None \<longleftrightarrow> x = - 1"
  by (simp add: checked_succ_def)

lemma checked_succ_max [simp]: "checked_succ (- 1) = None"
  by simp

lemma checked_succ_unat:
  assumes "checked_succ x = Some y"
  shows "unat y = Suc (unat x)"
proof -
  from assms have "x \<noteq> - 1" and y: "y = 1 + x"
    by (auto simp: checked_succ_def add.commute split: if_splits)
  then have "1 + x \<noteq> 0"
    by (metis add_eq_0_iff add.commute)
  then show ?thesis
    unfolding y by (rule unatSuc)
qed

lemma checked_succ_less: "checked_succ x = Some y \<Longrightarrow> x < y"
  by (simp add: word_less_nat_alt checked_succ_unat)

lemma checked_succ_pos: "checked_succ x = Some y \<Longrightarrow> y \<noteq> 0"
  using checked_succ_unat by fastforce

lemma checked_succ_fresh:
  "checked_succ n = Some i \<Longrightarrow> j \<le> n \<Longrightarrow> i \<noteq> j"
  using checked_succ_less by fastforce

lemma checked_succ_upper:
  "checked_succ n = Some i \<Longrightarrow> j \<le> n \<Longrightarrow> j \<le> i"
  by (meson checked_succ_less less_imp_le order_trans)

section \<open>Instants and durations\<close>

type_synonym instant = nat
type_synonym duration = nat

text \<open>\<open>Instant::checked_add\<close>, with the latest instant of the clock as an argument.\<close>

definition instant_checked_add :: "instant \<Rightarrow> instant \<Rightarrow> duration \<Rightarrow> instant option" where
  "instant_checked_add limit now d = (if now + d \<le> limit then Some (now + d) else None)"

text \<open>
  Where the source writes \<open>now + timeout\<close>, an overflow panics. An operation that
  contains such an addition fails with \<open>Panicked\<close>, every other failure being the
  error value that the source returns.
\<close>

datatype 'e fault = Rejected 'e | Panicked

section \<open>Hash maps\<close>

type_synonym ('k, 'v) hash_map = "('k \<times> 'v) list"

abbreviation hm_get :: "('k, 'v) hash_map \<Rightarrow> 'k \<Rightarrow> 'v option" where
  "hm_get \<equiv> map_of"

definition hm_wf :: "('k, 'v) hash_map \<Rightarrow> bool" where
  "hm_wf m \<longleftrightarrow> distinct (map fst m)"

definition hm_insert :: "'k \<Rightarrow> 'v \<Rightarrow> ('k, 'v) hash_map \<Rightarrow> ('k, 'v) hash_map" where
  "hm_insert k v m = AList.update k v m"

definition hm_remove :: "'k \<Rightarrow> ('k, 'v) hash_map \<Rightarrow> ('k, 'v) hash_map" where
  "hm_remove k m = AList.delete k m"

definition hm_contains :: "('k, 'v) hash_map \<Rightarrow> 'k \<Rightarrow> bool" where
  "hm_contains m k \<longleftrightarrow> hm_get m k \<noteq> None"

definition hm_values :: "('k, 'v) hash_map \<Rightarrow> 'v list" where
  "hm_values m = map snd m"

text \<open>\<open>m.get_mut(k)\<close> followed by a write through the reference.\<close>

definition hm_modify :: "'k \<Rightarrow> ('v \<Rightarrow> 'v) \<Rightarrow> ('k, 'v) hash_map \<Rightarrow> ('k, 'v) hash_map" where
  "hm_modify k f m = (case hm_get m k of None \<Rightarrow> m | Some v \<Rightarrow> hm_insert k (f v) m)"

lemma hm_wf_Nil [simp, intro]: "hm_wf []"
  by (simp add: hm_wf_def)

lemma hm_wf_insert [simp, intro]: "hm_wf m \<Longrightarrow> hm_wf (hm_insert k v m)"
  by (simp add: hm_wf_def hm_insert_def distinct_update)

lemma hm_wf_remove [simp, intro]: "hm_wf m \<Longrightarrow> hm_wf (hm_remove k m)"
  by (simp add: hm_wf_def hm_remove_def distinct_delete)

lemma hm_get_insert [simp]:
  "hm_get (hm_insert k v m) k' = (if k' = k then Some v else hm_get m k')"
  by (simp add: hm_insert_def update_conv')

lemma hm_get_remove [simp]:
  "hm_get (hm_remove k m) k' = (if k' = k then None else hm_get m k')"
  by (simp add: hm_remove_def delete_conv')

lemma hm_contains_insert [simp]:
  "hm_contains (hm_insert k v m) k' \<longleftrightarrow> k' = k \<or> hm_contains m k'"
  by (simp add: hm_contains_def)

lemma hm_contains_remove [simp]:
  "hm_contains (hm_remove k m) k' \<longleftrightarrow> k' \<noteq> k \<and> hm_contains m k'"
  by (simp add: hm_contains_def)

lemma hm_contains_Nil [simp]: "\<not> hm_contains [] k"
  by (simp add: hm_contains_def)

lemma hm_wf_modify [simp, intro]: "hm_wf m \<Longrightarrow> hm_wf (hm_modify k f m)"
  by (simp add: hm_modify_def split: option.split)

lemma hm_get_modify [simp]:
  "hm_get (hm_modify k f m) k' = (if k' = k then map_option f (hm_get m k) else hm_get m k')"
  by (auto simp: hm_modify_def split: option.split)

lemma hm_remove_absent: "hm_get m k = None \<Longrightarrow> hm_remove k m = m"
  by (induction m) (auto simp: hm_remove_def split: if_splits)

lemma hm_values_iff: "hm_wf m \<Longrightarrow> v \<in> set (hm_values m) \<longleftrightarrow> (\<exists>k. hm_get m k = Some v)"
  unfolding hm_wf_def hm_values_def by force

lemma hm_get_in_values: "hm_get m k = Some v \<Longrightarrow> v \<in> set (hm_values m)"
  unfolding hm_values_def by (force dest: map_of_SomeD)

lemma hm_all_values_iff:
  "hm_wf m \<Longrightarrow> (\<forall>v \<in> set (hm_values m). P v) \<longleftrightarrow> (\<forall>k v. hm_get m k = Some v \<longrightarrow> P v)"
  by (auto simp: hm_values_iff)

lemma hm_length_insert:
  "length (hm_insert k v m) = (if hm_contains m k then length m else Suc (length m))"
  by (induction m) (auto simp: hm_insert_def hm_contains_def)

lemma hm_length_remove:
  assumes "hm_wf m" and "hm_contains m k"
  shows "Suc (length (hm_remove k m)) = length m"
  using assms
proof (induction m)
  case (Cons p m)
  show ?case
  proof (cases "fst p = k")
    case True
    with Cons.prems have "hm_get m k = None"
      by (auto simp: hm_wf_def map_of_eq_None_iff)
    with True show ?thesis
      by (cases p) (simp add: hm_remove_def hm_remove_absent [unfolded hm_remove_def])
  next
    case False
    with Cons show ?thesis
      by (cases p) (simp add: hm_remove_def hm_wf_def hm_contains_def)
  qed
qed simp

section \<open>Search in a list\<close>

text \<open>A search whose predicate has at most one match does not depend on the order.\<close>

lemma find_SomeD: "find P xs = Some x \<Longrightarrow> x \<in> set xs \<and> P x"
  by (induction xs) (auto split: if_splits)

lemma find_NoneD: "find P xs = None \<Longrightarrow> x \<in> set xs \<Longrightarrow> \<not> P x"
  by (simp add: find_None_iff)

lemma find_unique:
  assumes "x \<in> set xs" and "P x" and "\<And>y. y \<in> set xs \<Longrightarrow> P y \<Longrightarrow> y = x"
  shows "find P xs = Some x"
proof (cases "find P xs")
  case None
  with assms(1,2) show ?thesis by (blast dest: find_NoneD)
next
  case (Some y)
  then have "y \<in> set xs" and "P y" by (auto dest: find_SomeD)
  with Some assms(3) show ?thesis by simp
qed

section \<open>Sweeping a map in a given order\<close>

text \<open>\<open>xs.into_iter().filter_map(f).collect()\<close> where the closure changes captured state.\<close>

fun filter_map_st :: "('a \<Rightarrow> 's \<Rightarrow> 'b option \<times> 's) \<Rightarrow> 'a list \<Rightarrow> 's \<Rightarrow> 'b list \<times> 's" where
  "filter_map_st f [] s = ([], s)"
| "filter_map_st f (x # xs) s =
     (let (y, s') = f x s; (ys, s'') = filter_map_st f xs s'
      in (case y of None \<Rightarrow> ys | Some b \<Rightarrow> b # ys, s''))"

lemma map_filter_Cons: "List.map_filter f (x # xs) = (case f x of None \<Rightarrow> List.map_filter f xs | Some y \<Rightarrow> y # List.map_filter f xs)"
  by (simp add: List.map_filter_def split: option.split)

lemma map_filter_append: "List.map_filter f (xs @ ys) = List.map_filter f xs @ List.map_filter f ys"
  by (simp add: List.map_filter_def)

lemma map_filter_cong:
  "(\<And>x. x \<in> set xs \<Longrightarrow> f x = g x) \<Longrightarrow> List.map_filter f xs = List.map_filter g xs"
  by (induction xs) (auto simp: map_filter_simps split: option.split)

lemma map_filter_all_Some:
  "(\<And>x. x \<in> set xs \<Longrightarrow> f x = Some (g x)) \<Longrightarrow> List.map_filter f xs = map g xs"
  by (induction xs) (auto simp: map_filter_simps)

text \<open>
  A sweep visits keys of a keyed state; each visit looks only at the entry under its
  own key and replaces or removes only that entry. A sweep over different keys then
  treats all of them as they were before it started.
\<close>

locale keyed_sweep =
  fixes get :: "'s \<Rightarrow> 'k \<Rightarrow> 'v option"
    and ok :: "'s \<Rightarrow> bool"
    and key :: "'a \<Rightarrow> 'k"
    and visit :: "'a \<Rightarrow> 's \<Rightarrow> 'o option \<times> 's"
    and outcome :: "'a \<Rightarrow> 'v option \<Rightarrow> 'o option"
    and becomes :: "'a \<Rightarrow> 'v option \<Rightarrow> 'v option"
  assumes visit_outcome: "ok s \<Longrightarrow> fst (visit a s) = outcome a (get s (key a))"
    and visit_get: "ok s \<Longrightarrow> get (snd (visit a s)) k =
      (if k = key a then becomes a (get s k) else get s k)"
    and visit_ok: "ok s \<Longrightarrow> ok (snd (visit a s))"
begin

lemma sweep_ok: "ok s \<Longrightarrow> ok (snd (filter_map_st visit xs s))"
  by (induction xs arbitrary: s) (auto simp: split_def Let_def visit_ok)

lemma sweep_outcomes:
  "ok s \<Longrightarrow> distinct (map key xs) \<Longrightarrow>
     fst (filter_map_st visit xs s) = List.map_filter (\<lambda>a. outcome a (get s (key a))) xs"
proof (induction xs arbitrary: s)
  case (Cons a xs)
  have "List.map_filter (\<lambda>b. outcome b (get (snd (visit a s)) (key b))) xs
      = List.map_filter (\<lambda>b. outcome b (get s (key b))) xs"
  proof (rule map_filter_cong)
    fix b assume "b \<in> set xs"
    with Cons.prems(2) have "key b \<noteq> key a" by (metis distinct.simps(2) image_eqI list.set_map list.simps(9))
    with Cons.prems(1) show "outcome b (get (snd (visit a s)) (key b)) = outcome b (get s (key b))"
      by (simp add: visit_get)
  qed
  with Cons show ?case
    by (auto simp: split_def Let_def visit_outcome visit_ok map_filter_simps split: option.split)
qed (simp add: map_filter_simps)

text \<open>Outcomes of a sweep over records that are listed by what the sweep needs of them.\<close>

lemma sweep_outcomes_map:
  assumes "xs = map h ys" and "distinct (map key xs)" and "ok s"
    and "\<And>y. y \<in> set ys \<Longrightarrow> outcome (h y) (get s (key (h y))) = Some (g y)"
  shows "fst (filter_map_st visit xs s) = map g ys"
proof -
  have "List.map_filter (\<lambda>a. outcome a (get s (key a))) (map h ys)
      = List.map_filter (\<lambda>y. outcome (h y) (get s (key (h y)))) ys"
    by (simp add: List.map_filter_def filter_map comp_def)
  also have "\<dots> = map g ys" using assms(4) by (rule map_filter_all_Some)
  finally show ?thesis using sweep_outcomes [OF assms(3,2)] assms(1) by simp
qed

lemma sweep_get_other:
  "ok s \<Longrightarrow> k \<notin> key ` set xs \<Longrightarrow> get (snd (filter_map_st visit xs s)) k = get s k"
  by (induction xs arbitrary: s) (auto simp: split_def Let_def visit_get visit_ok)

lemma sweep_get:
  "ok s \<Longrightarrow> distinct (map key xs) \<Longrightarrow> a \<in> set xs \<Longrightarrow>
     get (snd (filter_map_st visit xs s)) (key a) = becomes a (get s (key a))"
proof (induction xs arbitrary: s)
  case (Cons b xs)
  show ?case
  proof (cases "a = b")
    case True
    with Cons.prems have "key a \<notin> key ` set xs" by auto
    with True Cons.prems(1) show ?thesis
      by (simp add: split_def Let_def sweep_get_other visit_get visit_ok)
  next
    case False
    with Cons.prems have "a \<in> set xs" and "key a \<noteq> key b" by (auto simp: image_iff)
    with Cons show ?thesis by (simp add: split_def Let_def visit_get visit_ok)
  qed
qed simp

end

lemma sort_key_map: "sort_key f (map g xs) = map g (sort_key (\<lambda>x. f (g x)) xs)"
proof -
  have "insort_key f (g x) (map g ys) = map g (insort_key (\<lambda>x. f (g x)) x ys)" for x ys
    by (induction ys) auto
  then show ?thesis by (induction xs) auto
qed

text \<open>Values that carry their own key are as different as the keys.\<close>

lemma hm_values_keyed:
  assumes "hm_wf m" and "\<And>k v. hm_get m k = Some v \<Longrightarrow> key v = k"
  shows "distinct (map key (hm_values m))"
proof -
  from assms have "map key (hm_values m) = map fst m"
    by (auto simp: hm_values_def hm_wf_def)
  with assms(1) show ?thesis by (simp add: hm_wf_def)
qed

section \<open>Exclusive claims\<close>

text \<open>
  A registry of transactions gives every transaction a set of resources (call
  legs, call identities) that it claims; the registry is exclusive when no
  resource is claimed by two of its transactions.
\<close>

definition exclusive :: "('v \<Rightarrow> 'c set) \<Rightarrow> ('k, 'v) hash_map \<Rightarrow> bool" where
  "exclusive claims m \<longleftrightarrow>
     (\<forall>k k' v v'. hm_get m k = Some v \<longrightarrow> hm_get m k' = Some v' \<longrightarrow> k \<noteq> k'
        \<longrightarrow> claims v \<inter> claims v' = {})"

lemma exclusive_Nil [simp, intro]: "exclusive claims []"
  by (simp add: exclusive_def)

lemma exclusive_insert:
  assumes "exclusive claims m"
    and "\<And>k' v'. hm_get m k' = Some v' \<Longrightarrow> k' \<noteq> k \<Longrightarrow> claims v \<inter> claims v' = {}"
  shows "exclusive claims (hm_insert k v m)"
  unfolding exclusive_def
proof (intro allI impI)
  fix k1 k2 v1 v2
  assume "hm_get (hm_insert k v m) k1 = Some v1"
    and "hm_get (hm_insert k v m) k2 = Some v2" and "k1 \<noteq> k2"
  then show "claims v1 \<inter> claims v2 = {}"
    using assms unfolding exclusive_def
    by (cases "k1 = k"; cases "k2 = k") (simp_all, blast+)
qed

lemma exclusive_remove [intro]: "exclusive claims m \<Longrightarrow> exclusive claims (hm_remove k m)"
  by (auto simp: exclusive_def split: if_splits)

text \<open>A registry whose transactions claim no more than before stays exclusive.\<close>

lemma exclusive_pointwise:
  assumes "exclusive claims m"
    and "\<And>k v'. hm_get m' k = Some v' \<Longrightarrow> \<exists>v. hm_get m k = Some v \<and> claims v' \<subseteq> claims v"
  shows "exclusive claims m'"
  unfolding exclusive_def
proof (intro allI impI)
  fix k k' v v'
  assume "hm_get m' k = Some v" and "hm_get m' k' = Some v'" and "k \<noteq> k'"
  moreover obtain w where "hm_get m k = Some w" "claims v \<subseteq> claims w"
    using assms(2) \<open>hm_get m' k = Some v\<close> by blast
  moreover obtain w' where "hm_get m k' = Some w'" "claims v' \<subseteq> claims w'"
    using assms(2) \<open>hm_get m' k' = Some v'\<close> by blast
  ultimately show "claims v \<inter> claims v' = {}"
    using assms(1) unfolding exclusive_def by blast
qed

text \<open>Replacing a transaction by one that claims no more keeps the registry exclusive.\<close>

lemma exclusive_modify:
  assumes "exclusive claims m" and "\<And>v. hm_get m k = Some v \<Longrightarrow> claims (f v) \<subseteq> claims v"
  shows "exclusive claims (hm_modify k f m)"
proof (cases "hm_get m k")
  case None
  with assms show ?thesis by (simp add: hm_modify_def)
next
  case (Some v)
  with assms have "claims (f v) \<inter> claims v' = {}"
    if "hm_get m k' = Some v'" and "k' \<noteq> k" for k' v'
    using that unfolding exclusive_def by blast
  with Some assms show ?thesis
    by (simp add: hm_modify_def exclusive_insert)
qed

lemma exclusive_replace:
  assumes "exclusive claims m" and "hm_get m k = Some v" and "claims v' \<subseteq> claims v"
  shows "exclusive claims (hm_insert k v' m)"
  using exclusive_modify [of claims m k "\<lambda>_. v'"] assms by (simp add: hm_modify_def)

lemma exclusive_same_key:
  assumes "exclusive claims m" and "hm_get m k = Some v" and "hm_get m k' = Some v'"
    and "c \<in> claims v" and "c \<in> claims v'"
  shows "k = k'"
  using assms unfolding exclusive_def by blast

text \<open>The owner of a resource is found whatever the iteration order.\<close>

lemma exclusive_find_iff:
  assumes "hm_wf m" and "exclusive claims m"
  shows "find (\<lambda>v. c \<in> claims v) (hm_values m) = Some v
           \<longleftrightarrow> (\<exists>k. hm_get m k = Some v \<and> c \<in> claims v)" (is "?L \<longleftrightarrow> ?R")
proof
  assume ?L
  with assms(1) show ?R by (auto dest: find_SomeD simp: hm_values_iff)
next
  assume ?R
  then obtain k where k: "hm_get m k = Some v" "c \<in> claims v" by blast
  show ?L
  proof (rule find_unique)
    show "v \<in> set (hm_values m)" using k(1) by (rule hm_get_in_values)
    show "c \<in> claims v" by (rule k(2))
    fix w assume "w \<in> set (hm_values m)" and "c \<in> claims w"
    then show "w = v"
      using assms k exclusive_same_key [OF assms(2)] by (fastforce simp: hm_values_iff)
  qed
qed

section \<open>Operations guarded by a transaction identity\<close>

text \<open>
  The registries of the call-control crate hand out a transaction identity and
  accept a later operation only together with that exact identity, so that a
  completion which arrives late cannot touch the transaction that replaced its
  own. The contract of one such operation: it is refused, and changes nothing,
  unless the device holds a transaction with that identity; and it never touches
  the transaction of another device.
\<close>

locale guarded_operation =
  fixes lookup :: "'r \<Rightarrow> 'd \<Rightarrow> 't option"
    and ident :: "'t \<Rightarrow> 'i"
    and oper :: "'d \<Rightarrow> 'i \<Rightarrow> 'r \<Rightarrow> ('e + 'a) \<times> 'r"
    and conflict :: 'e
  assumes stale: "map_option ident (lookup r d) \<noteq> Some i \<Longrightarrow> oper d i r = (Inl conflict, r)"
    and frame: "d' \<noteq> d \<Longrightarrow> lookup (snd (oper d i r)) d' = lookup r d'"
begin

text \<open>A burst of operations whose identities are all out of date changes nothing.\<close>

lemma stale_burst:
  assumes "\<And>d i. (d, i) \<in> set ops \<Longrightarrow> map_option ident (lookup r d) \<noteq> Some i"
  shows "fold (\<lambda>(d, i) r. snd (oper d i r)) ops r = r"
proof -
  from assms have "\<forall>(d, i) \<in> set ops. snd (oper d i r) = r"
    using stale by fastforce
  then show ?thesis
    by (induction ops) auto
qed

text \<open>Operations addressed to other devices leave a device's transaction alone.\<close>

lemma frame_burst:
  assumes "\<And>d' i. (d', i) \<in> set ops \<Longrightarrow> d' \<noteq> d"
  shows "lookup (fold (\<lambda>(d, i) r. snd (oper d i r)) ops r) d = lookup r d"
proof -
  from assms have "\<forall>(d', i) \<in> set ops. d \<noteq> d'" by auto
  then show ?thesis
    by (induction ops arbitrary: r) (auto simp: frame)
qed

lemma accepted_current:
  assumes "oper d i r = (Inr x, r')"
  obtains t where "lookup r d = Some t" and "ident t = i"
proof -
  from assms have "map_option ident (lookup r d) = Some i"
    using stale [of r d i] by fastforce
  then show ?thesis by (auto intro: that)
qed

end

text \<open>
  An operation that ends its transaction: once it is accepted the device holds
  none, so the same identity is accepted at most once.
\<close>

locale terminal_operation = guarded_operation +
  assumes ends: "oper d i r = (Inr x, r') \<Longrightarrow> lookup r' d = None"
begin

lemma exactly_once:
  assumes "oper d i r = (Inr x, r')"
  shows "oper d j r' = (Inl conflict, r')"
  by (rule stale) (simp add: ends [OF assms])

text \<open>However often it is retried, the accepted operation stays the only one.\<close>

lemma retries_refused:
  assumes "oper d i r = (Inr x, r')"
  shows "fold (\<lambda>(d, i) r. snd (oper d i r)) (map (Pair d) is) r' = r'"
proof (rule stale_burst)
  fix d' i' assume "(d', i') \<in> set (map (Pair d) is)"
  then have "d' = d" by auto
  with ends [OF assms] show "map_option ident (lookup r' d') \<noteq> Some i'" by simp
qed

end

end
