(* ===== verification/Id_Allocation.thy ===== *)
theory Id_Allocation
  imports Sccp_Prelude
begin

text \<open>
  Wrapping identity counters. Several registries draw identities from a machine
  word that wraps around, skips zero and passes over the identities in use. The
  loop is the same everywhere, so that its termination and freshness are proved
  here once, for any word size: as long as fewer identities are in use than the
  word has nonzero values, the search ends with an unused nonzero identity.
\<close>

text \<open>\<open>id.wrapping_add(1).max(1)\<close>.\<close>

definition next_nonzero :: "'a::len word \<Rightarrow> 'a word" where
  "next_nonzero i = max (i + 1) 1"

lemma max_one_nonzero: "(i :: 'a::len word) \<noteq> 0 \<Longrightarrow> max i 1 = i"
  by (auto simp: max_def word_le_nat_alt word_unat_eq_iff)

lemma max_one_pos [simp]: "max i 1 \<noteq> (0 :: 'a::len word)"
  by (auto simp: max_def word_le_nat_alt word_unat_eq_iff)

lemma next_nonzero_pos [simp]: "next_nonzero i \<noteq> 0"
  by (simp add: next_nonzero_def)

lemma unat_next_nonzero:
  fixes i :: "'a::len word"
  assumes "i \<noteq> 0"
  shows "unat (next_nonzero i) - 1 = Suc (unat i - 1) mod (2 ^ LENGTH('a) - 1)"
proof (cases "i = - 1")
  case True
  then have "next_nonzero i = 1" by (simp add: next_nonzero_def max_def)
  moreover have "unat i = 2 ^ LENGTH('a) - 1"
    using True by (simp add: unsigned_minus_1_eq_mask mask_eq_exp_minus_1)
  moreover have "unat i \<noteq> 0" using assms by (simp add: unat_0_iff)
  ultimately have "Suc (unat i - 1) = 2 ^ LENGTH('a) - 1" by linarith
  with \<open>next_nonzero i = 1\<close> show ?thesis by simp
next
  case False
  then have nz: "1 + i \<noteq> 0" by (metis add_eq_0_iff add.commute)
  then have "unat (1 + i) = Suc (unat i)" by (rule unatSuc)
  moreover have "next_nonzero i = 1 + i"
    using nz by (simp add: next_nonzero_def max_one_nonzero add.commute)
  moreover have "unat (1 + i) < 2 ^ LENGTH('a)" by simp
  moreover have "unat i \<noteq> 0" using assms by (simp add: unat_0_iff)
  ultimately show ?thesis by simp
qed

text \<open>The candidates in the order in which the loop tries them.\<close>

definition candidate :: "'a::len word \<Rightarrow> nat \<Rightarrow> 'a word" where
  "candidate n k = (next_nonzero ^^ k) (max n 1)"

lemma candidate_pos [simp]: "candidate n k \<noteq> 0"
  by (cases k) (simp_all add: candidate_def)

lemma candidate_0: "candidate n 0 = max n 1"
  by (simp add: candidate_def)

lemma candidate_Suc: "candidate n (Suc k) = candidate (next_nonzero (max n 1)) k"
  by (simp add: candidate_def max_one_nonzero funpow_Suc_right del: funpow.simps)

lemma candidate_residue:
  fixes n :: "'a::len word"
  assumes "1 < LENGTH('a)"
  shows "unat (candidate n k) - 1 = (unat (max n 1) - 1 + k) mod (2 ^ LENGTH('a) - 1)"
proof (induction k)
  case 0
  have "unat (max n 1) < 2 ^ LENGTH('a)" by simp
  moreover have "unat (max n 1) \<noteq> 0" by (metis max_one_pos unat_0_iff)
  ultimately have "unat (max n 1) - 1 < 2 ^ LENGTH('a) - 1" by linarith
  then show ?case by (simp add: candidate_0)
next
  case (Suc k)
  have "unat (candidate n (Suc k)) - 1 = Suc (unat (candidate n k) - 1) mod (2 ^ LENGTH('a) - 1)"
    using unat_next_nonzero [OF candidate_pos, of n k] by (simp add: candidate_def)
  also have "\<dots> = Suc (unat (max n 1) - 1 + k) mod (2 ^ LENGTH('a) - 1)"
    unfolding Suc.IH by (rule mod_Suc_eq)
  finally show ?case by simp
qed

lemma candidate_inj:
  fixes n :: "'a::len word"
  assumes "1 < LENGTH('a)" and "candidate n j = candidate n k"
    and "j < 2 ^ LENGTH('a) - 1" and "k < 2 ^ LENGTH('a) - 1"
  shows "j = k"
proof -
  let ?M = "2 ^ LENGTH('a) - 1 :: nat" and ?b = "unat (max n 1) - 1"
  have "(?b + j) mod ?M = (?b + k) mod ?M"
    using assms(2) candidate_residue [OF assms(1), of n] by metis
  then obtain p q where "?b + j + ?M * p = ?b + k + ?M * q"
    unfolding nat_mod_eq_iff by blast
  then have "j + ?M * p = k + ?M * q" by simp
  then have "j mod ?M = k mod ?M"
    unfolding nat_mod_eq_iff by blast
  with assms(3,4) show ?thesis by simp
qed

text \<open>Some candidate among the first \<open>length used + 1\<close> is unused.\<close>

lemma candidate_unused:
  fixes n :: "'a::len word"
  assumes "1 < LENGTH('a)" and "length used < 2 ^ LENGTH('a) - 1"
  shows "\<exists>k \<le> length used. candidate n k \<notin> set used"
proof (rule ccontr)
  assume "\<not> ?thesis"
  then have "candidate n ` {..length used} \<subseteq> set used" by auto
  moreover have "inj_on (candidate n) {..length used}"
    using assms by (intro inj_onI candidate_inj [of n]) auto
  ultimately have "card {..length used} \<le> card (set used)"
    by (metis card_image card_mono finite_set)
  also have "\<dots> \<le> length used" by (rule card_length)
  finally show False by simp
qed

end
