(* ===== verification/Call_Transfer.thy ===== *)
theory Call_Transfer
  imports Id_Allocation
begin

text \<open>
  Transfer transactions, \<^verbatim>\<open>asterisk-module/src/call/transfer.rs\<close>: one transaction
  moves a source call onto a consultation call. The transaction is a small state
  machine over its phase; the registry keeps at most one transaction per device
  and never lets two transactions share a call leg. The controller's use of the
  registry (\<^verbatim>\<open>runtime/controller/domains/transfer.rs\<close>) is the event type at the end
  of the theory.
\<close>

section \<open>Data\<close>

type_synonym transfer_id = u64

record transfer_leg =
  leg_handset_call_id :: call_id
  leg_pbx_call_id :: pbx_call_id

datatype transfer_source_state = SourceConnected | SourceHeld

datatype transfer_mode = Consultation | Direct

datatype transfer_phase = Collecting | Routing | Ringing | Connected | Completing

datatype transfer_trigger = TransferKey | ConsultationHangupTrigger

datatype deferred_transfer_action = DeferEndCall | DeferOnHook

datatype transfer_completion_kind = Blind | Attended | DirectCompletion

record transfer_completion =
  tc_transaction_id :: transfer_id
  tc_device_id :: device_id
  tc_source :: transfer_leg
  tc_consultation :: transfer_leg
  tc_kind :: transfer_completion_kind

datatype transfer_cancellation_reason =
    EndCall | SourceResume | ConsultationFailure | ConsultationHangup
  | SourceHangup | DeviceDisconnect | BackendFailure

datatype transfer_source_recovery = RestoreConnected | RetainHeld | SourceGone

datatype transfer_setup_milestone =
    SourceBackendHeld | SourceHandsetHeld
  | ConsultationChannelCreated | ConsultationHandsetStarted

datatype transfer_rejection =
    Conflict | SameCall | WrongCall | ConsultationMissing | InvalidPhase
  | InvalidSelection | HangupCompletionDisabled | CompletionInProgress

record transfer_transaction =
  tt_id :: transfer_id
  tt_device_id :: device_id
  tt_source :: transfer_leg
  tt_source_state :: transfer_source_state
  tt_consultation :: "transfer_leg option"
  tt_mode :: transfer_mode
  tt_phase :: transfer_phase
  tt_complete_on_hangup :: bool
  tt_execution_progress :: "transfer_setup_milestone set"
  tt_source_terminated :: bool
  tt_consultation_terminated :: bool
  tt_deferred_action :: "deferred_transfer_action option"

record transfer_cancellation =
  tx_transaction :: transfer_transaction
  tx_reason :: transfer_cancellation_reason
  tx_source_recovery :: transfer_source_recovery

section \<open>One transaction\<close>

definition transfer_consultation ::
  "transfer_id \<Rightarrow> device_id \<Rightarrow> transfer_leg \<Rightarrow> transfer_source_state \<Rightarrow> bool \<Rightarrow> transfer_transaction"
where
  "transfer_consultation i d source source_state complete_on_hangup =
     \<lparr>tt_id = i, tt_device_id = d, tt_source = source, tt_source_state = source_state,
      tt_consultation = None, tt_mode = Consultation, tt_phase = Collecting,
      tt_complete_on_hangup = complete_on_hangup, tt_execution_progress = {},
      tt_source_terminated = False, tt_consultation_terminated = False,
      tt_deferred_action = None\<rparr>"

definition transfer_direct ::
  "transfer_id \<Rightarrow> device_id \<Rightarrow> transfer_leg \<Rightarrow> transfer_source_state \<Rightarrow> transfer_leg
     \<Rightarrow> transfer_rejection + transfer_transaction"
where
  "transfer_direct i d source source_state consultation =
     (if source = consultation then Inl SameCall
      else Inr
        \<lparr>tt_id = i, tt_device_id = d, tt_source = source, tt_source_state = source_state,
         tt_consultation = Some consultation, tt_mode = Direct, tt_phase = Connected,
         tt_complete_on_hangup = False, tt_execution_progress = {},
         tt_source_terminated = False, tt_consultation_terminated = False,
         tt_deferred_action = None\<rparr>)"

definition attach_consultation ::
  "transfer_leg \<Rightarrow> transfer_transaction \<Rightarrow> (transfer_rejection + unit) \<times> transfer_transaction"
where
  "attach_consultation leg t =
     (if tt_mode t \<noteq> Consultation \<or> tt_phase t \<noteq> Collecting \<or> tt_consultation t \<noteq> None
      then (Inl Conflict, t)
      else if tt_source t = leg then (Inl SameCall, t)
      else (Inr (), t\<lparr>tt_consultation := Some leg\<rparr>))"

fun valid_advance :: "transfer_phase \<Rightarrow> transfer_phase \<Rightarrow> bool" where
  "valid_advance Collecting Routing = True"
| "valid_advance Routing Ringing = True"
| "valid_advance Routing Connected = True"
| "valid_advance Ringing Connected = True"
| "valid_advance _ _ = False"

definition advance_consultation ::
  "transfer_leg \<Rightarrow> transfer_phase \<Rightarrow> transfer_transaction
     \<Rightarrow> (transfer_rejection + unit) \<times> transfer_transaction"
where
  "advance_consultation leg phase t =
     (if tt_consultation t \<noteq> Some leg \<or> tt_mode t \<noteq> Consultation then (Inl WrongCall, t)
      else if \<not> valid_advance (tt_phase t) phase then (Inl InvalidPhase, t)
      else (Inr (), t\<lparr>tt_phase := phase\<rparr>))"

fun completion_kind :: "transfer_mode \<Rightarrow> transfer_phase \<Rightarrow> transfer_completion_kind option" where
  "completion_kind Direct Connected = Some DirectCompletion"
| "completion_kind Consultation Ringing = Some Blind"
| "completion_kind Consultation Connected = Some Attended"
| "completion_kind _ _ = None"

definition begin_completion ::
  "transfer_trigger \<Rightarrow> transfer_leg \<Rightarrow> transfer_transaction
     \<Rightarrow> (transfer_rejection + transfer_completion) \<times> transfer_transaction"
where
  "begin_completion trigger leg t =
     (if tt_phase t = Completing then (Inl CompletionInProgress, t)
      else case tt_consultation t of
        None \<Rightarrow> (Inl ConsultationMissing, t)
      | Some consultation \<Rightarrow>
          if consultation \<noteq> leg then (Inl WrongCall, t)
          else if trigger = ConsultationHangupTrigger \<and> \<not> tt_complete_on_hangup t
          then (Inl HangupCompletionDisabled, t)
          else case completion_kind (tt_mode t) (tt_phase t) of
            None \<Rightarrow> (Inl InvalidPhase, t)
          | Some kind \<Rightarrow>
              (Inr \<lparr>tc_transaction_id = tt_id t, tc_device_id = tt_device_id t,
                    tc_source = tt_source t, tc_consultation = consultation, tc_kind = kind\<rparr>,
               t\<lparr>tt_phase := Completing\<rparr>))"

definition transfer_contains :: "transfer_transaction \<Rightarrow> transfer_leg \<Rightarrow> bool" where
  "transfer_contains t leg \<longleftrightarrow> tt_source t = leg \<or> tt_consultation t = Some leg"

definition cancellation ::
  "transfer_cancellation_reason \<Rightarrow> transfer_leg option \<Rightarrow> transfer_transaction
     \<Rightarrow> transfer_rejection + transfer_cancellation"
where
  "cancellation reason trigger t =
     (if tt_phase t = Completing \<and> reason \<notin> {BackendFailure, DeviceDisconnect}
      then Inl CompletionInProgress
      else if (case trigger of None \<Rightarrow> False | Some leg \<Rightarrow> \<not> transfer_contains t leg)
      then Inl WrongCall
      else Inr
        \<lparr>tx_transaction = t, tx_reason = reason,
         tx_source_recovery =
           (if tt_source_terminated t \<or> reason \<in> {SourceHangup, DeviceDisconnect}
            then SourceGone
            else case tt_source_state t of
              SourceConnected \<Rightarrow> RestoreConnected
            | SourceHeld \<Rightarrow> RetainHeld)\<rparr>)"

definition note_hangup ::
  "transfer_leg \<Rightarrow> transfer_transaction \<Rightarrow> (transfer_rejection + unit) \<times> transfer_transaction"
where
  "note_hangup leg t =
     (if leg = tt_source t then (Inr (), t\<lparr>tt_source_terminated := True\<rparr>)
      else if tt_consultation t = Some leg then (Inr (), t\<lparr>tt_consultation_terminated := True\<rparr>)
      else (Inl WrongCall, t))"

definition defer_action ::
  "deferred_transfer_action \<Rightarrow> transfer_transaction
     \<Rightarrow> (transfer_rejection + unit) \<times> transfer_transaction"
where
  "defer_action action t =
     (if tt_phase t \<noteq> Completing then (Inl InvalidPhase, t)
      else (Inr (),
        t\<lparr>tt_deferred_action :=
            Some (if tt_deferred_action t = Some DeferOnHook \<or> action = DeferOnHook
                  then DeferOnHook else DeferEndCall)\<rparr>))"

definition record_setup_milestone ::
  "transfer_setup_milestone \<Rightarrow> transfer_transaction
     \<Rightarrow> (transfer_rejection + unit) \<times> transfer_transaction"
where
  "record_setup_milestone milestone t =
     (if tt_mode t \<noteq> Consultation \<or> tt_phase t = Completing then (Inl InvalidPhase, t)
      else
        (if milestone \<notin> tt_execution_progress t then Inr () else Inl Conflict,
         t\<lparr>tt_execution_progress := insert milestone (tt_execution_progress t)\<rparr>))"

section \<open>The registry\<close>

record transfer_registry =
  tr_next_id :: transfer_id
  tr_by_device :: "(device_id, transfer_transaction) hash_map"

definition transfer_registry_default :: transfer_registry where
  "transfer_registry_default = \<lparr>tr_next_id = 0, tr_by_device = []\<rparr>"

text \<open>
  The loop of \<open>allocate_id\<close>: the counter wraps around, skips zero and passes over
  the identities in use. \<open>None\<close> is a loop that does not return.
\<close>

partial_function (option) allocate_loop :: "u64 \<Rightarrow> u64 list \<Rightarrow> (u64 \<times> u64) option" where
  "allocate_loop next_id used =
     (let i = max next_id 1; next_id' = max (i + 1) 1
      in if i \<notin> set used then Some (i, next_id') else allocate_loop next_id' used)"

definition allocate_id :: "transfer_registry \<Rightarrow> (transfer_id \<times> transfer_registry) option" where
  "allocate_id r =
     (case allocate_loop (tr_next_id r) (map tt_id (hm_values (tr_by_device r))) of
        None \<Rightarrow> None
      | Some (i, next_id') \<Rightarrow> Some (i, r\<lparr>tr_next_id := next_id'\<rparr>))"

definition transfer_insert ::
  "transfer_transaction \<Rightarrow> transfer_registry \<Rightarrow> (transfer_rejection + unit) \<times> transfer_registry"
where
  "transfer_insert t r =
     (if tt_consultation t = None then (Inl ConsultationMissing, r)
      else if hm_contains (tr_by_device r) (tt_device_id t)
        \<or> list_ex (\<lambda>existing. transfer_contains existing (tt_source t)
             \<or> (case tt_consultation t of None \<Rightarrow> False
                 | Some leg \<Rightarrow> transfer_contains existing leg))
             (hm_values (tr_by_device r))
      then (Inl Conflict, r)
      else (Inr (), r\<lparr>tr_by_device := hm_insert (tt_device_id t) t (tr_by_device r)\<rparr>))"

definition transfer_get :: "transfer_registry \<Rightarrow> device_id \<Rightarrow> transfer_transaction option" where
  "transfer_get r d = hm_get (tr_by_device r) d"

definition for_leg :: "transfer_leg \<Rightarrow> transfer_registry \<Rightarrow> transfer_transaction option" where
  "for_leg leg r = find (\<lambda>t. transfer_contains t leg) (hm_values (tr_by_device r))"

text \<open>A method call through \<open>get_mut\<close>: the transaction it leaves behind is stored back.\<close>

definition transfer_get_mut ::
  "device_id \<Rightarrow> (transfer_transaction \<Rightarrow> (transfer_rejection + 'a) \<times> transfer_transaction)
     \<Rightarrow> transfer_registry \<Rightarrow> (transfer_rejection + 'a) \<times> transfer_registry"
where
  "transfer_get_mut d m r =
     (case transfer_get r d of
        None \<Rightarrow> (Inl Conflict, r)
      | Some t \<Rightarrow>
          (fst (m t), r\<lparr>tr_by_device := hm_insert d (snd (m t)) (tr_by_device r)\<rparr>))"

text \<open>The same with \<open>filter(|transaction| transaction.id == transaction_id)\<close> in front.\<close>

definition transfer_exact_mut ::
  "device_id \<Rightarrow> transfer_id
     \<Rightarrow> (transfer_transaction \<Rightarrow> (transfer_rejection + 'a) \<times> transfer_transaction)
     \<Rightarrow> transfer_registry \<Rightarrow> (transfer_rejection + 'a) \<times> transfer_registry"
where
  "transfer_exact_mut d i m r =
     (case transfer_get r d of
        None \<Rightarrow> (Inl Conflict, r)
      | Some t \<Rightarrow> if tt_id t = i then transfer_get_mut d m r else (Inl Conflict, r))"

definition registry_begin_completion ::
  "device_id \<Rightarrow> transfer_trigger \<Rightarrow> transfer_leg \<Rightarrow> transfer_registry
     \<Rightarrow> (transfer_rejection + transfer_completion) \<times> transfer_registry"
where
  "registry_begin_completion d trigger leg = transfer_get_mut d (begin_completion trigger leg)"

definition transfer_commit ::
  "device_id \<Rightarrow> transfer_id \<Rightarrow> transfer_registry
     \<Rightarrow> transfer_transaction option \<times> transfer_registry"
where
  "transfer_commit d i r =
     (case transfer_get r d of
        None \<Rightarrow> (None, r)
      | Some t \<Rightarrow>
          if tt_id t \<noteq> i \<or> tt_phase t \<noteq> Completing then (None, r)
          else (Some t, r\<lparr>tr_by_device := hm_remove d (tr_by_device r)\<rparr>))"

definition transfer_cancel ::
  "transfer_cancellation_reason \<Rightarrow> transfer_leg option \<Rightarrow> device_id \<Rightarrow> transfer_id
     \<Rightarrow> transfer_registry \<Rightarrow> (transfer_rejection + transfer_cancellation) \<times> transfer_registry"
where
  "transfer_cancel reason trigger d i r =
     (case transfer_get r d of
        None \<Rightarrow> (Inl Conflict, r)
      | Some t \<Rightarrow>
          if tt_id t \<noteq> i then (Inl Conflict, r)
          else case cancellation reason trigger t of
            Inl e \<Rightarrow> (Inl e, r)
          | Inr c \<Rightarrow> (Inr c, r\<lparr>tr_by_device := hm_remove d (tr_by_device r)\<rparr>))"

definition cancel_for_leg ::
  "transfer_leg \<Rightarrow> transfer_cancellation_reason \<Rightarrow> transfer_registry
     \<Rightarrow> (transfer_rejection + transfer_cancellation) \<times> transfer_registry"
where
  "cancel_for_leg leg reason r =
     (case find (\<lambda>(d, t). transfer_contains t leg) (tr_by_device r) of
        None \<Rightarrow> (Inl Conflict, r)
      | Some (d, t) \<Rightarrow> transfer_cancel reason (Some leg) d (tt_id t) r)"

definition registry_note_hangup ::
  "transfer_leg \<Rightarrow> transfer_registry \<Rightarrow> (transfer_rejection + unit) \<times> transfer_registry"
where
  "registry_note_hangup leg r =
     (case find (\<lambda>(d, t). transfer_contains t leg) (tr_by_device r) of
        None \<Rightarrow> (Inl Conflict, r)
      | Some (d, t) \<Rightarrow> transfer_get_mut d (note_hangup leg) r)"

definition registry_defer_action ::
  "deferred_transfer_action \<Rightarrow> device_id \<Rightarrow> transfer_id \<Rightarrow> transfer_registry
     \<Rightarrow> (transfer_rejection + unit) \<times> transfer_registry"
where
  "registry_defer_action action d i = transfer_exact_mut d i (defer_action action)"

definition registry_record_setup_milestone ::
  "transfer_setup_milestone \<Rightarrow> device_id \<Rightarrow> transfer_id \<Rightarrow> transfer_registry
     \<Rightarrow> (transfer_rejection + unit) \<times> transfer_registry"
where
  "registry_record_setup_milestone milestone d i =
     transfer_exact_mut d i (record_setup_milestone milestone)"

section \<open>Steps of the controller\<close>

text \<open>
  The sequences of registry calls the controller makes. Starting a transfer draws
  an identity, builds the transaction and inserts it; every other event is one
  call. A step is undefined (\<open>None\<close>) only if \<open>allocate_id\<close> does not return.
\<close>

definition start_consultation ::
  "device_id \<Rightarrow> transfer_leg \<Rightarrow> transfer_leg \<Rightarrow> bool \<Rightarrow> transfer_registry
     \<Rightarrow> ((transfer_rejection + unit) \<times> transfer_registry) option"
where
  "start_consultation d source consultation complete_on_hangup r =
     (case allocate_id r of
        None \<Rightarrow> None
      | Some (i, r1) \<Rightarrow>
          Some (case attach_consultation consultation
                  (transfer_consultation i d source SourceConnected complete_on_hangup) of
            (Inl e, _) \<Rightarrow> (Inl e, r1)
          | (Inr _, t) \<Rightarrow> transfer_insert t r1))"

definition start_direct ::
  "device_id \<Rightarrow> transfer_leg \<Rightarrow> transfer_source_state \<Rightarrow> transfer_leg \<Rightarrow> transfer_registry
     \<Rightarrow> ((transfer_rejection + unit) \<times> transfer_registry) option"
where
  "start_direct d source source_state consultation r =
     (case allocate_id r of
        None \<Rightarrow> None
      | Some (i, r1) \<Rightarrow>
          Some (case transfer_direct i d source source_state consultation of
            Inl e \<Rightarrow> (Inl e, r1)
          | Inr t \<Rightarrow> transfer_insert t r1))"

text \<open>\<open>advance_transfer_for_pbx\<close>, from the leg it has looked up onwards.\<close>

definition advance_for_leg ::
  "transfer_leg \<Rightarrow> transfer_phase \<Rightarrow> transfer_registry \<Rightarrow> transfer_registry"
where
  "advance_for_leg leg phase r =
     (case for_leg leg r of
        None \<Rightarrow> r
      | Some t \<Rightarrow>
          if tt_consultation t = Some leg
          then snd (transfer_get_mut (tt_device_id t) (advance_consultation leg phase) r)
          else r)"

datatype transfer_event =
    StartConsultation device_id transfer_leg transfer_leg bool
  | StartDirect device_id transfer_leg transfer_source_state transfer_leg
  | Advance transfer_leg transfer_phase
  | Complete device_id transfer_trigger transfer_leg
  | Commit device_id transfer_id
  | Cancel transfer_cancellation_reason "transfer_leg option" device_id transfer_id
  | CancelForLeg transfer_leg transfer_cancellation_reason
  | NoteHangup transfer_leg
  | Defer deferred_transfer_action device_id transfer_id
  | Milestone transfer_setup_milestone device_id transfer_id

fun transfer_apply :: "transfer_event \<Rightarrow> transfer_registry \<Rightarrow> transfer_registry option" where
  "transfer_apply (StartConsultation d s c h) r = map_option snd (start_consultation d s c h r)"
| "transfer_apply (StartDirect d s st c) r = map_option snd (start_direct d s st c r)"
| "transfer_apply (Advance leg phase) r = Some (advance_for_leg leg phase r)"
| "transfer_apply (Complete d trigger leg) r = Some (snd (registry_begin_completion d trigger leg r))"
| "transfer_apply (Commit d i) r = Some (snd (transfer_commit d i r))"
| "transfer_apply (Cancel reason trigger d i) r = Some (snd (transfer_cancel reason trigger d i r))"
| "transfer_apply (CancelForLeg leg reason) r = Some (snd (cancel_for_leg leg reason r))"
| "transfer_apply (NoteHangup leg) r = Some (snd (registry_note_hangup leg r))"
| "transfer_apply (Defer action d i) r = Some (snd (registry_defer_action action d i r))"
| "transfer_apply (Milestone m d i) r = Some (snd (registry_record_setup_milestone m d i r))"

inductive transfer_reachable :: "transfer_registry \<Rightarrow> bool" where
  start: "transfer_reachable transfer_registry_default"
| step: "transfer_reachable r \<Longrightarrow> transfer_apply ev r = Some r' \<Longrightarrow> transfer_reachable r'"

section \<open>Invariant\<close>

definition legs :: "transfer_transaction \<Rightarrow> transfer_leg set" where
  "legs t = insert (tt_source t) (set_option (tt_consultation t))"

definition transaction_ok :: "transfer_transaction \<Rightarrow> bool" where
  "transaction_ok t \<longleftrightarrow>
     (\<exists>c. tt_consultation t = Some c \<and> c \<noteq> tt_source t)
     \<and> (tt_mode t = Direct \<longrightarrow> tt_phase t \<in> {Connected, Completing}
          \<and> tt_execution_progress t = {} \<and> \<not> tt_complete_on_hangup t)
     \<and> (tt_deferred_action t \<noteq> None \<longrightarrow> tt_phase t = Completing)"

definition transfer_inv :: "transfer_registry \<Rightarrow> bool" where
  "transfer_inv r \<longleftrightarrow>
     hm_wf (tr_by_device r)
     \<and> (\<forall>d t. transfer_get r d = Some t \<longrightarrow> tt_device_id t = d \<and> transaction_ok t)
     \<and> exclusive legs (tr_by_device r)
     \<and> exclusive (\<lambda>t. {tt_id t}) (tr_by_device r)"

definition same_transfer :: "transfer_transaction \<Rightarrow> transfer_transaction \<Rightarrow> bool" where
  "same_transfer t t' \<longleftrightarrow>
     tt_id t' = tt_id t \<and> tt_device_id t' = tt_device_id t
     \<and> tt_source t' = tt_source t \<and> tt_consultation t' = tt_consultation t"

lemma transfer_contains_iff: "transfer_contains t leg \<longleftrightarrow> leg \<in> legs t"
  by (auto simp: transfer_contains_def legs_def)

lemma same_transfer_refl [simp]: "same_transfer t t"
  by (simp add: same_transfer_def)

lemma same_transfer_legs: "same_transfer t t' \<Longrightarrow> legs t' = legs t"
  by (simp add: same_transfer_def legs_def)

text \<open>
  Every method of a transaction that is already in the registry keeps its identity
  and legs and its well-formedness.
\<close>

definition keeps_transfer ::
  "(transfer_transaction \<Rightarrow> ('e + 'a) \<times> transfer_transaction) \<Rightarrow> bool"
where
  "keeps_transfer m \<longleftrightarrow>
     (\<forall>t. transaction_ok t \<longrightarrow> same_transfer t (snd (m t)) \<and> transaction_ok (snd (m t)))"

lemma valid_advance_target: "valid_advance p q \<Longrightarrow> p \<noteq> Completing \<and> q \<noteq> Completing"
  by (cases "(p, q)" rule: valid_advance.cases) auto

lemma keeps_advance: "keeps_transfer (advance_consultation leg phase)"
  by (auto simp: keeps_transfer_def advance_consultation_def transaction_ok_def
      same_transfer_def dest: valid_advance_target)

lemma keeps_begin_completion: "keeps_transfer (begin_completion trigger leg)"
  by (auto simp: keeps_transfer_def begin_completion_def transaction_ok_def same_transfer_def
      split: option.split)

lemma keeps_note_hangup: "keeps_transfer (note_hangup leg)"
  by (auto simp: keeps_transfer_def note_hangup_def transaction_ok_def same_transfer_def)

lemma keeps_defer_action: "keeps_transfer (defer_action action)"
  by (auto simp: keeps_transfer_def defer_action_def transaction_ok_def same_transfer_def)

lemma keeps_record_setup_milestone: "keeps_transfer (record_setup_milestone milestone)"
  by (auto simp: keeps_transfer_def record_setup_milestone_def transaction_ok_def
      same_transfer_def)

lemmas keeps_transfer_methods =
  keeps_advance keeps_begin_completion keeps_note_hangup keeps_defer_action
  keeps_record_setup_milestone

lemma transfer_inv_default [simp]: "transfer_inv transfer_registry_default"
  by (simp add: transfer_inv_def transfer_registry_default_def transfer_get_def)

lemma transfer_inv_store:
  assumes "transfer_inv r" and "transfer_get r d = Some t"
    and "same_transfer t t'" and "transaction_ok t'"
  shows "transfer_inv (r\<lparr>tr_by_device := hm_insert d t' (tr_by_device r)\<rparr>)"
  using assms unfolding transfer_inv_def transfer_get_def
  by (auto intro!: exclusive_replace simp: same_transfer_legs) (auto simp: same_transfer_def)

lemma transfer_inv_drop:
  "transfer_inv r \<Longrightarrow> transfer_inv (r\<lparr>tr_by_device := hm_remove d (tr_by_device r)\<rparr>)"
  unfolding transfer_inv_def transfer_get_def
  by (auto intro!: exclusive_remove split: if_splits)

lemma transfer_inv_get_mut:
  assumes "transfer_inv r" and "keeps_transfer m"
  shows "transfer_inv (snd (transfer_get_mut d m r))"
proof (cases "transfer_get r d")
  case None
  with assms show ?thesis by (simp add: transfer_get_mut_def)
next
  case (Some t)
  with assms have "transaction_ok t" by (auto simp: transfer_inv_def)
  with assms(2) have "same_transfer t (snd (m t))" and "transaction_ok (snd (m t))"
    by (auto simp: keeps_transfer_def)
  with Some assms(1) show ?thesis
    by (simp add: transfer_get_mut_def transfer_inv_store)
qed

lemma transfer_inv_exact_mut:
  "transfer_inv r \<Longrightarrow> keeps_transfer m \<Longrightarrow> transfer_inv (snd (transfer_exact_mut d i m r))"
  by (auto simp: transfer_exact_mut_def transfer_inv_get_mut split: option.split)

lemma transfer_inv_cancel:
  "transfer_inv r \<Longrightarrow> transfer_inv (snd (transfer_cancel reason trigger d i r))"
  by (auto simp: transfer_cancel_def intro: transfer_inv_drop split: option.split sum.split)

section \<open>Identity allocation\<close>

lemma allocate_loop_finds:
  assumes "candidate n k \<notin> set used" and "\<And>j. j < k \<Longrightarrow> candidate n j \<in> set used"
  shows "allocate_loop n used = Some (candidate n k, next_nonzero (candidate n k))"
  using assms
proof (induction k arbitrary: n)
  case 0
  then show ?case
    by (subst allocate_loop.simps) (simp add: candidate_0 next_nonzero_def Let_def)
next
  case (Suc k)
  have used: "candidate n 0 \<in> set used" using Suc.prems(2) by blast
  have "allocate_loop (next_nonzero (max n 1)) used
          = Some (candidate n (Suc k), next_nonzero (candidate n (Suc k)))"
    unfolding candidate_Suc
  proof (rule Suc.IH)
    show "candidate (next_nonzero (max n 1)) k \<notin> set used"
      using Suc.prems(1) by (simp add: candidate_Suc)
    show "candidate (next_nonzero (max n 1)) j \<in> set used" if "j < k" for j
      using Suc.prems(2) [of "Suc j"] that by (simp add: candidate_Suc)
  qed
  with used show ?case
    by (subst allocate_loop.simps) (simp add: candidate_0 next_nonzero_def Let_def)
qed

lemma allocate_loop_total:
  assumes "length used < 2 ^ 64 - 1"
  obtains k where "k \<le> length used" and "candidate n k \<notin> set used"
    and "allocate_loop n used = Some (candidate n k, next_nonzero (candidate n k))"
proof -
  from assms have "\<exists>k \<le> length used. candidate n k \<notin> set used"
    by (intro candidate_unused) simp_all
  then obtain k0 where k0: "k0 \<le> length used" "candidate n k0 \<notin> set used" by blast
  define k where "k = (LEAST k. candidate n k \<notin> set used)"
  have "candidate n k \<notin> set used" unfolding k_def by (rule LeastI, rule k0(2))
  moreover have "candidate n j \<in> set used" if "j < k" for j
    using not_less_Least that unfolding k_def by blast
  moreover have "k \<le> k0" unfolding k_def by (rule Least_le, rule k0(2))
  ultimately show ?thesis
    using k0(1) that [of k] allocate_loop_finds by auto
qed

text \<open>Whatever the loop returns is nonzero and unused.\<close>

lemma allocate_loop_fresh:
  assumes "allocate_loop n used = Some (i, n')"
  shows "i \<noteq> 0 \<and> i \<notin> set used"
proof -
  have "fst (i, n') \<noteq> 0 \<and> fst (i, n') \<notin> set used"
  proof (rule allocate_loop.raw_induct
      [where P = "\<lambda>n used r. fst r \<noteq> 0 \<and> fst r \<notin> set used", OF _ assms])
    fix f :: "u64 \<Rightarrow> u64 list \<Rightarrow> (u64 \<times> u64) option" and n used r
    assume IH: "\<And>n used r. f n used = Some r \<Longrightarrow> fst r \<noteq> 0 \<and> fst r \<notin> set used"
      and eq: "(let i = max n 1; n' = max (i + 1) 1
          in if i \<notin> set used then Some (i, n') else f n' used) = Some r"
    show "fst r \<noteq> 0 \<and> fst r \<notin> set used"
    proof (cases "max n 1 \<in> set used")
      case True
      with eq IH show ?thesis by (simp add: Let_def)
    next
      case False
      with eq have "r = (max n 1, max (max n 1 + 1) 1)" by (simp add: Let_def)
      with False show ?thesis by simp
    qed
  qed
  then show ?thesis by simp
qed

lemma allocate_id_fresh:
  assumes "transfer_inv r" and "allocate_id r = Some (i, r')"
  shows "i \<noteq> 0" and "tr_by_device r' = tr_by_device r"
    and "transfer_get r d = Some t \<Longrightarrow> tt_id t \<noteq> i"
proof -
  from assms(2) obtain n' where loop:
      "allocate_loop (tr_next_id r) (map tt_id (hm_values (tr_by_device r))) = Some (i, n')"
    and r': "r' = r\<lparr>tr_next_id := n'\<rparr>"
    by (auto simp: allocate_id_def split: option.splits)
  note fresh = allocate_loop_fresh [OF loop]
  show "i \<noteq> 0" using fresh by simp
  show "tr_by_device r' = tr_by_device r" by (simp add: r')
  show "tt_id t \<noteq> i" if "transfer_get r d = Some t"
    using fresh hm_get_in_values [of "tr_by_device r" d t] that by (auto simp: transfer_get_def)
qed

section \<open>The invariant holds in every reachable registry\<close>

lemma transfer_inv_next_id: "transfer_inv (r\<lparr>tr_next_id := n\<rparr>) \<longleftrightarrow> transfer_inv r"
  by (simp add: transfer_inv_def transfer_get_def)

lemma transfer_inv_insert:
  assumes inv: "transfer_inv r" and ok: "transaction_ok t"
    and fresh: "\<And>d t'. transfer_get r d = Some t' \<Longrightarrow> tt_id t' \<noteq> tt_id t"
  shows "transfer_inv (snd (transfer_insert t r))"
proof (cases "fst (transfer_insert t r)")
  case (Inl e)
  with inv show ?thesis by (auto simp: transfer_insert_def split: if_splits)
next
  case (Inr u)
  from ok obtain c where c: "tt_consultation t = Some c" by (auto simp: transaction_ok_def)
  have disjoint: "legs t \<inter> legs t' = {}" if "hm_get (tr_by_device r) k = Some t'" for k t'
    using Inr c hm_get_in_values [OF that]
    by (auto simp: transfer_insert_def transfer_contains_iff legs_def list_ex_iff split: if_splits)
  from Inr c have "snd (transfer_insert t r)
      = r\<lparr>tr_by_device := hm_insert (tt_device_id t) t (tr_by_device r)\<rparr>"
    by (auto simp: transfer_insert_def split: if_splits)
  moreover have "exclusive legs (hm_insert (tt_device_id t) t (tr_by_device r))"
    using inv disjoint by (intro exclusive_insert) (auto simp: transfer_inv_def)
  moreover have "exclusive (\<lambda>t. {tt_id t}) (hm_insert (tt_device_id t) t (tr_by_device r))"
    using inv fresh unfolding transfer_get_def
    by (intro exclusive_insert) (force simp: transfer_inv_def)+
  ultimately show ?thesis
    using inv ok by (auto simp: transfer_inv_def transfer_get_def)
qed

lemma transfer_inv_start:
  assumes "transfer_inv r" and "allocate_id r = Some (i, r1)"
    and "transaction_ok t" and "tt_id t = i"
  shows "transfer_inv r1" and "transfer_inv (snd (transfer_insert t r1))"
proof -
  have same: "transfer_get r1 d = transfer_get r d" for d
    using allocate_id_fresh(2) [OF assms(1,2)] by (simp add: transfer_get_def)
  show inv1: "transfer_inv r1"
    using assms(1) allocate_id_fresh(2) [OF assms(1,2)]
    by (simp add: transfer_inv_def transfer_get_def)
  show "transfer_inv (snd (transfer_insert t r1))"
    by (rule transfer_inv_insert [OF inv1 assms(3)])
      (use allocate_id_fresh(3) [OF assms(1,2)] assms(4) in \<open>auto simp: same\<close>)
qed

lemma transfer_inv_start_consultation:
  assumes "transfer_inv r" and "start_consultation d s c h r = Some (x, r')"
  shows "transfer_inv r'"
proof -
  from assms(2) obtain i r1 where al: "allocate_id r = Some (i, r1)"
    by (auto simp: start_consultation_def split: option.splits)
  have inv1: "transfer_inv r1"
    using allocate_id_fresh(2) [OF assms(1) al] assms(1)
    by (simp add: transfer_inv_def transfer_get_def)
  show ?thesis
  proof (cases "s = c")
    case True
    with assms(2) al inv1 show ?thesis
      by (simp add: start_consultation_def attach_consultation_def transfer_consultation_def)
  next
    case False
    let ?t = "(transfer_consultation i d s SourceConnected h)\<lparr>tt_consultation := Some c\<rparr>"
    have "transaction_ok ?t" and "tt_id ?t = i"
      using False by (auto simp: transaction_ok_def transfer_consultation_def)
    from transfer_inv_start(2) [OF assms(1) al this]
    have "transfer_inv (snd (transfer_insert ?t r1))" .
    moreover have "start_consultation d s c h r = Some (transfer_insert ?t r1)"
      using False al
      by (simp add: start_consultation_def attach_consultation_def transfer_consultation_def)
    ultimately show ?thesis using assms(2) by (metis option.inject snd_conv)
  qed
qed

lemma transfer_inv_start_direct:
  assumes "transfer_inv r" and "start_direct d s st c r = Some (x, r')"
  shows "transfer_inv r'"
proof -
  from assms(2) obtain i r1 where al: "allocate_id r = Some (i, r1)"
    by (auto simp: start_direct_def split: option.splits)
  have inv1: "transfer_inv r1"
    using allocate_id_fresh(2) [OF assms(1) al] assms(1)
    by (simp add: transfer_inv_def transfer_get_def)
  show ?thesis
  proof (cases "transfer_direct i d s st c")
    case (Inl e)
    with assms(2) al inv1 show ?thesis by (simp add: start_direct_def)
  next
    case (Inr t)
    then have "transaction_ok t" and "tt_id t = i"
      by (auto simp: transfer_direct_def transaction_ok_def split: if_splits)
    from transfer_inv_start(2) [OF assms(1) al this] Inr assms(2) al show ?thesis
      by (simp add: start_direct_def)
  qed
qed

lemma transfer_inv_advance: "transfer_inv r \<Longrightarrow> transfer_inv (advance_for_leg leg phase r)"
  by (auto simp: advance_for_leg_def intro: transfer_inv_get_mut keeps_advance
      split: option.split)

lemma transfer_inv_apply:
  assumes "transfer_inv r" and "transfer_apply ev r = Some r'"
  shows "transfer_inv r'"
  using assms
  by (cases ev)
    (auto simp: transfer_inv_advance registry_begin_completion_def registry_defer_action_def
      registry_record_setup_milestone_def registry_note_hangup_def cancel_for_leg_def
      transfer_commit_def transfer_inv_get_mut transfer_inv_exact_mut transfer_inv_cancel
      transfer_inv_drop keeps_transfer_methods
      intro: transfer_inv_start_consultation transfer_inv_start_direct
      split: option.splits)

lemma transfer_reachable_inv: "transfer_reachable r \<Longrightarrow> transfer_inv r"
  by (induction rule: transfer_reachable.induct) (auto intro: transfer_inv_apply)

section \<open>Interfaces\<close>

text \<open>The operations that name a transaction identity meet the shared contracts.\<close>

interpretation cancel_op:
  terminal_operation transfer_get tt_id "transfer_cancel reason trigger" Conflict
  by unfold_locales
    (auto simp: transfer_cancel_def transfer_get_def split: option.splits sum.splits if_splits)

interpretation defer_op:
  guarded_operation transfer_get tt_id "registry_defer_action action" Conflict
  by unfold_locales
    (auto simp: registry_defer_action_def transfer_exact_mut_def transfer_get_mut_def
      transfer_get_def split: option.splits if_splits)

interpretation milestone_op:
  guarded_operation transfer_get tt_id "registry_record_setup_milestone milestone" Conflict
  by unfold_locales
    (auto simp: registry_record_setup_milestone_def transfer_exact_mut_def transfer_get_mut_def
      transfer_get_def split: option.splits if_splits)

text \<open>\<open>commit\<close> answers with an \<open>Option\<close>; \<open>None\<close> is its only refusal.\<close>

definition commit_result ::
  "device_id \<Rightarrow> transfer_id \<Rightarrow> transfer_registry
     \<Rightarrow> (transfer_rejection + transfer_transaction) \<times> transfer_registry"
where
  "commit_result d i r =
     (case transfer_commit d i r of
        (None, r') \<Rightarrow> (Inl Conflict, r')
      | (Some t, r') \<Rightarrow> (Inr t, r'))"

interpretation commit_op:
  terminal_operation transfer_get tt_id commit_result Conflict
  by unfold_locales
    (auto simp: commit_result_def transfer_commit_def transfer_get_def
      split: option.splits if_splits)

section \<open>Properties\<close>

lemma for_leg_owner:
  assumes "transfer_inv r"
  shows "for_leg leg r = Some t \<longleftrightarrow> (\<exists>d. transfer_get r d = Some t \<and> transfer_contains t leg)"
  using assms exclusive_find_iff [of "tr_by_device r" legs leg t]
  by (simp add: for_leg_def transfer_inv_def transfer_get_def transfer_contains_iff)

text \<open>The entry found by \<open>iter().find_map\<close> is the owner of the leg.\<close>

lemma find_entry_owner:
  assumes "find (\<lambda>(d, t). transfer_contains t leg) (tr_by_device r) = Some (d, t)"
    and "transfer_inv r"
  shows "transfer_get r d = Some t \<and> transfer_contains t leg"
  using find_SomeD [OF assms(1)] assms(2)
  by (simp add: transfer_get_def transfer_inv_def hm_wf_def)

lemma transfer_get_mut_get:
  "transfer_get (snd (transfer_get_mut d m r)) d' =
     (if d' = d then map_option (\<lambda>t. snd (m t)) (transfer_get r d) else transfer_get r d')"
  by (auto simp: transfer_get_mut_def transfer_get_def split: option.split)

lemma transfer_exact_mut_get:
  "transfer_get (snd (transfer_exact_mut d i m r)) d' =
     (if d' = d then map_option (\<lambda>t. if tt_id t = i then snd (m t) else t) (transfer_get r d)
      else transfer_get r d')"
  by (auto simp: transfer_exact_mut_def transfer_get_mut_get split: option.split)

subsection \<open>What an event does to a transaction that is completing\<close>

definition still_completing :: "transfer_registry \<Rightarrow> device_id \<Rightarrow> transfer_transaction \<Rightarrow> bool" where
  "still_completing r d t \<longleftrightarrow>
     (\<exists>t'. transfer_get r d = Some t' \<and> tt_phase t' = Completing \<and> same_transfer t t')"

definition keeps_completing ::
  "(transfer_transaction \<Rightarrow> ('e + 'a) \<times> transfer_transaction) \<Rightarrow> bool"
where
  "keeps_completing m \<longleftrightarrow>
     (\<forall>t. tt_phase t = Completing
        \<longrightarrow> tt_phase (snd (m t)) = Completing \<and> same_transfer t (snd (m t)))"

lemma keeps_completing_methods:
  "keeps_completing (advance_consultation leg phase)"
  "keeps_completing (begin_completion trigger leg)"
  "keeps_completing (note_hangup leg)"
  "keeps_completing (defer_action action)"
  "keeps_completing (record_setup_milestone milestone)"
  by (auto simp: keeps_completing_def advance_consultation_def begin_completion_def
      note_hangup_def defer_action_def record_setup_milestone_def same_transfer_def
      dest: valid_advance_target)

lemma still_completing_refl:
  "transfer_get r d = Some t \<Longrightarrow> tt_phase t = Completing \<Longrightarrow> still_completing r d t"
  by (auto simp: still_completing_def)

lemma still_completing_get_mut:
  assumes "transfer_get r d = Some t" and "tt_phase t = Completing" and "keeps_completing m"
  shows "still_completing (snd (transfer_get_mut d' m r)) d t"
  using assms by (auto simp: still_completing_def transfer_get_mut_get keeps_completing_def)

lemma still_completing_exact_mut:
  assumes "transfer_get r d = Some t" and "tt_phase t = Completing" and "keeps_completing m"
  shows "still_completing (snd (transfer_exact_mut d' i m r)) d t"
  using assms
  by (cases "tt_id t = i")
    (auto simp: still_completing_def transfer_exact_mut_get keeps_completing_def)

lemma transfer_insert_get:
  "transfer_get r d = Some t \<Longrightarrow> transfer_get (snd (transfer_insert t' r)) d = Some t"
  by (auto simp: transfer_insert_def transfer_get_def hm_contains_def)

lemma start_keeps_transactions:
  assumes "transfer_inv r" and "transfer_get r d = Some t"
    and "start_consultation d' s c h r = Some (x, r') \<or> start_direct d' s st c r = Some (x, r')"
  shows "transfer_get r' d = Some t"
proof -
  from assms(3) obtain i r1 where al: "allocate_id r = Some (i, r1)"
    by (auto simp: start_consultation_def start_direct_def split: option.splits)
  then have kept: "transfer_get r1 d = Some t"
    using allocate_id_fresh(2) [OF assms(1) al] assms(2) by (simp add: transfer_get_def)
  from assms(3) al have "r' = r1 \<or> (\<exists>t'. r' = snd (transfer_insert t' r1))"
    by (auto simp: start_consultation_def start_direct_def split: prod.splits sum.splits)
      (metis snd_conv)+
  with kept show ?thesis by (auto simp: transfer_insert_get)
qed

lemma cancel_completing:
  assumes "transfer_get r d = Some t" and "tt_phase t = Completing"
    and "r' = snd (transfer_cancel reason trigger d' i r)"
  shows "still_completing r' d t
    \<or> (transfer_get r' d = None \<and> d' = d \<and> i = tt_id t
        \<and> reason \<in> {BackendFailure, DeviceDisconnect})"
proof (cases "d' = d")
  case False
  then have "transfer_get r' d = Some t"
    using assms(1,3) cancel_op.frame [of d d'] by simp
  with assms(2) show ?thesis by (auto simp: still_completing_def)
next
  case True
  with assms show ?thesis
    by (auto simp: transfer_cancel_def cancellation_def still_completing_def transfer_get_def
        split: if_splits option.splits sum.splits)
qed

lemma commit_completing:
  assumes "transfer_get r d = Some t" and "tt_phase t = Completing"
    and "r' = snd (transfer_commit d' i r)"
  shows "still_completing r' d t \<or> (transfer_get r' d = None \<and> d' = d \<and> i = tt_id t)"
  using assms
  by (auto simp: transfer_commit_def still_completing_def transfer_get_def
      split: if_splits option.splits)

lemma completing_event:
  assumes "transfer_reachable r" and "transfer_apply ev r = Some r'"
    and "transfer_get r d = Some t" and "tt_phase t = Completing"
  shows "still_completing r' d t
    \<or> (transfer_get r' d = None
        \<and> (ev = Commit d (tt_id t)
            \<or> (\<exists>reason \<in> {BackendFailure, DeviceDisconnect}. \<exists>leg.
                 ev = Cancel reason leg d (tt_id t)
                 \<or> (\<exists>l. ev = CancelForLeg l reason \<and> transfer_contains t l))))"
proof (cases ev)
  case (Cancel reason trigger d' i)
  with assms cancel_completing [OF assms(3,4), of r' reason trigger d' i] show ?thesis by auto
next
  case (CancelForLeg l reason)
  note inv = transfer_reachable_inv [OF assms(1)]
  show ?thesis
  proof (cases "find (\<lambda>(d, t). transfer_contains t l) (tr_by_device r)")
    case None
    with CancelForLeg assms show ?thesis
      by (auto simp: cancel_for_leg_def still_completing_def)
  next
    case (Some e)
    obtain d' t' where e: "e = (d', t')" by (cases e)
    with Some inv have owner: "transfer_get r d' = Some t'" "transfer_contains t' l"
      using find_entry_owner by blast+
    have "r' = snd (transfer_cancel reason (Some l) d' (tt_id t') r)"
      using CancelForLeg assms(2) Some e by (simp add: cancel_for_leg_def)
    from cancel_completing [OF assms(3,4) this] owner assms(3) CancelForLeg show ?thesis by auto
  qed
next
  case (Commit d' i)
  with assms commit_completing [OF assms(3,4), of r' d' i] show ?thesis by auto
qed (use assms in \<open>auto simp: registry_begin_completion_def registry_defer_action_def
    registry_record_setup_milestone_def registry_note_hangup_def advance_for_leg_def
    keeps_completing_methods still_completing_get_mut still_completing_exact_mut
    still_completing_refl
    intro: still_completing_refl
      start_keeps_transactions [OF transfer_reachable_inv [OF assms(1)] assms(3)]
    split: option.splits\<close>)

text \<open>
  C9. No call leg is ever claimed by two transfers: in every registry the
  controller can reach, two transactions that contain the same leg are the
  transaction of one device; the transaction stored for a device carries that
  device, has two distinct legs, and no other transaction has its identity.
\<close>

theorem transfer_legs_exclusive:
  assumes "transfer_reachable r"
    and "transfer_get r d1 = Some t1" and "transfer_get r d2 = Some t2"
  shows "(transfer_contains t1 leg \<and> transfer_contains t2 leg \<longrightarrow> d1 = d2)
    \<and> (tt_id t1 = tt_id t2 \<longrightarrow> d1 = d2)
    \<and> tt_device_id t1 = d1
    \<and> tt_consultation t1 \<noteq> None \<and> tt_consultation t1 \<noteq> Some (tt_source t1)"
proof -
  from assms(1) have inv: "transfer_inv r" by (rule transfer_reachable_inv)
  then have "tt_device_id t1 = d1" and "transaction_ok t1"
    using assms(2) by (auto simp: transfer_inv_def)
  moreover have "d1 = d2" if "leg \<in> legs t1" and "leg \<in> legs t2"
    using inv assms(2,3) that unfolding transfer_inv_def transfer_get_def
    by (blast intro: exclusive_same_key)
  moreover have "d1 = d2" if "tt_id t1 = tt_id t2"
    using inv assms(2,3) that exclusive_same_key [of "\<lambda>t. {tt_id t}" "tr_by_device r" d1 t1 d2 t2]
    by (simp add: transfer_inv_def transfer_get_def)
  ultimately show ?thesis
    by (auto simp: transfer_contains_iff transaction_ok_def)
qed

text \<open>
  C10. \<open>allocate_id\<close> returns: with fewer than \<open>2 ^ 64 - 1\<close> transactions in the
  registry, its loop ends, and it ends with a nonzero identity that no transaction
  has, after at most one more attempt than there are transactions.
\<close>

theorem allocate_id_returns:
  assumes "length (tr_by_device r) < 2 ^ 64 - 1"
  shows "\<exists>i r'. allocate_id r = Some (i, r') \<and> i \<noteq> 0
     \<and> (\<forall>t \<in> set (hm_values (tr_by_device r)). tt_id t \<noteq> i)
     \<and> tr_by_device r' = tr_by_device r
     \<and> (\<exists>k \<le> length (tr_by_device r). i = candidate (tr_next_id r) k)"
proof -
  let ?used = "map tt_id (hm_values (tr_by_device r))"
  have "length ?used < 2 ^ 64 - 1" using assms by (simp add: hm_values_def)
  then obtain k where k: "k \<le> length ?used" "candidate (tr_next_id r) k \<notin> set ?used"
      "allocate_loop (tr_next_id r) ?used
         = Some (candidate (tr_next_id r) k, next_nonzero (candidate (tr_next_id r) k))"
    by (rule allocate_loop_total)
  have "candidate (tr_next_id r) k \<noteq> tt_id t" if "t \<in> set (hm_values (tr_by_device r))" for t
    using k(2) that by auto
  with k(1,3) show ?thesis
    by (fastforce simp: allocate_id_def hm_values_def)
qed

text \<open>
  C11. Once a transfer has claimed its native operation (phase \<open>Completing\<close>), no
  event but three kinds can take it out of the registry: the matching commit, and
  a cancellation for a backend failure or a device disconnect. Every other event
  leaves it there, in the same phase, with the same identity and legs.
\<close>

theorem completing_transfer_protected:
  assumes "transfer_reachable r" and "transfer_apply ev r = Some r'"
    and "transfer_get r d = Some t" and "tt_phase t = Completing"
  shows "(\<exists>t'. transfer_get r' d = Some t' \<and> tt_phase t' = Completing \<and> same_transfer t t')
    \<or> (transfer_get r' d = None
        \<and> (ev = Commit d (tt_id t)
            \<or> (\<exists>reason \<in> {BackendFailure, DeviceDisconnect}. \<exists>leg.
                 ev = Cancel reason leg d (tt_id t)
                 \<or> (\<exists>l. ev = CancelForLeg l reason \<and> transfer_contains t l))))"
  by (rule completing_event [unfolded still_completing_def, OF assms])

text \<open>
  C12. A completion is granted exactly when the registered transaction is not yet
  completing, the triggering leg is its consultation leg, a hangup may complete it
  if a hangup is the trigger, and its phase allows one: ringing (blind) or
  connected (attended) for a consultation, connected for a direct transfer. The
  granted completion carries the transaction's identity, device and legs, and the
  transaction is left in phase \<open>Completing\<close> and otherwise unchanged.
\<close>

theorem begin_completion_granted_iff:
  "registry_begin_completion d trigger leg r = (Inr c, r') \<longleftrightarrow>
     (\<exists>t kind. transfer_get r d = Some t
        \<and> tt_phase t \<noteq> Completing
        \<and> tt_consultation t = Some leg
        \<and> (trigger = TransferKey \<or> tt_complete_on_hangup t)
        \<and> kind = (if tt_mode t = Direct then DirectCompletion
                  else if tt_phase t = Ringing then Blind else Attended)
        \<and> (if tt_mode t = Direct then tt_phase t = Connected
           else tt_phase t \<in> {Ringing, Connected})
        \<and> c = \<lparr>tc_transaction_id = tt_id t, tc_device_id = tt_device_id t,
               tc_source = tt_source t, tc_consultation = leg, tc_kind = kind\<rparr>
        \<and> r' = r\<lparr>tr_by_device :=
               hm_insert d (t\<lparr>tt_phase := Completing\<rparr>) (tr_by_device r)\<rparr>)"
proof (cases "transfer_get r d")
  case None
  then show ?thesis by (simp add: registry_begin_completion_def transfer_get_mut_def)
next
  case (Some t)
  show ?thesis
  proof (cases "tt_consultation t")
    case None
    with Some show ?thesis
      by (auto simp: registry_begin_completion_def transfer_get_mut_def begin_completion_def)
  next
    case (Some c')
    with \<open>transfer_get r d = Some t\<close> show ?thesis
      by (cases "tt_mode t"; cases "tt_phase t"; cases trigger)
        (auto simp: registry_begin_completion_def transfer_get_mut_def begin_completion_def)
  qed
qed

text \<open>
  A transfer is cancelled at most once, and late cancellations are harmless:
  after an accepted cancellation, every further attempt for that device (with any
  identity, any number of times) is refused with a conflict and leaves the
  registry as it is.
\<close>

theorem cancel_exactly_once:
  assumes "transfer_cancel reason trigger d i r = (Inr c, r')"
  shows "transfer_cancel reason trigger d j r' = (Inl Conflict, r')
    \<and> fold (\<lambda>(d, i) r. snd (transfer_cancel reason trigger d i r)) (map (Pair d) js) r' = r'
    \<and> (\<exists>t. transfer_get r d = Some t \<and> tt_id t = i \<and> tx_transaction c = t)"
proof (intro conjI)
  show "transfer_cancel reason trigger d j r' = (Inl Conflict, r')"
    by (rule cancel_op.exactly_once [OF assms])
  show "fold (\<lambda>(d, i) r. snd (transfer_cancel reason trigger d i r)) (map (Pair d) js) r' = r'"
    by (rule cancel_op.retries_refused [OF assms])
  obtain t where t: "transfer_get r d = Some t" "tt_id t = i"
    using cancel_op.accepted_current [OF assms] .
  with assms have "tx_transaction c = t"
    by (auto simp: transfer_cancel_def cancellation_def split: sum.splits if_splits)
  with t show "\<exists>t. transfer_get r d = Some t \<and> tt_id t = i \<and> tx_transaction c = t" by blast
qed

section \<open>Witnesses\<close>

text \<open>
  A registry reached by a direct transfer of call 1 onto call 2 that has claimed its
  completion, and a consultation of call 3 with call 4 on another device.
\<close>

definition sample_leg :: "u64 \<Rightarrow> transfer_leg" where
  "sample_leg n = \<lparr>leg_handset_call_id = n, leg_pbx_call_id = n\<rparr>"

definition sample_direct :: transfer_transaction where
  "sample_direct =
     \<lparr>tt_id = 1, tt_device_id = ''SEP1'', tt_source = sample_leg 1, tt_source_state = SourceHeld,
      tt_consultation = Some (sample_leg 2), tt_mode = Direct, tt_phase = Completing,
      tt_complete_on_hangup = False, tt_execution_progress = {}, tt_source_terminated = False,
      tt_consultation_terminated = False, tt_deferred_action = None\<rparr>"

definition sample_consultation :: transfer_transaction where
  "sample_consultation =
     (transfer_consultation 2 ''SEP2'' (sample_leg 3) SourceConnected True)
       \<lparr>tt_consultation := Some (sample_leg 4)\<rparr>"

definition sample_registry :: transfer_registry where
  "sample_registry =
     \<lparr>tr_next_id = 3,
      tr_by_device = [(''SEP1'', sample_direct), (''SEP2'', sample_consultation)]\<rparr>"

lemmas sample_defs =
  sample_registry_def sample_direct_def sample_consultation_def sample_leg_def
  transfer_consultation_def

lemma sample_reachable: "transfer_reachable sample_registry"
proof -
  let ?r1 = "\<lparr>tr_next_id = 2, tr_by_device = [(''SEP1'', sample_direct\<lparr>tt_phase := Connected\<rparr>)]\<rparr>"
  let ?r2 = "\<lparr>tr_next_id = 2, tr_by_device = [(''SEP1'', sample_direct)]\<rparr>"
  have "transfer_apply (StartDirect ''SEP1'' (sample_leg 1) SourceHeld (sample_leg 2))
          transfer_registry_default = Some ?r1"
    by (simp add: start_direct_def allocate_id_def allocate_loop.simps transfer_direct_def
        transfer_insert_def transfer_registry_default_def hm_values_def hm_insert_def sample_defs
        max_def word_le_nat_alt)
  moreover have "transfer_apply (Complete ''SEP1'' TransferKey (sample_leg 2)) ?r1 = Some ?r2"
    by (simp add: registry_begin_completion_def transfer_get_mut_def begin_completion_def
        transfer_get_def hm_insert_def sample_defs)
  moreover have "transfer_apply
      (StartConsultation ''SEP2'' (sample_leg 3) (sample_leg 4) True) ?r2 = Some sample_registry"
    by (simp add: start_consultation_def allocate_id_def allocate_loop.simps
        attach_consultation_def transfer_insert_def transfer_contains_def hm_contains_def
        hm_values_def hm_insert_def sample_defs max_def word_le_nat_alt)
  ultimately show ?thesis
    using transfer_reachable.start transfer_reachable.step by metis
qed

lemma sample_get:
  "transfer_get sample_registry ''SEP1'' = Some sample_direct"
  "transfer_get sample_registry ''SEP2'' = Some sample_consultation"
  by (simp_all add: transfer_get_def sample_registry_def)

theorem transfer_legs_exclusive_witness:
  "transfer_reachable sample_registry
    \<and> transfer_contains sample_direct (sample_leg 1)
    \<and> tt_consultation sample_direct \<noteq> Some (tt_source sample_direct)"
  using transfer_legs_exclusive
    [OF sample_reachable sample_get(1) sample_get(1), of "sample_leg 1"] sample_reachable
  by (simp add: transfer_contains_def sample_direct_def)

theorem allocate_id_returns_witness:
  "length (tr_by_device sample_registry) < 2 ^ 64 - 1
    \<and> (\<exists>i r'. allocate_id sample_registry = Some (i, r') \<and> i \<noteq> 0 \<and> i \<noteq> 1 \<and> i \<noteq> 2)"
proof -
  have "length (tr_by_device sample_registry) < 2 ^ 64 - 1"
    by (simp add: sample_registry_def)
  with allocate_id_returns [OF this] show ?thesis
    by (force simp: sample_defs hm_values_def)
qed

theorem completing_transfer_protected_witness:
  "\<exists>r'. transfer_apply (Cancel EndCall None ''SEP1'' 1) sample_registry = Some r'
     \<and> (\<exists>t'. transfer_get r' ''SEP1'' = Some t' \<and> tt_phase t' = Completing)"
proof -
  have step: "transfer_apply (Cancel EndCall None ''SEP1'' 1) sample_registry
      = Some (snd (transfer_cancel EndCall None ''SEP1'' 1 sample_registry))" by simp
  have phase: "tt_phase sample_direct = Completing" by (simp add: sample_direct_def)
  from completing_transfer_protected [OF sample_reachable step sample_get(1) phase]
  show ?thesis using step by auto
qed

theorem cancel_exactly_once_witness:
  "\<exists>c r'. transfer_cancel BackendFailure None ''SEP1'' 1 sample_registry = (Inr c, r')
     \<and> tx_transaction c = sample_direct
     \<and> transfer_cancel BackendFailure None ''SEP1'' 1 r' = (Inl Conflict, r')"
proof -
  obtain c r' where *: "transfer_cancel BackendFailure None ''SEP1'' 1 sample_registry = (Inr c, r')"
    by (auto simp: transfer_cancel_def sample_get cancellation_def sample_direct_def)
  from cancel_exactly_once [OF this, of 1] * sample_get(1) show ?thesis by auto
qed

end
