(* ===== verification/Conference.thy ===== *)
theory Conference
  imports Sccp_Prelude
begin

text \<open>
  The participant registry of a conference,
  \<^verbatim>\<open>asterisk-module/src/conference/mod.rs\<close>: participants in insertion order with
  two indexes, participant identity to position and PBX call to participant
  identity. The abstract specification is the list of participants alone; the
  theory shows that the indexes always describe that list, so that every operation
  is its list counterpart and none of the indexing panics can happen.
\<close>

section \<open>Data\<close>

type_synonym participant_id = u32

definition MAX_CONFERENCE_PARTICIPANTS :: nat where
  "MAX_CONFERENCE_PARTICIPANTS = 16"

record conference_participant_identity =
  ci_display_name :: string
  ci_number :: string

record conference_participant =
  cp_id :: participant_id
  cp_pbx_call_id :: pbx_call_id
  cp_handset_call_id :: call_id
  cp_device_id :: device_id
  cp_display_name :: string
  cp_number :: string
  cp_moderator :: bool
  cp_muted :: bool
  cp_held :: bool

datatype participant_registry_error =
    Full | DuplicateId | DuplicateCall | MissingModerator
  | UnknownParticipant | LastModerator | UnchangedRole

record participant_registry =
  cr_participants :: "conference_participant list"
  cr_by_id :: "(participant_id, nat) hash_map"
  cr_by_pbx :: "(pbx_call_id, participant_id) hash_map"

section \<open>Operations\<close>

definition participant_registry_default :: participant_registry where
  "participant_registry_default = \<lparr>cr_participants = [], cr_by_id = [], cr_by_pbx = []\<rparr>"

definition participant_insert ::
  "conference_participant \<Rightarrow> participant_registry
     \<Rightarrow> (participant_registry_error + unit) \<times> participant_registry"
where
  "participant_insert p r =
     (if length (cr_participants r) \<ge> MAX_CONFERENCE_PARTICIPANTS then (Inl Full, r)
      else if hm_contains (cr_by_id r) (cp_id p) then (Inl DuplicateId, r)
      else if hm_contains (cr_by_pbx r) (cp_pbx_call_id p) then (Inl DuplicateCall, r)
      else (Inr (),
        \<lparr>cr_participants = cr_participants r @ [p],
         cr_by_id = hm_insert (cp_id p) (length (cr_participants r)) (cr_by_id r),
         cr_by_pbx = hm_insert (cp_pbx_call_id p) (cp_id p) (cr_by_pbx r)\<rparr>))"

text \<open>The loop of \<open>new\<close> stops at the first participant that is refused.\<close>

fun participant_insert_all ::
  "conference_participant list \<Rightarrow> participant_registry
     \<Rightarrow> participant_registry_error + participant_registry"
where
  "participant_insert_all [] r = Inr r"
| "participant_insert_all (p # ps) r =
     (case participant_insert p r of
        (Inl e, _) \<Rightarrow> Inl e
      | (Inr _, r') \<Rightarrow> participant_insert_all ps r')"

definition moderator_count :: "participant_registry \<Rightarrow> nat" where
  "moderator_count r = length (filter cp_moderator (cr_participants r))"

definition active_moderator_count :: "participant_registry \<Rightarrow> nat" where
  "active_moderator_count r =
     length (filter (\<lambda>p. cp_moderator p \<and> \<not> cp_held p) (cr_participants r))"

definition participant_registry_new ::
  "conference_participant list \<Rightarrow> participant_registry_error + participant_registry"
where
  "participant_registry_new ps =
     (case participant_insert_all ps participant_registry_default of
        Inl e \<Rightarrow> Inl e
      | Inr r \<Rightarrow> if moderator_count r = 0 then Inl MissingModerator else Inr r)"

text \<open>\<open>by_id.get(id).and_then(|index| participants.get(index))\<close>.\<close>

definition participant_index :: "participant_registry \<Rightarrow> participant_id \<Rightarrow> nat option" where
  "participant_index r i =
     (case hm_get (cr_by_id r) i of
        None \<Rightarrow> None
      | Some j \<Rightarrow> if j < length (cr_participants r) then Some j else None)"

definition participant_get ::
  "participant_registry \<Rightarrow> participant_id \<Rightarrow> conference_participant option"
where
  "participant_get r i = map_option (\<lambda>j. cr_participants r ! j) (participant_index r i)"

text \<open>A write to one field of the participant found through the index.\<close>

definition participant_write ::
  "participant_id \<Rightarrow> (conference_participant \<Rightarrow> conference_participant) \<Rightarrow> participant_registry
     \<Rightarrow> bool \<times> participant_registry"
where
  "participant_write i f r =
     (case participant_index r i of
        None \<Rightarrow> (False, r)
      | Some j \<Rightarrow>
          (True, r\<lparr>cr_participants := (cr_participants r)[j := f (cr_participants r ! j)]\<rparr>))"

definition set_muted ::
  "participant_id \<Rightarrow> bool \<Rightarrow> participant_registry \<Rightarrow> bool \<times> participant_registry"
where
  "set_muted i muted = participant_write i (\<lambda>p. p\<lparr>cp_muted := muted\<rparr>)"

definition set_held ::
  "participant_id \<Rightarrow> bool \<Rightarrow> participant_registry \<Rightarrow> bool \<times> participant_registry"
where
  "set_held i held = participant_write i (\<lambda>p. p\<lparr>cp_held := held\<rparr>)"

text \<open>
  \<open>remove\<close>: \<open>Vec::remove\<close> panics on an index outside the vector (\<open>None\<close>); the
  participants behind the removed one move down and their index entries are
  rewritten.
\<close>

definition participant_remove ::
  "participant_id \<Rightarrow> participant_registry
     \<Rightarrow> (conference_participant option \<times> participant_registry) option"
where
  "participant_remove i r =
     (case hm_get (cr_by_id r) i of
        None \<Rightarrow> Some (None, r)
      | Some j \<Rightarrow>
          if length (cr_participants r) \<le> j then None
          else
            let p = cr_participants r ! j;
                ps = take j (cr_participants r) @ drop (Suc j) (cr_participants r)
            in Some (Some p,
                 \<lparr>cr_participants = ps,
                  cr_by_id = fold (\<lambda>(k, q) m. hm_insert (cp_id q) k m)
                    (drop j (enumerate 0 ps)) (hm_remove i (cr_by_id r)),
                  cr_by_pbx = hm_remove (cp_pbx_call_id p) (cr_by_pbx r)\<rparr>))"

definition participant_by_pbx ::
  "participant_registry \<Rightarrow> pbx_call_id \<Rightarrow> conference_participant option"
where
  "participant_by_pbx r c =
     (case hm_get (cr_by_pbx r) c of None \<Rightarrow> None | Some i \<Rightarrow> participant_get r i)"

definition update_identity ::
  "pbx_call_id \<Rightarrow> conference_participant_identity \<Rightarrow> participant_registry
     \<Rightarrow> bool \<times> participant_registry"
where
  "update_identity c ident r =
     (case hm_get (cr_by_pbx r) c of
        None \<Rightarrow> (False, r)
      | Some i \<Rightarrow> participant_write i
          (\<lambda>p. p\<lparr>cp_display_name := ci_display_name ident, cp_number := ci_number ident\<rparr>) r)"

definition moderator :: "participant_registry \<Rightarrow> conference_participant option" where
  "moderator r = find cp_moderator (cr_participants r)"

text \<open>\<open>set_moderator\<close> indexes the vector directly, so an index outside it panics.\<close>

definition set_moderator ::
  "participant_id \<Rightarrow> bool \<Rightarrow> participant_registry
     \<Rightarrow> (participant_registry_error fault + unit) \<times> participant_registry"
where
  "set_moderator i m r =
     (case hm_get (cr_by_id r) i of
        None \<Rightarrow> (Inl (Rejected UnknownParticipant), r)
      | Some j \<Rightarrow>
          if length (cr_participants r) \<le> j then (Inl Panicked, r)
          else if cp_moderator (cr_participants r ! j) = m
          then (Inl (Rejected UnchangedRole), r)
          else if \<not> m \<and> moderator_count r = 1 then (Inl (Rejected LastModerator), r)
          else (Inr (),
            r\<lparr>cr_participants :=
                (cr_participants r)[j := (cr_participants r ! j)\<lparr>cp_moderator := m\<rparr>]\<rparr>))"

section \<open>The indexes describe the list\<close>

definition registry_ok :: "participant_registry \<Rightarrow> bool" where
  "registry_ok r \<longleftrightarrow>
     (\<forall>i j. hm_get (cr_by_id r) i = Some j
        \<longleftrightarrow> j < length (cr_participants r) \<and> cp_id (cr_participants r ! j) = i)
     \<and> (\<forall>c i. hm_get (cr_by_pbx r) c = Some i
        \<longleftrightarrow> (\<exists>p \<in> set (cr_participants r). cp_pbx_call_id p = c \<and> cp_id p = i))
     \<and> distinct (map cp_pbx_call_id (cr_participants r))
     \<and> length (cr_participants r) \<le> MAX_CONFERENCE_PARTICIPANTS"

lemma registry_ok_default [simp]: "registry_ok participant_registry_default"
  by (simp add: registry_ok_def participant_registry_default_def)

lemma registry_ok_index:
  assumes "registry_ok r"
  shows "participant_index r i = hm_get (cr_by_id r) i"
proof (cases "hm_get (cr_by_id r) i")
  case None
  then show ?thesis by (simp add: participant_index_def)
next
  case (Some j)
  then have "j < length (cr_participants r)"
    using assms unfolding registry_ok_def by blast
  with Some show ?thesis by (simp add: participant_index_def)
qed

lemma registry_ok_by_id:
  "registry_ok r \<Longrightarrow> hm_get (cr_by_id r) i = Some j
     \<longleftrightarrow> j < length (cr_participants r) \<and> cp_id (cr_participants r ! j) = i"
  by (simp add: registry_ok_def)

lemma registry_ok_distinct: "registry_ok r \<Longrightarrow> distinct (map cp_id (cr_participants r))"
  unfolding registry_ok_def distinct_conv_nth by (metis length_map nth_map option.inject)

lemma registry_ok_contains:
  "registry_ok r \<Longrightarrow> hm_contains (cr_by_id r) i \<longleftrightarrow> i \<in> cp_id ` set (cr_participants r)"
  by (auto simp: hm_contains_def registry_ok_by_id set_conv_nth)

lemma registry_ok_contains_pbx:
  "registry_ok r \<Longrightarrow>
     hm_contains (cr_by_pbx r) c \<longleftrightarrow> c \<in> cp_pbx_call_id ` set (cr_participants r)"
  by (auto simp: hm_contains_def registry_ok_def)

section \<open>List counterparts\<close>

lemma find_by_key:
  assumes "distinct (map key xs)" and "x \<in> set xs"
  shows "find (\<lambda>y. key y = key x) xs = Some x"
  using assms by (intro find_unique) (auto dest: inj_onD simp: distinct_map)

lemma participant_get_find:
  assumes "registry_ok r"
  shows "participant_get r i = find (\<lambda>p. cp_id p = i) (cr_participants r)"
proof (cases "hm_get (cr_by_id r) i")
  case None
  then have "find (\<lambda>p. cp_id p = i) (cr_participants r) = None"
    using assms registry_ok_contains [of r i] by (auto simp: hm_contains_def find_None_iff)
  with None assms show ?thesis by (simp add: participant_get_def registry_ok_index)
next
  case (Some j)
  with assms have j: "j < length (cr_participants r)" "cp_id (cr_participants r ! j) = i"
    by (auto simp: registry_ok_by_id)
  with assms have "find (\<lambda>p. cp_id p = i) (cr_participants r) = Some (cr_participants r ! j)"
    using find_by_key [OF registry_ok_distinct, of r "cr_participants r ! j"] by auto
  with Some assms show ?thesis by (simp add: participant_get_def registry_ok_index)
qed

lemma participant_by_pbx_find:
  assumes "registry_ok r"
  shows "participant_by_pbx r c = find (\<lambda>p. cp_pbx_call_id p = c) (cr_participants r)"
proof (cases "hm_get (cr_by_pbx r) c")
  case None
  then have "find (\<lambda>p. cp_pbx_call_id p = c) (cr_participants r) = None"
    using assms registry_ok_contains_pbx [of r c] by (auto simp: hm_contains_def find_None_iff)
  with None show ?thesis by (simp add: participant_by_pbx_def)
next
  case (Some i)
  with assms obtain p where p: "p \<in> set (cr_participants r)" "cp_pbx_call_id p = c" "cp_id p = i"
    by (auto simp: registry_ok_def)
  have "find (\<lambda>q. cp_id q = i) (cr_participants r) = Some p"
    using find_by_key [OF registry_ok_distinct [OF assms] p(1)] p(3) by simp
  moreover have "find (\<lambda>q. cp_pbx_call_id q = c) (cr_participants r) = Some p"
    using find_by_key [of cp_pbx_call_id, OF _ p(1)] p(2) assms by (simp add: registry_ok_def)
  ultimately show ?thesis
    using Some assms by (simp add: participant_by_pbx_def participant_get_find)
qed

text \<open>Writing a field that is not a key through the index is a map over the list.\<close>

lemma list_update_by_key:
  assumes "distinct (map key xs)" and "j < length xs"
  shows "xs[j := f (xs ! j)] = map (\<lambda>x. if key x = key (xs ! j) then f x else x) xs"
  using assms by (intro nth_equalityI) (auto simp: nth_list_update nth_eq_iff_index_eq distinct_map
      dest: inj_onD)

definition keeps_keys :: "(conference_participant \<Rightarrow> conference_participant) \<Rightarrow> bool" where
  "keeps_keys f \<longleftrightarrow> (\<forall>p. cp_id (f p) = cp_id p \<and> cp_pbx_call_id (f p) = cp_pbx_call_id p)"

lemma registry_ok_write_nth:
  assumes "registry_ok r" and "keeps_keys f" and "j < length (cr_participants r)"
  shows "registry_ok (r\<lparr>cr_participants := (cr_participants r)[j := f (cr_participants r ! j)]\<rparr>)"
    (is "registry_ok ?r'")
proof -
  let ?ps = "cr_participants r" and ?qs = "cr_participants ?r'"
  have ids: "map cp_id ?qs = map cp_id ?ps" and calls: "map cp_pbx_call_id ?qs = map cp_pbx_call_id ?ps"
    using assms by (simp_all add: map_update keeps_keys_def list_update_same_conv)
  have pairs: "map (\<lambda>p. (cp_pbx_call_id p, cp_id p)) ?qs = map (\<lambda>p. (cp_pbx_call_id p, cp_id p)) ?ps"
    using assms by (simp add: map_update keeps_keys_def list_update_same_conv)
  have nth: "k < length ?qs \<and> cp_id (?qs ! k) = i \<longleftrightarrow> k < length ?ps \<and> cp_id (?ps ! k) = i" for i k
    using ids by (metis length_map nth_map)
  have mem: "(\<exists>p \<in> set ?qs. cp_pbx_call_id p = c \<and> cp_id p = i)
      \<longleftrightarrow> (\<exists>p \<in> set ?ps. cp_pbx_call_id p = c \<and> cp_id p = i)" for c i
    using arg_cong [OF pairs, of "\<lambda>xs. (c, i) \<in> set xs"] by (auto simp: image_iff)
  from assms(1) show ?thesis
    unfolding registry_ok_def nth mem calls by (simp add: registry_ok_def)
qed

lemma registry_ok_write:
  "registry_ok r \<Longrightarrow> keeps_keys f \<Longrightarrow> registry_ok (snd (participant_write i f r))"
  by (auto simp: participant_write_def registry_ok_index registry_ok_by_id registry_ok_write_nth
      split: option.split)

lemma participant_write_map:
  assumes "registry_ok r" and "keeps_keys f"
  shows "participant_write i f r =
    (i \<in> cp_id ` set (cr_participants r),
     r\<lparr>cr_participants := map (\<lambda>p. if cp_id p = i then f p else p) (cr_participants r)\<rparr>)"
proof (cases "hm_get (cr_by_id r) i")
  case None
  then have "i \<notin> cp_id ` set (cr_participants r)"
    using registry_ok_contains [OF assms(1), of i] by (simp add: hm_contains_def)
  moreover from this have
    "map (\<lambda>p. if cp_id p = i then f p else p) (cr_participants r) = cr_participants r"
    by (intro map_idI) auto
  ultimately show ?thesis
    using None assms(1) by (simp add: participant_write_def registry_ok_index)
next
  case (Some j)
  with assms(1) have j: "j < length (cr_participants r)" "cp_id (cr_participants r ! j) = i"
    by (auto simp: registry_ok_by_id)
  moreover have "i \<in> cp_id ` set (cr_participants r)" using j by auto
  ultimately show ?thesis
    using Some assms(1) list_update_by_key [OF registry_ok_distinct [OF assms(1)] j(1), of f]
    by (simp add: participant_write_def registry_ok_index)
qed

lemma keeps_keys_fields [simp]:
  "keeps_keys (\<lambda>p. p\<lparr>cp_muted := b\<rparr>)" "keeps_keys (\<lambda>p. p\<lparr>cp_held := b\<rparr>)"
  "keeps_keys (\<lambda>p. p\<lparr>cp_moderator := b\<rparr>)"
  "keeps_keys (\<lambda>p. p\<lparr>cp_display_name := s, cp_number := t\<rparr>)"
  by (simp_all add: keeps_keys_def)

section \<open>Insertion\<close>

lemma registry_ok_insert:
  assumes "registry_ok r"
  shows "registry_ok (snd (participant_insert p r))"
proof (cases "fst (participant_insert p r)")
  case (Inl e)
  with assms show ?thesis by (auto simp: participant_insert_def split: if_splits)
next
  case (Inr u)
  then have g: "length (cr_participants r) < MAX_CONFERENCE_PARTICIPANTS"
      "\<not> hm_contains (cr_by_id r) (cp_id p)" "\<not> hm_contains (cr_by_pbx r) (cp_pbx_call_id p)"
    by (auto simp: participant_insert_def split: if_splits)
  then have new: "cp_id p \<notin> cp_id ` set (cr_participants r)"
      "cp_pbx_call_id p \<notin> cp_pbx_call_id ` set (cr_participants r)"
    using assms registry_ok_contains registry_ok_contains_pbx by auto
  then have other: "cp_id (cr_participants r ! j) \<noteq> cp_id p" if "j < length (cr_participants r)" for j
    using that by (metis image_eqI nth_mem)
  have "hm_get (hm_insert (cp_id p) (length (cr_participants r)) (cr_by_id r)) i = Some j
      \<longleftrightarrow> j < length (cr_participants r @ [p]) \<and> cp_id ((cr_participants r @ [p]) ! j) = i" for i j
    using other [of j] registry_ok_by_id [OF assms, of i j]
    by (auto simp: nth_append less_Suc_eq)
  moreover have "hm_get (hm_insert (cp_pbx_call_id p) (cp_id p) (cr_by_pbx r)) c = Some i
      \<longleftrightarrow> (\<exists>q \<in> set (cr_participants r @ [p]). cp_pbx_call_id q = c \<and> cp_id q = i)" for c i
    using new assms by (auto simp: registry_ok_def image_iff)
  ultimately show ?thesis
    using g new assms by (simp add: participant_insert_def registry_ok_def)
qed

lemma participant_insert_list:
  assumes "registry_ok r"
  shows "participant_insert p r = (Inr (), r') \<Longrightarrow> cr_participants r' = cr_participants r @ [p]"
    and "fst (participant_insert p r) = Inr () \<longleftrightarrow>
      length (cr_participants r) < MAX_CONFERENCE_PARTICIPANTS
      \<and> cp_id p \<notin> cp_id ` set (cr_participants r)
      \<and> cp_pbx_call_id p \<notin> cp_pbx_call_id ` set (cr_participants r)"
  using assms
  by (auto simp: participant_insert_def registry_ok_contains registry_ok_contains_pbx
      split: if_splits)

section \<open>Removal\<close>

text \<open>Removing the element at the position of a key is filtering the key out.\<close>

lemma remove_nth_filter:
  assumes "distinct (map key xs)" and "j < length xs"
  shows "take j xs @ drop (Suc j) xs = filter (\<lambda>x. key x \<noteq> key (xs ! j)) xs"
proof -
  have split: "xs = take j xs @ xs ! j # drop (Suc j) xs"
    using assms(2) by (rule id_take_nth_drop)
  from assms(1) have "distinct (map key (take j xs) @ key (xs ! j) # map key (drop (Suc j) xs))"
    by (subst (asm) split) simp
  then have "filter (\<lambda>x. key x \<noteq> key (xs ! j)) (take j xs) = take j xs"
    and "filter (\<lambda>x. key x \<noteq> key (xs ! j)) (drop (Suc j) xs) = drop (Suc j) xs"
    by (auto simp: filter_id_conv) (metis image_eqI)+
  then show ?thesis
    by (subst (3) split) simp
qed

lemma fold_index:
  assumes "distinct (map (\<lambda>x. cp_id (snd x)) xs)"
  shows "hm_get (fold (\<lambda>(k, q) m. hm_insert (cp_id q) k m) xs m) i = Some k
     \<longleftrightarrow> (\<exists>q. (k, q) \<in> set xs \<and> cp_id q = i)
       \<or> (i \<notin> cp_id ` snd ` set xs \<and> hm_get m i = Some k)"
  using assms
proof (induction xs arbitrary: m)
  case (Cons x xs)
  obtain k' q' where x: "x = (k', q')" by (cases x)
  from Cons.prems x have "cp_id q' \<notin> cp_id ` snd ` set xs"
    and "distinct (map (\<lambda>x. cp_id (snd x)) xs)"
    by (auto simp: image_iff)
  with Cons.IH [of "hm_insert (cp_id q') k' m"] x show ?case by (auto simp: image_iff)
qed simp

lemma set_drop_enumerate:
  "(k, q) \<in> set (drop j (enumerate 0 xs)) \<longleftrightarrow> j \<le> k \<and> k < length xs \<and> q = xs ! k"
proof
  assume "(k, q) \<in> set (drop j (enumerate 0 xs))"
  then obtain n where "n < length xs - j" and "(enumerate 0 xs) ! (j + n) = (k, q)"
    by (auto simp: in_set_conv_nth)
  then show "j \<le> k \<and> k < length xs \<and> q = xs ! k" by (auto simp: nth_enumerate_eq)
next
  assume *: "j \<le> k \<and> k < length xs \<and> q = xs ! k"
  then have "drop j (enumerate 0 xs) ! (k - j) = (k, q)" by (simp add: nth_enumerate_eq)
  then show "(k, q) \<in> set (drop j (enumerate 0 xs))"
    using * by (metis diff_less_mono length_drop length_enumerate nth_mem)
qed

lemma distinct_drop_enumerate:
  assumes "distinct (map key xs)"
  shows "distinct (map (\<lambda>x. key (snd x)) (drop j (enumerate 0 xs)))"
proof -
  have "map (\<lambda>x. key (snd x)) (enumerate 0 xs) = map key (map snd (enumerate 0 xs))"
    by (simp only: map_map comp_def)
  then have "map (\<lambda>x. key (snd x)) (enumerate 0 xs) = map key xs"
    by (simp only: map_snd_enumerate)
  with assms show ?thesis by (metis distinct_drop drop_map)
qed

lemma snd_drop_enumerate:
  "x \<in> snd ` set (drop j (enumerate 0 xs)) \<longleftrightarrow> (\<exists>m. j \<le> m \<and> m < length xs \<and> x = xs ! m)"
  by (auto simp: image_iff Bex_def set_drop_enumerate split_paired_Ex)

text \<open>The rewritten identity index describes the shortened list.\<close>

lemma reindex_after_remove:
  assumes "registry_ok r" and "hm_get (cr_by_id r) i = Some j"
    and "ps = take j (cr_participants r) @ drop (Suc j) (cr_participants r)"
  shows "hm_get (fold (\<lambda>(k, q) m. hm_insert (cp_id q) k m)
      (drop j (enumerate 0 ps)) (hm_remove i (cr_by_id r))) i' = Some k
    \<longleftrightarrow> k < length ps \<and> cp_id (ps ! k) = i'"
proof -
  let ?xs = "cr_participants r"
  have j: "j < length ?xs" "cp_id (?xs ! j) = i"
    using assms(1,2) by (auto simp: registry_ok_by_id)
  have ids: "distinct (map cp_id ?xs)" by (rule registry_ok_distinct [OF assms(1)])
  have len: "Suc (length ps) = length ?xs" using j by (simp add: assms(3))
  have nth: "ps ! m = (if m < j then ?xs ! m else ?xs ! Suc m)" if "m < length ps" for m
    using that j by (simp add: assms(3) nth_append)
  have dist: "distinct (map cp_id ps)"
    using ids j by (simp add: assms(3) remove_nth_filter [of cp_id] distinct_map_filter)
  have same: "cp_id (?xs ! m) = cp_id (?xs ! n) \<longleftrightarrow> m = n"
    if "m < length ?xs" and "n < length ?xs" for m n
    using ids that nth_eq_iff_index_eq [of "map cp_id ?xs" m n] by simp
  have "hm_get (fold (\<lambda>(k, q) m. hm_insert (cp_id q) k m)
      (drop j (enumerate 0 ps)) (hm_remove i (cr_by_id r))) i' = Some k
    \<longleftrightarrow> (j \<le> k \<and> k < length ps \<and> cp_id (ps ! k) = i')
      \<or> ((\<forall>m. j \<le> m \<and> m < length ps \<longrightarrow> cp_id (ps ! m) \<noteq> i')
          \<and> i' \<noteq> i \<and> k < length ?xs \<and> cp_id (?xs ! k) = i')"
    unfolding fold_index [OF distinct_drop_enumerate [OF dist]] set_drop_enumerate
      image_iff [of i'] Bex_def snd_drop_enumerate hm_get_remove
    using registry_ok_by_id [OF assms(1), of i' k] by auto
  also have "\<dots> \<longleftrightarrow> k < length ps \<and> cp_id (ps ! k) = i'" (is "?A \<or> ?B \<longleftrightarrow> ?C")
  proof (cases "k < j")
    case True
    then have "cp_id (ps ! k) = cp_id (?xs ! k)" using nth [of k] len j(1) by simp
    moreover have "cp_id (ps ! m) \<noteq> cp_id (?xs ! k)" if "j \<le> m" and "m < length ps" for m
      using that True nth [of m] len same [of "Suc m" k] by simp
    moreover have "cp_id (?xs ! k) \<noteq> i" using True j same [of k j] by auto
    ultimately show ?thesis using True len j(1) by auto
  next
    case False
    have "\<not> ?B"
    proof
      assume B: ?B
      then have "k \<noteq> j" using j(2) by auto
      with False have k: "j \<le> k - 1" "Suc (k - 1) = k" by auto
      moreover have "k - 1 < length ps" using B k len by linarith
      ultimately have "cp_id (ps ! (k - 1)) = i'" using B nth [of "k - 1"] by simp
      with B k \<open>k - 1 < length ps\<close> show False by blast
    qed
    with False show ?thesis by auto
  qed
  finally show ?thesis .
qed

text \<open>In a well-formed registry \<open>remove\<close> never panics and is a filter.\<close>

lemma participant_remove_spec:
  assumes "registry_ok r"
  shows "\<exists>r'. participant_remove i r = Some (find (\<lambda>p. cp_id p = i) (cr_participants r), r')
    \<and> registry_ok r'
    \<and> cr_participants r' = filter (\<lambda>p. cp_id p \<noteq> i) (cr_participants r)"
proof (cases "hm_get (cr_by_id r) i")
  case None
  then have "i \<notin> cp_id ` set (cr_participants r)"
    using registry_ok_contains [OF assms, of i] by (simp add: hm_contains_def)
  then have "find (\<lambda>p. cp_id p = i) (cr_participants r) = None"
    and "filter (\<lambda>p. cp_id p \<noteq> i) (cr_participants r) = cr_participants r"
    by (auto simp: find_None_iff filter_id_conv)
  with None assms show ?thesis by (simp add: participant_remove_def)
next
  case (Some j)
  let ?xs = "cr_participants r" and ?p = "cr_participants r ! j"
  define ps where "ps = take j ?xs @ drop (Suc j) ?xs"
  define m where "m = fold (\<lambda>(k, q) m. hm_insert (cp_id q) k m)
      (drop j (enumerate 0 ps)) (hm_remove i (cr_by_id r))"
  let ?r' = "\<lparr>cr_participants = ps, cr_by_id = m,
      cr_by_pbx = hm_remove (cp_pbx_call_id ?p) (cr_by_pbx r)\<rparr>"
  have j: "j < length ?xs" "cp_id ?p = i"
    using assms Some by (auto simp: registry_ok_by_id)
  have ids: "distinct (map cp_id ?xs)" by (rule registry_ok_distinct [OF assms])
  have filt: "ps = filter (\<lambda>p. cp_id p \<noteq> i) ?xs"
    using remove_nth_filter [OF ids j(1)] j(2) by (simp add: ps_def)
  have calls: "ps = filter (\<lambda>p. cp_pbx_call_id p \<noteq> cp_pbx_call_id ?p) ?xs"
    using remove_nth_filter [of cp_pbx_call_id ?xs j] j assms by (simp add: ps_def registry_ok_def)
  have found: "find (\<lambda>p. cp_id p = i) ?xs = Some ?p"
    using find_by_key [OF ids, of ?p] j by simp
  have "hm_get (hm_remove (cp_pbx_call_id ?p) (cr_by_pbx r)) c = Some i'
      \<longleftrightarrow> (\<exists>q \<in> set ps. cp_pbx_call_id q = c \<and> cp_id q = i')" for c i'
    using assms by (auto simp: registry_ok_def calls)
  moreover have "distinct (map cp_pbx_call_id ps)"
    using assms by (simp add: registry_ok_def calls distinct_map_filter)
  moreover have "length ps \<le> MAX_CONFERENCE_PARTICIPANTS"
    using assms le_trans [OF length_filter_le] unfolding registry_ok_def filt by blast
  ultimately have "registry_ok ?r'"
    using reindex_after_remove [OF assms Some ps_def] by (simp add: registry_ok_def m_def)
  moreover have "participant_remove i r = Some (Some ?p, ?r')"
    using Some j by (simp add: participant_remove_def ps_def m_def Let_def)
  ultimately show ?thesis using found filt by auto
qed

section \<open>The registry as an ordered store\<close>

text \<open>
  What the controller relies on when it edits a conference: participants keep their
  insertion order, are found by their key, and an insertion is undone by the
  removal of the same key.
\<close>

locale ordered_store =
  fixes contents :: "'r \<Rightarrow> 'p list"
    and key :: "'p \<Rightarrow> 'k"
    and ok :: "'r \<Rightarrow> bool"
    and lookup :: "'r \<Rightarrow> 'k \<Rightarrow> 'p option"
    and add :: "'p \<Rightarrow> 'r \<Rightarrow> ('e + unit) \<times> 'r"
    and drop_key :: "'k \<Rightarrow> 'r \<Rightarrow> ('p option \<times> 'r) option"
  assumes distinct_keys: "ok r \<Longrightarrow> distinct (map key (contents r))"
    and lookup_contents: "ok r \<Longrightarrow> lookup r k = find (\<lambda>p. key p = k) (contents r)"
    and add_ok: "ok r \<Longrightarrow> ok (snd (add p r))"
    and add_contents: "ok r \<Longrightarrow> add p r = (Inr (), r') \<Longrightarrow> contents r' = contents r @ [p]"
    and drop_contents: "ok r \<Longrightarrow> \<exists>r'. drop_key k r = Some (find (\<lambda>p. key p = k) (contents r), r')
        \<and> ok r' \<and> contents r' = filter (\<lambda>p. key p \<noteq> k) (contents r)"
begin

lemma added_new:
  assumes "ok r" and "add p r = (Inr (), r')" and "q \<in> set (contents r)"
  shows "key q \<noteq> key p"
proof -
  have "ok r'" using add_ok [OF assms(1), of p] assms(2) by simp
  then have "distinct (map key (contents r @ [p]))"
    using distinct_keys [of r'] add_contents [OF assms(1,2)] by simp
  then have "key p \<notin> key ` set (contents r)" by simp
  with assms(3) show ?thesis by (metis image_eqI)
qed

lemma lookup_added:
  assumes "ok r" and "add p r = (Inr (), r')"
  shows "lookup r' k = (if k = key p then Some p else lookup r k)"
proof -
  have r': "ok r'" using add_ok [OF assms(1), of p] assms(2) by simp
  have "find (\<lambda>q. key q = key p) (contents r) = None"
    using added_new [OF assms] by (force simp: find_None_iff)
  moreover have "find P (xs @ [p]) = (case find P xs of None \<Rightarrow> if P p then Some p else None
      | Some x \<Rightarrow> Some x)" for P xs
    by (induction xs) auto
  ultimately show ?thesis
    using r' assms(1) by (auto simp: lookup_contents add_contents [OF assms] split: option.split)
qed

lemma lookup_dropped:
  assumes "ok r"
  shows "\<exists>r'. drop_key k r = Some (lookup r k, r') \<and> ok r'
    \<and> (\<forall>k'. lookup r' k' = (if k' = k then None else lookup r k'))"
proof -
  obtain r' where r': "drop_key k r = Some (find (\<lambda>p. key p = k) (contents r), r')" "ok r'"
      "contents r' = filter (\<lambda>p. key p \<noteq> k) (contents r)"
    using drop_contents [OF assms] by blast
  have "find (\<lambda>p. key p = k') (filter (\<lambda>p. key p \<noteq> k) xs)
      = (if k' = k then None else find (\<lambda>p. key p = k') xs)" for k' xs
    by (induction xs) auto
  with r' assms show ?thesis by (simp add: lookup_contents)
qed

text \<open>Insert and remove of the same key is the identity on the contents.\<close>

lemma add_then_drop:
  assumes "ok r" and "add p r = (Inr (), r1)"
  shows "\<exists>r2. drop_key (key p) r1 = Some (Some p, r2) \<and> contents r2 = contents r"
proof -
  have r1: "ok r1" using add_ok [OF assms(1), of p] assms(2) by simp
  obtain r2 where r2: "drop_key (key p) r1 = Some (lookup r1 (key p), r2)"
      "contents r2 = filter (\<lambda>q. key q \<noteq> key p) (contents r1)"
    using drop_contents [OF r1, of "key p"] lookup_contents [OF r1] by auto
  have "filter (\<lambda>q. key q \<noteq> key p) (contents r) = contents r"
    using added_new [OF assms] by (force simp: filter_id_conv)
  with r2 show ?thesis
    using lookup_added [OF assms, of "key p"] by (simp add: add_contents [OF assms])
qed

end

interpretation participants:
  ordered_store cr_participants cp_id registry_ok participant_get participant_insert
    participant_remove
proof unfold_locales
  fix r :: participant_registry and i p r'
  assume ok: "registry_ok r"
  show "distinct (map cp_id (cr_participants r))" by (rule registry_ok_distinct [OF ok])
  show "participant_get r i = find (\<lambda>p. cp_id p = i) (cr_participants r)"
    by (rule participant_get_find [OF ok])
  show "registry_ok (snd (participant_insert p r))" by (rule registry_ok_insert [OF ok])
  show "cr_participants r' = cr_participants r @ [p]" if "participant_insert p r = (Inr (), r')"
    using that by (rule participant_insert_list(1) [OF ok])
  show "\<exists>r'. participant_remove i r = Some (find (\<lambda>p. cp_id p = i) (cr_participants r), r')
      \<and> registry_ok r' \<and> cr_participants r' = filter (\<lambda>p. cp_id p \<noteq> i) (cr_participants r)"
    by (rule participant_remove_spec [OF ok])
qed

section \<open>Reachable registries\<close>

datatype participant_event =
    InsertParticipant conference_participant
  | RemoveParticipant participant_id
  | SetMuted participant_id bool
  | SetHeld participant_id bool
  | SetModerator participant_id bool
  | UpdateIdentity pbx_call_id conference_participant_identity

text \<open>The registry after one call; \<open>None\<close> is a panic.\<close>

fun participant_apply :: "participant_event \<Rightarrow> participant_registry \<Rightarrow> participant_registry option" where
  "participant_apply (InsertParticipant p) r = Some (snd (participant_insert p r))"
| "participant_apply (RemoveParticipant i) r = map_option snd (participant_remove i r)"
| "participant_apply (SetMuted i b) r = Some (snd (set_muted i b r))"
| "participant_apply (SetHeld i b) r = Some (snd (set_held i b r))"
| "participant_apply (SetModerator i b) r =
     (case set_moderator i b r of (Inl Panicked, _) \<Rightarrow> None | (_, r') \<Rightarrow> Some r')"
| "participant_apply (UpdateIdentity c ident) r = Some (snd (update_identity c ident r))"

fun participant_run ::
  "participant_event list \<Rightarrow> participant_registry \<Rightarrow> participant_registry option"
where
  "participant_run [] r = Some r"
| "participant_run (ev # evs) r =
     (case participant_apply ev r of None \<Rightarrow> None | Some r' \<Rightarrow> participant_run evs r')"

lemma set_moderator_cases:
  assumes "registry_ok r"
  shows "set_moderator i m r =
    (case participant_get r i of
       None \<Rightarrow> (Inl (Rejected UnknownParticipant), r)
     | Some p \<Rightarrow>
         if cp_moderator p = m then (Inl (Rejected UnchangedRole), r)
         else if \<not> m \<and> moderator_count r = 1 then (Inl (Rejected LastModerator), r)
         else (Inr (), snd (participant_write i (\<lambda>p. p\<lparr>cp_moderator := m\<rparr>) r)))"
proof (cases "hm_get (cr_by_id r) i")
  case None
  with assms show ?thesis
    by (simp add: set_moderator_def participant_get_def registry_ok_index)
next
  case (Some j)
  with assms have "j < length (cr_participants r)" by (simp add: registry_ok_by_id)
  with Some assms show ?thesis
    by (simp add: set_moderator_def participant_get_def participant_write_def registry_ok_index)
qed

lemma participant_apply_ok:
  assumes "registry_ok r"
  shows "\<exists>r'. participant_apply ev r = Some r' \<and> registry_ok r'"
proof (cases ev)
  case (RemoveParticipant i)
  with participant_remove_spec [OF assms, of i] show ?thesis by auto
next
  case (SetModerator i m)
  with assms show ?thesis
    by (auto simp: set_moderator_cases registry_ok_write split: option.split)
qed (use assms in \<open>auto simp: set_muted_def set_held_def update_identity_def registry_ok_write
    registry_ok_insert split: option.split\<close>)

lemma participant_run_ok:
  "registry_ok r \<Longrightarrow> \<exists>r'. participant_run evs r = Some r' \<and> registry_ok r'"
proof (induction evs arbitrary: r)
  case (Cons ev evs)
  from participant_apply_ok [OF Cons.prems, of ev] Cons.IH show ?case by auto
qed simp

lemma participant_insert_all_ok:
  "registry_ok r \<Longrightarrow> participant_insert_all ps r = Inr r' \<Longrightarrow>
     registry_ok r' \<and> cr_participants r' = cr_participants r @ ps"
proof (induction ps arbitrary: r)
  case (Cons p ps)
  then obtain r1 where r1: "participant_insert p r = (Inr (), r1)"
    by (auto split: prod.splits sum.splits)
  with Cons.prems have "registry_ok r1" using registry_ok_insert [of r p] by simp
  with Cons r1 show ?case
    using participant_insert_list(1) [OF Cons.prems(1) r1] by auto
qed simp

lemma participant_registry_new_ok:
  assumes "participant_registry_new ps = Inr r"
  shows "registry_ok r" and "cr_participants r = ps" and "1 \<le> moderator_count r"
  using assms participant_insert_all_ok [OF registry_ok_default, of ps]
  by (auto simp: participant_registry_new_def participant_registry_default_def
      split: sum.splits if_splits)

section \<open>Properties\<close>

text \<open>
  C13. However a conference is edited after it was created, the two indexes and the
  participant list agree: no call panics, lookups by identity and by PBX call are
  searches in the list, at most sixteen participants are held, and no two of them
  share an identity or a PBX call.
\<close>

theorem participant_registry_consistent:
  assumes "participant_registry_new ps = Inr r"
  shows "\<exists>r'. participant_run evs r = Some r'
    \<and> participant_get r' i = find (\<lambda>p. cp_id p = i) (cr_participants r')
    \<and> participant_by_pbx r' c = find (\<lambda>p. cp_pbx_call_id p = c) (cr_participants r')
    \<and> length (cr_participants r') \<le> 16
    \<and> distinct (map cp_id (cr_participants r'))
    \<and> distinct (map cp_pbx_call_id (cr_participants r'))"
proof -
  obtain r' where run: "participant_run evs r = Some r'" and ok: "registry_ok r'"
    using participant_run_ok [OF participant_registry_new_ok(1) [OF assms]] by blast
  with run show ?thesis
    by (auto simp: participant_get_find participant_by_pbx_find registry_ok_distinct)
      (auto simp: registry_ok_def MAX_CONFERENCE_PARTICIPANTS_def)
qed

text \<open>
  Removing a participant refines list removal: it returns the participant that
  the identity named, every other participant is still found under its identity,
  the order of the rest is unchanged, and removing a participant just inserted
  gives back the participants from before.
\<close>

theorem participant_remove_refines:
  assumes "registry_ok r"
  shows "(\<exists>r'. participant_remove i r = Some (participant_get r i, r')
      \<and> (\<forall>k. participant_get r' k = (if k = i then None else participant_get r k))
      \<and> cr_participants r' = filter (\<lambda>p. cp_id p \<noteq> i) (cr_participants r))
    \<and> (participant_insert p r = (Inr (), r1) \<longrightarrow>
        (\<exists>r2. participant_remove (cp_id p) r1 = Some (Some p, r2)
          \<and> cr_participants r2 = cr_participants r))"
proof (intro conjI impI)
  show "\<exists>r'. participant_remove i r = Some (participant_get r i, r')
      \<and> (\<forall>k. participant_get r' k = (if k = i then None else participant_get r k))
      \<and> cr_participants r' = filter (\<lambda>p. cp_id p \<noteq> i) (cr_participants r)"
    using participants.lookup_dropped [OF assms, of i] participant_remove_spec [OF assms, of i]
    by auto
  show "\<exists>r2. participant_remove (cp_id p) r1 = Some (Some p, r2)
        \<and> cr_participants r2 = cr_participants r"
    if "participant_insert p r = (Inr (), r1)"
    by (rule participants.add_then_drop [OF assms that])
qed

lemma moderators_map:
  assumes "\<And>p. p \<in> set ps \<Longrightarrow> cp_moderator (f p) = cp_moderator p"
  shows "filter cp_moderator (map f ps) = map f (filter cp_moderator ps)"
  using assms by (induction ps) auto

lemma moderator_count_write:
  assumes "registry_ok r" and "keeps_keys f" and "\<And>p. cp_moderator (f p) = cp_moderator p"
  shows "moderator_count (snd (participant_write i f r)) = moderator_count r"
  using assms by (simp add: participant_write_map moderator_count_def moderators_map)

lemma filter_length_pos: "0 < length (filter P xs) \<longleftrightarrow> (\<exists>x \<in> set xs. P x)"
  by (induction xs) auto

lemma two_of_count:
  assumes "distinct (map key xs)" and "1 < length (filter P xs)"
  shows "\<exists>x \<in> set xs. P x \<and> key x \<noteq> k"
proof (rule ccontr)
  assume "\<not> ?thesis"
  then have "key ` set (filter P xs) \<subseteq> {k}" by auto
  then have "card (key ` set (filter P xs)) \<le> card {k}" by (rule card_mono [rotated]) simp
  moreover have "card (key ` set (filter P xs)) = length (filter P xs)"
    using distinct_card [OF distinct_map_filter [OF assms(1), of P]] by simp
  ultimately show False using assms(2) by simp
qed

lemma moderators_pos: "1 \<le> moderator_count r \<longleftrightarrow> (\<exists>p \<in> set (cr_participants r). cp_moderator p)"
  using filter_length_pos [of cp_moderator "cr_participants r"]
  by (simp add: moderator_count_def Suc_le_eq)

lemma set_moderator_keeps_one:
  assumes "registry_ok r" and "1 \<le> moderator_count r"
  shows "1 \<le> moderator_count (snd (set_moderator i m r))"
proof (cases "fst (set_moderator i m r)")
  case (Inl e)
  then have "snd (set_moderator i m r) = r"
    using assms(1) by (auto simp: set_moderator_cases split: option.splits if_splits)
  with assms(2) show ?thesis by simp
next
  case (Inr u)
  let ?f = "\<lambda>p. if cp_id p = i then p\<lparr>cp_moderator := m\<rparr> else p"
  from Inr have list: "cr_participants (snd (set_moderator i m r)) = map ?f (cr_participants r)"
    and more: "m \<or> moderator_count r \<noteq> 1"
    using assms(1)
    by (auto simp: set_moderator_cases participant_write_map split: option.splits if_splits)
  have "\<exists>p \<in> set (cr_participants r). cp_moderator (?f p)"
  proof (cases m)
    case True
    obtain p where "p \<in> set (cr_participants r)" and "cp_moderator p"
      using assms(2) unfolding moderators_pos by blast
    with True show ?thesis by auto
  next
    case False
    with more assms(2) have "1 < length (filter cp_moderator (cr_participants r))"
      by (simp add: moderator_count_def)
    from two_of_count [OF registry_ok_distinct [OF assms(1)] this, of i] show ?thesis by auto
  qed
  then show ?thesis unfolding moderators_pos list set_map by blast
qed

lemma participant_apply_moderator:
  assumes "registry_ok r" and "1 \<le> moderator_count r" and "participant_apply ev r = Some r'"
    and "\<And>i. ev \<noteq> RemoveParticipant i"
  shows "1 \<le> moderator_count r'"
proof (cases ev)
  case (SetModerator i m)
  with assms(3) have "r' = snd (set_moderator i m r)"
    by (auto split: prod.splits sum.splits fault.splits)
  with set_moderator_keeps_one [OF assms(1,2)] show ?thesis by simp
next
  case (InsertParticipant p)
  with assms show ?thesis
    by (auto simp: participant_insert_def moderator_count_def split: if_splits)
qed (use assms in \<open>auto simp: set_muted_def set_held_def update_identity_def
    moderator_count_write split: option.splits\<close>)

text \<open>
  A conference keeps a moderator: as long as no participant is removed, every
  sequence of insertions, role changes, mute, hold and identity updates leaves at
  least one moderator. Demotion of the only one is refused.
\<close>

theorem moderator_retained:
  assumes "participant_registry_new ps = Inr r"
    and "\<And>i. RemoveParticipant i \<notin> set evs" and "participant_run evs r = Some r'"
  shows "1 \<le> moderator_count r'
    \<and> (participant_get r' i = Some p \<and> cp_moderator p \<and> moderator_count r' = 1
        \<longrightarrow> set_moderator i False r' = (Inl (Rejected LastModerator), r'))"
proof -
  have "registry_ok r' \<and> 1 \<le> moderator_count r'"
    using participant_registry_new_ok(1,3) [OF assms(1)] assms(2,3)
  proof (induction evs arbitrary: r)
    case (Cons ev evs)
    then obtain r1 where r1: "participant_apply ev r = Some r1" "participant_run evs r1 = Some r'"
      by (auto split: option.splits)
    have "registry_ok r1" using participant_apply_ok [OF Cons.prems(1), of ev] r1(1) by auto
    moreover have "1 \<le> moderator_count r1"
      using participant_apply_moderator [OF Cons.prems(1,2) r1(1)] Cons.prems(3) by auto
    ultimately show ?case using Cons.IH [of r1] Cons.prems(3) r1(2) by auto
  qed simp
  then show ?thesis by (auto simp: set_moderator_cases)
qed

section \<open>Witnesses\<close>

definition sample_participant :: "u32 \<Rightarrow> bool \<Rightarrow> conference_participant" where
  "sample_participant i m =
     \<lparr>cp_id = i, cp_pbx_call_id = 100 + ucast i, cp_handset_call_id = ucast i,
      cp_device_id = ''SEP1'', cp_display_name = [], cp_number = [],
      cp_moderator = m, cp_muted = False, cp_held = False\<rparr>"

definition sample_conference :: participant_registry where
  "sample_conference =
     \<lparr>cr_participants = [sample_participant 1 True, sample_participant 2 False],
      cr_by_id = [(1, 0), (2, 1)], cr_by_pbx = [(101, 1), (102, 2)]\<rparr>"

lemma sample_conference_new:
  "participant_registry_new [sample_participant 1 True, sample_participant 2 False]
     = Inr sample_conference"
  by (simp add: participant_registry_new_def participant_registry_default_def
      participant_insert_def MAX_CONFERENCE_PARTICIPANTS_def sample_participant_def
      sample_conference_def hm_insert_def hm_contains_def moderator_count_def)

theorem participant_registry_consistent_witness:
  "\<exists>r'. participant_run [RemoveParticipant 1, SetMuted 2 True] sample_conference = Some r'
     \<and> participant_get r' 2 = find (\<lambda>p. cp_id p = 2) (cr_participants r')"
  using participant_registry_consistent [OF sample_conference_new,
      of "[RemoveParticipant 1, SetMuted 2 True]" 2 102] by blast

theorem participant_remove_refines_witness:
  "\<exists>r1 r2. participant_insert (sample_participant 3 False) sample_conference = (Inr (), r1)
     \<and> participant_remove 3 r1 = Some (Some (sample_participant 3 False), r2)
     \<and> cr_participants r2 = cr_participants sample_conference"
proof -
  have ok: "registry_ok sample_conference"
    by (rule participant_registry_new_ok(1) [OF sample_conference_new])
  obtain r1 where r1: "participant_insert (sample_participant 3 False) sample_conference = (Inr (), r1)"
    by (simp add: participant_insert_def MAX_CONFERENCE_PARTICIPANTS_def sample_participant_def
        sample_conference_def hm_contains_def)
  from participant_remove_refines [OF ok, of 1 "sample_participant 3 False" r1] r1 show ?thesis
    by (auto simp: sample_participant_def)
qed

theorem moderator_retained_witness:
  "\<exists>r'. participant_run [SetModerator 2 True, SetModerator 1 False] sample_conference = Some r'
     \<and> 1 \<le> moderator_count r'"
proof -
  let ?evs = "[SetModerator 2 True, SetModerator 1 False]"
  obtain r' where run: "participant_run ?evs sample_conference = Some r'"
    using participant_run_ok [OF participant_registry_new_ok(1) [OF sample_conference_new]] by blast
  have "RemoveParticipant i \<notin> set ?evs" for i by simp
  from moderator_retained [OF sample_conference_new this run] run show ?thesis by blast
qed

end
