(* ===== verification/Wire_Framing.thy ===== *)
theory Wire_Framing
  imports Sccp_Prelude
begin

text \<open>
  The framing layer of the protocol crate, \<^verbatim>\<open>sccp-protocol/src/message/wire.rs\<close>:
  frames, their encoding, and the incremental decoder that cuts a byte stream into
  frames.

  The header is read and written by the \<^verbatim>\<open>binrw\<close> package. It is a parameter of the
  model, a pair of functions; what the layer relies on is stated once, in the locale
  \<open>header_codec\<close>: a header is written as its three fields in order, each least
  significant byte first, and reading twelve bytes inverts that.

  The abstract specification of the decoder is \<open>parse\<close>, a recursive function on the
  whole stream; \<open>push\<close>, which works on a retained buffer with a running offset, is
  shown to compute it chunk by chunk.
\<close>

unbundle bit_operations_syntax

section \<open>Data\<close>

definition HEADER_SIZE :: nat where "HEADER_SIZE = 12"

definition MAX_FRAME_SIZE :: nat where "MAX_FRAME_SIZE = 8192"

text \<open>\<open>usize::MAX\<close> on the 64-bit targets of the module.\<close>

definition usize_MAX :: nat where "usize_MAX = 2 ^ 64 - 1"

record wire_header =
  wh_wire_len :: u32
  wh_protocol_version :: u32
  wh_message_id :: u32

record frame =
  fr_protocol_version :: u32
  fr_message_id :: u32
  fr_payload :: "u8 list"

datatype message_route =
    StationToControl | ControlToStation | ControlToServiceNode | ServiceNodeToControl
  | IntraControl

datatype codec_error =
    InvalidLength u32
  | FrameTooLarge nat
  | Truncated (te_message_id: u32) (te_needed: nat) (te_actual: nat)
  | InvalidDeviceId string
  | InvalidDefinition string
  | InvalidText
  | UnsupportedProtocol u32
  | UnexpectedRoute u32 message_route string
  | InvalidValue u32 string u64
  | CountTooLarge u32 string nat nat
  | NonZeroPadding u32 string
  | TrailingBytes u32 nat
  | InvalidAlignment u32 nat
  | TextTooLong u32 string nat nat
  | SecretTooLong string nat nat
  | Wire string u32 u64 string

text \<open>
  The errors of \<^verbatim>\<open>binrw\<close>, as far as the framing layer looks at them: the variant, the
  position that some variants carry, and the text they display.
\<close>

datatype binrw_error_kind =
    BadMagic u64 | AssertFail u64 | Custom u64 | NoVariantMatch u64 | EnumErrors u64
  | Io | Backtrace | OtherKind

record binrw_error =
  be_kind :: binrw_error_kind
  be_display :: string

definition codec_error_wire :: "string \<Rightarrow> u32 \<Rightarrow> binrw_error \<Rightarrow> codec_error" where
  "codec_error_wire operation message_id err =
     Wire operation message_id
       (case be_kind err of
          BadMagic pos \<Rightarrow> pos
        | AssertFail pos \<Rightarrow> pos
        | Custom pos \<Rightarrow> pos
        | NoVariantMatch pos \<Rightarrow> pos
        | EnumErrors pos \<Rightarrow> pos
        | Io \<Rightarrow> 0
        | Backtrace \<Rightarrow> 0
        | OtherKind \<Rightarrow> 0)
       (be_display err)"

type_synonym header_writer = "wire_header \<Rightarrow> binrw_error + u8 list"
type_synonym header_reader = "u8 list \<Rightarrow> binrw_error + wire_header"

section \<open>Encoding\<close>

definition frame_new :: "u32 \<Rightarrow> u32 \<Rightarrow> u8 list \<Rightarrow> frame" where
  "frame_new version message_id payload =
     \<lparr>fr_protocol_version = version, fr_message_id = message_id, fr_payload = payload\<rparr>"

definition frame_encode :: "header_writer \<Rightarrow> frame \<Rightarrow> codec_error + u8 list" where
  "frame_encode write f =
     (let wire_len = length (fr_payload f) + 4; total = wire_len + 8 in
      if wire_len > usize_MAX then Inl (FrameTooLarge usize_MAX)
      else if total > MAX_FRAME_SIZE then Inl (FrameTooLarge total)
      else if wire_len \<ge> 2 ^ 32 then Inl (FrameTooLarge wire_len)
      else
        case write \<lparr>wh_wire_len = of_nat wire_len,
                    wh_protocol_version = fr_protocol_version f,
                    wh_message_id = fr_message_id f\<rparr> of
          Inl e \<Rightarrow> Inl (codec_error_wire ''encode'' (fr_message_id f) e)
        | Inr header \<Rightarrow> Inr (header @ fr_payload f))"

section \<open>The incremental decoder\<close>

record frame_decoder =
  fd_buffer :: "u8 list"

definition decoder_new :: frame_decoder where
  "decoder_new = \<lparr>fd_buffer = []\<rparr>"

text \<open>
  The loop of \<open>push\<close>: \<open>consumed\<close> is the offset of the first byte not yet part of a
  frame. It ends because a frame has at least twelve bytes.
\<close>

function push_loop ::
  "header_reader \<Rightarrow> u8 list \<Rightarrow> nat \<Rightarrow> frame list \<Rightarrow> codec_error + nat \<times> frame list"
where
  "push_loop read buffer consumed frames =
     (let retained = drop consumed buffer in
      if length retained < HEADER_SIZE then Inr (consumed, frames)
      else
        case read (take HEADER_SIZE retained) of
          Inl e \<Rightarrow> Inl (codec_error_wire ''decode header for'' 0 e)
        | Inr header \<Rightarrow>
            if unat (wh_wire_len header) < 4 then Inl (InvalidLength (wh_wire_len header))
            else
              let total = unat (wh_wire_len header) + 8 in
              if total > MAX_FRAME_SIZE then Inl (FrameTooLarge total)
              else if length retained < total then Inr (consumed, frames)
              else push_loop read buffer (consumed + total)
                (frames @ [\<lparr>fr_protocol_version = wh_protocol_version header,
                            fr_message_id = wh_message_id header,
                            fr_payload = take (total - HEADER_SIZE) (drop HEADER_SIZE retained)\<rparr>]))"
  by pat_completeness auto
termination
  by (relation "measure (\<lambda>(_, buffer, consumed, _). length buffer - consumed)")
    (auto simp: HEADER_SIZE_def)

declare push_loop.simps [simp del]

text \<open>An error leaves the whole extended buffer behind, complete frames included.\<close>

definition push ::
  "header_reader \<Rightarrow> u8 list \<Rightarrow> frame_decoder \<Rightarrow> (codec_error + frame list) \<times> frame_decoder"
where
  "push read bytes d =
     (let buffer = fd_buffer d @ bytes in
      case push_loop read buffer 0 [] of
        Inl e \<Rightarrow> (Inl e, d\<lparr>fd_buffer := buffer\<rparr>)
      | Inr (consumed, frames) \<Rightarrow>
          (Inr frames,
           d\<lparr>fd_buffer := (if consumed \<noteq> 0 then drop consumed buffer else buffer)\<rparr>))"

definition buffered_len :: "frame_decoder \<Rightarrow> nat" where
  "buffered_len d = length (fd_buffer d)"

text \<open>A connection feeds its chunks in order and stops at the first error.\<close>

fun push_all ::
  "header_reader \<Rightarrow> u8 list list \<Rightarrow> frame_decoder
     \<Rightarrow> (codec_error + frame list) \<times> frame_decoder"
where
  "push_all read [] d = (Inr [], d)"
| "push_all read (c # cs) d =
     (case push read c d of
        (Inl e, d') \<Rightarrow> (Inl e, d')
      | (Inr fs, d') \<Rightarrow>
          (case push_all read cs d' of
             (Inl e, d'') \<Rightarrow> (Inl e, d'')
           | (Inr gs, d'') \<Rightarrow> (Inr (fs @ gs), d'')))"

section \<open>Specification of the decoder\<close>

text \<open>What the first bytes of a stream amount to.\<close>

datatype stream_head = Partial | Bad codec_error | Complete frame nat

definition head_of :: "header_reader \<Rightarrow> u8 list \<Rightarrow> stream_head" where
  "head_of read bs =
     (if length bs < HEADER_SIZE then Partial
      else
        case read (take HEADER_SIZE bs) of
          Inl e \<Rightarrow> Bad (codec_error_wire ''decode header for'' 0 e)
        | Inr h \<Rightarrow>
            if unat (wh_wire_len h) < 4 then Bad (InvalidLength (wh_wire_len h))
            else
              let total = unat (wh_wire_len h) + 8 in
              if total > MAX_FRAME_SIZE then Bad (FrameTooLarge total)
              else if length bs < total then Partial
              else Complete
                (frame_new (wh_protocol_version h) (wh_message_id h)
                  (drop HEADER_SIZE (take total bs)))
                total)"

lemma head_of_Complete:
  assumes "head_of read bs = Complete f n"
  shows "12 \<le> n" and "n \<le> length bs" and "n \<le> MAX_FRAME_SIZE"
  using assms by (auto simp: head_of_def Let_def split: if_splits sum.splits)

lemma head_of_Partial_short: "head_of read bs = Partial \<Longrightarrow> length bs < MAX_FRAME_SIZE"
  by (auto simp: head_of_def Let_def HEADER_SIZE_def MAX_FRAME_SIZE_def split: if_splits sum.splits)

text \<open>A verdict other than \<open>Partial\<close> is final: further bytes do not change it.\<close>

lemma head_of_append:
  assumes "head_of read bs \<noteq> Partial"
  shows "head_of read (bs @ cs) = head_of read bs"
  using assms by (auto simp: head_of_def Let_def split: if_splits sum.splits)

text \<open>The stream as frames followed by an incomplete rest or an error.\<close>

function parse :: "header_reader \<Rightarrow> u8 list \<Rightarrow> frame list \<times> (codec_error + u8 list)" where
  "parse read bs =
     (case head_of read bs of
        Partial \<Rightarrow> ([], Inr bs)
      | Bad e \<Rightarrow> ([], Inl e)
      | Complete f n \<Rightarrow> (let (fs, rest) = parse read (drop n bs) in (f # fs, rest)))"
  by pat_completeness auto
termination
proof (relation "measure (length o snd)")
  fix read bs f n
  assume "head_of read bs = Complete f n"
  from head_of_Complete [OF this] show "((read, drop n bs), read, bs) \<in> measure (length o snd)"
    by simp
qed simp

declare parse.simps [simp del]

lemma parse_Partial: "head_of read bs = Partial \<Longrightarrow> parse read bs = ([], Inr bs)"
  by (simp add: parse.simps)

lemma parse_Bad: "head_of read bs = Bad e \<Longrightarrow> parse read bs = ([], Inl e)"
  by (simp add: parse.simps)

lemma parse_Complete:
  "head_of read bs = Complete f n \<Longrightarrow>
     parse read bs = (f # fst (parse read (drop n bs)), snd (parse read (drop n bs)))"
  by (subst parse.simps) (simp add: case_prod_beta)

lemmas parse_cases = parse_Partial parse_Bad parse_Complete

text \<open>What is left after the complete frames is not itself complete.\<close>

lemma parse_rest_Partial: "snd (parse read bs) = Inr rest \<Longrightarrow> head_of read rest = Partial"
proof (induction read bs rule: parse.induct)
  case (1 read bs)
  show ?case
  proof (cases "head_of read bs")
    case (Complete f n)
    with 1 show ?thesis by (simp add: parse_Complete)
  qed (use 1 in \<open>simp_all add: parse_Partial parse_Bad\<close>)
qed

text \<open>Parsing two pieces of a stream one after the other is parsing the stream.\<close>

lemma parse_append:
  "parse read (bs @ cs) =
     (case parse read bs of
        (fs, Inl e) \<Rightarrow> (fs, Inl e)
      | (fs, Inr rest) \<Rightarrow> (fs @ fst (parse read (rest @ cs)), snd (parse read (rest @ cs))))"
proof (induction read bs rule: parse.induct)
  case (1 read bs)
  show ?case
  proof (cases "head_of read bs")
    case Partial
    then show ?thesis by (simp add: parse_Partial)
  next
    case (Bad e)
    then have "head_of read (bs @ cs) = Bad e" by (simp add: head_of_append)
    with Bad show ?thesis by (simp add: parse_Bad)
  next
    case (Complete f n)
    then have "head_of read (bs @ cs) = Complete f n" and "n \<le> length bs"
      by (simp_all add: head_of_append head_of_Complete)
    with 1 [OF Complete] Complete show ?thesis
      by (simp add: parse_Complete split: prod.splits sum.splits)
  qed
qed

section \<open>The decoder computes the specification\<close>

lemma push_loop_step:
  "push_loop read buffer consumed frames =
     (case head_of read (drop consumed buffer) of
        Partial \<Rightarrow> Inr (consumed, frames)
      | Bad e \<Rightarrow> Inl e
      | Complete f n \<Rightarrow> push_loop read buffer (consumed + n) (frames @ [f]))"
  by (subst push_loop.simps)
    (auto simp: head_of_def Let_def frame_new_def drop_take split: sum.splits)

lemma push_loop_parse:
  assumes "consumed \<le> length buffer"
  shows "push_loop read buffer consumed frames =
    (case parse read (drop consumed buffer) of
       (fs, Inl e) \<Rightarrow> Inl e
     | (fs, Inr rest) \<Rightarrow> Inr (length buffer - length rest, frames @ fs))
   \<and> (\<forall>rest. snd (parse read (drop consumed buffer)) = Inr rest \<longrightarrow>
        length rest \<le> length buffer \<and> drop (length buffer - length rest) buffer = rest)"
  using assms
proof (induction "length buffer - consumed" arbitrary: consumed frames rule: less_induct)
  case less
  show ?case
  proof (cases "head_of read (drop consumed buffer)")
    case (Complete f n)
    note n = head_of_Complete [OF this]
    have "length buffer - (n + consumed) < length buffer - consumed" and "n + consumed \<le> length buffer"
      using n less.prems by auto
    note IH = less.hyps [OF this, of "frames @ [f]"]
    have "push_loop read buffer consumed frames = push_loop read buffer (n + consumed) (frames @ [f])"
      by (subst push_loop_step) (simp add: Complete add.commute)
    with IH show ?thesis
      by (auto simp: parse_Complete [OF Complete] split: prod.splits sum.splits)
  qed (use less.prems in \<open>subst push_loop_step, simp add: parse_cases\<close>)+
qed

lemma push_parse:
  "push read bytes d =
     (case parse read (fd_buffer d @ bytes) of
        (fs, Inl e) \<Rightarrow> (Inl e, d\<lparr>fd_buffer := fd_buffer d @ bytes\<rparr>)
      | (fs, Inr rest) \<Rightarrow> (Inr fs, d\<lparr>fd_buffer := rest\<rparr>))"
  using push_loop_parse [of 0 "fd_buffer d @ bytes" read "[]"]
  by (auto simp: push_def Let_def split: prod.splits sum.splits)

definition decoder_ok :: "header_reader \<Rightarrow> frame_decoder \<Rightarrow> bool" where
  "decoder_ok read d \<longleftrightarrow> head_of read (fd_buffer d) = Partial"

lemma decoder_ok_new [simp]: "decoder_ok read decoder_new"
  by (simp add: decoder_ok_def decoder_new_def head_of_def HEADER_SIZE_def)

lemma decoder_ok_push: "push read bytes d = (Inr fs, d') \<Longrightarrow> decoder_ok read d'"
  by (auto simp: push_parse decoder_ok_def split: prod.splits sum.splits
      intro: parse_rest_Partial [of read "fd_buffer d @ bytes"])

lemma push_all_parse:
  assumes "decoder_ok read d"
  shows "fst (push_all read cs d) = fst (push read (concat cs) d)
    \<and> (\<forall>fs d'. push read (concat cs) d = (Inr fs, d') \<longrightarrow> push_all read cs d = (Inr fs, d'))"
  using assms
proof (induction cs arbitrary: d)
  case Nil
  then show ?case by (simp add: push_parse decoder_ok_def parse_Partial)
next
  case (Cons c cs)
  obtain fs x where p: "parse read (fd_buffer d @ c) = (fs, x)" by fastforce
  have whole: "parse read (fd_buffer d @ c @ concat cs) =
      (case x of Inl e \<Rightarrow> (fs, Inl e)
       | Inr rest \<Rightarrow> (fs @ fst (parse read (rest @ concat cs)), snd (parse read (rest @ concat cs))))"
    using parse_append [of read "fd_buffer d @ c" "concat cs"] p by (simp split: sum.split)
  show ?case
  proof (cases x)
    case (Inl e)
    then show ?thesis using p whole by (simp add: push_parse)
  next
    case (Inr rest)
    have step: "push read c d = (Inr fs, d\<lparr>fd_buffer := rest\<rparr>)" (is "_ = (_, ?d)")
      using p Inr by (simp add: push_parse)
    from Cons.IH [OF decoder_ok_push [OF step]] step whole Inr show ?thesis
      by (auto simp: push_parse split: prod.splits sum.splits)
  qed
qed

section \<open>Little-endian words\<close>

definition le_bytes :: "u32 \<Rightarrow> u8 list" where
  "le_bytes w = [ucast w, ucast (drop_bit 8 w), ucast (drop_bit 16 w), ucast (drop_bit 24 w)]"

fun le_word :: "u8 list \<Rightarrow> u32" where
  "le_word [a, b, c, d] =
     ucast a OR push_bit 8 (ucast b) OR push_bit 16 (ucast c) OR push_bit 24 (ucast d)"
| "le_word _ = 0"

lemma length_le_bytes [simp]: "length (le_bytes w) = 4"
  by (simp add: le_bytes_def)

lemma le_word_bytes [simp]: "le_word (le_bytes w) = w"
proof (rule bit_word_eqI)
  fix n assume "n < LENGTH(32)"
  then have "n < 8 \<or> 8 \<le> n \<and> n < 16 \<or> 16 \<le> n \<and> n < 24 \<or> 24 \<le> n \<and> n < 32" by auto
  then show "bit (le_word (le_bytes w)) n \<longleftrightarrow> bit w n"
    by (auto simp: le_bytes_def bit_or_iff bit_push_bit_iff bit_unsigned_iff bit_drop_bit_eq)
qed

lemma le_bytes_word: "length bs = 4 \<Longrightarrow> le_bytes (le_word bs) = bs"
proof -
  assume "length bs = 4"
  then obtain a b c d where bs: "bs = [a, b, c, d]"
    by (auto simp: length_Suc_conv numeral_eq_Suc)
  have byte: "(ucast (drop_bit k (le_word bs)) :: u8) = x"
    if "\<And>n. n < 8 \<Longrightarrow> bit (le_word bs) (k + n) = bit x n" for k and x :: u8
    using that by (intro bit_word_eqI) (simp add: bit_unsigned_iff bit_drop_bit_eq)
  have off: "\<not> bit x n" if "8 \<le> n" for x :: u8 and n
    using that bit_imp_le_length [of x n] by auto
  have "ucast (drop_bit 0 (le_word bs)) = a"
    by (rule byte) (simp add: bs bit_or_iff bit_push_bit_iff bit_unsigned_iff)
  moreover have "ucast (drop_bit 8 (le_word bs)) = b"
    by (rule byte) (simp add: bs bit_or_iff bit_push_bit_iff bit_unsigned_iff off)
  moreover have "ucast (drop_bit 16 (le_word bs)) = c"
    by (rule byte) (simp add: bs bit_or_iff bit_push_bit_iff bit_unsigned_iff off)
  moreover have "ucast (drop_bit 24 (le_word bs)) = d"
    by (rule byte) (simp add: bs bit_or_iff bit_push_bit_iff bit_unsigned_iff off)
  ultimately show ?thesis by (simp add: le_bytes_def bs)
qed

section \<open>The header codec\<close>

definition header_bytes :: "wire_header \<Rightarrow> u8 list" where
  "header_bytes h =
     le_bytes (wh_wire_len h) @ le_bytes (wh_protocol_version h) @ le_bytes (wh_message_id h)"

definition header_of :: "u8 list \<Rightarrow> wire_header" where
  "header_of bs =
     \<lparr>wh_wire_len = le_word (take 4 bs),
      wh_protocol_version = le_word (take 4 (drop 4 bs)),
      wh_message_id = le_word (take 4 (drop 8 bs))\<rparr>"

lemma length_header_bytes [simp]: "length (header_bytes h) = 12"
  by (simp add: header_bytes_def)

lemma header_of_bytes [simp]: "header_of (header_bytes h) = h"
  by (simp add: header_of_def header_bytes_def)

lemma header_bytes_of: "length bs = 12 \<Longrightarrow> header_bytes (header_of bs) = bs"
proof -
  assume "length bs = 12"
  then have "header_bytes (header_of bs) = take 4 bs @ take 4 (drop 4 bs) @ take 4 (drop 8 bs)"
    by (simp add: header_bytes_def header_of_def le_bytes_word)
  also have "\<dots> = take 12 bs"
    using take_add [of 4 8 bs] take_add [of 4 4 "drop 4 bs"] by simp
  finally show ?thesis using \<open>length bs = 12\<close> by simp
qed

locale header_codec =
  fixes wr :: header_writer
    and rd :: header_reader
  assumes write_layout: "wr h = Inr (header_bytes h)"
    and read_layout: "length bs = 12 \<Longrightarrow> rd bs = Inr (header_of bs)"
begin

lemma encode_iff:
  "frame_encode wr f =
     (if length (fr_payload f) + 12 \<le> MAX_FRAME_SIZE
      then Inr (header_bytes \<lparr>wh_wire_len = of_nat (length (fr_payload f) + 4),
          wh_protocol_version = fr_protocol_version f, wh_message_id = fr_message_id f\<rparr>
          @ fr_payload f)
      else Inl (FrameTooLarge
        (if length (fr_payload f) + 4 \<le> usize_MAX then length (fr_payload f) + 12 else usize_MAX)))"
  by (auto simp: frame_encode_def write_layout usize_MAX_def MAX_FRAME_SIZE_def Let_def)

lemma encode_length: "frame_encode wr f = Inr bs \<Longrightarrow> length bs = length (fr_payload f) + 12"
  by (auto simp: encode_iff split: if_splits)

lemma small_len [simp]: "n + 12 \<le> MAX_FRAME_SIZE \<Longrightarrow> unat (of_nat (n + 4) :: u32) = n + 4"
  by (simp add: unat_of_nat take_bit_nat_eq_self MAX_FRAME_SIZE_def del: of_nat_add)

text \<open>The front of a stream that begins with an encoded frame.\<close>

lemma head_of_encoded:
  assumes "frame_encode wr f = Inr bs"
  shows "head_of rd (bs @ rest) = Complete f (length bs)"
proof -
  let ?h = "\<lparr>wh_wire_len = of_nat (length (fr_payload f) + 4),
          wh_protocol_version = fr_protocol_version f, wh_message_id = fr_message_id f\<rparr>"
  from assms have small: "length (fr_payload f) + 12 \<le> MAX_FRAME_SIZE"
    and bs: "bs = header_bytes ?h @ fr_payload f"
    by (auto simp: encode_iff split: if_splits)
  have "rd (take HEADER_SIZE (bs @ rest)) = Inr ?h"
    using read_layout [of "header_bytes ?h"] by (simp add: bs HEADER_SIZE_def)
  moreover have "unat (wh_wire_len ?h) = length (fr_payload f) + 4"
    using small_len [OF small] by simp
  ultimately show ?thesis
    using small unfolding head_of_def
    by (simp add: bs HEADER_SIZE_def frame_new_def del: of_nat_add)
qed

text \<open>Conversely, a complete frame at the front encodes to the bytes it was cut from.\<close>

lemma encode_head:
  assumes "head_of rd bs = Complete f n"
  shows "frame_encode wr f = Inr (take n bs)"
proof -
  let ?h = "header_of (take 12 bs)"
  have len: "12 \<le> length bs"
    using assms by (auto simp: head_of_def HEADER_SIZE_def split: if_splits)
  then have rd: "rd (take HEADER_SIZE bs) = Inr ?h"
    using read_layout [of "take 12 bs"] by (simp add: HEADER_SIZE_def)
  from assms len have n: "n = unat (wh_wire_len ?h) + 8" "4 \<le> unat (wh_wire_len ?h)"
    "n \<le> MAX_FRAME_SIZE" "n \<le> length bs"
    and f: "f = frame_new (wh_protocol_version ?h) (wh_message_id ?h) (drop 12 (take n bs))"
    by (auto simp: head_of_def rd [unfolded HEADER_SIZE_def] Let_def HEADER_SIZE_def
        split: if_splits)
  have pay: "length (fr_payload f) + 4 = unat (wh_wire_len ?h)"
    using n by (simp add: f frame_new_def)
  then have "\<lparr>wh_wire_len = of_nat (length (fr_payload f) + 4),
      wh_protocol_version = fr_protocol_version f, wh_message_id = fr_message_id f\<rparr> = ?h"
    unfolding pay by (simp add: f frame_new_def)
  moreover have "length (fr_payload f) + 12 \<le> MAX_FRAME_SIZE" using pay n by simp
  moreover have "header_bytes ?h @ fr_payload f = take n bs"
  proof -
    have "header_bytes ?h = take 12 (take n bs)" using len n by (simp add: header_bytes_of)
    then show ?thesis by (simp only: f frame_new_def frame.simps append_take_drop_id)
  qed
  ultimately show ?thesis by (simp add: encode_iff)
qed

lemma parse_encoded:
  assumes "list_all2 (\<lambda>f bs. frame_encode wr f = Inr bs) fs bss"
  shows "parse rd (concat bss @ rest) = (fs @ fst (parse rd rest), snd (parse rd rest))"
  using assms
proof (induction rule: list_all2_induct)
  case (Cons f fs bs bss)
  have "head_of rd (bs @ concat bss @ rest) = Complete f (length bs)"
    by (rule head_of_encoded) (rule Cons)
  with Cons show ?case by (simp add: parse_Complete)
qed simp

lemma parse_lossless:
  assumes "parse rd bs = (fs, Inr rest)"
  shows "\<exists>bss. list_all2 (\<lambda>f b. frame_encode wr f = Inr b) fs bss \<and> bs = concat bss @ rest"
  using assms
proof (induction "length bs" arbitrary: bs fs rule: less_induct)
  case less
  show ?case
  proof (cases "head_of rd bs")
    case (Complete f n)
    then obtain gs where gs: "parse rd (drop n bs) = (gs, Inr rest)" "fs = f # gs"
      using less.prems by (cases "parse rd (drop n bs)") (auto simp: parse_Complete)
    have "length (drop n bs) < length bs" using head_of_Complete [OF Complete] by simp
    from less.hyps [OF this gs(1)] obtain bss
      where "list_all2 (\<lambda>f b. frame_encode wr f = Inr b) gs bss" "drop n bs = concat bss @ rest"
      by blast
    with encode_head [OF Complete] gs(2) show ?thesis
      by (intro exI [of _ "take n bs # bss"]) (simp, metis append_take_drop_id)
  next
    case Partial
    with less.prems show ?thesis by (simp add: parse_Partial)
  next
    case (Bad e)
    with less.prems show ?thesis by (simp add: parse_Bad)
  qed
qed

end

text \<open>
  The layout that the derived header codec documents, as a pair of functions: the
  laws of the locale are not vacuous.
\<close>

definition layout_write :: header_writer where
  "layout_write h = Inr (header_bytes h)"

definition layout_read :: header_reader where
  "layout_read bs =
     (if length bs < 12 then Inl \<lparr>be_kind = Io, be_display = ''failed to fill whole buffer''\<rparr>
      else Inr (header_of bs))"

interpretation layout: header_codec layout_write layout_read
  by unfold_locales (simp_all add: layout_write_def layout_read_def)

section \<open>Properties of the framing layer\<close>

text \<open>
  C14. Round trip: the encodings of any frames, cut into chunks anywhere, decode to
  exactly those frames in order, and nothing is left in the buffer. The header codec
  is any that has the documented layout.
\<close>

theorem frame_stream_roundtrip:
  assumes "header_codec wr rd"
    and "list_all2 (\<lambda>f bs. frame_encode wr f = Inr bs) fs bss"
    and "concat chunks = concat bss"
  shows "push_all rd chunks decoder_new = (Inr fs, decoder_new)"
proof -
  have "parse rd [] = ([], Inr [])"
    by (simp add: parse_Partial head_of_def HEADER_SIZE_def)
  with header_codec.parse_encoded [OF assms(1,2), of "[]"]
  have "push rd (concat chunks) decoder_new = (Inr fs, decoder_new)"
    by (simp add: push_parse assms(3) decoder_new_def)
  with push_all_parse [OF decoder_ok_new, of rd chunks] show ?thesis by blast
qed

text \<open>
  C15. Nothing is lost or invented: the frames returned so far, encoded again and
  followed by the buffered bytes, are the bytes received, and fewer than
  \<open>MAX_FRAME_SIZE\<close> bytes stay buffered, as the code asserts.
\<close>

theorem frame_decoder_lossless:
  assumes "header_codec wr rd" and "push_all rd chunks decoder_new = (Inr fs, d)"
  shows "(\<exists>bss. list_all2 (\<lambda>f bs. frame_encode wr f = Inr bs) fs bss
        \<and> concat chunks = concat bss @ fd_buffer d)
    \<and> buffered_len d < 8192"
proof -
  from push_all_parse [OF decoder_ok_new, of rd chunks] assms(2)
  have p: "push rd (concat chunks) decoder_new = (Inr fs, d)"
    by (metis fst_conv prod.collapse)
  then have "parse rd (concat chunks) = (fs, Inr (fd_buffer d))"
    by (auto simp: push_parse decoder_new_def split: prod.splits sum.splits)
  moreover have "buffered_len d < 8192"
    using decoder_ok_push [OF p] head_of_Partial_short
    by (auto simp: decoder_ok_def buffered_len_def MAX_FRAME_SIZE_def)
  ultimately show ?thesis
    using header_codec.parse_lossless [OF assms(1)] by blast
qed

text \<open>
  C16. The boundaries between received chunks do not matter: feeding the chunks one
  by one gives the frames, or the error, of feeding their concatenation at once, and
  in the good case the same decoder state.
\<close>

theorem push_chunk_independent:
  "push_all rd chunks decoder_new =
     (case push rd (concat chunks) decoder_new of
        (Inr fs, d) \<Rightarrow> (Inr fs, d)
      | (Inl e, d) \<Rightarrow> (Inl e, snd (push_all rd chunks decoder_new)))"
  using push_all_parse [OF decoder_ok_new, of rd chunks]
  by (cases "push_all rd chunks decoder_new") (auto split: prod.splits sum.splits)

section \<open>Witnesses\<close>

text \<open>A keep-alive and a two-byte frame, cut in the middle of both headers.\<close>

definition sample_frames :: "frame list" where
  "sample_frames = [frame_new 0 0 [], frame_new 22 0x100 [7, 9]]"

definition sample_bytes :: "u8 list list" where
  "sample_bytes =
     [[4, 0, 0, 0, 0, 0, 0, 0, 0, 0, 0, 0],
      [6, 0, 0, 0, 22, 0, 0, 0, 0, 1, 0, 0, 7, 9]]"

lemma sample_encoded:
  "list_all2 (\<lambda>f bs. frame_encode layout_write f = Inr bs) sample_frames sample_bytes"
  by (simp add: sample_frames_def sample_bytes_def frame_new_def layout.encode_iff
      MAX_FRAME_SIZE_def header_bytes_def le_bytes_def)

theorem frame_stream_roundtrip_witness:
  "push_all layout_read
     [[4, 0, 0], [0, 0, 0, 0, 0, 0, 0, 0, 0, 6, 0], [0, 0, 22, 0, 0, 0, 0, 1, 0, 0, 7], [9]]
     decoder_new = (Inr sample_frames, decoder_new)"
  by (rule frame_stream_roundtrip [OF layout.header_codec_axioms sample_encoded])
    (simp add: sample_bytes_def)

theorem frame_decoder_lossless_witness:
  "\<exists>fs d. push_all layout_read [[4, 0, 0, 0, 0, 0, 0, 0], [0, 0, 0, 0, 6, 0]] decoder_new = (Inr fs, d)
     \<and> fd_buffer d = [6, 0] \<and> buffered_len d < 8192"
proof -
  let ?cs = "[[4, 0, 0, 0, 0, 0, 0, 0], [0, 0, 0, 0, 6, 0]] :: u8 list list"
  have run: "push_all layout_read ?cs decoder_new = (Inr [frame_new 0 0 []], \<lparr>fd_buffer = [6, 0]\<rparr>)"
    by code_simp
  from frame_decoder_lossless [OF layout.header_codec_axioms run] run show ?thesis by simp
qed

end
