(* ===== verification/Rust_Text.thy ===== *)
theory Rust_Text
  imports Sccp_Prelude
begin

text \<open>
  Text of the Rust standard library, as far as the source uses it. A \<open>str\<close> is the
  list of its Unicode scalar values; its \<open>len\<close> is the number of bytes of their UTF-8
  form. \<open>trim\<close>, \<open>char::is_control\<close> and \<open>char::is_whitespace\<close> follow the
  Unicode properties that the library documents (category Cc, property White\_Space).
\<close>

type_synonym rust_str = "nat list"

definition ascii :: "string \<Rightarrow> rust_str" where
  "ascii = map of_char"

lemma ascii_simps [simp]: "ascii [] = []" "ascii (c # cs) = of_char c # ascii cs"
  by (simp_all add: ascii_def)

definition utf8_width :: "nat \<Rightarrow> nat" where
  "utf8_width c = (if c < 0x80 then 1 else if c < 0x800 then 2 else if c < 0x10000 then 3 else 4)"

definition text_len :: "rust_str \<Rightarrow> nat" where
  "text_len s = sum_list (map utf8_width s)"

definition is_control :: "nat \<Rightarrow> bool" where
  "is_control c \<longleftrightarrow> c < 0x20 \<or> 0x7F \<le> c \<and> c \<le> 0x9F"

definition is_whitespace :: "nat \<Rightarrow> bool" where
  "is_whitespace c \<longleftrightarrow>
     9 \<le> c \<and> c \<le> 13 \<or> c = 32 \<or> c = 0x85 \<or> c = 0xA0 \<or> c = 0x1680
     \<or> 0x2000 \<le> c \<and> c \<le> 0x200A \<or> c = 0x2028 \<or> c = 0x2029 \<or> c = 0x202F \<or> c = 0x205F
     \<or> c = 0x3000"

definition trim :: "rust_str \<Rightarrow> rust_str" where
  "trim s = rev (dropWhile is_whitespace (rev (dropWhile is_whitespace s)))"

definition to_ascii_lowercase :: "nat \<Rightarrow> nat" where
  "to_ascii_lowercase c = (if 65 \<le> c \<and> c \<le> 90 then c + 32 else c)"

definition eq_ignore_ascii_case :: "rust_str \<Rightarrow> rust_str \<Rightarrow> bool" where
  "eq_ignore_ascii_case a b \<longleftrightarrow> map to_ascii_lowercase a = map to_ascii_lowercase b"

text \<open>\<open>s.strip_suffix(c).unwrap_or(s)\<close>.\<close>

definition strip_suffix_char :: "nat \<Rightarrow> rust_str \<Rightarrow> rust_str" where
  "strip_suffix_char c s = (if s \<noteq> [] \<and> last s = c then butlast s else s)"

text \<open>\<open>str::as_bytes\<close>.\<close>

definition utf8_char :: "nat \<Rightarrow> u8 list" where
  "utf8_char c =
     (if c < 0x80 then [of_nat c]
      else if c < 0x800 then [of_nat (0xC0 + c div 64), of_nat (0x80 + c mod 64)]
      else if c < 0x10000
      then [of_nat (0xE0 + c div 4096), of_nat (0x80 + c div 64 mod 64), of_nat (0x80 + c mod 64)]
      else [of_nat (0xF0 + c div 262144), of_nat (0x80 + c div 4096 mod 64),
            of_nat (0x80 + c div 64 mod 64), of_nat (0x80 + c mod 64)])"

definition as_bytes :: "rust_str \<Rightarrow> u8 list" where
  "as_bytes s = concat (map utf8_char s)"

text \<open>The decimal notation that \<open>u32::to_string\<close> writes.\<close>

fun decimal :: "nat \<Rightarrow> rust_str" where
  "decimal n = (if n < 10 then [of_char CHR ''0'' + n] else decimal (n div 10) @ [of_char CHR ''0'' + n mod 10])"

declare decimal.simps [simp del]

lemma length_as_bytes [simp]: "length (as_bytes s) = text_len s"
  by (induction s) (auto simp: as_bytes_def text_len_def utf8_char_def utf8_width_def)

lemma text_len_Nil [simp]: "text_len [] = 0"
  and text_len_Cons [simp]: "text_len (c # s) = utf8_width c + text_len s"
  and text_len_append [simp]: "text_len (s @ t) = text_len s + text_len t"
  by (simp_all add: text_len_def)

lemma text_len_ascii: "(\<And>c. c \<in> set s \<Longrightarrow> c < 0x80) \<Longrightarrow> text_len s = length s"
  by (induction s) (auto simp: utf8_width_def)

lemma as_bytes_ascii: "(\<And>c. c \<in> set s \<Longrightarrow> c < 0x80) \<Longrightarrow> as_bytes s = map of_nat s"
  by (induction s) (auto simp: as_bytes_def utf8_char_def)

lemma ascii_bytes_inj:
  assumes "\<And>c. c \<in> set s \<Longrightarrow> c < 0x80" and "\<And>c. c \<in> set t \<Longrightarrow> c < 0x80" and "as_bytes s = as_bytes t"
  shows "s = t"
proof -
  have "map unat (as_bytes u) = u" if "\<And>c. c \<in> set u \<Longrightarrow> c < 0x80" for u
  proof -
    have "map (\<lambda>c. unat (of_nat c :: u8)) u = map id u"
      using that by (intro map_cong) (auto simp: unat_of_nat take_bit_nat_eq_self dest!: that)
    with as_bytes_ascii [of u] that show ?thesis by (simp add: comp_def)
  qed
  with assms show ?thesis by metis
qed

lemma length_le_text_len: "length s \<le> text_len s"
proof (induction s)
  case (Cons c s)
  have "1 \<le> utf8_width c" by (simp add: utf8_width_def)
  with Cons show ?case by simp
qed simp

lemma trim_infix: "\<exists>xs ys. s = xs @ trim s @ ys"
proof -
  let ?u = "dropWhile is_whitespace s"
  have "s = takeWhile is_whitespace s @ ?u" by simp
  also have "?u = trim s @ rev (takeWhile is_whitespace (rev ?u))"
    by (simp add: trim_def flip: rev_append)
  finally show ?thesis by blast
qed

lemma set_trim: "set (trim s) \<subseteq> set s"
  using trim_infix [of s] by (metis Un_iff set_append subsetI)

lemma text_len_trim: "text_len (trim s) \<le> text_len s"
  using trim_infix [of s] by (metis le_add1 le_add2 le_trans text_len_append)

lemma trim_id: "(\<And>c. c \<in> set s \<Longrightarrow> \<not> is_whitespace c) \<Longrightarrow> trim s = s"
proof -
  assume "\<And>c. c \<in> set s \<Longrightarrow> \<not> is_whitespace c"
  then have "dropWhile is_whitespace s = s" and "dropWhile is_whitespace (rev s) = rev s"
    by (auto simp: dropWhile_eq_self_iff hd_rev)
  then show ?thesis by (simp add: trim_def)
qed

lemma trim_ends:
  assumes "trim s \<noteq> []"
  shows "\<not> is_whitespace (hd (trim s))" and "\<not> is_whitespace (last (trim s))"
proof -
  let ?u = "dropWhile is_whitespace s" and ?w = "dropWhile is_whitespace (rev (dropWhile is_whitespace s))"
  have w: "trim s = rev ?w" by (simp add: trim_def)
  with assms have "?w \<noteq> []" by simp
  from hd_dropWhile [OF this] show "\<not> is_whitespace (last (trim s))"
    unfolding w last_rev .
  have "?u \<noteq> []" using \<open>?w \<noteq> []\<close> by (metis dropWhile.simps(1) rev.simps(1))
  obtain zs where "?u = trim s @ zs"
    using w by (metis rev_append rev_rev_ident takeWhile_dropWhile_id)
  with assms have "hd ?u = hd (trim s)" by (metis hd_append2)
  with hd_dropWhile [OF \<open>?u \<noteq> []\<close>] show "\<not> is_whitespace (hd (trim s))" by simp
qed

lemma trim_idem [simp]: "trim (trim s) = trim s"
proof (cases "trim s = []")
  case True
  then show ?thesis by (simp only:) (simp add: trim_def)
next
  case False
  then have "dropWhile is_whitespace (trim s) = trim s"
    and "dropWhile is_whitespace (rev (trim s)) = rev (trim s)"
    using trim_ends [OF False] by (simp_all add: dropWhile_eq_self_iff hd_rev)
  then show ?thesis by (subst trim_def) simp
qed

end
