(* ===== verification/Forwarding.thy ===== *)
theory Forwarding
  imports Rust_Text
begin

text \<open>
  Call forwarding, \<^verbatim>\<open>asterisk-module/src/call/forwarding.rs\<close>: validated destinations
  and contexts, the registry of handset entries that collect a destination digit by
  digit, and the registry of no-answer timers. The keypad digit is from
  \<^verbatim>\<open>sccp-protocol/src/message/values.rs\<close>.

  Every operation that adds a timeout to the clock takes the latest instant of the
  clock as its first argument, since that addition panics on overflow.
\<close>

section \<open>Keypad digits\<close>

datatype digit = Number u8 | Star | Pound | A | B | C | D | Unknown u32

definition from_keypad :: "u32 \<Rightarrow> digit" where
  "from_keypad v =
     (if v \<le> 9 then Number (ucast v)
      else if v = 10 then Star else if v = 11 then Pound
      else if v = 12 then A else if v = 13 then B
      else if v = 14 then C else if v = 15 then D
      else Unknown v)"

fun keypad_value :: "digit \<Rightarrow> u32" where
  "keypad_value (Number n) = ucast n"
| "keypad_value Star = 10"
| "keypad_value Pound = 11"
| "keypad_value A = 12"
| "keypad_value B = 13"
| "keypad_value C = 14"
| "keypad_value D = 15"
| "keypad_value (Unknown v) = v"

fun digit_as_char :: "digit \<Rightarrow> nat" where
  "digit_as_char (Number n) = (if n \<le> 9 then of_char CHR ''0'' + unat n else of_char CHR ''?'')"
| "digit_as_char Star = of_char CHR ''*''"
| "digit_as_char Pound = of_char CHR ''#''"
| "digit_as_char A = of_char CHR ''A''"
| "digit_as_char B = of_char CHR ''B''"
| "digit_as_char C = of_char CHR ''C''"
| "digit_as_char D = of_char CHR ''D''"
| "digit_as_char (Unknown v) = of_char CHR ''?''"

section \<open>Destinations and contexts\<close>

datatype forwarding_rejection =
    Conflict | InvalidPhase | InvalidDestination | DestinationTooLong | InvalidContext
  | IdentifierExhausted

definition MAX_FORWARD_DESTINATION_BYTES :: nat where "MAX_FORWARD_DESTINATION_BYTES = 23"

definition MAX_FORWARD_CONTEXT_BYTES :: nat where "MAX_FORWARD_CONTEXT_BYTES = 79"

datatype forwarding_destination = ForwardingDestination (destination_as_str: rust_str)

definition forwarding_destination_new ::
  "rust_str \<Rightarrow> forwarding_rejection + forwarding_destination"
where
  "forwarding_destination_new s =
     (let value = trim s in
      if value = [] then Inl InvalidDestination
      else if text_len value > MAX_FORWARD_DESTINATION_BYTES then Inl DestinationTooLong
      else if list_ex is_control value then Inl InvalidDestination
      else Inr (ForwardingDestination value))"

datatype forwarding_context = ForwardingContext (context_as_str: rust_str)

definition forwarding_context_new :: "rust_str \<Rightarrow> forwarding_rejection + forwarding_context" where
  "forwarding_context_new s =
     (let value = trim s in
      if value = [] \<or> text_len value > MAX_FORWARD_CONTEXT_BYTES \<or> list_ex is_control value
      then Inl InvalidContext
      else Inr (ForwardingContext value))"

datatype forwarding_kind = All | Busy | NoAnswer

fun forwarding_kind_as_str :: "forwarding_kind \<Rightarrow> rust_str" where
  "forwarding_kind_as_str All = ascii ''all''"
| "forwarding_kind_as_str Busy = ascii ''busy''"
| "forwarding_kind_as_str NoAnswer = ascii ''noanswer''"

definition forwarding_kind_parse :: "rust_str \<Rightarrow> forwarding_kind option" where
  "forwarding_kind_parse value =
     (if eq_ignore_ascii_case value (ascii ''all'') then Some All
      else if eq_ignore_ascii_case value (ascii ''busy'') then Some Busy
      else if eq_ignore_ascii_case value (ascii ''noanswer'') then Some NoAnswer
      else None)"

section \<open>A handset entry\<close>

type_synonym entry_id = u64

datatype entry_phase = Collecting | Committing

datatype write_outcome = Written | Failed

record entry_timing =
  et_now :: instant
  et_first_digit_timeout :: duration
  et_interdigit_timeout :: duration

record forwarding_entry =
  fe_id :: entry_id
  fe_device_id :: device_id
  fe_line_instance :: u32
  fe_call_id :: call_id
  fe_kind :: forwarding_kind
  fe_phase :: entry_phase
  fe_deadline :: instant
  fe_dial_terminator :: digit
  fe_first_digit_timeout :: duration
  fe_interdigit_timeout :: duration
  fe_digits :: rust_str

record forwarding_commit =
  fc_entry_id :: entry_id
  fc_device_id :: device_id
  fc_line_instance :: u32
  fc_call_id :: call_id
  fc_kind :: forwarding_kind
  fc_destination :: forwarding_destination

datatype digit_outcome = Collected | CommitDigits forwarding_commit

datatype expiry_outcome = ExpiryCancel forwarding_entry | ExpiryCommit forwarding_commit

type_synonym 'a entry_result = "(forwarding_rejection fault + 'a) \<times> forwarding_entry"

text \<open>The symbol that a digit adds to the collected text, if it may be collected.\<close>

fun collected_char :: "digit \<Rightarrow> nat option" where
  "collected_char (Number n) = (if n \<le> 9 then Some (of_char CHR ''0'' + unat n) else None)"
| "collected_char Star = Some (of_char CHR ''*'')"
| "collected_char Pound = Some (of_char CHR ''#'')"
| "collected_char A = Some (of_char CHR ''A'')"
| "collected_char B = Some (of_char CHR ''B'')"
| "collected_char C = Some (of_char CHR ''C'')"
| "collected_char D = Some (of_char CHR ''D'')"
| "collected_char (Unknown v) = None"

text \<open>\<open>self.deadline = now + timeout\<close>, the last statement of each of the methods below.\<close>

definition set_deadline ::
  "instant \<Rightarrow> instant \<Rightarrow> duration \<Rightarrow> forwarding_entry \<Rightarrow> unit entry_result"
where
  "set_deadline limit now timeout e =
     (case instant_checked_add limit now timeout of
        None \<Rightarrow> (Inl Panicked, e)
      | Some t \<Rightarrow> (Inr (), e\<lparr>fe_deadline := t\<rparr>))"

definition entry_push_digit ::
  "instant \<Rightarrow> digit \<Rightarrow> instant \<Rightarrow> forwarding_entry \<Rightarrow> unit entry_result"
where
  "entry_push_digit limit dg now e =
     (if fe_phase e \<noteq> Collecting then (Inl (Rejected InvalidPhase), e)
      else if text_len (fe_digits e) \<ge> MAX_FORWARD_DESTINATION_BYTES
      then (Inl (Rejected DestinationTooLong), e)
      else
        case collected_char dg of
          None \<Rightarrow> (Inl (Rejected InvalidDestination), e)
        | Some c \<Rightarrow>
            set_deadline limit now (fe_interdigit_timeout e) (e\<lparr>fe_digits := fe_digits e @ [c]\<rparr>))"

definition entry_begin_commit :: "forwarding_entry \<Rightarrow> forwarding_commit entry_result" where
  "entry_begin_commit e =
     (if fe_phase e \<noteq> Collecting then (Inl (Rejected InvalidPhase), e)
      else
        case forwarding_destination_new (fe_digits e) of
          Inl err \<Rightarrow> (Inl (Rejected err), e)
        | Inr dest \<Rightarrow>
            (Inr \<lparr>fc_entry_id = fe_id e, fc_device_id = fe_device_id e,
                  fc_line_instance = fe_line_instance e, fc_call_id = fe_call_id e,
                  fc_kind = fe_kind e, fc_destination = dest\<rparr>,
             e\<lparr>fe_phase := Committing\<rparr>))"

definition entry_input_digit ::
  "instant \<Rightarrow> digit \<Rightarrow> instant \<Rightarrow> forwarding_entry \<Rightarrow> digit_outcome entry_result"
where
  "entry_input_digit limit dg now e =
     (if dg = fe_dial_terminator e
      then (case entry_begin_commit e of
              (Inl err, e') \<Rightarrow> (Inl err, e')
            | (Inr c, e') \<Rightarrow> (Inr (CommitDigits c), e'))
      else (case entry_push_digit limit dg now e of
              (Inl err, e') \<Rightarrow> (Inl err, e')
            | (Inr _, e') \<Rightarrow> (Inr Collected, e')))"

definition entry_backspace ::
  "instant \<Rightarrow> instant \<Rightarrow> forwarding_entry \<Rightarrow> unit entry_result"
where
  "entry_backspace limit now e =
     (if fe_phase e \<noteq> Collecting then (Inl (Rejected InvalidPhase), e)
      else if fe_digits e = [] then set_deadline limit now (fe_first_digit_timeout e) e
      else set_deadline limit now (fe_interdigit_timeout e)
        (e\<lparr>fe_digits := butlast (fe_digits e)\<rparr>))"

definition dial_char :: "nat \<Rightarrow> bool" where
  "dial_char c \<longleftrightarrow>
     of_char CHR ''0'' \<le> c \<and> c \<le> of_char CHR ''9'' \<or> c \<in> set (ascii ''*#ABCD'')"

definition entry_replace_digits ::
  "instant \<Rightarrow> rust_str \<Rightarrow> instant \<Rightarrow> forwarding_entry \<Rightarrow> unit entry_result"
where
  "entry_replace_digits limit s now e =
     (let digits = strip_suffix_char (digit_as_char (fe_dial_terminator e)) s in
      if text_len digits > MAX_FORWARD_DESTINATION_BYTES
      then (Inl (Rejected DestinationTooLong), e)
      else if list_ex (\<lambda>c. \<not> dial_char c) digits then (Inl (Rejected InvalidDestination), e)
      else if fe_phase e \<noteq> Collecting then (Inl (Rejected InvalidPhase), e)
      else set_deadline limit now
        (if digits = [] then fe_first_digit_timeout e else fe_interdigit_timeout e)
        (e\<lparr>fe_digits := digits\<rparr>))"

section \<open>The registry of entries\<close>

record entry_registry =
  er_next_id :: u64
  er_by_device :: "(device_id, forwarding_entry) hash_map"

type_synonym 'a registry_result = "(forwarding_rejection fault + 'a) \<times> entry_registry"

definition entry_registry_default :: entry_registry where
  "entry_registry_default = \<lparr>er_next_id = 0, er_by_device = []\<rparr>"

definition entry_begin ::
  "instant \<Rightarrow> device_id \<Rightarrow> u32 \<Rightarrow> call_id \<Rightarrow> forwarding_kind \<Rightarrow> digit \<Rightarrow> entry_timing
     \<Rightarrow> entry_registry \<Rightarrow> forwarding_entry registry_result"
where
  "entry_begin limit d line call kind terminator timing r =
     (if line = 0 \<or> et_first_digit_timeout timing = 0 \<or> et_interdigit_timeout timing = 0
         \<or> hm_contains (er_by_device r) d
      then (Inl (Rejected Conflict), r)
      else if list_ex (\<lambda>e. fe_call_id e = call) (hm_values (er_by_device r))
      then (Inl (Rejected Conflict), r)
      else
        case checked_succ (er_next_id r) of
          None \<Rightarrow> (Inl (Rejected IdentifierExhausted), r)
        | Some i \<Rightarrow>
            (case instant_checked_add limit (et_now timing) (et_first_digit_timeout timing) of
               None \<Rightarrow> (Inl Panicked, r\<lparr>er_next_id := i\<rparr>)
             | Some t \<Rightarrow>
                 let e = \<lparr>fe_id = i, fe_device_id = d, fe_line_instance = line, fe_call_id = call,
                          fe_kind = kind, fe_phase = Collecting, fe_deadline = t,
                          fe_dial_terminator = terminator,
                          fe_first_digit_timeout = et_first_digit_timeout timing,
                          fe_interdigit_timeout = et_interdigit_timeout timing, fe_digits = []\<rparr>
                 in (Inr e, \<lparr>er_next_id = i, er_by_device = hm_insert d e (er_by_device r)\<rparr>)))"

definition entry_get :: "entry_registry \<Rightarrow> device_id \<Rightarrow> forwarding_entry option" where
  "entry_get r d = hm_get (er_by_device r) d"

definition entry_for_call :: "entry_registry \<Rightarrow> call_id \<Rightarrow> forwarding_entry option" where
  "entry_for_call r call = find (\<lambda>e. fe_call_id e = call) (hm_values (er_by_device r))"

text \<open>\<open>self.exact_mut(device_id, entry_id)?.f(..)\<close>.\<close>

definition entry_exact_mut ::
  "(forwarding_entry \<Rightarrow> 'a entry_result) \<Rightarrow> device_id \<Rightarrow> entry_id \<Rightarrow> entry_registry
     \<Rightarrow> 'a registry_result"
where
  "entry_exact_mut f d i r =
     (case hm_get (er_by_device r) d of
        None \<Rightarrow> (Inl (Rejected Conflict), r)
      | Some e \<Rightarrow>
          if fe_id e \<noteq> i then (Inl (Rejected Conflict), r)
          else let (x, e') = f e
            in (x, r\<lparr>er_by_device := hm_insert d e' (er_by_device r)\<rparr>))"

definition registry_input_digit ::
  "instant \<Rightarrow> digit \<Rightarrow> instant \<Rightarrow> device_id \<Rightarrow> entry_id \<Rightarrow> entry_registry
     \<Rightarrow> digit_outcome registry_result"
where
  "registry_input_digit limit dg now = entry_exact_mut (entry_input_digit limit dg now)"

definition registry_backspace ::
  "instant \<Rightarrow> instant \<Rightarrow> device_id \<Rightarrow> entry_id \<Rightarrow> entry_registry \<Rightarrow> unit registry_result"
where
  "registry_backspace limit now = entry_exact_mut (entry_backspace limit now)"

definition registry_replace_digits ::
  "instant \<Rightarrow> rust_str \<Rightarrow> instant \<Rightarrow> device_id \<Rightarrow> entry_id \<Rightarrow> entry_registry
     \<Rightarrow> unit registry_result"
where
  "registry_replace_digits limit s now = entry_exact_mut (entry_replace_digits limit s now)"

definition registry_begin_commit ::
  "device_id \<Rightarrow> entry_id \<Rightarrow> entry_registry \<Rightarrow> forwarding_commit registry_result"
where
  "registry_begin_commit = entry_exact_mut entry_begin_commit"

text \<open>One step of the closure of \<open>claim_expired\<close>: the entry is looked up again.\<close>

definition claim_one ::
  "instant \<Rightarrow> entry_id \<Rightarrow> device_id \<Rightarrow> (device_id, forwarding_entry) hash_map
     \<Rightarrow> expiry_outcome option \<times> (device_id, forwarding_entry) hash_map"
where
  "claim_one now i d m =
     (case hm_get m d of
        None \<Rightarrow> (None, m)
      | Some e \<Rightarrow>
          if fe_id e \<noteq> i \<or> fe_phase e \<noteq> Collecting \<or> fe_deadline e > now then (None, m)
          else if fe_digits e = [] then (Some (ExpiryCancel e), hm_remove d m)
          else
            case entry_begin_commit e of
              (Inr c, e') \<Rightarrow> (Some (ExpiryCommit c), hm_insert d e' m)
            | (Inl _, e') \<Rightarrow> (Some (ExpiryCancel e'), hm_remove d m))"

definition expired_entries ::
  "instant \<Rightarrow> entry_registry \<Rightarrow> (instant \<times> entry_id \<times> device_id) list"
where
  "expired_entries now r =
     sort_key (\<lambda>(deadline, i, _). (deadline, i))
       (map (\<lambda>e. (fe_deadline e, fe_id e, fe_device_id e))
         (filter (\<lambda>e. fe_phase e = Collecting \<and> fe_deadline e \<le> now)
           (hm_values (er_by_device r))))"

definition entry_claim_expired ::
  "instant \<Rightarrow> entry_registry \<Rightarrow> expiry_outcome list \<times> entry_registry"
where
  "entry_claim_expired now r =
     (let (xs, m) = filter_map_st (\<lambda>(_, i, d). claim_one now i d) (expired_entries now r)
            (er_by_device r)
      in (xs, r\<lparr>er_by_device := m\<rparr>))"

text \<open>The guard that the settling operations share: the exact entry in a given phase.\<close>

definition entry_in_phase :: "entry_registry \<Rightarrow> device_id \<Rightarrow> entry_id \<Rightarrow> entry_phase \<Rightarrow> bool" where
  "entry_in_phase r d i ph =
     (case hm_get (er_by_device r) d of
        None \<Rightarrow> False
      | Some e \<Rightarrow> fe_id e = i \<and> fe_phase e = ph)"

definition settle_write ::
  "entry_phase \<Rightarrow> write_outcome \<Rightarrow> device_id \<Rightarrow> entry_id \<Rightarrow> entry_registry
     \<Rightarrow> write_outcome registry_result"
where
  "settle_write ph outcome d i r =
     (if \<not> entry_in_phase r d i ph then (Inl (Rejected Conflict), r)
      else if outcome = Failed
      then (Inr outcome, r\<lparr>er_by_device := hm_remove d (er_by_device r)\<rparr>)
      else (Inr outcome, r))"

definition settle_collection_write ::
  "write_outcome \<Rightarrow> device_id \<Rightarrow> entry_id \<Rightarrow> entry_registry \<Rightarrow> write_outcome registry_result"
where
  "settle_collection_write = settle_write Collecting"

definition settle_terminal_write ::
  "write_outcome \<Rightarrow> device_id \<Rightarrow> entry_id \<Rightarrow> entry_registry \<Rightarrow> write_outcome registry_result"
where
  "settle_terminal_write = settle_write Committing"

text \<open>Removal of the entry behind a guard; \<open>expect\<close> panics when nothing is there.\<close>

definition entry_take :: "device_id \<Rightarrow> entry_registry \<Rightarrow> forwarding_entry registry_result" where
  "entry_take d r =
     (case hm_get (er_by_device r) d of
        None \<Rightarrow> (Inl Panicked, r)
      | Some e \<Rightarrow> (Inr e, r\<lparr>er_by_device := hm_remove d (er_by_device r)\<rparr>))"

definition entry_commit ::
  "device_id \<Rightarrow> entry_id \<Rightarrow> entry_registry \<Rightarrow> forwarding_entry registry_result"
where
  "entry_commit d i r =
     (if \<not> entry_in_phase r d i Committing then (Inl (Rejected Conflict), r) else entry_take d r)"

definition entry_cancel ::
  "device_id \<Rightarrow> entry_id \<Rightarrow> entry_registry \<Rightarrow> forwarding_entry registry_result"
where
  "entry_cancel d i r =
     (if map_option fe_id (hm_get (er_by_device r) d) \<noteq> Some i then (Inl (Rejected Conflict), r)
      else entry_take d r)"

definition cancel_collection ::
  "device_id \<Rightarrow> entry_id \<Rightarrow> entry_registry \<Rightarrow> forwarding_entry registry_result"
where
  "cancel_collection d i r =
     (if \<not> entry_in_phase r d i Collecting then (Inl (Rejected Conflict), r) else entry_take d r)"

section \<open>No-answer timers\<close>

type_synonym timer_id = u64

datatype timer_phase = Pending | Claimed

record no_answer_timer =
  nt_id :: timer_id
  nt_call_id :: pbx_call_id
  nt_deadline :: instant
  nt_phase :: timer_phase
  nt_context :: forwarding_context
  nt_destination :: forwarding_destination

record timer_registry =
  tr_next_id :: u64
  tr_by_call :: "(pbx_call_id, no_answer_timer) hash_map"

type_synonym 'a timer_result = "(forwarding_rejection + 'a) \<times> timer_registry"

definition timer_registry_default :: timer_registry where
  "timer_registry_default = \<lparr>tr_next_id = 0, tr_by_call = []\<rparr>"

definition timer_schedule ::
  "pbx_call_id \<Rightarrow> instant \<Rightarrow> forwarding_context \<Rightarrow> forwarding_destination \<Rightarrow> timer_registry
     \<Rightarrow> no_answer_timer timer_result"
where
  "timer_schedule call deadline ctxt dest r =
     (if hm_contains (tr_by_call r) call then (Inl Conflict, r)
      else
        case checked_succ (tr_next_id r) of
          None \<Rightarrow> (Inl IdentifierExhausted, r)
        | Some i \<Rightarrow>
            let t = \<lparr>nt_id = i, nt_call_id = call, nt_deadline = deadline, nt_phase = Pending,
                     nt_context = ctxt, nt_destination = dest\<rparr>
            in (Inr t, \<lparr>tr_next_id = i, tr_by_call = hm_insert call t (tr_by_call r)\<rparr>))"

definition timer_get :: "timer_registry \<Rightarrow> pbx_call_id \<Rightarrow> no_answer_timer option" where
  "timer_get r call = hm_get (tr_by_call r) call"

text \<open>
  The exact timer of a call, in one of the phases \<open>ph\<close>, is removed; the \<open>expect\<close> after
  the guard cannot fail, since the guard looked the timer up.
\<close>

definition timer_take ::
  "timer_phase list \<Rightarrow> pbx_call_id \<Rightarrow> timer_id \<Rightarrow> timer_registry \<Rightarrow> no_answer_timer timer_result"
where
  "timer_take phs call i r =
     (case hm_get (tr_by_call r) call of
        None \<Rightarrow> (Inl Conflict, r)
      | Some t \<Rightarrow>
          if nt_id t \<noteq> i \<or> nt_phase t \<notin> set phs then (Inl Conflict, r)
          else (Inr t, r\<lparr>tr_by_call := hm_remove call (tr_by_call r)\<rparr>))"

definition timer_cancel ::
  "pbx_call_id \<Rightarrow> timer_id \<Rightarrow> timer_registry \<Rightarrow> no_answer_timer timer_result"
where
  "timer_cancel = timer_take [Pending, Claimed]"

definition timer_cancel_pending ::
  "pbx_call_id \<Rightarrow> timer_id \<Rightarrow> timer_registry \<Rightarrow> no_answer_timer timer_result"
where
  "timer_cancel_pending = timer_take [Pending]"

definition timer_commit ::
  "pbx_call_id \<Rightarrow> timer_id \<Rightarrow> timer_registry \<Rightarrow> no_answer_timer timer_result"
where
  "timer_commit = timer_take [Claimed]"

definition timer_rollback_claim ::
  "pbx_call_id \<Rightarrow> timer_id \<Rightarrow> timer_registry \<Rightarrow> unit timer_result"
where
  "timer_rollback_claim call i r =
     (case hm_get (tr_by_call r) call of
        None \<Rightarrow> (Inl Conflict, r)
      | Some t \<Rightarrow>
          if nt_id t \<noteq> i \<or> nt_phase t \<noteq> Claimed then (Inl Conflict, r)
          else (Inr (), r\<lparr>tr_by_call := hm_insert call (t\<lparr>nt_phase := Pending\<rparr>) (tr_by_call r)\<rparr>))"

text \<open>One step of the closure of \<open>claim_expired\<close>.\<close>

definition timer_claim_one ::
  "timer_id \<Rightarrow> pbx_call_id \<Rightarrow> (pbx_call_id, no_answer_timer) hash_map
     \<Rightarrow> no_answer_timer option \<times> (pbx_call_id, no_answer_timer) hash_map"
where
  "timer_claim_one i call m =
     (case hm_get m call of
        None \<Rightarrow> (None, m)
      | Some t \<Rightarrow>
          if nt_id t \<noteq> i \<or> nt_phase t \<noteq> Pending then (None, m)
          else let t' = t\<lparr>nt_phase := Claimed\<rparr> in (Some t', hm_insert call t' m))"

definition expired_timers ::
  "instant \<Rightarrow> timer_registry \<Rightarrow> (instant \<times> timer_id \<times> pbx_call_id) list"
where
  "expired_timers now r =
     sort_key (\<lambda>(deadline, i, call). (deadline, i, call))
       (map (\<lambda>t. (nt_deadline t, nt_id t, nt_call_id t))
         (filter (\<lambda>t. nt_phase t = Pending \<and> nt_deadline t \<le> now) (hm_values (tr_by_call r))))"

definition timer_claim_expired ::
  "instant \<Rightarrow> timer_registry \<Rightarrow> no_answer_timer list \<times> timer_registry"
where
  "timer_claim_expired now r =
     (let (ts, m) = filter_map_st (\<lambda>(_, i, call). timer_claim_one i call) (expired_timers now r)
            (tr_by_call r)
      in (ts, r\<lparr>tr_by_call := m\<rparr>))"

section \<open>Digits\<close>

lemma keypad_roundtrip: "keypad_value (from_keypad v) = v"
proof (cases "v \<le> 9")
  case True
  then have "unat v \<le> 9" by (simp add: word_le_nat_alt)
  then have "ucast (ucast v :: u8) = v"
    by (simp add: word_unat_eq_iff unsigned_ucast_eq unsigned_take_bit_eq take_bit_nat_eq_self)
  with True show ?thesis by (simp add: from_keypad_def)
qed (simp add: from_keypad_def)

lemma dial_char_plain:
  assumes "dial_char c"
  shows "c < 0x80" and "\<not> is_whitespace c" and "\<not> is_control c"
  using assms by (auto simp: dial_char_def is_whitespace_def is_control_def)

lemma collected_char_dial: "collected_char dg = Some c \<Longrightarrow> dial_char c \<and> digit_as_char dg = c"
  by (cases dg) (auto simp: dial_char_def word_le_nat_alt split: if_splits)

lemma dial_text_len: "(\<And>c. c \<in> set s \<Longrightarrow> dial_char c) \<Longrightarrow> text_len s = length s"
  by (intro text_len_ascii) (auto dest: dial_char_plain)

lemma dial_destination:
  assumes "\<And>c. c \<in> set s \<Longrightarrow> dial_char c" and "s \<noteq> []" and "length s \<le> 23"
  shows "forwarding_destination_new s = Inr (ForwardingDestination s)"
proof -
  have "trim s = s" by (rule trim_id) (use assms dial_char_plain in blast)
  moreover have "\<not> list_ex is_control s" using assms dial_char_plain by (auto simp: list_ex_iff)
  ultimately show ?thesis
    using assms by (simp add: forwarding_destination_new_def MAX_FORWARD_DESTINATION_BYTES_def
        dial_text_len)
qed

lemma forwarding_destination_valid:
  assumes "forwarding_destination_new s = Inr dest"
  shows "destination_as_str dest \<noteq> []" and "text_len (destination_as_str dest) \<le> 23"
    and "\<not> list_ex is_control (destination_as_str dest)"
    and "forwarding_destination_new (destination_as_str dest) = Inr dest"
  using assms
  by (auto simp: forwarding_destination_new_def MAX_FORWARD_DESTINATION_BYTES_def Let_def
      split: if_splits)

lemma forwarding_kind_roundtrip: "forwarding_kind_parse (forwarding_kind_as_str k) = Some k"
  by (cases k)
    (simp_all add: forwarding_kind_parse_def eq_ignore_ascii_case_def to_ascii_lowercase_def)

section \<open>Invariant of the entries\<close>

definition entry_ok :: "forwarding_entry \<Rightarrow> bool" where
  "entry_ok e \<longleftrightarrow>
     (\<forall>c \<in> set (fe_digits e). dial_char c) \<and> length (fe_digits e) \<le> 23
     \<and> (fe_phase e = Committing \<longrightarrow> fe_digits e \<noteq> [])
     \<and> fe_line_instance e \<noteq> 0 \<and> fe_first_digit_timeout e \<noteq> 0 \<and> fe_interdigit_timeout e \<noteq> 0"

lemma entry_ok_destination:
  "entry_ok e \<Longrightarrow> fe_digits e \<noteq> [] \<Longrightarrow>
     forwarding_destination_new (fe_digits e) = Inr (ForwardingDestination (fe_digits e))"
  by (intro dial_destination) (auto simp: entry_ok_def)

text \<open>What the operations on one entry never change, and what they preserve.\<close>

definition entry_step :: "forwarding_entry \<Rightarrow> forwarding_entry \<Rightarrow> bool" where
  "entry_step e e' \<longleftrightarrow>
     fe_id e' = fe_id e \<and> fe_device_id e' = fe_device_id e \<and> fe_call_id e' = fe_call_id e
     \<and> fe_kind e' = fe_kind e \<and> fe_dial_terminator e' = fe_dial_terminator e
     \<and> (entry_ok e \<longrightarrow> entry_ok e') \<and> (fe_phase e = Committing \<longrightarrow> e' = e)"

lemma entry_step_refl [simp]: "entry_step e e"
  by (simp add: entry_step_def)

lemma set_deadline_step: "entry_step e e' \<Longrightarrow> fe_phase e = Collecting
    \<Longrightarrow> entry_step e (snd (set_deadline limit now t e'))"
  by (auto simp: set_deadline_def entry_step_def entry_ok_def split: option.split)

lemma entry_step_digits:
  assumes "fe_phase e = Collecting"
    and "entry_ok e \<Longrightarrow> (\<forall>c \<in> set ds. dial_char c) \<and> length ds \<le> 23"
  shows "entry_step e (e\<lparr>fe_digits := ds\<rparr>)"
  using assms by (auto simp: entry_step_def entry_ok_def)

lemma entry_push_digit_step: "entry_step e (snd (entry_push_digit limit dg now e))"
proof (cases "fe_phase e = Collecting \<and> text_len (fe_digits e) < 23")
  case True
  then have short: "length (fe_digits e) < 23" using length_le_text_len [of "fe_digits e"] by simp
  show ?thesis
  proof (cases "collected_char dg")
    case (Some c)
    with short True have "entry_step e (e\<lparr>fe_digits := fe_digits e @ [c]\<rparr>)"
      using collected_char_dial [OF Some] by (intro entry_step_digits) (auto simp: entry_ok_def)
    from set_deadline_step [OF this] True Some show ?thesis
      by (simp add: entry_push_digit_def MAX_FORWARD_DESTINATION_BYTES_def)
  qed (simp add: entry_push_digit_def)
qed (auto simp: entry_push_digit_def MAX_FORWARD_DESTINATION_BYTES_def)

lemma entry_begin_commit_step: "entry_step e (snd (entry_begin_commit e))"
proof (cases "fe_phase e = Collecting \<and> fe_digits e \<noteq> []")
  case True
  then show ?thesis
    by (auto simp: entry_begin_commit_def entry_step_def entry_ok_def split: sum.split)
next
  case False
  moreover have "forwarding_destination_new [] = Inl InvalidDestination"
    by (simp add: forwarding_destination_new_def trim_def)
  ultimately show ?thesis by (auto simp: entry_begin_commit_def)
qed

lemma entry_input_digit_step: "entry_step e (snd (entry_input_digit limit dg now e))"
  using entry_begin_commit_step [of e] entry_push_digit_step [of e limit dg now]
  by (auto simp: entry_input_digit_def split: prod.splits sum.splits)

lemma entry_backspace_step: "entry_step e (snd (entry_backspace limit now e))"
  by (auto simp: entry_backspace_def entry_ok_def dest: in_set_butlastD
      intro!: set_deadline_step entry_step_digits)

lemma entry_replace_digits_step: "entry_step e (snd (entry_replace_digits limit s now e))"
proof -
  let ?ds = "strip_suffix_char (digit_as_char (fe_dial_terminator e)) s"
  have "entry_step e (e\<lparr>fe_digits := ?ds\<rparr>)"
    if "fe_phase e = Collecting" "\<not> list_ex (\<lambda>c. \<not> dial_char c) ?ds" "\<not> 23 < text_len ?ds"
    using that length_le_text_len [of ?ds] by (intro entry_step_digits) (auto simp: list_ex_iff)
  then show ?thesis
    by (auto simp: entry_replace_digits_def Let_def MAX_FORWARD_DESTINATION_BYTES_def
        intro: set_deadline_step)
qed

lemmas entry_steps = entry_input_digit_step entry_backspace_step entry_replace_digits_step
  entry_begin_commit_step

text \<open>An entry claims its call and its identity.\<close>

definition entry_claims :: "forwarding_entry \<Rightarrow> (call_id + entry_id) set" where
  "entry_claims e = {Inl (fe_call_id e), Inr (fe_id e)}"

definition entry_inv :: "entry_registry \<Rightarrow> bool" where
  "entry_inv r \<longleftrightarrow>
     hm_wf (er_by_device r) \<and> exclusive entry_claims (er_by_device r)
     \<and> (\<forall>d e. hm_get (er_by_device r) d = Some e \<longrightarrow>
          fe_device_id e = d \<and> fe_id e \<le> er_next_id r \<and> entry_ok e)"

lemma entry_inv_default [simp]: "entry_inv entry_registry_default"
  by (simp add: entry_inv_def entry_registry_default_def)

lemma entry_inv_wf: "entry_inv r \<Longrightarrow> hm_wf (er_by_device r)"
  by (simp add: entry_inv_def)

lemma entry_inv_get:
  assumes "entry_inv r" and "hm_get (er_by_device r) d = Some e"
  shows "fe_device_id e = d" and "fe_id e \<le> er_next_id r" and "entry_ok e"
  using assms unfolding entry_inv_def by blast+

lemma entry_inv_remove:
  "entry_inv r \<Longrightarrow> entry_inv (r\<lparr>er_by_device := hm_remove d (er_by_device r)\<rparr>)"
  by (auto simp: entry_inv_def split: if_splits)

lemma entry_inv_replace:
  assumes "entry_inv r" and "hm_get (er_by_device r) d = Some e" and "entry_step e e'"
  shows "entry_inv (r\<lparr>er_by_device := hm_insert d e' (er_by_device r)\<rparr>)"
proof -
  have "exclusive entry_claims (hm_insert d e' (er_by_device r))"
    using assms by (intro exclusive_replace [of _ _ _ e]) (auto simp: entry_inv_def entry_claims_def entry_step_def)
  with assms show ?thesis
    using entry_inv_get [OF assms(1,2)] by (auto simp: entry_inv_def entry_step_def)
qed

lemma entry_inv_exact_mut:
  assumes "entry_inv r" and "\<And>e. entry_step e (snd (f e))"
  shows "entry_inv (snd (entry_exact_mut f d i r))"
  using assms entry_inv_replace [OF assms(1)]
  by (auto simp: entry_exact_mut_def split_def Let_def split: option.split)

lemma entry_inv_begin:
  assumes "entry_inv r"
  shows "entry_inv (snd (entry_begin limit d line call kind terminator timing r))"
proof (cases "fst (entry_begin limit d line call kind terminator timing r)")
  case (Inl err)
  with assms show ?thesis
    by (auto simp: entry_begin_def entry_inv_def Let_def dest: checked_succ_upper
        split: if_splits option.splits)
next
  case (Inr e)
  from Inr obtain i where i: "checked_succ (er_next_id r) = Some i"
    and r': "snd (entry_begin limit d line call kind terminator timing r) =
      \<lparr>er_next_id = i, er_by_device = hm_insert d e (er_by_device r)\<rparr>"
    and e: "fe_id e = i" "fe_call_id e = call" "fe_device_id e = d" "entry_ok e"
    and fresh: "\<not> list_ex (\<lambda>e. fe_call_id e = call) (hm_values (er_by_device r))"
    by (auto simp: entry_begin_def Let_def entry_ok_def split: if_splits option.splits)
  have "exclusive entry_claims (hm_insert d e (er_by_device r))"
  proof (rule exclusive_insert)
    show "exclusive entry_claims (er_by_device r)" using assms by (simp add: entry_inv_def)
    fix d' v assume v: "hm_get (er_by_device r) d' = Some v" and "d' \<noteq> d"
    have "fe_call_id v \<noteq> call" using fresh hm_get_in_values [OF v] by (auto simp: list_ex_iff)
    moreover have "fe_id v \<noteq> i"
      using checked_succ_fresh [OF i] entry_inv_get(2) [OF assms v] by blast
    ultimately show "entry_claims e \<inter> entry_claims v = {}" using e by (auto simp: entry_claims_def)
  qed
  with assms e i show ?thesis
    unfolding r' by (auto simp: entry_inv_def dest: checked_succ_upper)
qed

section \<open>The sweep over expired entries\<close>

definition claim_outcome :: "instant \<Rightarrow> entry_id \<Rightarrow> forwarding_entry option \<Rightarrow> expiry_outcome option" where
  "claim_outcome now i x =
     (case x of
        None \<Rightarrow> None
      | Some e \<Rightarrow>
          if fe_id e \<noteq> i \<or> fe_phase e \<noteq> Collecting \<or> fe_deadline e > now then None
          else if fe_digits e = [] then Some (ExpiryCancel e)
          else (case entry_begin_commit e of
                  (Inr c, _) \<Rightarrow> Some (ExpiryCommit c)
                | (Inl _, e') \<Rightarrow> Some (ExpiryCancel e')))"

definition claim_becomes :: "instant \<Rightarrow> entry_id \<Rightarrow> forwarding_entry option \<Rightarrow> forwarding_entry option" where
  "claim_becomes now i x =
     (case x of
        None \<Rightarrow> None
      | Some e \<Rightarrow>
          if fe_id e \<noteq> i \<or> fe_phase e \<noteq> Collecting \<or> fe_deadline e > now then Some e
          else if fe_digits e = [] then None
          else (case entry_begin_commit e of (Inr c, e') \<Rightarrow> Some e' | (Inl _, _) \<Rightarrow> None))"

interpretation entry_sweep: keyed_sweep hm_get hm_wf "\<lambda>(_, _, d). d" "\<lambda>(_, i, d). claim_one now i d"
  "\<lambda>(_, i, _). claim_outcome now i" "\<lambda>(_, i, _). claim_becomes now i"
  for now
  by unfold_locales
    (auto simp: claim_one_def claim_outcome_def claim_becomes_def split: option.split sum.split prod.split)

text \<open>What the sweep says about an expired entry, and what it leaves in its place.\<close>

definition commit_of :: "forwarding_entry \<Rightarrow> forwarding_commit" where
  "commit_of e =
     \<lparr>fc_entry_id = fe_id e, fc_device_id = fe_device_id e, fc_line_instance = fe_line_instance e,
      fc_call_id = fe_call_id e, fc_kind = fe_kind e,
      fc_destination = ForwardingDestination (fe_digits e)\<rparr>"

definition expiry_of :: "forwarding_entry \<Rightarrow> expiry_outcome" where
  "expiry_of e = (if fe_digits e = [] then ExpiryCancel e else ExpiryCommit (commit_of e))"

definition entry_expired :: "instant \<Rightarrow> forwarding_entry \<Rightarrow> bool" where
  "entry_expired now e \<longleftrightarrow> fe_phase e = Collecting \<and> fe_deadline e \<le> now"

definition after_expiry :: "instant \<Rightarrow> forwarding_entry \<Rightarrow> forwarding_entry option" where
  "after_expiry now e =
     (if \<not> entry_expired now e then Some e
      else if fe_digits e = [] then None
      else Some (e\<lparr>fe_phase := Committing\<rparr>))"

lemma entry_ok_begin_commit:
  assumes "entry_ok e" and "fe_phase e = Collecting" and "fe_digits e \<noteq> []"
  shows "entry_begin_commit e = (Inr (commit_of e), e\<lparr>fe_phase := Committing\<rparr>)"
  using assms by (simp add: entry_begin_commit_def entry_ok_destination commit_of_def)

lemma claim_outcome_ok:
  "entry_ok e \<Longrightarrow>
     claim_outcome now (fe_id e) (Some e) = (if entry_expired now e then Some (expiry_of e) else None)"
  by (auto simp: claim_outcome_def entry_expired_def expiry_of_def entry_ok_begin_commit not_le)

lemma claim_becomes_ok:
  "entry_ok e \<Longrightarrow> claim_becomes now (fe_id e) (Some e) = after_expiry now e"
  by (auto simp: claim_becomes_def entry_expired_def after_expiry_def entry_ok_begin_commit)

definition sorted_expired :: "instant \<Rightarrow> entry_registry \<Rightarrow> forwarding_entry list" where
  "sorted_expired now r =
     sort_key (\<lambda>e. (fe_deadline e, fe_id e)) (filter (entry_expired now) (hm_values (er_by_device r)))"

lemma expired_entries_sorted:
  "expired_entries now r = map (\<lambda>e. (fe_deadline e, fe_id e, fe_device_id e)) (sorted_expired now r)"
  by (simp add: expired_entries_def sorted_expired_def sort_key_map entry_expired_def [abs_def])

lemma set_sorted_expired:
  "entry_inv r \<Longrightarrow>
     e \<in> set (sorted_expired now r) \<longleftrightarrow>
       hm_get (er_by_device r) (fe_device_id e) = Some e \<and> entry_expired now e"
  by (auto simp: sorted_expired_def hm_values_iff entry_inv_def)

lemma distinct_sorted_expired:
  assumes "entry_inv r"
  shows "distinct (map fe_device_id (sorted_expired now r))"
proof -
  have "distinct (map fe_device_id (hm_values (er_by_device r)))"
    using assms by (intro hm_values_keyed) (auto simp: entry_inv_def)
  then have "distinct (map fe_device_id (filter (entry_expired now) (hm_values (er_by_device r))))"
    by (rule distinct_map_filter)
  then show ?thesis by (auto simp: sorted_expired_def distinct_map)
qed

lemma expired_entries_distinct:
  "entry_inv r \<Longrightarrow> distinct (map (\<lambda>(_, _, d). d) (expired_entries now r))"
  using distinct_sorted_expired [of r now] by (simp add: expired_entries_sorted comp_def)

lemma sorted_expired_mem:
  assumes "entry_inv r" and "e \<in> set (sorted_expired now r)"
  shows "hm_get (er_by_device r) (fe_device_id e) = Some e" and "entry_expired now e" and "entry_ok e"
  using assms set_sorted_expired [OF assms(1)] entry_inv_get(3) [OF assms(1)] by blast+

lemma claim_expired_outcomes:
  assumes "entry_inv r"
  shows "fst (entry_claim_expired now r) = map expiry_of (sorted_expired now r)"
proof -
  have "fst (filter_map_st (\<lambda>(_, i, d). claim_one now i d) (expired_entries now r) (er_by_device r))
      = map expiry_of (sorted_expired now r)"
    by (rule entry_sweep.sweep_outcomes_map
          [OF expired_entries_sorted expired_entries_distinct [OF assms] entry_inv_wf [OF assms]])
      (use sorted_expired_mem [OF assms] in \<open>simp add: claim_outcome_ok\<close>)
  then show ?thesis by (simp add: entry_claim_expired_def split_def Let_def)
qed

lemma claim_expired_get:
  assumes "entry_inv r"
  shows "hm_get (er_by_device (snd (entry_claim_expired now r))) d
      = Option.bind (hm_get (er_by_device r) d) (after_expiry now)"
proof -
  let ?xs = "expired_entries now r" and ?m = "er_by_device r"
  have "hm_get (snd (filter_map_st (\<lambda>(_, i, d). claim_one now i d) ?xs ?m)) d
      = Option.bind (hm_get ?m d) (after_expiry now)"
  proof (cases "\<exists>e \<in> set (sorted_expired now r). fe_device_id e = d")
    case True
    then obtain e where e: "e \<in> set (sorted_expired now r)" "fe_device_id e = d" by blast
    then have "(fe_deadline e, fe_id e, d) \<in> set ?xs" by (auto simp: expired_entries_sorted)
    from entry_sweep.sweep_get [OF entry_inv_wf [OF assms] expired_entries_distinct [OF assms] this, of now]
      sorted_expired_mem [OF assms e(1)] e(2)
    show ?thesis by (simp add: claim_becomes_ok)
  next
    case False
    then have "d \<notin> (\<lambda>(_, _, d). d) ` set ?xs" by (auto simp: expired_entries_sorted)
    moreover have "after_expiry now e = Some e" if "hm_get ?m d = Some e" for e
      using that False set_sorted_expired [OF assms, of e now] entry_inv_get(1) [OF assms that]
      by (auto simp: after_expiry_def)
    ultimately show ?thesis
      using entry_sweep.sweep_get_other [OF entry_inv_wf [OF assms], of d ?xs now] by (cases "hm_get ?m d") auto
  qed
  then show ?thesis by (simp add: entry_claim_expired_def split_def Let_def)
qed

lemma after_expiry_SomeD:
  "after_expiry now e = Some e' \<Longrightarrow>
     fe_device_id e' = fe_device_id e \<and> fe_id e' = fe_id e \<and> fe_call_id e' = fe_call_id e
     \<and> (entry_ok e \<longrightarrow> entry_ok e') \<and> \<not> entry_expired now e'"
  by (auto simp: after_expiry_def entry_ok_def entry_expired_def split: if_splits)

lemma claim_expired_next_id [simp]: "er_next_id (snd (entry_claim_expired now r)) = er_next_id r"
  by (simp add: entry_claim_expired_def split_def Let_def)

lemma claim_expired_inv:
  assumes "entry_inv r"
  shows "entry_inv (snd (entry_claim_expired now r))"
proof -
  let ?m' = "er_by_device (snd (entry_claim_expired now r))"
  have old: "\<exists>e. hm_get (er_by_device r) d = Some e \<and> after_expiry now e = Some e'"
    if "hm_get ?m' d = Some e'" for d e'
    using that claim_expired_get [OF assms, of now d] by (auto simp: bind_eq_Some_conv)
  have "exclusive entry_claims ?m'"
  proof (rule exclusive_pointwise)
    show "exclusive entry_claims (er_by_device r)" using assms by (simp add: entry_inv_def)
    fix d e' assume "hm_get ?m' d = Some e'"
    from old [OF this] obtain e where "hm_get (er_by_device r) d = Some e" "after_expiry now e = Some e'"
      by blast
    with after_expiry_SomeD [OF this(2)]
    show "\<exists>e. hm_get (er_by_device r) d = Some e \<and> entry_claims e' \<subseteq> entry_claims e"
      by (simp add: entry_claims_def)
  qed
  moreover have "hm_wf ?m'"
    using assms entry_sweep.sweep_ok [of "er_by_device r" now "expired_entries now r"]
    by (simp add: entry_inv_def entry_claim_expired_def split_def Let_def)
  moreover have "fe_device_id e' = d \<and> fe_id e' \<le> er_next_id r \<and> entry_ok e'"
    if "hm_get ?m' d = Some e'" for d e'
  proof -
    from old [OF that] obtain e where e: "hm_get (er_by_device r) d = Some e" "after_expiry now e = Some e'"
      by blast
    with after_expiry_SomeD [OF e(2)] entry_inv_get [OF assms e(1)] show ?thesis by simp
  qed
  ultimately show ?thesis by (simp add: entry_inv_def)
qed

section \<open>Operations guarded by the entry identity\<close>

lemma entry_exact_mut_stale:
  "map_option fe_id (entry_get r d) \<noteq> Some i \<Longrightarrow>
     entry_exact_mut f d i r = (Inl (Rejected Conflict), r)"
  by (auto simp: entry_exact_mut_def entry_get_def split: option.splits)

lemma entry_exact_mut_get:
  assumes "entry_get r d = Some e" and "fe_id e = i"
  shows "entry_exact_mut f d i r =
    (fst (f e), r\<lparr>er_by_device := hm_insert d (snd (f e)) (er_by_device r)\<rparr>)"
  using assms by (simp add: entry_exact_mut_def entry_get_def split_def Let_def)

lemma entry_exact_mut_frame:
  "d' \<noteq> d \<Longrightarrow> entry_get (snd (entry_exact_mut f d i r)) d' = entry_get r d'"
  by (simp add: entry_exact_mut_def entry_get_def split_def Let_def split: option.split)

lemmas settling_defs = entry_get_def entry_in_phase_def entry_take_def settle_write_def
  settle_collection_write_def settle_terminal_write_def entry_commit_def entry_cancel_def
  cancel_collection_def

interpretation edit_op: guarded_operation entry_get fe_id "entry_exact_mut f" "Rejected Conflict"
  for f
  by unfold_locales (rule entry_exact_mut_stale, assumption, rule entry_exact_mut_frame)

interpretation settle_op: guarded_operation entry_get fe_id "settle_write ph outcome" "Rejected Conflict"
  for ph outcome
  by unfold_locales (auto simp: settling_defs split: option.splits)

interpretation entry_commit_op: terminal_operation entry_get fe_id entry_commit "Rejected Conflict"
  by unfold_locales (auto simp: settling_defs split: option.splits if_splits)

interpretation entry_cancel_op: terminal_operation entry_get fe_id entry_cancel "Rejected Conflict"
  by unfold_locales (auto simp: settling_defs split: option.splits if_splits)

interpretation collection_op: terminal_operation entry_get fe_id cancel_collection "Rejected Conflict"
  by unfold_locales (auto simp: settling_defs split: option.splits if_splits)

section \<open>Histories of the entry registry\<close>

datatype forwarding_event =
    Begin device_id u32 call_id forwarding_kind digit entry_timing
  | InputDigit device_id entry_id digit instant
  | Backspace device_id entry_id instant
  | ReplaceDigits device_id entry_id rust_str instant
  | ClaimExpired instant
  | BeginCommit device_id entry_id
  | SettleCollection device_id entry_id write_outcome
  | SettleTerminal device_id entry_id write_outcome
  | Commit device_id entry_id
  | Cancel device_id entry_id
  | CancelCollection device_id entry_id

fun forwarding_apply :: "instant \<Rightarrow> forwarding_event \<Rightarrow> entry_registry \<Rightarrow> entry_registry" where
  "forwarding_apply limit (Begin d line call kind terminator timing) r =
     snd (entry_begin limit d line call kind terminator timing r)"
| "forwarding_apply limit (InputDigit d i dg now) r = snd (registry_input_digit limit dg now d i r)"
| "forwarding_apply limit (Backspace d i now) r = snd (registry_backspace limit now d i r)"
| "forwarding_apply limit (ReplaceDigits d i s now) r =
     snd (registry_replace_digits limit s now d i r)"
| "forwarding_apply limit (ClaimExpired now) r = snd (entry_claim_expired now r)"
| "forwarding_apply limit (BeginCommit d i) r = snd (registry_begin_commit d i r)"
| "forwarding_apply limit (SettleCollection d i x) r = snd (settle_collection_write x d i r)"
| "forwarding_apply limit (SettleTerminal d i x) r = snd (settle_terminal_write x d i r)"
| "forwarding_apply limit (Commit d i) r = snd (entry_commit d i r)"
| "forwarding_apply limit (Cancel d i) r = snd (entry_cancel d i r)"
| "forwarding_apply limit (CancelCollection d i) r = snd (cancel_collection d i r)"

definition forwarding_run :: "instant \<Rightarrow> forwarding_event list \<Rightarrow> entry_registry" where
  "forwarding_run limit evs = fold (forwarding_apply limit) evs entry_registry_default"

lemmas editing_defs = registry_input_digit_def registry_backspace_def registry_replace_digits_def
  registry_begin_commit_def

lemma forwarding_apply_inv: "entry_inv r \<Longrightarrow> entry_inv (forwarding_apply limit ev r)"
  by (cases ev)
    (auto simp: editing_defs settling_defs entry_inv_begin claim_expired_inv
      split: option.splits intro!: entry_inv_exact_mut entry_inv_remove entry_steps)

lemma forwarding_run_inv: "entry_inv (forwarding_run limit evs)"
proof -
  have "entry_inv r \<Longrightarrow> entry_inv (fold (forwarding_apply limit) evs r)" for r
    by (induction evs arbitrary: r) (simp_all add: forwarding_apply_inv)
  then show ?thesis by (simp add: forwarding_run_def)
qed

lemma entry_for_call_find:
  assumes "entry_inv r" and "entry_get r d = Some e"
  shows "entry_for_call r (fe_call_id e) = Some e"
proof -
  have "find (\<lambda>e'. Inl (fe_call_id e) \<in> entry_claims e') (hm_values (er_by_device r)) = Some e"
    using assms by (subst exclusive_find_iff) (auto simp: entry_inv_def entry_get_def entry_claims_def)
  moreover have "(\<lambda>e'. Inl (fe_call_id e) \<in> entry_claims e') = (\<lambda>e'. fe_call_id e' = fe_call_id e)"
    by (auto simp: entry_claims_def)
  ultimately show ?thesis by (simp add: entry_for_call_def)
qed

section \<open>Properties of the entries\<close>

text \<open>
  C17. In every registry that a history of operations produces, panics included, an
  entry is found under its device and under its call, no two entries share a call or
  an identity, and the collected digits are at most 23 symbols of the dial alphabet,
  so that they are a valid destination as soon as there is one.
\<close>

theorem forwarding_entries_consistent:
  assumes "r = forwarding_run limit evs" and "entry_get r d = Some e"
  shows "fe_device_id e = d \<and> entry_for_call r (fe_call_id e) = Some e
    \<and> length (fe_digits e) \<le> 23
    \<and> (fe_digits e \<noteq> [] \<longrightarrow>
         forwarding_destination_new (fe_digits e) = Inr (ForwardingDestination (fe_digits e)))
    \<and> (fe_phase e = Committing \<longrightarrow> fe_digits e \<noteq> [])
    \<and> (\<forall>d' e'. entry_get r d' = Some e' \<longrightarrow> fe_call_id e' = fe_call_id e \<or> fe_id e' = fe_id e
         \<longrightarrow> d' = d)"
proof -
  have inv: "entry_inv r" unfolding assms(1) by (rule forwarding_run_inv)
  from assms(2) have e: "hm_get (er_by_device r) d = Some e" by (simp add: entry_get_def)
  have uniq: "d' = d" if "entry_get r d' = Some e'"
    "fe_call_id e' = fe_call_id e \<or> fe_id e' = fe_id e" for d' e'
  proof -
    from that have "entry_claims e' \<inter> entry_claims e \<noteq> {}" by (auto simp: entry_claims_def)
    with that(1) e inv show ?thesis
      unfolding entry_inv_def entry_get_def exclusive_def by blast
  qed
  have "entry_ok e" using entry_inv_get(3) [OF inv e] .
  with uniq entry_inv_get(1) [OF inv e] entry_for_call_find [OF inv assms(2)]
  show ?thesis by (simp add: entry_ok_destination) (simp add: entry_ok_def)
qed

text \<open>
  C18. The expiry sweep settles exactly the collecting entries whose deadline has
  passed, in the order of deadline and identity: an entry without digits is cancelled
  and removed, any other is committed with its digits as destination and stays in the
  committing phase; other entries are untouched, and a second sweep at the same
  instant finds nothing. The fallback that cancels an entry whose digits are not a
  valid destination is never taken.
\<close>

theorem forwarding_claim_expired_exact:
  assumes "r = forwarding_run limit evs" and "entry_claim_expired now r = (xs, r')"
  shows "xs = map expiry_of (sorted_expired now r)
    \<and> sorted (map (\<lambda>e. (fe_deadline e, fe_id e)) (sorted_expired now r))
    \<and> (\<forall>e. e \<in> set (sorted_expired now r) \<longleftrightarrow>
         entry_get r (fe_device_id e) = Some e \<and> fe_phase e = Collecting \<and> fe_deadline e \<le> now)
    \<and> (\<forall>d. entry_get r' d = Option.bind (entry_get r d) (after_expiry now))
    \<and> fst (entry_claim_expired now r') = []"
proof -
  have inv: "entry_inv r" unfolding assms(1) by (rule forwarding_run_inv)
  have r': "r' = snd (entry_claim_expired now r)" and xs: "xs = fst (entry_claim_expired now r)"
    using assms(2) by simp_all
  have inv': "entry_inv r'" unfolding r' by (rule claim_expired_inv [OF inv])
  have get: "entry_get r' d = Option.bind (entry_get r d) (after_expiry now)" for d
    unfolding r' entry_get_def by (rule claim_expired_get [OF inv])
  have "e \<notin> set (sorted_expired now r')" for e
  proof
    assume "e \<in> set (sorted_expired now r')"
    note e = sorted_expired_mem [OF inv' this]
    have "Option.bind (entry_get r (fe_device_id e)) (after_expiry now) = Some e"
      using e(1) get [of "fe_device_id e"] by (simp add: entry_get_def)
    then obtain e0 where "after_expiry now e0 = Some e" by (auto simp: bind_eq_Some_conv)
    with after_expiry_SomeD e(2) show False by blast
  qed
  then have "fst (entry_claim_expired now r') = []"
    unfolding claim_expired_outcomes [OF inv'] by (cases "sorted_expired now r'") auto
  moreover have "sorted (map (\<lambda>e. (fe_deadline e, fe_id e)) (sorted_expired now r))"
    by (simp add: sorted_expired_def)
  ultimately show ?thesis
    using get claim_expired_outcomes [OF inv] set_sorted_expired [OF inv]
    by (auto simp: xs entry_get_def entry_expired_def)
qed

lemma entry_exact_mut_committing:
  assumes "entry_get r d = Some e" and "fe_phase e = Committing" and "\<And>e. entry_step e (snd (f e))"
  shows "entry_get (snd (entry_exact_mut f d' i r)) d = Some e"
proof (cases "d' = d \<and> fe_id e = i")
  case True
  have "snd (f e) = e" using assms(2,3) by (simp add: entry_step_def)
  with True assms(1) show ?thesis by (simp add: entry_exact_mut_get entry_get_def)
next
  case False
  with assms(1) show ?thesis
    by (cases "d' = d") (simp_all add: entry_exact_mut_stale entry_exact_mut_frame)
qed

text \<open>The events that may end a committing entry.\<close>

definition ends_commit :: "forwarding_event \<Rightarrow> device_id \<Rightarrow> entry_id \<Rightarrow> bool" where
  "ends_commit ev d i \<longleftrightarrow> ev \<in> {Commit d i, Cancel d i, SettleTerminal d i Failed}"

lemma forwarding_apply_committing:
  assumes "entry_inv r" and "entry_get r d = Some e" and "fe_phase e = Committing"
    and "\<not> ends_commit ev d (fe_id e)"
  shows "entry_get (forwarding_apply limit ev r) d = Some e"
proof (cases ev)
  case (ClaimExpired now)
  have "after_expiry now e = Some e" using assms(3) by (simp add: after_expiry_def entry_expired_def)
  with ClaimExpired assms(2) show ?thesis
    using claim_expired_get [OF assms(1), of now d] by (simp add: entry_get_def)
next
  case (Begin d' line call kind terminator timing)
  with assms(2) show ?thesis
    by (auto simp: entry_begin_def entry_get_def hm_contains_def Let_def split: option.split)
qed (use assms in \<open>auto simp: editing_defs settling_defs ends_commit_def
    split: option.splits if_splits
    intro!: entry_exact_mut_committing [unfolded entry_get_def] entry_steps\<close>)

text \<open>
  C19. A destination that is being committed is protected: whatever happens on the
  phone or in the sweeps, the entry stays as it is until its own commit, its own
  cancellation or the failure of its own terminal write; and once committed, no
  number of repeated commits for the device changes anything.
\<close>

theorem committing_entry_protected:
  assumes "r = forwarding_run limit evs" and "entry_get r d = Some e" and "fe_phase e = Committing"
    and "\<forall>ev \<in> set evs'. \<not> ends_commit ev d (fe_id e)"
    and "r' = fold (forwarding_apply limit) evs' r"
  shows "entry_get r' d = Some e
    \<and> (\<exists>r2. entry_commit d (fe_id e) r' = (Inr e, r2)
        \<and> fold (\<lambda>(d, i) r. snd (entry_commit d i r)) (map (Pair d) is) r2 = r2)"
proof -
  have "entry_get (fold (forwarding_apply limit) evs' r) d = Some e"
    if "entry_inv r" "entry_get r d = Some e" for r
    using that assms(4)
  proof (induction evs' arbitrary: r)
    case (Cons ev evs')
    then have "entry_get (forwarding_apply limit ev r) d = Some e"
      using forwarding_apply_committing [OF _ _ assms(3)] by simp
    with Cons show ?case by (simp add: forwarding_apply_inv)
  qed simp
  with assms(1,2,5) have get: "entry_get r' d = Some e"
    using forwarding_run_inv by blast
  with assms(3) have "entry_commit d (fe_id e) r' =
      (Inr e, r'\<lparr>er_by_device := hm_remove d (er_by_device r')\<rparr>)" (is "_ = (_, ?r2)")
    by (simp add: settling_defs)
  with get entry_commit_op.retries_refused [OF this, of "is"] show ?thesis by blast
qed

lemma entry_input_digit_collects:
  assumes "entry_ok e" and "fe_phase e = Collecting" and "dg \<noteq> fe_dial_terminator e"
    and "collected_char dg \<noteq> None" and "length (fe_digits e) < 23"
    and "now + fe_interdigit_timeout e \<le> limit"
  shows "entry_input_digit limit dg now e =
    (Inr Collected, e\<lparr>fe_digits := fe_digits e @ [digit_as_char dg],
       fe_deadline := now + fe_interdigit_timeout e\<rparr>)"
proof -
  obtain c where c: "collected_char dg = Some c" using assms(4) by blast
  have "text_len (fe_digits e) = length (fe_digits e)"
    using assms(1) by (intro dial_text_len) (simp add: entry_ok_def)
  with assms c collected_char_dial [OF c] show ?thesis
    by (simp add: entry_input_digit_def entry_push_digit_def set_deadline_def
        instant_checked_add_def MAX_FORWARD_DESTINATION_BYTES_def)
qed

definition dial :: "instant \<Rightarrow> (digit \<times> instant) list \<Rightarrow> device_id \<Rightarrow> entry_id \<Rightarrow> entry_registry \<Rightarrow> entry_registry" where
  "dial limit keys d i = fold (\<lambda>(dg, now) r. snd (registry_input_digit limit dg now d i r)) keys"

lemma dial_collects:
  assumes "entry_inv r" and "entry_get r d = Some e" and "fe_phase e = Collecting"
    and "length (fe_digits e) + length keys \<le> 23"
    and "\<forall>(dg, now) \<in> set keys. dg \<noteq> fe_dial_terminator e \<and> collected_char dg \<noteq> None
      \<and> now + fe_interdigit_timeout e \<le> limit"
  shows "entry_inv (dial limit keys d (fe_id e) r) \<and>
    (\<exists>t. entry_get (dial limit keys d (fe_id e) r) d =
      Some (e\<lparr>fe_digits := fe_digits e @ map (digit_as_char o fst) keys, fe_deadline := t\<rparr>))"
  using assms
proof (induction keys arbitrary: r e)
  case Nil
  have "e\<lparr>fe_deadline := fe_deadline e\<rparr> = e" by simp
  with Nil show ?case by (auto simp: dial_def intro!: exI [of _ "fe_deadline e"])
next
  case (Cons key keys)
  obtain dg now where key: "key = (dg, now)" by fastforce
  let ?e = "e\<lparr>fe_digits := fe_digits e @ [digit_as_char dg], fe_deadline := now + fe_interdigit_timeout e\<rparr>"
  let ?r = "snd (registry_input_digit limit dg now d (fe_id e) r)"
  have ok: "entry_ok e" using Cons.prems(1,2) entry_inv_get(3) by (simp add: entry_get_def)
  have "entry_inv ?r"
    unfolding editing_defs by (rule entry_inv_exact_mut [OF Cons.prems(1)]) (rule entry_input_digit_step)
  moreover have "entry_get ?r d = Some ?e"
    using entry_input_digit_collects [OF ok Cons.prems(3), of dg now limit] Cons.prems key
    by (simp add: editing_defs entry_exact_mut_get entry_get_def)
  ultimately show ?case
    using Cons.IH [of ?r ?e] Cons.prems key by (simp add: dial_def)
qed

text \<open>
  What is dialled is what is forwarded to: after an entry was begun, any digits
  of the dial alphabet other than the terminator, at most 23 of them and at least
  one, followed by the terminator, commit the entry with exactly these digits as the
  destination, for the call, line and kind the entry was begun with.
\<close>

theorem forwarding_dial_commits:
  assumes "r = forwarding_run limit evs"
    and "entry_begin limit d line call kind terminator timing r = (Inr e, r1)"
    and "\<forall>(dg, now) \<in> set keys. dg \<noteq> terminator \<and> collected_char dg \<noteq> None
      \<and> now + et_interdigit_timeout timing \<le> limit"
    and "keys \<noteq> []" and "length keys \<le> 23"
  shows "fst (registry_input_digit limit terminator now d (fe_id e) (dial limit keys d (fe_id e) r1))
    = Inr (CommitDigits \<lparr>fc_entry_id = fe_id e, fc_device_id = d, fc_line_instance = line,
        fc_call_id = call, fc_kind = kind,
        fc_destination = ForwardingDestination (map (digit_as_char o fst) keys)\<rparr>)"
proof -
  have inv: "entry_inv r1"
    using entry_inv_begin [OF forwarding_run_inv, of limit d line call kind terminator timing limit evs]
      assms(1,2) by simp
  have e: "entry_get r1 d = Some e" "fe_phase e = Collecting" "fe_digits e = []"
    "fe_dial_terminator e = terminator" "fe_interdigit_timeout e = et_interdigit_timeout timing"
    "fe_device_id e = d" "fe_line_instance e = line" "fe_call_id e = call" "fe_kind e = kind"
    using assms(2) by (auto simp: entry_begin_def entry_get_def Let_def split: if_splits option.splits)
  obtain t where inv2: "entry_inv (dial limit keys d (fe_id e) r1)"
    and get: "entry_get (dial limit keys d (fe_id e) r1) d =
      Some (e\<lparr>fe_digits := map (digit_as_char o fst) keys, fe_deadline := t\<rparr>)"
    using dial_collects [OF inv e(1,2), of keys limit] e assms(3-5) by auto
  let ?e = "e\<lparr>fe_digits := map (digit_as_char o fst) keys, fe_deadline := t\<rparr>"
  have "entry_ok ?e" using get inv2 entry_inv_get(3) by (simp add: entry_get_def)
  then have "entry_begin_commit ?e = (Inr (commit_of ?e), ?e\<lparr>fe_phase := Committing\<rparr>)"
    using e assms(4) by (intro entry_ok_begin_commit) simp_all
  then show ?thesis
    using e by (simp add: editing_defs entry_exact_mut_get [OF get] entry_input_digit_def commit_of_def)
qed

section \<open>Timers\<close>

interpretation timer_sweep: keyed_sweep hm_get hm_wf "\<lambda>(_, _, call). call" "\<lambda>(_, i, call). timer_claim_one i call"
  "\<lambda>(_, i, _) x. case x of None \<Rightarrow> None
     | Some t \<Rightarrow> if nt_id t \<noteq> i \<or> nt_phase t \<noteq> Pending then None else Some (t\<lparr>nt_phase := Claimed\<rparr>)"
  "\<lambda>(_, i, _). map_option
     (\<lambda>t. if nt_id t \<noteq> i \<or> nt_phase t \<noteq> Pending then t else t\<lparr>nt_phase := Claimed\<rparr>)"
  by unfold_locales (auto simp: timer_claim_one_def Let_def split: option.split)

lemma timer_take_frame:
  "c' \<noteq> c \<Longrightarrow> timer_get (snd (timer_take phs c i r)) c' = timer_get r c'"
  by (simp add: timer_take_def timer_get_def split: option.split)

interpretation timer_commit_op: terminal_operation timer_get nt_id timer_commit Conflict
  by unfold_locales (auto simp: timer_commit_def timer_take_def timer_get_def split: option.splits if_splits)

interpretation timer_cancel_op: terminal_operation timer_get nt_id timer_cancel Conflict
  by unfold_locales (auto simp: timer_cancel_def timer_take_def timer_get_def split: option.splits if_splits)

interpretation timer_cancel_pending_op: terminal_operation timer_get nt_id timer_cancel_pending Conflict
  by unfold_locales
    (auto simp: timer_cancel_pending_def timer_take_def timer_get_def split: option.splits if_splits)

interpretation timer_rollback_op: guarded_operation timer_get nt_id timer_rollback_claim Conflict
  by unfold_locales (auto simp: timer_rollback_claim_def timer_get_def split: option.splits)

definition timer_inv :: "timer_registry \<Rightarrow> bool" where
  "timer_inv r \<longleftrightarrow>
     hm_wf (tr_by_call r) \<and> exclusive (\<lambda>t. {nt_id t}) (tr_by_call r)
     \<and> (\<forall>c t. hm_get (tr_by_call r) c = Some t \<longrightarrow> nt_call_id t = c \<and> nt_id t \<le> tr_next_id r)"

lemma timer_inv_default [simp]: "timer_inv timer_registry_default"
  by (simp add: timer_inv_def timer_registry_default_def)

lemma timer_inv_wf: "timer_inv r \<Longrightarrow> hm_wf (tr_by_call r)"
  by (simp add: timer_inv_def)

lemma timer_inv_get:
  assumes "timer_inv r" and "hm_get (tr_by_call r) c = Some t"
  shows "nt_call_id t = c" and "nt_id t \<le> tr_next_id r"
  using assms unfolding timer_inv_def by blast+

lemma timer_inv_schedule:
  assumes "timer_inv r"
  shows "timer_inv (snd (timer_schedule c deadline ctxt dest r))"
proof (cases "checked_succ (tr_next_id r)")
  case (Some i)
  have "exclusive (\<lambda>t. {nt_id t}) (hm_insert c t (tr_by_call r))" if "nt_id t = i" for t
    using assms checked_succ_fresh [OF Some] timer_inv_get(2) [OF assms] that
    by (intro exclusive_insert) (fastforce simp: timer_inv_def)+
  with Some assms show ?thesis
    by (auto simp: timer_schedule_def timer_inv_def Let_def dest: checked_succ_upper [OF Some])
qed (simp add: timer_schedule_def assms)

lemma timer_inv_remove:
  "timer_inv r \<Longrightarrow> timer_inv (r\<lparr>tr_by_call := hm_remove c (tr_by_call r)\<rparr>)"
  by (auto simp: timer_inv_def split: if_splits)

lemma timer_inv_replace:
  assumes "timer_inv r" and "hm_get (tr_by_call r) c = Some t" and "nt_id t' = nt_id t" and "nt_call_id t' = c"
  shows "timer_inv (r\<lparr>tr_by_call := hm_insert c t' (tr_by_call r)\<rparr>)"
proof -
  have "exclusive (\<lambda>t. {nt_id t}) (hm_insert c t' (tr_by_call r))"
    using assms by (intro exclusive_replace [of _ _ _ t]) (auto simp: timer_inv_def)
  with assms timer_inv_get [OF assms(1,2)] show ?thesis by (auto simp: timer_inv_def)
qed

definition timer_expired :: "instant \<Rightarrow> no_answer_timer \<Rightarrow> bool" where
  "timer_expired now t \<longleftrightarrow> nt_phase t = Pending \<and> nt_deadline t \<le> now"

definition sorted_timers :: "instant \<Rightarrow> timer_registry \<Rightarrow> no_answer_timer list" where
  "sorted_timers now r =
     sort_key (\<lambda>t. (nt_deadline t, nt_id t, nt_call_id t))
       (filter (timer_expired now) (hm_values (tr_by_call r)))"

lemma expired_timers_sorted:
  "expired_timers now r = map (\<lambda>t. (nt_deadline t, nt_id t, nt_call_id t)) (sorted_timers now r)"
  by (simp add: expired_timers_def sorted_timers_def sort_key_map timer_expired_def [abs_def])

lemma set_sorted_timers:
  "timer_inv r \<Longrightarrow> t \<in> set (sorted_timers now r) \<longleftrightarrow>
     hm_get (tr_by_call r) (nt_call_id t) = Some t \<and> timer_expired now t"
  by (auto simp: sorted_timers_def hm_values_iff timer_inv_def)

lemma expired_timers_distinct:
  assumes "timer_inv r"
  shows "distinct (map (\<lambda>(_, _, c). c) (expired_timers now r))"
proof -
  have "distinct (map nt_call_id (hm_values (tr_by_call r)))"
    using assms by (intro hm_values_keyed) (auto simp: timer_inv_def)
  then have "distinct (map nt_call_id (sorted_timers now r))"
    by (auto simp: sorted_timers_def distinct_map intro: inj_on_subset)
  then show ?thesis by (simp add: expired_timers_sorted comp_def)
qed

lemma timer_claim_outcomes:
  assumes "timer_inv r"
  shows "fst (timer_claim_expired now r) = map (\<lambda>t. t\<lparr>nt_phase := Claimed\<rparr>) (sorted_timers now r)"
proof -
  have "fst (filter_map_st (\<lambda>(_, i, c). timer_claim_one i c) (expired_timers now r) (tr_by_call r))
      = map (\<lambda>t. t\<lparr>nt_phase := Claimed\<rparr>) (sorted_timers now r)"
    by (rule timer_sweep.sweep_outcomes_map
          [OF expired_timers_sorted expired_timers_distinct [OF assms] timer_inv_wf [OF assms]])
      (use set_sorted_timers [OF assms] in \<open>auto simp: timer_expired_def\<close>)
  then show ?thesis by (simp add: timer_claim_expired_def split_def Let_def)
qed

lemma timer_claim_get:
  assumes "timer_inv r"
  shows "timer_get (snd (timer_claim_expired now r)) c =
    map_option (\<lambda>t. if timer_expired now t then t\<lparr>nt_phase := Claimed\<rparr> else t) (timer_get r c)"
proof -
  let ?xs = "expired_timers now r" and ?m = "tr_by_call r"
  have "hm_get (snd (filter_map_st (\<lambda>(_, i, c). timer_claim_one i c) ?xs ?m)) c =
    map_option (\<lambda>t. if timer_expired now t then t\<lparr>nt_phase := Claimed\<rparr> else t) (hm_get ?m c)"
  proof (cases "\<exists>t \<in> set (sorted_timers now r). nt_call_id t = c")
    case True
    then obtain t where t: "t \<in> set (sorted_timers now r)" "nt_call_id t = c" by blast
    then have "(nt_deadline t, nt_id t, c) \<in> set ?xs" by (auto simp: expired_timers_sorted)
    from timer_sweep.sweep_get [OF timer_inv_wf [OF assms] expired_timers_distinct [OF assms] this] t
      set_sorted_timers [OF assms, of t now]
    show ?thesis by (simp add: timer_expired_def)
  next
    case False
    then have "c \<notin> (\<lambda>(_, _, c). c) ` set ?xs" by (auto simp: expired_timers_sorted)
    moreover have "\<not> timer_expired now t" if "hm_get ?m c = Some t" for t
      using that False set_sorted_timers [OF assms, of t now] timer_inv_get(1) [OF assms that] by auto
    ultimately show ?thesis
      using timer_sweep.sweep_get_other [OF timer_inv_wf [OF assms], of c ?xs] by (cases "hm_get ?m c") auto
  qed
  then show ?thesis by (simp add: timer_claim_expired_def timer_get_def split_def Let_def)
qed

lemma timer_claim_inv:
  assumes "timer_inv r"
  shows "timer_inv (snd (timer_claim_expired now r))"
proof -
  let ?r = "snd (timer_claim_expired now r)"
  have old: "\<exists>t. hm_get (tr_by_call r) c = Some t \<and> nt_id t' = nt_id t \<and> nt_call_id t' = nt_call_id t"
    if "hm_get (tr_by_call ?r) c = Some t'" for c t'
    using that timer_claim_get [OF assms, of now c]
    by (cases "hm_get (tr_by_call r) c") (auto simp: timer_get_def)
  have "exclusive (\<lambda>t. {nt_id t}) (tr_by_call ?r)"
  proof (rule exclusive_pointwise)
    show "exclusive (\<lambda>t. {nt_id t}) (tr_by_call r)" using assms by (simp add: timer_inv_def)
    fix c t' assume "hm_get (tr_by_call ?r) c = Some t'"
    from old [OF this] show "\<exists>t. hm_get (tr_by_call r) c = Some t \<and> {nt_id t'} \<subseteq> {nt_id t}"
      by blast
  qed
  moreover have "hm_wf (tr_by_call ?r)"
    using assms timer_sweep.sweep_ok [of "tr_by_call r" "expired_timers now r"]
    by (simp add: timer_inv_def timer_claim_expired_def split_def Let_def)
  moreover have "tr_next_id ?r = tr_next_id r"
    by (simp add: timer_claim_expired_def split_def Let_def)
  ultimately show ?thesis
    using old timer_inv_get [OF assms] unfolding timer_inv_def by metis
qed

datatype timer_event =
    Schedule pbx_call_id instant forwarding_context forwarding_destination
  | CancelTimer pbx_call_id timer_id
  | CancelPending pbx_call_id timer_id
  | ClaimTimers instant
  | CommitTimer pbx_call_id timer_id
  | RollbackClaim pbx_call_id timer_id

fun timer_apply :: "timer_event \<Rightarrow> timer_registry \<Rightarrow> timer_registry" where
  "timer_apply (Schedule c deadline ctxt dest) r = snd (timer_schedule c deadline ctxt dest r)"
| "timer_apply (CancelTimer c i) r = snd (timer_cancel c i r)"
| "timer_apply (CancelPending c i) r = snd (timer_cancel_pending c i r)"
| "timer_apply (ClaimTimers now) r = snd (timer_claim_expired now r)"
| "timer_apply (CommitTimer c i) r = snd (timer_commit c i r)"
| "timer_apply (RollbackClaim c i) r = snd (timer_rollback_claim c i r)"

definition timer_run :: "timer_event list \<Rightarrow> timer_registry" where
  "timer_run evs = fold timer_apply evs timer_registry_default"

lemma timer_take_inv: "timer_inv r \<Longrightarrow> timer_inv (snd (timer_take phs c i r))"
  by (auto simp: timer_take_def timer_inv_remove split: option.split)

lemma timer_rollback_inv: "timer_inv r \<Longrightarrow> timer_inv (snd (timer_rollback_claim c i r))"
  by (auto simp: timer_rollback_claim_def timer_inv_get intro: timer_inv_replace split: option.split)

lemma timer_apply_inv: "timer_inv r \<Longrightarrow> timer_inv (timer_apply ev r)"
  by (cases ev) (auto simp: timer_inv_schedule timer_cancel_def timer_cancel_pending_def
      timer_commit_def timer_take_inv timer_claim_inv timer_rollback_inv)

lemma timer_run_inv: "timer_inv (timer_run evs)"
proof -
  have "timer_inv r \<Longrightarrow> timer_inv (fold timer_apply evs r)" for r
    by (induction evs arbitrary: r) (simp_all add: timer_apply_inv)
  then show ?thesis by (simp add: timer_run_def)
qed

lemma timer_claimed_ops:
  assumes "timer_get r c = Some t" and "nt_phase t = Claimed"
  shows "timer_cancel_pending c (nt_id t) r = (Inl Conflict, r)"
    and "\<exists>r2. timer_commit c (nt_id t) r = (Inr t, r2) \<and> timer_commit c i r2 = (Inl Conflict, r2)"
    and "\<exists>r2. timer_rollback_claim c (nt_id t) r = (Inr (), r2)
      \<and> timer_get r2 c = Some (t\<lparr>nt_phase := Pending\<rparr>)"
proof -
  show "timer_cancel_pending c (nt_id t) r = (Inl Conflict, r)"
    using assms by (simp add: timer_cancel_pending_def timer_take_def timer_get_def)
  have "timer_commit c (nt_id t) r = (Inr t, r\<lparr>tr_by_call := hm_remove c (tr_by_call r)\<rparr>)"
    using assms by (simp add: timer_commit_def timer_take_def timer_get_def)
  from this timer_commit_op.exactly_once [OF this]
  show "\<exists>r2. timer_commit c (nt_id t) r = (Inr t, r2) \<and> timer_commit c i r2 = (Inl Conflict, r2)"
    by blast
  show "\<exists>r2. timer_rollback_claim c (nt_id t) r = (Inr (), r2)
      \<and> timer_get r2 c = Some (t\<lparr>nt_phase := Pending\<rparr>)"
    using assms by (simp add: timer_rollback_claim_def timer_get_def)
qed

text \<open>
  C20. No-answer timers fire exactly once: a sweep claims exactly the pending timers
  whose deadline has passed, each once, in the order of deadline, identity and call, and a second
  sweep claims nothing. A claimed timer can no longer be cancelled as pending; its
  commit succeeds and every further commit for the call is refused; and rolling the
  claim back restores the timer as it was, for the next sweep.
\<close>

theorem no_answer_timers_fire_once:
  assumes "r = timer_run evs" and "timer_claim_expired now r = (ts, r')"
  shows "(\<exists>us. ts = map (\<lambda>t. t\<lparr>nt_phase := Claimed\<rparr>) us \<and> distinct us
        \<and> sorted (map (\<lambda>t. (nt_deadline t, nt_id t, nt_call_id t)) us)
        \<and> (\<forall>t. t \<in> set us \<longleftrightarrow> timer_get r (nt_call_id t) = Some t
              \<and> nt_phase t = Pending \<and> nt_deadline t \<le> now))
    \<and> fst (timer_claim_expired now r') = []
    \<and> (\<forall>t. t \<in> set ts \<longrightarrow>
         timer_get r' (nt_call_id t) = Some t
         \<and> timer_cancel_pending (nt_call_id t) (nt_id t) r' = (Inl Conflict, r')
         \<and> (\<exists>r2. timer_commit (nt_call_id t) (nt_id t) r' = (Inr t, r2)
               \<and> timer_commit (nt_call_id t) i r2 = (Inl Conflict, r2))
         \<and> (\<exists>r2. timer_rollback_claim (nt_call_id t) (nt_id t) r' = (Inr (), r2)
               \<and> timer_get r2 (nt_call_id t) = timer_get r (nt_call_id t)))"
proof -
  have inv: "timer_inv r" unfolding assms(1) by (rule timer_run_inv)
  have r': "r' = snd (timer_claim_expired now r)"
    and ts: "ts = map (\<lambda>t. t\<lparr>nt_phase := Claimed\<rparr>) (sorted_timers now r)"
    using assms(2) timer_claim_outcomes [OF inv, of now] by simp_all
  have inv': "timer_inv r'" unfolding r' by (rule timer_claim_inv [OF inv])
  note mem = set_sorted_timers [OF inv, of _ now, folded timer_get_def]
  have "t \<notin> set (sorted_timers now r')" for t
    using timer_claim_get [OF inv, of now "nt_call_id t", folded r'] set_sorted_timers [OF inv', of t now]
    by (auto simp: timer_get_def timer_expired_def split: if_splits)
  then have "sorted_timers now r' = []"
    by (cases "sorted_timers now r'") auto
  then have again: "fst (timer_claim_expired now r') = []"
    by (simp add: timer_claim_outcomes [OF inv'])
  have claimed: "timer_get r' (nt_call_id t) = Some t \<and> nt_phase t = Claimed
      \<and> timer_get r (nt_call_id t) = Some (t\<lparr>nt_phase := Pending\<rparr>)" if "t \<in> set ts" for t
  proof -
    from that ts obtain u where u: "u \<in> set (sorted_timers now r)" "t = u\<lparr>nt_phase := Claimed\<rparr>" by auto
    with mem [of u] have "timer_get r (nt_call_id u) = Some u" "timer_expired now u" by auto
    with u(2) timer_claim_get [OF inv, of now "nt_call_id u", folded r'] show ?thesis
      by (simp add: timer_expired_def)
  qed
  have ops: "timer_cancel_pending (nt_call_id t) (nt_id t) r' = (Inl Conflict, r')
      \<and> (\<exists>r2. timer_commit (nt_call_id t) (nt_id t) r' = (Inr t, r2)
            \<and> timer_commit (nt_call_id t) i r2 = (Inl Conflict, r2))
      \<and> (\<exists>r2. timer_rollback_claim (nt_call_id t) (nt_id t) r' = (Inr (), r2)
            \<and> timer_get r2 (nt_call_id t) = timer_get r (nt_call_id t))" if "t \<in> set ts" for t
    using claimed [OF that] timer_claimed_ops(1,3) [of r' "nt_call_id t" t]
      timer_claimed_ops(2) [of r' "nt_call_id t" t i] by auto
  have "sorted (map (\<lambda>t. (nt_deadline t, nt_id t, nt_call_id t)) (sorted_timers now r))"
    by (simp add: sorted_timers_def)
  moreover have "distinct (sorted_timers now r)"
    using expired_timers_distinct [OF inv, of now] by (auto simp: expired_timers_sorted comp_def distinct_map)
  ultimately have "\<exists>us. ts = map (\<lambda>t. t\<lparr>nt_phase := Claimed\<rparr>) us \<and> distinct us
        \<and> sorted (map (\<lambda>t. (nt_deadline t, nt_id t, nt_call_id t)) us)
        \<and> (\<forall>t. t \<in> set us \<longleftrightarrow> timer_get r (nt_call_id t) = Some t
              \<and> nt_phase t = Pending \<and> nt_deadline t \<le> now)"
    using ts mem unfolding timer_expired_def by blast
  with again claimed ops show ?thesis by blast
qed

section \<open>Witnesses\<close>

definition sample_timing :: entry_timing where
  "sample_timing = \<lparr>et_now = 10, et_first_digit_timeout = 20, et_interdigit_timeout = 5\<rparr>"

definition sample_begin :: forwarding_event where
  "sample_begin = Begin ''SEP1'' 1 7 All Pound sample_timing"

definition sample_entry :: forwarding_entry where
  "sample_entry =
     \<lparr>fe_id = 1, fe_device_id = ''SEP1'', fe_line_instance = 1, fe_call_id = 7, fe_kind = All,
      fe_phase = Collecting, fe_deadline = 30, fe_dial_terminator = Pound,
      fe_first_digit_timeout = 20, fe_interdigit_timeout = 5, fe_digits = []\<rparr>"

lemma sample_begin_run:
  "forwarding_run 1000 [sample_begin] = \<lparr>er_next_id = 1, er_by_device = [(''SEP1'', sample_entry)]\<rparr>"
  by code_simp

theorem forwarding_entries_consistent_witness:
  "entry_get (forwarding_run 1000 [sample_begin]) ''SEP1'' = Some sample_entry
   \<and> entry_for_call (forwarding_run 1000 [sample_begin]) 7 = Some sample_entry"
proof -
  have get: "entry_get (forwarding_run 1000 [sample_begin]) ''SEP1'' = Some sample_entry"
    by (simp add: sample_begin_run entry_get_def)
  moreover have "fe_call_id sample_entry = 7" by (simp add: sample_entry_def)
  ultimately show ?thesis
    using forwarding_entries_consistent [OF refl get] by metis
qed

theorem forwarding_claim_expired_exact_witness:
  "\<exists>xs r'. entry_claim_expired 40 (forwarding_run 1000 [sample_begin]) = (xs, r')
     \<and> xs = [ExpiryCancel sample_entry] \<and> entry_get r' ''SEP1'' = None"
proof -
  let ?r = "forwarding_run 1000 [sample_begin]"
  have run: "entry_claim_expired 40 ?r = ([ExpiryCancel sample_entry], \<lparr>er_next_id = 1, er_by_device = []\<rparr>)"
    unfolding sample_begin_run by code_simp
  from forwarding_claim_expired_exact [OF refl run] run show ?thesis
    by (simp add: sample_begin_run sample_entry_def entry_get_def after_expiry_def entry_expired_def)
qed

theorem committing_entry_protected_witness:
  "\<exists>e. entry_get (forwarding_run 1000 [sample_begin, InputDigit ''SEP1'' 1 (Number 5) 12,
            BeginCommit ''SEP1'' 1]) ''SEP1'' = Some e
     \<and> entry_get (fold (forwarding_apply 1000) [ClaimExpired 500, CancelCollection ''SEP1'' 1,
          Backspace ''SEP1'' 1 20] (forwarding_run 1000 [sample_begin,
            InputDigit ''SEP1'' 1 (Number 5) 12, BeginCommit ''SEP1'' 1])) ''SEP1'' = Some e"
proof -
  let ?r = "forwarding_run 1000 [sample_begin, InputDigit ''SEP1'' 1 (Number 5) 12, BeginCommit ''SEP1'' 1]"
  let ?e = "sample_entry\<lparr>fe_digits := [53], fe_deadline := 17, fe_phase := Committing\<rparr>"
  have get: "entry_get ?r ''SEP1'' = Some ?e" by code_simp
  have "\<forall>ev \<in> set [ClaimExpired 500, CancelCollection ''SEP1'' 1, Backspace ''SEP1'' 1 20].
      \<not> ends_commit ev ''SEP1'' (fe_id ?e)"
    by (simp add: ends_commit_def)
  from committing_entry_protected [OF refl get _ this refl] get show ?thesis by auto
qed

theorem forwarding_dial_commits_witness:
  "\<exists>r1. entry_begin 1000 ''SEP1'' 1 7 All Pound sample_timing (forwarding_run 1000 []) = (Inr sample_entry, r1)
     \<and> fst (registry_input_digit 1000 Pound 20 ''SEP1'' 1
          (dial 1000 [(Number 4, 12), (Star, 14)] ''SEP1'' 1 r1))
       = Inr (CommitDigits \<lparr>fc_entry_id = 1, fc_device_id = ''SEP1'', fc_line_instance = 1, fc_call_id = 7,
          fc_kind = All, fc_destination = ForwardingDestination (ascii ''4*'')\<rparr>)"
proof -
  let ?r1 = "\<lparr>er_next_id = 1, er_by_device = [(''SEP1'', sample_entry)]\<rparr>"
  have begin_ok: "entry_begin 1000 ''SEP1'' 1 7 All Pound sample_timing (forwarding_run 1000 [])
      = (Inr sample_entry, ?r1)"
    by code_simp
  have keys: "\<forall>(dg, now) \<in> set [(Number 4, 12), (Star, 14)]. dg \<noteq> Pound \<and> collected_char dg \<noteq> None
      \<and> now + et_interdigit_timeout sample_timing \<le> 1000"
    by (simp add: sample_timing_def)
  from forwarding_dial_commits [OF refl begin_ok keys, of 20] begin_ok show ?thesis
    by (simp add: sample_entry_def)
qed

definition sample_timer_events :: "timer_event list" where
  "sample_timer_events =
     [Schedule 9 50 (ForwardingContext (ascii ''from-sccp'')) (ForwardingDestination (ascii ''100''))]"

theorem no_answer_timers_fire_once_witness:
  "\<exists>t r'. timer_claim_expired 60 (timer_run sample_timer_events) = ([t], r')
     \<and> nt_call_id t = 9 \<and> timer_get r' 9 = Some t"
proof -
  let ?t = "\<lparr>nt_id = 1, nt_call_id = 9, nt_deadline = 50, nt_phase = Claimed,
      nt_context = ForwardingContext (ascii ''from-sccp''),
      nt_destination = ForwardingDestination (ascii ''100'')\<rparr>"
  have run: "timer_claim_expired 60 (timer_run sample_timer_events)
      = ([?t], \<lparr>tr_next_id = 1, tr_by_call = [(9, ?t)]\<rparr>)"
    by code_simp
  from no_answer_timers_fire_once [OF refl run] run show ?thesis by (simp add: timer_get_def)
qed

end
