(* ===== verification/Voicemail.thy ===== *)
theory Voicemail
  imports Rust_Text
begin

text \<open>
  Redirection of a call to voicemail, \<^verbatim>\<open>asterisk-module/src/call/voicemail.rs\<close>: the
  validated target, and the registry of transactions, each of which claims one handset
  call and one PBX call of its device until it is committed or cancelled.
\<close>

section \<open>Data\<close>

definition MAX_VOICEMAIL_CONTEXT_BYTES :: nat where "MAX_VOICEMAIL_CONTEXT_BYTES = 79"

definition MAX_DIAL_DESTINATION_BYTES :: nat where "MAX_DIAL_DESTINATION_BYTES = 79"

datatype voicemail_rejection = InvalidTarget | Conflict | InvalidPhase | IdentifierExhausted

datatype voicemail_context = VoicemailContext (voicemail_context_as_str: rust_str)

datatype voicemail_destination = VoicemailDestination (voicemail_destination_as_str: rust_str)

definition voicemail_context_new :: "rust_str \<Rightarrow> voicemail_rejection + voicemail_context" where
  "voicemail_context_new s =
     (let value = trim s in
      if value = [] \<or> text_len value > MAX_VOICEMAIL_CONTEXT_BYTES \<or> list_ex is_control value
      then Inl InvalidTarget
      else Inr (VoicemailContext value))"

definition voicemail_destination_new :: "rust_str \<Rightarrow> voicemail_rejection + voicemail_destination" where
  "voicemail_destination_new s =
     (let value = trim s in
      if value = [] \<or> text_len value > MAX_DIAL_DESTINATION_BYTES \<or> list_ex is_control value
      then Inl InvalidTarget
      else Inr (VoicemailDestination value))"

type_synonym voicemail_transaction_id = u64

datatype voicemail_action = ImmediateDivert | TransferSelected

datatype voicemail_phase = Claimed | Executing

record voicemail_target =
  vt_context :: voicemail_context
  vt_destination :: voicemail_destination

definition voicemail_target_new ::
  "rust_str \<Rightarrow> rust_str \<Rightarrow> voicemail_rejection + voicemail_target"
where
  "voicemail_target_new ctxt dest =
     (case voicemail_context_new ctxt of
        Inl e \<Rightarrow> Inl e
      | Inr c \<Rightarrow>
          (case voicemail_destination_new dest of
             Inl e \<Rightarrow> Inl e
           | Inr d \<Rightarrow> Inr \<lparr>vt_context = c, vt_destination = d\<rparr>))"

record voicemail_transaction =
  vm_id :: voicemail_transaction_id
  vm_device_id :: device_id
  vm_handset_call_id :: call_id
  vm_pbx_call_id :: pbx_call_id
  vm_action :: voicemail_action
  vm_phase :: voicemail_phase
  vm_target :: voicemail_target

record voicemail_operation =
  vo_transaction_id :: voicemail_transaction_id
  vo_device_id :: device_id
  vo_handset_call_id :: call_id
  vo_pbx_call_id :: pbx_call_id
  vo_action :: voicemail_action
  vo_target :: voicemail_target

record voicemail_registry =
  vr_next_id :: u64
  vr_by_device :: "(device_id, voicemail_transaction) hash_map"

section \<open>Operations\<close>

type_synonym 'a voicemail_result = "(voicemail_rejection + 'a) \<times> voicemail_registry"

definition voicemail_registry_default :: voicemail_registry where
  "voicemail_registry_default = \<lparr>vr_next_id = 0, vr_by_device = []\<rparr>"

definition voicemail_claim ::
  "device_id \<Rightarrow> call_id \<Rightarrow> pbx_call_id \<Rightarrow> voicemail_action \<Rightarrow> voicemail_target \<Rightarrow> voicemail_registry
     \<Rightarrow> voicemail_transaction voicemail_result"
where
  "voicemail_claim d call pbx action target r =
     (if hm_contains (vr_by_device r) d
         \<or> list_ex (\<lambda>t. vm_handset_call_id t = call \<or> vm_pbx_call_id t = pbx) (hm_values (vr_by_device r))
      then (Inl Conflict, r)
      else
        case checked_succ (vr_next_id r) of
          None \<Rightarrow> (Inl IdentifierExhausted, r)
        | Some i \<Rightarrow>
            let t = \<lparr>vm_id = i, vm_device_id = d, vm_handset_call_id = call, vm_pbx_call_id = pbx,
                     vm_action = action, vm_phase = Claimed, vm_target = target\<rparr>
            in (Inr t, \<lparr>vr_next_id = i, vr_by_device = hm_insert d t (vr_by_device r)\<rparr>))"

definition voicemail_get :: "voicemail_registry \<Rightarrow> device_id \<Rightarrow> voicemail_transaction option" where
  "voicemail_get r d = hm_get (vr_by_device r) d"

definition voicemail_for_pbx :: "voicemail_registry \<Rightarrow> pbx_call_id \<Rightarrow> voicemail_transaction option" where
  "voicemail_for_pbx r pbx = find (\<lambda>t. vm_pbx_call_id t = pbx) (hm_values (vr_by_device r))"

definition voicemail_transactions :: "voicemail_registry \<Rightarrow> voicemail_transaction list" where
  "voicemail_transactions r = hm_values (vr_by_device r)"

text \<open>\<open>exact_mut\<close>: the transaction of a device, if it has the given identity.\<close>

definition voicemail_exact ::
  "voicemail_registry \<Rightarrow> device_id \<Rightarrow> voicemail_transaction_id
     \<Rightarrow> voicemail_rejection + voicemail_transaction"
where
  "voicemail_exact r d i =
     (case hm_get (vr_by_device r) d of
        None \<Rightarrow> Inl Conflict
      | Some t \<Rightarrow> if vm_id t = i then Inr t else Inl Conflict)"

definition voicemail_begin_execution ::
  "device_id \<Rightarrow> voicemail_transaction_id \<Rightarrow> voicemail_registry \<Rightarrow> voicemail_operation voicemail_result"
where
  "voicemail_begin_execution d i r =
     (case voicemail_exact r d i of
        Inl e \<Rightarrow> (Inl e, r)
      | Inr t \<Rightarrow>
          if vm_phase t \<noteq> Claimed then (Inl InvalidPhase, r)
          else (Inr \<lparr>vo_transaction_id = vm_id t, vo_device_id = vm_device_id t,
                     vo_handset_call_id = vm_handset_call_id t, vo_pbx_call_id = vm_pbx_call_id t,
                     vo_action = vm_action t, vo_target = vm_target t\<rparr>,
                r\<lparr>vr_by_device := hm_insert d (t\<lparr>vm_phase := Executing\<rparr>) (vr_by_device r)\<rparr>))"

text \<open>
  The removals look the transaction up again behind their guard; \<open>expect\<close> would panic
  if it were gone, which the guard excludes.
\<close>

definition voicemail_commit ::
  "device_id \<Rightarrow> voicemail_transaction_id \<Rightarrow> voicemail_registry \<Rightarrow> voicemail_transaction voicemail_result"
where
  "voicemail_commit d i r =
     (case hm_get (vr_by_device r) d of
        None \<Rightarrow> (Inl Conflict, r)
      | Some t \<Rightarrow>
          if vm_id t \<noteq> i \<or> vm_phase t \<noteq> Executing then (Inl Conflict, r)
          else (Inr t, r\<lparr>vr_by_device := hm_remove d (vr_by_device r)\<rparr>))"

definition voicemail_cancel ::
  "device_id \<Rightarrow> voicemail_transaction_id \<Rightarrow> voicemail_registry \<Rightarrow> voicemail_transaction voicemail_result"
where
  "voicemail_cancel d i r =
     (case hm_get (vr_by_device r) d of
        None \<Rightarrow> (Inl Conflict, r)
      | Some t \<Rightarrow>
          if vm_id t \<noteq> i then (Inl Conflict, r)
          else (Inr t, r\<lparr>vr_by_device := hm_remove d (vr_by_device r)\<rparr>))"

definition voicemail_cancel_for_pbx ::
  "pbx_call_id \<Rightarrow> voicemail_registry \<Rightarrow> voicemail_transaction voicemail_result"
where
  "voicemail_cancel_for_pbx pbx r =
     (case find (\<lambda>t. vm_pbx_call_id t = pbx) (hm_values (vr_by_device r)) of
        None \<Rightarrow> (Inl Conflict, r)
      | Some t \<Rightarrow> voicemail_cancel (vm_device_id t) (vm_id t) r)"

section \<open>Contracts of the guarded operations\<close>

lemmas voicemail_defs = voicemail_get_def voicemail_exact_def voicemail_begin_execution_def
  voicemail_commit_def voicemail_cancel_def

interpretation execution_op: guarded_operation voicemail_get vm_id voicemail_begin_execution Conflict
  by unfold_locales (auto simp: voicemail_defs split: option.splits)

interpretation voicemail_commit_op: terminal_operation voicemail_get vm_id voicemail_commit Conflict
  by unfold_locales (auto simp: voicemail_defs split: option.splits if_splits)

interpretation voicemail_cancel_op: terminal_operation voicemail_get vm_id voicemail_cancel Conflict
  by unfold_locales (auto simp: voicemail_defs split: option.splits if_splits)

section \<open>Invariant\<close>

datatype voicemail_claim_key = HandsetCall call_id | PbxCall pbx_call_id | Transaction u64

definition voicemail_claims :: "voicemail_transaction \<Rightarrow> voicemail_claim_key set" where
  "voicemail_claims t =
     {HandsetCall (vm_handset_call_id t), PbxCall (vm_pbx_call_id t), Transaction (vm_id t)}"

definition voicemail_inv :: "voicemail_registry \<Rightarrow> bool" where
  "voicemail_inv r \<longleftrightarrow>
     hm_wf (vr_by_device r) \<and> exclusive voicemail_claims (vr_by_device r)
     \<and> (\<forall>d t. hm_get (vr_by_device r) d = Some t \<longrightarrow> vm_device_id t = d \<and> vm_id t \<le> vr_next_id r)"

lemma voicemail_inv_get:
  assumes "voicemail_inv r" and "hm_get (vr_by_device r) d = Some t"
  shows "vm_device_id t = d" and "vm_id t \<le> vr_next_id r"
  using assms unfolding voicemail_inv_def by blast+

lemma voicemail_inv_claim:
  assumes "voicemail_inv r"
  shows "voicemail_inv (snd (voicemail_claim d call pbx action target r))"
proof (cases "fst (voicemail_claim d call pbx action target r)")
  case (Inl e)
  with assms show ?thesis by (auto simp: voicemail_claim_def Let_def split: if_splits option.splits)
next
  case (Inr t)
  then obtain i where i: "checked_succ (vr_next_id r) = Some i"
    and r': "snd (voicemail_claim d call pbx action target r) =
      \<lparr>vr_next_id = i, vr_by_device = hm_insert d t (vr_by_device r)\<rparr>"
    and t: "vm_id t = i" "vm_device_id t = d" "vm_handset_call_id t = call" "vm_pbx_call_id t = pbx"
    and fresh: "\<not> list_ex (\<lambda>t. vm_handset_call_id t = call \<or> vm_pbx_call_id t = pbx)
        (hm_values (vr_by_device r))"
    by (auto simp: voicemail_claim_def Let_def split: if_splits option.splits)
  have "exclusive voicemail_claims (hm_insert d t (vr_by_device r))"
  proof (rule exclusive_insert)
    show "exclusive voicemail_claims (vr_by_device r)" using assms by (simp add: voicemail_inv_def)
    fix d' v assume v: "hm_get (vr_by_device r) d' = Some v"
    with fresh hm_get_in_values [OF v] checked_succ_fresh [OF i voicemail_inv_get(2) [OF assms v]] t
    show "voicemail_claims t \<inter> voicemail_claims v = {}"
      by (auto simp: voicemail_claims_def list_ex_iff)
  qed
  with assms t i show ?thesis
    unfolding r' by (auto simp: voicemail_inv_def dest: checked_succ_upper)
qed

lemma voicemail_inv_remove:
  "voicemail_inv r \<Longrightarrow> voicemail_inv (r\<lparr>vr_by_device := hm_remove d (vr_by_device r)\<rparr>)"
  by (auto simp: voicemail_inv_def split: if_splits)

lemma voicemail_inv_execution:
  assumes "voicemail_inv r"
  shows "voicemail_inv (snd (voicemail_begin_execution d i r))"
proof (cases "hm_get (vr_by_device r) d")
  case (Some t)
  have "exclusive voicemail_claims (hm_insert d (t\<lparr>vm_phase := Executing\<rparr>) (vr_by_device r))"
    using assms Some
    by (intro exclusive_replace [of _ _ _ t]) (auto simp: voicemail_inv_def voicemail_claims_def)
  with assms Some voicemail_inv_get [OF assms Some] show ?thesis
    by (auto simp: voicemail_defs voicemail_inv_def)
qed (simp add: voicemail_defs assms)

datatype voicemail_event =
    Claim device_id call_id pbx_call_id voicemail_action voicemail_target
  | BeginExecution device_id voicemail_transaction_id
  | Commit device_id voicemail_transaction_id
  | Cancel device_id voicemail_transaction_id
  | CancelForPbx pbx_call_id

fun voicemail_apply :: "voicemail_event \<Rightarrow> voicemail_registry \<Rightarrow> voicemail_registry" where
  "voicemail_apply (Claim d call pbx action target) r = snd (voicemail_claim d call pbx action target r)"
| "voicemail_apply (BeginExecution d i) r = snd (voicemail_begin_execution d i r)"
| "voicemail_apply (Commit d i) r = snd (voicemail_commit d i r)"
| "voicemail_apply (Cancel d i) r = snd (voicemail_cancel d i r)"
| "voicemail_apply (CancelForPbx pbx) r = snd (voicemail_cancel_for_pbx pbx r)"

definition voicemail_run :: "voicemail_event list \<Rightarrow> voicemail_registry" where
  "voicemail_run evs = fold voicemail_apply evs voicemail_registry_default"

lemma voicemail_cancel_inv: "voicemail_inv r \<Longrightarrow> voicemail_inv (snd (voicemail_cancel d i r))"
  by (auto simp: voicemail_cancel_def voicemail_inv_remove split: option.split)

lemma voicemail_apply_inv: "voicemail_inv r \<Longrightarrow> voicemail_inv (voicemail_apply ev r)"
  by (cases ev)
    (auto simp: voicemail_inv_claim voicemail_inv_execution voicemail_cancel_inv voicemail_inv_remove
      voicemail_commit_def voicemail_cancel_for_pbx_def split: option.split)

lemma voicemail_run_inv: "voicemail_inv (voicemail_run evs)"
proof -
  have "voicemail_inv r \<Longrightarrow> voicemail_inv (fold voicemail_apply evs r)" for r
    by (induction evs arbitrary: r) (simp_all add: voicemail_apply_inv)
  moreover have "voicemail_inv voicemail_registry_default"
    by (simp add: voicemail_inv_def voicemail_registry_default_def)
  ultimately show ?thesis by (simp add: voicemail_run_def)
qed

lemma voicemail_for_pbx_iff:
  assumes "voicemail_inv r"
  shows "voicemail_for_pbx r pbx = Some t \<longleftrightarrow>
    voicemail_get r (vm_device_id t) = Some t \<and> vm_pbx_call_id t = pbx"
proof -
  have "voicemail_for_pbx r pbx = find (\<lambda>t. PbxCall pbx \<in> voicemail_claims t) (hm_values (vr_by_device r))"
    by (simp add: voicemail_for_pbx_def voicemail_claims_def eq_commute)
  also have "\<dots> = Some t \<longleftrightarrow> (\<exists>d. hm_get (vr_by_device r) d = Some t \<and> PbxCall pbx \<in> voicemail_claims t)"
    using assms by (intro exclusive_find_iff) (simp_all add: voicemail_inv_def)
  finally show ?thesis
    using voicemail_inv_get(1) [OF assms] by (auto simp: voicemail_get_def voicemail_claims_def)
qed

section \<open>Properties\<close>

text \<open>
  C21. Whatever the history of the registry, a handset call, a PBX call and an identity
  each belong to at most one transaction; a transaction is found under its device and
  by its PBX call; and the hangup of that PBX call cancels exactly this transaction
  and leaves the transactions of other devices alone.
\<close>

theorem voicemail_calls_exclusive:
  assumes "r = voicemail_run evs" and "voicemail_get r d = Some t"
  shows "vm_device_id t = d \<and> voicemail_for_pbx r (vm_pbx_call_id t) = Some t
    \<and> (\<forall>d' t'. voicemail_get r d' = Some t' \<longrightarrow>
         vm_handset_call_id t' = vm_handset_call_id t \<or> vm_pbx_call_id t' = vm_pbx_call_id t
         \<or> vm_id t' = vm_id t \<longrightarrow> d' = d)
    \<and> (\<exists>r'. voicemail_cancel_for_pbx (vm_pbx_call_id t) r = (Inr t, r')
         \<and> (\<forall>d'. voicemail_get r' d' = (if d' = d then None else voicemail_get r d')))"
proof -
  have inv: "voicemail_inv r" unfolding assms(1) by (rule voicemail_run_inv)
  have t: "hm_get (vr_by_device r) d = Some t" using assms(2) by (simp add: voicemail_get_def)
  have dev: "vm_device_id t = d" by (rule voicemail_inv_get(1) [OF inv t])
  have found: "voicemail_for_pbx r (vm_pbx_call_id t) = Some t"
    using voicemail_for_pbx_iff [OF inv] assms(2) dev by simp
  have "d' = d" if "voicemail_get r d' = Some t'" "vm_handset_call_id t' = vm_handset_call_id t
      \<or> vm_pbx_call_id t' = vm_pbx_call_id t \<or> vm_id t' = vm_id t" for d' t'
  proof -
    from that(2) have "voicemail_claims t' \<inter> voicemail_claims t \<noteq> {}" by (auto simp: voicemail_claims_def)
    with that(1) t inv show ?thesis
      unfolding voicemail_inv_def voicemail_get_def exclusive_def by blast
  qed
  moreover have "voicemail_cancel_for_pbx (vm_pbx_call_id t) r =
      (Inr t, r\<lparr>vr_by_device := hm_remove d (vr_by_device r)\<rparr>)"
    using found t dev
    by (simp add: voicemail_cancel_for_pbx_def voicemail_for_pbx_def voicemail_cancel_def)
  ultimately show ?thesis
    using dev found by (auto simp: voicemail_get_def)
qed

text \<open>
  C22. A claimed redirect is executed at most once: while it is current,
  \<open>begin_execution\<close> hands out the operation with the claimed calls and target, a second
  attempt fails with \<open>InvalidPhase\<close> and changes nothing; a commit before the execution
  is refused; the commit after it ends the transaction, and further commits for
  the device are refused whatever identity they carry.
\<close>

theorem voicemail_executes_once:
  assumes "voicemail_claim d call pbx action target r = (Inr t, r1)"
  shows "voicemail_commit d (vm_id t) r1 = (Inl Conflict, r1)
    \<and> (\<exists>op r2. voicemail_begin_execution d (vm_id t) r1 = (Inr op, r2)
        \<and> vo_handset_call_id op = call \<and> vo_pbx_call_id op = pbx \<and> vo_action op = action
        \<and> vo_target op = target \<and> vo_transaction_id op = vm_id t
        \<and> voicemail_begin_execution d (vm_id t) r2 = (Inl InvalidPhase, r2)
        \<and> (\<exists>r3. voicemail_commit d (vm_id t) r2 = (Inr (t\<lparr>vm_phase := Executing\<rparr>), r3)
            \<and> fold (\<lambda>(d, i) r. snd (voicemail_commit d i r)) (map (Pair d) is) r3 = r3))"
proof -
  have get: "hm_get (vr_by_device r1) d = Some t" and t: "vm_phase t = Claimed"
    "vm_handset_call_id t = call" "vm_pbx_call_id t = pbx" "vm_action t = action" "vm_target t = target"
    using assms by (auto simp: voicemail_claim_def Let_def split: if_splits option.splits)
  let ?r2 = "r1\<lparr>vr_by_device := hm_insert d (t\<lparr>vm_phase := Executing\<rparr>) (vr_by_device r1)\<rparr>"
  let ?r3 = "?r2\<lparr>vr_by_device := hm_remove d (vr_by_device ?r2)\<rparr>"
  have commit: "voicemail_commit d (vm_id t) ?r2 = (Inr (t\<lparr>vm_phase := Executing\<rparr>), ?r3)"
    by (simp add: voicemail_commit_def)
  from voicemail_commit_op.retries_refused [OF this, of "is"] commit get t show ?thesis
    by (auto simp: voicemail_defs)
qed

section \<open>Witnesses\<close>

definition sample_target :: voicemail_target where
  "sample_target = \<lparr>vt_context = VoicemailContext (ascii ''vm''), vt_destination = VoicemailDestination (ascii ''8500'')\<rparr>"

definition sample_transaction :: voicemail_transaction where
  "sample_transaction = \<lparr>vm_id = 1, vm_device_id = ''SEP1'', vm_handset_call_id = 3, vm_pbx_call_id = 4,
     vm_action = ImmediateDivert, vm_phase = Claimed, vm_target = sample_target\<rparr>"

lemma sample_target_valid: "voicemail_target_new (ascii '' vm'') (ascii ''8500 '') = Inr sample_target"
  by code_simp

theorem voicemail_calls_exclusive_witness:
  "\<exists>r'. voicemail_cancel_for_pbx 4 (voicemail_run [Claim ''SEP1'' 3 4 ImmediateDivert sample_target])
     = (Inr sample_transaction, r') \<and> voicemail_get r' ''SEP1'' = None"
proof -
  have "voicemail_get (voicemail_run [Claim ''SEP1'' 3 4 ImmediateDivert sample_target]) ''SEP1''
      = Some sample_transaction"
    by code_simp
  from voicemail_calls_exclusive [OF refl this] show ?thesis by (auto simp: sample_transaction_def)
qed

theorem voicemail_executes_once_witness:
  "\<exists>r1 r2 op. voicemail_claim ''SEP1'' 3 4 ImmediateDivert sample_target voicemail_registry_default
     = (Inr sample_transaction, r1)
   \<and> voicemail_begin_execution ''SEP1'' 1 r1 = (Inr op, r2)
   \<and> voicemail_begin_execution ''SEP1'' 1 r2 = (Inl InvalidPhase, r2)"
proof -
  have claim: "voicemail_claim ''SEP1'' 3 4 ImmediateDivert sample_target voicemail_registry_default
      = (Inr sample_transaction, \<lparr>vr_next_id = 1, vr_by_device = [(''SEP1'', sample_transaction)]\<rparr>)"
    by code_simp
  have "vm_id sample_transaction = 1" by (simp add: sample_transaction_def)
  with voicemail_executes_once [OF claim] claim show ?thesis by metis
qed

end
