(* ===== verification/Mobility.thy ===== *)
theory Mobility
  imports Rust_Text "HOL-Library.Multiset" "HOL-Library.List_Lexorder" "HOL-Library.Char_ord"
begin

text \<open>
  Extension Mobility, \<^verbatim>\<open>asterisk-module/src/call/mobility.rs\<close>: logging a line in at a
  mobility button of a phone and out again. A change is prepared (it reserves the
  button slots and the line), written to the handsets, and then committed or aborted.
  Also here: the PIN comparison of \<^verbatim>\<open>config/model.rs\<close>, the login form, and the part of
  the adapter that drives one transaction, \<^verbatim>\<open>apply_mobility_transaction\<close>.

  The handset writer is a parameter, a function on a state of handsets.
\<close>

section \<open>Lines and appearances\<close>

record line_definition =
  ld_number :: rust_str
  ld_display_name :: rust_str

record caller_id_override =
  co_name :: "rust_str option"
  co_number :: "rust_str option"

datatype appearance_ring_mode = Normal | Silent | Disabled

text \<open>A tone is its wire value; \<open>Tone::InsideDial\<close> is \<open>0x21\<close>.\<close>

type_synonym tone = u32

definition InsideDial :: tone where "InsideDial = 0x21"

record line_appearance =
  la_id :: u32
  la_instance :: u32
  la_line :: line_definition
  la_label :: "rust_str option"
  la_caller_id :: caller_id_override
  la_ring_mode :: appearance_ring_mode
  la_initial_tone :: tone
  la_subscription_identity :: "rust_str option"
  la_privacy :: bool

record line_config =
  lc_number :: rust_str
  lc_label :: rust_str
  lc_context :: rust_str
  lc_caller_name :: rust_str
  lc_caller_number :: rust_str
  lc_mailbox :: "rust_str option"
  lc_language :: rust_str
  lc_account_code :: "rust_str option"
  lc_channel_variables :: "(rust_str \<times> rust_str) list"

record line_binding =
  lb_device_id :: device_id
  lb_line_instance :: u32
  lb_appearance :: line_appearance
  lb_line :: line_config

section \<open>The registry\<close>

datatype mobility_registry_error =
    InvalidButtonInstance | SlotOccupied | NotLoggedIn | TransactionInProgress
  | NoLineInstanceAvailable | TransactionIdExhausted | StaleTransaction

definition MAX_MOBILITY_LINE_INSTANCE :: nat where "MAX_MOBILITY_LINE_INSTANCE = 56"

record mobility_slot =
  ms_device_id :: device_id
  ms_button_instance :: u32

definition mobility_slot_new :: "device_id \<Rightarrow> u32 \<Rightarrow> mobility_registry_error + mobility_slot" where
  "mobility_slot_new d b =
     (if b = 0 then Inl InvalidButtonInstance
      else Inr \<lparr>ms_device_id = d, ms_button_instance = b\<rparr>)"

record roaming_appearance =
  ra_slot :: mobility_slot
  ra_binding :: line_binding

abbreviation ra_number :: "roaming_appearance \<Rightarrow> rust_str" where
  "ra_number a \<equiv> lc_number (lb_line (ra_binding a))"

record prepared_transaction =
  pt_id :: u64
  pt_previous :: "roaming_appearance option"
  pt_next :: "roaming_appearance option"

datatype mobility_preparation = Unchanged roaming_appearance | Transaction prepared_transaction

record mobility_registry =
  mr_next_transaction_id :: u64
  mr_by_slot :: "(mobility_slot, roaming_appearance) hash_map"
  mr_slot_by_line :: "(rust_str, mobility_slot) hash_map"
  mr_pending :: "(u64, prepared_transaction) hash_map"
  mr_reserved_slots :: "(mobility_slot, u64) hash_map"
  mr_reserved_lines :: "(rust_str, u64) hash_map"

type_synonym 'a mobility_result = "(mobility_registry_error + 'a) \<times> mobility_registry"

definition mobility_registry_new :: mobility_registry where
  "mobility_registry_new =
     \<lparr>mr_next_transaction_id = 0, mr_by_slot = [], mr_slot_by_line = [], mr_pending = [],
      mr_reserved_slots = [], mr_reserved_lines = []\<rparr>"

text \<open>\<open>by_slot\<close> is a \<open>BTreeMap\<close>: its values come in the order of device and button.\<close>

definition committed :: "mobility_registry \<Rightarrow> roaming_appearance list" where
  "committed r =
     map snd (sort_key (\<lambda>(s, _). (ms_device_id s, ms_button_instance s)) (mr_by_slot r))"

definition appearance_for_slot :: "mobility_registry \<Rightarrow> mobility_slot \<Rightarrow> roaming_appearance option" where
  "appearance_for_slot r s = hm_get (mr_by_slot r) s"

definition binding_for_device :: "mobility_registry \<Rightarrow> device_id \<Rightarrow> u32 \<Rightarrow> line_binding option" where
  "binding_for_device r d i =
     map_option ra_binding
       (find (\<lambda>a. ms_device_id (ra_slot a) = d \<and> lb_line_instance (ra_binding a) = i) (committed r))"

definition appearances_for_device :: "mobility_registry \<Rightarrow> device_id \<Rightarrow> roaming_appearance list" where
  "appearances_for_device r d = filter (\<lambda>a. ms_device_id (ra_slot a) = d) (committed r)"

definition appearances_for_line :: "mobility_registry \<Rightarrow> rust_str \<Rightarrow> roaming_appearance list" where
  "appearances_for_line r l =
     (case Option.bind (hm_get (mr_slot_by_line r) l) (hm_get (mr_by_slot r)) of
        None \<Rightarrow> []
      | Some a \<Rightarrow> [a])"

definition has_pending_transaction :: "mobility_registry \<Rightarrow> bool" where
  "has_pending_transaction r \<longleftrightarrow> mr_pending r \<noteq> []"

definition ensure_available ::
  "mobility_registry \<Rightarrow> mobility_slot \<Rightarrow> rust_str \<Rightarrow> mobility_slot option \<Rightarrow> bool"
where
  "ensure_available r s l prev =
     (\<not> (hm_contains (mr_reserved_slots r) s
         \<or> (case prev of None \<Rightarrow> False | Some p \<Rightarrow> hm_contains (mr_reserved_slots r) p)
         \<or> hm_contains (mr_reserved_lines r) l))"

text \<open>Insertion and removal of the reservations of one appearance, if there is one.\<close>

definition reserve_for ::
  "u64 \<Rightarrow> roaming_appearance option \<Rightarrow> mobility_registry \<Rightarrow> mobility_registry"
where
  "reserve_for i x r =
     (case x of
        None \<Rightarrow> r
      | Some a \<Rightarrow> r\<lparr>mr_reserved_slots := hm_insert (ra_slot a) i (mr_reserved_slots r),
                   mr_reserved_lines := hm_insert (ra_number a) i (mr_reserved_lines r)\<rparr>)"

definition release_for :: "roaming_appearance option \<Rightarrow> mobility_registry \<Rightarrow> mobility_registry" where
  "release_for x r =
     (case x of
        None \<Rightarrow> r
      | Some a \<Rightarrow> r\<lparr>mr_reserved_slots := hm_remove (ra_slot a) (mr_reserved_slots r),
                   mr_reserved_lines := hm_remove (ra_number a) (mr_reserved_lines r)\<rparr>)"

definition mobility_reserve ::
  "roaming_appearance option \<Rightarrow> roaming_appearance option \<Rightarrow> mobility_registry
     \<Rightarrow> prepared_transaction mobility_result"
where
  "mobility_reserve prev nxt r =
     (case checked_succ (mr_next_transaction_id r) of
        None \<Rightarrow> (Inl TransactionIdExhausted, r)
      | Some i \<Rightarrow>
          let t = \<lparr>pt_id = i, pt_previous = prev, pt_next = nxt\<rparr>;
              r' = reserve_for i nxt (reserve_for i prev (r\<lparr>mr_next_transaction_id := i\<rparr>))
          in (Inr t, r'\<lparr>mr_pending := hm_insert i t (mr_pending r')\<rparr>))"

definition release_reservations :: "prepared_transaction \<Rightarrow> mobility_registry \<Rightarrow> mobility_registry" where
  "release_reservations t r = release_for (pt_next t) (release_for (pt_previous t) r)"

text \<open>The first line instance from 1 to 56 that is not occupied.\<close>

definition free_instance :: "u32 set \<Rightarrow> u32 option" where
  "free_instance occupied =
     find (\<lambda>i. i \<notin> occupied) (map of_nat [1..<Suc MAX_MOBILITY_LINE_INSTANCE])"

definition roaming_appearance_at :: "mobility_slot \<Rightarrow> line_config \<Rightarrow> u32 \<Rightarrow> roaming_appearance" where
  "roaming_appearance_at s line i =
     \<lparr>ra_slot = s,
      ra_binding =
        \<lparr>lb_device_id = ms_device_id s, lb_line_instance = i,
         lb_appearance =
           \<lparr>la_id = i, la_instance = i,
            la_line = \<lparr>ld_number = lc_number line, ld_display_name = lc_label line\<rparr>,
            la_label = None, la_caller_id = \<lparr>co_name = None, co_number = None\<rparr>,
            la_ring_mode = Normal, la_initial_tone = InsideDial,
            la_subscription_identity = None, la_privacy = False\<rparr>,
         lb_line = line\<rparr>\<rparr>"

definition prepare_login ::
  "mobility_slot \<Rightarrow> line_config \<Rightarrow> u32 list \<Rightarrow> mobility_registry \<Rightarrow> mobility_preparation mobility_result"
where
  "prepare_login s line configured r =
     (case hm_get (mr_by_slot r) s of
        Some existing \<Rightarrow>
          if ra_number existing = lc_number line then (Inr (Unchanged existing), r)
          else (Inl SlotOccupied, r)
      | None \<Rightarrow>
          let prev = Option.bind (hm_get (mr_slot_by_line r) (lc_number line)) (hm_get (mr_by_slot r)) in
          if \<not> ensure_available r s (lc_number line) (map_option ra_slot prev)
          then (Inl TransactionInProgress, r)
          else
            let occupied = set configured
              \<union> set (map (\<lambda>a. lb_line_instance (ra_binding a)) (appearances_for_device r (ms_device_id s)))
            in case free_instance occupied of
                 None \<Rightarrow> (Inl NoLineInstanceAvailable, r)
               | Some i \<Rightarrow>
                   (case mobility_reserve prev (Some (roaming_appearance_at s line i)) r of
                      (Inl e, r') \<Rightarrow> (Inl e, r')
                    | (Inr t, r') \<Rightarrow> (Inr (Transaction t), r')))"

definition prepare_logout ::
  "mobility_slot \<Rightarrow> mobility_registry \<Rightarrow> prepared_transaction mobility_result"
where
  "prepare_logout s r =
     (case hm_get (mr_by_slot r) s of
        None \<Rightarrow> (Inl NotLoggedIn, r)
      | Some a \<Rightarrow>
          if \<not> ensure_available r s (ra_number a) None then (Inl TransactionInProgress, r)
          else mobility_reserve (Some a) None r)"

text \<open>\<open>pending.get(&transaction.id)\<close> holds exactly this transaction.\<close>

definition still_pending :: "prepared_transaction \<Rightarrow> mobility_registry \<Rightarrow> bool" where
  "still_pending t r \<longleftrightarrow> hm_get (mr_pending r) (pt_id t) = Some t"

definition mobility_commit :: "prepared_transaction \<Rightarrow> mobility_registry \<Rightarrow> unit mobility_result" where
  "mobility_commit t r =
     (if \<not> still_pending t r then (Inl StaleTransaction, r)
      else
        let r1 = release_reservations t (r\<lparr>mr_pending := hm_remove (pt_id t) (mr_pending r)\<rparr>);
            r2 = (case pt_previous t of
                    None \<Rightarrow> r1
                  | Some a \<Rightarrow> r1\<lparr>mr_by_slot := hm_remove (ra_slot a) (mr_by_slot r1),
                                mr_slot_by_line := hm_remove (ra_number a) (mr_slot_by_line r1)\<rparr>);
            r3 = (case pt_next t of
                    None \<Rightarrow> r2
                  | Some b \<Rightarrow> r2\<lparr>mr_slot_by_line := hm_insert (ra_number b) (ra_slot b) (mr_slot_by_line r2),
                                mr_by_slot := hm_insert (ra_slot b) b (mr_by_slot r2)\<rparr>)
        in (Inr (), r3))"

definition mobility_abort :: "prepared_transaction \<Rightarrow> mobility_registry \<Rightarrow> unit mobility_result" where
  "mobility_abort t r =
     (if \<not> still_pending t r then (Inl StaleTransaction, r)
      else (Inr (), release_reservations t (r\<lparr>mr_pending := hm_remove (pt_id t) (mr_pending r)\<rparr>)))"

definition remove_invalid ::
  "(roaming_appearance \<Rightarrow> bool) \<Rightarrow> mobility_registry \<Rightarrow> roaming_appearance list mobility_result"
where
  "remove_invalid valid r =
     (if has_pending_transaction r then (Inl TransactionInProgress, r)
      else
        let invalid = filter (\<lambda>a. \<not> valid a) (committed r)
        in (Inr invalid,
            fold (\<lambda>a r. r\<lparr>mr_by_slot := hm_remove (ra_slot a) (mr_by_slot r),
                          mr_slot_by_line := hm_remove (ra_number a) (mr_slot_by_line r)\<rparr>) invalid r))"

section \<open>Invariant\<close>

definition txn_slots :: "prepared_transaction \<Rightarrow> mobility_slot set" where
  "txn_slots t = ra_slot ` (set_option (pt_previous t) \<union> set_option (pt_next t))"

definition txn_lines :: "prepared_transaction \<Rightarrow> rust_str set" where
  "txn_lines t = ra_number ` (set_option (pt_previous t) \<union> set_option (pt_next t))"

text \<open>
  A pending change still fits the committed state: what it removes is there, the
  button it installs on is free, and the line it installs is logged in exactly where
  the change takes it from.
\<close>

definition txn_fits :: "mobility_registry \<Rightarrow> prepared_transaction \<Rightarrow> bool" where
  "txn_fits r t \<longleftrightarrow>
     (\<forall>a. pt_previous t = Some a \<longrightarrow> hm_get (mr_by_slot r) (ra_slot a) = Some a)
     \<and> (\<forall>b. pt_next t = Some b \<longrightarrow> hm_get (mr_by_slot r) (ra_slot b) = None
          \<and> hm_get (mr_slot_by_line r) (ra_number b) = map_option ra_slot (pt_previous t))"

definition lines_ok :: "mobility_registry \<Rightarrow> bool" where
  "lines_ok r \<longleftrightarrow>
     (\<forall>s a. hm_get (mr_by_slot r) s = Some a \<longrightarrow>
        ra_slot a = s \<and> hm_get (mr_slot_by_line r) (ra_number a) = Some s)
     \<and> (\<forall>l s. hm_get (mr_slot_by_line r) l = Some s \<longrightarrow>
        (\<exists>a. hm_get (mr_by_slot r) s = Some a \<and> ra_number a = l))"

definition reservations_ok :: "mobility_registry \<Rightarrow> bool" where
  "reservations_ok r \<longleftrightarrow>
     (\<forall>i t. hm_get (mr_pending r) i = Some t \<longrightarrow> pt_id t = i \<and> i \<le> mr_next_transaction_id r)
     \<and> (\<forall>s i. hm_get (mr_reserved_slots r) s = Some i
          \<longleftrightarrow> (\<exists>t. hm_get (mr_pending r) i = Some t \<and> s \<in> txn_slots t))
     \<and> (\<forall>l i. hm_get (mr_reserved_lines r) l = Some i
          \<longleftrightarrow> (\<exists>t. hm_get (mr_pending r) i = Some t \<and> l \<in> txn_lines t))"

definition mobility_inv :: "mobility_registry \<Rightarrow> bool" where
  "mobility_inv r \<longleftrightarrow>
     hm_wf (mr_by_slot r) \<and> hm_wf (mr_pending r) \<and> lines_ok r \<and> reservations_ok r
     \<and> (\<forall>i t. hm_get (mr_pending r) i = Some t \<longrightarrow> txn_fits r t)"

lemma mobility_inv_new [simp]: "mobility_inv mobility_registry_new"
  by (simp add: mobility_inv_def mobility_registry_new_def lines_ok_def reservations_ok_def)

lemma release_for_simps [simp]:
  "mr_next_transaction_id (release_for x r) = mr_next_transaction_id r"
  "mr_by_slot (release_for x r) = mr_by_slot r"
  "mr_slot_by_line (release_for x r) = mr_slot_by_line r"
  "mr_pending (release_for x r) = mr_pending r"
  "hm_get (mr_reserved_slots (release_for x r)) s =
     (if s \<in> ra_slot ` set_option x then None else hm_get (mr_reserved_slots r) s)"
  "hm_get (mr_reserved_lines (release_for x r)) l =
     (if l \<in> ra_number ` set_option x then None else hm_get (mr_reserved_lines r) l)"
  by (auto simp: release_for_def split: option.splits)

lemma reserve_for_simps [simp]:
  "mr_next_transaction_id (reserve_for i x r) = mr_next_transaction_id r"
  "mr_by_slot (reserve_for i x r) = mr_by_slot r"
  "mr_slot_by_line (reserve_for i x r) = mr_slot_by_line r"
  "mr_pending (reserve_for i x r) = mr_pending r"
  "hm_get (mr_reserved_slots (reserve_for i x r)) s =
     (if s \<in> ra_slot ` set_option x then Some i else hm_get (mr_reserved_slots r) s)"
  "hm_get (mr_reserved_lines (reserve_for i x r)) l =
     (if l \<in> ra_number ` set_option x then Some i else hm_get (mr_reserved_lines r) l)"
  by (auto simp: reserve_for_def split: option.splits)

lemma release_reservations_simps [simp]:
  "mr_next_transaction_id (release_reservations t r) = mr_next_transaction_id r"
  "mr_by_slot (release_reservations t r) = mr_by_slot r"
  "mr_slot_by_line (release_reservations t r) = mr_slot_by_line r"
  "mr_pending (release_reservations t r) = mr_pending r"
  "hm_get (mr_reserved_slots (release_reservations t r)) s =
     (if s \<in> txn_slots t then None else hm_get (mr_reserved_slots r) s)"
  "hm_get (mr_reserved_lines (release_reservations t r)) l =
     (if l \<in> txn_lines t then None else hm_get (mr_reserved_lines r) l)"
  by (auto simp: release_reservations_def txn_slots_def txn_lines_def)

lemma reservations_okD:
  assumes "reservations_ok r"
  shows "hm_get (mr_reserved_slots r) s = Some i
      \<longleftrightarrow> (\<exists>t. hm_get (mr_pending r) i = Some t \<and> s \<in> txn_slots t)"
    and "hm_get (mr_reserved_lines r) l = Some i
      \<longleftrightarrow> (\<exists>t. hm_get (mr_pending r) i = Some t \<and> l \<in> txn_lines t)"
  using assms by (simp_all add: reservations_ok_def)

text \<open>Different pending changes touch different buttons and different lines.\<close>

lemma pending_disjoint:
  assumes "reservations_ok r" and "hm_get (mr_pending r) i = Some t" and "hm_get (mr_pending r) j = Some u"
    and "i \<noteq> j"
  shows "txn_slots t \<inter> txn_slots u = {}" and "txn_lines t \<inter> txn_lines u = {}"
proof -
  have "i = j" if "s \<in> txn_slots t" "s \<in> txn_slots u" for s
    using that assms(2,3) reservations_okD(1) [OF assms(1), of s i]
      reservations_okD(1) [OF assms(1), of s j] by simp
  with assms(4) show "txn_slots t \<inter> txn_slots u = {}" by blast
  have "i = j" if "l \<in> txn_lines t" "l \<in> txn_lines u" for l
    using that assms(2,3) reservations_okD(2) [OF assms(1), of l i]
      reservations_okD(2) [OF assms(1), of l j] by simp
  with assms(4) show "txn_lines t \<inter> txn_lines u = {}" by blast
qed

lemma reservations_ok_release:
  assumes "reservations_ok r" and "still_pending t r"
  shows "reservations_ok (release_reservations t (r\<lparr>mr_pending := hm_remove (pt_id t) (mr_pending r)\<rparr>))"
    (is "reservations_ok ?r")
proof -
  have t: "hm_get (mr_pending r) (pt_id t) = Some t" using assms(2) by (simp add: still_pending_def)
  have slot: "hm_get (mr_reserved_slots ?r) s = Some i
      \<longleftrightarrow> (\<exists>u. hm_get (mr_pending ?r) i = Some u \<and> s \<in> txn_slots u)" for s i
  proof (cases "i = pt_id t")
    case True
    with reservations_okD(1) [OF assms(1), of s i] t show ?thesis by auto
  next
    case False
    have "s \<notin> txn_slots t" if "hm_get (mr_pending r) i = Some u" "s \<in> txn_slots u" for u
      using pending_disjoint(1) [OF assms(1) that(1) t False] that(2) by blast
    then show ?thesis
      using False reservations_okD(1) [OF assms(1), of s i]
      by (cases "s \<in> txn_slots t") (simp_all, blast?)
  qed
  have line: "hm_get (mr_reserved_lines ?r) l = Some i
      \<longleftrightarrow> (\<exists>u. hm_get (mr_pending ?r) i = Some u \<and> l \<in> txn_lines u)" for l i
  proof (cases "i = pt_id t")
    case True
    with reservations_okD(2) [OF assms(1), of l i] t show ?thesis by auto
  next
    case False
    have "l \<notin> txn_lines t" if "hm_get (mr_pending r) i = Some u" "l \<in> txn_lines u" for u
      using pending_disjoint(2) [OF assms(1) that(1) t False] that(2) by blast
    then show ?thesis
      using False reservations_okD(2) [OF assms(1), of l i]
      by (cases "l \<in> txn_lines t") (simp_all, blast?)
  qed
  have "\<forall>i u. hm_get (mr_pending ?r) i = Some u \<longrightarrow> pt_id u = i \<and> i \<le> mr_next_transaction_id ?r"
    using assms(1) by (simp add: reservations_ok_def)
  with slot line show ?thesis unfolding reservations_ok_def by blast
qed

lemma mobility_inv_abort: "mobility_inv r \<Longrightarrow> mobility_inv (snd (mobility_abort t r))"
  using reservations_ok_release [of r t]
  by (auto simp: mobility_abort_def mobility_inv_def lines_ok_def txn_fits_def)

lemma reservations_ok_reserve:
  assumes "reservations_ok r" and "checked_succ (mr_next_transaction_id r) = Some i"
    and "\<And>s. s \<in> txn_slots \<lparr>pt_id = i, pt_previous = prev, pt_next = nxt\<rparr>
      \<Longrightarrow> \<not> hm_contains (mr_reserved_slots r) s"
    and "\<And>l. l \<in> txn_lines \<lparr>pt_id = i, pt_previous = prev, pt_next = nxt\<rparr>
      \<Longrightarrow> \<not> hm_contains (mr_reserved_lines r) l"
  shows "reservations_ok (snd (mobility_reserve prev nxt r))"
proof -
  let ?t = "\<lparr>pt_id = i, pt_previous = prev, pt_next = nxt\<rparr>" and ?r = "snd (mobility_reserve prev nxt r)"
  have pend: "hm_get (mr_pending ?r) j = (if j = i then Some ?t else hm_get (mr_pending r) j)" for j
    using assms(2) by (simp add: mobility_reserve_def Let_def)
  have nid: "mr_next_transaction_id ?r = i"
    using assms(2) by (simp add: mobility_reserve_def Let_def)
  have slots: "hm_get (mr_reserved_slots ?r) s =
      (if s \<in> txn_slots ?t then Some i else hm_get (mr_reserved_slots r) s)" for s
    using assms(2) by (auto simp: mobility_reserve_def Let_def txn_slots_def)
  have lines: "hm_get (mr_reserved_lines ?r) l =
      (if l \<in> txn_lines ?t then Some i else hm_get (mr_reserved_lines r) l)" for l
    using assms(2) by (auto simp: mobility_reserve_def Let_def txn_lines_def)
  have fresh: "hm_get (mr_pending r) i = None"
    using assms(1) checked_succ_fresh [OF assms(2)] unfolding reservations_ok_def by (metis not_Some_eq)
  have "\<forall>j u. hm_get (mr_pending ?r) j = Some u \<longrightarrow> pt_id u = j \<and> j \<le> mr_next_transaction_id ?r"
    using assms(1) checked_succ_upper [OF assms(2)] unfolding pend nid by (auto simp: reservations_ok_def)
  moreover have "hm_get (mr_reserved_slots ?r) s = Some j
      \<longleftrightarrow> (\<exists>u. hm_get (mr_pending ?r) j = Some u \<and> s \<in> txn_slots u)" for s j
    using reservations_okD(1) [OF assms(1), of s j] assms(3) [of s] fresh unfolding pend slots
    by (auto simp: hm_contains_def)
  moreover have "hm_get (mr_reserved_lines ?r) l = Some j
      \<longleftrightarrow> (\<exists>u. hm_get (mr_pending ?r) j = Some u \<and> l \<in> txn_lines u)" for l j
    using reservations_okD(2) [OF assms(1), of l j] assms(4) [of l] fresh unfolding pend lines
    by (auto simp: hm_contains_def)
  ultimately show ?thesis unfolding reservations_ok_def by blast
qed

lemma mobility_reserve_fields:
  "mr_by_slot (snd (mobility_reserve prev nxt r)) = mr_by_slot r"
  "mr_slot_by_line (snd (mobility_reserve prev nxt r)) = mr_slot_by_line r"
  by (simp_all add: mobility_reserve_def Let_def split: option.split)

lemma mobility_inv_reserve:
  assumes "mobility_inv r"
    and "\<And>i. txn_fits r \<lparr>pt_id = i, pt_previous = prev, pt_next = nxt\<rparr>"
    and "\<And>i s. s \<in> txn_slots \<lparr>pt_id = i, pt_previous = prev, pt_next = nxt\<rparr>
      \<Longrightarrow> \<not> hm_contains (mr_reserved_slots r) s"
    and "\<And>i l. l \<in> txn_lines \<lparr>pt_id = i, pt_previous = prev, pt_next = nxt\<rparr>
      \<Longrightarrow> \<not> hm_contains (mr_reserved_lines r) l"
  shows "mobility_inv (snd (mobility_reserve prev nxt r))"
proof (cases "checked_succ (mr_next_transaction_id r)")
  case None
  with assms(1) show ?thesis by (simp add: mobility_reserve_def)
next
  case (Some i)
  let ?r = "snd (mobility_reserve prev nxt r)"
  have "reservations_ok ?r"
    by (rule reservations_ok_reserve [OF _ Some]) (use assms in \<open>auto simp: mobility_inv_def\<close>)
  moreover have "lines_ok ?r"
    using assms(1) by (simp add: mobility_inv_def lines_ok_def mobility_reserve_fields)
  moreover have "hm_wf (mr_pending ?r)"
    using assms(1) Some by (simp add: mobility_inv_def mobility_reserve_def Let_def)
  moreover have "txn_fits ?r u \<longleftrightarrow> txn_fits r u" for u
    by (simp add: txn_fits_def mobility_reserve_fields)
  moreover have "hm_get (mr_pending ?r) j = (if j = i then Some \<lparr>pt_id = i, pt_previous = prev, pt_next = nxt\<rparr>
      else hm_get (mr_pending r) j)" for j
    using Some by (simp add: mobility_reserve_def Let_def)
  ultimately show ?thesis
    using assms(1,2) by (auto simp: mobility_inv_def mobility_reserve_fields)
qed

lemma lines_okD:
  assumes "lines_ok r"
  shows "hm_get (mr_by_slot r) s = Some a \<Longrightarrow> ra_slot a = s"
    and "hm_get (mr_by_slot r) s = Some a \<Longrightarrow> hm_get (mr_slot_by_line r) (ra_number a) = Some s"
    and "hm_get (mr_slot_by_line r) l = Some s \<Longrightarrow> \<exists>a. hm_get (mr_by_slot r) s = Some a \<and> ra_number a = l"
  using assms unfolding lines_ok_def by blast+

text \<open>Where a line is logged in, as \<open>prepare_login\<close> looks it up.\<close>

definition current_appearance :: "mobility_registry \<Rightarrow> rust_str \<Rightarrow> roaming_appearance option" where
  "current_appearance r l = Option.bind (hm_get (mr_slot_by_line r) l) (hm_get (mr_by_slot r))"

lemma current_appearance_iff:
  assumes "lines_ok r"
  shows "current_appearance r l = Some a \<longleftrightarrow> hm_get (mr_by_slot r) (ra_slot a) = Some a \<and> ra_number a = l"
proof
  assume "current_appearance r l = Some a"
  then obtain s where s: "hm_get (mr_slot_by_line r) l = Some s" "hm_get (mr_by_slot r) s = Some a"
    by (auto simp: current_appearance_def bind_eq_Some_conv)
  with lines_okD(3) [OF assms s(1)] lines_okD(1) [OF assms s(2)]
  show "hm_get (mr_by_slot r) (ra_slot a) = Some a \<and> ra_number a = l" by simp
next
  assume "hm_get (mr_by_slot r) (ra_slot a) = Some a \<and> ra_number a = l"
  with lines_okD(2) [OF assms, of "ra_slot a" a] show "current_appearance r l = Some a"
    by (simp add: current_appearance_def)
qed

lemma current_appearance_slot:
  assumes "lines_ok r"
  shows "map_option ra_slot (current_appearance r l) = hm_get (mr_slot_by_line r) l"
proof (cases "hm_get (mr_slot_by_line r) l")
  case (Some s)
  with lines_okD(3) [OF assms Some] lines_okD(1) [OF assms] show ?thesis
    by (auto simp: current_appearance_def)
qed (simp add: current_appearance_def)

lemma mobility_inv_login:
  assumes "mobility_inv r"
  shows "mobility_inv (snd (prepare_login s line configured r))"
proof -
  let ?prev = "current_appearance r (lc_number line)"
  have ok: "lines_ok r" using assms by (simp add: mobility_inv_def)
  have prev: "hm_get (mr_by_slot r) (ra_slot a) = Some a" "ra_number a = lc_number line"
    if "?prev = Some a" for a
    using that current_appearance_iff [OF ok] by blast+
  have "mobility_inv (snd (mobility_reserve ?prev (Some (roaming_appearance_at s line i)) r))"
    if "hm_get (mr_by_slot r) s = None" "ensure_available r s (lc_number line) (map_option ra_slot ?prev)" for i
  proof (rule mobility_inv_reserve [OF assms])
    fix j
    let ?t = "\<lparr>pt_id = j, pt_previous = ?prev, pt_next = Some (roaming_appearance_at s line i)\<rparr>"
    show "txn_fits r ?t"
      using that prev current_appearance_slot [OF ok, of "lc_number line"]
      by (auto simp: txn_fits_def roaming_appearance_at_def)
    show "\<not> hm_contains (mr_reserved_slots r) s'" if "s' \<in> txn_slots ?t" for s'
      using that \<open>ensure_available r s _ _\<close>
      by (auto simp: txn_slots_def roaming_appearance_at_def ensure_available_def)
    show "\<not> hm_contains (mr_reserved_lines r) l" if "l \<in> txn_lines ?t" for l
      using that \<open>ensure_available r s _ _\<close> prev
      by (auto simp: txn_lines_def roaming_appearance_at_def ensure_available_def)
  qed
  with assms show ?thesis
    by (auto simp: prepare_login_def Let_def current_appearance_def [symmetric]
        split: option.splits prod.splits sum.splits)
      (metis snd_conv)+
qed

lemma mobility_inv_logout:
  assumes "mobility_inv r"
  shows "mobility_inv (snd (prepare_logout s r))"
proof -
  have ok: "lines_ok r" using assms by (simp add: mobility_inv_def)
  have "mobility_inv (snd (mobility_reserve (Some a) None r))"
    if a: "hm_get (mr_by_slot r) s = Some a" and "ensure_available r s (ra_number a) None" for a
    using that lines_okD(1) [OF ok a]
    by (intro mobility_inv_reserve [OF assms])
      (auto simp: txn_fits_def txn_slots_def txn_lines_def ensure_available_def)
  with assms show ?thesis by (auto simp: prepare_logout_def split: option.split)
qed

section \<open>Commit\<close>

text \<open>The committed state after a change: what it removes is gone, what it installs is there.\<close>

definition after_change :: "prepared_transaction \<Rightarrow> mobility_registry \<Rightarrow> mobility_slot \<Rightarrow> roaming_appearance option" where
  "after_change t r s =
     (if \<exists>b. pt_next t = Some b \<and> ra_slot b = s then pt_next t
      else if \<exists>a. pt_previous t = Some a \<and> ra_slot a = s then None
      else hm_get (mr_by_slot r) s)"

lemma mobility_commit_get:
  assumes "still_pending t r" and "mobility_commit t r = (x, r')"
  shows "x = Inr ()" and "hm_get (mr_by_slot r') s = after_change t r s"
    and "hm_get (mr_slot_by_line r') l =
      (if \<exists>b. pt_next t = Some b \<and> ra_number b = l then map_option ra_slot (pt_next t)
       else if \<exists>a. pt_previous t = Some a \<and> ra_number a = l then None
       else hm_get (mr_slot_by_line r) l)"
    and "mr_pending r' = hm_remove (pt_id t) (mr_pending r)"
    and "mr_next_transaction_id r' = mr_next_transaction_id r"
  using assms by (auto simp: mobility_commit_def Let_def after_change_def split: option.split)

lemma mobility_commit_reservations:
  assumes "still_pending t r" and "mobility_commit t r = (x, r')" and "reservations_ok r"
  shows "reservations_ok r'"
proof -
  let ?r1 = "release_reservations t (r\<lparr>mr_pending := hm_remove (pt_id t) (mr_pending r)\<rparr>)"
  have "mr_pending r' = mr_pending ?r1" "mr_next_transaction_id r' = mr_next_transaction_id ?r1"
    "mr_reserved_slots r' = mr_reserved_slots ?r1" "mr_reserved_lines r' = mr_reserved_lines ?r1"
    using assms(1,2) by (auto simp: mobility_commit_def Let_def split: option.split)
  with reservations_ok_release [OF assms(3,1)] show ?thesis
    unfolding reservations_ok_def by presburger
qed

lemma mobility_commit_lines:
  assumes "mobility_inv r" and "still_pending t r" and "mobility_commit t r = (x, r')"
  shows "lines_ok r'"
proof -
  note by_slot = mobility_commit_get(2) [OF assms(2,3)]
  note by_line = mobility_commit_get(3) [OF assms(2,3)]
  have ok: "lines_ok r" and fits: "txn_fits r t"
    using assms(1,2) by (auto simp: mobility_inv_def still_pending_def)
  have prev: "hm_get (mr_by_slot r) (ra_slot a) = Some a" "hm_get (mr_slot_by_line r) (ra_number a) = Some (ra_slot a)"
    if "pt_previous t = Some a" for a
    using fits that lines_okD(2) [OF ok] by (auto simp: txn_fits_def)
  have nxt: "hm_get (mr_by_slot r) (ra_slot b) = None"
    "hm_get (mr_slot_by_line r) (ra_number b) = map_option ra_slot (pt_previous t)"
    if "pt_next t = Some b" for b
    using fits that by (auto simp: txn_fits_def)
  have "ra_slot c = s \<and> hm_get (mr_slot_by_line r') (ra_number c) = Some s"
    if c: "hm_get (mr_by_slot r') s = Some c" for s c
  proof (cases "\<exists>b. pt_next t = Some b \<and> ra_slot b = s")
    case True
    with c show ?thesis by (auto simp: by_slot after_change_def by_line)
  next
    case False
    with c have old: "hm_get (mr_by_slot r) s = Some c"
      and other: "\<And>a. pt_previous t = Some a \<Longrightarrow> ra_slot a \<noteq> s"
      by (auto simp: by_slot after_change_def split: if_splits)
    have slot: "ra_slot c = s" and line: "hm_get (mr_slot_by_line r) (ra_number c) = Some s"
      using lines_okD(1,2) [OF ok old] by auto
    have "ra_number b \<noteq> ra_number c" if "pt_next t = Some b" for b
      using nxt(2) [OF that] line other by (cases "pt_previous t") auto
    moreover have "ra_number a \<noteq> ra_number c" if "pt_previous t = Some a" for a
      using prev(2) [OF that] line other [OF that] by auto
    ultimately show ?thesis using slot line by (auto simp: by_line)
  qed
  moreover have "\<exists>c. hm_get (mr_by_slot r') s = Some c \<and> ra_number c = l"
    if l: "hm_get (mr_slot_by_line r') l = Some s" for l s
  proof (cases "\<exists>b. pt_next t = Some b \<and> ra_number b = l")
    case True
    with l show ?thesis by (auto simp: by_line by_slot after_change_def)
  next
    case False
    with l have old: "hm_get (mr_slot_by_line r) l = Some s"
      and other: "\<And>a. pt_previous t = Some a \<Longrightarrow> ra_number a \<noteq> l"
      by (auto simp: by_line split: if_splits)
    obtain c where c: "hm_get (mr_by_slot r) s = Some c" "ra_number c = l"
      using lines_okD(3) [OF ok old] by blast
    have "ra_slot b \<noteq> s" if "pt_next t = Some b" for b using nxt(1) [OF that] c(1) by auto
    moreover have "ra_slot a \<noteq> s" if "pt_previous t = Some a" for a
      using prev(1) [OF that] c other [OF that] by auto
    ultimately show ?thesis using c by (auto simp: by_slot after_change_def)
  qed
  ultimately show ?thesis unfolding lines_ok_def by blast
qed

lemma mobility_commit_fits:
  assumes "mobility_inv r" and "still_pending t r" and "mobility_commit t r = (x, r')"
    and "hm_get (mr_pending r') j = Some u"
  shows "txn_fits r' u"
proof -
  have u: "hm_get (mr_pending r) j = Some u" "j \<noteq> pt_id t"
    using assms(4) mobility_commit_get(4) [OF assms(2,3)] by (auto split: if_splits)
  have t: "hm_get (mr_pending r) (pt_id t) = Some t" using assms(2) by (simp add: still_pending_def)
  have res: "reservations_ok r" and fits: "txn_fits r u"
    using assms(1) u(1) by (auto simp: mobility_inv_def)
  have slot: "hm_get (mr_by_slot r') s = hm_get (mr_by_slot r) s" if "s \<in> txn_slots u" for s
    using that pending_disjoint(1) [OF res u(1) t u(2)] mobility_commit_get(2) [OF assms(2,3), of s]
    by (auto simp: after_change_def txn_slots_def)
  have line: "hm_get (mr_slot_by_line r') l = hm_get (mr_slot_by_line r) l" if "l \<in> txn_lines u" for l
    using that pending_disjoint(2) [OF res u(1) t u(2)] mobility_commit_get(3) [OF assms(2,3), of l]
    by (auto simp: txn_lines_def)
  show ?thesis
    unfolding txn_fits_def
  proof (intro conjI allI impI)
    show "hm_get (mr_by_slot r') (ra_slot a) = Some a" if "pt_previous u = Some a" for a
      using that fits by (subst slot) (auto simp: txn_fits_def txn_slots_def)
    show "hm_get (mr_by_slot r') (ra_slot b) = None" if "pt_next u = Some b" for b
      using that fits by (subst slot) (auto simp: txn_fits_def txn_slots_def)
    show "hm_get (mr_slot_by_line r') (ra_number b) = map_option ra_slot (pt_previous u)"
      if "pt_next u = Some b" for b
      using that fits by (subst line) (auto simp: txn_fits_def txn_lines_def)
  qed
qed

lemma mobility_inv_commit:
  assumes "mobility_inv r"
  shows "mobility_inv (snd (mobility_commit t r))"
proof (cases "still_pending t r")
  case True
  obtain x r' where c: "mobility_commit t r = (x, r')" by fastforce
  have "hm_wf (mr_by_slot r')"
    using c True assms by (auto simp: mobility_commit_def Let_def mobility_inv_def split: option.splits)
  moreover have "hm_wf (mr_pending r')"
    using mobility_commit_get(4) [OF True c] assms by (simp add: mobility_inv_def)
  ultimately show ?thesis
    using mobility_commit_lines [OF assms True c] mobility_commit_fits [OF assms True c]
      mobility_commit_reservations [OF True c] assms c
    by (auto simp: mobility_inv_def)
qed (simp add: mobility_commit_def assms)

section \<open>Reload\<close>

definition drop_appearance :: "roaming_appearance \<Rightarrow> mobility_registry \<Rightarrow> mobility_registry" where
  "drop_appearance a r =
     r\<lparr>mr_by_slot := hm_remove (ra_slot a) (mr_by_slot r),
       mr_slot_by_line := hm_remove (ra_number a) (mr_slot_by_line r)\<rparr>"

lemma lines_ok_drop:
  assumes "lines_ok r" and a: "hm_get (mr_by_slot r) (ra_slot a) = Some a"
  shows "lines_ok (drop_appearance a r)"
  unfolding lines_ok_def
proof (intro conjI allI impI)
  fix s c assume "hm_get (mr_by_slot (drop_appearance a r)) s = Some c"
  then have c: "hm_get (mr_by_slot r) s = Some c" "s \<noteq> ra_slot a"
    by (auto simp: drop_appearance_def split: if_splits)
  from lines_okD(1) [OF assms(1) c(1)] show "ra_slot c = s" .
  from lines_okD(2) [OF assms(1) c(1)] lines_okD(2) [OF assms] c(2)
  show "hm_get (mr_slot_by_line (drop_appearance a r)) (ra_number c) = Some s"
    by (auto simp: drop_appearance_def)
next
  fix l s assume "hm_get (mr_slot_by_line (drop_appearance a r)) l = Some s"
  then have l: "hm_get (mr_slot_by_line r) l = Some s" "l \<noteq> ra_number a"
    by (auto simp: drop_appearance_def split: if_splits)
  from lines_okD(3) [OF assms(1) l(1)] l(2) a
  show "\<exists>c. hm_get (mr_by_slot (drop_appearance a r)) s = Some c \<and> ra_number c = l"
    by (auto simp: drop_appearance_def)
qed

lemma set_committed:
  assumes "mobility_inv r"
  shows "a \<in> set (committed r) \<longleftrightarrow> hm_get (mr_by_slot r) (ra_slot a) = Some a"
proof -
  have wf: "hm_wf (mr_by_slot r)" and ok: "lines_ok r" using assms by (simp_all add: mobility_inv_def)
  have "a \<in> set (committed r) \<longleftrightarrow> a \<in> set (hm_values (mr_by_slot r))"
    by (simp add: committed_def hm_values_def)
  also have "\<dots> \<longleftrightarrow> (\<exists>s. hm_get (mr_by_slot r) s = Some a)" using wf by (rule hm_values_iff)
  also have "\<dots> \<longleftrightarrow> hm_get (mr_by_slot r) (ra_slot a) = Some a"
    using lines_okD(1) [OF ok, of _ a] by blast
  finally show ?thesis .
qed

lemma distinct_committed:
  assumes "mobility_inv r"
  shows "distinct (map ra_slot (committed r))"
proof -
  have "distinct (map ra_slot (hm_values (mr_by_slot r)))"
    using assms by (intro hm_values_keyed) (auto simp: mobility_inv_def dest: lines_okD(1))
  moreover have "mset (map ra_slot (committed r)) = mset (map ra_slot (hm_values (mr_by_slot r)))"
    by (simp add: committed_def hm_values_def)
  ultimately show ?thesis using mset_eq_imp_distinct_iff by blast
qed

lemma fold_drop:
  assumes "lines_ok r" and "\<And>a. a \<in> set xs \<Longrightarrow> hm_get (mr_by_slot r) (ra_slot a) = Some a"
    and "distinct (map ra_slot xs)"
  shows "lines_ok (fold drop_appearance xs r)
    \<and> (\<forall>s. hm_get (mr_by_slot (fold drop_appearance xs r)) s =
        (if s \<in> ra_slot ` set xs then None else hm_get (mr_by_slot r) s))"
  using assms
proof (induction xs arbitrary: r)
  case (Cons a xs)
  have "lines_ok (drop_appearance a r)" using Cons.prems by (intro lines_ok_drop) auto
  moreover have "hm_get (mr_by_slot (drop_appearance a r)) (ra_slot b) = Some b" if "b \<in> set xs" for b
  proof -
    from that Cons.prems(3) have "ra_slot b \<noteq> ra_slot a" by (auto simp: image_iff)
    with that Cons.prems(2) [of b] show ?thesis by (simp add: drop_appearance_def)
  qed
  ultimately show ?case
    using Cons.IH [of "drop_appearance a r"] Cons.prems(3) by (auto simp: drop_appearance_def)
qed simp

lemma remove_invalid_spec:
  assumes "mobility_inv r" and "\<not> has_pending_transaction r"
  shows "fst (remove_invalid valid r) = Inr (filter (\<lambda>a. \<not> valid a) (committed r))"
    and "mobility_inv (snd (remove_invalid valid r))"
    and "hm_get (mr_by_slot (snd (remove_invalid valid r))) s =
      (case hm_get (mr_by_slot r) s of None \<Rightarrow> None | Some a \<Rightarrow> if valid a then Some a else None)"
proof -
  let ?bad = "filter (\<lambda>a. \<not> valid a) (committed r)" and ?r = "snd (remove_invalid valid r)"
  have ok: "lines_ok r" using assms(1) by (simp add: mobility_inv_def)
  have r': "?r = fold drop_appearance ?bad r"
    using assms(2) by (simp add: remove_invalid_def drop_appearance_def [abs_def] Let_def)
  show "fst (remove_invalid valid r) = Inr ?bad" using assms(2) by (simp add: remove_invalid_def Let_def)
  have d: "lines_ok ?r \<and> (\<forall>s. hm_get (mr_by_slot ?r) s =
      (if s \<in> ra_slot ` set ?bad then None else hm_get (mr_by_slot r) s))"
    unfolding r'
    by (rule fold_drop [OF ok])
      (use set_committed [OF assms(1)] distinct_map_filter [OF distinct_committed [OF assms(1)]] in auto)
  have rest: "mr_pending (fold drop_appearance xs r) = mr_pending r
      \<and> mr_reserved_slots (fold drop_appearance xs r) = mr_reserved_slots r
      \<and> mr_reserved_lines (fold drop_appearance xs r) = mr_reserved_lines r
      \<and> mr_next_transaction_id (fold drop_appearance xs r) = mr_next_transaction_id r
      \<and> (hm_wf (mr_by_slot r) \<longrightarrow> hm_wf (mr_by_slot (fold drop_appearance xs r)))" for xs r
    by (induction xs arbitrary: r) (simp_all add: drop_appearance_def)
  have "mr_pending ?r = []" "mr_reserved_slots ?r = mr_reserved_slots r"
    "mr_reserved_lines ?r = mr_reserved_lines r" "hm_wf (mr_by_slot ?r)" "mr_pending r = []"
    using rest [of ?bad r] assms by (simp_all add: r' has_pending_transaction_def mobility_inv_def)
  with d assms(1) show "mobility_inv ?r"
    by (simp add: mobility_inv_def reservations_ok_def)
  show "hm_get (mr_by_slot ?r) s =
      (case hm_get (mr_by_slot r) s of None \<Rightarrow> None | Some a \<Rightarrow> if valid a then Some a else None)"
  proof (cases "hm_get (mr_by_slot r) s")
    case (Some a)
    have "ra_slot a = s" by (rule lines_okD(1) [OF ok Some])
    moreover have "b = a" if "b \<in> set (committed r)" "ra_slot b = s" for b
      using that(1)[unfolded set_committed [OF assms(1)]] that(2) Some by simp
    moreover have "a \<in> set (committed r)" using Some \<open>ra_slot a = s\<close> by (simp add: set_committed [OF assms(1)])
    ultimately have "s \<in> ra_slot ` set ?bad \<longleftrightarrow> \<not> valid a"
      unfolding image_iff set_filter by blast
    with d Some show ?thesis by simp
  qed (use d in simp)
qed

section \<open>Histories\<close>

datatype mobility_event =
    PrepareLogin mobility_slot line_config "u32 list"
  | PrepareLogout mobility_slot
  | CommitMobility prepared_transaction
  | AbortMobility prepared_transaction
  | RemoveInvalid "roaming_appearance \<Rightarrow> bool"

fun mobility_apply :: "mobility_event \<Rightarrow> mobility_registry \<Rightarrow> mobility_registry" where
  "mobility_apply (PrepareLogin s line configured) r = snd (prepare_login s line configured r)"
| "mobility_apply (PrepareLogout s) r = snd (prepare_logout s r)"
| "mobility_apply (CommitMobility t) r = snd (mobility_commit t r)"
| "mobility_apply (AbortMobility t) r = snd (mobility_abort t r)"
| "mobility_apply (RemoveInvalid valid) r = snd (remove_invalid valid r)"

definition mobility_run :: "mobility_event list \<Rightarrow> mobility_registry" where
  "mobility_run evs = fold mobility_apply evs mobility_registry_new"

lemma mobility_apply_inv: "mobility_inv r \<Longrightarrow> mobility_inv (mobility_apply ev r)"
proof (cases ev)
  case (RemoveInvalid valid)
  assume "mobility_inv r"
  with RemoveInvalid remove_invalid_spec(2) show ?thesis
    by (cases "has_pending_transaction r") (simp_all add: remove_invalid_def)
qed (simp_all add: mobility_inv_login mobility_inv_logout mobility_inv_commit mobility_inv_abort)

lemma mobility_run_inv: "mobility_inv (mobility_run evs)"
proof -
  have "mobility_inv r \<Longrightarrow> mobility_inv (fold mobility_apply evs r)" for r
    by (induction evs arbitrary: r) (simp_all add: mobility_apply_inv)
  then show ?thesis by (simp add: mobility_run_def)
qed

section \<open>Properties of the registry\<close>

text \<open>
  C23. A line roams at one button at a time: in every registry that a history of
  operations produces, whatever is in flight, the committed appearances and the line
  index describe each other, so that a line is at most at one button and a button shows
  at most one line; and two changes in flight never touch the same button or line.
\<close>

theorem mobility_lines_exclusive:
  assumes "r = mobility_run evs"
  shows "(appearance_for_slot r s = Some a \<longrightarrow> ra_slot a = s \<and> appearances_for_line r (ra_number a) = [a])
    \<and> (appearance_for_slot r s = Some a \<and> appearance_for_slot r s' = Some a' \<and> ra_number a = ra_number a'
        \<longrightarrow> s = s')
    \<and> (still_pending t r \<and> still_pending u r \<and> t \<noteq> u \<longrightarrow>
        txn_slots t \<inter> txn_slots u = {} \<and> txn_lines t \<inter> txn_lines u = {})"
proof -
  have inv: "mobility_inv r" unfolding assms by (rule mobility_run_inv)
  then have ok: "lines_ok r" and res: "reservations_ok r" by (simp_all add: mobility_inv_def)
  have "pt_id t \<noteq> pt_id u" if "still_pending t r" "still_pending u r" "t \<noteq> u"
    using that by (auto simp: still_pending_def)
  then have "txn_slots t \<inter> txn_slots u = {} \<and> txn_lines t \<inter> txn_lines u = {}"
    if "still_pending t r" "still_pending u r" "t \<noteq> u"
    using that pending_disjoint [OF res, of "pt_id t" t "pt_id u" u] by (simp add: still_pending_def)
  moreover have "ra_slot a = s \<and> appearances_for_line r (ra_number a) = [a]"
    if "appearance_for_slot r s = Some a"
  proof -
    have "ra_slot a = s" using that lines_okD(1) [OF ok] by (simp add: appearance_for_slot_def)
    with that current_appearance_iff [OF ok, of "ra_number a" a] show ?thesis
      by (simp add: appearances_for_line_def appearance_for_slot_def current_appearance_def)
  qed
  moreover have "s = s'" if "appearance_for_slot r s = Some a" "appearance_for_slot r s' = Some a'"
    "ra_number a = ra_number a'"
    using that lines_okD(2) [OF ok, of s a] lines_okD(2) [OF ok, of s' a']
    by (simp add: appearance_for_slot_def)
  ultimately show ?thesis by blast
qed

text \<open>
  C24. A prepared change is atomic: preparing it leaves every committed appearance as
  it was; as long as it is pending, whatever other changes do, committing it succeeds
  and changes exactly its own buttons, removing the previous appearance and installing
  the next; aborting it changes no appearance; and after either, it is stale: both are
  refused and change nothing.
\<close>

theorem mobility_change_atomic:
  assumes "r = mobility_run evs" and "still_pending t r"
  shows "(\<exists>r'. mobility_commit t r = (Inr (), r')
      \<and> (\<forall>s. appearance_for_slot r' s = after_change t r s)
      \<and> mobility_commit t r' = (Inl StaleTransaction, r') \<and> mobility_abort t r' = (Inl StaleTransaction, r'))
    \<and> (\<exists>r'. mobility_abort t r = (Inr (), r')
      \<and> mr_by_slot r' = mr_by_slot r \<and> mr_slot_by_line r' = mr_slot_by_line r
      \<and> mobility_commit t r' = (Inl StaleTransaction, r') \<and> mobility_abort t r' = (Inl StaleTransaction, r'))
    \<and> mr_by_slot (snd (prepare_login s line configured r)) = mr_by_slot r
    \<and> mr_by_slot (snd (prepare_logout s r)) = mr_by_slot r"
proof (intro conjI)
  obtain x r' where c: "mobility_commit t r = (x, r')" by fastforce
  have "\<not> still_pending t r'"
    using mobility_commit_get(4) [OF assms(2) c] by (simp add: still_pending_def)
  then have "mobility_commit t r' = (Inl StaleTransaction, r')" "mobility_abort t r' = (Inl StaleTransaction, r')"
    by (simp_all add: mobility_commit_def mobility_abort_def)
  with c mobility_commit_get(1,2) [OF assms(2) c]
  show "\<exists>r'. mobility_commit t r = (Inr (), r') \<and> (\<forall>s. appearance_for_slot r' s = after_change t r s)
      \<and> mobility_commit t r' = (Inl StaleTransaction, r') \<and> mobility_abort t r' = (Inl StaleTransaction, r')"
    by (auto simp: appearance_for_slot_def)
  let ?r = "release_reservations t (r\<lparr>mr_pending := hm_remove (pt_id t) (mr_pending r)\<rparr>)"
  have "\<not> still_pending t ?r" by (simp add: still_pending_def)
  then show "\<exists>r'. mobility_abort t r = (Inr (), r')
      \<and> mr_by_slot r' = mr_by_slot r \<and> mr_slot_by_line r' = mr_slot_by_line r
      \<and> mobility_commit t r' = (Inl StaleTransaction, r') \<and> mobility_abort t r' = (Inl StaleTransaction, r')"
    using assms(2) by (simp add: mobility_commit_def mobility_abort_def)
  have "mr_by_slot (snd (case mobility_reserve p n r of (Inl e, r') \<Rightarrow> (Inl e, r')
      | (Inr t, r') \<Rightarrow> (Inr (Transaction t), r'))) = mr_by_slot r" for p n
    using mobility_reserve_fields(1) [of p n r] by (auto split: prod.splits sum.splits)
  then show "mr_by_slot (snd (prepare_login s line configured r)) = mr_by_slot r"
    by (simp add: prepare_login_def Let_def split: option.split)
  show "mr_by_slot (snd (prepare_logout s r)) = mr_by_slot r"
    by (simp add: prepare_logout_def mobility_reserve_fields split: option.split)
qed

section \<open>Line instances\<close>

text \<open>
  The adapter runs login and logout inside one configuration transaction at a time
  (\<^verbatim>\<open>asterisk/phone/mobility.rs\<close>), so that a change is prepared only when none is in
  flight. The line instance of a login is chosen among those that committed
  appearances leave free, so that its uniqueness rests on this gate.
\<close>

inductive gated :: "mobility_registry \<Rightarrow> bool" where
  gated_new: "gated mobility_registry_new"
| gated_login: "gated r \<Longrightarrow> \<not> has_pending_transaction r \<Longrightarrow> gated (snd (prepare_login s line configured r))"
| gated_logout: "gated r \<Longrightarrow> \<not> has_pending_transaction r \<Longrightarrow> gated (snd (prepare_logout s r))"
| gated_commit: "gated r \<Longrightarrow> gated (snd (mobility_commit t r))"
| gated_abort: "gated r \<Longrightarrow> gated (snd (mobility_abort t r))"
| gated_reload: "gated r \<Longrightarrow> gated (snd (remove_invalid valid r))"

definition instance_of :: "roaming_appearance \<Rightarrow> u32" where
  "instance_of a = lb_line_instance (ra_binding a)"

definition instances_ok :: "mobility_registry \<Rightarrow> bool" where
  "instances_ok r \<longleftrightarrow>
     (\<forall>s s' a a'. hm_get (mr_by_slot r) s = Some a \<longrightarrow> hm_get (mr_by_slot r) s' = Some a' \<longrightarrow>
        ms_device_id s = ms_device_id s' \<longrightarrow> instance_of a = instance_of a' \<longrightarrow> s = s')
     \<and> (\<forall>s a. hm_get (mr_by_slot r) s = Some a \<longrightarrow> 1 \<le> unat (instance_of a) \<and> unat (instance_of a) \<le> 56)"

definition pending_ok :: "mobility_registry \<Rightarrow> bool" where
  "pending_ok r \<longleftrightarrow>
     (\<forall>i j t u. hm_get (mr_pending r) i = Some t \<longrightarrow> hm_get (mr_pending r) j = Some u \<longrightarrow> i = j)
     \<and> (\<forall>i t b. hm_get (mr_pending r) i = Some t \<longrightarrow> pt_next t = Some b \<longrightarrow>
          1 \<le> unat (instance_of b) \<and> unat (instance_of b) \<le> 56
          \<and> (\<forall>s a. hm_get (mr_by_slot r) s = Some a \<longrightarrow> ms_device_id s = ms_device_id (ra_slot b)
               \<longrightarrow> instance_of a \<noteq> instance_of b))"

lemma free_instance_range:
  assumes "free_instance occupied = Some i"
  shows "i \<notin> occupied" and "1 \<le> unat i" and "unat i \<le> 56"
proof -
  have "i \<in> of_nat ` {1..56}" and "i \<notin> occupied"
    using find_SomeD [OF assms [unfolded free_instance_def]]
    by (auto simp: MAX_MOBILITY_LINE_INSTANCE_def simp del: upt_Suc)
  then obtain n where n: "i = of_nat n" "1 \<le> n" "n \<le> 56" by auto
  then have "unat i = n" by (simp add: unat_of_nat take_bit_nat_eq_self)
  with n \<open>i \<notin> occupied\<close> show "i \<notin> occupied" "1 \<le> unat i" "unat i \<le> 56" by auto
qed

text \<open>What a successful \<open>prepare_login\<close> leaves pending.\<close>

lemma prepare_login_pending:
  assumes "\<not> has_pending_transaction r" and "mobility_inv r"
    and "hm_get (mr_pending (snd (prepare_login s line configured r))) j = Some t"
  obtains i n where "j = n" and "pt_next t = Some (roaming_appearance_at s line i)"
    and "checked_succ (mr_next_transaction_id r) = Some n" and "1 \<le> unat i" and "unat i \<le> 56"
    and "\<And>s' a. hm_get (mr_by_slot r) s' = Some a \<Longrightarrow> ms_device_id s' = ms_device_id s \<Longrightarrow> instance_of a \<noteq> i"
proof -
  have none: "mr_pending r = []" using assms(1) by (simp add: has_pending_transaction_def)
  have ok: "lines_ok r" using assms(2) by (simp add: mobility_inv_def)
  let ?occ = "set configured \<union> set (map (\<lambda>a. lb_line_instance (ra_binding a))
      (appearances_for_device r (ms_device_id s)))"
  from assms(3) none obtain i n where i: "free_instance ?occ = Some i"
    and n: "checked_succ (mr_next_transaction_id r) = Some n" "j = n"
    and nxt: "pt_next t = Some (roaming_appearance_at s line i)"
    by (auto simp: prepare_login_def Let_def mobility_reserve_def split: option.splits if_splits)
  have "instance_of a \<noteq> i" if a: "hm_get (mr_by_slot r) s' = Some a" "ms_device_id s' = ms_device_id s" for s' a
  proof -
    have "ra_slot a = s'" by (rule lines_okD(1) [OF ok a(1)])
    with a have "a \<in> set (appearances_for_device r (ms_device_id s))"
      using set_committed [OF assms(2)] by (auto simp: appearances_for_device_def)
    with free_instance_range(1) [OF i] show ?thesis by (auto simp: instance_of_def)
  qed
  with n nxt free_instance_range(2,3) [OF i] that show thesis by blast
qed

lemma commit_instances:
  assumes "mobility_inv r" and "instances_ok r" and "pending_ok r" and "still_pending t r"
  shows "instances_ok (snd (mobility_commit t r)) \<and> mr_pending (snd (mobility_commit t r)) = hm_remove (pt_id t) (mr_pending r)"
proof -
  obtain x r' where c: "mobility_commit t r = (x, r')" by fastforce
  note get = mobility_commit_get(2) [OF assms(4) c]
  have t: "hm_get (mr_pending r) (pt_id t) = Some t" using assms(4) by (simp add: still_pending_def)
  have new: "1 \<le> unat (instance_of b) \<and> unat (instance_of b) \<le> 56"
    "\<And>s a. hm_get (mr_by_slot r) s = Some a \<Longrightarrow> ms_device_id s = ms_device_id (ra_slot b)
       \<Longrightarrow> instance_of a \<noteq> instance_of b" if "pt_next t = Some b" for b
    using assms(3) t that unfolding pending_ok_def by blast+
  have cases: "hm_get (mr_by_slot r) s = Some a \<or> pt_next t = Some a \<and> ra_slot a = s"
    if "hm_get (mr_by_slot r') s = Some a" for s a
    using that by (auto simp: get after_change_def split: if_splits)
  have "instances_ok r'"
    unfolding instances_ok_def
  proof (intro conjI allI impI)
    fix s s' a a'
    assume a: "hm_get (mr_by_slot r') s = Some a" "hm_get (mr_by_slot r') s' = Some a'"
      "ms_device_id s = ms_device_id s'" "instance_of a = instance_of a'"
    from cases [OF a(1)] cases [OF a(2)] show "s = s'"
      using a(3,4) new(2) assms(2) unfolding instances_ok_def by (metis option.inject)
  next
    fix s a assume "hm_get (mr_by_slot r') s = Some a"
    from cases [OF this] show "1 \<le> unat (instance_of a)" "unat (instance_of a) \<le> 56"
      using new(1) assms(2) unfolding instances_ok_def by blast+
  qed
  with c mobility_commit_get(4) [OF assms(4) c] show ?thesis by simp
qed

lemma gated_ok: "gated r \<Longrightarrow> mobility_inv r \<and> instances_ok r \<and> pending_ok r"
proof (induction rule: gated.induct)
  case gated_new
  have "instances_ok mobility_registry_new \<and> pending_ok mobility_registry_new"
    by (simp add: instances_ok_def pending_ok_def mobility_registry_new_def)
  then show ?case by simp
next
  case (gated_login r s line configured)
  let ?r = "snd (prepare_login s line configured r)"
  have same: "mr_by_slot ?r = mr_by_slot r"
    by (auto simp: prepare_login_def Let_def mobility_reserve_def split: option.splits)
  have "pending_ok ?r"
    unfolding pending_ok_def same
  proof (intro conjI allI impI)
    fix i j t u assume "hm_get (mr_pending ?r) i = Some t" "hm_get (mr_pending ?r) j = Some u"
    with gated_login show "i = j" by (metis option.inject prepare_login_pending)
  next
    fix j t b assume "hm_get (mr_pending ?r) j = Some t" and b: "pt_next t = Some b"
    with prepare_login_pending [of r s line configured j t] gated_login obtain i where
      i: "b = roaming_appearance_at s line i" "1 \<le> unat i" "unat i \<le> 56"
        "\<And>s' a. hm_get (mr_by_slot r) s' = Some a \<Longrightarrow> ms_device_id s' = ms_device_id s \<Longrightarrow> instance_of a \<noteq> i"
      by (metis option.inject)
    then show "1 \<le> unat (instance_of b)" "unat (instance_of b) \<le> 56"
      by (simp_all add: instance_of_def roaming_appearance_at_def)
    show "instance_of a \<noteq> instance_of b" if "hm_get (mr_by_slot r) s' = Some a"
      "ms_device_id s' = ms_device_id (ra_slot b)" for s' a
      using i(4) [of s' a] that i(1) by (simp add: instance_of_def roaming_appearance_at_def)
  qed
  with gated_login same show ?case by (simp add: instances_ok_def mobility_inv_login)
next
  case (gated_logout r s)
  then have "mr_pending r = []" by (simp add: has_pending_transaction_def)
  then have "pending_ok (snd (prepare_logout s r))"
    by (auto simp: pending_ok_def prepare_logout_def mobility_reserve_def Let_def split: option.splits)
  moreover have "mr_by_slot (snd (prepare_logout s r)) = mr_by_slot r"
    by (simp add: prepare_logout_def mobility_reserve_fields split: option.split)
  ultimately show ?case using gated_logout by (simp add: instances_ok_def mobility_inv_logout)
next
  case (gated_commit r t)
  show ?case
  proof (cases "still_pending t r")
    case True
    have "hm_get (mr_pending (snd (mobility_commit t r))) i = None" for i
      using commit_instances [of r t] gated_commit.IH True
      by (auto simp: pending_ok_def still_pending_def)
    with commit_instances [of r t] gated_commit.IH True mobility_inv_commit show ?thesis
      by (simp add: pending_ok_def)
  qed (use gated_commit in \<open>simp add: mobility_commit_def\<close>)
next
  case (gated_abort r t)
  then show ?case
    using mobility_inv_abort [of r t]
    by (auto simp: mobility_abort_def instances_ok_def pending_ok_def split: if_splits)
next
  case (gated_reload r valid)
  show ?case
  proof (cases "has_pending_transaction r")
    case False
    have "mr_pending (fold drop_appearance xs r) = mr_pending r" for xs
      by (induction xs arbitrary: r) (simp_all add: drop_appearance_def)
    with False have "mr_pending (snd (remove_invalid valid r)) = []"
      by (simp add: remove_invalid_def Let_def has_pending_transaction_def drop_appearance_def [abs_def])
    with False gated_reload remove_invalid_spec [of r valid] show ?thesis
      by (auto simp: instances_ok_def pending_ok_def split: option.splits if_splits)
  qed (use gated_reload in \<open>simp add: remove_invalid_def\<close>)
qed

text \<open>
  Under the gate of the adapter, a phone never shows two roaming lines on one line
  instance: the committed appearances of a device have different instances, all from
  1 to 56, and the lookup by device and instance returns the one appearance there is.
\<close>

theorem mobility_instances_distinct:
  assumes "gated r" and "appearance_for_slot r s = Some a"
  shows "1 \<le> unat (lb_line_instance (ra_binding a)) \<and> unat (lb_line_instance (ra_binding a)) \<le> 56
    \<and> (\<forall>s' a'. appearance_for_slot r s' = Some a' \<longrightarrow> ms_device_id s' = ms_device_id s \<longrightarrow>
         lb_line_instance (ra_binding a') = lb_line_instance (ra_binding a) \<longrightarrow> s' = s)
    \<and> binding_for_device r (ms_device_id s) (lb_line_instance (ra_binding a)) = Some (ra_binding a)"
proof -
  have inv: "mobility_inv r" and inst: "instances_ok r" using gated_ok [OF assms(1)] by auto
  then have ok: "lines_ok r" by (simp add: mobility_inv_def)
  have a: "hm_get (mr_by_slot r) s = Some a" using assms(2) by (simp add: appearance_for_slot_def)
  have uniq: "s' = s" if "hm_get (mr_by_slot r) s' = Some a'" "ms_device_id s' = ms_device_id s"
    "instance_of a' = instance_of a" for s' a'
    using that a inst unfolding instances_ok_def by blast
  have slot: "ra_slot a = s" by (rule lines_okD(1) [OF ok a])
  have "find (\<lambda>c. ms_device_id (ra_slot c) = ms_device_id s \<and> instance_of c = instance_of a) (committed r) = Some a"
  proof (rule find_unique)
    show "a \<in> set (committed r)" using a slot by (simp add: set_committed [OF inv])
    show "ms_device_id (ra_slot a) = ms_device_id s \<and> instance_of a = instance_of a" by (simp add: slot)
    fix c assume c: "c \<in> set (committed r)"
      and same: "ms_device_id (ra_slot c) = ms_device_id s \<and> instance_of c = instance_of a"
    from c have get: "hm_get (mr_by_slot r) (ra_slot c) = Some c" by (simp add: set_committed [OF inv])
    with uniq [OF get] same a show "c = a" by simp
  qed
  then have "binding_for_device r (ms_device_id s) (lb_line_instance (ra_binding a)) = Some (ra_binding a)"
    by (simp add: binding_for_device_def instance_of_def)
  moreover have "1 \<le> unat (instance_of a) \<and> unat (instance_of a) \<le> 56"
    using a inst unfolding instances_ok_def by blast
  ultimately show ?thesis
    using uniq by (auto simp: instance_of_def appearance_for_slot_def)
qed

section \<open>Writing to the handsets\<close>

datatype mobility_io_error = RemoveFailed | InstallFailed | RollbackFailed

type_synonym ('h, 'e) writer = "roaming_appearance \<Rightarrow> bool \<Rightarrow> 'h \<Rightarrow> ('e + unit) \<times> 'h"

definition execute_mobility_io ::
  "('h, 'e) writer \<Rightarrow> prepared_transaction \<Rightarrow> 'h \<Rightarrow> (mobility_io_error + unit) \<times> 'h"
where
  "execute_mobility_io w t h =
     (let install = (\<lambda>h.
        case pt_next t of
          None \<Rightarrow> (Inr (), h)
        | Some b \<Rightarrow>
            (case w b True h of
               (Inr _, h') \<Rightarrow> (Inr (), h')
             | (Inl _, h') \<Rightarrow>
                 (case pt_previous t of
                    None \<Rightarrow> (Inl InstallFailed, h')
                  | Some a \<Rightarrow>
                      (case w a True h' of
                         (Inl _, h'') \<Rightarrow> (Inl RollbackFailed, h'')
                       | (Inr _, h'') \<Rightarrow> (Inl InstallFailed, h'')))))
      in case pt_previous t of
           None \<Rightarrow> install h
         | Some a \<Rightarrow>
             (case w a False h of
                (Inl _, h') \<Rightarrow> (Inl RemoveFailed, h')
              | (Inr _, h') \<Rightarrow> install h'))"

definition rollback_mobility_io ::
  "('h, 'e) writer \<Rightarrow> prepared_transaction \<Rightarrow> 'h \<Rightarrow> (mobility_io_error + unit) \<times> 'h"
where
  "rollback_mobility_io w t h =
     (let restore = (\<lambda>h.
        case pt_previous t of
          None \<Rightarrow> (Inr (), h)
        | Some a \<Rightarrow>
            (case w a True h of
               (Inl _, h') \<Rightarrow> (Inl RollbackFailed, h')
             | (Inr _, h') \<Rightarrow> (Inr (), h')))
      in case pt_next t of
           None \<Rightarrow> restore h
         | Some b \<Rightarrow>
             (case w b False h of
                (Inl _, h') \<Rightarrow> (Inl RollbackFailed, h')
              | (Inr _, h') \<Rightarrow> restore h'))"

text \<open>
  The controller's commit refuses a change while a call, given by device and line
  instance, uses the appearance that would be removed.
\<close>

definition commit_mobility ::
  "(device_id \<times> u32) list \<Rightarrow> prepared_transaction \<Rightarrow> mobility_registry \<Rightarrow> unit mobility_result"
where
  "commit_mobility calls t r =
     (case pt_previous t of
        None \<Rightarrow> mobility_commit t r
      | Some a \<Rightarrow>
          if list_ex (\<lambda>(d, i). d = ms_device_id (ra_slot a) \<and> i = lb_line_instance (ra_binding a)) calls
          then (Inl TransactionInProgress, r)
          else mobility_commit t r)"

text \<open>
  The registry is reached by a request to its owner, which may be refused or never
  answered; the registry is then not reached. \<open>reach_commit\<close> and \<open>reach_abort\<close> say whether
  the two requests reach it, and \<open>calls\<close> are the calls at the moment of the commit, after the
  handset I/O.
\<close>

definition apply_mobility_transaction ::
  "('h, 'e) writer \<Rightarrow> bool \<Rightarrow> bool \<Rightarrow> (device_id \<times> u32) list \<Rightarrow> prepared_transaction \<Rightarrow> 'h \<Rightarrow> mobility_registry
     \<Rightarrow> bool \<times> 'h \<times> mobility_registry"
where
  "apply_mobility_transaction w reach_commit reach_abort calls t h r =
     (let abort = (\<lambda>r. if reach_abort then snd (mobility_abort t r) else r) in
      case execute_mobility_io w t h of
        (Inl _, h') \<Rightarrow> (False, h', abort r)
      | (Inr _, h') \<Rightarrow>
          (let (committed, r') = (if reach_commit
             then (case commit_mobility calls t r of (Inr _, r') \<Rightarrow> (True, r') | (Inl _, r') \<Rightarrow> (False, r'))
             else (False, r))
           in if committed then (True, h', r')
              else (False, snd (rollback_mobility_io w t h'), abort r')))"

text \<open>
  The contract of a handset writer, \<open>MobilityAppearanceWriter\<close>: a confirmed write shows the
  appearance at its button, or clears the button; a write that fails may have reached the
  phone or not, so that nothing is known about its button. No write concerns another button.
\<close>

locale handset_writer =
  fixes w :: "('h, 'e) writer" and shown :: "'h \<Rightarrow> mobility_slot \<Rightarrow> roaming_appearance option"
  assumes confirmed: "w a install h = (Inr u, h') \<Longrightarrow> shown h' (ra_slot a) = (if install then Some a else None)"
    and local_write: "w a install h = (x, h') \<Longrightarrow> s \<noteq> ra_slot a \<Longrightarrow> shown h' s = shown h s"
begin

lemma confirmed_shown:
  assumes "w a install h = (Inr u, h')"
  shows "shown h' = (shown h)(ra_slot a := if install then Some a else None)"
  using confirmed [OF assms] local_write [OF assms] by (auto simp: fun_eq_iff)

lemma execute_local:
  assumes "execute_mobility_io w t h = (x, h')"
    and "\<And>a. pt_previous t = Some a \<Longrightarrow> s \<noteq> ra_slot a" and "\<And>b. pt_next t = Some b \<Longrightarrow> s \<noteq> ra_slot b"
  shows "shown h' s = shown h s"
  using assms by (auto simp: execute_mobility_io_def Let_def dest!: local_write [where s = s]
      split: option.splits prod.splits sum.splits)

lemma rollback_local:
  assumes "rollback_mobility_io w t h = (x, h')"
    and "\<And>a. pt_previous t = Some a \<Longrightarrow> s \<noteq> ra_slot a" and "\<And>b. pt_next t = Some b \<Longrightarrow> s \<noteq> ra_slot b"
  shows "shown h' s = shown h s"
  using assms by (auto simp: rollback_mobility_io_def Let_def dest!: local_write [where s = s]
      split: option.splits prod.splits sum.splits)

lemma execute_shown:
  assumes "execute_mobility_io w t h = (Inr u, h')"
    and "\<And>a. pt_previous t = Some a \<Longrightarrow> shown h (ra_slot a) = Some a"
    and "\<And>b. pt_next t = Some b \<Longrightarrow> shown h (ra_slot b) = None"
  shows "shown h' s =
      (if \<exists>b. pt_next t = Some b \<and> ra_slot b = s then pt_next t
       else if \<exists>a. pt_previous t = Some a \<and> ra_slot a = s then None else shown h s)"
  using assms(1) by (auto simp: execute_mobility_io_def Let_def dest!: confirmed_shown
      split: option.splits prod.splits sum.splits)

text \<open>After a failed installation the previous appearance is back.\<close>

lemma install_failed_restored:
  assumes "execute_mobility_io w t h = (Inl InstallFailed, h')" and "pt_previous t = Some a"
  shows "shown h' (ra_slot a) = Some a"
  using assms by (auto simp: execute_mobility_io_def Let_def dest!: confirmed_shown
      split: option.splits prod.splits sum.splits)

lemma rollback_shown:
  assumes "rollback_mobility_io w t h = (Inr u, h')"
  shows "shown h' s =
      (if \<exists>a. pt_previous t = Some a \<and> ra_slot a = s then pt_previous t
       else if \<exists>b. pt_next t = Some b \<and> ra_slot b = s then None else shown h s)"
  using assms by (auto simp: rollback_mobility_io_def Let_def dest!: confirmed_shown
      split: option.splits prod.splits sum.splits)

end

text \<open>
  The writer of the adapter, \<open>RuntimeMobilityWriter\<close>: a removal from a phone that is
  not registered counts as done, an installation there fails, and a registered phone is
  sent the update. \<open>ph_deliveries\<close> is what comes of the updates: confirmed, refused before
  anything was sent, or sent at least in part and then not confirmed in time. \<open>ph_shown\<close>
  is what each button shows (for an absent phone, what it is to show).
\<close>

datatype delivery = DeliveryConfirmed | NotSent | Unconfirmed

record phones =
  ph_registered :: "device_id list"
  ph_deliveries :: "delivery list"
  ph_shown :: "(mobility_slot, roaming_appearance) hash_map"

definition show_on :: "roaming_appearance \<Rightarrow> bool \<Rightarrow> phones \<Rightarrow> phones" where
  "show_on a install ph =
     ph\<lparr>ph_shown := (if install then hm_insert (ra_slot a) a (ph_shown ph) else hm_remove (ra_slot a) (ph_shown ph))\<rparr>"

definition runtime_write :: "(phones, unit) writer" where
  "runtime_write a install ph =
     (if ms_device_id (ra_slot a) \<notin> set (ph_registered ph)
      then (if install then (Inl (), ph) else (Inr (), show_on a False ph))
      else
        case ph_deliveries ph of
          [] \<Rightarrow> (Inr (), show_on a install ph)
        | x # xs \<Rightarrow>
            (case x of
               DeliveryConfirmed \<Rightarrow> (Inr (), show_on a install (ph\<lparr>ph_deliveries := xs\<rparr>))
             | NotSent \<Rightarrow> (Inl (), ph\<lparr>ph_deliveries := xs\<rparr>)
             | Unconfirmed \<Rightarrow> (Inl (), show_on a install (ph\<lparr>ph_deliveries := xs\<rparr>))))"

interpretation runtime: handset_writer runtime_write "\<lambda>ph. hm_get (ph_shown ph)"
  by unfold_locales
    (auto simp: runtime_write_def show_on_def split: if_splits list.splits delivery.splits)

lemma commit_mobility_cases:
  assumes "still_pending t r"
  shows "(\<exists>r'. commit_mobility calls t r = (Inr (), r') \<and> mobility_commit t r = (Inr (), r'))
    \<or> commit_mobility calls t r = (Inl TransactionInProgress, r)"
proof -
  have "\<exists>r'. mobility_commit t r = (Inr (), r')"
    using mobility_commit_get(1) [OF assms] by (metis prod.collapse)
  then show ?thesis by (auto simp: commit_mobility_def split: option.split)
qed


section \<open>Witnesses\<close>

definition sample_line :: "string \<Rightarrow> line_config" where
  "sample_line n =
     \<lparr>lc_number = ascii n, lc_label = ascii n, lc_context = ascii ''sccp'', lc_caller_name = [],
      lc_caller_number = [], lc_mailbox = None, lc_language = ascii ''en'', lc_account_code = None,
      lc_channel_variables = []\<rparr>"

definition sample_slot :: "string \<Rightarrow> u32 \<Rightarrow> mobility_slot" where
  "sample_slot d b = \<lparr>ms_device_id = d, ms_button_instance = b\<rparr>"

definition sample_appearance :: roaming_appearance where
  "sample_appearance = roaming_appearance_at (sample_slot ''SEP1'' 3) (sample_line ''100'') 2"

definition sample_change :: prepared_transaction where
  "sample_change = \<lparr>pt_id = 1, pt_previous = None, pt_next = Some sample_appearance\<rparr>"

text \<open>A login of line 100 at button 3 of a phone with one configured line, then its commit.\<close>

definition sample_login :: mobility_event where
  "sample_login = PrepareLogin (sample_slot ''SEP1'' 3) (sample_line ''100'') [1]"

lemma sample_login_run:
  "mobility_run [sample_login] =
     \<lparr>mr_next_transaction_id = 1, mr_by_slot = [], mr_slot_by_line = [],
      mr_pending = [(1, sample_change)], mr_reserved_slots = [(sample_slot ''SEP1'' 3, 1)],
      mr_reserved_lines = [(ascii ''100'', 1)]\<rparr>"
  by code_simp

lemma sample_committed:
  "mobility_run [sample_login, CommitMobility sample_change] =
     \<lparr>mr_next_transaction_id = 1, mr_by_slot = [(sample_slot ''SEP1'' 3, sample_appearance)],
      mr_slot_by_line = [(ascii ''100'', sample_slot ''SEP1'' 3)], mr_pending = [],
      mr_reserved_slots = [], mr_reserved_lines = []\<rparr>"
  by code_simp

lemma sample_pending: "still_pending sample_change (mobility_run [sample_login])"
  by (simp add: still_pending_def sample_login_run) (simp add: sample_change_def)

theorem mobility_lines_exclusive_witness:
  "appearance_for_slot (mobility_run [sample_login, CommitMobility sample_change]) (sample_slot ''SEP1'' 3)
     = Some sample_appearance
   \<and> appearances_for_line (mobility_run [sample_login, CommitMobility sample_change]) (ra_number sample_appearance)
     = [sample_appearance]"
proof -
  have "appearance_for_slot (mobility_run [sample_login, CommitMobility sample_change]) (sample_slot ''SEP1'' 3)
     = Some sample_appearance"
    by (simp add: appearance_for_slot_def sample_committed)
  with mobility_lines_exclusive [OF refl] show ?thesis by blast
qed

theorem mobility_change_atomic_witness:
  "\<exists>r'. mobility_commit sample_change (mobility_run [sample_login]) = (Inr (), r')
     \<and> mobility_commit sample_change r' = (Inl StaleTransaction, r')"
  using mobility_change_atomic [OF refl sample_pending] by blast

lemma sample_gated: "gated (mobility_run [sample_login, CommitMobility sample_change])"
proof -
  have "\<not> has_pending_transaction mobility_registry_new"
    by (simp add: has_pending_transaction_def mobility_registry_new_def)
  from gated_commit [OF gated_login [OF gated_new this]] show ?thesis
    by (simp add: mobility_run_def sample_login_def)
qed

theorem mobility_instances_distinct_witness:
  "binding_for_device (mobility_run [sample_login, CommitMobility sample_change]) ''SEP1'' 2
     = Some (ra_binding sample_appearance)"
proof -
  have get: "appearance_for_slot (mobility_run [sample_login, CommitMobility sample_change])
      (sample_slot ''SEP1'' 3) = Some sample_appearance"
    by (simp add: appearance_for_slot_def sample_committed)
  have "lb_line_instance (ra_binding sample_appearance) = 2" "ms_device_id (sample_slot ''SEP1'' 3) = ''SEP1''"
    by (simp_all add: sample_appearance_def roaming_appearance_at_def sample_slot_def)
  with mobility_instances_distinct [OF sample_gated get] show ?thesis by metis
qed


text \<open>
  What the exception is about: the phone takes the update and the confirmation does not
  come in time. The login is given up and the registry has no line there, but the button
  shows it and nothing clears it.
\<close>

lemma unconfirmed_login_stays_shown:
  "(case apply_mobility_transaction runtime_write True True []
       sample_change \<lparr>ph_registered = [''SEP1''], ph_deliveries = [Unconfirmed], ph_shown = []\<rparr> (mobility_run [sample_login])
    of (ok, h', r') \<Rightarrow> \<not> ok \<and> hm_get (ph_shown h') (sample_slot ''SEP1'' 3) = Some sample_appearance
      \<and> appearance_for_slot r' (sample_slot ''SEP1'' 3) = None)"
  by code_simp

text \<open>
  Without the gate the choice of a line instance is not exclusive: two logins of
  different lines at different buttons of one phone, both prepared before either is
  committed, get the same instance.
\<close>

lemma ungated_logins_collide:
  "map (\<lambda>(_, t). map_option instance_of (pt_next t))
     (mr_pending (mobility_run [sample_login, PrepareLogin (sample_slot ''SEP1'' 4) (sample_line ''200'') [1]]))
   = [Some 2, Some 2]"
  by code_simp

end
