(* ===== verification/Mobility_Login.thy ===== *)
theory Mobility_Login
  imports Mobility
begin

text \<open>
  The login half of Extension Mobility: the PIN of a line as the configuration parses
  it, the submitted credential and its comparison with the PIN in a fixed number of
  byte steps (\<^verbatim>\<open>config/mod.rs\<close>, \<^verbatim>\<open>config/model.rs\<close>), the authentication of a line
  and the form that a phone sends back (\<^verbatim>\<open>call/mobility.rs\<close>).
\<close>

unbundle bit_operations_syntax

section \<open>Credentials\<close>

definition MAX_MOBILITY_PIN_DIGITS :: nat where "MAX_MOBILITY_PIN_DIGITS = 7"

text \<open>\<open>bytes().all(|byte| byte.is_ascii_digit())\<close>: a character beyond ASCII has bytes above 127.\<close>

definition all_ascii_digits :: "rust_str \<Rightarrow> bool" where
  "all_ascii_digits s \<longleftrightarrow> list_all (\<lambda>b. 48 \<le> b \<and> b \<le> 57) (as_bytes s)"

datatype mobility_credential = MobilityCredential (credential_as_str: rust_str)

datatype mobility_credential_error = InvalidFormat

definition mobility_credential_new :: "rust_str \<Rightarrow> mobility_credential_error + mobility_credential" where
  "mobility_credential_new value =
     (if value = [] \<or> text_len value > MAX_MOBILITY_PIN_DIGITS \<or> \<not> all_ascii_digits value
      then Inl InvalidFormat
      else Inr (MobilityCredential value))"

datatype mobility_pin = MobilityPin rust_str

text \<open>The error of the configuration parser is \<open>None\<close>; an empty value disables mobility.\<close>

definition parse_mobility_pin :: "rust_str \<Rightarrow> mobility_pin option option" where
  "parse_mobility_pin raw =
     (let value = trim raw in
      if value = [] then Some None
      else if text_len value > MAX_MOBILITY_PIN_DIGITS \<or> \<not> all_ascii_digits value then None
      else Some (Some (MobilityPin value)))"

text \<open>\<open>slice.get(index).copied().unwrap_or_default()\<close>.\<close>

definition byte_at :: "u8 list \<Rightarrow> nat \<Rightarrow> u8" where
  "byte_at bs i = (if i < length bs then bs ! i else 0)"

fun pin_verify :: "mobility_pin \<Rightarrow> rust_str \<Rightarrow> bool" where
  "pin_verify (MobilityPin pin) candidate =
     (let expected = as_bytes pin;
          actual = as_bytes candidate;
          difference = fold (\<lambda>i d. d OR ucast (byte_at expected i XOR byte_at actual i))
            [0..<MAX_MOBILITY_PIN_DIGITS]
            (of_nat (length expected) XOR of_nat (length actual) :: u64)
      in difference = 0)"

section \<open>Authentication\<close>

text \<open>The part of the configuration that is read: the lines and the PIN of each line.\<close>

record mobility_config =
  mc_lines :: "(rust_str, line_config) hash_map"
  mc_pins :: "(rust_str, mobility_pin option) hash_map"

datatype mobility_authentication_error = Denied

definition authenticate_line ::
  "mobility_config \<Rightarrow> rust_str \<Rightarrow> mobility_credential \<Rightarrow> mobility_authentication_error + line_config"
where
  "authenticate_line config number credential =
     (case hm_get (mc_lines config) number of
        None \<Rightarrow> Inl Denied
      | Some line \<Rightarrow>
          (case Option.bind (hm_get (mc_pins config) number) id of
             None \<Rightarrow> Inl Denied
           | Some pin \<Rightarrow> if pin_verify pin (credential_as_str credential) then Inr line else Inl Denied))"

section \<open>The submitted form\<close>

record submitted_value =
  sv_name :: rust_str
  sv_value :: rust_str

record phone_service_submission =
  ps_route :: "rust_str list"
  ps_values :: "submitted_value list"

definition values_named :: "phone_service_submission \<Rightarrow> rust_str \<Rightarrow> rust_str list" where
  "values_named s name = map sv_value (filter (\<lambda>v. sv_name v = name) (ps_values s))"

definition MOBILITY_LINE_PARAMETER :: rust_str where "MOBILITY_LINE_PARAMETER = ascii ''LINE''"

definition MOBILITY_PIN_PARAMETER :: rust_str where "MOBILITY_PIN_PARAMETER = ascii ''PIN''"

record mobility_login_request =
  lr_line_number :: rust_str
  lr_credential :: mobility_credential

datatype mobility_submission_error = InvalidEnvelope | InvalidCredential

definition parse_mobility_login_submission ::
  "u32 \<Rightarrow> phone_service_submission \<Rightarrow> mobility_submission_error + mobility_login_request"
where
  "parse_mobility_login_submission button s =
     (if ps_route s \<noteq> [ascii ''mobility'', decimal (unat button), ascii ''login'']
      then Inl InvalidEnvelope
      else
        let lines = values_named s MOBILITY_LINE_PARAMETER;
            pins = values_named s MOBILITY_PIN_PARAMETER
        in if length (ps_values s) \<noteq> 2 \<or> length lines \<noteq> 1 \<or> length pins \<noteq> 1 \<or> lines ! 0 = []
           then Inl InvalidEnvelope
           else
             case mobility_credential_new (pins ! 0) of
               Inl _ \<Rightarrow> Inl InvalidCredential
             | Inr credential \<Rightarrow> Inr \<lparr>lr_line_number = lines ! 0, lr_credential = credential\<rparr>)"

section \<open>Lemmas\<close>

lemma continuation_byte: "\<not> (of_nat (0x80 + c mod 64) :: u8) \<le> 57"
proof -
  have "c mod 64 < 64" by simp
  then have "unat (of_nat (0x80 + c mod 64) :: u8) = 0x80 + c mod 64"
    by (simp only: unat_of_nat) (simp add: take_bit_nat_eq_self)
  then show ?thesis by (simp add: word_le_nat_alt del: of_nat_add)
qed

lemma utf8_char_digit: "list_all (\<lambda>b. 48 \<le> b \<and> b \<le> 57) (utf8_char c) \<longleftrightarrow> 48 \<le> c \<and> c \<le> 57"
proof (cases "c < 0x80")
  case True
  then have "unat (of_nat c :: u8) = c" by (simp add: unat_of_nat take_bit_nat_eq_self)
  with True show ?thesis by (simp add: utf8_char_def word_le_nat_alt)
next
  case False
  then have "of_nat (0x80 + c mod 64) \<in> set (utf8_char c)" by (simp add: utf8_char_def)
  with False continuation_byte [of c] show ?thesis by (auto simp: list_all_iff)
qed

lemma all_ascii_digits_iff: "all_ascii_digits s \<longleftrightarrow> (\<forall>c \<in> set s. 48 \<le> c \<and> c \<le> 57)"
  unfolding all_ascii_digits_def as_bytes_def
  by (induction s) (auto simp: utf8_char_digit)

lemma fold_or_zero:
  "fold (\<lambda>i d. d OR f i) xs (d :: 'a::len word) = 0 \<longleftrightarrow> d = 0 \<and> (\<forall>i \<in> set xs. f i = 0)"
  by (induction xs arbitrary: d) (auto simp: or_eq_0_iff)

lemma word_xor_zero: "x XOR y = 0 \<longleftrightarrow> x = (y :: 'a::len word)"
  by (auto simp: bit_eq_iff bit_xor_iff)

text \<open>The comparison that never returns early computes equality, up to its fixed bound.\<close>

lemma pin_verify_bytes:
  assumes "text_len pin \<le> 7" and "text_len candidate \<le> 7"
  shows "pin_verify (MobilityPin pin) candidate \<longleftrightarrow> as_bytes pin = as_bytes candidate"
proof -
  let ?e = "as_bytes pin" and ?a = "as_bytes candidate"
  have len: "(of_nat (length ?e) XOR of_nat (length ?a) :: u64) = 0 \<longleftrightarrow> length ?e = length ?a"
    unfolding word_xor_zero using assms
    by (simp add: word_unat_eq_iff unat_of_nat take_bit_nat_eq_self)
  have byte: "(ucast (x XOR y) :: u64) = 0 \<longleftrightarrow> x = y" for x y :: u8
  proof -
    have "(ucast z :: u64) = 0 \<longleftrightarrow> z = 0" for z :: u8
      by transfer simp
    then show ?thesis by (simp add: word_xor_zero)
  qed
  have "pin_verify (MobilityPin pin) candidate
      \<longleftrightarrow> length ?e = length ?a \<and> (\<forall>i < 7. byte_at ?e i = byte_at ?a i)"
    by (simp add: fold_or_zero len byte MAX_MOBILITY_PIN_DIGITS_def Let_def del: length_as_bytes)
      (auto simp: atLeast0LessThan)
  also have "\<dots> \<longleftrightarrow> ?e = ?a"
    using assms by (auto simp: list_eq_iff_nth_eq byte_at_def split: if_splits)
  finally show ?thesis .
qed

lemma digits_of_pin:
  assumes "parse_mobility_pin raw = Some (Some (MobilityPin pin))"
  shows "pin = trim raw" and "pin \<noteq> []" and "text_len pin \<le> 7" and "all_ascii_digits pin"
  using assms by (auto simp: parse_mobility_pin_def Let_def MAX_MOBILITY_PIN_DIGITS_def split: if_splits)

lemma digits_of_credential:
  assumes "mobility_credential_new value = Inr c"
  shows "credential_as_str c = value" and "value \<noteq> []" and "text_len value \<le> 7" and "all_ascii_digits value"
  using assms by (auto simp: mobility_credential_new_def MAX_MOBILITY_PIN_DIGITS_def split: if_splits)

lemma singleton_list_iff: "xs = [x] \<longleftrightarrow> length xs = 1 \<and> xs ! 0 = x"
  by (cases xs) auto

lemma guarded_Inr_iff: "(if b then Inl e else x) = Inr y \<longleftrightarrow> \<not> b \<and> x = Inr y"
  by simp

text \<open>Two values, one of each name, come in one of two orders.\<close>

lemma two_named_values:
  assumes "m \<noteq> n"
  shows "length vs = 2 \<and> map sv_value (filter (\<lambda>v. sv_name v = m) vs) = [l]
      \<and> map sv_value (filter (\<lambda>v. sv_name v = n) vs) = [p]
    \<longleftrightarrow> vs \<in> {[\<lparr>sv_name = m, sv_value = l\<rparr>, \<lparr>sv_name = n, sv_value = p\<rparr>],
           [\<lparr>sv_name = n, sv_value = p\<rparr>, \<lparr>sv_name = m, sv_value = l\<rparr>]}" (is "?L \<longleftrightarrow> ?R")
proof
  assume ?L
  then obtain v w where vs: "vs = [v, w]" by (auto simp: length_Suc_conv numeral_2_eq_2)
  from \<open>?L\<close> assms show ?R unfolding vs
    by (cases v; cases w) (auto split: if_splits)
next
  assume ?R
  with assms show ?L by auto
qed

section \<open>Properties\<close>

text \<open>
  The comparison in a fixed number of steps is equality: for a PIN that the
  configuration accepts and a credential that the phone may submit, it holds exactly
  when they are the same digits; so a line is authenticated exactly when it exists,
  has a PIN, and the credential is that PIN.
\<close>

theorem pin_verify_equality:
  assumes "parse_mobility_pin raw = Some (Some pin)" and "mobility_credential_new value = Inr c"
  shows "(pin_verify pin (credential_as_str c) \<longleftrightarrow> pin = MobilityPin (credential_as_str c))
    \<and> (hm_get (mc_pins config) number = Some (Some pin) \<longrightarrow>
        authenticate_line config number c =
          (case hm_get (mc_lines config) number of
             Some line \<Rightarrow> if trim raw = value then Inr line else Inl Denied
           | None \<Rightarrow> Inl Denied))"
proof -
  obtain p where p: "pin = MobilityPin p" by (cases pin)
  have "parse_mobility_pin raw = Some (Some (MobilityPin p))" using assms(1) p by simp
  note pin = digits_of_pin [OF this]
  note cred = digits_of_credential [OF assms(2)]
  have small: "k < 0x80" if "k \<in> set p \<or> k \<in> set value" for k
    using that pin(4) cred(4) unfolding all_ascii_digits_iff by fastforce
  have "pin_verify pin (credential_as_str c) \<longleftrightarrow> p = value"
    unfolding p cred(1) using pin_verify_bytes [OF pin(3) cred(3)] ascii_bytes_inj [of p "value"] small by auto
  with p pin(1) cred(1) show ?thesis
    by (auto simp: authenticate_line_def split: option.split)
qed

text \<open>
  C26. A login form is accepted exactly when it is the answer to the form that was
  issued for this button: its route names the button, it has one value for the line,
  not empty, and one for the PIN, and nothing else, and the PIN is one to seven ASCII
  digits; the request then carries these two values.
\<close>

theorem mobility_submission_accepted_iff:
  "parse_mobility_login_submission button s = Inr \<lparr>lr_line_number = l, lr_credential = MobilityCredential p\<rparr> \<longleftrightarrow>
     ps_route s = [ascii ''mobility'', decimal (unat button), ascii ''login'']
     \<and> ps_values s \<in> {[\<lparr>sv_name = ascii ''LINE'', sv_value = l\<rparr>, \<lparr>sv_name = ascii ''PIN'', sv_value = p\<rparr>],
                      [\<lparr>sv_name = ascii ''PIN'', sv_value = p\<rparr>, \<lparr>sv_name = ascii ''LINE'', sv_value = l\<rparr>]}
     \<and> l \<noteq> [] \<and> p \<noteq> [] \<and> length p \<le> 7 \<and> list_all (\<lambda>c. 48 \<le> c \<and> c \<le> 57) p"
  (is "?L \<longleftrightarrow> ?R")
proof -
  have len: "text_len p = length p" if "\<forall>c \<in> set p. 48 \<le> c \<and> c \<le> 57"
    using that by (intro text_len_ascii) fastforce
  have two: "length (ps_values s) = 2 \<and> values_named s (ascii ''LINE'') = [l] \<and> values_named s (ascii ''PIN'') = [p]
    \<longleftrightarrow> ps_values s \<in> {[\<lparr>sv_name = ascii ''LINE'', sv_value = l\<rparr>, \<lparr>sv_name = ascii ''PIN'', sv_value = p\<rparr>],
                      [\<lparr>sv_name = ascii ''PIN'', sv_value = p\<rparr>, \<lparr>sv_name = ascii ''LINE'', sv_value = l\<rparr>]}"
    unfolding values_named_def by (rule two_named_values) simp
  have cred: "mobility_credential_new q = Inr (MobilityCredential p)
      \<longleftrightarrow> q = p \<and> p \<noteq> [] \<and> text_len p \<le> 7 \<and> all_ascii_digits p" for q
    by (auto simp: mobility_credential_new_def MAX_MOBILITY_PIN_DIGITS_def)
  have "(case mobility_credential_new q of Inl _ \<Rightarrow> Inl InvalidCredential
        | Inr c \<Rightarrow> Inr \<lparr>lr_line_number = k, lr_credential = c\<rparr>) = Inr \<lparr>lr_line_number = l, lr_credential = MobilityCredential p\<rparr>
      \<longleftrightarrow> k = l \<and> q = p \<and> p \<noteq> [] \<and> text_len p \<le> 7 \<and> all_ascii_digits p" for q k
    using cred [of q] by (cases "mobility_credential_new q") auto
  then have "?L \<longleftrightarrow> ps_route s = [ascii ''mobility'', decimal (unat button), ascii ''login'']
      \<and> (length (ps_values s) = 2 \<and> values_named s (ascii ''LINE'') = [l] \<and> values_named s (ascii ''PIN'') = [p])
      \<and> l \<noteq> [] \<and> p \<noteq> [] \<and> text_len p \<le> 7 \<and> all_ascii_digits p"
    unfolding parse_mobility_login_submission_def Let_def MOBILITY_LINE_PARAMETER_def
      MOBILITY_PIN_PARAMETER_def guarded_Inr_iff singleton_list_iff de_Morgan_disj not_not
    by metis
  with len two show ?thesis unfolding all_ascii_digits_iff list_all_iff by metis
qed

section \<open>Witnesses\<close>

theorem pin_verify_equality_witness:
  "\<exists>c. mobility_credential_new (ascii ''0042'') = Inr c
     \<and> pin_verify (MobilityPin (ascii ''0042'')) (credential_as_str c)"
proof -
  have pin: "parse_mobility_pin (ascii '' 0042'') = Some (Some (MobilityPin (ascii ''0042'')))"
    by code_simp
  have cred: "mobility_credential_new (ascii ''0042'') = Inr (MobilityCredential (ascii ''0042''))"
    by code_simp
  from pin_verify_equality [OF pin cred] cred show ?thesis by simp
qed

end
