(* ===== verification/Qos.thy ===== *)
theory Qos
  imports Rust_Text
begin

text \<open>
  Reservation ownership for the QoS messages of service nodes,
  \<^verbatim>\<open>sccp-protocol/src/qos.rs\<close>: a controller that owns reservations by a
  monotonic identity and correlates notifications of the service node by flow and
  direction. A flow identity is never used again, so that a late notification
  cannot settle the wrong reservation.

  The latest instant of the clock is the first argument of the operations that compute
  a deadline. Of the control messages, those of the QoS family are modelled; all
  others are one constructor, since the controller ignores them.
\<close>

section \<open>Messages\<close>

datatype qos_direction = Send | Receive | SendReceive | UnknownDirection u32

datatype qos_reservation_style = FixedFilter | SharedExplicit | WildcardFilter | UnknownStyle u32

datatype qos_error_code =
    ReservationTimeout | PathFailed | ReservationFailed | ListenFailed | ResourceUnavailable
  | ListenTimeout | ReservationRetriesFailed | PathRetriesFailed | ReservationPreempted
  | PathPreempted | ReservationModifyFailed | PathModifyFailed | ReservationTornDown
  | UnknownError u32

text \<open>RSVP error codes and codecs are carried as their wire values.\<close>

type_synonym rsvp_error_code = u32
type_synonym codec = u32
type_synonym ipv4_addr = u32

record qos_flow =
  qf_conference_id :: u32
  qf_call_reference :: u32
  qf_passthrough_party_id :: u32
  qf_address :: ipv4_addr
  qf_port :: u16

record qos_traffic =
  qt_codec :: codec
  qt_average_bit_rate :: u32
  qt_burst_size :: u32
  qt_peak_rate :: u32

record qos_application =
  qa_vendor_id :: rust_str
  qa_version :: rust_str
  qa_application_name :: rust_str
  qa_sub_application_id :: rust_str

record qos_policy =
  qp_reservation_style :: qos_reservation_style
  qp_maximum_retries :: u32
  qp_retry_timer :: u32
  qp_preemption_priority :: u32
  qp_defending_priority :: u32
  qp_traffic :: qos_traffic
  qp_application :: qos_application

record qos_failure =
  qe_error_code :: qos_error_code
  qe_failure_node :: ipv4_addr
  qe_rsvp_error_code :: rsvp_error_code
  qe_rsvp_error_subcode :: u32
  qe_rsvp_error_flags :: u32

datatype control_message =
    QosReservationNotify qos_flow qos_direction
  | QosErrorNotify qos_flow qos_direction qos_failure
  | QosListen qos_flow qos_reservation_style u32 u32 bool u32 u32 qos_traffic qos_application
  | QosPath qos_flow qos_reservation_style u32 u32 u32 u32 qos_traffic qos_application
  | QosTeardown qos_flow qos_direction
  | UpdateDscp qos_flow u8
  | QosModify qos_flow qos_direction qos_traffic qos_application
  | OtherControlMessage

section \<open>The controller\<close>

record qos_limits =
  ql_maximum_live_reservations :: nat
  ql_maximum_generations :: nat
  ql_maximum_retries :: u32
  ql_maximum_retry_timer :: u32
  ql_maximum_response_timeout :: duration

datatype qos_setup = Listen (confirmation_required: bool) | Path

record qos_request =
  qr_flow :: qos_flow
  qr_direction :: qos_direction
  qr_setup :: qos_setup
  qr_policy :: qos_policy
  qr_response_timeout :: duration

type_synonym reservation_id = u64

datatype qos_state = StateEstablishing | StateActive | StateModifying

datatype qos_event =
    Established reservation_id
  | ActiveWithoutConfirmation reservation_id
  | EstablishmentTimedOut reservation_id
  | QosFailed reservation_id qos_failure
  | Preempted reservation_id qos_failure
  | ModificationFailed reservation_id qos_failure
  | ModificationOutcomeUnknown reservation_id
  | TornDown reservation_id

record qos_transition =
  qx_messages :: "control_message list"
  qx_events :: "qos_event list"

definition transition_default :: qos_transition where
  "transition_default = \<lparr>qx_messages = [], qx_events = []\<rparr>"

record reservation_key =
  rk_flow :: qos_flow
  rk_direction :: qos_direction

datatype modification = Available | Pending instant | OutcomeUnknown | FailureReported

datatype reservation_phase = Establishing instant | Active modification

record reservation =
  rs_key :: reservation_key
  rs_phase :: reservation_phase

datatype qos_error =
    InvalidLimits string
  | InvalidRequest string
  | LiveCapacityExhausted
  | GenerationCapacityExhausted
  | FlowIdentityReused
  | UnknownReservation reservation_id
  | ModificationAlreadyIssued reservation_id
  | InvalidState reservation_id string qos_state

text \<open>A \<open>HashSet\<close> is a list without repetition, in any order.\<close>

record qos_controller =
  qc_limits :: qos_limits
  qc_next_id :: "reservation_id option"
  qc_by_id :: "(reservation_id, reservation) hash_map"
  qc_by_key :: "(reservation_key, reservation_id) hash_map"
  qc_retired :: "reservation_key list"

type_synonym 'a qos_result = "(qos_error + 'a) \<times> qos_controller"

section \<open>Validation\<close>

definition limits_validate :: "qos_limits \<Rightarrow> qos_error + qos_limits" where
  "limits_validate l =
     (if ql_maximum_live_reservations l = 0
      then Inl (InvalidLimits ''maximum live reservations must be nonzero'')
      else if ql_maximum_generations l < ql_maximum_live_reservations l
      then Inl (InvalidLimits ''generation capacity must cover every live reservation'')
      else if ql_maximum_retry_timer l = 0
      then Inl (InvalidLimits ''maximum retry timer must be nonzero'')
      else if ql_maximum_response_timeout l = 0
      then Inl (InvalidLimits ''maximum response timeout must be nonzero'')
      else Inr l)"

text \<open>Multicast is \<open>224.0.0.0/4\<close>.\<close>

definition validate_flow :: "qos_flow \<Rightarrow> qos_error + unit" where
  "validate_flow f =
     (if qf_conference_id f = 0 \<or> qf_call_reference f = 0 \<or> qf_passthrough_party_id f = 0
      then Inl (InvalidRequest ''flow identities must be nonzero'')
      else if qf_address f = 0 \<or> 0xE0000000 \<le> qf_address f \<and> qf_address f \<le> 0xEFFFFFFF \<or> qf_port f = 0
      then Inl (InvalidRequest ''flow endpoint must be usable unicast'')
      else Inr ())"

definition validate_application :: "qos_application \<Rightarrow> qos_error + unit" where
  "validate_application a =
     (if list_ex (\<lambda>(v, m). text_len v > m \<or> 0 \<in> set v)
           [(qa_vendor_id a, 31), (qa_version a, 15), (qa_application_name a, 31),
            (qa_sub_application_id a, 31)]
      then Inl (InvalidRequest ''application identity exceeds its fixed text field'')
      else Inr ())"

definition validate_response_timeout :: "qos_controller \<Rightarrow> duration \<Rightarrow> qos_error + unit" where
  "validate_response_timeout c t =
     (if t = 0 \<or> t > ql_maximum_response_timeout (qc_limits c)
      then Inl (InvalidRequest ''response timeout is outside controller policy'')
      else Inr ())"

fun direction_is_known :: "qos_direction \<Rightarrow> bool" where
  "direction_is_known (UnknownDirection _) = False"
| "direction_is_known _ = True"

fun style_is_known :: "qos_reservation_style \<Rightarrow> bool" where
  "style_is_known (UnknownStyle _) = False"
| "style_is_known _ = True"

definition validate_request :: "qos_controller \<Rightarrow> qos_request \<Rightarrow> qos_error + unit" where
  "validate_request c q =
     (case validate_flow (qr_flow q) of
        Inl e \<Rightarrow> Inl e
      | Inr _ \<Rightarrow>
          if \<not> direction_is_known (qr_direction q)
          then Inl (InvalidRequest ''reservation direction is unknown'')
          else if \<not> style_is_known (qp_reservation_style (qr_policy q))
          then Inl (InvalidRequest ''reservation style is unknown'')
          else if qp_maximum_retries (qr_policy q) > ql_maximum_retries (qc_limits c)
          then Inl (InvalidRequest ''retry count exceeds controller policy'')
          else if qp_retry_timer (qr_policy q) = 0
                \<or> qp_retry_timer (qr_policy q) > ql_maximum_retry_timer (qc_limits c)
          then Inl (InvalidRequest ''retry timer is outside controller policy'')
          else
            case validate_response_timeout c (qr_response_timeout q) of
              Inl e \<Rightarrow> Inl e
            | Inr _ \<Rightarrow> validate_application (qp_application (qr_policy q)))"

definition qos_deadline :: "instant \<Rightarrow> instant \<Rightarrow> duration \<Rightarrow> qos_error + instant" where
  "qos_deadline limit now t =
     (case instant_checked_add limit now t of
        None \<Rightarrow> Inl (InvalidRequest ''response deadline overflows the monotonic clock'')
      | Some d \<Rightarrow> Inr d)"

section \<open>Operations\<close>

definition qos_controller_new :: "qos_limits \<Rightarrow> qos_error + qos_controller" where
  "qos_controller_new l =
     (case limits_validate l of
        Inl e \<Rightarrow> Inl e
      | Inr l' \<Rightarrow> Inr \<lparr>qc_limits = l', qc_next_id = Some 1, qc_by_id = [], qc_by_key = [], qc_retired = []\<rparr>)"

definition qos_allocate_id :: "qos_controller \<Rightarrow> reservation_id qos_result" where
  "qos_allocate_id c =
     (case qc_next_id c of
        None \<Rightarrow> (Inl GenerationCapacityExhausted, c)
      | Some v \<Rightarrow> (Inr v, c\<lparr>qc_next_id := checked_succ v\<rparr>))"

definition setup_message :: "qos_request \<Rightarrow> control_message" where
  "setup_message q =
     (let p = qr_policy q in
      case qr_setup q of
        Listen confirm \<Rightarrow>
          QosListen (qr_flow q) (qp_reservation_style p) (qp_maximum_retries p) (qp_retry_timer p) confirm
            (qp_preemption_priority p) (qp_defending_priority p) (qp_traffic p) (qp_application p)
      | Path \<Rightarrow>
          QosPath (qr_flow q) (qp_reservation_style p) (qp_maximum_retries p) (qp_retry_timer p)
            (qp_preemption_priority p) (qp_defending_priority p) (qp_traffic p) (qp_application p))"

definition teardown_message :: "reservation_key \<Rightarrow> control_message" where
  "teardown_message k = QosTeardown (rk_flow k) (rk_direction k)"

fun phase_state :: "reservation_phase \<Rightarrow> qos_state" where
  "phase_state (Establishing _) = StateEstablishing"
| "phase_state (Active (Pending _)) = StateModifying"
| "phase_state (Active _) = StateActive"

text \<open>
  \<open>start\<close>: the deadline is computed after the identity was allocated, so that an
  overflow of the clock uses an identity up.
\<close>

definition qos_start ::
  "instant \<Rightarrow> qos_request \<Rightarrow> instant \<Rightarrow> qos_controller \<Rightarrow> (reservation_id \<times> qos_transition) qos_result"
where
  "qos_start limit q now c =
     (case validate_request c q of
        Inl e \<Rightarrow> (Inl e, c)
      | Inr _ \<Rightarrow>
          if length (qc_by_id c) \<ge> ql_maximum_live_reservations (qc_limits c)
          then (Inl LiveCapacityExhausted, c)
          else if length (qc_retired c) \<ge> ql_maximum_generations (qc_limits c) - length (qc_by_id c)
          then (Inl GenerationCapacityExhausted, c)
          else
            let key = \<lparr>rk_flow = qr_flow q, rk_direction = qr_direction q\<rparr> in
            if hm_contains (qc_by_key c) key \<or> key \<in> set (qc_retired c)
            then (Inl FlowIdentityReused, c)
            else
              case qos_allocate_id c of
                (Inl e, c1) \<Rightarrow> (Inl e, c1)
              | (Inr i, c1) \<Rightarrow>
                  let confirmed = (qr_setup q \<noteq> Listen False) in
                  (case (if confirmed then map_sum id Establishing (qos_deadline limit now (qr_response_timeout q))
                         else Inr (Active Available)) of
                     Inl e \<Rightarrow> (Inl e, c1)
                   | Inr phase \<Rightarrow>
                       (Inr (i, \<lparr>qx_messages = [setup_message q],
                                 qx_events = (if confirmed then [] else [ActiveWithoutConfirmation i])\<rparr>),
                        c1\<lparr>qc_by_key := hm_insert key i (qc_by_key c1),
                           qc_by_id := hm_insert i \<lparr>rs_key = key, rs_phase = phase\<rparr> (qc_by_id c1)\<rparr>)))"

definition qos_state_of :: "qos_controller \<Rightarrow> reservation_id \<Rightarrow> qos_state option" where
  "qos_state_of c i = map_option (\<lambda>r. phase_state (rs_phase r)) (hm_get (qc_by_id c) i)"

definition qos_len :: "qos_controller \<Rightarrow> nat" where
  "qos_len c = length (qc_by_id c)"

definition set_phase :: "reservation_id \<Rightarrow> reservation_phase \<Rightarrow> qos_controller \<Rightarrow> qos_controller" where
  "set_phase i p c = c\<lparr>qc_by_id := hm_modify i (\<lambda>r. r\<lparr>rs_phase := p\<rparr>) (qc_by_id c)\<rparr>"

definition qos_modify ::
  "instant \<Rightarrow> reservation_id \<Rightarrow> qos_traffic \<Rightarrow> qos_application \<Rightarrow> duration \<Rightarrow> instant \<Rightarrow> qos_controller
     \<Rightarrow> qos_transition qos_result"
where
  "qos_modify limit i traffic app t now c =
     (case validate_application app of
        Inl e \<Rightarrow> (Inl e, c)
      | Inr _ \<Rightarrow>
          (case validate_response_timeout c t of
             Inl e \<Rightarrow> (Inl e, c)
           | Inr _ \<Rightarrow>
               (case hm_get (qc_by_id c) i of
                  None \<Rightarrow> (Inl (UnknownReservation i), c)
                | Some r \<Rightarrow>
                    (case rs_phase r of
                       Active Available \<Rightarrow>
                         (case qos_deadline limit now t of
                            Inl e \<Rightarrow> (Inl e, c)
                          | Inr d \<Rightarrow>
                              (Inr \<lparr>qx_messages = [QosModify (rk_flow (rs_key r)) (rk_direction (rs_key r)) traffic app],
                                    qx_events = []\<rparr>,
                               set_phase i (Active (Pending d)) c))
                     | Active _ \<Rightarrow> (Inl (ModificationAlreadyIssued i), c)
                     | Establishing _ \<Rightarrow>
                         (Inl (InvalidState i ''modify'' (phase_state (rs_phase r))), c)))))"

definition update_dscp :: "reservation_id \<Rightarrow> u8 \<Rightarrow> qos_controller \<Rightarrow> qos_error + qos_transition" where
  "update_dscp i dscp c =
     (if dscp > 63 then Inl (InvalidRequest ''DSCP must fit six bits'')
      else
        case hm_get (qc_by_id c) i of
          None \<Rightarrow> Inl (UnknownReservation i)
        | Some r \<Rightarrow>
            if phase_state (rs_phase r) \<noteq> StateActive
            then Inl (InvalidState i ''update DSCP'' (phase_state (rs_phase r)))
            else Inr \<lparr>qx_messages = [UpdateDscp (rk_flow (rs_key r)) dscp], qx_events = []\<rparr>)"

definition qos_retire :: "reservation_id \<Rightarrow> qos_controller \<Rightarrow> reservation qos_result" where
  "qos_retire i c =
     (case hm_get (qc_by_id c) i of
        None \<Rightarrow> (Inl (UnknownReservation i), c)
      | Some r \<Rightarrow>
          (Inr r, c\<lparr>qc_by_id := hm_remove i (qc_by_id c), qc_by_key := hm_remove (rs_key r) (qc_by_key c),
                    qc_retired := List.insert (rs_key r) (qc_retired c)\<rparr>))"

definition qos_teardown :: "reservation_id \<Rightarrow> qos_controller \<Rightarrow> qos_transition qos_result" where
  "qos_teardown i c =
     (case qos_retire i c of
        (Inl e, c') \<Rightarrow> (Inl e, c')
      | (Inr r, c') \<Rightarrow>
          (Inr \<lparr>qx_messages = [teardown_message (rs_key r)], qx_events = [TornDown i]\<rparr>, c'))"

definition handle_reservation_notify :: "reservation_key \<Rightarrow> qos_controller \<Rightarrow> qos_transition \<times> qos_controller" where
  "handle_reservation_notify key c =
     (case hm_get (qc_by_key c) key of
        None \<Rightarrow> (transition_default, c)
      | Some i \<Rightarrow>
          (case hm_get (qc_by_id c) i of
             None \<Rightarrow> (transition_default, c)
           | Some r \<Rightarrow>
               (case rs_phase r of
                  Active _ \<Rightarrow> (transition_default, c)
                | Establishing _ \<Rightarrow>
                    (\<lparr>qx_messages = [], qx_events = [Established i]\<rparr>, set_phase i (Active Available) c))))"

definition is_modify_failure :: "qos_error_code \<Rightarrow> bool" where
  "is_modify_failure e \<longleftrightarrow> e = ReservationModifyFailed \<or> e = PathModifyFailed"

definition is_preemption :: "qos_error_code \<Rightarrow> bool" where
  "is_preemption e \<longleftrightarrow> e = ReservationPreempted \<or> e = PathPreempted"

fun modification_pending :: "reservation_phase \<Rightarrow> bool" where
  "modification_pending (Active (Pending _)) = True"
| "modification_pending _ = False"

definition handle_error ::
  "reservation_key \<Rightarrow> qos_failure \<Rightarrow> qos_controller \<Rightarrow> qos_transition \<times> qos_controller"
where
  "handle_error key failure c =
     (case hm_get (qc_by_key c) key of
        None \<Rightarrow> (transition_default, c)
      | Some i \<Rightarrow>
          if is_modify_failure (qe_error_code failure)
          then
            (if \<not> (case hm_get (qc_by_id c) i of None \<Rightarrow> False | Some r \<Rightarrow> modification_pending (rs_phase r))
             then (transition_default, c)
             else (\<lparr>qx_messages = [], qx_events = [ModificationFailed i failure]\<rparr>,
                   set_phase i (Active FailureReported) c))
          else
            case qos_retire i c of
              (Inl _, c') \<Rightarrow> (transition_default, c')
            | (Inr r, c') \<Rightarrow>
                if qe_error_code failure = ReservationTornDown
                then (\<lparr>qx_messages = [], qx_events = [TornDown i]\<rparr>, c')
                else (\<lparr>qx_messages = [teardown_message (rs_key r)],
                       qx_events = [if is_preemption (qe_error_code failure) then Preempted i failure
                                    else QosFailed i failure]\<rparr>, c'))"

fun handle_message :: "control_message \<Rightarrow> qos_controller \<Rightarrow> qos_transition \<times> qos_controller" where
  "handle_message (QosReservationNotify flow direction) c =
     handle_reservation_notify \<lparr>rk_flow = flow, rk_direction = direction\<rparr> c"
| "handle_message (QosErrorNotify flow direction failure) c =
     handle_error \<lparr>rk_flow = flow, rk_direction = direction\<rparr> failure c"
| "handle_message _ c = (transition_default, c)"

fun phase_deadline :: "reservation_phase \<Rightarrow> instant option" where
  "phase_deadline (Establishing d) = Some d"
| "phase_deadline (Active (Pending d)) = Some d"
| "phase_deadline _ = None"

definition elapsed :: "instant \<Rightarrow> reservation \<Rightarrow> bool" where
  "elapsed now r \<longleftrightarrow> (case phase_deadline (rs_phase r) of None \<Rightarrow> False | Some d \<Rightarrow> d \<le> now)"

text \<open>The loops of \<open>poll\<close> and \<open>drain\<close>, with the transition built so far.\<close>

fun poll_loop :: "reservation_id list \<Rightarrow> qos_controller \<Rightarrow> qos_transition \<Rightarrow> qos_transition \<times> qos_controller" where
  "poll_loop [] c x = (x, c)"
| "poll_loop (i # is) c x =
     (case qos_state_of c i of
        Some StateEstablishing \<Rightarrow>
          (case qos_retire i c of
             (Inl _, c') \<Rightarrow> poll_loop is c' x
           | (Inr r, c') \<Rightarrow>
               poll_loop is c'
                 \<lparr>qx_messages = qx_messages x @ [teardown_message (rs_key r)],
                  qx_events = qx_events x @ [EstablishmentTimedOut i]\<rparr>)
      | Some StateModifying \<Rightarrow>
          poll_loop is (set_phase i (Active OutcomeUnknown) c)
            \<lparr>qx_messages = qx_messages x, qx_events = qx_events x @ [ModificationOutcomeUnknown i]\<rparr>
      | _ \<Rightarrow> poll_loop is c x)"

definition qos_poll :: "instant \<Rightarrow> qos_controller \<Rightarrow> qos_transition \<times> qos_controller" where
  "qos_poll now c =
     poll_loop (sort (map fst (filter (\<lambda>(_, r). elapsed now r) (qc_by_id c)))) c transition_default"

fun drain_loop :: "reservation_id list \<Rightarrow> qos_controller \<Rightarrow> qos_transition \<Rightarrow> qos_transition \<times> qos_controller" where
  "drain_loop [] c x = (x, c)"
| "drain_loop (i # is) c x =
     (case qos_retire i c of
        (Inl _, c') \<Rightarrow> drain_loop is c' x
      | (Inr r, c') \<Rightarrow>
          drain_loop is c'
            \<lparr>qx_messages = qx_messages x @ [teardown_message (rs_key r)], qx_events = qx_events x @ [TornDown i]\<rparr>)"

definition qos_drain :: "qos_controller \<Rightarrow> qos_transition \<times> qos_controller" where
  "qos_drain c = drain_loop (sort (map fst (qc_by_id c))) c transition_default"

section \<open>Invariant\<close>

definition index_ok :: "qos_controller \<Rightarrow> bool" where
  "index_ok c \<longleftrightarrow>
     (\<forall>i r. hm_get (qc_by_id c) i = Some r \<longrightarrow> hm_get (qc_by_key c) (rs_key r) = Some i)
     \<and> (\<forall>k i. hm_get (qc_by_key c) k = Some i \<longrightarrow>
          (\<exists>r. hm_get (qc_by_id c) i = Some r \<and> rs_key r = k))
     \<and> (\<forall>k \<in> set (qc_retired c). hm_get (qc_by_key c) k = None)"

definition ids_ok :: "qos_controller \<Rightarrow> bool" where
  "ids_ok c \<longleftrightarrow>
     qc_next_id c \<noteq> Some 0
     \<and> (\<forall>i r n. hm_get (qc_by_id c) i = Some r \<longrightarrow> qc_next_id c = Some n \<longrightarrow> i < n)"

definition capacity_ok :: "qos_controller \<Rightarrow> bool" where
  "capacity_ok c \<longleftrightarrow>
     length (qc_by_id c) \<le> ql_maximum_live_reservations (qc_limits c)
     \<and> length (qc_retired c) + length (qc_by_id c) \<le> ql_maximum_generations (qc_limits c)"

definition qos_inv :: "qos_controller \<Rightarrow> bool" where
  "qos_inv c \<longleftrightarrow>
     hm_wf (qc_by_id c) \<and> distinct (qc_retired c) \<and> index_ok c \<and> ids_ok c \<and> capacity_ok c"

lemma qos_invD:
  assumes "qos_inv c"
  shows "hm_get (qc_by_id c) i = Some r \<Longrightarrow> hm_get (qc_by_key c) (rs_key r) = Some i"
    and "hm_get (qc_by_key c) k = Some i \<Longrightarrow> \<exists>r. hm_get (qc_by_id c) i = Some r \<and> rs_key r = k"
    and "k \<in> set (qc_retired c) \<Longrightarrow> hm_get (qc_by_key c) k = None"
    and "hm_get (qc_by_id c) i = Some r \<Longrightarrow> qc_next_id c = Some n \<Longrightarrow> i < n"
    and "hm_wf (qc_by_id c)" and "distinct (qc_retired c)"
  using assms unfolding qos_inv_def index_ok_def ids_ok_def by blast+

lemma qos_inv_new:
  assumes "qos_controller_new l = Inr c"
  shows "qos_inv c"
  using assms
  by (auto simp: qos_controller_new_def qos_inv_def index_ok_def ids_ok_def capacity_ok_def
      split: sum.splits)

lemma set_phase_get:
  "hm_get (qc_by_id (set_phase i p c)) j =
     (if j = i then map_option (\<lambda>r. r\<lparr>rs_phase := p\<rparr>) (hm_get (qc_by_id c) i) else hm_get (qc_by_id c) j)"
  by (simp add: set_phase_def)

lemma set_phase_fields [simp]:
  "qc_by_key (set_phase i p c) = qc_by_key c" "qc_retired (set_phase i p c) = qc_retired c"
  "qc_next_id (set_phase i p c) = qc_next_id c" "qc_limits (set_phase i p c) = qc_limits c"
  by (simp_all add: set_phase_def)

lemma set_phase_length [simp]: "length (qc_by_id (set_phase i p c)) = length (qc_by_id c)"
  by (simp add: set_phase_def hm_modify_def hm_length_insert hm_contains_def split: option.split)

lemma qos_inv_set_phase:
  assumes "qos_inv c"
  shows "qos_inv (set_phase i p c)"
proof -
  let ?c = "set_phase i p c"
  have old: "\<exists>r. hm_get (qc_by_id c) j = Some r \<and> rs_key r = rs_key r'"
    if "hm_get (qc_by_id ?c) j = Some r'" for j r'
    using that by (auto simp: set_phase_get split: if_splits)
  have "hm_get (qc_by_key c) (rs_key r') = Some j" if "hm_get (qc_by_id ?c) j = Some r'" for j r'
    using old [OF that] qos_invD(1) [OF assms] by metis
  moreover have "\<exists>r'. hm_get (qc_by_id ?c) j = Some r' \<and> rs_key r' = k"
    if "hm_get (qc_by_key c) k = Some j" for k j
    using qos_invD(2) [OF assms that] by (auto simp: set_phase_get)
  moreover have "j < n" if "hm_get (qc_by_id ?c) j = Some r'" "qc_next_id c = Some n" for j r' n
    using old [OF that(1)] qos_invD(4) [OF assms _ that(2)] by blast
  moreover have "hm_wf (qc_by_id ?c)" using assms by (simp add: qos_inv_def set_phase_def)
  ultimately show ?thesis
    using assms by (simp add: qos_inv_def index_ok_def ids_ok_def capacity_ok_def)
qed

lemma qos_retire_Some:
  assumes "qos_inv c" and "hm_get (qc_by_id c) i = Some r"
  shows "fst (qos_retire i c) = Inr r" and "qos_inv (snd (qos_retire i c))"
    and "hm_get (qc_by_id (snd (qos_retire i c))) j = (if j = i then None else hm_get (qc_by_id c) j)"
    and "hm_get (qc_by_key (snd (qos_retire i c))) k =
      (if k = rs_key r then None else hm_get (qc_by_key c) k)"
    and "set (qc_retired (snd (qos_retire i c))) = insert (rs_key r) (set (qc_retired c))"
    and "qc_next_id (snd (qos_retire i c)) = qc_next_id c"
proof -
  let ?c = "snd (qos_retire i c)"
  have eq: "qos_retire i c = (Inr r, ?c)" and fields: "qc_by_id ?c = hm_remove i (qc_by_id c)"
    "qc_by_key ?c = hm_remove (rs_key r) (qc_by_key c)"
    "qc_retired ?c = List.insert (rs_key r) (qc_retired c)"
    "qc_next_id ?c = qc_next_id c" "qc_limits ?c = qc_limits c"
    using assms(2) by (simp_all add: qos_retire_def)
  have key: "hm_get (qc_by_key c) (rs_key r) = Some i" by (rule qos_invD(1) [OF assms])
  then have new: "rs_key r \<notin> set (qc_retired c)" using qos_invD(3) [OF assms(1), of "rs_key r"] by auto
  have "index_ok ?c"
    unfolding index_ok_def fields
  proof (intro conjI allI impI ballI)
    fix j r' assume "hm_get (hm_remove i (qc_by_id c)) j = Some r'"
    then have j: "j \<noteq> i" "hm_get (qc_by_id c) j = Some r'" by (auto split: if_splits)
    with qos_invD(1) [OF assms(1) j(2)] key show "hm_get (hm_remove (rs_key r) (qc_by_key c)) (rs_key r') = Some j"
      by auto
  next
    fix k j assume "hm_get (hm_remove (rs_key r) (qc_by_key c)) k = Some j"
    then have k: "k \<noteq> rs_key r" "hm_get (qc_by_key c) k = Some j" by (auto split: if_splits)
    from qos_invD(2) [OF assms(1) k(2)] k(1) assms(2)
    show "\<exists>r'. hm_get (hm_remove i (qc_by_id c)) j = Some r' \<and> rs_key r' = k" by auto
  next
    fix k assume "k \<in> set (List.insert (rs_key r) (qc_retired c))"
    then show "hm_get (hm_remove (rs_key r) (qc_by_key c)) k = None"
      using qos_invD(3) [OF assms(1), of k] by auto
  qed
  moreover have "Suc (length (qc_by_id ?c)) = length (qc_by_id c)"
    unfolding fields using assms by (intro hm_length_remove) (auto simp: qos_inv_def hm_contains_def)
  ultimately show "qos_inv ?c"
    using assms(1) new by (auto simp: qos_inv_def ids_ok_def capacity_ok_def fields split: if_splits)
  show "fst (qos_retire i c) = Inr r" by (metis eq fst_conv)
  show "hm_get (qc_by_id ?c) j = (if j = i then None else hm_get (qc_by_id c) j)" by (simp add: fields)
  show "hm_get (qc_by_key ?c) k = (if k = rs_key r then None else hm_get (qc_by_key c) k)" by (simp add: fields)
  show "set (qc_retired ?c) = insert (rs_key r) (set (qc_retired c))" by (simp add: fields)
  show "qc_next_id ?c = qc_next_id c" by (simp add: fields)
qed

lemma qos_retire_None: "hm_get (qc_by_id c) i = None \<Longrightarrow> qos_retire i c = (Inl (UnknownReservation i), c)"
  by (simp add: qos_retire_def)

lemma qos_inv_retire: "qos_inv c \<Longrightarrow> qos_inv (snd (qos_retire i c))"
  by (cases "hm_get (qc_by_id c) i") (simp_all add: qos_retire_None qos_retire_Some(2))

lemma qos_inv_insert:
  assumes inv: "qos_inv c" and fresh: "hm_get (qc_by_id c) v = None" "hm_get (qc_by_key c) key = None"
    and "key \<notin> set (qc_retired c)" and "\<And>n. qc_next_id c = Some n \<Longrightarrow> v < n"
    and "length (qc_by_id c) < ql_maximum_live_reservations (qc_limits c)"
    and "length (qc_retired c) < ql_maximum_generations (qc_limits c) - length (qc_by_id c)"
  shows "qos_inv (c\<lparr>qc_by_key := hm_insert key v (qc_by_key c),
      qc_by_id := hm_insert v \<lparr>rs_key = key, rs_phase = p\<rparr> (qc_by_id c)\<rparr>)" (is "qos_inv ?c")
proof -
  have unused: "hm_get (qc_by_key c) k \<noteq> Some v" for k
    using qos_invD(2) [OF inv, of k v] fresh(1) by auto
  have "index_ok ?c"
    unfolding index_ok_def
  proof (intro conjI allI impI ballI)
    show "hm_get (qc_by_key ?c) (rs_key r) = Some i" if "hm_get (qc_by_id ?c) i = Some r" for i r
      using that fresh(2) qos_invD(1) [OF inv, of i r] by (auto split: if_splits)
    show "\<exists>r. hm_get (qc_by_id ?c) i = Some r \<and> rs_key r = k" if "hm_get (qc_by_key ?c) k = Some i" for k i
      using that unused [of k] qos_invD(2) [OF inv, of k i] by (auto split: if_splits)
    show "hm_get (qc_by_key ?c) k = None" if "k \<in> set (qc_retired ?c)" for k
      using that assms(4) qos_invD(3) [OF inv, of k] by auto
  qed
  moreover have "ids_ok ?c" using inv assms(5) by (auto simp: qos_inv_def ids_ok_def)
  ultimately show ?thesis
    using inv fresh(1) assms(6,7) by (simp add: qos_inv_def capacity_ok_def hm_length_insert hm_contains_def)
qed

lemma qos_inv_start:
  assumes "qos_inv c"
  shows "qos_inv (snd (qos_start limit q now c))"
proof (cases "qc_next_id c")
  case None
  with assms show ?thesis
    by (simp add: qos_start_def qos_allocate_id_def Let_def split: sum.split)
next
  case (Some v)
  let ?key = "\<lparr>rk_flow = qr_flow q, rk_direction = qr_direction q\<rparr>"
  let ?c1 = "c\<lparr>qc_next_id := checked_succ v\<rparr>"
  have fresh: "hm_get (qc_by_id c) v = None"
    using qos_invD(4) [OF assms _ Some] by (metis less_irrefl not_Some_eq)
  have next_ok: "checked_succ v \<noteq> Some 0" "\<And>n. checked_succ v = Some n \<Longrightarrow> v < n"
    using checked_succ_pos [of v 0] checked_succ_less [of v] by blast+
  have c1: "qos_inv ?c1"
    using assms next_ok(1) qos_invD(4) [OF assms _ Some] less_trans [OF _ next_ok(2)]
    by (auto simp: qos_inv_def index_ok_def ids_ok_def capacity_ok_def)
  have "qos_inv (?c1\<lparr>qc_by_key := hm_insert ?key v (qc_by_key c),
      qc_by_id := hm_insert v \<lparr>rs_key = ?key, rs_phase = p\<rparr> (qc_by_id c)\<rparr>)"
    if "\<not> ql_maximum_live_reservations (qc_limits c) \<le> length (qc_by_id c)"
      "\<not> ql_maximum_generations (qc_limits c) - length (qc_by_id c) \<le> length (qc_retired c)"
      "\<not> hm_contains (qc_by_key c) ?key" "?key \<notin> set (qc_retired c)" for p
    using that fresh next_ok(2) qos_inv_insert [OF c1, of v ?key p] by (auto simp: hm_contains_def)
  with assms c1 Some show ?thesis
    by (auto simp: qos_start_def qos_allocate_id_def Let_def split: sum.splits)
qed

section \<open>Histories\<close>

datatype qos_action =
    Start qos_request instant
  | Modify reservation_id qos_traffic qos_application duration instant
  | Teardown reservation_id
  | Message control_message
  | Poll instant
  | Drain

fun qos_apply :: "instant \<Rightarrow> qos_action \<Rightarrow> qos_controller \<Rightarrow> qos_controller" where
  "qos_apply limit (Start q now) c = snd (qos_start limit q now c)"
| "qos_apply limit (Modify i traffic app t now) c = snd (qos_modify limit i traffic app t now c)"
| "qos_apply limit (Teardown i) c = snd (qos_teardown i c)"
| "qos_apply limit (Message m) c = snd (handle_message m c)"
| "qos_apply limit (Poll now) c = snd (qos_poll now c)"
| "qos_apply limit Drain c = snd (qos_drain c)"

text \<open>
  Every action is made of a few steps: starting a reservation, retiring one, and the
  changes of phase that the code makes.
\<close>

inductive qos_step :: "qos_controller \<Rightarrow> qos_controller \<Rightarrow> bool" where
  step_start: "qos_step c (snd (qos_start limit q now c))"
| step_retire: "qos_step c (snd (qos_retire i c))"
| step_established: "hm_get (qc_by_id c) i = Some r \<Longrightarrow> rs_phase r = Establishing d
    \<Longrightarrow> qos_step c (set_phase i (Active Available) c)"
| step_modify: "hm_get (qc_by_id c) i = Some r \<Longrightarrow> rs_phase r = Active Available
    \<Longrightarrow> qos_step c (set_phase i (Active (Pending d)) c)"
| step_modified: "hm_get (qc_by_id c) i = Some r \<Longrightarrow> rs_phase r = Active (Pending d)
    \<Longrightarrow> m = OutcomeUnknown \<or> m = FailureReported \<Longrightarrow> qos_step c (set_phase i (Active m) c)"

abbreviation qos_steps :: "qos_controller \<Rightarrow> qos_controller \<Rightarrow> bool" where
  "qos_steps \<equiv> qos_step\<^sup>*\<^sup>*"

lemma phase_state_cases:
  "phase_state p = StateEstablishing \<longleftrightarrow> (\<exists>d. p = Establishing d)"
  "phase_state p = StateModifying \<longleftrightarrow> (\<exists>d. p = Active (Pending d))"
  by (cases p rule: phase_state.cases; simp)+

lemma poll_loop_steps: "qos_steps c (snd (poll_loop is c x))"
proof (induction "is" c x rule: poll_loop.induct)
  case (2 i "is" c x)
  show ?case
  proof (cases "qos_state_of c i")
    case (Some st)
    then obtain r where r: "hm_get (qc_by_id c) i = Some r" "phase_state (rs_phase r) = st"
      by (auto simp: qos_state_of_def)
    show ?thesis
    proof (cases st)
      case StateEstablishing
      obtain y c' where y: "qos_retire i c = (y, c')" by fastforce
      then have "qos_step c c'" using step_retire [of c i] by simp
      moreover have "qos_steps c' (snd (poll_loop (i # is) c x))"
        using 2 Some StateEstablishing y by (cases y) simp_all
      ultimately show ?thesis by (rule converse_rtranclp_into_rtranclp)
    next
      case StateModifying
      then obtain d where "rs_phase r = Active (Pending d)" using r(2) by (auto simp: phase_state_cases)
      from step_modified [OF r(1) this, of OutcomeUnknown] 2 Some StateModifying show ?thesis
        by (simp add: converse_rtranclp_into_rtranclp)
    next
      case StateActive
      with 2 Some show ?thesis by simp
    qed
  qed (use 2 in simp)
qed simp

lemma drain_loop_steps: "qos_steps c (snd (drain_loop is c x))"
proof (induction "is" c x rule: drain_loop.induct)
  case (2 i "is" c x)
  obtain y c' where y: "qos_retire i c = (y, c')" by fastforce
  then have "qos_step c c'" using step_retire [of c i] by simp
  moreover have "qos_steps c' (snd (drain_loop (i # is) c x))" using 2 y by (cases y) simp_all
  ultimately show ?case by (rule converse_rtranclp_into_rtranclp)
qed simp

lemma handle_message_steps: "qos_steps c (snd (handle_message m c))"
proof (cases m)
  case (QosReservationNotify flow direction)
  then show ?thesis
    by (auto simp: handle_reservation_notify_def intro!: r_into_rtranclp [of qos_step, OF step_established]
        split: option.split reservation_phase.split)
next
  case (QosErrorNotify flow direction failure)
  have retire: "qos_step c c'" if "qos_retire i c = (y, c')" for i y c'
    using step_retire [of c i] that by simp
  have pend: "\<exists>d. p = Active (Pending d)" if "modification_pending p" for p
    using that by (cases p rule: modification_pending.cases) auto
  show ?thesis
  proof (cases "is_modify_failure (qe_error_code failure)")
    case True
    then show ?thesis
      unfolding QosErrorNotify handle_message.simps handle_error_def
      by (auto split: option.split dest!: pend intro!: r_into_rtranclp [of qos_step, OF step_modified])
  next
    case False
    then show ?thesis
      unfolding QosErrorNotify handle_message.simps handle_error_def
      by (auto split: option.split prod.split sum.split intro!: r_into_rtranclp [of qos_step, OF retire])
  qed
qed simp_all

lemma qos_apply_steps: "qos_steps c (qos_apply limit a c)"
proof (cases a)
  case (Modify i traffic app t now)
  then show ?thesis
    by (auto simp: qos_modify_def intro!: r_into_rtranclp [of qos_step, OF step_modify]
        split: sum.split option.split reservation_phase.split modification.split)
next
  case (Teardown i)
  have "snd (qos_teardown i c) = snd (qos_retire i c)"
    by (simp add: qos_teardown_def split: prod.split sum.split)
  with Teardown show ?thesis by (simp add: r_into_rtranclp step_retire)
qed (simp_all add: r_into_rtranclp step_start handle_message_steps poll_loop_steps drain_loop_steps
    qos_poll_def qos_drain_def)

lemma qos_step_inv: "qos_step c c' \<Longrightarrow> qos_inv c \<Longrightarrow> qos_inv c'"
  by (induction rule: qos_step.induct) (simp_all add: qos_inv_start qos_inv_retire qos_inv_set_phase)

lemma qos_steps_inv: "qos_steps c c' \<Longrightarrow> qos_inv c \<Longrightarrow> qos_inv c'"
  by (induction rule: rtranclp_induct) (auto intro: qos_step_inv)

lemma qos_fold_steps: "qos_steps c (fold (qos_apply limit) as c)"
proof (induction as arbitrary: c)
  case (Cons a as)
  from qos_apply_steps [of c limit a] Cons [of "qos_apply limit a c"] show ?case by simp
qed simp

text \<open>The identities that have ever been in use: live or retired.\<close>

definition used_keys :: "qos_controller \<Rightarrow> reservation_key set" where
  "used_keys c = {k. hm_contains (qc_by_key c) k} \<union> set (qc_retired c)"

lemma qos_start_refuses_used:
  assumes "\<lparr>rk_flow = qr_flow q, rk_direction = qr_direction q\<rparr> \<in> used_keys c"
  shows "\<exists>e. qos_start limit q now c = (Inl e, c)"
  using assms by (auto simp: qos_start_def used_keys_def split: sum.split)

lemma qos_start_used: "used_keys c \<subseteq> used_keys (snd (qos_start limit q now c))"
  by (auto simp: used_keys_def qos_start_def qos_allocate_id_def Let_def split: sum.splits option.splits)

lemma qos_step_used: "qos_step c c' \<Longrightarrow> qos_inv c \<Longrightarrow> used_keys c \<subseteq> used_keys c'"
proof (induction rule: qos_step.induct)
  case (step_retire c i)
  show ?case
  proof (cases "hm_get (qc_by_id c) i")
    case (Some r)
    show ?thesis
      using qos_retire_Some(4,5) [OF step_retire Some] by (auto simp: used_keys_def hm_contains_def)
  qed (simp add: qos_retire_None)
qed (use qos_start_used in \<open>auto simp: used_keys_def\<close>)

lemma qos_steps_used: "qos_steps c c' \<Longrightarrow> qos_inv c \<Longrightarrow> used_keys c \<subseteq> used_keys c'"
proof (induction rule: rtranclp_induct)
  case (step d e)
  then have "qos_inv d" using qos_steps_inv by blast
  with step qos_step_used show ?case by blast
qed simp

lemma qos_step_limits: "qos_step c c' \<Longrightarrow> qc_limits c' = qc_limits c"
  by (induction rule: qos_step.induct)
    (auto simp: qos_start_def qos_allocate_id_def qos_retire_def Let_def split: sum.splits option.splits)

lemma qos_steps_limits: "qos_steps c c' \<Longrightarrow> qc_limits c' = qc_limits c"
  by (induction rule: rtranclp_induct) (auto dest: qos_step_limits)

section \<open>Properties of identities\<close>

text \<open>
  C27. The controller stays within its bounds: whatever its history, there are at most
  as many live reservations as allowed, and live and retired ones together stay within
  the generation limit; the two indexes describe each other, and no retired identity
  has a live reservation.
\<close>

theorem qos_controller_bounded:
  assumes "qos_controller_new l = Inr c0" and "c = fold (qos_apply limit) as c0"
  shows "qos_len c \<le> ql_maximum_live_reservations l
    \<and> length (qc_retired c) + qos_len c \<le> ql_maximum_generations l
    \<and> (hm_get (qc_by_key c) k = Some i \<longleftrightarrow> (\<exists>r. hm_get (qc_by_id c) i = Some r \<and> rs_key r = k))
    \<and> (k \<in> set (qc_retired c) \<longrightarrow> hm_get (qc_by_key c) k = None)"
proof -
  have steps: "qos_steps c0 c" unfolding assms(2) by (rule qos_fold_steps)
  have inv: "qos_inv c" by (rule qos_steps_inv [OF steps qos_inv_new [OF assms(1)]])
  have "qc_limits c = l"
    using qos_steps_limits [OF steps] assms(1)
    by (auto simp: qos_controller_new_def limits_validate_def split: sum.splits if_splits)
  with inv have "qos_len c \<le> ql_maximum_live_reservations l"
    "length (qc_retired c) + qos_len c \<le> ql_maximum_generations l"
    by (auto simp: qos_inv_def capacity_ok_def qos_len_def)
  then show ?thesis
    using qos_invD(1) [OF inv, of i] qos_invD(2) [OF inv, of k i] qos_invD(3) [OF inv, of k] by blast
qed

lemma qos_start_Inr:
  assumes "qos_start limit q now c = (Inr (i, x), c1)" and "qos_inv c"
  shows "qc_next_id c = Some i" and "qc_next_id c1 = checked_succ i"
    and "hm_get (qc_by_key c1) \<lparr>rk_flow = qr_flow q, rk_direction = qr_direction q\<rparr> = Some i"
    and "qos_inv c1"
  using assms qos_inv_start [OF assms(2), of limit q now]
  by (auto simp: qos_start_def qos_allocate_id_def Let_def split: sum.splits option.splits if_splits)

text \<open>Identities only grow.\<close>

definition beyond :: "reservation_id \<Rightarrow> qos_controller \<Rightarrow> bool" where
  "beyond i c \<longleftrightarrow> (\<forall>n. qc_next_id c = Some n \<longrightarrow> i < n)"

lemma qos_start_beyond: "beyond i c \<Longrightarrow> beyond i (snd (qos_start limit q now c))"
  by (auto simp: beyond_def qos_start_def qos_allocate_id_def Let_def split: sum.splits option.splits
      dest: checked_succ_less less_trans)

lemma qos_retire_next [simp]: "qc_next_id (snd (qos_retire i c)) = qc_next_id c"
  by (simp add: qos_retire_def split: option.split)

lemma qos_step_beyond: "qos_step c c' \<Longrightarrow> beyond i c \<Longrightarrow> beyond i c'"
  by (induction rule: qos_step.induct) (use qos_start_beyond in \<open>simp_all add: beyond_def\<close>)

lemma qos_steps_beyond: "qos_steps c c' \<Longrightarrow> beyond i c \<Longrightarrow> beyond i c'"
  by (induction rule: rtranclp_induct) (auto dest: qos_step_beyond)

text \<open>A wire identity stays with its reservation until it is retired, and is retired for good.\<close>

definition held :: "reservation_key \<Rightarrow> reservation_id \<Rightarrow> qos_controller \<Rightarrow> bool" where
  "held k i c \<longleftrightarrow> hm_get (qc_by_key c) k = Some i \<or> k \<in> set (qc_retired c)"

lemma qos_start_held: "held k i c \<Longrightarrow> held k i (snd (qos_start limit q now c))"
  by (auto simp: held_def qos_start_def qos_allocate_id_def Let_def hm_contains_def
      split: sum.splits option.splits)

lemma qos_step_held: "qos_step c c' \<Longrightarrow> qos_inv c \<Longrightarrow> held k i c \<Longrightarrow> held k i c'"
proof (induction rule: qos_step.induct)
  case (step_retire c j)
  show ?case
  proof (cases "hm_get (qc_by_id c) j")
    case (Some r)
    show ?thesis
      using qos_retire_Some(4,5) [OF step_retire(1) Some] step_retire(2) by (auto simp: held_def)
  qed (use step_retire in \<open>simp add: qos_retire_None\<close>)
qed (use qos_start_held in \<open>simp_all add: held_def\<close>)

lemma qos_steps_held:
  assumes "qos_steps c c'" and "qos_inv c" and "held k i c"
  shows "held k i c'"
  using assms(1)
proof (induction rule: rtranclp_induct)
  case (step d e)
  with qos_step_held [OF step(2) qos_steps_inv [OF step(1) assms(2)]] show ?case by blast
qed (rule assms(3))

lemma held_gone:
  assumes "qos_inv c" and "held k i c" and "hm_get (qc_by_id c) i = None"
  shows "hm_get (qc_by_key c) k = None"
  using assms(2,3) qos_invD(2) [OF assms(1), of k i] qos_invD(3) [OF assms(1), of k]
  by (auto simp: held_def)

text \<open>
  C28. A wire identity is used once: after a reservation was started, whatever happens
  later, no request for the same flow and direction is accepted again, every
  reservation started later has a larger identity, and once this reservation is gone,
  notifications and errors for its flow and direction change nothing and say nothing.
\<close>

theorem qos_identity_used_once:
  assumes "qos_controller_new l = Inr c0" and "c = fold (qos_apply limit) as c0"
    and "qos_start limit q now c = (Inr (i, x), c1)" and "c2 = fold (qos_apply limit) bs c1"
  shows "(qr_flow q' = qr_flow q \<and> qr_direction q' = qr_direction q
        \<longrightarrow> (\<exists>e. qos_start limit q' now' c2 = (Inl e, c2)))
    \<and> (qos_start limit q' now' c2 = (Inr (j, y), c3) \<longrightarrow> i < j)
    \<and> (hm_get (qc_by_id c2) i = None \<longrightarrow>
        handle_message (QosReservationNotify (qr_flow q) (qr_direction q)) c2 = (transition_default, c2)
        \<and> handle_message (QosErrorNotify (qr_flow q) (qr_direction q) failure) c2 = (transition_default, c2))"
proof -
  let ?key = "\<lparr>rk_flow = qr_flow q, rk_direction = qr_direction q\<rparr>"
  have inv: "qos_inv c" unfolding assms(2) by (rule qos_steps_inv [OF qos_fold_steps qos_inv_new [OF assms(1)]])
  note start = qos_start_Inr [OF assms(3) inv]
  have steps: "qos_steps c1 c2" unfolding assms(4) by (rule qos_fold_steps)
  have inv2: "qos_inv c2" by (rule qos_steps_inv [OF steps start(4)])
  have used: "?key \<in> used_keys c2"
    using qos_steps_used [OF steps start(4)] start(3) by (auto simp: used_keys_def hm_contains_def)
  have "beyond i c1" using start(2) checked_succ_less [of i] by (simp add: beyond_def)
  then have beyond: "beyond i c2" by (rule qos_steps_beyond [OF steps])
  have "held ?key i c1" using start(3) by (simp add: held_def)
  then have held: "held ?key i c2" by (rule qos_steps_held [OF steps start(4)])
  have "i < j" if "qos_start limit q' now' c2 = (Inr (j, y), c3)"
    using qos_start_Inr(1) [OF that inv2] beyond by (simp add: beyond_def)
  moreover have "handle_message (QosReservationNotify (qr_flow q) (qr_direction q)) c2 = (transition_default, c2)"
    "handle_message (QosErrorNotify (qr_flow q) (qr_direction q) failure) c2 = (transition_default, c2)"
    if "hm_get (qc_by_id c2) i = None"
    using held_gone [OF inv2 held that] by (simp_all add: handle_reservation_notify_def handle_error_def)
  ultimately show ?thesis using used qos_start_refuses_used [of q' c2] by auto
qed

section \<open>One modification\<close>

text \<open>The modification of a reservation has been used up: it is issued, or the reservation is gone.\<close>

definition spent :: "reservation_id \<Rightarrow> qos_controller \<Rightarrow> bool" where
  "spent i c \<longleftrightarrow> beyond i c
     \<and> (\<forall>r. hm_get (qc_by_id c) i = Some r \<longrightarrow> (\<exists>m. rs_phase r = Active m \<and> m \<noteq> Available))"

lemma spentD: "spent i c \<Longrightarrow> hm_get (qc_by_id c) i = Some r \<Longrightarrow> \<exists>m. rs_phase r = Active m \<and> m \<noteq> Available"
  by (simp add: spent_def)

lemma qos_start_get:
  assumes "beyond i c"
  shows "hm_get (qc_by_id (snd (qos_start limit q now c))) i = hm_get (qc_by_id c) i"
  using assms by (auto simp: beyond_def qos_start_def qos_allocate_id_def Let_def split: sum.splits option.splits)

lemma spent_set_phase:
  assumes "spent i c" and "j = i \<Longrightarrow> \<exists>m. p = Active m \<and> m \<noteq> Available"
  shows "spent i (set_phase j p c)"
  using assms by (auto simp: spent_def beyond_def set_phase_get)

lemma qos_retire_get:
  "hm_get (qc_by_id (snd (qos_retire i c))) j = (if j = i then None else hm_get (qc_by_id c) j)"
  by (auto simp: qos_retire_def split: option.split)

lemma qos_step_spent: "qos_step c c' \<Longrightarrow> spent i c \<Longrightarrow> spent i c'"
proof (induction rule: qos_step.induct)
  case (step_start c limit q now)
  then show ?case using qos_start_beyond qos_start_get by (simp add: spent_def)
next
  case (step_retire c j)
  then show ?case by (auto simp: spent_def beyond_def qos_retire_get split: if_splits)
next
  case (step_established c j r d)
  then have "j \<noteq> i" using spentD [of i c r] by auto
  with step_established show ?case by (auto intro: spent_set_phase)
next
  case (step_modify c j r d)
  then have "j \<noteq> i" using spentD [of i c r] by auto
  with step_modify show ?case by (auto intro: spent_set_phase)
qed (auto intro: spent_set_phase)

lemma qos_steps_spent: "qos_steps c c' \<Longrightarrow> spent i c \<Longrightarrow> spent i c'"
  by (induction rule: rtranclp_induct) (auto dest: qos_step_spent)

lemma spent_refused:
  assumes "spent i c"
  shows "\<exists>e. qos_modify limit i traffic app t now c = (Inl e, c)"
  using spentD [OF assms]
  by (fastforce simp: qos_modify_def split: sum.split option.split reservation_phase.split modification.split)

lemma qos_modify_Inr:
  assumes "qos_modify limit i traffic app t now c = (Inr x, c1)"
  obtains r where "hm_get (qc_by_id c) i = Some r" "rs_phase r = Active Available"
    "c1 = set_phase i (Active (Pending (now + t))) c"
    "x = \<lparr>qx_messages = [QosModify (rk_flow (rs_key r)) (rk_direction (rs_key r)) traffic app], qx_events = []\<rparr>"
  using assms
  by (auto simp: qos_modify_def qos_deadline_def instant_checked_add_def split: sum.splits option.splits reservation_phase.splits
      modification.splits if_splits)

text \<open>
  A reservation is modified at most once: the one accepted modification sends one
  message for the flow of an active reservation, and whatever happens later, however
  the modification ended, no other one for the same identity is accepted or changes
  anything.
\<close>

theorem qos_modified_once:
  assumes "qos_controller_new l = Inr c0" and "c = fold (qos_apply limit) as c0"
    and "qos_modify limit i traffic app t now c = (Inr x, c1)" and "c2 = fold (qos_apply limit) bs c1"
  shows "(\<exists>r. hm_get (qc_by_id c) i = Some r
        \<and> x = \<lparr>qx_messages = [QosModify (rk_flow (rs_key r)) (rk_direction (rs_key r)) traffic app],
               qx_events = []\<rparr>)
    \<and> qos_state_of c i = Some StateActive \<and> qos_state_of c1 i = Some StateModifying
    \<and> (\<exists>e. qos_modify limit i traffic' app' t' now' c2 = (Inl e, c2))"
proof -
  have inv: "qos_inv c" unfolding assms(2) by (rule qos_steps_inv [OF qos_fold_steps qos_inv_new [OF assms(1)]])
  obtain r where r: "hm_get (qc_by_id c) i = Some r" "rs_phase r = Active Available"
    and c1: "c1 = set_phase i (Active (Pending (now + t))) c"
    and x: "x = \<lparr>qx_messages = [QosModify (rk_flow (rs_key r)) (rk_direction (rs_key r)) traffic app], qx_events = []\<rparr>"
    by (rule qos_modify_Inr [OF assms(3)])
  have "spent i c1"
    using qos_invD(4) [OF inv r(1)] r(1) by (auto simp: spent_def beyond_def c1 set_phase_get)
  then have "spent i c2" unfolding assms(4) by (rule qos_steps_spent [OF qos_fold_steps])
  from spent_refused [OF this] r x show ?thesis
    by (simp add: qos_state_of_def c1 set_phase_get)
qed

section \<open>Sweeps\<close>

text \<open>
  The loops of \<open>poll\<close> and \<open>drain\<close> as sweeps over the reservations: a visit says which
  messages and events it adds.
\<close>

type_synonym effect = "control_message list \<times> qos_event list"

fun poll_outcome :: "reservation_id \<Rightarrow> reservation option \<Rightarrow> effect option" where
  "poll_outcome i None = None"
| "poll_outcome i (Some r) =
     (case phase_state (rs_phase r) of
        StateEstablishing \<Rightarrow> Some ([teardown_message (rs_key r)], [EstablishmentTimedOut i])
      | StateModifying \<Rightarrow> Some ([], [ModificationOutcomeUnknown i])
      | StateActive \<Rightarrow> None)"

fun poll_becomes :: "reservation option \<Rightarrow> reservation option" where
  "poll_becomes None = None"
| "poll_becomes (Some r) =
     (case phase_state (rs_phase r) of
        StateEstablishing \<Rightarrow> None
      | StateModifying \<Rightarrow> Some (r\<lparr>rs_phase := Active OutcomeUnknown\<rparr>)
      | StateActive \<Rightarrow> Some r)"

definition poll_visit :: "reservation_id \<Rightarrow> qos_controller \<Rightarrow> effect option \<times> qos_controller" where
  "poll_visit i c =
     (poll_outcome i (hm_get (qc_by_id c) i),
      case qos_state_of c i of
        Some StateEstablishing \<Rightarrow> snd (qos_retire i c)
      | Some StateModifying \<Rightarrow> set_phase i (Active OutcomeUnknown) c
      | _ \<Rightarrow> c)"

definition drain_visit :: "reservation_id \<Rightarrow> qos_controller \<Rightarrow> effect option \<times> qos_controller" where
  "drain_visit i c =
     (map_option (\<lambda>r. ([teardown_message (rs_key r)], [TornDown i])) (hm_get (qc_by_id c) i),
      snd (qos_retire i c))"

interpretation poll_sweep: keyed_sweep "\<lambda>c. hm_get (qc_by_id c)" qos_inv "\<lambda>i. i" poll_visit
  poll_outcome "\<lambda>_. poll_becomes"
proof unfold_locales
  fix c i k
  show "hm_get (qc_by_id (snd (poll_visit i c))) k =
      (if k = i then poll_becomes (hm_get (qc_by_id c) k) else hm_get (qc_by_id c) k)"
    by (auto simp: poll_visit_def qos_state_of_def qos_retire_get set_phase_get
        split: option.split qos_state.split)
  show "qos_inv (snd (poll_visit i c))" if "qos_inv c"
    using that by (auto simp: poll_visit_def qos_inv_retire qos_inv_set_phase split: option.split qos_state.split)
qed (simp add: poll_visit_def)

interpretation drain_sweep: keyed_sweep "\<lambda>c. hm_get (qc_by_id c)" qos_inv "\<lambda>i. i" drain_visit
  "\<lambda>i. map_option (\<lambda>r. ([teardown_message (rs_key r)], [TornDown i]))" "\<lambda>_ _. None"
  by unfold_locales (simp_all add: drain_visit_def qos_retire_get qos_inv_retire)

definition emit :: "qos_transition \<Rightarrow> effect list \<Rightarrow> qos_transition" where
  "emit x es = \<lparr>qx_messages = qx_messages x @ concat (map fst es), qx_events = qx_events x @ concat (map snd es)\<rparr>"

lemma emit_simps [simp]:
  "emit x [] = x"
  "emit x ((ms, evs) # es) = emit \<lparr>qx_messages = qx_messages x @ ms, qx_events = qx_events x @ evs\<rparr> es"
  by (simp_all add: emit_def)

lemma poll_loop_visit:
  "poll_loop (i # is) c x =
     (case poll_visit i c of (y, c') \<Rightarrow> poll_loop is c' (case y of None \<Rightarrow> x | Some e \<Rightarrow> emit x [e]))"
  by (cases "hm_get (qc_by_id c) i")
    (auto simp: poll_visit_def qos_state_of_def qos_retire_def emit_def split: qos_state.split)

lemma drain_loop_visit:
  "drain_loop (i # is) c x =
     (case drain_visit i c of (y, c') \<Rightarrow> drain_loop is c' (case y of None \<Rightarrow> x | Some e \<Rightarrow> emit x [e]))"
  by (cases "hm_get (qc_by_id c) i") (auto simp: drain_visit_def qos_retire_def emit_def)

lemma loop_sweep:
  assumes "\<And>c x. loop [] c x = (x, c)"
    and "\<And>i is c x. loop (i # is) c x =
      (case visit i c of (y, c') \<Rightarrow> loop is c' (case y of None \<Rightarrow> x | Some e \<Rightarrow> emit x [e]))"
  shows "loop is c x = (emit x (fst (filter_map_st visit is c)), snd (filter_map_st visit is c))"
proof (induction "is" arbitrary: c x)
  case (Cons i "is")
  obtain y c' where visit: "visit i c = (y, c')" by fastforce
  with Cons show ?case
    by (simp add: assms(2) split_def Let_def emit_def split: option.split)
qed (simp add: assms(1))

lemmas poll_loop_sweep = loop_sweep [of poll_loop poll_visit, OF _ poll_loop_visit, simplified]
  and drain_loop_sweep = loop_sweep [of drain_loop drain_visit, OF _ drain_loop_visit, simplified]

definition due :: "instant \<Rightarrow> qos_controller \<Rightarrow> reservation_id list" where
  "due now c = sort (map fst (filter (\<lambda>(_, r). elapsed now r) (qc_by_id c)))"

lemma due_distinct: "qos_inv c \<Longrightarrow> distinct (due now c)"
  by (auto simp: due_def qos_inv_def hm_wf_def distinct_map inj_on_def)

lemma due_iff:
  assumes "qos_inv c"
  shows "i \<in> set (due now c) \<longleftrightarrow> (\<exists>r. hm_get (qc_by_id c) i = Some r \<and> elapsed now r)"
proof -
  have "(i, r) \<in> set (qc_by_id c) \<longleftrightarrow> hm_get (qc_by_id c) i = Some r" for r
    using qos_invD(5) [OF assms] by (simp add: hm_wf_def)
  then show ?thesis by (force simp: due_def)
qed

lemma elapsed_state: "elapsed now r \<Longrightarrow> phase_state (rs_phase r) \<noteq> StateActive"
  by (cases "rs_phase r" rule: phase_state.cases) (auto simp: elapsed_def)

text \<open>What a due reservation leaves behind.\<close>

definition after_poll :: "instant \<Rightarrow> reservation \<Rightarrow> reservation option" where
  "after_poll now r = (if elapsed now r then poll_becomes (Some r) else Some r)"

lemma after_poll_settled: "after_poll now r = Some r' \<Longrightarrow> \<not> elapsed now r'"
  by (cases "rs_phase r" rule: phase_state.cases) (auto simp: after_poll_def elapsed_def split: if_splits)

definition timeout_messages :: "qos_controller \<Rightarrow> reservation_id \<Rightarrow> control_message list" where
  "timeout_messages c i =
     (case hm_get (qc_by_id c) i of
        None \<Rightarrow> []
      | Some r \<Rightarrow> if phase_state (rs_phase r) = StateEstablishing then [teardown_message (rs_key r)] else [])"

definition timeout_event :: "qos_controller \<Rightarrow> reservation_id \<Rightarrow> qos_event" where
  "timeout_event c i =
     (if qos_state_of c i = Some StateEstablishing then EstablishmentTimedOut i else ModificationOutcomeUnknown i)"

lemma poll_outcome_due:
  assumes "qos_inv c" and "i \<in> set (due now c)"
  shows "poll_outcome i (hm_get (qc_by_id c) i) = Some (timeout_messages c i, [timeout_event c i])"
proof -
  obtain r where r: "hm_get (qc_by_id c) i = Some r" and "elapsed now r"
    using assms due_iff by blast
  then have "phase_state (rs_phase r) \<noteq> StateActive" using elapsed_state by blast
  with r show ?thesis
    by (cases "phase_state (rs_phase r)") (simp_all add: timeout_messages_def timeout_event_def qos_state_of_def)
qed

lemma qos_poll_transition:
  assumes "qos_inv c"
  shows "fst (qos_poll now c) =
    \<lparr>qx_messages = concat (map (timeout_messages c) (due now c)), qx_events = map (timeout_event c) (due now c)\<rparr>"
proof -
  have "fst (filter_map_st poll_visit (due now c) c) =
      map (\<lambda>i. (timeout_messages c i, [timeout_event c i])) (due now c)"
    using poll_sweep.sweep_outcomes [OF assms, of "due now c"] due_distinct [OF assms]
      map_filter_all_Some [OF poll_outcome_due [OF assms]] by simp
  moreover have "fst (qos_poll now c) = emit transition_default (fst (filter_map_st poll_visit (due now c) c))"
    by (simp add: qos_poll_def due_def poll_loop_sweep)
  ultimately show ?thesis by (simp add: emit_def transition_default_def comp_def)
qed

lemma qos_poll_get:
  assumes "qos_inv c"
  shows "hm_get (qc_by_id (snd (qos_poll now c))) i = Option.bind (hm_get (qc_by_id c) i) (after_poll now)"
proof -
  have eq: "snd (qos_poll now c) = snd (filter_map_st poll_visit (due now c) c)"
    by (simp add: qos_poll_def due_def poll_loop_sweep)
  show ?thesis
  proof (cases "i \<in> set (due now c)")
    case True
    with due_iff [OF assms, of i now] obtain r where "hm_get (qc_by_id c) i = Some r" "elapsed now r" by blast
    with poll_sweep.sweep_get [OF assms, of "due now c" i] True due_distinct [OF assms, of now]
    show ?thesis by (simp add: eq after_poll_def)
  next
    case False
    then have "hm_get (qc_by_id (snd (qos_poll now c))) i = hm_get (qc_by_id c) i"
      using poll_sweep.sweep_get_other [OF assms, of i "due now c"] by (simp add: eq)
    with False due_iff [OF assms, of i now] show ?thesis
      by (cases "hm_get (qc_by_id c) i") (auto simp: after_poll_def)
  qed
qed

lemma qos_poll_inv: "qos_inv c \<Longrightarrow> qos_inv (snd (qos_poll now c))"
  by (simp add: qos_poll_def poll_loop_sweep poll_sweep.sweep_ok)

lemma qos_poll_none_due: "due now c = [] \<Longrightarrow> qos_poll now c = (transition_default, c)"
  by (simp add: qos_poll_def due_def)

text \<open>
  C29. A poll settles exactly the reservations whose response deadline has passed, in
  the order of their identities: one that was being established is torn down and
  reported as timed out, one that was being modified is kept, reported with an
  unknown outcome, and everything else stays as it was. Nothing due is left, and a
  second poll at the same instant does nothing.
\<close>

theorem qos_poll_exact:
  assumes "qos_controller_new l = Inr c0" and "c = fold (qos_apply limit) as c0"
    and "qos_poll now c = (x, c')"
  shows "x = \<lparr>qx_messages = concat (map (timeout_messages c) (due now c)),
              qx_events = map (timeout_event c) (due now c)\<rparr>
    \<and> sorted (due now c) \<and> distinct (due now c)
    \<and> (i \<in> set (due now c) \<longleftrightarrow> (\<exists>r. hm_get (qc_by_id c) i = Some r \<and> elapsed now r))
    \<and> hm_get (qc_by_id c') i = Option.bind (hm_get (qc_by_id c) i) (after_poll now)
    \<and> qos_poll now c' = (transition_default, c')"
proof -
  have inv: "qos_inv c" unfolding assms(2) by (rule qos_steps_inv [OF qos_fold_steps qos_inv_new [OF assms(1)]])
  have c': "c' = snd (qos_poll now c)" and x: "x = fst (qos_poll now c)" using assms(3) by simp_all
  have inv': "qos_inv c'" unfolding c' by (rule qos_poll_inv [OF inv])
  have "\<not> elapsed now r" if "hm_get (qc_by_id c') j = Some r" for j r
    using that after_poll_settled unfolding c' qos_poll_get [OF inv] bind_eq_Some_conv by blast
  then have "due now c' = []" using due_iff [OF inv', of _ now] by (metis list.set_intros(1) neq_Nil_conv)
  then have "qos_poll now c' = (transition_default, c')" by (rule qos_poll_none_due)
  moreover have "sorted (due now c)" by (simp add: due_def)
  ultimately show ?thesis
    using qos_poll_transition [OF inv] due_distinct [OF inv] due_iff [OF inv] qos_poll_get [OF inv]
    by (simp add: x c')
qed

lemma drain_ids:
  assumes "qos_inv c"
  shows "distinct (sort (map fst (qc_by_id c)))"
    and "i \<in> set (sort (map fst (qc_by_id c))) \<longleftrightarrow> hm_get (qc_by_id c) i \<noteq> None"
  using qos_invD(5) [OF assms] by (simp_all add: hm_wf_def map_of_eq_None_iff)

text \<open>
  C37. Shutting down leaves nothing behind: draining a controller sends exactly one
  teardown for each live reservation and reports it, in the order of their identities,
  and afterwards no reservation is live, the controller says nothing more, and no
  notification has any effect.
\<close>

theorem qos_drain_complete:
  assumes "qos_controller_new l = Inr c0" and "c = fold (qos_apply limit) as c0"
    and "qos_drain c = (x, c')"
  shows "qx_events x = map TornDown (sort (map fst (qc_by_id c)))
    \<and> qx_messages x = map (\<lambda>i. teardown_message (rs_key (the (hm_get (qc_by_id c) i)))) (sort (map fst (qc_by_id c)))
    \<and> qos_len c' = 0 \<and> qos_drain c' = (transition_default, c') \<and> qos_poll now c' = (transition_default, c')
    \<and> handle_message m c' = (transition_default, c')"
proof -
  let ?ids = "sort (map fst (qc_by_id c))"
  have inv: "qos_inv c" unfolding assms(2) by (rule qos_steps_inv [OF qos_fold_steps qos_inv_new [OF assms(1)]])
  have eq: "qos_drain c = (emit transition_default (fst (filter_map_st drain_visit ?ids c)),
      snd (filter_map_st drain_visit ?ids c))"
    by (simp add: qos_drain_def drain_loop_sweep)
  then have c': "c' = snd (filter_map_st drain_visit ?ids c)"
    and x: "x = emit transition_default (fst (filter_map_st drain_visit ?ids c))" using assms(3) by simp_all
  have inv': "qos_inv c'" unfolding c' by (rule drain_sweep.sweep_ok [OF inv])
  have "fst (filter_map_st drain_visit ?ids c) =
      map (\<lambda>i. ([teardown_message (rs_key (the (hm_get (qc_by_id c) i)))], [TornDown i])) ?ids"
    using drain_ids(2) [OF inv]
    by (intro drain_sweep.sweep_outcomes_map [of _ "\<lambda>i. i"]) (use inv drain_ids(1) [OF inv] in auto)
  then have "qx_events x = map TornDown ?ids"
    "qx_messages x = map (\<lambda>i. teardown_message (rs_key (the (hm_get (qc_by_id c) i)))) ?ids"
    unfolding x by (simp_all add: emit_def transition_default_def comp_def)
  moreover have none: "hm_get (qc_by_id c') i = None" for i
  proof (cases "i \<in> set ?ids")
    case True
    with drain_sweep.sweep_get [OF inv, of ?ids i] drain_ids(1) [OF inv] show ?thesis unfolding c' by simp
  next
    case False
    with drain_sweep.sweep_get_other [OF inv, of i ?ids] drain_ids(2) [OF inv, of i] show ?thesis
      unfolding c' by simp
  qed
  then have "hm_get (qc_by_id c') = Map.empty" by blast
  then have "qc_by_id c' = []" by simp
  moreover have "hm_get (qc_by_key c') k = None" for k
    using none qos_invD(2) [OF inv', of k] by (cases "hm_get (qc_by_key c') k") auto
  then have "handle_message m c' = (transition_default, c')"
    by (cases m) (simp_all add: handle_reservation_notify_def handle_error_def)
  ultimately show ?thesis by (simp add: qos_len_def qos_drain_def qos_poll_def)
qed

text \<open>
  A request whose deadline overflows the clock is refused, yet uses an identity up,
  although errors are documented as raised before a state transition.
\<close>

lemma start_overflow_consumes_id:
  assumes "validate_request c q = Inr ()" and "qos_len c < ql_maximum_live_reservations (qc_limits c)"
    and "length (qc_retired c) < ql_maximum_generations (qc_limits c) - qos_len c"
    and "\<lparr>rk_flow = qr_flow q, rk_direction = qr_direction q\<rparr> \<notin> used_keys c"
    and "qc_next_id c = Some i" and "qr_setup q = Path" and "now + qr_response_timeout q > limit"
  shows "qos_start limit q now c =
    (Inl (InvalidRequest ''response deadline overflows the monotonic clock''), c\<lparr>qc_next_id := checked_succ i\<rparr>)"
  using assms
  by (simp add: qos_start_def qos_allocate_id_def qos_deadline_def instant_checked_add_def used_keys_def qos_len_def)

section \<open>Witnesses\<close>

definition sample_qos_flow :: qos_flow where
  "sample_qos_flow = \<lparr>qf_conference_id = 1, qf_call_reference = 2, qf_passthrough_party_id = 3,
     qf_address = 0x0A000001, qf_port = 5000\<rparr>"

definition sample_qos_application :: qos_application where
  "sample_qos_application = \<lparr>qa_vendor_id = ascii ''v'', qa_version = [], qa_application_name = [],
     qa_sub_application_id = []\<rparr>"

definition sample_qos_traffic :: qos_traffic where
  "sample_qos_traffic = \<lparr>qt_codec = 4, qt_average_bit_rate = 64, qt_burst_size = 8, qt_peak_rate = 80\<rparr>"

definition sample_qos_request :: "qos_setup \<Rightarrow> qos_direction \<Rightarrow> qos_request" where
  "sample_qos_request setup direction =
     \<lparr>qr_flow = sample_qos_flow, qr_direction = direction, qr_setup = setup,
      qr_policy = \<lparr>qp_reservation_style = FixedFilter, qp_maximum_retries = 2, qp_retry_timer = 5,
        qp_preemption_priority = 0, qp_defending_priority = 0, qp_traffic = sample_qos_traffic,
        qp_application = sample_qos_application\<rparr>,
      qr_response_timeout = 30\<rparr>"

definition sample_qos_limits :: qos_limits where
  "sample_qos_limits = \<lparr>ql_maximum_live_reservations = 2, ql_maximum_generations = 3, ql_maximum_retries = 4,
     ql_maximum_retry_timer = 9, ql_maximum_response_timeout = 60\<rparr>"

definition sample_qos :: qos_controller where
  "sample_qos = \<lparr>qc_limits = sample_qos_limits, qc_next_id = Some 1, qc_by_id = [], qc_by_key = [], qc_retired = []\<rparr>"

lemma sample_qos_new: "qos_controller_new sample_qos_limits = Inr sample_qos"
  by code_simp

lemmas sample_qos_defs = sample_qos_flow_def sample_qos_application_def sample_qos_traffic_def
  sample_qos_request_def sample_qos_limits_def sample_qos_def

definition sample_qos_key :: "qos_direction \<Rightarrow> reservation_key" where
  "sample_qos_key d = \<lparr>rk_flow = sample_qos_flow, rk_direction = d\<rparr>"

theorem qos_controller_bounded_witness:
  "qos_len (fold (qos_apply 1000) [Start (sample_qos_request Path Send) 10] sample_qos) \<le> 2
   \<and> (\<exists>r. hm_get (qc_by_id (fold (qos_apply 1000) [Start (sample_qos_request Path Send) 10] sample_qos)) 1 = Some r
        \<and> rs_key r = sample_qos_key Send)"
proof -
  let ?c = "fold (qos_apply 1000) [Start (sample_qos_request Path Send) 10] sample_qos"
  have key: "hm_get (qc_by_key ?c) (sample_qos_key Send) = Some 1" by code_simp
  have "ql_maximum_live_reservations sample_qos_limits = 2" by code_simp
  with qos_controller_bounded [OF sample_qos_new refl [of ?c], of "sample_qos_key Send" 1] key
  show ?thesis by metis
qed

definition sample_qos_started :: qos_controller where
  "sample_qos_started = snd (qos_start 1000 (sample_qos_request (Listen False) Send) 10 sample_qos)"

lemma sample_qos_start:
  "qos_start 1000 (sample_qos_request (Listen False) Send) 10 sample_qos =
     (Inr (1, \<lparr>qx_messages = [setup_message (sample_qos_request (Listen False) Send)],
               qx_events = [ActiveWithoutConfirmation 1]\<rparr>), sample_qos_started)"
  by code_simp

theorem qos_identity_used_once_witness:
  "\<exists>e. qos_start 1000 (sample_qos_request Path Send) 50 (fold (qos_apply 1000) [Teardown 1] sample_qos_started)
     = (Inl e, fold (qos_apply 1000) [Teardown 1] sample_qos_started)"
  using qos_identity_used_once [OF sample_qos_new refl, where as = "[]", simplified, OF sample_qos_start refl,
      of "sample_qos_request Path Send" 50 "[Teardown 1]"]
  by (simp add: sample_qos_request_def)

theorem qos_modified_once_witness:
  "\<exists>x c1 e. qos_modify 1000 1 sample_qos_traffic sample_qos_application 20 11 sample_qos_started = (Inr x, c1)
     \<and> qos_state_of c1 1 = Some StateModifying
     \<and> qos_modify 1000 1 sample_qos_traffic sample_qos_application 20 40 (fold (qos_apply 1000) [Poll 31] c1)
       = (Inl e, fold (qos_apply 1000) [Poll 31] c1)"
proof -
  let ?as = "[Start (sample_qos_request (Listen False) Send) 10]"
  have c: "sample_qos_started = fold (qos_apply 1000) ?as sample_qos" by (simp add: sample_qos_started_def)
  have "isl (fst (qos_modify 1000 1 sample_qos_traffic sample_qos_application 20 11 sample_qos_started)) = False"
    by code_simp
  then obtain x c1 where m: "qos_modify 1000 1 sample_qos_traffic sample_qos_application 20 11 sample_qos_started
      = (Inr x, c1)"
    by (cases "qos_modify 1000 1 sample_qos_traffic sample_qos_application 20 11 sample_qos_started";
        cases "fst (qos_modify 1000 1 sample_qos_traffic sample_qos_application 20 11 sample_qos_started)") auto
  from qos_modified_once [OF sample_qos_new c m refl, of sample_qos_traffic sample_qos_application 20 40 "[Poll 31]"] m
  show ?thesis by blast
qed

definition sample_qos_waiting :: qos_controller where
  "sample_qos_waiting = fold (qos_apply 1000) [Start (sample_qos_request Path Send) 10] sample_qos"

theorem qos_poll_exact_witness:
  "due 40 sample_qos_waiting = [1] \<and> qx_events (fst (qos_poll 40 sample_qos_waiting)) = [EstablishmentTimedOut 1]
   \<and> qos_poll 40 (snd (qos_poll 40 sample_qos_waiting)) = (transition_default, snd (qos_poll 40 sample_qos_waiting))"
proof -
  have due: "due 40 sample_qos_waiting = [1]" by code_simp
  have ev: "timeout_event sample_qos_waiting 1 = EstablishmentTimedOut 1" by code_simp
  have "qos_poll 40 sample_qos_waiting = (fst (qos_poll 40 sample_qos_waiting), snd (qos_poll 40 sample_qos_waiting))"
    by simp
  from qos_poll_exact [OF sample_qos_new sample_qos_waiting_def this] due ev show ?thesis by simp
qed

theorem qos_drain_complete_witness:
  "qx_events (fst (qos_drain sample_qos_waiting)) = [TornDown 1] \<and> qos_len (snd (qos_drain sample_qos_waiting)) = 0"
proof -
  have ids: "sort (map fst (qc_by_id sample_qos_waiting)) = [1]" by code_simp
  have "qos_drain sample_qos_waiting = (fst (qos_drain sample_qos_waiting), snd (qos_drain sample_qos_waiting))"
    by simp
  from qos_drain_complete [OF sample_qos_new sample_qos_waiting_def this] ids show ?thesis by simp
qed

end
