(* ===== verification/Media_Ownership.thy ===== *)
theory Media_Ownership
  imports Sccp_Prelude "HOL-Library.Multiset" "HOL-Library.Sublist"
begin

text \<open>
  Ownership of media paths, \<^verbatim>\<open>asterisk-module/src/runtime/media_ownership.rs\<close> with
  the anchor registry of \<^verbatim>\<open>asterisk-module/src/media/direct.rs\<close>: one command loop that
  grants reservations of calls and conferences, counts the anchors that keep a call on
  the path of the PBX, restores the direct path when the last cancelled anchor goes,
  and keeps the running conference announcements.

  The state of the loop is a record; a run is a sequence of events: a command that is
  received, a deadline that passes, a worker that returns or panics, the end of the
  loop. The scheduler may order them in any way, so that the theorems hold for every
  sequence. Reply channels are numbered, and what is sent through them is the output
  of a step. Admission permits and reserved mailbox slots travel with the commands
  and have no effect on this state; they belong to the mailbox.
\<close>

section \<open>Data\<close>

type_synonym conference_id = u32
type_synonym lease_id = u64
type_synonym reservation_no = u64
type_synonym generation = u64
type_synonym reply_channel = nat

datatype media_anchor_reason = Recording | Announcement

datatype media_resource = CallResource pbx_call_id | ConferenceResource conference_id

record 'e announcement_timer =
  at_access :: 'e
  at_deadline :: instant

record anchor_lease =
  al_call_id :: pbx_call_id
  al_reason :: media_anchor_reason
  al_id :: lease_id
  al_held :: bool

record ('e, 'c) active_announcement =
  aa_generation :: generation
  aa_call_ids :: "pbx_call_id list"
  aa_completion :: "'e announcement_timer option"
  aa_anchors :: "anchor_lease list"
  aa_direct_calls :: "'c list"
  aa_restore_attempts :: u8

record 'c anchor_snapshot =
  as_count :: nat
  as_reason :: media_anchor_reason
  as_restore :: "'c option"

record 'e owned_anchor =
  oa_call_id :: pbx_call_id
  oa_reason :: media_anchor_reason
  oa_access :: 'e

record reserve_request =
  rr_resources :: "media_resource list"
  rr_wait :: bool
  rr_reply :: reply_channel

datatype ('e, 'c) media_command =
    Reserve reserve_request
  | ReleaseReservation reservation_no
  | AcquireAnchor reservation_no pbx_call_id media_anchor_reason "'c option" 'e reply_channel
  | ReleaseAnchor lease_id "reply_channel option"
  | RemoveCall pbx_call_id reply_channel
  | NextGeneration reply_channel
  | TakeAnnouncement conference_id reply_channel
  | PutAnnouncement conference_id "('e, 'c) active_announcement" reply_channel
  | AnnouncementGeneration conference_id reply_channel
  | AnnouncementIds reply_channel
  | DeferAnnouncement conference_id generation "'e announcement_timer"

datatype ('e, 'c) media_sent =
    ReservationSent reply_channel "reservation_no option"
  | AnchorSent reply_channel "anchor_lease option"
  | UnitSent reply_channel
  | GenerationSent reply_channel "generation option"
  | AnnouncementSent reply_channel "('e, 'c) active_announcement option"
  | IdsSent reply_channel "conference_id list"

text \<open>Work that runs on another thread, and what it reports when it returns.\<close>

datatype ('e, 'c) media_job =
    RestoreJob lease_id pbx_call_id 'e 'c
  | AnnouncementJob conference_id generation "'e announcement_timer"

datatype 'e media_completion =
    AnnouncementDone conference_id generation "'e announcement_timer option"
  | CancelledAnchor lease_id pbx_call_id

type_synonym anchor_counts = "(pbx_call_id \<times> media_anchor_reason, nat) hash_map"

record ('e, 'c) media_owner =
  mo_anchored :: "(pbx_call_id, 'c anchor_snapshot) hash_map"
  mo_anchors :: anchor_counts
  mo_restores :: "(pbx_call_id, 'c) hash_map"
  mo_leases :: "(lease_id, 'e owned_anchor) hash_map"
  mo_cancelled :: "lease_id list"
  mo_announcements :: "(conference_id, ('e, 'c) active_announcement) hash_map"
  mo_reserved :: "media_resource list"
  mo_reservations :: "(reservation_no, media_resource list) hash_map"
  mo_waiting :: "reserve_request list"
  mo_next_id :: u64
  mo_next_generation :: u64
  mo_workers :: "('e, 'c) media_job list"

text \<open>
  The queue \<open>waiting\<close> only ever holds \<open>Reserve\<close> commands, since the branch of that command
  is the only one that pushes to it.
\<close>

definition media_owner_new :: "('e, 'c) media_owner" where
  "media_owner_new =
     \<lparr>mo_anchored = [], mo_anchors = [], mo_restores = [], mo_leases = [], mo_cancelled = [],
      mo_announcements = [], mo_reserved = [], mo_reservations = [], mo_waiting = [],
      mo_next_id = 1, mo_next_generation = 1, mo_workers = []\<rparr>"

section \<open>Anchor counts and restoration plans\<close>

definition anchor_acquire :: "pbx_call_id \<Rightarrow> media_anchor_reason \<Rightarrow> anchor_counts \<Rightarrow> anchor_counts" where
  "anchor_acquire call reason cs =
     hm_insert (call, reason) (Suc (case hm_get cs (call, reason) of None \<Rightarrow> 0 | Some n \<Rightarrow> n)) cs"

definition anchor_release :: "pbx_call_id \<Rightarrow> media_anchor_reason \<Rightarrow> anchor_counts \<Rightarrow> bool \<times> anchor_counts" where
  "anchor_release call reason cs =
     (case hm_get cs (call, reason) of
        None \<Rightarrow> (False, cs)
      | Some n \<Rightarrow>
          (True, if n - 1 = 0 then hm_remove (call, reason) cs else hm_insert (call, reason) (n - 1) cs))"

definition registry_is_anchored :: "anchor_counts \<Rightarrow> pbx_call_id \<Rightarrow> bool" where
  "registry_is_anchored cs call \<longleftrightarrow> list_ex (\<lambda>((candidate, _), _). candidate = call) cs"

definition is_anchored_for_other_reason :: "anchor_counts \<Rightarrow> pbx_call_id \<Rightarrow> media_anchor_reason \<Rightarrow> bool" where
  "is_anchored_for_other_reason cs call excluded \<longleftrightarrow>
     list_ex (\<lambda>((candidate, reason), count). candidate = call \<and> (reason \<noteq> excluded \<or> count > 1)) cs"

definition anchors_remove_call :: "pbx_call_id \<Rightarrow> anchor_counts \<Rightarrow> anchor_counts" where
  "anchors_remove_call call cs = filter (\<lambda>((candidate, _), _). candidate \<noteq> call) cs"

definition remember :: "pbx_call_id \<Rightarrow> 'c \<Rightarrow> (pbx_call_id, 'c) hash_map \<Rightarrow> (pbx_call_id, 'c) hash_map" where
  "remember call plan rs = (if hm_contains rs call then rs else hm_insert call plan rs)"

section \<open>The published snapshot\<close>

definition snapshot_add ::
  "(pbx_call_id, 'c) hash_map \<Rightarrow> 'e owned_anchor \<Rightarrow> (pbx_call_id, 'c anchor_snapshot) hash_map
     \<Rightarrow> (pbx_call_id, 'c anchor_snapshot) hash_map"
where
  "snapshot_add restores a snapshots =
     (let s = (case hm_get snapshots (oa_call_id a) of
                 Some s \<Rightarrow> s
               | None \<Rightarrow> \<lparr>as_count = 0, as_reason = oa_reason a, as_restore = hm_get restores (oa_call_id a)\<rparr>)
      in hm_insert (oa_call_id a) (s\<lparr>as_count := as_count s + 1\<rparr>) snapshots)"

definition publish_snapshot :: "('e, 'c) media_owner \<Rightarrow> ('e, 'c) media_owner" where
  "publish_snapshot m =
     m\<lparr>mo_anchored := fold (snapshot_add (mo_restores m)) (hm_values (mo_leases m)) []\<rparr>"

definition handle_restore :: "('e, 'c) media_owner \<Rightarrow> pbx_call_id \<Rightarrow> 'c option" where
  "handle_restore m call = Option.bind (hm_get (mo_anchored m) call) as_restore"

definition handle_is_anchored :: "('e, 'c) media_owner \<Rightarrow> pbx_call_id \<Rightarrow> bool" where
  "handle_is_anchored m call = hm_contains (mo_anchored m) call"

definition handle_other_reason :: "('e, 'c) media_owner \<Rightarrow> pbx_call_id \<Rightarrow> media_anchor_reason \<Rightarrow> bool" where
  "handle_other_reason m call reason \<longleftrightarrow>
     (case hm_get (mo_anchored m) call of None \<Rightarrow> False | Some s \<Rightarrow> as_count s > 1 \<or> as_reason s \<noteq> reason)"

definition lease_is_last :: "('e, 'c) media_owner \<Rightarrow> anchor_lease \<Rightarrow> bool" where
  "lease_is_last m l \<longleftrightarrow> al_held l \<and> \<not> handle_other_reason m (al_call_id l) (al_reason l)"

definition restore_call :: "('e, 'c) media_owner \<Rightarrow> anchor_lease \<Rightarrow> 'c option" where
  "restore_call m l = (if lease_is_last m l then handle_restore m (al_call_id l) else None)"

section \<open>The command loop\<close>

definition release_anchor :: "lease_id \<Rightarrow> ('e, 'c) media_owner \<Rightarrow> ('e, 'c) media_owner" where
  "release_anchor i m =
     publish_snapshot
       (case hm_get (mo_leases m) i of
          None \<Rightarrow> m
        | Some a \<Rightarrow>
            let (found, cs) = anchor_release (oa_call_id a) (oa_reason a) (mo_anchors m) in
            m\<lparr>mo_leases := hm_remove i (mo_leases m), mo_anchors := cs,
              mo_restores :=
                (if found \<and> \<not> registry_is_anchored cs (oa_call_id a)
                 then hm_remove (oa_call_id a) (mo_restores m) else mo_restores m)\<rparr>)"

definition start_restore :: "lease_id \<Rightarrow> 'e owned_anchor \<Rightarrow> 'c \<Rightarrow> ('e, 'c) media_owner \<Rightarrow> ('e, 'c) media_owner" where
  "start_restore i a plan m =
     m\<lparr>mo_reserved := List.insert (CallResource (oa_call_id a)) (mo_reserved m),
       mo_workers := mo_workers m @ [RestoreJob i (oa_call_id a) (oa_access a) plan]\<rparr>"

fun dispatch_loop :: "lease_id list \<Rightarrow> ('e, 'c) media_owner \<Rightarrow> ('e, 'c) media_owner" where
  "dispatch_loop [] m = m"
| "dispatch_loop (i # is) m =
     (case hm_get (mo_leases m) i of
        None \<Rightarrow> dispatch_loop is m
      | Some a \<Rightarrow>
          if CallResource (oa_call_id a) \<in> set (mo_reserved m)
          then dispatch_loop is (m\<lparr>mo_cancelled := mo_cancelled m @ [i]\<rparr>)
          else
            case hm_get (mo_restores m) (oa_call_id a) of
              None \<Rightarrow> dispatch_loop is (release_anchor i m)
            | Some plan \<Rightarrow>
                if is_anchored_for_other_reason (mo_anchors m) (oa_call_id a) (oa_reason a)
                then dispatch_loop is (release_anchor i m)
                else dispatch_loop is (start_restore i a plan m))"

definition dispatch_cancelled_anchors :: "('e, 'c) media_owner \<Rightarrow> ('e, 'c) media_owner" where
  "dispatch_cancelled_anchors m = dispatch_loop (mo_cancelled m) (m\<lparr>mo_cancelled := []\<rparr>)"

definition media_allocate_id :: "('e, 'c) media_owner \<Rightarrow> u64 option \<times> ('e, 'c) media_owner" where
  "media_allocate_id m =
     (case checked_succ (mo_next_id m) of
        None \<Rightarrow> (None, m)
      | Some n \<Rightarrow> (Some (mo_next_id m), m\<lparr>mo_next_id := n\<rparr>))"

text \<open>A reservation of a conference includes the calls its announcement has to restore.\<close>

definition extend_resources :: "('e, 'c) media_owner \<Rightarrow> media_resource list \<Rightarrow> media_resource list" where
  "extend_resources m rs =
     rs @ concat (map (\<lambda>r. case r of
         ConferenceResource c \<Rightarrow>
           (case hm_get (mo_announcements m) c of
              None \<Rightarrow> []
            | Some a \<Rightarrow> map (\<lambda>l. CallResource (al_call_id l)) (aa_anchors a))
       | CallResource _ \<Rightarrow> []) rs)"

definition reserve_conflict :: "('e, 'c) media_owner \<Rightarrow> media_resource list \<Rightarrow> bool" where
  "reserve_conflict m rs \<longleftrightarrow>
     list_ex (\<lambda>r. r \<in> set (mo_reserved m) \<or> list_ex (\<lambda>q. r \<in> set (rr_resources q)) (mo_waiting m)) rs"

definition process_reserve ::
  "reserve_request \<Rightarrow> ('e, 'c) media_owner \<Rightarrow> ('e, 'c) media_sent list \<times> ('e, 'c) media_owner"
where
  "process_reserve q m =
     (let rs = extend_resources m (rr_resources q) in
      if reserve_conflict m rs
      then
        (if rr_wait q then ([], m\<lparr>mo_waiting := mo_waiting m @ [q\<lparr>rr_resources := rs\<rparr>]\<rparr>)
         else ([ReservationSent (rr_reply q) None], m))
      else
        case media_allocate_id m of
          (None, m1) \<Rightarrow> ([ReservationSent (rr_reply q) None], m1)
        | (Some i, m1) \<Rightarrow>
            ([ReservationSent (rr_reply q) (Some i)],
             m1\<lparr>mo_reserved := List.union (mo_reserved m1) rs,
                mo_reservations := hm_insert i rs (mo_reservations m1)\<rparr>))"

fun process_all ::
  "reserve_request list \<Rightarrow> ('e, 'c) media_owner \<Rightarrow> ('e, 'c) media_sent list \<times> ('e, 'c) media_owner"
where
  "process_all [] m = ([], m)"
| "process_all (q # qs) m =
     (let (out, m1) = process_reserve q m; (outs, m2) = process_all qs m1 in (out @ outs, m2))"

definition process_waiting ::
  "('e, 'c) media_owner \<Rightarrow> ('e, 'c) media_sent list \<times> ('e, 'c) media_owner"
where
  "process_waiting m = process_all (mo_waiting m) (m\<lparr>mo_waiting := []\<rparr>)"

definition allocate_generation :: "u64 \<Rightarrow> generation option \<times> u64" where
  "allocate_generation n =
     (if n = 0 then (None, n)
      else case checked_succ n of None \<Rightarrow> (None, n) | Some n' \<Rightarrow> (Some n, n'))"

definition defer_announcement ::
  "conference_id \<Rightarrow> generation \<Rightarrow> 'e announcement_timer \<Rightarrow> ('e, 'c) media_owner \<Rightarrow> ('e, 'c) media_owner"
where
  "defer_announcement c g t m =
     m\<lparr>mo_announcements :=
         hm_modify c (\<lambda>a. if aa_generation a = g then a\<lparr>aa_completion := Some t\<rparr> else a)
           (mo_announcements m)\<rparr>"

definition release_reservation :: "reservation_no \<Rightarrow> ('e, 'c) media_owner \<Rightarrow> ('e, 'c) media_owner" where
  "release_reservation i m =
     (case hm_get (mo_reservations m) i of
        None \<Rightarrow> m
      | Some rs \<Rightarrow>
          m\<lparr>mo_reservations := hm_remove i (mo_reservations m),
            mo_reserved := filter (\<lambda>r. r \<notin> set rs) (mo_reserved m)\<rparr>)"

definition acquire_anchor ::
  "reservation_no \<Rightarrow> pbx_call_id \<Rightarrow> media_anchor_reason \<Rightarrow> 'c option \<Rightarrow> 'e \<Rightarrow> ('e, 'c) media_owner
     \<Rightarrow> anchor_lease option \<times> ('e, 'c) media_owner"
where
  "acquire_anchor i call reason plan access m =
     (if \<not> (case hm_get (mo_reservations m) i of None \<Rightarrow> False | Some rs \<Rightarrow> CallResource call \<in> set rs)
      then (None, m)
      else
        case media_allocate_id m of
          (None, m1) \<Rightarrow> (None, m1)
        | (Some l, m1) \<Rightarrow>
            (Some \<lparr>al_call_id = call, al_reason = reason, al_id = l, al_held = True\<rparr>,
             publish_snapshot
               (m1\<lparr>mo_restores := (case plan of None \<Rightarrow> mo_restores m1 | Some p \<Rightarrow> remember call p (mo_restores m1)),
                   mo_anchors := anchor_acquire call reason (mo_anchors m1),
                   mo_leases := hm_insert l \<lparr>oa_call_id = call, oa_reason = reason, oa_access = access\<rparr>
                     (mo_leases m1)\<rparr>)))"

definition remove_call :: "pbx_call_id \<Rightarrow> ('e, 'c) media_owner \<Rightarrow> ('e, 'c) media_owner" where
  "remove_call call m =
     publish_snapshot
       (m\<lparr>mo_anchors := anchors_remove_call call (mo_anchors m),
          mo_restores := hm_remove call (mo_restores m),
          mo_leases := filter (\<lambda>(_, a). oa_call_id a \<noteq> call) (mo_leases m)\<rparr>)"

fun process ::
  "('e, 'c) media_command \<Rightarrow> ('e, 'c) media_owner \<Rightarrow> ('e, 'c) media_sent list \<times> ('e, 'c) media_owner"
where
  "process (Reserve q) m = process_reserve q m"
| "process (ReleaseReservation i) m =
     process_waiting (dispatch_cancelled_anchors (release_reservation i m))"
| "process (AcquireAnchor i call reason plan access reply) m =
     (case acquire_anchor i call reason plan access m of (l, m') \<Rightarrow> ([AnchorSent reply l], m'))"
| "process (ReleaseAnchor i (Some reply)) m = ([UnitSent reply], release_anchor i m)"
| "process (ReleaseAnchor i None) m = ([], m\<lparr>mo_cancelled := mo_cancelled m @ [i]\<rparr>)"
| "process (RemoveCall call reply) m = ([UnitSent reply], remove_call call m)"
| "process (NextGeneration reply) m =
     (case allocate_generation (mo_next_generation m) of
        (g, n) \<Rightarrow> ([GenerationSent reply g], m\<lparr>mo_next_generation := n\<rparr>))"
| "process (TakeAnnouncement c reply) m =
     ([AnnouncementSent reply (hm_get (mo_announcements m) c)],
      m\<lparr>mo_announcements := hm_remove c (mo_announcements m)\<rparr>)"
| "process (PutAnnouncement c a reply) m =
     ([UnitSent reply], m\<lparr>mo_announcements := hm_insert c a (mo_announcements m)\<rparr>)"
| "process (AnnouncementGeneration c reply) m =
     ([GenerationSent reply (map_option aa_generation (hm_get (mo_announcements m) c))], m)"
| "process (AnnouncementIds reply) m = ([IdsSent reply (map fst (mo_announcements m))], m)"
| "process (DeferAnnouncement c g t) m = ([], defer_announcement c g t m)"

fun media_complete ::
  "'e media_completion \<Rightarrow> ('e, 'c) media_owner \<Rightarrow> ('e, 'c) media_sent list \<times> ('e, 'c) media_owner"
where
  "media_complete (AnnouncementDone c g timer) m =
     ([], dispatch_cancelled_anchors (case timer of None \<Rightarrow> m | Some t \<Rightarrow> defer_announcement c g t m))"
| "media_complete (CancelledAnchor i call) m =
     (let m1 = release_anchor i m;
          m2 = m1\<lparr>mo_reserved := removeAll (CallResource call) (mo_reserved m1)\<rparr>;
          (out, m3) = process_waiting (dispatch_cancelled_anchors m2)
      in (out, dispatch_cancelled_anchors m3))"

text \<open>\<open>dispatch_due\<close>: every announcement whose timer has passed loses it to a worker.\<close>

definition announcement_due :: "instant \<Rightarrow> ('e, 'c) active_announcement \<Rightarrow> bool" where
  "announcement_due now a \<longleftrightarrow>
     (case aa_completion a of None \<Rightarrow> False | Some t \<Rightarrow> at_deadline t \<le> now)"

definition dispatch_due :: "instant \<Rightarrow> ('e, 'c) media_owner \<Rightarrow> ('e, 'c) media_owner" where
  "dispatch_due now m =
     m\<lparr>mo_announcements :=
         map (\<lambda>(c, a). (c, if announcement_due now a then a\<lparr>aa_completion := None\<rparr> else a)) (mo_announcements m),
       mo_workers := mo_workers m @
         map (\<lambda>(c, a). AnnouncementJob c (aa_generation a) (the (aa_completion a)))
           (filter (\<lambda>(_, a). announcement_due now a) (mo_announcements m))\<rparr>"

text \<open>
  What a worker reports: a restoration always reports its anchor, an announcement
  that asks to be retried reports a new timer ten milliseconds later.
\<close>

fun job_result :: "bool \<Rightarrow> instant \<Rightarrow> ('e, 'c) media_job \<Rightarrow> 'e media_completion" where
  "job_result retry now (RestoreJob i call _ _) = CancelledAnchor i call"
| "job_result retry now (AnnouncementJob c g t) =
     AnnouncementDone c g (if retry then Some \<lparr>at_access = at_access t, at_deadline = now + 10\<rparr> else None)"

section \<open>Runs\<close>

datatype ('e, 'c) media_event =
    Received "('e, 'c) media_command"
  | DeadlinePassed instant
  | WorkerReturned nat bool instant
  | WorkerPanicked nat
  | LoopEnded

definition drop_worker :: "nat \<Rightarrow> ('e, 'c) media_owner \<Rightarrow> ('e, 'c) media_owner" where
  "drop_worker n m = m\<lparr>mo_workers := take n (mo_workers m) @ drop (Suc n) (mo_workers m)\<rparr>"

fun media_step ::
  "('e, 'c) media_event \<Rightarrow> ('e, 'c) media_owner \<Rightarrow> ('e, 'c) media_sent list \<times> ('e, 'c) media_owner"
where
  "media_step (Received command) m =
     (case process command m of (out, m') \<Rightarrow> (out, dispatch_cancelled_anchors m'))"
| "media_step (DeadlinePassed now) m = ([], dispatch_due now m)"
| "media_step (WorkerReturned n retry now) m =
     (if n < length (mo_workers m)
      then media_complete (job_result retry now (mo_workers m ! n)) (drop_worker n m)
      else ([], m))"
| "media_step (WorkerPanicked n) m = ([], drop_worker n m)"
| "media_step LoopEnded m = ([], m\<lparr>mo_waiting := [], mo_announcements := []\<rparr>)"

definition media_run :: "('e, 'c) media_event list \<Rightarrow> ('e, 'c) media_owner" where
  "media_run evs = fold (\<lambda>ev m. snd (media_step ev m)) evs media_owner_new"

section \<open>Counting leases\<close>

definition leases_where :: "('e owned_anchor \<Rightarrow> bool) \<Rightarrow> (lease_id, 'e owned_anchor) hash_map \<Rightarrow> lease_id set" where
  "leases_where P L = {l. \<exists>a. hm_get L l = Some a \<and> P a}"

lemma leases_where_iff: "l \<in> leases_where P L \<longleftrightarrow> (\<exists>a. hm_get L l = Some a \<and> P a)"
  by (simp add: leases_where_def)

lemma finite_leases_where [simp]: "finite (leases_where P L)"
proof (rule finite_subset)
  show "leases_where P L \<subseteq> dom (hm_get L)" by (auto simp: leases_where_iff)
qed (rule finite_dom_map_of)

lemma leases_where_insert:
  assumes "hm_get L l = None"
  shows "leases_where P (hm_insert l a L) = (if P a then insert l (leases_where P L) else leases_where P L)"
    and "l \<notin> leases_where P L"
  using assms by (auto simp: leases_where_iff split: if_splits)

lemma leases_where_remove: "leases_where P (hm_remove l L) = leases_where P L - {l}"
  by (auto simp: leases_where_iff split: if_splits)

lemma hm_get_filter_values:
  assumes "hm_wf m"
  shows "hm_get (filter (\<lambda>(_, v). P v) m) k = (case hm_get m k of None \<Rightarrow> None | Some v \<Rightarrow> if P v then Some v else None)"
  using assms
proof (induction m)
  case (Cons p m)
  obtain k' v' where p: "p = (k', v')" by fastforce
  with Cons.prems have "hm_get m k' = None" by (auto simp: hm_wf_def map_of_eq_None_iff)
  with Cons p show ?case by (auto simp: hm_wf_def split: option.split)
qed simp

lemma hm_wf_filter [simp, intro]: "hm_wf m \<Longrightarrow> hm_wf (filter P m)"
  by (auto simp: hm_wf_def distinct_map intro: inj_on_subset)

lemma hm_count_values:
  assumes "hm_wf L"
  shows "length (filter P (hm_values L)) = card (leases_where P L)"
proof -
  have d: "distinct (map fst (filter (\<lambda>p. P (snd p)) L))"
    using hm_wf_filter [OF assms] by (simp add: hm_wf_def)
  have "leases_where P L = set (map fst (filter (\<lambda>p. P (snd p)) L))"
    using assms by (force simp: leases_where_iff hm_wf_def)
  then have "card (leases_where P L) = length (filter (\<lambda>p. P (snd p)) L)"
    using distinct_card [OF d] by simp
  then show ?thesis by (simp add: hm_values_def filter_map comp_def)
qed

abbreviation on_call :: "pbx_call_id \<Rightarrow> 'e owned_anchor \<Rightarrow> bool" where
  "on_call c a \<equiv> oa_call_id a = c"

abbreviation anchored_as :: "pbx_call_id \<Rightarrow> media_anchor_reason \<Rightarrow> 'e owned_anchor \<Rightarrow> bool" where
  "anchored_as c r a \<equiv> oa_call_id a = c \<and> oa_reason a = r"

text \<open>A count that is kept only while it is positive.\<close>

definition positive :: "nat \<Rightarrow> nat option" where
  "positive n = (if n = 0 then None else Some n)"

lemma positive_eq_Some: "positive k = Some n \<longleftrightarrow> n = k \<and> n \<noteq> 0"
  by (auto simp: positive_def)

definition counts_ok :: "(lease_id, 'e owned_anchor) hash_map \<Rightarrow> anchor_counts \<Rightarrow> bool" where
  "counts_ok L cs \<longleftrightarrow> hm_wf cs \<and> (\<forall>c r. hm_get cs (c, r) = positive (card (leases_where (anchored_as c r) L)))"

lemma counts_okD: "counts_ok L cs \<Longrightarrow> hm_get cs (c, r) = positive (card (leases_where (anchored_as c r) L))"
  by (simp add: counts_ok_def)

lemma counts_ok_mem:
  assumes "counts_ok L cs"
  shows "((c, r), n) \<in> set cs \<longleftrightarrow> n = card (leases_where (anchored_as c r) L) \<and> n \<noteq> 0"
proof -
  have "hm_wf cs" using assms by (simp add: counts_ok_def)
  then have "((c, r), n) \<in> set cs \<longleftrightarrow> hm_get cs (c, r) = Some n" by (simp add: hm_wf_def)
  also have "\<dots> \<longleftrightarrow> n = card (leases_where (anchored_as c r) L) \<and> n \<noteq> 0"
    unfolding counts_okD [OF assms] by (rule positive_eq_Some)
  finally show ?thesis .
qed

lemma registry_is_anchored_iff:
  assumes "counts_ok L cs"
  shows "registry_is_anchored cs c \<longleftrightarrow> leases_where (on_call c) L \<noteq> {}"
proof -
  have "registry_is_anchored cs c \<longleftrightarrow> (\<exists>r n. ((c, r), n) \<in> set cs)"
    by (auto simp: registry_is_anchored_def list_ex_iff)
  also have "\<dots> \<longleftrightarrow> (\<exists>r. leases_where (anchored_as c r) L \<noteq> {})"
    by (simp add: counts_ok_mem [OF assms] card_gt_0_iff)
  also have "\<dots> \<longleftrightarrow> leases_where (on_call c) L \<noteq> {}" unfolding leases_where_def by blast
  finally show ?thesis .
qed

text \<open>Another anchor on the call: any lease but the one asked for, when that one exists.\<close>

lemma other_reason_iff:
  assumes "counts_ok L cs"
  shows "is_anchored_for_other_reason cs c r \<longleftrightarrow>
    (\<exists>l \<in> leases_where (on_call c) L. l \<notin> leases_where (anchored_as c r) L)
    \<or> card (leases_where (anchored_as c r) L) > 1"
proof -
  have pick: "(\<exists>r' n. (n = f r' \<and> n \<noteq> 0) \<and> (r' \<noteq> r \<or> n > 1)) \<longleftrightarrow> (\<exists>r'. r' \<noteq> r \<and> f r' \<noteq> 0) \<or> f r > 1"
    for f :: "media_anchor_reason \<Rightarrow> nat"
    by (metis less_one not_gr_zero order_less_trans zero_less_one)
  have "is_anchored_for_other_reason cs c r \<longleftrightarrow>
      (\<exists>r' n. ((c, r'), n) \<in> set cs \<and> (r' \<noteq> r \<or> n > 1))"
    unfolding is_anchored_for_other_reason_def list_ex_iff by fastforce
  also have "\<dots> \<longleftrightarrow> (\<exists>r'. r' \<noteq> r \<and> card (leases_where (anchored_as c r') L) \<noteq> 0)
      \<or> card (leases_where (anchored_as c r) L) > 1"
    unfolding counts_ok_mem [OF assms] by (rule pick)
  also have "(\<exists>r'. r' \<noteq> r \<and> card (leases_where (anchored_as c r') L) \<noteq> 0)
      \<longleftrightarrow> (\<exists>l \<in> leases_where (on_call c) L. l \<notin> leases_where (anchored_as c r) L)"
    unfolding card_eq_0_iff leases_where_def by auto
  finally show ?thesis .
qed

lemma last_lease:
  assumes "counts_ok L cs" and "hm_get L l = Some a"
    and "\<not> is_anchored_for_other_reason cs (oa_call_id a) (oa_reason a)"
    and "hm_get L l' = Some a'" and "oa_call_id a' = oa_call_id a"
  shows "l' = l"
proof -
  let ?S = "leases_where (anchored_as (oa_call_id a) (oa_reason a)) L"
  have "l \<in> ?S" using assms(2) by (simp add: leases_where_iff)
  moreover have "l' \<in> leases_where (on_call (oa_call_id a)) L" using assms(4,5) by (auto simp: leases_where_iff)
  then have "l' \<in> ?S" and "card ?S \<le> 1"
    using assms(3) other_reason_iff [OF assms(1), of "oa_call_id a" "oa_reason a"] by (blast, linarith)
  ultimately show ?thesis using card_le_Suc0_iff_eq [of ?S] by simp
qed

lemma counts_ok_acquire:
  assumes "counts_ok L cs" and "hm_get L l = None"
  shows "counts_ok (hm_insert l \<lparr>oa_call_id = c, oa_reason = r, oa_access = e\<rparr> L) (anchor_acquire c r cs)"
  using assms leases_where_insert [OF assms(2)]
  by (auto simp: counts_ok_def anchor_acquire_def positive_def)

lemma counts_ok_release:
  assumes "counts_ok L cs" and "hm_get L l = Some a"
  shows "fst (anchor_release (oa_call_id a) (oa_reason a) cs)"
    and "counts_ok (hm_remove l L) (snd (anchor_release (oa_call_id a) (oa_reason a) cs))"
proof -
  let ?c = "oa_call_id a" and ?r = "oa_reason a"
  let ?S = "\<lambda>c r. leases_where (anchored_as c r) L"
  have l: "l \<in> ?S c r \<longleftrightarrow> c = ?c \<and> r = ?r" for c r using assms(2) by (auto simp: leases_where_iff)
  then have pos: "card (?S ?c ?r) \<noteq> 0" by (auto simp: card_eq_0_iff)
  have get: "hm_get cs (?c, ?r) = Some (card (?S ?c ?r))"
    using counts_okD [OF assms(1), of ?c ?r] pos by (simp add: positive_def)
  then show "fst (anchor_release ?c ?r cs)" by (simp add: anchor_release_def)
  have "hm_get (snd (anchor_release ?c ?r cs)) (c, r) = positive (card (?S c r - {l}))" for c r
    using get l [of c r] counts_okD [OF assms(1), of c r]
    by (auto simp: anchor_release_def positive_def card_Diff_singleton_if)
  moreover have "hm_wf (snd (anchor_release ?c ?r cs))"
    using assms(1) by (simp add: counts_ok_def anchor_release_def split: option.split)
  ultimately show "counts_ok (hm_remove l L) (snd (anchor_release ?c ?r cs))"
    by (simp add: counts_ok_def leases_where_remove)
qed

lemma counts_ok_remove_call:
  assumes "counts_ok L cs" and "hm_wf L"
  shows "counts_ok (filter (\<lambda>(_, a). oa_call_id a \<noteq> c) L) (anchors_remove_call c cs)"
proof -
  have "leases_where (anchored_as c' r) (filter (\<lambda>(_, a). oa_call_id a \<noteq> c) L) =
      (if c' = c then {} else leases_where (anchored_as c' r) L)" for c' r
    using assms(2) by (auto simp: leases_where_iff hm_get_filter_values split: option.splits if_splits)
  moreover have "hm_get (anchors_remove_call c cs) (c', r) = (if c' = c then None else hm_get cs (c', r))" for c' r
    unfolding anchors_remove_call_def by (induction cs) auto
  moreover have "hm_wf (anchors_remove_call c cs)"
    using assms(1) by (simp add: counts_ok_def anchors_remove_call_def hm_wf_filter)
  ultimately show ?thesis using assms(1) by (simp add: counts_ok_def positive_def)
qed


text \<open>The published snapshot, read off the leases.\<close>

lemma snapshot_fold_get:
  "hm_get (fold (snapshot_add R) as []) c =
     (case filter (on_call c) as of
        [] \<Rightarrow> None
      | a # _ \<Rightarrow> Some \<lparr>as_count = length (filter (on_call c) as), as_reason = oa_reason a, as_restore = hm_get R c\<rparr>)"
proof (induction as rule: rev_induct)
  case (snoc a as)
  then show ?case
    by (cases "filter (on_call c) as") (auto simp: snapshot_add_def Let_def split: option.split)
qed simp

definition snapshot_ok :: "('e, 'c) media_owner \<Rightarrow> bool" where
  "snapshot_ok m \<longleftrightarrow> publish_snapshot m = m"

lemma snapshot_ok_publish [simp]: "snapshot_ok (publish_snapshot m)"
  by (simp add: snapshot_ok_def publish_snapshot_def)

lemma publish_fields [simp]:
  "mo_anchors (publish_snapshot m) = mo_anchors m" "mo_restores (publish_snapshot m) = mo_restores m"
  "mo_leases (publish_snapshot m) = mo_leases m" "mo_cancelled (publish_snapshot m) = mo_cancelled m"
  "mo_announcements (publish_snapshot m) = mo_announcements m" "mo_reserved (publish_snapshot m) = mo_reserved m"
  "mo_reservations (publish_snapshot m) = mo_reservations m" "mo_waiting (publish_snapshot m) = mo_waiting m"
  "mo_next_id (publish_snapshot m) = mo_next_id m" "mo_workers (publish_snapshot m) = mo_workers m"
  by (simp_all add: publish_snapshot_def)

lemma snapshot_get:
  assumes "snapshot_ok m" and "hm_wf (mo_leases m)"
  shows "hm_get (mo_anchored m) c = None \<longleftrightarrow> leases_where (on_call c) (mo_leases m) = {}"
    and "hm_get (mo_anchored m) c = Some s \<Longrightarrow>
      as_count s = card (leases_where (on_call c) (mo_leases m)) \<and> as_restore s = hm_get (mo_restores m) c
      \<and> (\<exists>l a. hm_get (mo_leases m) l = Some a \<and> oa_call_id a = c \<and> oa_reason a = as_reason s)"
proof -
  let ?as = "filter (on_call c) (hm_values (mo_leases m))"
  have get: "hm_get (mo_anchored m) c = (case ?as of [] \<Rightarrow> None
      | a # _ \<Rightarrow> Some \<lparr>as_count = length ?as, as_reason = oa_reason a, as_restore = hm_get (mo_restores m) c\<rparr>)"
    using assms(1) snapshot_fold_get [of "mo_restores m" "hm_values (mo_leases m)" c]
    unfolding snapshot_ok_def publish_snapshot_def
    by (metis media_owner.select_convs(1) media_owner.surjective media_owner.update_convs(1))
  have count: "length ?as = card (leases_where (on_call c) (mo_leases m))"
    by (rule hm_count_values [OF assms(2)])
  then show "hm_get (mo_anchored m) c = None \<longleftrightarrow> leases_where (on_call c) (mo_leases m) = {}"
    unfolding get by (cases ?as) (auto simp: card_eq_0_iff)
  show "as_count s = card (leases_where (on_call c) (mo_leases m)) \<and> as_restore s = hm_get (mo_restores m) c
      \<and> (\<exists>l a. hm_get (mo_leases m) l = Some a \<and> oa_call_id a = c \<and> oa_reason a = as_reason s)"
    if "hm_get (mo_anchored m) c = Some s"
  proof (cases ?as)
    case (Cons a as')
    then have "a \<in> set ?as" by simp
    then have "\<exists>l. hm_get (mo_leases m) l = Some a" "oa_call_id a = c"
      using hm_values_iff [OF assms(2)] by auto
    with that Cons count show ?thesis unfolding get by clarsimp blast
  qed (use that get in simp)
qed

section \<open>Invariant\<close>

fun restore_call_of :: "('e, 'c) media_job \<Rightarrow> pbx_call_id list" where
  "restore_call_of (RestoreJob _ c _ _) = [c]"
| "restore_call_of (AnnouncementJob _ _ _) = []"

text \<open>The calls whose direct path is being restored.\<close>

definition restoring :: "('e, 'c) media_owner \<Rightarrow> pbx_call_id list" where
  "restoring m = concat (map restore_call_of (mo_workers m))"

definition resv_ok :: "('e, 'c) media_owner \<Rightarrow> bool" where
  "resv_ok m \<longleftrightarrow>
     hm_wf (mo_reservations m) \<and> exclusive set (mo_reservations m)
     \<and> (\<forall>i rs. hm_get (mo_reservations m) i = Some rs \<longrightarrow> set rs \<subseteq> set (mo_reserved m) \<and> i < mo_next_id m)
     \<and> distinct (restoring m)
     \<and> (\<forall>c \<in> set (restoring m). CallResource c \<in> set (mo_reserved m)
          \<and> (\<forall>i rs. hm_get (mo_reservations m) i = Some rs \<longrightarrow> CallResource c \<notin> set rs))"

definition lease_ok :: "('e, 'c) media_owner \<Rightarrow> bool" where
  "lease_ok m \<longleftrightarrow>
     hm_wf (mo_leases m) \<and> counts_ok (mo_leases m) (mo_anchors m)
     \<and> (\<forall>l a. hm_get (mo_leases m) l = Some a \<longrightarrow> l < mo_next_id m)
     \<and> (\<forall>c p. hm_get (mo_restores m) c = Some p \<longrightarrow> leases_where (on_call c) (mo_leases m) \<noteq> {})"

text \<open>
  While a path is being restored, its call has no lease but the cancelled one, and the
  remembered plan is the one being carried out.
\<close>

definition job_ok :: "('e, 'c) media_owner \<Rightarrow> ('e, 'c) media_job \<Rightarrow> bool" where
  "job_ok m j \<longleftrightarrow>
     (case j of
        AnnouncementJob _ _ _ \<Rightarrow> True
      | RestoreJob i c _ p \<Rightarrow>
          i < mo_next_id m
          \<and> (\<forall>l a. hm_get (mo_leases m) l = Some a \<longrightarrow> oa_call_id a = c \<longleftrightarrow> l = i)
          \<and> (\<forall>p'. hm_get (mo_restores m) c = Some p' \<longrightarrow> p' = p))"

definition media_inv :: "('e, 'c) media_owner \<Rightarrow> bool" where
  "media_inv m \<longleftrightarrow> resv_ok m \<and> lease_ok m \<and> snapshot_ok m \<and> (\<forall>j \<in> set (mo_workers m). job_ok m j)"

lemma media_inv_new: "media_inv media_owner_new"
  by (simp add: media_inv_def media_owner_new_def resv_ok_def lease_ok_def snapshot_ok_def publish_snapshot_def
      restoring_def counts_ok_def leases_where_def positive_def hm_values_def)

text \<open>Fields that play no role in the invariant.\<close>

lemma media_inv_irrelevant [simp]:
  "media_inv (m\<lparr>mo_cancelled := x1\<rparr>) = media_inv m"
  "media_inv (m\<lparr>mo_announcements := x2\<rparr>) = media_inv m"
  "media_inv (m\<lparr>mo_waiting := x3\<rparr>) = media_inv m"
  "media_inv (m\<lparr>mo_next_generation := x4\<rparr>) = media_inv m"
  by (simp_all add: media_inv_def resv_ok_def lease_ok_def snapshot_ok_def publish_snapshot_def restoring_def
      job_ok_def cong: media_job.case_cong, (cases m; simp)+)

lemma media_invD:
  assumes "media_inv m"
  shows "exclusive set (mo_reservations m)"
    and "hm_get (mo_reservations m) i = Some rs \<Longrightarrow> set rs \<subseteq> set (mo_reserved m)"
    and "hm_get (mo_reservations m) i = Some rs \<Longrightarrow> i < mo_next_id m"
    and "distinct (restoring m)"
    and "c \<in> set (restoring m) \<Longrightarrow> CallResource c \<in> set (mo_reserved m)"
    and "c \<in> set (restoring m) \<Longrightarrow> hm_get (mo_reservations m) i = Some rs \<Longrightarrow> CallResource c \<notin> set rs"
    and "hm_wf (mo_leases m)" and "counts_ok (mo_leases m) (mo_anchors m)"
    and "hm_get (mo_leases m) l = Some a \<Longrightarrow> l < mo_next_id m"
    and "hm_get (mo_restores m) c = Some p \<Longrightarrow> leases_where (on_call c) (mo_leases m) \<noteq> {}"
    and "snapshot_ok m" and "hm_wf (mo_reservations m)"
    and "j \<in> set (mo_workers m) \<Longrightarrow> job_ok m j"
  using assms unfolding media_inv_def resv_ok_def lease_ok_def by blast+


text \<open>The invariant depends on the leases and plans only in that both may shrink together.\<close>

lemma media_inv_shrink:
  assumes inv: "media_inv m"
    and same: "mo_reservations m' = mo_reservations m" "mo_reserved m' = mo_reserved m"
      "mo_workers m' = mo_workers m" "mo_next_id m' = mo_next_id m"
    and leases: "hm_wf (mo_leases m')" "counts_ok (mo_leases m') (mo_anchors m')"
      "\<And>l a. hm_get (mo_leases m') l = Some a \<Longrightarrow> hm_get (mo_leases m) l = Some a"
    and restores: "\<And>c p. hm_get (mo_restores m') c = Some p \<Longrightarrow>
      hm_get (mo_restores m) c = Some p \<and> leases_where (on_call c) (mo_leases m') \<noteq> {}"
    and "snapshot_ok m'"
  shows "media_inv m'"
proof -
  have "job_ok m' j" if "j \<in> set (mo_workers m)" for j
    using media_invD(13) [OF inv that] leases(3) restores same(4)
    by (cases j) (auto simp: job_ok_def)
  moreover have "lease_ok m'"
    using leases restores same(4) media_invD(9) [OF inv] by (fastforce simp: lease_ok_def)
  ultimately show ?thesis
    using inv same \<open>snapshot_ok m'\<close> by (simp add: media_inv_def resv_ok_def restoring_def)
qed

lemma release_anchor_fields [simp]:
  "mo_reservations (release_anchor i m) = mo_reservations m" "mo_reserved (release_anchor i m) = mo_reserved m"
  "mo_workers (release_anchor i m) = mo_workers m" "mo_next_id (release_anchor i m) = mo_next_id m"
  "mo_waiting (release_anchor i m) = mo_waiting m" "mo_cancelled (release_anchor i m) = mo_cancelled m"
  "mo_announcements (release_anchor i m) = mo_announcements m"
  "mo_leases (release_anchor i m) = hm_remove i (mo_leases m)"
  by (auto simp: release_anchor_def hm_remove_absent split: option.split prod.split)

lemma restoring_release_anchor [simp]: "restoring (release_anchor i m) = restoring m"
  by (simp add: restoring_def)

lemma media_inv_release_anchor:
  assumes "media_inv m"
  shows "media_inv (release_anchor i m)"
proof (cases "hm_get (mo_leases m) i")
  case None
  with assms media_invD(11) [OF assms] show ?thesis by (simp add: release_anchor_def snapshot_ok_def)
next
  case (Some a)
  let ?m = "release_anchor i m" and ?cs = "snd (anchor_release (oa_call_id a) (oa_reason a) (mo_anchors m))"
  note counts = counts_ok_release [OF media_invD(8) [OF assms] Some]
  have anchors: "mo_anchors ?m = ?cs"
    using Some by (simp add: release_anchor_def split_def Let_def)
  have restores: "mo_restores ?m =
      (if registry_is_anchored ?cs (oa_call_id a) then mo_restores m else hm_remove (oa_call_id a) (mo_restores m))"
    using Some counts(1) by (simp add: release_anchor_def split_def Let_def)
  show ?thesis
  proof (rule media_inv_shrink [OF assms])
    fix c p assume c: "hm_get (mo_restores ?m) c = Some p"
    then have old: "hm_get (mo_restores m) c = Some p" by (auto simp: restores split: if_splits)
    have "leases_where (on_call c) (hm_remove i (mo_leases m)) \<noteq> {}"
    proof (cases "c = oa_call_id a")
      case True
      with c have "registry_is_anchored ?cs c" by (auto simp: restores split: if_splits)
      then show ?thesis unfolding registry_is_anchored_iff [OF counts(2)] .
    next
      case False
      from media_invD(10) [OF assms old] obtain l b where "hm_get (mo_leases m) l = Some b" "oa_call_id b = c"
        unfolding leases_where_def by blast
      with False Some have "l \<in> leases_where (on_call c) (hm_remove i (mo_leases m))"
        by (auto simp: leases_where_iff)
      then show ?thesis by blast
    qed
    with old show "hm_get (mo_restores m) c = Some p \<and> leases_where (on_call c) (mo_leases ?m) \<noteq> {}" by simp
  next
    show "counts_ok (mo_leases ?m) (mo_anchors ?m)" using counts(2) by (simp add: anchors)
    show "snapshot_ok ?m" by (simp add: release_anchor_def)
  qed (use media_invD(7) [OF assms] in \<open>auto split: if_splits\<close>)
qed

lemma media_inv_remove_call:
  assumes "media_inv m"
  shows "media_inv (remove_call c m)"
proof (rule media_inv_shrink [OF assms])
  let ?L = "filter (\<lambda>(_, a). oa_call_id a \<noteq> c) (mo_leases m)"
  note wf = media_invD(7) [OF assms]
  have L: "hm_get ?L l = Some a \<longleftrightarrow> hm_get (mo_leases m) l = Some a \<and> oa_call_id a \<noteq> c" for l a
    using hm_get_filter_values [OF wf, of "\<lambda>a. oa_call_id a \<noteq> c" l] by (auto split: option.splits)
  show "counts_ok (mo_leases (remove_call c m)) (mo_anchors (remove_call c m))"
    using counts_ok_remove_call [OF media_invD(8) [OF assms] wf] by (simp add: remove_call_def)
  show "hm_get (mo_leases m) l = Some a" if "hm_get (mo_leases (remove_call c m)) l = Some a" for l a
    using that L by (simp add: remove_call_def)
  fix c' p assume "hm_get (mo_restores (remove_call c m)) c' = Some p"
  then have c': "c' \<noteq> c" "hm_get (mo_restores m) c' = Some p" by (auto simp: remove_call_def split: if_splits)
  from media_invD(10) [OF assms c'(2)] obtain l a where "hm_get (mo_leases m) l = Some a" "oa_call_id a = c'"
    unfolding leases_where_def by blast
  with c'(1) L have "hm_get ?L l = Some a" by blast
  with \<open>oa_call_id a = c'\<close> have "l \<in> leases_where (on_call c') ?L" by (auto simp: leases_where_iff)
  with c'(2) show "hm_get (mo_restores m) c' = Some p \<and> leases_where (on_call c') (mo_leases (remove_call c m)) \<noteq> {}"
    by (auto simp: remove_call_def)
qed (use media_invD(7) [OF assms] in \<open>simp_all add: remove_call_def\<close>)

text \<open>Resources may be added to the reserved ones, and the reservations may shrink.\<close>

lemma media_inv_reserved:
  assumes "media_inv m"
    and "\<And>i rs. hm_get (mo_reservations m) i = Some rs \<Longrightarrow> set rs \<subseteq> set S"
    and "\<And>c. c \<in> set (restoring m) \<Longrightarrow> CallResource c \<in> set S"
  shows "media_inv (m\<lparr>mo_reserved := S\<rparr>)"
proof -
  have "snapshot_ok (m\<lparr>mo_reserved := S\<rparr>)"
    using media_invD(11) [OF assms(1)] by (cases m) (simp add: snapshot_ok_def publish_snapshot_def)
  moreover have "job_ok (m\<lparr>mo_reserved := S\<rparr>) = job_ok m"
    by (simp add: fun_eq_iff job_ok_def split: media_job.split)
  ultimately show ?thesis
    using assms by (auto simp: media_inv_def resv_ok_def lease_ok_def restoring_def)
qed

lemma media_inv_reservations:
  assumes "media_inv m" and "hm_wf R" and "exclusive set R"
    and "\<And>i rs. hm_get R i = Some rs \<Longrightarrow> set rs \<subseteq> set (mo_reserved m) \<and> i < mo_next_id m"
    and "\<And>i rs c. hm_get R i = Some rs \<Longrightarrow> c \<in> set (restoring m) \<Longrightarrow> CallResource c \<notin> set rs"
  shows "media_inv (m\<lparr>mo_reservations := R\<rparr>)"
proof -
  have "snapshot_ok (m\<lparr>mo_reservations := R\<rparr>)"
    using media_invD(11) [OF assms(1)] by (cases m) (simp add: snapshot_ok_def publish_snapshot_def)
  moreover have "job_ok (m\<lparr>mo_reservations := R\<rparr>) = job_ok m"
    by (simp add: fun_eq_iff job_ok_def split: media_job.split)
  moreover have "restoring (m\<lparr>mo_reservations := R\<rparr>) = restoring m" by (simp add: restoring_def)
  ultimately show ?thesis
    using assms by (auto simp: media_inv_def resv_ok_def lease_ok_def)
qed


lemma media_inv_next_id:
  assumes "media_inv m" and "mo_next_id m \<le> n"
  shows "media_inv (m\<lparr>mo_next_id := n\<rparr>)"
proof -
  have lt: "i < n" if "i < mo_next_id m" for i using that assms(2) by (rule less_le_trans)
  have "snapshot_ok (m\<lparr>mo_next_id := n\<rparr>)"
    using media_invD(11) [OF assms(1)] by (cases m) (simp add: snapshot_ok_def publish_snapshot_def)
  moreover have "job_ok (m\<lparr>mo_next_id := n\<rparr>) j" if "job_ok m j" for j
    using that lt by (cases j) (simp_all add: job_ok_def)
  ultimately show ?thesis
    using assms lt by (auto simp: media_inv_def resv_ok_def lease_ok_def restoring_def)
qed

lemma media_allocate_id_cases:
  obtains (none) "media_allocate_id m = (None, m)"
  | (some) n where "media_allocate_id m = (Some (mo_next_id m), m\<lparr>mo_next_id := n\<rparr>)" "mo_next_id m < n"
  by (cases "checked_succ (mo_next_id m)") (auto simp: media_allocate_id_def dest: checked_succ_less)

text \<open>Workers: starting a restoration, and losing any worker.\<close>

lemma media_inv_start_restore:
  assumes inv: "media_inv m" and l: "hm_get (mo_leases m) i = Some a"
    and free: "CallResource (oa_call_id a) \<notin> set (mo_reserved m)"
    and plan: "hm_get (mo_restores m) (oa_call_id a) = Some p"
    and last: "\<not> is_anchored_for_other_reason (mo_anchors m) (oa_call_id a) (oa_reason a)"
  shows "media_inv (start_restore i a p m)" (is "media_inv ?m")
proof -
  have restoring: "restoring ?m = restoring m @ [oa_call_id a]" by (simp add: restoring_def start_restore_def)
  have new: "oa_call_id a \<notin> set (restoring m)" using free media_invD(5) [OF inv] by blast
  have "CallResource (oa_call_id a) \<notin> set rs" if "hm_get (mo_reservations m) j = Some rs" for j rs
    using media_invD(2) [OF inv that] free by blast
  then have "resv_ok ?m"
    using inv new by (simp add: media_inv_def resv_ok_def restoring) (simp add: start_restore_def, blast)
  moreover have "snapshot_ok ?m"
    using media_invD(11) [OF inv] by (cases m) (simp add: snapshot_ok_def publish_snapshot_def start_restore_def)
  moreover have "lease_ok ?m" using inv by (simp add: media_inv_def lease_ok_def start_restore_def)
  moreover have "job_ok ?m (RestoreJob i (oa_call_id a) (oa_access a) p)"
  proof -
    have "oa_call_id b = oa_call_id a \<longleftrightarrow> k = i" if "hm_get (mo_leases m) k = Some b" for k b
      using last_lease [OF media_invD(8) [OF inv] l last that] l that by fastforce
    with media_invD(9) [OF inv l] plan show ?thesis by (simp add: job_ok_def start_restore_def)
  qed
  moreover have "job_ok ?m j" if "j \<in> set (mo_workers m)" for j
    using media_invD(13) [OF inv that] by (simp add: job_ok_def start_restore_def split: media_job.splits)
  moreover have "mo_workers ?m = mo_workers m @ [RestoreJob i (oa_call_id a) (oa_access a) p]"
    by (simp add: start_restore_def)
  ultimately show ?thesis by (auto simp: media_inv_def)
qed

lemma restoring_split:
  assumes "n < length (mo_workers m)"
  obtains A B where "restoring m = A @ restore_call_of (mo_workers m ! n) @ B"
    and "restoring (drop_worker n m) = A @ B"
proof -
  let ?A = "take n (mo_workers m)" and ?B = "drop (Suc n) (mo_workers m)"
  have "mo_workers m = ?A @ mo_workers m ! n # ?B" using assms by (rule id_take_nth_drop)
  then have "restoring m = concat (map restore_call_of (?A @ mo_workers m ! n # ?B))"
    unfolding restoring_def by (rule arg_cong)
  then have "restoring m = concat (map restore_call_of ?A) @ restore_call_of (mo_workers m ! n)
      @ concat (map restore_call_of ?B)"
    by simp
  moreover have "restoring (drop_worker n m) = concat (map restore_call_of ?A) @ concat (map restore_call_of ?B)"
    by (simp add: restoring_def drop_worker_def)
  ultimately show ?thesis by (rule that)
qed

lemma drop_no_worker: "\<not> n < length (mo_workers m) \<Longrightarrow> drop_worker n m = m"
  by (simp add: drop_worker_def)

lemma media_inv_drop_worker:
  assumes "media_inv m"
  shows "media_inv (drop_worker n m)"
proof (cases "n < length (mo_workers m)")
  case True
  let ?m = "drop_worker n m"
  have sub: "set (mo_workers ?m) \<subseteq> set (mo_workers m)"
    by (auto simp: drop_worker_def dest: in_set_takeD in_set_dropD)
  obtain A B where "restoring m = A @ restore_call_of (mo_workers m ! n) @ B" "restoring ?m = A @ B"
    using True by (rule restoring_split)
  with media_invD(4) [OF assms] have "set (restoring ?m) \<subseteq> set (restoring m)" "distinct (restoring ?m)"
    by auto
  then have "resv_ok ?m" using assms by (auto simp: media_inv_def resv_ok_def drop_worker_def)
  moreover have "snapshot_ok ?m"
    using media_invD(11) [OF assms] by (cases m) (simp add: snapshot_ok_def publish_snapshot_def drop_worker_def)
  moreover have "lease_ok ?m" using assms by (simp add: media_inv_def lease_ok_def drop_worker_def)
  moreover have "job_ok ?m j = job_ok m j" for j
    by (simp add: job_ok_def drop_worker_def split: media_job.split)
  ultimately show ?thesis using assms sub by (auto simp: media_inv_def)
qed (use assms in \<open>simp add: drop_no_worker\<close>)

text \<open>The worker that is gone held its call alone.\<close>

lemma dropped_call_free:
  assumes "media_inv m" and "n < length (mo_workers m)" and "mo_workers m ! n = RestoreJob i c e p"
  shows "c \<notin> set (restoring (drop_worker n m))"
    and "hm_get (mo_reservations m) j = Some rs \<Longrightarrow> CallResource c \<notin> set rs"
proof -
  obtain A B where "restoring m = A @ restore_call_of (mo_workers m ! n) @ B"
    "restoring (drop_worker n m) = A @ B"
    using assms(2) by (rule restoring_split)
  then show "c \<notin> set (restoring (drop_worker n m))"
    and "hm_get (mo_reservations m) j = Some rs \<Longrightarrow> CallResource c \<notin> set rs"
    using media_invD(4) [OF assms(1)] media_invD(6) [OF assms(1), of c] assms(3) by auto
qed

lemma media_inv_release_reservation:
  assumes "media_inv m"
  shows "media_inv (release_reservation i m)"
proof (cases "hm_get (mo_reservations m) i")
  case (Some rs)
  let ?R = "hm_remove i (mo_reservations m)" and ?S = "filter (\<lambda>r. r \<notin> set rs) (mo_reserved m)"
  have R: "j \<noteq> i \<and> hm_get (mo_reservations m) j = Some rs'" if "hm_get ?R j = Some rs'" for j rs'
    using that by (auto split: if_splits)
  have "media_inv (m\<lparr>mo_reservations := ?R\<rparr>)"
  proof (rule media_inv_reservations [OF assms])
    show "set rs' \<subseteq> set (mo_reserved m) \<and> j < mo_next_id m" if "hm_get ?R j = Some rs'" for j rs'
      using media_invD(2,3) [OF assms conjunct2 [OF R [OF that]]] by blast
    show "CallResource c \<notin> set rs'" if "hm_get ?R j = Some rs'" "c \<in> set (restoring m)" for j rs' c
      by (rule media_invD(6) [OF assms that(2) conjunct2 [OF R [OF that(1)]]])
  qed (use media_invD(1,12) [OF assms] in auto)
  moreover have "set rs' \<subseteq> set ?S" if "hm_get ?R j = Some rs'" for j rs'
  proof -
    have "set rs' \<inter> set rs = {}"
      using R [OF that] Some media_invD(1) [OF assms] unfolding exclusive_def by blast
    with media_invD(2) [OF assms, of j rs'] R [OF that] show ?thesis by auto
  qed
  moreover have "CallResource c \<in> set ?S" if "c \<in> set (restoring m)" for c
    using that media_invD(5,6) [OF assms that] Some by simp
  ultimately have "media_inv (m\<lparr>mo_reservations := ?R, mo_reserved := ?S\<rparr>)"
    by (intro media_inv_reserved) (simp_all add: restoring_def)
  then show ?thesis using Some by (simp add: release_reservation_def)
qed (use assms in \<open>simp add: release_reservation_def\<close>)


lemma media_inv_grant:
  assumes inv: "media_inv m" and n: "mo_next_id m < n"
    and free: "\<And>r. r \<in> set rs \<Longrightarrow> r \<notin> set (mo_reserved m)"
  shows "media_inv (m\<lparr>mo_next_id := n, mo_reserved := List.union (mo_reserved m) rs,
      mo_reservations := hm_insert (mo_next_id m) rs (mo_reservations m)\<rparr>)"
proof -
  let ?m1 = "m\<lparr>mo_next_id := n, mo_reserved := List.union (mo_reserved m) rs\<rparr>"
  let ?R = "hm_insert (mo_next_id m) rs (mo_reservations m)"
  have i1: "media_inv (m\<lparr>mo_next_id := n\<rparr>)" by (rule media_inv_next_id [OF inv less_imp_le [OF n]])
  have m1: "media_inv ?m1"
    using media_invD(2,5) [OF i1] by (intro media_inv_reserved [OF i1]) auto
  have "set rs' \<subseteq> set (mo_reserved ?m1) \<and> i < mo_next_id ?m1" if "hm_get ?R i = Some rs'" for i rs'
    using that n media_invD(2,3) [OF m1, of i rs'] by (auto split: if_splits)
  moreover have "CallResource c \<notin> set rs'" if "hm_get ?R i = Some rs'" "c \<in> set (restoring ?m1)" for i rs' c
  proof -
    have c: "c \<in> set (restoring m)" using that(2) by (simp add: restoring_def)
    with that(1) media_invD(5,6) [OF inv c] free show ?thesis by (auto split: if_splits)
  qed
  moreover have "exclusive set ?R"
  proof (rule exclusive_insert)
    show "set rs \<inter> set v' = {}" if "hm_get (mo_reservations m) k' = Some v'" for k' v'
      using media_invD(2) [OF inv that] free by blast
  qed (rule media_invD(1) [OF inv])
  ultimately have "media_inv (?m1\<lparr>mo_reservations := ?R\<rparr>)"
    using media_invD(12) [OF inv] by (intro media_inv_reservations [OF m1]) auto
  then show ?thesis by simp
qed

lemma process_reserve_cases:
  obtains (queued) "reserve_conflict m (extend_resources m (rr_resources q))" "rr_wait q"
      "process_reserve q m =
        ([], m\<lparr>mo_waiting := mo_waiting m @ [q\<lparr>rr_resources := extend_resources m (rr_resources q)\<rparr>]\<rparr>)"
  | (refused) "reserve_conflict m (extend_resources m (rr_resources q))" "\<not> rr_wait q"
      "process_reserve q m = ([ReservationSent (rr_reply q) None], m)"
  | (exhausted) "\<not> reserve_conflict m (extend_resources m (rr_resources q))"
      "process_reserve q m = ([ReservationSent (rr_reply q) None], m)"
  | (granted) n where "\<not> reserve_conflict m (extend_resources m (rr_resources q))" "mo_next_id m < n"
      "process_reserve q m = ([ReservationSent (rr_reply q) (Some (mo_next_id m))],
        m\<lparr>mo_next_id := n,
          mo_reserved := List.union (mo_reserved m) (extend_resources m (rr_resources q)),
          mo_reservations := hm_insert (mo_next_id m) (extend_resources m (rr_resources q)) (mo_reservations m)\<rparr>)"
proof (cases "reserve_conflict m (extend_resources m (rr_resources q))")
  case True
  with queued refused show ?thesis by (cases "rr_wait q") (simp_all add: process_reserve_def Let_def)
next
  case False
  show ?thesis
  proof (cases m rule: media_allocate_id_cases)
    case none
    with False exhausted show ?thesis by (simp add: process_reserve_def Let_def)
  next
    case (some n)
    with False granted show ?thesis by (simp add: process_reserve_def Let_def)
  qed
qed

lemma media_inv_process_reserve:
  assumes "media_inv m"
  shows "media_inv (snd (process_reserve q m))"
proof (cases q m rule: process_reserve_cases)
  case (granted n)
  then have "r \<notin> set (mo_reserved m)" if "r \<in> set (extend_resources m (rr_resources q))" for r
    using that by (auto simp: reserve_conflict_def list_ex_iff)
  with media_inv_grant [OF assms granted(2)] granted(3) show ?thesis by simp
qed (use assms in simp_all)

lemma media_inv_process_all: "media_inv m \<Longrightarrow> media_inv (snd (process_all qs m))"
  by (induction qs arbitrary: m) (auto simp: split_def Let_def media_inv_process_reserve)

lemma media_inv_process_waiting: "media_inv m \<Longrightarrow> media_inv (snd (process_waiting m))"
  by (simp add: process_waiting_def media_inv_process_all)

lemma media_inv_dispatch_loop: "media_inv m \<Longrightarrow> media_inv (dispatch_loop is m)"
  by (induction "is" m rule: dispatch_loop.induct)
    (auto simp: media_inv_release_anchor media_inv_start_restore split: option.split)

lemma media_inv_dispatch: "media_inv m \<Longrightarrow> media_inv (dispatch_cancelled_anchors m)"
  by (simp add: dispatch_cancelled_anchors_def media_inv_dispatch_loop)

lemma media_inv_acquire:
  assumes inv: "media_inv m"
  shows "media_inv (snd (acquire_anchor i c r plan e m))"
proof (cases "(case hm_get (mo_reservations m) i of None \<Rightarrow> False | Some rs \<Rightarrow> CallResource c \<in> set rs)")
  case True
  then obtain rs where rs: "hm_get (mo_reservations m) i = Some rs" "CallResource c \<in> set rs"
    by (auto split: option.splits)
  then have idle: "c \<notin> set (restoring m)" using media_invD(6) [OF inv, of c i rs] by blast
  show ?thesis
  proof (cases m rule: media_allocate_id_cases)
    case none
    with inv True show ?thesis by (simp add: acquire_anchor_def)
  next
    case (some n)
    let ?l = "mo_next_id m"
    let ?m = "snd (acquire_anchor i c r plan e m)"
    note m1 = media_inv_next_id [OF inv less_imp_le [OF some(2)]]
    have fresh: "hm_get (mo_leases m) ?l = None"
      using media_invD(9) [OF inv, of ?l] by (metis less_irrefl not_Some_eq)
    have fields: "mo_reservations ?m = mo_reservations m" "mo_reserved ?m = mo_reserved m"
      "mo_workers ?m = mo_workers m" "mo_next_id ?m = n" "mo_anchors ?m = anchor_acquire c r (mo_anchors m)"
      "mo_leases ?m = hm_insert ?l \<lparr>oa_call_id = c, oa_reason = r, oa_access = e\<rparr> (mo_leases m)"
      "mo_restores ?m = (case plan of None \<Rightarrow> mo_restores m | Some p \<Rightarrow> remember c p (mo_restores m))"
      "snapshot_ok ?m"
      using True some(1) by (simp_all add: acquire_anchor_def split: option.split)
    have restores: "hm_get (mo_restores ?m) c' = Some p \<Longrightarrow> c' \<noteq> c \<Longrightarrow> hm_get (mo_restores m) c' = Some p" for c' p
      by (auto simp: fields remember_def split: option.splits if_splits)
    have "resv_ok ?m" using m1 by (simp add: media_inv_def resv_ok_def restoring_def fields)
    moreover have "leases_where (on_call c') (mo_leases ?m) \<noteq> {}" if "hm_get (mo_restores ?m) c' = Some p" for c' p
      using restores [OF that] media_invD(10) [OF inv, of c' p] leases_where_insert [OF fresh, of "on_call c'"]
      unfolding fields by (cases "c' = c") auto
    then have "lease_ok ?m"
      using media_invD(7,8) [OF inv] counts_ok_acquire [OF _ fresh] some(2) media_invD(9) [OF m1]
      by (auto simp: lease_ok_def fields split: if_splits)
    moreover have "job_ok ?m j" if "j \<in> set (mo_workers m)" for j
    proof (cases j)
      case (RestoreJob k d e' p)
      then have "d \<in> set (restoring m)" using that by (force simp: restoring_def)
      with idle have "d \<noteq> c" by blast
      moreover have "k \<noteq> ?l" using media_invD(13) [OF inv that] RestoreJob by (auto simp: job_ok_def)
      ultimately show ?thesis
        using media_invD(13) [OF inv that] media_invD(13) [OF m1, of j] that RestoreJob restores
        by (auto simp: job_ok_def fields(4,6) split: if_splits)
    qed (simp add: job_ok_def)
    ultimately show ?thesis using fields(3,8) by (auto simp: media_inv_def)
  qed
qed (use inv in \<open>simp add: acquire_anchor_def\<close>)

lemma media_inv_free_call:
  assumes "media_inv m" and "c \<notin> set (restoring m)"
    and "\<And>i rs. hm_get (mo_reservations m) i = Some rs \<Longrightarrow> CallResource c \<notin> set rs"
  shows "media_inv (m\<lparr>mo_reserved := removeAll (CallResource c) (mo_reserved m)\<rparr>)"
  using assms media_invD(2,5) [OF assms(1)] by (intro media_inv_reserved) (auto, blast+)

lemma media_inv_process: "media_inv m \<Longrightarrow> media_inv (snd (process command m))"
  by (cases "(command, m)" rule: process.cases)
    (simp_all add: media_inv_process_reserve media_inv_process_waiting media_inv_dispatch
      media_inv_release_reservation media_inv_acquire media_inv_release_anchor media_inv_remove_call
      defer_announcement_def split_def Let_def)

lemma media_inv_dispatch_due: "media_inv m \<Longrightarrow> media_inv (dispatch_due now m)"
proof -
  assume inv: "media_inv m"
  let ?m = "dispatch_due now m"
  have "concat (map restore_call_of (map (\<lambda>(c, a). AnnouncementJob c (f a) (g a)) xs)) = []" for f g xs
    by (induction xs) auto
  then have "restoring ?m = restoring m" by (simp only: restoring_def dispatch_due_def) simp
  then have "resv_ok ?m" using inv by (simp add: media_inv_def resv_ok_def dispatch_due_def)
  moreover have "snapshot_ok ?m"
    using media_invD(11) [OF inv] by (cases m) (simp add: snapshot_ok_def publish_snapshot_def dispatch_due_def)
  moreover have "lease_ok ?m" using inv by (simp add: media_inv_def lease_ok_def dispatch_due_def)
  moreover have "job_ok ?m j" if "j \<in> set (mo_workers ?m)" for j
  proof (cases j)
    case (RestoreJob i c e p)
    then have "job_ok m j" using that media_invD(13) [OF inv, of j] by (auto simp: dispatch_due_def)
    with RestoreJob show ?thesis by (simp add: job_ok_def dispatch_due_def)
  qed (simp add: job_ok_def)
  ultimately show ?thesis by (simp add: media_inv_def)
qed

lemma media_inv_complete_restore:
  assumes "media_inv m" and "n < length (mo_workers m)" and "mo_workers m ! n = RestoreJob i c e p"
  shows "media_inv (snd (media_complete (CancelledAnchor i c) (drop_worker n m)))"
proof -
  let ?m1 = "release_anchor i (drop_worker n m)"
  have "media_inv ?m1" by (intro media_inv_release_anchor media_inv_drop_worker assms(1))
  then have "media_inv (?m1\<lparr>mo_reserved := removeAll (CallResource c) (mo_reserved ?m1)\<rparr>)"
    by (rule media_inv_free_call)
      (use dropped_call_free [OF assms] in \<open>auto simp: drop_worker_def\<close>)
  then show ?thesis
    by (simp add: Let_def split_def media_inv_dispatch media_inv_process_waiting)
qed

lemma media_inv_step: "media_inv m \<Longrightarrow> media_inv (snd (media_step ev m))"
proof (cases ev)
  case (WorkerReturned n retry now)
  assume inv: "media_inv m"
  show ?thesis
  proof (cases "n < length (mo_workers m)")
    case True
    with inv WorkerReturned show ?thesis
      by (cases "mo_workers m ! n")
        (auto simp: media_inv_dispatch media_inv_drop_worker defer_announcement_def
          simp del: media_complete.simps(2) intro: media_inv_complete_restore)
  qed (use inv WorkerReturned in simp)
qed (simp_all add: split_def media_inv_process media_inv_dispatch media_inv_dispatch_due media_inv_drop_worker)

lemma media_run_snoc: "media_run (evs @ [ev]) = snd (media_step ev (media_run evs))"
  by (simp add: media_run_def)

lemma media_run_inv: "media_inv (media_run evs)"
proof (induction evs rule: rev_induct)
  case Nil
  show ?case by (simp add: media_run_def media_inv_new)
qed (simp add: media_run_snoc media_inv_step)


section \<open>Waiting requests\<close>

fun all_blocked :: "media_resource set \<Rightarrow> reserve_request list \<Rightarrow> bool" where
  "all_blocked S [] = True"
| "all_blocked S (q # qs) \<longleftrightarrow>
     set (rr_resources q) \<inter> S \<noteq> {} \<and> all_blocked (S \<union> set (rr_resources q)) qs"

definition wanted :: "reserve_request list \<Rightarrow> media_resource set" where
  "wanted qs = (\<Union>q \<in> set qs. set (rr_resources q))"

lemma all_blocked_mono: "all_blocked S qs \<Longrightarrow> S \<subseteq> T \<Longrightarrow> all_blocked T qs"
proof (induction qs arbitrary: S T)
  case (Cons q qs)
  have "all_blocked (T \<union> set (rr_resources q)) qs"
  proof (rule Cons.IH)
    show "all_blocked (S \<union> set (rr_resources q)) qs" using Cons.prems(1) by simp
    show "S \<union> set (rr_resources q) \<subseteq> T \<union> set (rr_resources q)" using Cons.prems(2) by blast
  qed
  moreover have "set (rr_resources q) \<inter> S \<noteq> {}" using Cons.prems(1) by simp
  then have "set (rr_resources q) \<inter> T \<noteq> {}" using Cons.prems(2) by blast
  ultimately show ?case by simp
qed simp

lemma all_blocked_snoc:
  "all_blocked S (qs @ [q]) \<longleftrightarrow> all_blocked S qs \<and> set (rr_resources q) \<inter> (S \<union> wanted qs) \<noteq> {}"
proof (induction qs arbitrary: S)
  case (Cons p qs)
  have "S \<union> set (rr_resources p) \<union> wanted qs = S \<union> wanted (p # qs)" by (auto simp: wanted_def)
  with Cons [of "S \<union> set (rr_resources p)"] show ?case by simp
qed (simp add: wanted_def)

definition blocked :: "('e, 'c) media_owner \<Rightarrow> bool" where
  "blocked m \<longleftrightarrow> all_blocked (set (mo_reserved m)) (mo_waiting m)"

lemma reserve_conflict_iff:
  "reserve_conflict m rs \<longleftrightarrow> set rs \<inter> (set (mo_reserved m) \<union> wanted (mo_waiting m)) \<noteq> {}"
  by (auto simp: reserve_conflict_def list_ex_iff wanted_def)

lemma blocked_process_reserve:
  assumes "blocked m"
  shows "blocked (snd (process_reserve q m))"
proof (cases q m rule: process_reserve_cases)
  case queued
  with assms show ?thesis by (simp add: blocked_def all_blocked_snoc reserve_conflict_iff)
next
  case (granted n)
  with assms all_blocked_mono show ?thesis by (fastforce simp: blocked_def)
qed (use assms in simp_all)

lemma blocked_process_all: "blocked m \<Longrightarrow> blocked (snd (process_all qs m))"
  by (induction qs arbitrary: m) (auto simp: split_def Let_def blocked_process_reserve)

lemma blocked_process_waiting: "blocked (snd (process_waiting m))"
  unfolding process_waiting_def by (rule blocked_process_all) (simp add: blocked_def)

lemma start_restore_fields [simp]:
  "mo_waiting (start_restore i a p m) = mo_waiting m" "mo_reservations (start_restore i a p m) = mo_reservations m"
  "mo_leases (start_restore i a p m) = mo_leases m" "mo_next_id (start_restore i a p m) = mo_next_id m"
  "set (mo_reserved (start_restore i a p m)) = insert (CallResource (oa_call_id a)) (set (mo_reserved m))"
  "restoring (start_restore i a p m) = restoring m @ [oa_call_id a]"
  by (simp_all add: start_restore_def restoring_def)

lemma dispatch_loop_fields:
  "mo_waiting (dispatch_loop is m) = mo_waiting m \<and> mo_reservations (dispatch_loop is m) = mo_reservations m
   \<and> set (mo_reserved m) \<subseteq> set (mo_reserved (dispatch_loop is m))"
  by (induction "is" m rule: dispatch_loop.induct) (simp_all split: option.split)

lemmas dispatch_fields =
  dispatch_loop_fields [of "mo_cancelled m" "m\<lparr>mo_cancelled := []\<rparr>" for m, folded dispatch_cancelled_anchors_def, simplified]

lemma blocked_dispatch: "blocked m \<Longrightarrow> blocked (dispatch_cancelled_anchors m)"
  using dispatch_fields [of m] all_blocked_mono by (auto simp: blocked_def)

lemma blocked_same:
  "blocked m \<Longrightarrow> mo_waiting m' = mo_waiting m \<Longrightarrow> mo_reserved m' = mo_reserved m \<Longrightarrow> blocked m'"
  by (simp add: blocked_def)

lemma acquire_fields:
  "mo_waiting (snd (acquire_anchor i c r plan e m)) = mo_waiting m"
  "mo_reserved (snd (acquire_anchor i c r plan e m)) = mo_reserved m"
  "mo_reservations (snd (acquire_anchor i c r plan e m)) = mo_reservations m"
  "mo_workers (snd (acquire_anchor i c r plan e m)) = mo_workers m"
  by (simp_all add: acquire_anchor_def media_allocate_id_def split: option.split)

lemma remove_call_fields [simp]:
  "mo_waiting (remove_call c m) = mo_waiting m" "mo_reserved (remove_call c m) = mo_reserved m"
  "mo_reservations (remove_call c m) = mo_reservations m" "mo_workers (remove_call c m) = mo_workers m"
  by (simp_all add: remove_call_def)

lemma blocked_process: "blocked m \<Longrightarrow> blocked (snd (process command m))"
  by (cases "(command, m)" rule: process.cases)
    (simp_all add: blocked_process_reserve blocked_process_waiting split_def acquire_fields
      defer_announcement_def, simp_all add: blocked_def acquire_fields)

lemma blocked_step:
  assumes "blocked m"
  shows "blocked (snd (media_step ev m))"
proof (cases ev)
  case (WorkerReturned n retry now)
  have "blocked (drop_worker n m)" using assms by (simp add: blocked_def drop_worker_def)
  then have "blocked (case t of None \<Rightarrow> drop_worker n m | Some x \<Rightarrow> defer_announcement c g x (drop_worker n m))" for t c g
    by (auto simp: blocked_def defer_announcement_def split: option.split)
  with assms WorkerReturned show ?thesis
    by (cases "mo_workers m ! n")
      (auto simp: Let_def split_def blocked_dispatch blocked_process_waiting)
next
  case (Received command)
  with assms show ?thesis by (simp add: split_def blocked_dispatch blocked_process)
qed (use assms in \<open>simp_all add: blocked_def dispatch_due_def drop_worker_def\<close>)

lemma media_run_blocked: "blocked (media_run evs)"
proof (induction evs rule: rev_induct)
  case Nil
  show ?case by (simp add: media_run_def media_owner_new_def blocked_def)
qed (simp add: media_run_snoc blocked_step)

text \<open>Unless a worker panics, whatever is reserved has a holder.\<close>

definition reserved_by :: "(reservation_no, media_resource list) hash_map \<Rightarrow> media_resource set" where
  "reserved_by R = {r. \<exists>i rs. hm_get R i = Some rs \<and> r \<in> set rs}"

definition held :: "('e, 'c) media_owner \<Rightarrow> media_resource set" where
  "held m = reserved_by (mo_reservations m) \<union> CallResource ` set (restoring m)"

lemma reserved_by_insert:
  assumes "hm_get R i = None"
  shows "reserved_by (hm_insert i rs R) = reserved_by R \<union> set rs"
proof
  show "reserved_by (hm_insert i rs R) \<subseteq> reserved_by R \<union> set rs"
    by (auto simp: reserved_by_def split: if_splits)
  have old: "hm_get (hm_insert i rs R) j = Some rs'" if "hm_get R j = Some rs'" for j rs'
    using assms that by auto
  have new: "hm_get (hm_insert i rs R) i = Some rs" by simp
  show "reserved_by R \<union> set rs \<subseteq> reserved_by (hm_insert i rs R)"
  proof
    fix r assume "r \<in> reserved_by R \<union> set rs"
    then show "r \<in> reserved_by (hm_insert i rs R)"
      unfolding reserved_by_def using new old by blast
  qed
qed

lemma reserved_by_remove:
  assumes "hm_get R i = Some rs"
  shows "reserved_by R \<subseteq> reserved_by (hm_remove i R) \<union> set rs"
proof
  fix r assume "r \<in> reserved_by R"
  then obtain j rs' where j: "hm_get R j = Some rs'" "r \<in> set rs'" by (auto simp: reserved_by_def)
  show "r \<in> reserved_by (hm_remove i R) \<union> set rs"
  proof (cases "j = i")
    case False
    with j(1) have "hm_get (hm_remove i R) j = Some rs'" by simp
    with j(2) show ?thesis unfolding reserved_by_def by blast
  qed (use assms j in simp)
qed

definition no_leak :: "('e, 'c) media_owner \<Rightarrow> bool" where
  "no_leak m \<longleftrightarrow> set (mo_reserved m) \<subseteq> held m"


lemma no_leakI:
  assumes "no_leak m" and "\<And>r. r \<in> set (mo_reserved m') \<Longrightarrow> r \<notin> held m' \<Longrightarrow> r \<in> set (mo_reserved m)"
    and "\<And>r. r \<in> set (mo_reserved m') \<Longrightarrow> r \<in> held m \<Longrightarrow> r \<in> held m'"
  shows "no_leak m'"
  using assms unfolding no_leak_def by blast

lemma no_leak_same:
  "no_leak m \<Longrightarrow> mo_reserved m' = mo_reserved m \<Longrightarrow> mo_reservations m' = mo_reservations m
    \<Longrightarrow> restoring m' = restoring m \<Longrightarrow> no_leak m'"
  by (simp add: no_leak_def held_def)

lemma no_leak_process_reserve:
  assumes "media_inv m" and "no_leak m"
  shows "no_leak (snd (process_reserve q m))"
proof (cases q m rule: process_reserve_cases)
  case (granted n)
  let ?m = "snd (process_reserve q m)"
  have "hm_get (mo_reservations m) (mo_next_id m) = None"
    using media_invD(3) [OF assms(1), of "mo_next_id m"] by (metis less_irrefl not_Some_eq)
  then have held: "held ?m = held m \<union> set (extend_resources m (rr_resources q))"
    unfolding granted(3) by (auto simp: held_def restoring_def reserved_by_insert)
  show ?thesis
    using assms(2) unfolding no_leak_def held unfolding granted(3) by auto
next
  case queued
  with assms(2) show ?thesis by (auto intro: no_leak_same simp: restoring_def)
qed (use assms in simp_all)

lemma no_leak_process_all: "media_inv m \<Longrightarrow> no_leak m \<Longrightarrow> no_leak (snd (process_all qs m))"
  by (induction qs arbitrary: m)
    (auto simp: split_def Let_def media_inv_process_reserve no_leak_process_reserve)

lemma no_leak_process_waiting:
  assumes "media_inv m" and "no_leak m"
  shows "no_leak (snd (process_waiting m))"
  unfolding process_waiting_def
  by (rule no_leak_process_all) (use assms in \<open>auto intro: no_leak_same simp: restoring_def\<close>)

lemma no_leak_start_restore: "no_leak m \<Longrightarrow> no_leak (start_restore i a p m)"
  unfolding no_leak_def held_def by (simp, blast)

lemma no_leak_dispatch_loop: "no_leak m \<Longrightarrow> no_leak (dispatch_loop is m)"
proof (induction "is" m rule: dispatch_loop.induct)
  case (2 i "is" m)
  have "no_leak (release_anchor i m)" "no_leak (m\<lparr>mo_cancelled := mo_cancelled m @ [i]\<rparr>)"
    "no_leak (start_restore i a p m)" for a p
    using 2(6) by (auto intro: no_leak_same no_leak_start_restore simp: restoring_def)
  with 2 show ?case by (simp split: option.split)
qed simp

lemma no_leak_dispatch: "no_leak m \<Longrightarrow> no_leak (dispatch_cancelled_anchors m)"
  unfolding dispatch_cancelled_anchors_def
  by (rule no_leak_dispatch_loop) (auto intro: no_leak_same simp: restoring_def)

lemma no_leak_release_reservation:
  assumes "no_leak m"
  shows "no_leak (release_reservation i m)"
proof (cases "hm_get (mo_reservations m) i")
  case (Some rs)
  show ?thesis
  proof (rule no_leakI [OF assms])
    fix r assume r: "r \<in> set (mo_reserved (release_reservation i m))"
    then have "r \<notin> set rs" using Some by (simp add: release_reservation_def)
    moreover have "restoring (release_reservation i m) = restoring m"
      using Some by (simp add: release_reservation_def restoring_def)
    ultimately show "r \<in> held (release_reservation i m)" if "r \<in> held m"
      using that Some reserved_by_remove [OF Some] by (auto simp: held_def release_reservation_def)
    show "r \<in> set (mo_reserved m)" using r Some by (simp add: release_reservation_def)
  qed
qed (use assms in \<open>simp add: release_reservation_def\<close>)

lemma no_leak_process:
  assumes "media_inv m" and "no_leak m"
  shows "no_leak (snd (process command m))"
proof (cases "(command, m)" rule: process.cases)
  case (2 i m')
  with assms show ?thesis
    by (simp add: no_leak_process_waiting no_leak_dispatch no_leak_release_reservation media_inv_dispatch
        media_inv_release_reservation)
qed (use assms in \<open>auto simp: no_leak_process_reserve split_def acquire_fields defer_announcement_def restoring_def
    intro: no_leak_same [of m]\<close>)

lemma no_leak_drop_announcement:
  assumes "no_leak m" and "n < length (mo_workers m)" and "mo_workers m ! n = AnnouncementJob c g t"
  shows "no_leak (drop_worker n m)"
proof -
  obtain A B where "restoring m = A @ restore_call_of (mo_workers m ! n) @ B"
    "restoring (drop_worker n m) = A @ B"
    using assms(2) by (rule restoring_split)
  with assms(3) have "restoring (drop_worker n m) = restoring m" by simp
  with assms(1) show ?thesis by (auto intro: no_leak_same simp: drop_worker_def)
qed

lemma no_leak_finish_restore:
  assumes "no_leak m" and "n < length (mo_workers m)" and "mo_workers m ! n = RestoreJob i c e p"
    and "m' = release_anchor i (drop_worker n m)"
  shows "no_leak (m'\<lparr>mo_reserved := removeAll (CallResource c) (mo_reserved m')\<rparr>)" (is "no_leak ?m")
proof -
  obtain A B where AB: "restoring m = A @ restore_call_of (mo_workers m ! n) @ B"
    "restoring (drop_worker n m) = A @ B"
    using assms(2) by (rule restoring_split)
  then have "restoring ?m = A @ B" using assms(4) by (simp add: restoring_def)
  then have held: "held m \<subseteq> insert (CallResource c) (held ?m)"
    using AB assms(3,4) by (auto simp: held_def drop_worker_def)
  show ?thesis
  proof (rule no_leakI [OF assms(1)])
    fix r assume "r \<in> set (mo_reserved ?m)"
    then have r: "r \<in> set (mo_reserved m)" "r \<noteq> CallResource c" by (auto simp: assms(4) drop_worker_def)
    then show "r \<in> set (mo_reserved m)" by blast
    show "r \<in> held ?m" if "r \<in> held m" using that held r(2) by blast
  qed
qed

lemma no_leak_step:
  assumes inv: "media_inv m" and "no_leak m" and "\<And>n. ev \<noteq> WorkerPanicked n"
  shows "no_leak (snd (media_step ev m))"
proof (cases ev)
  case (Received command)
  with assms show ?thesis by (simp add: split_def no_leak_dispatch no_leak_process)
next
  case (WorkerReturned n retry now)
  show ?thesis
  proof (cases "n < length (mo_workers m)")
    case True
    show ?thesis
    proof (cases "mo_workers m ! n")
      case (RestoreJob i c e p)
      let ?m1 = "release_anchor i (drop_worker n m)"
      let ?m2 = "?m1\<lparr>mo_reserved := removeAll (CallResource c) (mo_reserved ?m1)\<rparr>"
      have "no_leak ?m2" by (rule no_leak_finish_restore [OF assms(2) True RestoreJob refl])
      moreover have "media_inv ?m2"
        by (rule media_inv_free_call)
          (use dropped_call_free [OF inv True RestoreJob] inv
            in \<open>auto simp: drop_worker_def intro: media_inv_release_anchor media_inv_drop_worker [unfolded drop_worker_def]\<close>)
      ultimately show ?thesis
        using True WorkerReturned RestoreJob
        by (simp add: Let_def split_def no_leak_dispatch no_leak_process_waiting media_inv_dispatch)
    next
      case (AnnouncementJob c g t)
      have "no_leak (drop_worker n m)" by (rule no_leak_drop_announcement [OF assms(2) True AnnouncementJob])
      then have "no_leak (defer_announcement c g t' (drop_worker n m))" "no_leak (drop_worker n m)" for t'
        by (auto intro: no_leak_same simp: defer_announcement_def restoring_def)
      then show ?thesis
        using True WorkerReturned AnnouncementJob by (simp add: no_leak_dispatch split: option.split)
    qed
  qed (use WorkerReturned assms(2) in simp)
next
  case (DeadlinePassed now)
  have "concat (map restore_call_of (map (\<lambda>(c, a). AnnouncementJob c (f a) (g a)) xs)) = []" for f g xs
    by (induction xs) auto
  then have "restoring (dispatch_due now m) = restoring m" by (simp only: restoring_def dispatch_due_def) simp
  with assms(2) DeadlinePassed show ?thesis by (auto intro: no_leak_same simp: dispatch_due_def)
qed (use assms in \<open>auto intro: no_leak_same simp: restoring_def\<close>)

fun panics :: "('e, 'c) media_event \<Rightarrow> bool" where
  "panics (WorkerPanicked _) = True"
| "panics _ = False"

lemma media_run_no_leak: "\<not> list_ex panics evs \<Longrightarrow> no_leak (media_run evs)"
proof (induction evs rule: rev_induct)
  case Nil
  show ?case by (simp add: media_run_def media_owner_new_def no_leak_def)
next
  case (snoc ev evs)
  then have "ev \<noteq> WorkerPanicked n" for n by auto
  with snoc show ?case by (simp add: media_run_snoc no_leak_step [OF media_run_inv])
qed


section \<open>Answers\<close>

fun answered_channel :: "('e, 'c) media_sent \<Rightarrow> reply_channel list" where
  "answered_channel (ReservationSent reply _) = [reply]"
| "answered_channel _ = []"

definition answers :: "('e, 'c) media_sent list \<Rightarrow> reply_channel list" where
  "answers out = concat (map answered_channel out)"

fun request_channel :: "('e, 'c) media_event \<Rightarrow> reply_channel list" where
  "request_channel (Received (Reserve q)) = [rr_reply q]"
| "request_channel _ = []"

definition requests :: "('e, 'c) media_event list \<Rightarrow> reply_channel list" where
  "requests evs = concat (map request_channel evs)"

definition waiting_channels :: "('e, 'c) media_owner \<Rightarrow> reply_channel list" where
  "waiting_channels m = map rr_reply (mo_waiting m)"

text \<open>
  Handling requests \<open>xs\<close>: those that are not answered are appended to the queue, in the
  order in which they were handled.
\<close>

definition handled :: "reply_channel list \<Rightarrow> reply_channel list \<Rightarrow> ('e, 'c) media_sent list
    \<Rightarrow> ('e, 'c) media_owner \<Rightarrow> bool" where
  "handled ws xs out m \<longleftrightarrow>
     (\<exists>ys. waiting_channels m = ws @ ys \<and> subseq ys xs \<and> mset xs = mset ys + mset (answers out))"

lemma handled_none: "waiting_channels m = ws \<Longrightarrow> answers out = [] \<Longrightarrow> handled ws [] out m"
  by (simp add: handled_def)

lemma handled_reserve:
  "handled (waiting_channels m) [rr_reply q] (fst (process_reserve q m)) (snd (process_reserve q m))"
  by (cases q m rule: process_reserve_cases) (simp_all add: handled_def waiting_channels_def answers_def)

lemma handled_all: "handled (waiting_channels m) (map rr_reply qs) (fst (process_all qs m)) (snd (process_all qs m))"
proof (induction qs arbitrary: m)
  case (Cons q qs)
  obtain out m1 where p: "process_reserve q m = (out, m1)" by fastforce
  obtain outs m2 where ps: "process_all qs m1 = (outs, m2)" by fastforce
  obtain ys where ys: "waiting_channels m1 = waiting_channels m @ ys" "subseq ys [rr_reply q]"
    "{#rr_reply q#} = mset ys + mset (answers out)"
    using handled_reserve [of m q] by (auto simp: handled_def p)
  obtain zs where "waiting_channels m2 = waiting_channels m1 @ zs" "subseq zs (map rr_reply qs)"
    "mset (map rr_reply qs) = mset zs + mset (answers outs)"
    using Cons [of m1] by (auto simp: handled_def ps)
  with ys have "waiting_channels m2 = waiting_channels m @ (ys @ zs)" "subseq (ys @ zs) (rr_reply q # map rr_reply qs)"
    "mset (rr_reply q # map rr_reply qs) = mset (ys @ zs) + mset (answers (out @ outs))"
    using list_emb_append_mono [OF ys(2), of zs "map rr_reply qs"]
    by (simp_all add: answers_def add_mset_add_single [of "rr_reply q" "mset (map rr_reply qs)"])
  then show ?case by (auto simp: handled_def p ps)
qed (simp add: handled_def answers_def)

lemma handled_waiting:
  "handled [] (waiting_channels m) (fst (process_waiting m)) (snd (process_waiting m))"
  using handled_all [of "m\<lparr>mo_waiting := []\<rparr>" "mo_waiting m"]
  by (simp add: process_waiting_def waiting_channels_def)

text \<open>One step: what was waiting and what was asked is answered or waits, in order.\<close>

definition accounted :: "reply_channel list \<Rightarrow> ('e, 'c) media_sent list \<Rightarrow> ('e, 'c) media_owner \<Rightarrow> bool" where
  "accounted xs out m \<longleftrightarrow>
     subseq (waiting_channels m) xs \<and> mset xs = mset (waiting_channels m) + mset (answers out)"

lemma accounted_handled: "handled ws xs out m \<Longrightarrow> accounted (ws @ xs) out m"
  by (auto simp: handled_def accounted_def intro: list_emb_append_mono)

lemma accounted_same: "waiting_channels m = xs \<Longrightarrow> answers out = [] \<Longrightarrow> accounted xs out m"
  by (simp add: accounted_def)

lemma waiting_channels_dispatch [simp]: "waiting_channels (dispatch_cancelled_anchors m) = waiting_channels m"
  using dispatch_fields [of m] by (simp add: waiting_channels_def)

lemma accounted_dispatch [simp]: "accounted xs out (dispatch_cancelled_anchors m) = accounted xs out m"
  by (simp add: accounted_def)

lemma accounted_waiting:
  "waiting_channels m = xs \<Longrightarrow> accounted xs (fst (process_waiting m)) (snd (process_waiting m))"
  using accounted_handled [OF handled_waiting [of m]] by simp

lemma accounted_process:
  "accounted (waiting_channels m @ request_channel (Received command)) (fst (process command m)) (snd (process command m))"
proof (cases "(command, m)" rule: process.cases)
  case (1 q m')
  with accounted_handled [OF handled_reserve [of m q]] show ?thesis by simp
next
  case (2 i m')
  have "waiting_channels (release_reservation i m) = waiting_channels m"
    by (simp add: release_reservation_def waiting_channels_def split: option.split)
  with 2 show ?thesis by (simp add: accounted_waiting)
qed (auto intro!: accounted_same simp: split_def waiting_channels_def acquire_fields defer_announcement_def answers_def)

lemma accounted_step:
  assumes "ev \<noteq> LoopEnded"
  shows "accounted (waiting_channels m @ request_channel ev) (fst (media_step ev m)) (snd (media_step ev m))"
proof (cases ev)
  case (Received command)
  with accounted_process [of m command] show ?thesis by (simp add: split_def)
next
  case (WorkerReturned n retry now)
  show ?thesis
  proof (cases "n < length (mo_workers m)")
    case True
    have "waiting_channels (defer_announcement c g t (drop_worker n m)) = waiting_channels m"
      "waiting_channels (drop_worker n m) = waiting_channels m" for c g t
      by (simp_all add: waiting_channels_def defer_announcement_def drop_worker_def)
    with True WorkerReturned show ?thesis
      by (cases "mo_workers m ! n")
        (auto simp: Let_def split_def waiting_channels_def drop_worker_def answers_def dispatch_fields
          intro!: accounted_waiting accounted_same)
  qed (simp add: WorkerReturned accounted_same answers_def)
qed (use assms in \<open>auto intro!: accounted_same simp: waiting_channels_def dispatch_due_def drop_worker_def answers_def\<close>)

fun media_trace ::
  "('e, 'c) media_event list \<Rightarrow> ('e, 'c) media_owner \<Rightarrow> ('e, 'c) media_sent list \<times> ('e, 'c) media_owner"
where
  "media_trace [] m = ([], m)"
| "media_trace (ev # evs) m =
     (let (out, m1) = media_step ev m; (outs, m2) = media_trace evs m1 in (out @ outs, m2))"

lemma media_trace_run: "snd (media_trace evs media_owner_new) = media_run evs"
proof -
  have "snd (media_trace evs m) = fold (\<lambda>ev m. snd (media_step ev m)) evs m" for m
    by (induction evs arbitrary: m) (simp_all add: split_def Let_def)
  then show ?thesis by (simp add: media_run_def)
qed

lemma accounted_trace:
  assumes "LoopEnded \<notin> set evs"
  shows "accounted (waiting_channels m @ requests evs) (fst (media_trace evs m)) (snd (media_trace evs m))"
  using assms
proof (induction evs arbitrary: m)
  case (Cons ev evs)
  obtain out m1 where s: "media_step ev m = (out, m1)" by fastforce
  obtain outs m2 where t: "media_trace evs m1 = (outs, m2)" by fastforce
  have "accounted (waiting_channels m @ request_channel ev) out m1"
    using accounted_step [of ev m] Cons.prems by (auto simp: s)
  then have s': "subseq (waiting_channels m1) (waiting_channels m @ request_channel ev)"
    "mset (waiting_channels m @ request_channel ev) = mset (waiting_channels m1) + mset (answers out)"
    by (simp_all add: accounted_def)
  have "accounted (waiting_channels m1 @ requests evs) outs m2"
    using Cons.IH [of m1] Cons.prems by (simp add: t)
  then have t': "subseq (waiting_channels m2) (waiting_channels m1 @ requests evs)"
    "mset (waiting_channels m1 @ requests evs) = mset (waiting_channels m2) + mset (answers outs)"
    by (simp_all add: accounted_def)
  have "subseq (waiting_channels m2) ((waiting_channels m @ request_channel ev) @ requests evs)"
    by (rule subseq_order.order_trans [OF t'(1)]) (intro list_emb_append_mono s'(1) subseq_order.order_refl)
  moreover have "mset ((waiting_channels m @ request_channel ev) @ requests evs) =
      mset (waiting_channels m2) + mset (answers (out @ outs))"
  proof -
    have "mset ((waiting_channels m @ request_channel ev) @ requests evs) =
        mset (waiting_channels m1 @ requests evs) + mset (answers out)"
      unfolding mset_append [of "waiting_channels m @ request_channel ev"] s'(2) by (simp add: ac_simps)
    also have "\<dots> = mset (waiting_channels m2) + mset (answers (out @ outs))"
      unfolding t'(2) by (simp add: answers_def ac_simps)
    finally show ?thesis .
  qed
  ultimately show ?case by (simp add: accounted_def s t requests_def)
qed (simp add: accounted_def requests_def answers_def)


section \<open>Properties of ownership\<close>

text \<open>
  C30. Media paths are owned by one party at a time: after any sequence of events, two
  live reservations share no call and no conference, a call whose direct path is being
  restored belongs to no reservation and to no second restoration, and everything
  owned is marked as reserved.
\<close>

theorem media_reservations_exclusive:
  "(hm_get (mo_reservations (media_run evs)) i = Some rs \<and> hm_get (mo_reservations (media_run evs)) j = Some rs'
      \<and> i \<noteq> j \<longrightarrow> set rs \<inter> set rs' = {})
   \<and> (hm_get (mo_reservations (media_run evs)) i = Some rs \<and> c \<in> set (restoring (media_run evs))
      \<longrightarrow> CallResource c \<notin> set rs)
   \<and> distinct (restoring (media_run evs)) \<and> held (media_run evs) \<subseteq> set (mo_reserved (media_run evs))"
proof -
  note D = media_invD [OF media_run_inv [of evs]]
  have "held (media_run evs) \<subseteq> set (mo_reserved (media_run evs))"
    using D(2,5) unfolding held_def reserved_by_def by blast
  moreover have "set rs \<inter> set rs' = {}"
    if "hm_get (mo_reservations (media_run evs)) i = Some rs" "hm_get (mo_reservations (media_run evs)) j = Some rs'"
      "i \<noteq> j"
    using D(1) that unfolding exclusive_def by blast
  ultimately show ?thesis using D(4) D(6) [of c i rs] by blast
qed

text \<open>A card of at least two, by elements.\<close>

lemma card_le_1_cases:
  assumes "finite S"
  obtains "S = {}" | x where "S = {x}" | "card S > 1"
proof -
  consider "card S = 0" | "card S = 1" | "card S > 1" by linarith
  then show ?thesis
  proof cases
    case 1
    with assms have "S = {}" by simp
    then show ?thesis by (rule that(1))
  next
    case 2
    then obtain x where "S = {x}" by (rule card_1_singletonE)
    then show ?thesis by (rule that(2))
  qed (rule that(3))
qed

lemma snapshot_other_reason:
  assumes inv: "media_inv m"
  shows "handle_other_reason m c r \<longleftrightarrow> is_anchored_for_other_reason (mo_anchors m) c r"
proof -
  let ?S = "leases_where (on_call c) (mo_leases m)" and ?T = "leases_where (anchored_as c r) (mo_leases m)"
  note snap = snapshot_get [OF media_invD(11,7) [OF inv], of c]
  note other = other_reason_iff [OF media_invD(8) [OF inv], of c r]
  have TS: "?T \<subseteq> ?S" by (auto simp: leases_where_iff)
  show ?thesis
  proof (cases rule: card_le_1_cases [OF finite_leases_where [of "on_call c" "mo_leases m"]])
    case 1
    then have "?T = {}" using TS by blast
    with 1 snap(1) other show ?thesis by (simp add: handle_other_reason_def)
  next
    case (2 l)
    then obtain s where s: "hm_get (mo_anchored m) c = Some s" using snap(1) by blast
    obtain l' a where a: "hm_get (mo_leases m) l' = Some a" "oa_call_id a = c" "oa_reason a = as_reason s"
      using snap(2) [OF s] by blast
    then have "l' \<in> ?S" by (auto simp: leases_where_iff)
    then have l': "l' = l" using 2 by blast
    have "l \<in> ?T \<longleftrightarrow> as_reason s = r" using a l' by (auto simp: leases_where_iff)
    moreover have "card ?T \<le> 1" using card_mono [OF _ TS] 2 by simp
    ultimately have "is_anchored_for_other_reason (mo_anchors m) c r \<longleftrightarrow> as_reason s \<noteq> r"
      unfolding other 2 by simp
    moreover have "as_count s = 1" using conjunct1 [OF snap(2) [OF s]] unfolding 2 by simp
    then have "handle_other_reason m c r \<longleftrightarrow> as_reason s \<noteq> r" by (simp add: handle_other_reason_def s)
    ultimately show ?thesis by simp
  next
    case 3
    then have "?S \<noteq> {}" by auto
    then obtain s where s: "hm_get (mo_anchored m) c = Some s" using snap(1) by blast
    have "?S - ?T \<noteq> {} \<or> card ?T > 1"
    proof (cases "?S \<subseteq> ?T")
      case True
      with TS have "?T = ?S" by blast
      with 3 show ?thesis by metis
    qed blast
    then have "is_anchored_for_other_reason (mo_anchors m) c r" unfolding other by blast
    moreover have "as_count s > 1" using conjunct1 [OF snap(2) [OF s]] 3 by (rule ssubst)
    then have "handle_other_reason m c r" by (simp add: handle_other_reason_def s)
    ultimately show ?thesis by simp
  qed
qed

text \<open>
  C31. The three accounts of anchored calls agree after any sequence of events: the
  reference counts are the numbers of live leases for a call and reason, and the
  published snapshot, which other threads read without asking the owner, answers every
  query as the owner's own registry does. In particular a lease is the last one of its
  call exactly when it is the only live lease of the call.
\<close>

theorem media_anchor_agreement:
  "hm_get (mo_anchors (media_run evs)) (c, r)
     = positive (card (leases_where (anchored_as c r) (mo_leases (media_run evs))))
   \<and> handle_is_anchored (media_run evs) c = registry_is_anchored (mo_anchors (media_run evs)) c
   \<and> handle_other_reason (media_run evs) c r = is_anchored_for_other_reason (mo_anchors (media_run evs)) c r
   \<and> handle_restore (media_run evs) c = hm_get (mo_restores (media_run evs)) c
   \<and> (hm_get (mo_leases (media_run evs)) l = Some \<lparr>oa_call_id = c, oa_reason = r, oa_access = e\<rparr>
      \<longrightarrow> lease_is_last (media_run evs) \<lparr>al_call_id = c, al_reason = r, al_id = l, al_held = True\<rparr>
          = (leases_where (on_call c) (mo_leases (media_run evs)) = {l}))"
proof -
  let ?m = "media_run evs"
  have inv: "media_inv ?m" by (rule media_run_inv)
  note snap = snapshot_get [OF media_invD(11,7) [OF inv], of c]
  note counts = media_invD(8) [OF inv]
  have "handle_restore ?m c = hm_get (mo_restores ?m) c"
  proof (cases "hm_get (mo_anchored ?m) c")
    case None
    then have "hm_get (mo_restores ?m) c = None"
      using snap(1) media_invD(10) [OF inv, of c] by (cases "hm_get (mo_restores ?m) c") auto
    with None show ?thesis by (simp add: handle_restore_def)
  next
    case (Some s)
    with snap(2) show ?thesis by (simp add: handle_restore_def)
  qed
  moreover have "lease_is_last ?m \<lparr>al_call_id = c, al_reason = r, al_id = l, al_held = True\<rparr>
      = (leases_where (on_call c) (mo_leases ?m) = {l})"
    if l: "hm_get (mo_leases ?m) l = Some \<lparr>oa_call_id = c, oa_reason = r, oa_access = e\<rparr>"
  proof -
    have mem: "l \<in> leases_where (anchored_as c r) (mo_leases ?m)" "l \<in> leases_where (on_call c) (mo_leases ?m)"
      using l by (auto simp: leases_where_iff)
    have "leases_where (on_call c) (mo_leases ?m) = {l}" if "\<not> is_anchored_for_other_reason (mo_anchors ?m) c r"
    proof -
      have "l' = l" if "l' \<in> leases_where (on_call c) (mo_leases ?m)" for l'
      proof -
        obtain a' where "hm_get (mo_leases ?m) l' = Some a'" "oa_call_id a' = c"
          using \<open>l' \<in> _\<close> unfolding leases_where_iff by blast
        with last_lease [OF counts l, of l' a'] \<open>\<not> is_anchored_for_other_reason _ c r\<close> show ?thesis by simp
      qed
      with mem(2) show ?thesis by blast
    qed
    moreover have "\<not> is_anchored_for_other_reason (mo_anchors ?m) c r"
      if one: "leases_where (on_call c) (mo_leases ?m) = {l}"
    proof -
      have "leases_where (anchored_as c r) (mo_leases ?m) \<subseteq> {l}"
        unfolding one [symmetric] by (auto simp: leases_where_iff)
      with mem(1) have "leases_where (anchored_as c r) (mo_leases ?m) = {l}" by blast
      with one show ?thesis by (simp add: other_reason_iff [OF counts])
    qed
    ultimately show ?thesis using snapshot_other_reason [OF inv, of c r] by (auto simp: lease_is_last_def)
  qed
  ultimately show ?thesis
    using counts_okD [OF counts, of c r] snap(1) registry_is_anchored_iff [OF counts, of c]
      snapshot_other_reason [OF inv, of c r]
    by (auto simp: handle_is_anchored_def hm_contains_def)
qed

text \<open>
  C32. No wakeup is lost and nobody is overtaken: as long as no worker panics, a request
  at the head of the queue waits for something that a live reservation or a running
  restoration owns, every other one for something owned or wanted by a request before
  it, and a new request is granted only when nothing it needs is wanted by a request
  that waits.
\<close>

theorem media_no_lost_wakeup:
  assumes "\<not> list_ex panics evs"
  shows "all_blocked (held (media_run evs)) (mo_waiting (media_run evs))
    \<and> (fst (process_reserve q (media_run evs)) = [ReservationSent (rr_reply q) (Some i)]
       \<longrightarrow> set (rr_resources q) \<inter> (held (media_run evs) \<union> wanted (mo_waiting (media_run evs))) = {})"
proof -
  let ?m = "media_run evs"
  have "held ?m \<subseteq> set (mo_reserved ?m)"
    using media_invD(2,5) [OF media_run_inv [of evs]] unfolding held_def reserved_by_def by blast
  then have held: "held ?m = set (mo_reserved ?m)"
    using media_run_no_leak [OF assms] by (auto simp: no_leak_def)
  have "set (rr_resources q) \<inter> (set (mo_reserved ?m) \<union> wanted (mo_waiting ?m)) = {}"
    if "fst (process_reserve q ?m) = [ReservationSent (rr_reply q) (Some i)]"
    using that
  proof (cases q "media_run evs" rule: process_reserve_cases)
    case (granted n)
    then show ?thesis by (auto simp: reserve_conflict_iff extend_resources_def)
  qed auto
  with held media_run_blocked [of evs] show ?thesis by (simp add: blocked_def)
qed

text \<open>
  C33. Every request is answered exactly once or still waits: until the loop ends, the
  requests received are, with multiplicity, those answered and those in the queue, and
  the queue keeps the order in which they were received.
\<close>

theorem media_requests_accounted:
  assumes "LoopEnded \<notin> set evs" and "media_trace evs media_owner_new = (out, m)"
  shows "mset (requests evs) = mset (answers out) + mset (waiting_channels m)
    \<and> subseq (waiting_channels m) (requests evs) \<and> m = media_run evs"
proof -
  from accounted_trace [OF assms(1), of media_owner_new] assms(2)
  have "accounted (requests evs) out m" by (simp add: waiting_channels_def media_owner_new_def)
  moreover have "m = media_run evs" using media_trace_run [of evs] assms(2) by simp
  ultimately show ?thesis by (simp add: accounted_def add.commute)
qed


lemma dispatch_loop_leases:
  "leases_where P (mo_leases (dispatch_loop is m)) \<subseteq> leases_where P (mo_leases m)"
proof (induction "is" m rule: dispatch_loop.induct)
  case (2 i "is" m)
  have "leases_where P (mo_leases (release_anchor i m)) \<subseteq> leases_where P (mo_leases m)"
    by (auto simp: leases_where_remove)
  with 2 show ?case by (simp split: option.split) blast
qed simp

lemma dispatch_loop_restoring:
  "c \<in> set (restoring (dispatch_loop is m)) \<Longrightarrow>
     c \<in> set (restoring m) \<or> leases_where (on_call c) (mo_leases m) \<noteq> {}"
proof (induction "is" m rule: dispatch_loop.induct)
  case (2 i "is" m)
  have rel: "leases_where (on_call c) (mo_leases m) \<noteq> {}"
    if "leases_where (on_call c) (mo_leases (release_anchor i m)) \<noteq> {}"
    using that by (auto simp: leases_where_remove)
  have new: "leases_where (on_call c) (mo_leases m) \<noteq> {}" if "hm_get (mo_leases m) i = Some a" "oa_call_id a = c" for a
    using that by (auto simp: leases_where_def)
  have same: "restoring (m\<lparr>mo_cancelled := x\<rparr>) = restoring m" for x by (simp add: restoring_def)
  show ?case
  proof (cases "hm_get (mo_leases m) i")
    case (Some a)
    show ?thesis
      using 2(2) [OF Some] 2(3-5) [OF Some] 2(6) Some rel new [OF Some]
      by (cases "CallResource (oa_call_id a) \<in> set (mo_reserved m)"; cases "hm_get (mo_restores m) (oa_call_id a)")
        (auto simp: same split: if_splits)
  qed (use 2 in simp)
qed simp

lemma process_all_fields:
  "mo_leases (snd (process_all qs m)) = mo_leases m \<and> restoring (snd (process_all qs m)) = restoring m"
proof (induction qs arbitrary: m)
  case (Cons q qs)
  have "mo_leases (snd (process_reserve q m)) = mo_leases m \<and> restoring (snd (process_reserve q m)) = restoring m"
    by (cases q m rule: process_reserve_cases) (simp_all add: restoring_def)
  with Cons [of "snd (process_reserve q m)"] show ?case by (simp add: split_def Let_def)
qed simp

lemma process_waiting_fields:
  "mo_leases (snd (process_waiting m)) = mo_leases m" "restoring (snd (process_waiting m)) = restoring m"
  using process_all_fields [of "mo_waiting m" "m\<lparr>mo_waiting := []\<rparr>"]
  by (simp_all add: process_waiting_def restoring_def)

text \<open>A call without leases that is not being restored stays so while waiting work is dispatched.\<close>

definition settled :: "pbx_call_id \<Rightarrow> ('e, 'c) media_owner \<Rightarrow> bool" where
  "settled c m \<longleftrightarrow> leases_where (on_call c) (mo_leases m) = {} \<and> c \<notin> set (restoring m)"

lemma settled_dispatch: "settled c m \<Longrightarrow> settled c (dispatch_cancelled_anchors m)"
  using dispatch_loop_leases [of "on_call c" "mo_cancelled m" "m\<lparr>mo_cancelled := []\<rparr>"]
    dispatch_loop_restoring [of c "mo_cancelled m" "m\<lparr>mo_cancelled := []\<rparr>"]
  by (auto simp: settled_def dispatch_cancelled_anchors_def restoring_def)

lemma settled_waiting: "settled c m \<Longrightarrow> settled c (snd (process_waiting m))"
  by (simp add: settled_def process_waiting_fields)

lemma settled_snapshot:
  assumes "media_inv m" and "settled c m"
  shows "\<not> handle_is_anchored m c" and "handle_restore m c = None"
  using snapshot_get(1) [OF media_invD(11,7) [OF assms(1)], of c] assms(2)
  by (simp_all add: settled_def handle_is_anchored_def handle_restore_def hm_contains_def)

lemma job_ok_leases: "job_ok m (RestoreJob i c e p) \<Longrightarrow> leases_where (on_call c) (mo_leases m) \<subseteq> {i}"
  unfolding job_ok_def leases_where_def by (simp, blast)

lemma finished_restore_settled:
  assumes inv: "media_inv m" and n: "n < length (mo_workers m)" and job: "mo_workers m ! n = RestoreJob i c e p"
  shows "settled c (snd (media_step (WorkerReturned n retry now) m))"
proof -
  let ?m1 = "release_anchor i (drop_worker n m)"
  let ?m2 = "?m1\<lparr>mo_reserved := removeAll (CallResource c) (mo_reserved ?m1)\<rparr>"
  have "job_ok m (RestoreJob i c e p)" using media_invD(13) [OF inv nth_mem [OF n]] unfolding job .
  then have "leases_where (on_call c) (mo_leases m) \<subseteq> {i}" by (rule job_ok_leases)
  then have "leases_where (on_call c) (mo_leases ?m2) = {}"
    by (auto simp: leases_where_remove drop_worker_def)
  moreover have "restoring ?m2 = restoring (drop_worker n m)" by (simp add: restoring_def)
  ultimately have "settled c ?m2"
    using dropped_call_free(1) [OF inv n job] by (simp add: settled_def)
  then show ?thesis
    using n job by (simp add: Let_def split_def settled_dispatch settled_waiting)
qed

text \<open>
  The direct path of a call is restored once, for its last anchor: while the
  restoration runs, the call has no lease but the cancelled one, belongs to no
  reservation, and its remembered plan, if the call was not removed, is the one being
  carried out; when the restoration returns, the call is not anchored, its plan is
  forgotten and no other restoration of it is running.
\<close>

theorem media_restored_once:
  assumes "n < length (mo_workers (media_run evs))" and "mo_workers (media_run evs) ! n = RestoreJob i c e p"
  shows "leases_where (on_call c) (mo_leases (media_run evs)) \<subseteq> {i}
    \<and> (hm_get (mo_reservations (media_run evs)) j = Some rs \<longrightarrow> CallResource c \<notin> set rs)
    \<and> (handle_restore (media_run evs) c = None \<or> handle_restore (media_run evs) c = Some p)
    \<and> \<not> handle_is_anchored (media_run (evs @ [WorkerReturned n retry now])) c
    \<and> handle_restore (media_run (evs @ [WorkerReturned n retry now])) c = None
    \<and> c \<notin> set (restoring (media_run (evs @ [WorkerReturned n retry now])))"
proof -
  let ?m = "media_run evs" and ?m' = "media_run (evs @ [WorkerReturned n retry now])"
  have inv: "media_inv ?m" and inv': "media_inv ?m'" by (rule media_run_inv)+
  have job: "job_ok ?m (RestoreJob i c e p)"
    using media_invD(13) [OF inv nth_mem [OF assms(1)]] unfolding assms(2) .
  have settled: "settled c ?m'" unfolding media_run_snoc by (rule finished_restore_settled [OF inv assms])
  have "handle_restore ?m c = None \<or> handle_restore ?m c = Some p"
  proof (cases "hm_get (mo_anchored ?m) c")
    case (Some s)
    then have "handle_restore ?m c = hm_get (mo_restores ?m) c"
      using snapshot_get(2) [OF media_invD(11,7) [OF inv] Some] by (simp add: handle_restore_def)
    with job show ?thesis by (cases "hm_get (mo_restores ?m) c") (auto simp: job_ok_def)
  qed (simp add: handle_restore_def)
  moreover have "leases_where (on_call c) (mo_leases ?m) \<subseteq> {i}"
    using job by (rule job_ok_leases)
  moreover have "c \<notin> set (restoring ?m')" using settled by (simp add: settled_def)
  ultimately show ?thesis
    using settled_snapshot [OF inv' settled] dropped_call_free(2) [OF inv assms, of j rs] by blast
qed

section \<open>Witnesses\<close>

text \<open>
  A reservation of call 5, an anchor for a recording with plan 11, which is dropped
  while the call is reserved, a request that waits for the call, and the release of the
  reservation, which starts the restoration.
\<close>

definition sample_request :: "reply_channel \<Rightarrow> reserve_request" where
  "sample_request reply = \<lparr>rr_resources = [CallResource 5], rr_wait = True, rr_reply = reply\<rparr>"

definition sample_media_events :: "(nat, nat) media_event list" where
  "sample_media_events =
     [Received (Reserve (sample_request 0)), Received (AcquireAnchor 1 5 Recording (Some 11) 0 1),
      Received (ReleaseAnchor 2 None), Received (Reserve (sample_request 2)), Received (ReleaseReservation 1)]"

theorem media_reservations_exclusive_witness:
  "set (restoring (media_run sample_media_events)) = {5} \<and> distinct (restoring (media_run sample_media_events))"
proof -
  have "restoring (media_run sample_media_events) = [5]" by code_simp
  with media_reservations_exclusive [of sample_media_events] show ?thesis by simp
qed

theorem media_anchor_agreement_witness:
  "hm_get (mo_leases (media_run sample_media_events)) 2
     = Some \<lparr>oa_call_id = 5, oa_reason = Recording, oa_access = 0\<rparr>
   \<and> handle_is_anchored (media_run sample_media_events) 5
     = registry_is_anchored (mo_anchors (media_run sample_media_events)) 5"
proof -
  have "hm_get (mo_leases (media_run sample_media_events)) 2
      = Some \<lparr>oa_call_id = 5, oa_reason = Recording, oa_access = 0\<rparr>" by code_simp
  with media_anchor_agreement [of sample_media_events 5 Recording] show ?thesis by blast
qed

theorem media_no_lost_wakeup_witness:
  "waiting_channels (media_run sample_media_events) = [2]
   \<and> all_blocked (held (media_run sample_media_events)) (mo_waiting (media_run sample_media_events))"
proof -
  have "\<not> list_ex panics sample_media_events" by code_simp
  moreover have "waiting_channels (media_run sample_media_events) = [2]" by code_simp
  ultimately show ?thesis using media_no_lost_wakeup by blast
qed

theorem media_requests_accounted_witness:
  "\<exists>out m. media_trace sample_media_events media_owner_new = (out, m)
     \<and> mset [0, 2] = mset (answers out) + mset (waiting_channels m)"
proof -
  obtain out m where t: "media_trace sample_media_events media_owner_new = (out, m)" by fastforce
  have "LoopEnded \<notin> set sample_media_events" by (simp add: sample_media_events_def)
  moreover have "requests sample_media_events = [0, 2]" by code_simp
  ultimately show ?thesis using media_requests_accounted [OF _ t] t by metis
qed

theorem media_restored_once_witness:
  "mo_workers (media_run sample_media_events) = [RestoreJob 2 5 0 11]
   \<and> \<not> handle_is_anchored (media_run (sample_media_events @ [WorkerReturned 0 False 7])) 5"
proof -
  have w: "mo_workers (media_run sample_media_events) = [RestoreJob 2 5 0 11]" by code_simp
  then have "0 < length (mo_workers (media_run sample_media_events))"
    "mo_workers (media_run sample_media_events) ! 0 = RestoreJob 2 5 0 11" by simp_all
  from media_restored_once [OF this] w show ?thesis by blast
qed


end
