(* ===== verification/Mailbox.thy ===== *)
theory Mailbox
  imports Sccp_Prelude
begin

text \<open>
  Bounded admission, \<^verbatim>\<open>asterisk-module/src/runtime/mailbox.rs\<close>: a channel whose messages
  own an admission slot from the moment they are admitted until the work they carry is
  finished. A slot can be reserved ahead, for cleanup that must not be refused later.

  The state is a record with the two semaphores (the admission slots and the capacity
  of the channel), the queue, the counters, and the handles that clients hold: permits
  of work in progress and reservations not yet used. Each method is one step. A
  method that takes a handle by value uses it up, on its error paths too, where the
  handle is dropped.
\<close>

section \<open>State\<close>

datatype admission_error = Full | Closed | Expired

record 'a mailbox =
  mb_capacity :: nat
  mb_slots :: nat
  mb_slots_closed :: bool
  mb_channel :: nat
  mb_channel_closed :: bool
  mb_queue :: "('a \<times> instant option) list"
  mb_working :: nat
  mb_reserved :: nat
  mb_queued :: nat
  mb_outstanding :: nat
  mb_high_water :: nat
  mb_admission_failures :: nat
  mb_expired :: nat

record queue_snapshot =
  qs_capacity :: nat
  qs_queued :: nat
  qs_outstanding :: nat
  qs_high_water :: nat
  qs_admission_failures :: nat
  qs_expired :: nat

definition mailbox_new :: "nat \<Rightarrow> 'a mailbox option" where
  "mailbox_new capacity =
     (if capacity = 0 then None
      else Some \<lparr>mb_capacity = capacity, mb_slots = capacity, mb_slots_closed = False,
        mb_channel = capacity, mb_channel_closed = False, mb_queue = [], mb_working = 0, mb_reserved = 0,
        mb_queued = 0, mb_outstanding = 0, mb_high_water = 0, mb_admission_failures = 0, mb_expired = 0\<rparr>)"

definition mailbox_snapshot :: "'a mailbox \<Rightarrow> queue_snapshot" where
  "mailbox_snapshot m =
     \<lparr>qs_capacity = mb_capacity m, qs_queued = mb_queued m, qs_outstanding = mb_outstanding m,
      qs_high_water = mb_high_water m, qs_admission_failures = mb_admission_failures m,
      qs_expired = mb_expired m\<rparr>"

definition is_closed :: "'a mailbox \<Rightarrow> bool" where
  "is_closed m = mb_slots_closed m"

definition deadline_passed :: "instant \<Rightarrow> instant option \<Rightarrow> bool" where
  "deadline_passed now deadline = (case deadline of None \<Rightarrow> False | Some d \<Rightarrow> d \<le> now)"

section \<open>Operations\<close>

text \<open>The semaphores of the runtime: a closed one refuses even when permits are left.\<close>

definition acquire_slot :: "'a mailbox \<Rightarrow> admission_error + 'a mailbox" where
  "acquire_slot m =
     (if mb_slots_closed m then Inl Closed
      else if mb_slots m = 0 then Inl Full
      else Inr (m\<lparr>mb_slots := mb_slots m - 1\<rparr>))"

definition acquire_channel :: "'a mailbox \<Rightarrow> admission_error + 'a mailbox" where
  "acquire_channel m =
     (if mb_channel_closed m then Inl Closed
      else if mb_channel m = 0 then Inl Full
      else Inr (m\<lparr>mb_channel := mb_channel m - 1\<rparr>))"

definition release_slot :: "'a mailbox \<Rightarrow> 'a mailbox" where
  "release_slot m = m\<lparr>mb_slots := mb_slots m + 1\<rparr>"

text \<open>Dropping a \<open>WorkPermit\<close>, wherever it was held.\<close>

definition drop_permit :: "'a mailbox \<Rightarrow> 'a mailbox" where
  "drop_permit m = release_slot (m\<lparr>mb_outstanding := mb_outstanding m - 1\<rparr>)"

definition failure :: "admission_error \<Rightarrow> 'a mailbox \<Rightarrow> 'a mailbox" where
  "failure e m =
     (if e = Expired then m\<lparr>mb_expired := mb_expired m + 1\<rparr>
      else m\<lparr>mb_admission_failures := mb_admission_failures m + 1\<rparr>)"

definition count_outstanding :: "'a mailbox \<Rightarrow> 'a mailbox" where
  "count_outstanding m =
     (let outstanding = mb_outstanding m + 1 in
      m\<lparr>mb_outstanding := outstanding, mb_high_water := max (mb_high_water m) outstanding\<rparr>)"

definition try_reserve :: "'a mailbox \<Rightarrow> (admission_error + unit) \<times> 'a mailbox" where
  "try_reserve m =
     (case acquire_slot m of
        Inl e \<Rightarrow> (Inl e, failure e m)
      | Inr m1 \<Rightarrow>
          (case acquire_channel m1 of
             Inl e \<Rightarrow> (Inl e, release_slot (failure e m1))
           | Inr m2 \<Rightarrow> (Inr (), (count_outstanding m2)\<lparr>mb_reserved := mb_reserved m2 + 1\<rparr>)))"

definition recycle :: "'a mailbox \<Rightarrow> (admission_error + unit) \<times> 'a mailbox" where
  "recycle m =
     (let m0 = m\<lparr>mb_working := mb_working m - 1\<rparr> in
      case acquire_channel m0 of
        Inl e \<Rightarrow> (Inl e, drop_permit m0)
      | Inr m1 \<Rightarrow> (Inr (), m1\<lparr>mb_reserved := mb_reserved m1 + 1\<rparr>))"

definition reservation_send ::
  "instant \<Rightarrow> 'a \<Rightarrow> instant option \<Rightarrow> 'a mailbox \<Rightarrow> (admission_error + unit) \<times> 'a mailbox"
where
  "reservation_send now v deadline m =
     (let m0 = m\<lparr>mb_reserved := mb_reserved m - 1\<rparr> in
      if deadline_passed now deadline
      then (Inl Expired,
        drop_permit (m0\<lparr>mb_expired := mb_expired m0 + 1, mb_channel := mb_channel m0 + 1\<rparr>))
      else (Inr (), m0\<lparr>mb_queued := mb_queued m0 + 1, mb_queue := mb_queue m0 @ [(v, deadline)]\<rparr>))"

definition drop_reservation :: "'a mailbox \<Rightarrow> 'a mailbox" where
  "drop_reservation m =
     drop_permit (m\<lparr>mb_reserved := mb_reserved m - 1, mb_channel := mb_channel m + 1\<rparr>)"

text \<open>
  \<open>enqueue\<close>, with the slot already taken. When the channel refuses, the message comes
  back in the error and is dropped, which undoes both counters.
\<close>

definition enqueue ::
  "instant \<Rightarrow> 'a \<Rightarrow> instant option \<Rightarrow> 'a mailbox \<Rightarrow> (admission_error + unit) \<times> 'a mailbox"
where
  "enqueue now v deadline m =
     (if deadline_passed now deadline then (Inl Expired, release_slot (failure Expired m))
      else
        let m1 = count_outstanding m; m2 = m1\<lparr>mb_queued := mb_queued m1 + 1\<rparr> in
        case acquire_channel m2 of
          Inl e \<Rightarrow> (Inl e, failure e (drop_permit (m2\<lparr>mb_queued := mb_queued m2 - 1\<rparr>)))
        | Inr m3 \<Rightarrow> (Inr (), m3\<lparr>mb_queue := mb_queue m3 @ [(v, deadline)]\<rparr>))"

definition try_send ::
  "instant \<Rightarrow> 'a \<Rightarrow> instant option \<Rightarrow> 'a mailbox \<Rightarrow> (admission_error + unit) \<times> 'a mailbox"
where
  "try_send now v deadline m =
     (case acquire_slot m of
        Inl e \<Rightarrow> (Inl e, failure e m)
      | Inr m1 \<Rightarrow> enqueue now v deadline m1)"

text \<open>
  \<open>send\<close> waits for a slot. What ends the wait is decided by the runtime: a slot, the
  deadline, or the closing of the slots; \<open>None\<close> means that this end is not possible now.
\<close>

datatype send_wait = SlotAcquired | DeadlineElapsed | SlotsClosed

definition mailbox_send ::
  "send_wait \<Rightarrow> instant \<Rightarrow> 'a \<Rightarrow> instant option \<Rightarrow> 'a mailbox \<Rightarrow> ((admission_error + unit) \<times> 'a mailbox) option"
where
  "mailbox_send w now v deadline m =
     (case w of
        SlotAcquired \<Rightarrow>
          (case acquire_slot m of Inl _ \<Rightarrow> None | Inr m1 \<Rightarrow> Some (enqueue now v deadline m1))
      | DeadlineElapsed \<Rightarrow>
          if deadline_passed now deadline then Some (Inl Expired, failure Expired m) else None
      | SlotsClosed \<Rightarrow>
          if mb_slots_closed m then Some (Inl Closed, failure Closed m) else None)"

definition sender_close :: "'a mailbox \<Rightarrow> 'a mailbox" where
  "sender_close m = m\<lparr>mb_slots_closed := True\<rparr>"

definition receiver_close :: "'a mailbox \<Rightarrow> 'a mailbox" where
  "receiver_close m = m\<lparr>mb_slots_closed := True, mb_channel_closed := True\<rparr>"

text \<open>\<open>try_recv\<close>: the receiver follows the closing of the slots and takes the oldest message.\<close>

definition try_recv :: "'a mailbox \<Rightarrow> ('a \<times> instant option) option \<times> 'a mailbox" where
  "try_recv m =
     (let m1 = (if mb_slots_closed m then m\<lparr>mb_channel_closed := True\<rparr> else m) in
      case mb_queue m1 of
        [] \<Rightarrow> (None, m1)
      | x # xs \<Rightarrow>
          (Some x, m1\<lparr>mb_queue := xs, mb_channel := mb_channel m1 + 1, mb_queued := mb_queued m1 - 1,
                     mb_working := mb_working m1 + 1\<rparr>))"

text \<open>
  \<open>recv\<close> waits while the queue is empty, unless the channel is closed and no
  reservation can still be sent.
\<close>

datatype 'a received = Message 'a "instant option" | Finished | Waiting

definition mailbox_recv :: "'a mailbox \<Rightarrow> 'a received \<times> 'a mailbox" where
  "mailbox_recv m =
     (case try_recv m of
        (Some (v, d), m1) \<Rightarrow> (Message v d, m1)
      | (None, m1) \<Rightarrow> (if mb_channel_closed m1 \<and> mb_reserved m1 = 0 then Finished else Waiting, m1))"

definition record_expiration :: "'a mailbox \<Rightarrow> 'a mailbox" where
  "record_expiration m = m\<lparr>mb_expired := mb_expired m + 1\<rparr>"

definition permit_drop :: "'a mailbox \<Rightarrow> 'a mailbox" where
  "permit_drop m = drop_permit (m\<lparr>mb_working := mb_working m - 1\<rparr>)"

section \<open>Histories\<close>

text \<open>An action that uses a handle is possible only while a client holds one.\<close>

datatype 'a mailbox_action =
    TryReserve
  | Recycle
  | ReservationSend instant 'a "instant option"
  | DropReservation
  | TrySend instant 'a "instant option"
  | Send send_wait instant 'a "instant option"
  | SenderClose
  | ReceiverClose
  | TryRecv
  | Recv
  | RecordExpiration
  | DropPermit

text \<open>The messages accepted and the messages delivered by an action, with the new state.\<close>

definition accepted :: "'a \<Rightarrow> instant option \<Rightarrow> (admission_error + unit) \<times> 'a mailbox \<Rightarrow> ('a \<times> instant option) list" where
  "accepted v d r = (case fst r of Inl _ \<Rightarrow> [] | Inr _ \<Rightarrow> [(v, d)])"

fun delivered :: "'a received \<Rightarrow> ('a \<times> instant option) list" where
  "delivered (Message v d) = [(v, d)]"
| "delivered _ = []"

fun mailbox_apply ::
  "'a mailbox_action \<Rightarrow> 'a mailbox \<Rightarrow> (('a \<times> instant option) list \<times> ('a \<times> instant option) list) \<times> 'a mailbox"
where
  "mailbox_apply TryReserve m = (([], []), snd (try_reserve m))"
| "mailbox_apply Recycle m = (([], []), if mb_working m = 0 then m else snd (recycle m))"
| "mailbox_apply (ReservationSend now v d) m =
     (if mb_reserved m = 0 then (([], []), m)
      else let r = reservation_send now v d m in ((accepted v d r, []), snd r))"
| "mailbox_apply DropReservation m = (([], []), if mb_reserved m = 0 then m else drop_reservation m)"
| "mailbox_apply (TrySend now v d) m = (let r = try_send now v d m in ((accepted v d r, []), snd r))"
| "mailbox_apply (Send w now v d) m =
     (case mailbox_send w now v d m of
        None \<Rightarrow> (([], []), m)
      | Some r \<Rightarrow> ((accepted v d r, []), snd r))"
| "mailbox_apply SenderClose m = (([], []), sender_close m)"
| "mailbox_apply ReceiverClose m = (([], []), receiver_close m)"
| "mailbox_apply TryRecv m = (let (x, m') = try_recv m in (([], case x of None \<Rightarrow> [] | Some y \<Rightarrow> [y]), m'))"
| "mailbox_apply Recv m = (let (x, m') = mailbox_recv m in (([], delivered x), m'))"
| "mailbox_apply RecordExpiration m = (([], []), record_expiration m)"
| "mailbox_apply DropPermit m = (([], []), if mb_working m = 0 then m else permit_drop m)"

fun mailbox_run ::
  "'a mailbox_action list \<Rightarrow> 'a mailbox \<Rightarrow> (('a \<times> instant option) list \<times> ('a \<times> instant option) list) \<times> 'a mailbox"
where
  "mailbox_run [] m = (([], []), m)"
| "mailbox_run (a # as) m =
     (let ((ins, outs), m1) = mailbox_apply a m; ((ins', outs'), m2) = mailbox_run as m1
      in ((ins @ ins', outs @ outs'), m2))"

section \<open>Invariant\<close>

definition mailbox_inv :: "'a mailbox \<Rightarrow> bool" where
  "mailbox_inv m \<longleftrightarrow>
     mb_slots m + mb_outstanding m = mb_capacity m
     \<and> mb_outstanding m = mb_working m + mb_reserved m + length (mb_queue m)
     \<and> mb_channel m + mb_reserved m + length (mb_queue m) = mb_capacity m
     \<and> mb_queued m = length (mb_queue m)
     \<and> mb_outstanding m \<le> mb_high_water m \<and> mb_high_water m \<le> mb_capacity m
     \<and> (mb_channel_closed m \<longrightarrow> mb_slots_closed m)"

lemmas mailbox_defs = acquire_slot_def acquire_channel_def release_slot_def drop_permit_def failure_def
  count_outstanding_def try_reserve_def recycle_def reservation_send_def drop_reservation_def enqueue_def
  try_send_def mailbox_send_def sender_close_def receiver_close_def try_recv_def mailbox_recv_def
  record_expiration_def permit_drop_def

lemma mailbox_inv_new: "mailbox_new capacity = Some m \<Longrightarrow> mailbox_inv m"
  by (auto simp: mailbox_new_def mailbox_inv_def split: if_splits)

lemma mailbox_inv_reserve: "mailbox_inv m \<Longrightarrow> mailbox_inv (snd (try_reserve m))"
  by (auto simp: mailbox_inv_def try_reserve_def acquire_slot_def acquire_channel_def release_slot_def failure_def
      count_outstanding_def Let_def)

lemma mailbox_inv_recycle: "mailbox_inv m \<Longrightarrow> mb_working m \<noteq> 0 \<Longrightarrow> mailbox_inv (snd (recycle m))"
  by (auto simp: mailbox_inv_def recycle_def acquire_channel_def drop_permit_def release_slot_def Let_def)

lemma mailbox_inv_reservation_send:
  "mailbox_inv m \<Longrightarrow> mb_reserved m \<noteq> 0 \<Longrightarrow> mailbox_inv (snd (reservation_send now v d m))"
  by (auto simp: mailbox_inv_def reservation_send_def drop_permit_def release_slot_def Let_def)

lemma mailbox_inv_drop_reservation: "mailbox_inv m \<Longrightarrow> mb_reserved m \<noteq> 0 \<Longrightarrow> mailbox_inv (drop_reservation m)"
  by (auto simp: mailbox_inv_def drop_reservation_def drop_permit_def release_slot_def)

lemma mailbox_inv_enqueue:
  "mailbox_inv m \<Longrightarrow> acquire_slot m = Inr m1 \<Longrightarrow> mailbox_inv (snd (enqueue now v d m1))"
  by (auto simp: mailbox_inv_def enqueue_def acquire_slot_def acquire_channel_def drop_permit_def release_slot_def
      failure_def count_outstanding_def Let_def split: if_splits)

lemma mailbox_inv_failure [simp]: "mailbox_inv (failure e m) = mailbox_inv m"
  by (simp add: mailbox_inv_def failure_def)

lemma mailbox_inv_try_send: "mailbox_inv m \<Longrightarrow> mailbox_inv (snd (try_send now v d m))"
  by (simp add: try_send_def mailbox_inv_enqueue split: sum.split)

lemma mailbox_inv_send: "mailbox_inv m \<Longrightarrow> mailbox_send w now v d m = Some r \<Longrightarrow> mailbox_inv (snd r)"
  by (auto simp: mailbox_send_def mailbox_inv_enqueue split: send_wait.splits sum.splits if_splits)

lemma mailbox_inv_try_recv: "mailbox_inv m \<Longrightarrow> mailbox_inv (snd (try_recv m))"
  by (auto simp: mailbox_inv_def try_recv_def Let_def split: list.split)

lemma mailbox_recv_state: "snd (mailbox_recv m) = snd (try_recv m)"
  by (simp add: mailbox_recv_def split: prod.split option.split)

lemma mailbox_inv_apply: "mailbox_inv m \<Longrightarrow> mailbox_inv (snd (mailbox_apply a m))"
proof (cases a)
  case DropPermit
  assume "mailbox_inv m"
  with DropPermit show ?thesis
    by (auto simp: mailbox_inv_def permit_drop_def drop_permit_def release_slot_def)
qed (auto simp: Let_def split_def mailbox_inv_reserve mailbox_inv_recycle mailbox_inv_reservation_send
    mailbox_inv_drop_reservation mailbox_inv_try_send mailbox_inv_send mailbox_inv_try_recv mailbox_recv_state
    split: option.split, auto simp: mailbox_inv_def sender_close_def receiver_close_def record_expiration_def)

lemma mailbox_inv_run: "mailbox_inv m \<Longrightarrow> mailbox_inv (snd (mailbox_run as m))"
  by (induction as arbitrary: m) (simp_all add: split_def Let_def mailbox_inv_apply)

section \<open>Delivery\<close>

lemma enqueue_queue:
  "mb_queue (snd (enqueue now v d m)) = mb_queue m @ accepted v d (enqueue now v d m)"
  by (simp add: enqueue_def accepted_def acquire_channel_def drop_permit_def release_slot_def failure_def
      count_outstanding_def Let_def)

lemma acquire_slot_queue: "acquire_slot m = Inr m1 \<Longrightarrow> mb_queue m1 = mb_queue m"
  by (auto simp: acquire_slot_def split: if_splits)

lemma failure_queue [simp]: "mb_queue (failure e m) = mb_queue m"
  by (simp add: failure_def)

lemma try_send_queue: "mb_queue (snd (try_send now v d m)) = mb_queue m @ accepted v d (try_send now v d m)"
  by (simp add: try_send_def enqueue_queue acquire_slot_queue split: sum.split)
    (simp add: accepted_def)

lemma send_queue:
  "mailbox_send w now v d m = Some r \<Longrightarrow> mb_queue (snd r) = mb_queue m @ accepted v d r"
  by (auto simp: mailbox_send_def enqueue_queue acquire_slot_queue accepted_def
      split: send_wait.splits sum.splits if_splits)

lemma reservation_send_queue:
  "mb_queue (snd (reservation_send now v d m)) = mb_queue m @ accepted v d (reservation_send now v d m)"
  by (simp add: reservation_send_def accepted_def drop_permit_def release_slot_def Let_def)

lemma try_recv_queue:
  "mb_queue m = (case fst (try_recv m) of None \<Rightarrow> [] | Some x \<Rightarrow> [x]) @ mb_queue (snd (try_recv m))"
  by (simp add: try_recv_def Let_def split: list.split)

lemma mailbox_recv_queue: "mb_queue m = delivered (fst (mailbox_recv m)) @ mb_queue (snd (mailbox_recv m))"
  using try_recv_queue [of m] by (auto simp: mailbox_recv_def split: prod.split option.split)

lemma mailbox_apply_queue:
  assumes "mailbox_apply a m = ((ins, outs), m')"
  shows "mb_queue m @ ins = outs @ mb_queue m'"
proof (cases a)
  case (Send w now v d)
  with assms show ?thesis by (auto split: option.splits dest!: send_queue)
next
  case TryRecv
  with assms try_recv_queue [of m] show ?thesis by (auto simp: split_def Let_def)
next
  case Recv
  with assms mailbox_recv_queue [of m] show ?thesis by (auto simp: split_def Let_def)
next
  case (ReservationSend now v d)
  with assms reservation_send_queue [of now v d m] show ?thesis by (auto simp: Let_def split: if_splits)
next
  case (TrySend now v d)
  with assms try_send_queue [of now v d m] show ?thesis by (auto simp: Let_def)
qed (use assms in \<open>auto simp: mailbox_defs Let_def split: if_splits\<close>)

lemma mailbox_run_queue:
  assumes "mailbox_run as m = ((ins, outs), m')"
  shows "mb_queue m @ ins = outs @ mb_queue m'"
  using assms
proof (induction as arbitrary: m ins outs)
  case (Cons a as)
  obtain i1 o1 m1 where a: "mailbox_apply a m = ((i1, o1), m1)" by (metis surj_pair)
  obtain i2 o2 where r: "mailbox_run as m1 = ((i2, o2), m')" "ins = i1 @ i2" "outs = o1 @ o2"
    using Cons.prems a by (auto simp: split_def Let_def prod_eq_iff)
  from mailbox_apply_queue [OF a] Cons.IH [OF r(1)] show ?case
    unfolding r(2,3) by (metis append.assoc)
qed simp

text \<open>
  C34. Admission is bounded end to end: whatever the clients do, every slot is free, or
  held by exactly one queued message, reservation or piece of work in progress; the
  counters tell how many there are, and their highest number stays within the
  capacity. So a sender is refused for lack of room exactly when the whole capacity is
  held, and the channel itself never has to refuse a message that was admitted.
\<close>

theorem mailbox_slots_conserved:
  assumes "mailbox_new capacity = Some m0" and "mailbox_run as m0 = (io, m)"
  shows "mb_slots m + mb_working m + mb_reserved m + length (mb_queue m) = capacity
    \<and> mailbox_snapshot m = \<lparr>qs_capacity = capacity, qs_queued = length (mb_queue m),
        qs_outstanding = mb_working m + mb_reserved m + length (mb_queue m),
        qs_high_water = mb_high_water m, qs_admission_failures = mb_admission_failures m,
        qs_expired = mb_expired m\<rparr>
    \<and> qs_outstanding (mailbox_snapshot m) \<le> mb_high_water m \<and> mb_high_water m \<le> capacity
    \<and> (fst (try_send now v d m) = Inl Full \<longleftrightarrow>
         \<not> is_closed m \<and> mb_working m + mb_reserved m + length (mb_queue m) = capacity)
    \<and> (fst (try_reserve m) = Inl Full \<longleftrightarrow>
         \<not> is_closed m \<and> mb_working m + mb_reserved m + length (mb_queue m) = capacity)"
proof -
  have inv: "mailbox_inv m" using mailbox_inv_run [OF mailbox_inv_new [OF assms(1)], of as] assms(2) by simp
  have "mb_capacity (snd (mailbox_apply a x)) = mb_capacity x" for a and x :: "'a mailbox"
    by (cases a) (auto simp: mailbox_defs Let_def split_def split: option.split list.split sum.split send_wait.split)
  then have "mb_capacity (snd (mailbox_run as x)) = mb_capacity x" for x :: "'a mailbox"
    by (induction as arbitrary: x) (simp_all add: split_def Let_def)
  moreover have "mb_capacity m0 = capacity" using assms(1) by (auto simp: mailbox_new_def split: if_splits)
  ultimately have cap: "mb_capacity m = capacity" using assms(2) by (metis snd_conv)
  have "fst (try_send now v d m) = Inl Full \<longleftrightarrow> \<not> mb_slots_closed m \<and> mb_slots m = 0"
    "fst (try_reserve m) = Inl Full \<longleftrightarrow> \<not> mb_slots_closed m \<and> mb_slots m = 0"
    using inv by (auto simp: mailbox_inv_def try_send_def try_reserve_def acquire_slot_def acquire_channel_def
        enqueue_def count_outstanding_def Let_def)
  with inv cap show ?thesis by (auto simp: mailbox_inv_def mailbox_snapshot_def is_closed_def)
qed

text \<open>
  C35. Accepted work is delivered in order and cleanup is never refused: the messages
  received, followed by those still queued, are exactly the messages accepted, in the
  order in which they were accepted; and whoever holds a reservation can send through
  it even when the mailbox is saturated or closed, whereupon the message waits behind
  those accepted before it and the receiver does not see the end of the channel.
\<close>

theorem mailbox_delivers_in_order:
  assumes "mailbox_new capacity = Some m0" and "mailbox_run as m0 = ((ins, outs), m)"
  shows "ins = outs @ mb_queue m
    \<and> fst (reservation_send now v None m) = Inr ()
    \<and> mb_queue (snd (reservation_send now v None m)) = mb_queue m @ [(v, None)]
    \<and> (mb_reserved m \<noteq> 0 \<longrightarrow> fst (mailbox_recv m) \<noteq> Finished)"
proof -
  have "mb_queue m0 = []" using assms(1) by (auto simp: mailbox_new_def split: if_splits)
  with mailbox_run_queue [OF assms(2)] have "ins = outs @ mb_queue m" by simp
  moreover have "fst (reservation_send now v None m) = Inr ()"
    "mb_queue (snd (reservation_send now v None m)) = mb_queue m @ [(v, None)]"
    by (simp_all add: reservation_send_def deadline_passed_def Let_def)
  moreover have "fst (mailbox_recv m) \<noteq> Finished" if "mb_reserved m \<noteq> 0"
    using that by (auto simp: mailbox_recv_def try_recv_def Let_def split: list.split)
  ultimately show ?thesis by blast
qed

section \<open>Witnesses\<close>

definition sample_mailbox :: "nat mailbox" where
  "sample_mailbox = the (mailbox_new 2)"

lemma sample_mailbox_new: "mailbox_new 2 = Some sample_mailbox"
  by (simp add: sample_mailbox_def mailbox_new_def)

definition sample_mailbox_actions :: "nat mailbox_action list" where
  "sample_mailbox_actions = [TryReserve, TrySend 5 7 None, TrySend 6 8 None, SenderClose, ReservationSend 7 9 None, TryRecv]"

theorem mailbox_slots_conserved_witness:
  "fst (try_send 6 8 None (snd (mailbox_run [TryReserve, TrySend 5 7 None] sample_mailbox))) = Inl Full
   \<and> mb_slots (snd (mailbox_run [TryReserve, TrySend 5 7 None] sample_mailbox)) = 0"
proof -
  let ?r = "mailbox_run [TryReserve, TrySend 5 7 None] sample_mailbox"
  have "?r = (fst ?r, snd ?r)" by simp
  note t = mailbox_slots_conserved [OF sample_mailbox_new this, of 6 8 None]
  have "\<not> is_closed (snd ?r)" "mb_working (snd ?r) + mb_reserved (snd ?r) + length (mb_queue (snd ?r)) = 2"
    "mb_slots (snd ?r) = 0" by code_simp+
  with t show ?thesis by blast
qed

theorem mailbox_delivers_in_order_witness:
  "fst (mailbox_run sample_mailbox_actions sample_mailbox) = ([(7, None), (9, None)], [(7, None)])
   \<and> [(7, None), (9, None)] = [(7, None)] @ mb_queue (snd (mailbox_run sample_mailbox_actions sample_mailbox))"
proof -
  let ?r = "mailbox_run sample_mailbox_actions sample_mailbox"
  have io: "fst ?r = ([(7, None), (9, None)], [(7, None)])" by code_simp
  then have "?r = (([(7, None), (9, None)], [(7, None)]), snd ?r)" by (metis prod.collapse)
  from mailbox_delivers_in_order [OF sample_mailbox_new this] io show ?thesis by blast
qed

end
