(* ===== verification/Wire_Text.thy ===== *)
theory Wire_Text
  imports Rust_Text Wire_Framing
begin

text \<open>
  The shared helpers of the message codecs: payload layouts of
  \<^verbatim>\<open>sccp-protocol/src/message/codec/io.rs\<close>, fixed text fields of
  \<^verbatim>\<open>sccp-protocol/src/message/codec/fixed_text.rs\<close>, and bounded byte strings of
  \<^verbatim>\<open>sccp-protocol/src/message/bounded.rs\<close>. The reader and writer that the codec
  library derives for a layout are parameters.
\<close>

section \<open>UTF-8\<close>

text \<open>\<open>std::str::from_utf8\<close>: shortest forms of scalar values only.\<close>

definition is_scalar :: "nat \<Rightarrow> bool" where
  "is_scalar c \<longleftrightarrow> c < 0xD800 \<or> 0xE000 \<le> c \<and> c < 0x110000"

definition continuation :: "nat \<Rightarrow> bool" where
  "continuation b \<longleftrightarrow> 0x80 \<le> b \<and> b < 0xC0"

fun utf8_step :: "nat list \<Rightarrow> (nat \<times> nat list) option" where
  "utf8_step [] = None"
| "utf8_step (b0 # bs) =
     (if b0 < 0x80 then Some (b0, bs)
      else if 0xC2 \<le> b0 \<and> b0 < 0xE0 then
        (case bs of
           b1 # r \<Rightarrow>
             if continuation b1 then Some ((b0 - 0xC0) * 64 + (b1 - 0x80), r) else None
         | _ \<Rightarrow> None)
      else if 0xE0 \<le> b0 \<and> b0 < 0xF0 then
        (case bs of
           b1 # b2 # r \<Rightarrow>
             let c = (b0 - 0xE0) * 4096 + (b1 - 0x80) * 64 + (b2 - 0x80) in
             if continuation b1 \<and> continuation b2 \<and> 0x800 \<le> c \<and> is_scalar c then Some (c, r) else None
         | _ \<Rightarrow> None)
      else if 0xF0 \<le> b0 \<and> b0 < 0xF5 then
        (case bs of
           b1 # b2 # b3 # r \<Rightarrow>
             let c = (b0 - 0xF0) * 262144 + (b1 - 0x80) * 4096 + (b2 - 0x80) * 64 + (b3 - 0x80) in
             if continuation b1 \<and> continuation b2 \<and> continuation b3 \<and> 0x10000 \<le> c \<and> is_scalar c
             then Some (c, r) else None
         | _ \<Rightarrow> None)
      else None)"

lemma utf8_step_shorter: "utf8_step bs = Some (c, r) \<Longrightarrow> length r < length bs"
  by (cases bs) (auto simp: Let_def split: if_splits list.splits)

function utf8_decode :: "nat list \<Rightarrow> rust_str option" where
  "utf8_decode bs =
     (if bs = [] then Some []
      else case utf8_step bs of
        None \<Rightarrow> None
      | Some (c, r) \<Rightarrow> map_option ((#) c) (utf8_decode r))"
  by pat_completeness auto
termination
  by (relation "measure length") (auto simp: utf8_step_shorter)

declare utf8_decode.simps [simp del]

definition from_utf8 :: "u8 list \<Rightarrow> rust_str option" where
  "from_utf8 bs = utf8_decode (map unat bs)"

lemma unat_byte: "b < 256 \<Longrightarrow> unat (of_nat b :: u8) = b"
  by (simp add: unat_of_nat take_bit_nat_eq_self)

text \<open>The bytes of a scalar value, as numbers.\<close>

definition utf8_numbers :: "nat \<Rightarrow> nat list" where
  "utf8_numbers c =
     (if c < 0x80 then [c]
      else if c < 0x800 then [0xC0 + c div 64, 0x80 + c mod 64]
      else if c < 0x10000 then [0xE0 + c div 4096, 0x80 + c div 64 mod 64, 0x80 + c mod 64]
      else [0xF0 + c div 262144, 0x80 + c div 4096 mod 64, 0x80 + c div 64 mod 64, 0x80 + c mod 64])"

lemma utf8_char_numbers:
  assumes "c < 0x110000"
  shows "map unat (utf8_char c) = utf8_numbers c"
proof -
  have "0x80 + n mod 64 < 256" for n :: nat by (simp add: trans_less_add1)
  moreover have "c < 0x800 \<Longrightarrow> 0xC0 + c div 64 < 256" "c < 0x10000 \<Longrightarrow> 0xE0 + c div 4096 < 256"
    "0xF0 + c div 262144 < 256"
    using assms by linarith+
  ultimately show ?thesis by (simp add: utf8_char_def utf8_numbers_def unat_byte del: of_nat_add)
qed

lemma sextets:
  fixes c :: nat
  shows "c div 64 * 64 + c mod 64 = c"
    and "c div 4096 * 4096 + c div 64 mod 64 * 64 + c mod 64 = c"
    and "c div 262144 * 262144 + c div 4096 mod 64 * 4096 + c div 64 mod 64 * 64 + c mod 64 = c"
proof -
  have q: "n div 64 * 64 + n mod 64 = n" for n :: nat by (rule div_mult_mod_eq)
  have d: "c div 4096 = c div 64 div 64" "c div 262144 = c div 64 div 64 div 64"
    by (simp_all add: div_mult2_eq [symmetric])
  show "c div 64 * 64 + c mod 64 = c" by (rule q)
  show "c div 4096 * 4096 + c div 64 mod 64 * 64 + c mod 64 = c"
    unfolding d using q [of c] q [of "c div 64"] by linarith
  show "c div 262144 * 262144 + c div 4096 mod 64 * 4096 + c div 64 mod 64 * 64 + c mod 64 = c"
    unfolding d using q [of c] q [of "c div 64"] q [of "c div 64 div 64"] by linarith
qed

lemma utf8_step_numbers:
  assumes "is_scalar c"
  shows "utf8_step (utf8_numbers c @ r) = Some (c, r)"
proof -
  have cont: "continuation (0x80 + n mod 64)" for n by (simp add: continuation_def)
  consider "c < 0x80" | "0x80 \<le> c" "c < 0x800" | "0x800 \<le> c" "c < 0x10000" | "0x10000 \<le> c" "c < 0x110000"
    using assms unfolding is_scalar_def by linarith
  then show ?thesis
  proof cases
    case 2
    then have "2 \<le> c div 64" "c div 64 < 32" by auto
    with 2 cont show ?thesis by (simp add: utf8_numbers_def sextets)
  next
    case 3
    then have "c div 4096 < 16" by auto
    with 3 cont assms show ?thesis by (simp add: utf8_numbers_def sextets Let_def)
  next
    case 4
    then have "c div 262144 < 5" by auto
    with 4 cont assms show ?thesis by (simp add: utf8_numbers_def sextets Let_def)
  qed (simp add: utf8_numbers_def)
qed

lemma sextet_digits:
  fixes x y z w :: nat
  assumes "y < 64" and "z < 64" and "w < 64"
  shows "(x * 64 + y) div 64 = x" "(x * 64 + y) mod 64 = y"
    and "(x * 4096 + y * 64 + z) div 4096 = x" "(x * 4096 + y * 64 + z) div 64 mod 64 = y"
      "(x * 4096 + y * 64 + z) mod 64 = z"
    and "(x * 262144 + y * 4096 + z * 64 + w) div 262144 = x"
      "(x * 262144 + y * 4096 + z * 64 + w) div 4096 mod 64 = y"
      "(x * 262144 + y * 4096 + z * 64 + w) div 64 mod 64 = z"
      "(x * 262144 + y * 4096 + z * 64 + w) mod 64 = w"
proof -
  have q: "(a * 64 + b) div 64 = a" "(a * 64 + b) mod 64 = b" if "b < 64" for a b :: nat
    using that by simp_all
  have two: "x * 4096 + y * 64 + z = (x * 64 + y) * 64 + z" by simp
  have three: "x * 262144 + y * 4096 + z * 64 + w = ((x * 64 + y) * 64 + z) * 64 + w" by simp
  have d: "n div 4096 = n div 64 div 64" "n div 262144 = n div 64 div 64 div 64" for n :: nat
    by (simp_all add: div_mult2_eq [symmetric])
  show "(x * 64 + y) div 64 = x" "(x * 64 + y) mod 64 = y" using q assms by blast+
  show "(x * 4096 + y * 64 + z) div 4096 = x" "(x * 4096 + y * 64 + z) div 64 mod 64 = y"
    "(x * 4096 + y * 64 + z) mod 64 = z"
    unfolding two d q [OF assms(2)] q [OF assms(1)] by (rule refl)+
  show "(x * 262144 + y * 4096 + z * 64 + w) div 262144 = x"
    "(x * 262144 + y * 4096 + z * 64 + w) div 4096 mod 64 = y"
    "(x * 262144 + y * 4096 + z * 64 + w) div 64 mod 64 = z"
    "(x * 262144 + y * 4096 + z * 64 + w) mod 64 = w"
    unfolding three d q [OF assms(3)] q [OF assms(2)] q [OF assms(1)] by (rule refl)+
qed

lemma continuationD: "continuation b \<Longrightarrow> b - 0x80 < 64 \<and> 0x80 + (b - 0x80) = b"
  by (auto simp: continuation_def)

lemma utf8_step_sound:
  assumes "utf8_step bs = Some (c, r)"
  shows "is_scalar c \<and> bs = utf8_numbers c @ r"
proof -
  obtain b0 bs' where bs: "bs = b0 # bs'" using assms by (cases bs) auto
  consider "b0 < 0x80" | "0xC2 \<le> b0" "b0 < 0xE0" | "0xE0 \<le> b0" "b0 < 0xF0" | "0xF0 \<le> b0" "b0 < 0xF5"
    using assms bs by (auto split: if_splits)
  then show ?thesis
  proof cases
    case 1
    with assms bs show ?thesis by (auto simp: utf8_numbers_def is_scalar_def)
  next
    case 2
    with assms bs obtain b1 where b1: "bs' = b1 # r" "continuation b1" "c = (b0 - 0xC0) * 64 + (b1 - 0x80)"
      by (auto split: list.splits if_splits)
    note y = continuationD [OF b1(2)]
    have c: "c div 64 = b0 - 0xC0" "c mod 64 = b1 - 0x80"
      unfolding b1(3) using sextet_digits(1,2) [of "b1 - 0x80" 0 0] y by simp_all
    have "0x80 \<le> c" "c < 0x800" using 2 y b1(3) by linarith+
    then have "utf8_numbers c = [b0, b1]" using 2 y c by (simp add: utf8_numbers_def)
    with bs b1(1) \<open>c < 0x800\<close> show ?thesis by (simp add: is_scalar_def)
  next
    case 3
    with assms bs obtain b1 b2 where b: "bs' = b1 # b2 # r" "continuation b1" "continuation b2"
      "c = (b0 - 0xE0) * 4096 + (b1 - 0x80) * 64 + (b2 - 0x80)" "0x800 \<le> c" "is_scalar c"
      by (auto simp: Let_def split: list.splits if_splits)
    note y = continuationD [OF b(2)] and z = continuationD [OF b(3)]
    have c: "c div 4096 = b0 - 0xE0" "c div 64 mod 64 = b1 - 0x80" "c mod 64 = b2 - 0x80"
      unfolding b(4) using sextet_digits(3-5) [of "b1 - 0x80" "b2 - 0x80" 0] y z by simp_all
    have "c < 0x10000" using 3 y z b(4) by linarith
    then have "utf8_numbers c = [b0, b1, b2]" using 3 y z c b(5) by (simp add: utf8_numbers_def)
    with bs b(1,6) show ?thesis by simp
  next
    case 4
    with assms bs obtain b1 b2 b3 where b: "bs' = b1 # b2 # b3 # r" "continuation b1" "continuation b2"
      "continuation b3" "c = (b0 - 0xF0) * 262144 + (b1 - 0x80) * 4096 + (b2 - 0x80) * 64 + (b3 - 0x80)"
      "0x10000 \<le> c" "is_scalar c"
      by (auto simp: Let_def split: list.splits if_splits)
    note y = continuationD [OF b(2)] and z = continuationD [OF b(3)] and w = continuationD [OF b(4)]
    have c: "c div 262144 = b0 - 0xF0" "c div 4096 mod 64 = b1 - 0x80" "c div 64 mod 64 = b2 - 0x80"
      "c mod 64 = b3 - 0x80"
      unfolding b(5) using sextet_digits(6-9) [of "b1 - 0x80" "b2 - 0x80" "b3 - 0x80"] y z w by simp_all
    have "utf8_numbers c = [b0, b1, b2, b3]" using 4 y z w c b(6) by (simp add: utf8_numbers_def)
    with bs b(1,7) show ?thesis by simp
  qed
qed

abbreviation valid_text :: "rust_str \<Rightarrow> bool" where
  "valid_text s \<equiv> list_all is_scalar s"

lemma utf8_decode_iff: "utf8_decode bs = Some s \<longleftrightarrow> valid_text s \<and> bs = concat (map utf8_numbers s)"
proof (induction s arbitrary: bs)
  case Nil
  show ?case by (subst utf8_decode.simps) (auto split: option.splits)
next
  case (Cons c s)
  have "utf8_numbers c \<noteq> []" by (simp add: utf8_numbers_def)
  show ?case
  proof
    assume "utf8_decode bs = Some (c # s)"
    then obtain r where "utf8_step bs = Some (c, r)" "utf8_decode r = Some s"
      by (subst (asm) utf8_decode.simps) (auto split: if_splits option.splits)
    with utf8_step_sound Cons [of r] show "valid_text (c # s) \<and> bs = concat (map utf8_numbers (c # s))" by auto
  next
    assume bs: "valid_text (c # s) \<and> bs = concat (map utf8_numbers (c # s))"
    then have "utf8_step bs = Some (c, concat (map utf8_numbers s))" using utf8_step_numbers [of c] by simp
    moreover have "utf8_decode (concat (map utf8_numbers s)) = Some s" using Cons bs by simp
    ultimately show "utf8_decode bs = Some (c # s)"
      using bs \<open>utf8_numbers c \<noteq> []\<close> by (subst utf8_decode.simps) simp
  qed
qed

lemma as_bytes_numbers: "valid_text s \<Longrightarrow> map unat (as_bytes s) = concat (map utf8_numbers s)"
  by (induction s) (auto simp: as_bytes_def utf8_char_numbers is_scalar_def)

text \<open>Decoding accepts exactly the encodings of valid text.\<close>

lemma from_utf8_iff: "from_utf8 bs = Some s \<longleftrightarrow> valid_text s \<and> as_bytes s = bs"
proof -
  have "inj (map unat :: u8 list \<Rightarrow> nat list)" by (simp add: inj_mapI injI word_unat_eq_iff)
  then have "as_bytes s = bs \<longleftrightarrow> map unat bs = map unat (as_bytes s)" by (auto dest: injD)
  moreover have "from_utf8 bs = Some s \<longleftrightarrow> valid_text s \<and> map unat bs = concat (map utf8_numbers s)"
    by (simp add: from_utf8_def utf8_decode_iff)
  ultimately show ?thesis using as_bytes_numbers [of s] by metis
qed

lemma utf8_char_nonzero:
  assumes "is_scalar c" and "c \<noteq> 0"
  shows "0 \<notin> set (utf8_char c)"
proof -
  have "map unat (utf8_char c) = utf8_numbers c" using assms(1) by (intro utf8_char_numbers) (auto simp: is_scalar_def)
  moreover have "0 \<notin> set (utf8_numbers c)" using assms(2) by (simp add: utf8_numbers_def)
  ultimately have "0 \<notin> set (map unat (utf8_char c))" by metis
  then show ?thesis by force
qed


section \<open>Fixed text fields\<close>

text \<open>A \<open>WireFixedText<N>\<close> is the array of its bytes; the width is an argument where the type has it.\<close>

type_synonym wire_fixed_text = "u8 list"

datatype legacy_code_page = Iso8859_1 | Ascii

definition from_bytes :: "nat \<Rightarrow> u32 \<Rightarrow> string \<Rightarrow> u8 list \<Rightarrow> codec_error + wire_fixed_text" where
  "from_bytes width message_id field value =
     (let maximum = width - 1 in
      if length value > maximum then Inl (TextTooLong message_id field (length value) maximum)
      else Inr (value @ replicate (width - length value) 0))"

definition fixed_text_new :: "nat \<Rightarrow> u32 \<Rightarrow> string \<Rightarrow> rust_str \<Rightarrow> codec_error + wire_fixed_text" where
  "fixed_text_new width message_id field value = from_bytes width message_id field (as_bytes value)"

definition question_mark :: u8 where
  "question_mark = 63"

definition station_text_bytes :: "rust_str \<Rightarrow> legacy_code_page option \<Rightarrow> codec_error + u8 list" where
  "station_text_bytes value page =
     (if 0 \<in> set value then Inl InvalidText
      else Inr (case page of
          None \<Rightarrow> as_bytes value
        | Some Iso8859_1 \<Rightarrow> map (\<lambda>c. if c < 256 then of_nat c else question_mark) value
        | Some Ascii \<Rightarrow> map (\<lambda>c. if c < 128 then of_nat c else question_mark) value))"

definition new_station ::
  "nat \<Rightarrow> u32 \<Rightarrow> string \<Rightarrow> rust_str \<Rightarrow> legacy_code_page option \<Rightarrow> codec_error + wire_fixed_text"
where
  "new_station width message_id field value page =
     (case station_text_bytes value page of
        Inl e \<Rightarrow> Inl e
      | Inr bytes \<Rightarrow> from_bytes width message_id field bytes)"

definition fixed_text :: "wire_fixed_text \<Rightarrow> codec_error + rust_str" where
  "fixed_text bytes =
     (case from_utf8 (takeWhile (\<lambda>b. b \<noteq> 0) bytes) of
        None \<Rightarrow> Inl InvalidText
      | Some text \<Rightarrow> Inr (trim text))"

section \<open>Payload layouts\<close>

text \<open>
  A derived reader takes the payload and returns a value with the position behind it, a
  derived writer returns the bytes.
\<close>

type_synonym 'a wire_reader = "u8 list \<Rightarrow> binrw_error + 'a \<times> nat"
type_synonym 'a wire_writer = "'a \<Rightarrow> binrw_error + u8 list"

definition wire_encode :: "'a wire_writer \<Rightarrow> u32 \<Rightarrow> 'a \<Rightarrow> codec_error + u8 list" where
  "wire_encode writer message_id v =
     (case writer v of Inl e \<Rightarrow> Inl (codec_error_wire ''encode'' message_id e) | Inr bs \<Rightarrow> Inr bs)"

definition decode_cursor :: "'a wire_reader \<Rightarrow> u32 \<Rightarrow> u8 list \<Rightarrow> codec_error + 'a \<times> nat" where
  "decode_cursor reader message_id payload =
     (case reader payload of
        Inl e \<Rightarrow> Inl (codec_error_wire ''decode'' message_id e)
      | Inr (v, position) \<Rightarrow> Inr (v, position))"

definition wire_decode :: "'a wire_reader \<Rightarrow> u32 \<Rightarrow> u8 list \<Rightarrow> codec_error + 'a" where
  "wire_decode reader message_id payload =
     (case decode_cursor reader message_id payload of
        Inl e \<Rightarrow> Inl e
      | Inr (v, consumed) \<Rightarrow>
          if consumed \<noteq> length payload then Inl (TrailingBytes message_id (length payload - consumed))
          else Inr v)"

definition decode_prefix :: "'a wire_reader \<Rightarrow> u32 \<Rightarrow> u8 list \<Rightarrow> codec_error + 'a" where
  "decode_prefix reader message_id payload =
     (case decode_cursor reader message_id payload of Inl e \<Rightarrow> Inl e | Inr (v, _) \<Rightarrow> Inr v)"

definition decode_zero_padded :: "'a wire_reader \<Rightarrow> u32 \<Rightarrow> u8 list \<Rightarrow> codec_error + 'a" where
  "decode_zero_padded reader message_id payload =
     (if length payload mod 4 \<noteq> 0 then Inl (InvalidAlignment message_id (length payload))
      else
        case decode_cursor reader message_id payload of
          Inl e \<Rightarrow> Inl e
        | Inr (v, consumed) \<Rightarrow>
            let padding = drop consumed payload in
            if length padding > 3 \<or> list_ex (\<lambda>b. b \<noteq> 0) padding
            then Inl (TrailingBytes message_id (length padding))
            else Inr v)"

definition validate_exact_payload :: "u8 list \<Rightarrow> u32 \<Rightarrow> nat \<Rightarrow> codec_error + unit" where
  "validate_exact_payload payload message_id expected =
     (if length payload < expected then Inl (Truncated message_id expected (length payload))
      else if length payload > expected then Inl (TrailingBytes message_id (length payload - expected))
      else Inr ())"

definition validate_payload_bounds :: "u8 list \<Rightarrow> u32 \<Rightarrow> nat \<Rightarrow> nat \<Rightarrow> codec_error + unit" where
  "validate_payload_bounds payload message_id minimum maximum =
     (if length payload < minimum then Inl (Truncated message_id minimum (length payload))
      else if length payload > maximum then Inl (TrailingBytes message_id (length payload - maximum))
      else Inr ())"

definition validate_zero_payload :: "u8 list \<Rightarrow> u32 \<Rightarrow> nat \<Rightarrow> codec_error + unit" where
  "validate_zero_payload payload message_id expected =
     (case validate_exact_payload payload message_id expected of
        Inl e \<Rightarrow> Inl e
      | Inr _ \<Rightarrow>
          if list_ex (\<lambda>b. b \<noteq> 0) payload then Inl (InvalidValue message_id ''reserved payload byte'' 1)
          else Inr ())"

definition wire_count :: "u32 \<Rightarrow> string \<Rightarrow> nat \<Rightarrow> codec_error + u32" where
  "wire_count message_id field v =
     (if v < 2 ^ 32 then Inr (of_nat v) else Inl (CountTooLarge message_id field v (2 ^ 32 - 1)))"

text \<open>On a 64-bit target a \<open>u32\<close> always fits a \<open>usize\<close>.\<close>

definition usize_from_wire :: "u32 \<Rightarrow> string \<Rightarrow> u32 \<Rightarrow> codec_error + nat" where
  "usize_from_wire message_id field v = Inr (unat v)"

section \<open>Bounded bytes\<close>

datatype bounded_bytes = BoundedBytes (bounded_as_bytes: "u8 list")

record bounded_bytes_error =
  bb_maximum :: nat
  bb_actual :: nat

definition bounded_bytes_new :: "nat \<Rightarrow> u8 list \<Rightarrow> bounded_bytes_error + bounded_bytes" where
  "bounded_bytes_new maximum bytes =
     (if length bytes > maximum then Inl \<lparr>bb_maximum = maximum, bb_actual = length bytes\<rparr>
      else Inr (BoundedBytes bytes))"

section \<open>Properties of text fields\<close>

text \<open>
  A well-formed field: its width is right, and behind the text there is nothing but
  zeros, of which there is at least one.
\<close>

definition field_ok :: "nat \<Rightarrow> wire_fixed_text \<Rightarrow> bool" where
  "field_ok width bs \<longleftrightarrow> length bs = width \<and> bs \<noteq> [] \<and> last bs = 0"

lemma from_bytes_Inr:
  "from_bytes width message_id field value = Inr bs \<longleftrightarrow>
     length value \<le> width - 1 \<and> bs = value @ replicate (width - length value) 0"
  by (auto simp: from_bytes_def Let_def)

lemma from_bytes_ok:
  assumes "from_bytes width message_id field value = Inr bs" and "0 < width"
  shows "field_ok width bs"
proof -
  have "width - length value \<noteq> 0" using assms by (auto simp: from_bytes_Inr)
  with assms show ?thesis by (auto simp: from_bytes_Inr field_ok_def last_replicate)
qed

lemma takeWhile_zero_padding: "takeWhile (\<lambda>b. b \<noteq> 0) (xs @ replicate n 0) = takeWhile (\<lambda>b. b \<noteq> (0 :: u8)) xs"
  by (induction xs) (auto simp: takeWhile_eq_Nil_iff hd_replicate)

lemma takeWhile_as_bytes:
  "valid_text s \<Longrightarrow> takeWhile (\<lambda>b. b \<noteq> 0) (as_bytes s) = as_bytes (takeWhile (\<lambda>c. c \<noteq> 0) s)"
proof (induction s)
  case (Cons c s)
  show ?case
  proof (cases "c = 0")
    case True
    then show ?thesis by (simp add: as_bytes_def utf8_char_def)
  next
    case False
    then have "\<forall>b \<in> set (utf8_char c). b \<noteq> 0" using utf8_char_nonzero [of c] Cons.prems by force
    with False Cons show ?thesis by (simp add: as_bytes_def)
  qed
qed (simp add: as_bytes_def)

lemma valid_text_takeWhile: "valid_text s \<Longrightarrow> valid_text (takeWhile P s)"
  by (auto simp: list_all_iff dest: set_takeWhileD)

lemma fixed_text_bytes:
  assumes "valid_text s" and "from_bytes width message_id field (as_bytes s) = Inr bs"
  shows "fixed_text bs = Inr (trim (takeWhile (\<lambda>c. c \<noteq> 0) s))"
proof -
  have "takeWhile (\<lambda>b. b \<noteq> 0) bs = as_bytes (takeWhile (\<lambda>c. c \<noteq> 0) s)"
    using assms by (simp add: from_bytes_Inr takeWhile_zero_padding takeWhile_as_bytes)
  then have "from_utf8 (takeWhile (\<lambda>b. b \<noteq> 0) bs) = Some (takeWhile (\<lambda>c. c \<noteq> 0) s)"
    using assms(1) by (simp add: from_utf8_iff valid_text_takeWhile)
  then show ?thesis by (simp add: fixed_text_def)
qed

text \<open>
  C36. Text survives its field: a valid text is accepted exactly when its encoding
  leaves room for the terminating zero, and reading the field gives the text up to its
  first NUL, without surrounding white space; for a station that is served in the
  ASCII code page it gives the text with every other character replaced by a question
  mark. A text that does not fit is refused with its length and the limit.
\<close>

theorem fixed_text_roundtrip:
  assumes "valid_text s"
  shows "(fixed_text_new width message_id field s = Inr bs
      \<longrightarrow> fixed_text bs = Inr (trim (takeWhile (\<lambda>c. c \<noteq> 0) s)))
    \<and> (text_len s \<le> width - 1 \<longleftrightarrow> (\<exists>bs. fixed_text_new width message_id field s = Inr bs))
    \<and> (text_len s > width - 1
      \<longrightarrow> fixed_text_new width message_id field s = Inl (TextTooLong message_id field (text_len s) (width - 1)))
    \<and> (new_station width message_id field s None = Inr bs \<longrightarrow> fixed_text bs = Inr (trim s))
    \<and> (new_station width message_id field s (Some Ascii) = Inr bs
      \<longrightarrow> fixed_text bs = Inr (trim (map (\<lambda>c. if c < 128 then c else 63) s)))"
proof -
  have full: "takeWhile (\<lambda>c. c \<noteq> 0) t = t" if "0 \<notin> set t" for t :: rust_str
    using that by (induction t) auto
  have station: "fixed_text bs = Inr (trim s)" if "new_station width message_id field s None = Inr bs"
  proof -
    from that have "0 \<notin> set s" "from_bytes width message_id field (as_bytes s) = Inr bs"
      by (auto simp: new_station_def station_text_bytes_def split: sum.splits if_splits)
    with fixed_text_bytes [OF assms] full show ?thesis by metis
  qed
  let ?t = "map (\<lambda>c. if c < 128 then c else 63) s"
  have bytes: "map (\<lambda>c. if c < 128 then of_nat c else question_mark) s = as_bytes ?t"
    by (induction s) (auto simp: as_bytes_def utf8_char_def question_mark_def)
  have valid: "valid_text ?t" by (auto simp: list_all_iff is_scalar_def)
  have ascii: "fixed_text bs = Inr (trim ?t)" if "new_station width message_id field s (Some Ascii) = Inr bs"
  proof -
    from that have "0 \<notin> set s" "from_bytes width message_id field (as_bytes ?t) = Inr bs"
      unfolding bytes [symmetric]
      by (auto simp: new_station_def station_text_bytes_def split: sum.splits if_splits)
    then have "0 \<notin> set ?t" "fixed_text bs = Inr (trim (takeWhile (\<lambda>c. c \<noteq> 0) ?t))"
      using fixed_text_bytes [OF valid] by auto
    with full show ?thesis by metis
  qed
  have "fixed_text bs = Inr (trim (takeWhile (\<lambda>c. c \<noteq> 0) s))" if "fixed_text_new width message_id field s = Inr bs"
    using fixed_text_bytes [OF assms] that by (simp add: fixed_text_new_def)
  with station ascii show ?thesis
    by (auto simp: fixed_text_new_def from_bytes_def Let_def)
qed


text \<open>
  The decoders differ only in what they allow behind the value that the derived reader
  found: the exact one nothing, the padded one up to three zeros that complete a multiple
  of four bytes, the prefix one anything. The reader stops within the payload.
\<close>

lemma wire_decode_iff:
  assumes "\<And>w n. reader payload = Inr (w, n) \<Longrightarrow> n \<le> length payload"
  shows "wire_decode reader message_id payload = Inr v \<longleftrightarrow> reader payload = Inr (v, length payload)"
    and "reader payload = Inr (v, k) \<Longrightarrow> k < length payload \<Longrightarrow>
      wire_decode reader message_id payload = Inl (TrailingBytes message_id (length payload - k))"
  using assms by (auto simp: wire_decode_def decode_cursor_def split: sum.splits if_splits)

lemma decode_zero_padded_iff:
  assumes "\<And>w n. reader payload = Inr (w, n) \<Longrightarrow> n \<le> length payload"
  shows "decode_zero_padded reader message_id payload = Inr v \<longleftrightarrow>
    length payload mod 4 = 0 \<and> (\<exists>n \<le> 3. \<exists>k. reader payload = Inr (v, k) \<and> length payload = k + n \<and> drop k payload = replicate n 0)"
proof
  assume "decode_zero_padded reader message_id payload = Inr v"
  then obtain k where k: "reader payload = Inr (v, k)" "length payload mod 4 = 0"
    "length (drop k payload) \<le> 3" "list_all (\<lambda>b. b = 0) (drop k payload)"
    by (auto simp: decode_zero_padded_def decode_cursor_def Let_def list_ex_iff list_all_iff split: if_splits sum.splits)
  then have "drop k payload = replicate (length (drop k payload)) 0"
    by (intro replicate_eqI) (auto simp: list_all_iff)
  with k assms [OF k(1)] show "length payload mod 4 = 0
    \<and> (\<exists>n \<le> 3. \<exists>k. reader payload = Inr (v, k) \<and> length payload = k + n \<and> drop k payload = replicate n 0)"
    by (intro conjI exI [of _ "length payload - k"] exI [of _ k]) auto
next
  assume "length payload mod 4 = 0
    \<and> (\<exists>n \<le> 3. \<exists>k. reader payload = Inr (v, k) \<and> length payload = k + n \<and> drop k payload = replicate n 0)"
  then show "decode_zero_padded reader message_id payload = Inr v"
    by (auto simp: decode_zero_padded_def decode_cursor_def Let_def list_ex_iff)
qed

text \<open>
  C38. What the constructors produce is well formed: a text field has its width and
  ends with a zero, whichever code page it was written in; a bounded byte string keeps
  exactly the bytes it was given and is made exactly within its bound; and a count
  that was written to the wire is read back.
\<close>

theorem wire_values_well_formed:
  assumes "0 < width"
  shows "(fixed_text_new width message_id field s = Inr bs \<longrightarrow> field_ok width bs)
    \<and> (new_station width message_id field s page = Inr bs \<longrightarrow> field_ok width bs)
    \<and> (bounded_bytes_new maximum xs = Inr b \<longleftrightarrow> length xs \<le> maximum \<and> bounded_as_bytes b = xs)
    \<and> (wire_count message_id field k = Inr c \<longrightarrow> usize_from_wire message_id field c = Inr k)"
proof -
  have "field_ok width bs" if "fixed_text_new width message_id field s = Inr bs"
    using from_bytes_ok [OF _ assms] that by (auto simp: fixed_text_new_def)
  moreover have "field_ok width bs" if "new_station width message_id field s page = Inr bs"
    using from_bytes_ok [OF _ assms] that by (auto simp: new_station_def split: sum.splits)
  moreover have "bounded_bytes_new maximum xs = Inr b \<longleftrightarrow> length xs \<le> maximum \<and> bounded_as_bytes b = xs"
    by (cases b) (auto simp: bounded_bytes_new_def)
  moreover have "usize_from_wire message_id field c = Inr k" if "wire_count message_id field k = Inr c"
  proof -
    from that have "k < 2 ^ LENGTH(32)" "c = of_nat k" by (auto simp: wire_count_def split: if_splits)
    then have "unat c = k" by (simp add: unat_of_nat take_bit_nat_eq_self)
    then show ?thesis by (simp add: usize_from_wire_def)
  qed
  ultimately show ?thesis by blast
qed

section \<open>Witnesses\<close>

theorem fixed_text_roundtrip_witness:
  "\<exists>bs. fixed_text_new 8 1 ''label'' (0x20AC # ascii '' 9 '') = Inr bs
     \<and> fixed_text bs = Inr (0x20AC # ascii '' 9'')"
proof -
  let ?s = "0x20AC # ascii '' 9 ''"
  have "valid_text ?s" by (simp add: is_scalar_def)
  note t = fixed_text_roundtrip [OF this, where width = 8 and message_id = 1 and field = "''label''"]
  have "text_len ?s \<le> 8 - 1" by (simp add: utf8_width_def)
  with t obtain bs where bs: "fixed_text_new 8 1 ''label'' ?s = Inr bs" by blast
  have "fixed_text bs = Inr (trim (takeWhile (\<lambda>c. c \<noteq> 0) ?s))" using t [of bs] bs by blast
  moreover have "trim (takeWhile (\<lambda>c. c \<noteq> 0) ?s) = 0x20AC # ascii '' 9''"
    by (simp add: trim_def is_whitespace_def)
  ultimately have "fixed_text bs = Inr (0x20AC # ascii '' 9'')" by (rule trans [OF _ arg_cong])
  with bs show ?thesis by blast
qed

theorem wire_values_well_formed_witness:
  "\<exists>bs. new_station 5 1 ''label'' (ascii ''caf'' @ [0xE9]) (Some Ascii) = Inr bs \<and> field_ok 5 bs"
proof -
  have "new_station 5 1 ''label'' (ascii ''caf'' @ [0xE9]) (Some Ascii) = Inr [99, 97, 102, 63, 0]" by code_simp
  with wire_values_well_formed [of 5 1 "''label''" "ascii ''caf'' @ [0xE9]" "[99, 97, 102, 63, 0]" "Some Ascii"]
  show ?thesis by auto
qed


end
