(* ===== verification/Call_Queue.thy ===== *)
theory Call_Queue
  imports Mailbox "HOL-Library.Sublist"
begin

text \<open>
  Ordered call delivery, \<^verbatim>\<open>asterisk-module/src/runtime/call_queue.rs\<close>, on top of the
  bounded mailbox. A client admits a call and holds a lease; the mailbox slot for the
  teardown of the call is reserved at once, so that retirement is accepted even at
  saturation. The owner keeps one lane per lease and runs the effects of a lane one
  after the other, the teardown last.

  An \<open>Arc<()>\<close> that only serves as an identity is the number of its allocation: two
  live clones compare equal when they come from the same allocation. Their order is the
  order of allocation, which decides between equal deadlines only. The executor is
  a parameter: what \<open>prepare_terminal\<close> answers comes with the turn that reports it, and
  \<open>spawn\<close> starts one task, which ends at a time of its own. A task identity is the
  number of the task. Each reading of the clock is a parameter too, one for every
  request that is examined.

  The fields \<open>cq_sent\<close> and \<open>cq_effects\<close> record what went into the mailbox and what was
  started; no operation reads them. A panic of the executor, after which \<open>run\<close> discards
  what is left and passes the panic on, is not modelled.
\<close>

section \<open>State\<close>

type_synonym lane_generation = nat
type_synonym request_id = nat
type_synonym task_id = nat

record ('k, 'c) queued =
  qd_key :: 'k
  qd_generation :: lane_generation
  qd_command :: 'c
  qd_terminal :: bool

type_synonym ('k, 'c) admitted = "('k, 'c) queued \<times> instant option"

record ('k, 'c) call_lease =
  ls_key :: 'k
  ls_generation :: lane_generation
  ls_teardown :: "'c option"

record ('k, 'c) call_effect =
  ef_key :: 'k
  ef_command :: 'c
  ef_sequence :: u64
  ef_retiring :: lane_generation
  ef_terminal :: bool

record lane =
  ln_waiting :: "request_id list"
  ln_running :: bool
  ln_retiring :: bool

record running =
  rn_generation :: lane_generation
  rn_terminal :: bool

record ('k, 'c) call_queue =
  cq_mailbox :: "('k, 'c) queued mailbox"
  cq_lanes :: "(lane_generation, lane) hash_map"
  cq_pending :: "(request_id, ('k, 'c) admitted) hash_map"
  cq_preparing :: "(request_id, lane_generation) hash_map"
  cq_preparations :: "(request_id, ('k, 'c) queued) hash_map"
  cq_deadlines :: "(instant \<times> request_id) list"
  cq_workers :: "task_id list"
  cq_running :: "(task_id, running) hash_map"
  cq_next_sequence :: u64
  cq_open :: bool
  cq_leases :: "(lane_generation, ('k, 'c) call_lease) hash_map"
  cq_arcs :: nat
  cq_tasks :: nat
  cq_sent :: "('k, 'c) queued list"
  cq_effects :: "('k, 'c) call_effect list"

text \<open>\<open>call_queue\<close> and \<open>CallQueue::new\<close>; a capacity of zero panics.\<close>

definition call_queue_new :: "nat \<Rightarrow> ('k, 'c) call_queue option" where
  "call_queue_new capacity =
     (case mailbox_new capacity of
        None \<Rightarrow> None
      | Some m \<Rightarrow> Some \<lparr>cq_mailbox = m, cq_lanes = [], cq_pending = [], cq_preparing = [],
          cq_preparations = [], cq_deadlines = [], cq_workers = [], cq_running = [], cq_next_sequence = 1,
          cq_open = True, cq_leases = [], cq_arcs = 0, cq_tasks = 0, cq_sent = [], cq_effects = []\<rparr>)"

text \<open>A \<open>BTreeSet\<close> is its ascending list.\<close>

definition bt_insert :: "'a::linorder \<Rightarrow> 'a list \<Rightarrow> 'a list" where
  "bt_insert x xs = (if x \<in> set xs then xs else insort x xs)"

section \<open>Leases\<close>

text \<open>\<open>CallQueueHandle::admit\<close>: the generation is allocated before the slot is reserved.\<close>

definition admit ::
  "'k \<Rightarrow> 'c \<Rightarrow> ('k, 'c) call_queue \<Rightarrow> (admission_error + lane_generation) \<times> ('k, 'c) call_queue"
where
  "admit key terminal q =
     (let g = cq_arcs q; q1 = q\<lparr>cq_arcs := g + 1\<rparr> in
      case try_reserve (cq_mailbox q1) of
        (Inl e, m) \<Rightarrow> (Inl e, q1\<lparr>cq_mailbox := m\<rparr>)
      | (Inr _, m) \<Rightarrow>
          (Inr g, q1\<lparr>cq_mailbox := m,
             cq_leases := hm_insert g \<lparr>ls_key = key, ls_generation = g, ls_teardown = Some terminal\<rparr> (cq_leases q1)\<rparr>))"

definition handle_close :: "('k, 'c) call_queue \<Rightarrow> ('k, 'c) call_queue" where
  "handle_close q = q\<lparr>cq_mailbox := sender_close (cq_mailbox q)\<rparr>"

definition lease_try_send ::
  "instant \<Rightarrow> 'c \<Rightarrow> instant option \<Rightarrow> ('k, 'c) call_lease \<Rightarrow> ('k, 'c) call_queue
     \<Rightarrow> (admission_error + unit) \<times> ('k, 'c) call_queue"
where
  "lease_try_send now command deadline l q =
     (if ls_teardown l = None then (Inl Closed, q)
      else
        let v = \<lparr>qd_key = ls_key l, qd_generation = ls_generation l, qd_command = command, qd_terminal = False\<rparr>;
            (r, m) = try_send now v deadline (cq_mailbox q)
        in (r, q\<lparr>cq_mailbox := m, cq_sent := (case r of Inl _ \<Rightarrow> cq_sent q | Inr _ \<Rightarrow> cq_sent q @ [v])\<rparr>))"

text \<open>The reserved teardown is sent without a deadline, which cannot fail.\<close>

definition send_teardown ::
  "instant \<Rightarrow> 'c \<Rightarrow> ('k, 'c) call_lease \<Rightarrow> ('k, 'c) call_queue \<Rightarrow> ('k, 'c) call_queue"
where
  "send_teardown now command l q =
     (let v = \<lparr>qd_key = ls_key l, qd_generation = ls_generation l, qd_command = command, qd_terminal = True\<rparr>;
          (r, m) = reservation_send now v None (cq_mailbox q)
      in q\<lparr>cq_mailbox := m, cq_sent := (case r of Inl _ \<Rightarrow> cq_sent q | Inr _ \<Rightarrow> cq_sent q @ [v])\<rparr>)"

definition retire ::
  "instant \<Rightarrow> 'c \<Rightarrow> ('k, 'c) call_lease \<Rightarrow> ('k, 'c) call_queue \<Rightarrow> ('k, 'c) call_queue"
where
  "retire now command l q =
     (case ls_teardown l of
        None \<Rightarrow> q
      | Some _ \<Rightarrow>
          send_teardown now command l
            (q\<lparr>cq_leases := hm_insert (ls_generation l) (l\<lparr>ls_teardown := None\<rparr>) (cq_leases q)\<rparr>))"

text \<open>\<open>CallLease::drop\<close>: an unretired lease sends the teardown it was admitted with.\<close>

definition lease_drop ::
  "instant \<Rightarrow> ('k, 'c) call_lease \<Rightarrow> ('k, 'c) call_queue \<Rightarrow> ('k, 'c) call_queue"
where
  "lease_drop now l q =
     (let q1 = q\<lparr>cq_leases := hm_remove (ls_generation l) (cq_leases q)\<rparr> in
      case ls_teardown l of
        None \<Rightarrow> q1
      | Some command \<Rightarrow> send_teardown now command l q1)"

section \<open>The owner\<close>

definition set_lane :: "lane_generation \<Rightarrow> lane \<Rightarrow> ('k, 'c) call_queue \<Rightarrow> ('k, 'c) call_queue" where
  "set_lane g l q = q\<lparr>cq_lanes := hm_insert g l (cq_lanes q)\<rparr>"

text \<open>Dropping an expired request: it is counted and its permit is released.\<close>

definition discard_expired :: "('k, 'c) call_queue \<Rightarrow> ('k, 'c) call_queue" where
  "discard_expired q = q\<lparr>cq_mailbox := permit_drop (record_expiration (cq_mailbox q))\<rparr>"

text \<open>\<open>pending.remove\<close> and the removal of its deadline.\<close>

definition take_pending ::
  "request_id \<Rightarrow> ('k, 'c) admitted \<Rightarrow> ('k, 'c) call_queue \<Rightarrow> ('k, 'c) call_queue"
where
  "take_pending i r q =
     q\<lparr>cq_pending := hm_remove i (cq_pending q),
       cq_deadlines := (case snd r of
           None \<Rightarrow> cq_deadlines q
         | Some d \<Rightarrow> removeAll (d, i) (cq_deadlines q))\<rparr>"

text \<open>\<open>next_sequence.saturating_add(1)\<close>.\<close>

definition sequence_succ :: "u64 \<Rightarrow> u64" where
  "sequence_succ n = (case checked_succ n of None \<Rightarrow> n | Some n' \<Rightarrow> n')"

definition spawn_effect ::
  "lane_generation \<Rightarrow> ('k, 'c) queued \<Rightarrow> ('k, 'c) call_queue \<Rightarrow> ('k, 'c) call_queue"
where
  "spawn_effect g r q =
     (let task = cq_tasks q;
          effect = \<lparr>ef_key = qd_key r, ef_command = qd_command r, ef_sequence = cq_next_sequence q,
                    ef_retiring = g, ef_terminal = qd_terminal r\<rparr>
      in q\<lparr>cq_next_sequence := sequence_succ (cq_next_sequence q),
           cq_workers := cq_workers q @ [task], cq_tasks := task + 1,
           cq_running := hm_insert task \<lparr>rn_generation = g, rn_terminal = qd_terminal r\<rparr> (cq_running q),
           cq_effects := cq_effects q @ [effect]\<rparr>)"

text \<open>The loop of \<open>start\<close>, on the requests that wait in the lane.\<close>

fun start_loop ::
  "(request_id \<Rightarrow> instant) \<Rightarrow> lane_generation \<Rightarrow> lane \<Rightarrow> request_id list \<Rightarrow> ('k, 'c) call_queue \<Rightarrow> ('k, 'c) call_queue"
where
  "start_loop clock g lane [] q = set_lane g (lane\<lparr>ln_waiting := []\<rparr>) q"
| "start_loop clock g lane (i # ids) q =
     (if hm_contains (cq_preparing q) i then set_lane g (lane\<lparr>ln_waiting := i # ids\<rparr>) q
      else case hm_get (cq_pending q) i of
        None \<Rightarrow> start_loop clock g lane ids q
      | Some r \<Rightarrow>
          let q1 = take_pending i r q in
          if deadline_passed (clock i) (snd r) then start_loop clock g lane ids (discard_expired q1)
          else spawn_effect g (fst r) (set_lane g (lane\<lparr>ln_waiting := ids, ln_running := True\<rparr>) q1))"

definition start ::
  "(request_id \<Rightarrow> instant) \<Rightarrow> lane_generation \<Rightarrow> ('k, 'c) call_queue \<Rightarrow> ('k, 'c) call_queue option"
where
  "start clock g q =
     (case hm_get (cq_lanes q) g of
        None \<Rightarrow> None
      | Some lane \<Rightarrow> Some (if ln_running lane then q else start_loop clock g lane (ln_waiting lane) q))"

text \<open>\<open>lanes.entry(..).or_insert_with(..)\<close>.\<close>

definition lane_entry :: "lane_generation \<Rightarrow> ('k, 'c) call_queue \<Rightarrow> lane" where
  "lane_entry g q =
     (case hm_get (cq_lanes q) g of
        None \<Rightarrow> \<lparr>ln_waiting = [], ln_running = False, ln_retiring = False\<rparr>
      | Some lane \<Rightarrow> lane)"

text \<open>\<open>accept\<close>: the request enters its lane and a teardown starts its preparation.\<close>

definition enter_lane :: "('k, 'c) admitted \<Rightarrow> ('k, 'c) call_queue \<Rightarrow> ('k, 'c) call_queue" where
  "enter_lane r q =
     (let g = qd_generation (fst r); lane = lane_entry g q; i = cq_arcs q;
          q1 = set_lane g (lane\<lparr>ln_retiring := ln_retiring lane \<or> qd_terminal (fst r),
                                ln_waiting := ln_waiting lane @ [i]\<rparr>) (q\<lparr>cq_arcs := i + 1\<rparr>);
          q2 = (case snd r of None \<Rightarrow> q1 | Some d \<Rightarrow> q1\<lparr>cq_deadlines := bt_insert (d, i) (cq_deadlines q1)\<rparr>)
      in if qd_terminal (fst r)
         then q2\<lparr>cq_preparing := hm_insert i g (cq_preparing q2),
                 cq_preparations := hm_insert i (fst r) (cq_preparations q2)\<rparr>
         else q2\<lparr>cq_pending := hm_insert i r (cq_pending q2)\<rparr>)"

definition accept ::
  "(request_id \<Rightarrow> instant) \<Rightarrow> ('k, 'c) admitted \<Rightarrow> ('k, 'c) call_queue \<Rightarrow> ('k, 'c) call_queue option"
where
  "accept clock r q = start clock (qd_generation (fst r)) (enter_lane r q)"

fun expire_loop ::
  "instant \<Rightarrow> (instant \<times> request_id) list \<Rightarrow> ('k, 'c) call_queue \<Rightarrow> ('k, 'c) call_queue option"
where
  "expire_loop now [] q = Some (q\<lparr>cq_deadlines := []\<rparr>)"
| "expire_loop now ((d, i) # ds) q =
     (if now < d then Some (q\<lparr>cq_deadlines := (d, i) # ds\<rparr>)
      else case hm_get (cq_pending q) i of
        None \<Rightarrow> expire_loop now ds q
      | Some r \<Rightarrow>
          (case hm_get (cq_lanes q) (qd_generation (fst r)) of
             None \<Rightarrow> None
           | Some lane \<Rightarrow>
               expire_loop now ds
                 (discard_expired (set_lane (qd_generation (fst r))
                    (lane\<lparr>ln_waiting := filter (\<lambda>j. j \<noteq> i) (ln_waiting lane)\<rparr>)
                    (q\<lparr>cq_pending := hm_remove i (cq_pending q)\<rparr>)))))"

definition expire :: "instant \<Rightarrow> ('k, 'c) call_queue \<Rightarrow> ('k, 'c) call_queue option" where
  "expire now q = expire_loop now (cq_deadlines q) q"

text \<open>
  One turn of \<open>run\<close>. \<open>None\<close> is a failed \<open>expect\<close>. The turn is chosen by the
  runtime among those that are ready. The permit of a finished worker is released at
  the end of its turn; an answered preparation hands its permit to the pending request.
\<close>

datatype 'c queue_turn =
    Deadline instant
  | Completed task_id "request_id \<Rightarrow> instant"
  | Prepared request_id 'c "request_id \<Rightarrow> instant"
  | Request "request_id \<Rightarrow> instant"

definition release_permit :: "('k, 'c) call_queue \<Rightarrow> ('k, 'c) call_queue" where
  "release_permit q = q\<lparr>cq_mailbox := permit_drop (cq_mailbox q)\<rparr>"

definition completed_turn ::
  "(request_id \<Rightarrow> instant) \<Rightarrow> task_id \<Rightarrow> ('k, 'c) call_queue \<Rightarrow> ('k, 'c) call_queue option"
where
  "completed_turn clock task q =
     (case hm_get (cq_running q) task of
        None \<Rightarrow> None
      | Some rn \<Rightarrow>
          let q1 = q\<lparr>cq_workers := removeAll task (cq_workers q), cq_running := hm_remove task (cq_running q)\<rparr>
          in map_option release_permit
            (if rn_terminal rn then Some (q1\<lparr>cq_lanes := hm_remove (rn_generation rn) (cq_lanes q1)\<rparr>)
             else case hm_get (cq_lanes q1) (rn_generation rn) of
               None \<Rightarrow> None
             | Some lane \<Rightarrow> start clock (rn_generation rn) (set_lane (rn_generation rn) (lane\<lparr>ln_running := False\<rparr>) q1)))"

definition prepared_turn ::
  "(request_id \<Rightarrow> instant) \<Rightarrow> request_id \<Rightarrow> 'c \<Rightarrow> ('k, 'c) call_queue \<Rightarrow> ('k, 'c) call_queue option"
where
  "prepared_turn clock i command q =
     (case hm_get (cq_preparations q) i of
        None \<Rightarrow> None
      | Some v \<Rightarrow>
          let q1 = q\<lparr>cq_preparations := hm_remove i (cq_preparations q)\<rparr> in
          case hm_get (cq_preparing q1) i of
            None \<Rightarrow> None
          | Some g \<Rightarrow>
              start clock g
                (q1\<lparr>cq_preparing := hm_remove i (cq_preparing q1),
                    cq_pending := hm_insert i (v\<lparr>qd_command := command\<rparr>, None) (cq_pending q1)\<rparr>))"

definition request_turn ::
  "(request_id \<Rightarrow> instant) \<Rightarrow> ('k, 'c) call_queue \<Rightarrow> ('k, 'c) call_queue option"
where
  "request_turn clock q =
     (case mailbox_recv (cq_mailbox q) of
        (Message v d, m) \<Rightarrow> accept clock (v, d) (q\<lparr>cq_mailbox := m\<rparr>)
      | (Finished, m) \<Rightarrow> Some (q\<lparr>cq_mailbox := m, cq_open := False\<rparr>)
      | (Waiting, m) \<Rightarrow> Some (q\<lparr>cq_mailbox := m\<rparr>))"

fun run_turn :: "'c queue_turn \<Rightarrow> ('k, 'c) call_queue \<Rightarrow> ('k, 'c) call_queue option" where
  "run_turn (Deadline now) q = expire now q"
| "run_turn (Completed task clock) q = completed_turn clock task q"
| "run_turn (Prepared i command clock) q = prepared_turn clock i command q"
| "run_turn (Request clock) q = request_turn clock q"

fun turn_ready :: "('k, 'c) call_queue \<Rightarrow> 'c queue_turn \<Rightarrow> bool" where
  "turn_ready q (Deadline now) = (case cq_deadlines q of [] \<Rightarrow> False | (d, _) # _ \<Rightarrow> d \<le> now)"
| "turn_ready q (Completed task clock) = (task \<in> set (cq_workers q))"
| "turn_ready q (Prepared i command clock) = hm_contains (cq_preparations q) i"
| "turn_ready q (Request clock) = (cq_open q \<and> fst (mailbox_recv (cq_mailbox q)) \<noteq> Waiting)"

text \<open>The condition of the loop of \<open>run\<close>.\<close>

definition queue_active :: "('k, 'c) call_queue \<Rightarrow> bool" where
  "queue_active q \<longleftrightarrow> cq_open q \<or> cq_workers q \<noteq> [] \<or> cq_preparations q \<noteq> []"

section \<open>Histories\<close>

text \<open>
  Clients and the owner interleave. A client uses a lease only while it holds it.
\<close>

inductive cq_step :: "('k, 'c) call_queue \<Rightarrow> ('k, 'c) call_queue \<Rightarrow> bool" where
  admit: "cq_step q (snd (admit key terminal q))"
| close: "cq_step q (handle_close q)"
| send: "hm_get (cq_leases q) g = Some l \<Longrightarrow> cq_step q (snd (lease_try_send now command deadline l q))"
| retire: "hm_get (cq_leases q) g = Some l \<Longrightarrow> cq_step q (retire now command l q)"
| drop: "hm_get (cq_leases q) g = Some l \<Longrightarrow> cq_step q (lease_drop now l q)"
| turn: "queue_active q \<Longrightarrow> turn_ready q t \<Longrightarrow> run_turn t q = Some q' \<Longrightarrow> cq_step q q'"

inductive cq_reachable :: "nat \<Rightarrow> ('k, 'c) call_queue \<Rightarrow> bool" for capacity where
  init: "call_queue_new capacity = Some q \<Longrightarrow> cq_reachable capacity q"
| step: "cq_reachable capacity q \<Longrightarrow> cq_step q q' \<Longrightarrow> cq_reachable capacity q'"

section \<open>Invariant\<close>

text \<open>The request behind an identity, while it is pending or being prepared.\<close>

definition request_of :: "('k, 'c) call_queue \<Rightarrow> request_id \<Rightarrow> ('k, 'c) queued option" where
  "request_of q i =
     (case hm_get (cq_pending q) i of Some r \<Rightarrow> Some (fst r) | None \<Rightarrow> hm_get (cq_preparations q) i)"

definition waiting_of :: "('k, 'c) call_queue \<Rightarrow> lane_generation \<Rightarrow> request_id list" where
  "waiting_of q g = (case hm_get (cq_lanes q) g of None \<Rightarrow> [] | Some l \<Rightarrow> ln_waiting l)"

text \<open>
  What identifies a message and the effect it becomes: key, generation and command,
  except that the command of a teardown may be replaced while it is prepared.
\<close>

type_synonym ('k, 'c) msg_sig = "'k \<times> lane_generation \<times> 'c option"

definition queued_sig :: "('k, 'c) queued \<Rightarrow> ('k, 'c) msg_sig" where
  "queued_sig v = (qd_key v, qd_generation v, if qd_terminal v then None else Some (qd_command v))"

definition effect_sig :: "('k, 'c) call_effect \<Rightarrow> ('k, 'c) msg_sig" where
  "effect_sig e = (ef_key e, ef_retiring e, if ef_terminal e then None else Some (ef_command e))"

abbreviation sig_terminal :: "('k, 'c) msg_sig \<Rightarrow> bool" where
  "sig_terminal s \<equiv> snd (snd s) = None"

definition sigs_of :: "lane_generation \<Rightarrow> ('k, 'c) msg_sig list \<Rightarrow> ('k, 'c) msg_sig list" where
  "sigs_of g = filter (\<lambda>s. fst (snd s) = g)"

abbreviation sent_of :: "('k, 'c) call_queue \<Rightarrow> lane_generation \<Rightarrow> ('k, 'c) msg_sig list" where
  "sent_of q g \<equiv> sigs_of g (map queued_sig (cq_sent q))"

abbreviation started_of :: "('k, 'c) call_queue \<Rightarrow> lane_generation \<Rightarrow> ('k, 'c) msg_sig list" where
  "started_of q g \<equiv> sigs_of g (map effect_sig (cq_effects q))"

text \<open>What a lane still has to serve: its waiting requests, then those in the mailbox.\<close>

definition backlog :: "('k, 'c) call_queue \<Rightarrow> lane_generation \<Rightarrow> ('k, 'c) msg_sig list" where
  "backlog q g =
     map queued_sig (List.map_filter (request_of q) (waiting_of q g))
     @ sigs_of g (map (\<lambda>r. queued_sig (fst r)) (mb_queue (cq_mailbox q)))"

definition armed :: "('k, 'c) call_lease \<Rightarrow> bool" where
  "armed l \<longleftrightarrow> ls_teardown l \<noteq> None"

definition lease_armed :: "('k, 'c) call_queue \<Rightarrow> lane_generation \<Rightarrow> bool" where
  "lease_armed q g \<longleftrightarrow> (case hm_get (cq_leases q) g of None \<Rightarrow> False | Some l \<Rightarrow> armed l)"

definition runs_terminal :: "('k, 'c) call_queue \<Rightarrow> lane_generation \<Rightarrow> bool" where
  "runs_terminal q g \<longleftrightarrow> (\<exists>t rn. hm_get (cq_running q) t = Some rn \<and> rn_generation rn = g \<and> rn_terminal rn)"

definition ok_maps :: "('k, 'c) call_queue \<Rightarrow> bool" where
  "ok_maps q \<longleftrightarrow> hm_wf (cq_lanes q) \<and> hm_wf (cq_pending q) \<and> hm_wf (cq_preparing q)
     \<and> hm_wf (cq_preparations q) \<and> hm_wf (cq_running q) \<and> hm_wf (cq_leases q)"

definition ok_requests :: "('k, 'c) call_queue \<Rightarrow> bool" where
  "ok_requests q \<longleftrightarrow>
     (\<forall>i. hm_get (cq_preparing q) i = map_option qd_generation (hm_get (cq_preparations q) i))
     \<and> (\<forall>i v. hm_get (cq_preparations q) i = Some v \<longrightarrow> hm_get (cq_pending q) i = None \<and> qd_terminal v)
     \<and> (\<forall>i v d. hm_get (cq_pending q) i = Some (v, d) \<longrightarrow> qd_terminal v \<longrightarrow> d = None)
     \<and> (\<forall>i. request_of q i \<noteq> None \<longrightarrow> i < cq_arcs q)"

definition ok_waiting :: "('k, 'c) call_queue \<Rightarrow> bool" where
  "ok_waiting q \<longleftrightarrow>
     (\<forall>g i. i \<in> set (waiting_of q g) \<longleftrightarrow> map_option qd_generation (request_of q i) = Some g)
     \<and> (\<forall>g. distinct (waiting_of q g))"

definition ok_running :: "('k, 'c) call_queue \<Rightarrow> bool" where
  "ok_running q \<longleftrightarrow>
     (\<forall>g l. hm_get (cq_lanes q) g = Some l \<longrightarrow>
        ln_running l = (\<exists>t rn. hm_get (cq_running q) t = Some rn \<and> rn_generation rn = g))
     \<and> (\<forall>t rn. hm_get (cq_running q) t = Some rn \<longrightarrow>
          hm_contains (cq_lanes q) (rn_generation rn) \<and> t < cq_tasks q)
     \<and> (\<forall>t t' rn rn'. hm_get (cq_running q) t = Some rn \<longrightarrow> hm_get (cq_running q) t' = Some rn' \<longrightarrow>
          rn_generation rn = rn_generation rn' \<longrightarrow> t = t')
     \<and> (\<forall>t. t \<in> set (cq_workers q) \<longleftrightarrow> hm_contains (cq_running q) t)"

definition ok_mailbox :: "nat \<Rightarrow> ('k, 'c) call_queue \<Rightarrow> bool" where
  "ok_mailbox extra q \<longleftrightarrow>
     mailbox_inv (cq_mailbox q)
     \<and> mb_working (cq_mailbox q)
         = extra + length (cq_pending q) + length (cq_preparations q) + length (cq_running q)
     \<and> mb_reserved (cq_mailbox q) = length (filter (\<lambda>p. armed (snd p)) (cq_leases q))
     \<and> (\<forall>g l. hm_get (cq_leases q) g = Some l \<longrightarrow> ls_generation l = g \<and> g < cq_arcs q)
     \<and> (\<forall>v d. (v, d) \<in> set (mb_queue (cq_mailbox q)) \<longrightarrow> qd_terminal v \<longrightarrow> d = None)
     \<and> (\<not> cq_open q \<longrightarrow> mb_channel_closed (cq_mailbox q) \<and> mb_queue (cq_mailbox q) = []
          \<and> mb_reserved (cq_mailbox q) = 0)"

definition ok_life :: "('k, 'c) call_queue \<Rightarrow> lane_generation \<Rightarrow> bool" where
  "ok_life q g \<longleftrightarrow>
     subseq (started_of q g @ backlog q g) (sent_of q g)
     \<and> filter sig_terminal (started_of q g @ backlog q g) = filter sig_terminal (sent_of q g)
     \<and> (\<forall>s \<in> set (butlast (sent_of q g)). \<not> sig_terminal s)
     \<and> (lease_armed q g \<longrightarrow> (\<forall>s \<in> set (sent_of q g). \<not> sig_terminal s))
     \<and> (hm_contains (cq_leases q) g \<or> sent_of q g \<noteq> [] \<longrightarrow> \<not> lease_armed q g \<longrightarrow>
          sent_of q g \<noteq> [] \<and> sig_terminal (last (sent_of q g)))
     \<and> (hm_contains (cq_lanes q) g \<longrightarrow> sent_of q g \<noteq> [])
     \<and> (sent_of q g \<noteq> [] \<longrightarrow> g < cq_arcs q)
     \<and> (filter sig_terminal (started_of q g) \<noteq> [] \<longrightarrow> hm_contains (cq_lanes q) g \<longrightarrow> runs_terminal q g)
     \<and> (runs_terminal q g \<longrightarrow> filter sig_terminal (started_of q g) \<noteq> [])"

definition cq_ok :: "nat \<Rightarrow> ('k, 'c) call_queue \<Rightarrow> bool" where
  "cq_ok extra q \<longleftrightarrow> ok_maps q \<and> ok_requests q \<and> ok_waiting q \<and> ok_running q \<and> ok_mailbox extra q
     \<and> (\<forall>g. ok_life q g)"

text \<open>A lane that runs nothing has nothing to run: it is empty or waits for a preparation.\<close>

definition lane_settled :: "('k, 'c) call_queue \<Rightarrow> lane_generation \<Rightarrow> bool" where
  "lane_settled q g \<longleftrightarrow>
     (case hm_get (cq_lanes q) g of
        None \<Rightarrow> True
      | Some l \<Rightarrow> ln_running l \<or>
          (case ln_waiting l of [] \<Rightarrow> True | i # _ \<Rightarrow> hm_contains (cq_preparing q) i))"

text \<open>Only requests that may expire have a deadline.\<close>

definition ok_deadlines :: "('k, 'c) call_queue \<Rightarrow> bool" where
  "ok_deadlines q \<longleftrightarrow>
     (\<forall>(d, i) \<in> set (cq_deadlines q). i < cq_arcs q
        \<and> (case request_of q i of None \<Rightarrow> True | Some v \<Rightarrow> \<not> qd_terminal v))"

definition cq_inv :: "('k, 'c) call_queue \<Rightarrow> bool" where
  "cq_inv q \<longleftrightarrow> cq_ok 0 q \<and> (\<forall>g. lane_settled q g) \<and> ok_deadlines q"


lemmas cq_ok_defs = ok_maps_def ok_requests_def ok_waiting_def ok_running_def ok_mailbox_def

lemma sigs_of_simps [simp]:
  "sigs_of g [] = []" "sigs_of g (xs @ ys) = sigs_of g xs @ sigs_of g ys"
  "sigs_of g (s # xs) = (if fst (snd s) = g then s # sigs_of g xs else sigs_of g xs)"
  by (simp_all add: sigs_of_def)

lemma queued_sig_generation [simp]: "fst (snd (queued_sig v)) = qd_generation v"
  by (simp add: queued_sig_def)

lemma queued_sig_terminal [simp]:
  "snd (snd (queued_sig v)) = None \<longleftrightarrow> qd_terminal v" "(\<exists>c. snd (snd (queued_sig v)) = Some c) \<longleftrightarrow> \<not> qd_terminal v"
  by (simp_all add: queued_sig_def)

lemma effect_sig_generation [simp]: "fst (snd (effect_sig e)) = ef_retiring e"
  by (simp add: effect_sig_def)

lemma effect_sig_terminal [simp]:
  "snd (snd (effect_sig e)) = None \<longleftrightarrow> ef_terminal e" "(\<exists>c. snd (snd (effect_sig e)) = Some c) \<longleftrightarrow> \<not> ef_terminal e"
  by (simp_all add: effect_sig_def)

lemma subseq_butlast: "subseq xs ys \<Longrightarrow> subseq (butlast xs) (butlast ys)"
proof (induction rule: list_emb.induct)
  case (list_emb_Nil ys)
  then show ?case by simp
next
  case (list_emb_Cons xs ys y)
  then show ?case by (cases ys) (auto intro: subseq_order.order_trans)
next
  case (list_emb_Cons2 x y xs ys)
  then show ?case by (cases xs) (auto dest: list_emb_Nil2)
qed

text \<open>What comes before another element of a subsequence is not the last of the sequence.\<close>

lemma subseq_init:
  assumes "subseq (xs @ ys) zs" and "ys \<noteq> []"
  shows "set xs \<subseteq> set (butlast zs)"
proof -
  from subseq_butlast [OF assms(1)] assms(2) have "subseq (xs @ butlast ys) (butlast zs)"
    by (simp add: butlast_append)
  moreover have "subseq xs (xs @ butlast ys)" by (simp add: prefix_imp_subseq)
  ultimately have "subseq xs (butlast zs)" by (rule subseq_order.order_trans [rotated])
  then show ?thesis by (auto elim: list_emb_set)
qed

text \<open>Nothing of a generation follows its teardown.\<close>

lemma terminal_last:
  assumes "ok_life q g" and "filter sig_terminal (started_of q g) \<noteq> []"
  shows "backlog q g = []"
proof (rule ccontr)
  assume "backlog q g \<noteq> []"
  moreover have "subseq (started_of q g @ backlog q g) (sent_of q g)"
    and none: "\<forall>s \<in> set (butlast (sent_of q g)). \<not> sig_terminal s"
    using assms(1) by (simp_all add: ok_life_def)
  ultimately have "set (started_of q g) \<subseteq> set (butlast (sent_of q g))" by (intro subseq_init)
  with none have "\<forall>s \<in> set (started_of q g). \<not> sig_terminal s" by blast
  with assms(2) show False by (simp only: filter_empty_conv)
qed

lemma hm_filter_insert:
  "hm_wf m \<Longrightarrow> length (filter (\<lambda>p. P (snd p)) (hm_insert k v m))
      + (case hm_get m k of None \<Rightarrow> 0 | Some w \<Rightarrow> if P w then 1 else 0)
    = length (filter (\<lambda>p. P (snd p)) m) + (if P v then 1 else 0)"
  by (induction m) (auto simp: hm_insert_def hm_wf_def split: option.split)

lemma hm_filter_remove:
  "hm_wf m \<Longrightarrow> length (filter (\<lambda>p. P (snd p)) (hm_remove k m))
      + (case hm_get m k of None \<Rightarrow> 0 | Some w \<Rightarrow> if P w then 1 else 0)
    = length (filter (\<lambda>p. P (snd p)) m)"
proof (induction m)
  case (Cons p m)
  show ?case
  proof (cases "fst p = k")
    case True
    with Cons.prems have "hm_get m k = None" by (auto simp: hm_wf_def map_of_eq_None_iff)
    with True show ?thesis
      by (cases p) (simp add: hm_remove_def hm_remove_absent [unfolded hm_remove_def])
  next
    case False
    with Cons show ?thesis by (cases p) (auto simp: hm_remove_def hm_wf_def)
  qed
qed (simp add: hm_remove_def)

lemma hm_insert_twice: "hm_insert k v (hm_insert k w m) = hm_insert k v m"
  by (induction m) (auto simp: hm_insert_def)

lemma set_lane_twice: "set_lane g l (set_lane g l' q) = set_lane g l q"
  by (simp add: set_lane_def hm_insert_twice)


lemma ok_runningI:
  assumes "\<And>g l. hm_get (cq_lanes q) g = Some l \<Longrightarrow>
      ln_running l = (\<exists>t rn. hm_get (cq_running q) t = Some rn \<and> rn_generation rn = g)"
    and "\<And>t rn. hm_get (cq_running q) t = Some rn \<Longrightarrow> hm_contains (cq_lanes q) (rn_generation rn) \<and> t < cq_tasks q"
    and "\<And>t t' rn rn'. hm_get (cq_running q) t = Some rn \<Longrightarrow> hm_get (cq_running q) t' = Some rn' \<Longrightarrow>
      rn_generation rn = rn_generation rn' \<Longrightarrow> t = t'"
    and "\<And>t. t \<in> set (cq_workers q) \<longleftrightarrow> hm_contains (cq_running q) t"
  shows "ok_running q"
  unfolding ok_running_def using assms by blast

lemma ok_runningD:
  assumes "ok_running q"
  shows "hm_get (cq_lanes q) g = Some l \<Longrightarrow>
      ln_running l = (\<exists>t rn. hm_get (cq_running q) t = Some rn \<and> rn_generation rn = g)"
    and "hm_get (cq_running q) t = Some rn \<Longrightarrow> hm_contains (cq_lanes q) (rn_generation rn) \<and> t < cq_tasks q"
    and "hm_get (cq_running q) t = Some rn \<Longrightarrow> hm_get (cq_running q) t' = Some rn' \<Longrightarrow>
      rn_generation rn = rn_generation rn' \<Longrightarrow> t = t'"
    and "t \<in> set (cq_workers q) \<longleftrightarrow> hm_contains (cq_running q) t"
  using assms unfolding ok_running_def by blast+

lemma ok_mailboxD:
  assumes "ok_mailbox k q"
  shows "mailbox_inv (cq_mailbox q)"
    and "mb_working (cq_mailbox q) = k + length (cq_pending q) + length (cq_preparations q) + length (cq_running q)"
    and "mb_reserved (cq_mailbox q) = length (filter (\<lambda>p. armed (snd p)) (cq_leases q))"
    and "hm_get (cq_leases q) g = Some l \<Longrightarrow> ls_generation l = g \<and> g < cq_arcs q"
    and "(v, d) \<in> set (mb_queue (cq_mailbox q)) \<Longrightarrow> qd_terminal v \<Longrightarrow> d = None"
    and "\<not> cq_open q \<Longrightarrow> mb_channel_closed (cq_mailbox q) \<and> mb_queue (cq_mailbox q) = []
      \<and> mb_reserved (cq_mailbox q) = 0"
  using assms unfolding ok_mailbox_def by blast+

text \<open>The owner neither sends nor touches a lease.\<close>

lemma ok_mailbox_owner:
  assumes "ok_mailbox k q" and "cq_leases q' = cq_leases q" and "cq_arcs q \<le> cq_arcs q'"
    and "mb_reserved (cq_mailbox q') = mb_reserved (cq_mailbox q)"
    and "set (mb_queue (cq_mailbox q')) \<subseteq> set (mb_queue (cq_mailbox q))"
    and "\<not> cq_open q' \<Longrightarrow> \<not> cq_open q \<and> mb_channel_closed (cq_mailbox q') = mb_channel_closed (cq_mailbox q)"
    and "mailbox_inv (cq_mailbox q')"
    and "mb_working (cq_mailbox q') = k' + length (cq_pending q') + length (cq_preparations q') + length (cq_running q')"
  shows "ok_mailbox k' q'"
  unfolding ok_mailbox_def
proof (intro conjI allI impI)
  show "mb_reserved (cq_mailbox q') = length (filter (\<lambda>p. armed (snd p)) (cq_leases q'))"
    using ok_mailboxD(3) [OF assms(1)] by (simp add: assms)
  show "ls_generation l = g" "g < cq_arcs q'" if "hm_get (cq_leases q') g = Some l" for g l
    using ok_mailboxD(4) [OF assms(1), of g l] that assms(2,3) by auto
  show "d = None" if "(v, d) \<in> set (mb_queue (cq_mailbox q'))" "qd_terminal v" for v d
    using ok_mailboxD(5) [OF assms(1), of v d] that assms(5) by blast
  show "mb_channel_closed (cq_mailbox q')" "mb_queue (cq_mailbox q') = []" "mb_reserved (cq_mailbox q') = 0"
    if "\<not> cq_open q'"
    using ok_mailboxD(6) [OF assms(1)] assms(4,5,6) that by auto
qed (use assms in auto)

subsection \<open>Clients\<close>

text \<open>The mailbox operations of the clients, as the invariant sees them.\<close>

lemma try_reserve_effect:
  assumes "try_reserve m = (r, m')"
  shows "mb_queue m' = mb_queue m" "mb_working m' = mb_working m"
    "mb_reserved m' = (case r of Inl _ \<Rightarrow> mb_reserved m | Inr _ \<Rightarrow> mb_reserved m + 1)"
    "mb_channel_closed m' = mb_channel_closed m" "mb_slots_closed m' = mb_slots_closed m"
    "mb_slots_closed m \<Longrightarrow> r = Inl Closed"
  using assms by (auto simp: try_reserve_def acquire_slot_def acquire_channel_def release_slot_def failure_def
      count_outstanding_def Let_def split: if_splits)

lemma try_send_effect:
  assumes "try_send now v d m = (r, m')"
  shows "mb_queue m' = mb_queue m @ (case r of Inl _ \<Rightarrow> [] | Inr _ \<Rightarrow> [(v, d)])"
    "mb_working m' = mb_working m" "mb_reserved m' = mb_reserved m"
    "mb_channel_closed m' = mb_channel_closed m" "mb_slots_closed m' = mb_slots_closed m"
    "mb_slots_closed m \<Longrightarrow> r = Inl Closed"
  using assms by (auto simp: try_send_def enqueue_def acquire_slot_def acquire_channel_def release_slot_def
      drop_permit_def failure_def count_outstanding_def Let_def split: if_splits)

lemma reservation_send_effect:
  assumes "reservation_send now v None m = (r, m')"
  shows "r = Inr ()" "mb_queue m' = mb_queue m @ [(v, None)]" "mb_working m' = mb_working m"
    "mb_reserved m' = mb_reserved m - 1" "mb_channel_closed m' = mb_channel_closed m"
  using assms by (auto simp: reservation_send_def deadline_passed_def Let_def)

text \<open>An operation that leaves the owner's maps alone keeps what they say of each other.\<close>

lemma ok_owner_frame:
  assumes "cq_lanes q' = cq_lanes q" "cq_pending q' = cq_pending q" "cq_preparing q' = cq_preparing q"
    "cq_preparations q' = cq_preparations q" "cq_running q' = cq_running q" "cq_workers q' = cq_workers q"
    "cq_tasks q' = cq_tasks q" "cq_deadlines q' = cq_deadlines q" "cq_arcs q \<le> cq_arcs q'"
  shows "ok_requests q \<Longrightarrow> ok_requests q'" "ok_waiting q \<Longrightarrow> ok_waiting q'" "ok_running q \<Longrightarrow> ok_running q'"
    "lane_settled q g \<Longrightarrow> lane_settled q' g" "runs_terminal q' g = runs_terminal q g"
    "List.map_filter (request_of q') (waiting_of q' g) = List.map_filter (request_of q) (waiting_of q g)"
    "ok_deadlines q \<Longrightarrow> ok_deadlines q'"
proof -
  have r: "request_of q' = request_of q" unfolding request_of_def assms by simp
  have w: "waiting_of q' = waiting_of q" unfolding waiting_of_def assms by simp
  show "ok_requests q \<Longrightarrow> ok_requests q'"
    unfolding ok_requests_def r using assms by (metis order_less_le_trans)
  show "ok_waiting q \<Longrightarrow> ok_waiting q'" by (simp add: ok_waiting_def r w)
  show "ok_running q \<Longrightarrow> ok_running q'" by (simp add: ok_running_def assms)
  show "lane_settled q g \<Longrightarrow> lane_settled q' g" unfolding lane_settled_def assms .
  show "runs_terminal q' g = runs_terminal q g" by (simp add: runs_terminal_def assms)
  show "List.map_filter (request_of q') (waiting_of q' g) = List.map_filter (request_of q) (waiting_of q g)"
    by (simp add: r w)
  show "ok_deadlines q \<Longrightarrow> ok_deadlines q'"
    unfolding ok_deadlines_def r using assms(8,9) by fastforce
qed

lemma cq_inv_new: "call_queue_new capacity = Some q \<Longrightarrow> cq_inv q"
  by (auto simp: call_queue_new_def cq_inv_def cq_ok_def cq_ok_defs ok_deadlines_def ok_life_def lane_settled_def request_of_def
      waiting_of_def backlog_def lease_armed_def runs_terminal_def map_filter_simps mailbox_new_def mailbox_inv_def
      split: option.splits if_splits)

lemma ok_life_unused: "cq_ok k q \<Longrightarrow> cq_arcs q \<le> g \<Longrightarrow> sent_of q g = [] \<and> hm_get (cq_leases q) g = None"
proof
  assume ok: "cq_ok k q" and le: "cq_arcs q \<le> g"
  then show "sent_of q g = []" unfolding cq_ok_def ok_life_def by (meson not_le)
  from ok le show "hm_get (cq_leases q) g = None"
    unfolding cq_ok_def ok_mailbox_def by (metis not_le option.exhaust)
qed

lemma cq_inv_admit:
  assumes "cq_inv q"
  shows "cq_inv (snd (admit key terminal q))"
proof -
  let ?g = "cq_arcs q" and ?q' = "snd (admit key terminal q)"
  obtain r m where t: "try_reserve (cq_mailbox q) = (r, m)" by fastforce
  note e = try_reserve_effect [OF t]
  have ok: "cq_ok 0 q" using assms by (simp add: cq_inv_def)
  note unused = ok_life_unused [OF ok order_refl]
  have fields: "cq_lanes ?q' = cq_lanes q" "cq_pending ?q' = cq_pending q" "cq_preparing ?q' = cq_preparing q"
    "cq_preparations ?q' = cq_preparations q" "cq_running ?q' = cq_running q" "cq_workers ?q' = cq_workers q"
    "cq_tasks ?q' = cq_tasks q" "cq_deadlines ?q' = cq_deadlines q" "cq_arcs ?q' = Suc ?g" "cq_mailbox ?q' = m" "cq_sent ?q' = cq_sent q"
    "cq_effects ?q' = cq_effects q" "cq_open ?q' = cq_open q"
    "cq_leases ?q' = (case r of Inl _ \<Rightarrow> cq_leases q
       | Inr _ \<Rightarrow> hm_insert ?g \<lparr>ls_key = key, ls_generation = ?g, ls_teardown = Some terminal\<rparr> (cq_leases q))"
    using t by (auto simp: admit_def Let_def split: sum.split)
  note frame = ok_owner_frame [OF fields(1-8), unfolded fields(9), OF le_SucI [OF order_refl]]
  have "ok_maps ?q'" using ok unfolding cq_ok_def ok_maps_def fields by (auto split: sum.split)
  moreover have "ok_mailbox 0 ?q'"
  proof -
    have "mailbox_inv m" using mailbox_inv_reserve [of "cq_mailbox q"] ok t
      by (simp add: cq_ok_def ok_mailbox_def)
    moreover have "mb_reserved m = length (filter (\<lambda>p. armed (snd p)) (cq_leases ?q'))"
      using hm_filter_insert [of "cq_leases q" armed ?g] ok unused
      unfolding cq_ok_def ok_mailbox_def ok_maps_def fields e(3) by (auto simp: armed_def split: sum.split)
    moreover have "r = Inl Closed" if "\<not> cq_open q"
      using that ok e(6) unfolding cq_ok_def ok_mailbox_def mailbox_inv_def by blast
    ultimately show ?thesis
      using ok unfolding cq_ok_def ok_mailbox_def fields e(1,2,4)
      by (auto split: sum.splits if_splits simp: e(3) less_Suc_eq)
  qed
  moreover have "ok_life ?q' g" for g
  proof -
    have "backlog ?q' g = backlog q g" by (simp add: backlog_def frame(6) fields e)
    moreover have "lease_armed ?q' g = (lease_armed q g \<or> g = ?g \<and> r = Inr ())"
      using unused by (auto simp: lease_armed_def fields armed_def split: sum.split)
    moreover have "hm_contains (cq_leases ?q') g = (hm_contains (cq_leases q) g \<or> g = ?g \<and> r = Inr ())"
      by (auto simp: fields split: sum.split)
    moreover have "ok_life q g" using ok by (simp add: cq_ok_def)
    ultimately show ?thesis using unused
      unfolding ok_life_def fields frame(5) by (auto simp: less_Suc_eq)
  qed
  ultimately show ?thesis using assms frame unfolding cq_inv_def cq_ok_def by blast
qed


text \<open>A message that an armed lease puts into the mailbox joins the end of its lane's backlog.\<close>

lemma ok_life_sent:
  assumes life: "ok_life q g" and armed: "qd_generation v = g \<Longrightarrow> lease_armed q g"
    and armed': "lease_armed q' g \<longleftrightarrow> lease_armed q g \<and> (qd_generation v = g \<longrightarrow> \<not> qd_terminal v)"
    and sent: "cq_sent q' = cq_sent q @ [v]" and effects: "cq_effects q' = cq_effects q"
    and backlog: "backlog q' g = backlog q g @ sigs_of g [queued_sig v]"
    and frame: "cq_lanes q' = cq_lanes q" "runs_terminal q' g = runs_terminal q g" "cq_arcs q' = cq_arcs q"
    and leases: "hm_contains (cq_leases q') g \<Longrightarrow> hm_contains (cq_leases q) g"
    and used: "hm_contains (cq_leases q) g \<Longrightarrow> g < cq_arcs q"
  shows "ok_life q' g"
proof (cases "qd_generation v = g")
  case True
  have "lease_armed q g" by (rule armed [OF True])
  then have "g < cq_arcs q" by (intro used) (auto simp: lease_armed_def hm_contains_def split: option.splits)
  moreover have "\<forall>s \<in> set (sent_of q g). \<not> sig_terminal s" and "hm_contains (cq_leases q) g"
    using life \<open>lease_armed q g\<close>
    by (simp add: ok_life_def, auto simp: lease_armed_def hm_contains_def split: option.splits)
  moreover have "subseq ((started_of q g @ backlog q g) @ [queued_sig v]) (sent_of q g @ [queued_sig v])"
    using life unfolding ok_life_def by (intro list_emb_append_mono) auto
  ultimately show ?thesis
    using life \<open>lease_armed q g\<close> True armed'
    unfolding ok_life_def sent effects backlog frame by simp
next
  case False
  with life armed' leases show ?thesis
    unfolding ok_life_def sent effects backlog frame by auto
qed

lemma cq_inv_try_send:
  assumes inv: "cq_inv q" and lease: "hm_get (cq_leases q) g = Some l"
  shows "cq_inv (snd (lease_try_send now command deadline l q))"
proof (cases "ls_teardown l")
  case None
  with inv show ?thesis by (simp add: lease_try_send_def)
next
  case (Some c)
  define v where "v = \<lparr>qd_key = ls_key l, qd_generation = ls_generation l, qd_command = command, qd_terminal = False\<rparr>"
  define q' where "q' = snd (lease_try_send now command deadline l q)"
  obtain r m where t: "try_send now v deadline (cq_mailbox q) = (r, m)" by fastforce
  note e = try_send_effect [OF t]
  have q': "q' = q\<lparr>cq_mailbox := m, cq_sent := cq_sent q @ (case r of Inl _ \<Rightarrow> [] | Inr _ \<Rightarrow> [v])\<rparr>"
    using t Some by (simp add: q'_def lease_try_send_def Let_def v_def split: sum.split)
  then have mb: "cq_mailbox q' = m" by simp
  note frame = ok_owner_frame [of q' q, unfolded q', simplified, folded q']
  have ok: "cq_ok 0 q" using inv by (simp add: cq_inv_def)
  have gen: "qd_generation v = g" using ok lease by (simp add: v_def cq_ok_def ok_mailbox_def)
  have "ok_mailbox 0 q'"
  proof -
    have "mailbox_inv m" using mailbox_inv_try_send [of "cq_mailbox q" now v deadline] ok t
      by (simp add: cq_ok_def ok_mailbox_def)
    moreover have "r = Inl Closed" if "\<not> cq_open q"
      using that ok e(6) unfolding cq_ok_def ok_mailbox_def mailbox_inv_def by blast
    moreover have "\<not> qd_terminal v" by (simp add: v_def)
    ultimately show ?thesis
      using ok unfolding cq_ok_def ok_mailbox_def q' by (auto split: sum.splits simp: e)
  qed
  moreover have "ok_life q' h" for h
  proof (cases r)
    case (Inl a)
    have "backlog q' h = backlog q h" using Inl by (simp add: backlog_def frame e mb)
    with ok Inl frame(5) show ?thesis by (simp add: cq_ok_def ok_life_def q' lease_armed_def)
  next
    case (Inr a)
    show ?thesis
    proof (rule ok_life_sent [of q h v])
      show "ok_life q h" using ok by (simp add: cq_ok_def)
      show "backlog q' h = backlog q h @ sigs_of h [queued_sig v]" using Inr by (simp add: backlog_def frame e mb)
      show "qd_generation v = h \<Longrightarrow> lease_armed q h"
        using lease Some gen by (simp add: lease_armed_def armed_def)
      show "hm_contains (cq_leases q) h \<Longrightarrow> h < cq_arcs q"
        using ok by (auto simp: cq_ok_def ok_mailbox_def hm_contains_def)
      show "lease_armed q' h = (lease_armed q h \<and> (qd_generation v = h \<longrightarrow> \<not> qd_terminal v))"
        by (simp add: q' lease_armed_def v_def)
      show "runs_terminal q' h = runs_terminal q h" by (rule frame(5))
    qed (simp_all add: q' Inr)
  qed
  moreover have "ok_maps q'" using ok by (simp add: cq_ok_def ok_maps_def q')
  ultimately show ?thesis using inv frame unfolding q'_def [symmetric] cq_inv_def cq_ok_def by blast
qed

text \<open>Retiring and dropping an armed lease send its teardown.\<close>

lemma cq_inv_teardown:
  assumes inv: "cq_inv q" and lease: "hm_get (cq_leases q) g = Some l" and Some: "ls_teardown l = Some c"
    and wf: "hm_wf ls" and other: "\<And>h. h \<noteq> g \<Longrightarrow> hm_get ls h = hm_get (cq_leases q) h"
    and mine: "hm_get ls g = None \<or> hm_get ls g = Some (l\<lparr>ls_teardown := None\<rparr>)"
    and count: "Suc (length (filter (\<lambda>p. armed (snd p)) ls)) = length (filter (\<lambda>p. armed (snd p)) (cq_leases q))"
  shows "cq_inv (send_teardown now command l (q\<lparr>cq_leases := ls\<rparr>))"
proof -
  define v where "v = \<lparr>qd_key = ls_key l, qd_generation = ls_generation l, qd_command = command, qd_terminal = True\<rparr>"
  define q' where "q' = send_teardown now command l (q\<lparr>cq_leases := ls\<rparr>)"
  obtain r m where t: "reservation_send now v None (cq_mailbox q) = (r, m)" by fastforce
  note e = reservation_send_effect [OF t]
  have q': "q' = q\<lparr>cq_leases := ls, cq_mailbox := m, cq_sent := cq_sent q @ [v]\<rparr>"
    using t e(1) by (simp add: q'_def send_teardown_def Let_def v_def)
  then have mb: "cq_mailbox q' = m" by simp
  note frame = ok_owner_frame [of q' q, unfolded q', simplified, folded q']
  have ok: "cq_ok 0 q" using inv by (simp add: cq_inv_def)
  have gen: "qd_generation v = g" using ok lease by (simp add: v_def cq_ok_def ok_mailbox_def)
  have used: "ls_generation k = h \<and> h < cq_arcs q" if "hm_get ls h = Some k" for h k
    using that ok lease other [of h] mine
    unfolding cq_ok_def ok_mailbox_def by (cases "h = g") auto
  have "ok_mailbox 0 q'"
  proof -
    have nz: "mb_reserved (cq_mailbox q) = Suc (length (filter (\<lambda>p. armed (snd p)) ls))"
      using ok count by (simp add: cq_ok_def ok_mailbox_def)
    then have "mailbox_inv m" using mailbox_inv_reservation_send [of "cq_mailbox q" now v None] ok t
      by (simp add: cq_ok_def ok_mailbox_def)
    moreover have "(\<forall>w d. (w, d) \<in> set (mb_queue (cq_mailbox q)) \<longrightarrow> qd_terminal w \<longrightarrow> d = None)"
      and "mb_working (cq_mailbox q) = length (cq_pending q) + length (cq_preparations q) + length (cq_running q)"
      and "cq_open q" using ok nz by (simp_all add: cq_ok_def ok_mailbox_def)
    ultimately show ?thesis using used nz unfolding ok_mailbox_def q' by (simp add: e)
  qed
  moreover have "ok_life q' h" for h
  proof (rule ok_life_sent [of q h v])
    show "ok_life q h" using ok by (simp add: cq_ok_def)
    show "backlog q' h = backlog q h @ sigs_of h [queued_sig v]" by (simp add: backlog_def frame e mb)
    show "qd_generation v = h \<Longrightarrow> lease_armed q h" using gen lease Some by (simp add: lease_armed_def armed_def)
    show "lease_armed q' h = (lease_armed q h \<and> (qd_generation v = h \<longrightarrow> \<not> qd_terminal v))"
      using gen mine other [of h] by (cases "h = g") (auto simp: lease_armed_def q' armed_def v_def)
    show "hm_contains (cq_leases q') h \<Longrightarrow> hm_contains (cq_leases q) h"
      using lease other [of h] by (cases "h = g") (auto simp: hm_contains_def q')
    show "hm_contains (cq_leases q) h \<Longrightarrow> h < cq_arcs q"
      using ok by (auto simp: cq_ok_def ok_mailbox_def hm_contains_def)
  qed (simp_all add: q' frame(5) [unfolded q'])
  moreover have "ok_maps q'" using ok wf by (simp add: cq_ok_def ok_maps_def q')
  ultimately show ?thesis using inv frame unfolding q'_def [symmetric] cq_inv_def cq_ok_def by blast
qed


lemma cq_inv_retire:
  assumes "cq_inv q" and "hm_get (cq_leases q) g = Some l"
  shows "cq_inv (retire now command l q)"
proof (cases "ls_teardown l")
  case None
  with assms show ?thesis by (simp add: retire_def)
next
  case (Some c)
  have gen: "ls_generation l = g" and wf: "hm_wf (cq_leases q)"
    using assms by (auto simp: cq_inv_def cq_ok_def ok_mailbox_def ok_maps_def)
  have "Suc (length (filter (\<lambda>p. armed (snd p)) (hm_insert g (l\<lparr>ls_teardown := None\<rparr>) (cq_leases q))))
      = length (filter (\<lambda>p. armed (snd p)) (cq_leases q))"
    using hm_filter_insert [OF wf, of armed g "l\<lparr>ls_teardown := None\<rparr>"] assms(2) Some by (simp add: armed_def)
  with cq_inv_teardown [OF assms Some, of "hm_insert g (l\<lparr>ls_teardown := None\<rparr>) (cq_leases q)"] wf
  show ?thesis by (simp add: retire_def Some gen)
qed

lemma cq_inv_drop:
  assumes "cq_inv q" and "hm_get (cq_leases q) g = Some l"
  shows "cq_inv (lease_drop now l q)"
proof -
  have gen: "ls_generation l = g" and wf: "hm_wf (cq_leases q)" and ok: "cq_ok 0 q"
    using assms by (auto simp: cq_inv_def cq_ok_def ok_mailbox_def ok_maps_def)
  note count = hm_filter_remove [OF wf, of armed g]
  show ?thesis
  proof (cases "ls_teardown l")
    case None
    define q' where "q' = q\<lparr>cq_leases := hm_remove g (cq_leases q)\<rparr>"
    note frame = ok_owner_frame [of q' q, unfolded q'_def, simplified, folded q'_def]
    have "ok_life q' h" for h
    proof -
      have "backlog q' h = backlog q h" by (simp add: backlog_def frame) (simp add: q'_def)
      moreover have "lease_armed q' h = lease_armed q h"
        using assms(2) None by (simp add: q'_def lease_armed_def armed_def)
      moreover have "hm_contains (cq_leases q') h \<Longrightarrow> hm_contains (cq_leases q) h" by (simp add: q'_def)
      moreover have "ok_life q h" using ok by (simp add: cq_ok_def)
      ultimately show ?thesis unfolding ok_life_def frame(5) by (auto simp: q'_def)
    qed
    moreover have "ok_mailbox 0 q'"
      using ok count assms(2) None unfolding cq_ok_def ok_mailbox_def q'_def
      by (simp add: armed_def) (metis length_0_conv)
    moreover have "ok_maps q'" using ok by (simp add: cq_ok_def ok_maps_def q'_def)
    moreover have "lease_drop now l q = q'" by (simp add: lease_drop_def None gen q'_def)
    ultimately show ?thesis using assms(1) frame unfolding cq_inv_def cq_ok_def by metis
  next
    case (Some c)
    have "Suc (length (filter (\<lambda>p. armed (snd p)) (hm_remove g (cq_leases q))))
        = length (filter (\<lambda>p. armed (snd p)) (cq_leases q))"
      using count assms(2) Some by (simp add: armed_def)
    with cq_inv_teardown [OF assms Some, of "hm_remove g (cq_leases q)"] wf
    show ?thesis by (simp add: lease_drop_def Some gen)
  qed
qed

lemma cq_inv_close: "cq_inv q \<Longrightarrow> cq_inv (handle_close q)"
proof -
  assume inv: "cq_inv q"
  define q' where "q' = handle_close q"
  note frame = ok_owner_frame [of q' q, unfolded q'_def handle_close_def, simplified, folded handle_close_def q'_def]
  have "backlog q' h = backlog q h" for h
    by (simp add: backlog_def frame) (simp add: q'_def handle_close_def sender_close_def)
  then have "ok_life q' h" for h
    using inv frame(5) unfolding cq_inv_def cq_ok_def ok_life_def by (simp add: q'_def handle_close_def lease_armed_def)
  moreover have "ok_maps q'" using inv by (simp add: cq_inv_def cq_ok_def ok_maps_def q'_def handle_close_def)
  moreover have "ok_mailbox 0 q'"
    using inv unfolding cq_inv_def cq_ok_def ok_mailbox_def q'_def handle_close_def sender_close_def mailbox_inv_def
    by simp (metis length_0_conv)
  ultimately show ?thesis using inv frame unfolding q'_def [symmetric] cq_inv_def cq_ok_def by blast
qed


subsection \<open>The owner\<close>

text \<open>
  The loop of \<open>start\<close> takes requests out of its lane before it writes the lane back. The
  invariant is stated for the state in which the lane holds what is left.
\<close>

lemma waiting_of_set_lane [simp]:
  "waiting_of (set_lane g l q) h = (if h = g then ln_waiting l else waiting_of q h)"
  by (simp add: waiting_of_def set_lane_def)

lemma request_of_set_lane [simp]: "request_of (set_lane g l q) = request_of q"
  by (simp add: request_of_def set_lane_def fun_eq_iff split: option.split)

lemma set_lane_fields [simp]:
  "cq_mailbox (set_lane g l q) = cq_mailbox q" "cq_pending (set_lane g l q) = cq_pending q"
  "cq_preparing (set_lane g l q) = cq_preparing q" "cq_preparations (set_lane g l q) = cq_preparations q"
  "cq_workers (set_lane g l q) = cq_workers q" "cq_running (set_lane g l q) = cq_running q"
  "cq_open (set_lane g l q) = cq_open q" "cq_leases (set_lane g l q) = cq_leases q"
  "cq_arcs (set_lane g l q) = cq_arcs q" "cq_tasks (set_lane g l q) = cq_tasks q"
  "cq_sent (set_lane g l q) = cq_sent q" "cq_effects (set_lane g l q) = cq_effects q"
  "cq_lanes (set_lane g l q) = hm_insert g l (cq_lanes q)" "cq_deadlines (set_lane g l q) = cq_deadlines q"
  "cq_next_sequence (set_lane g l q) = cq_next_sequence q"
  by (simp_all add: set_lane_def)

lemma runs_terminal_set_lane [simp]: "runs_terminal (set_lane g l q) h = runs_terminal q h"
  by (simp add: runs_terminal_def)

lemma permit_drop_effect:
  "mb_queue (permit_drop m) = mb_queue m" "mb_working (permit_drop m) = mb_working m - 1"
  "mb_reserved (permit_drop m) = mb_reserved m" "mb_channel_closed (permit_drop m) = mb_channel_closed m"
  "mailbox_inv m \<Longrightarrow> mb_working m \<noteq> 0 \<Longrightarrow> mailbox_inv (permit_drop m)"
  by (auto simp: permit_drop_def drop_permit_def release_slot_def mailbox_inv_def)

lemma record_expiration_effect:
  "mb_queue (record_expiration m) = mb_queue m" "mb_working (record_expiration m) = mb_working m"
  "mb_reserved (record_expiration m) = mb_reserved m"
  "mb_channel_closed (record_expiration m) = mb_channel_closed m"
  "mailbox_inv (record_expiration m) = mailbox_inv m"
  by (auto simp: record_expiration_def mailbox_inv_def)

text \<open>Taking a pending request out of its lane.\<close>

lemma request_of_take:
  "request_of (q\<lparr>cq_pending := hm_remove i (cq_pending q)\<rparr>) j =
     (if j = i then hm_get (cq_preparations q) i else request_of q j)"
  by (simp add: request_of_def split: option.split)

lemma ok_requests_take:
  assumes "ok_requests q" and "hm_get (cq_pending q) i = Some r"
  shows "ok_requests (q\<lparr>cq_pending := hm_remove i (cq_pending q)\<rparr>)"
    and "request_of (q\<lparr>cq_pending := hm_remove i (cq_pending q)\<rparr>) j = (if j = i then None else request_of q j)"
proof -
  have none: "hm_get (cq_preparations q) i = None"
    using assms unfolding ok_requests_def by (metis option.distinct(1) option.exhaust)
  then show "request_of (q\<lparr>cq_pending := hm_remove i (cq_pending q)\<rparr>) j = (if j = i then None else request_of q j)"
    by (simp add: request_of_take)
  show "ok_requests (q\<lparr>cq_pending := hm_remove i (cq_pending q)\<rparr>)"
    unfolding ok_requests_def
  proof (intro conjI allI impI)
    fix j
    let ?q = "q\<lparr>cq_pending := hm_remove i (cq_pending q)\<rparr>"
    show "hm_get (cq_preparing ?q) j = map_option qd_generation (hm_get (cq_preparations ?q) j)"
      using assms(1) by (simp add: ok_requests_def)
    show "j < cq_arcs ?q" if "request_of ?q j \<noteq> None"
      using that assms(1) none by (auto simp: request_of_take ok_requests_def split: if_splits)
    show "d = None" if "hm_get (cq_pending ?q) j = Some (v, d)" "qd_terminal v" for v d
      using that assms(1) by (auto simp: ok_requests_def split: if_splits)
    show "hm_get (cq_pending ?q) j = None" "qd_terminal v" if "hm_get (cq_preparations ?q) j = Some v" for v
      using that assms(1) by (auto simp: ok_requests_def)
  qed
qed


lemma map_filter_without:
  "(\<And>j. f' j = (if j = i then None else f j)) \<Longrightarrow>
     List.map_filter f' js = List.map_filter f (filter (\<lambda>j. j \<noteq> i) js)"
  by (induction js) (auto simp: map_filter_simps split: option.split)

lemma subseq_map_filter: "subseq (List.map_filter f (filter P js)) (List.map_filter f js)"
  by (induction js) (auto simp: map_filter_simps split: option.split)

lemma filter_map_filter_without:
  "f i = Some v \<Longrightarrow> \<not> T (s v) \<Longrightarrow>
     filter T (map s (List.map_filter f (filter (\<lambda>j. j \<noteq> i) js))) = filter T (map s (List.map_filter f js))"
  by (induction js) (auto simp: map_filter_simps split: option.split)

lemma ok_waiting_take:
  assumes "ok_waiting q" and req: "ok_requests q" and lane: "hm_get (cq_lanes q) g = Some l"
    and pend: "hm_get (cq_pending q) i = Some r" and gen: "qd_generation (fst r) = g"
    and ws: "set (ln_waiting l') = set (ln_waiting l) - {i}" "distinct (ln_waiting l')"
  shows "ok_waiting (set_lane g l' (q\<lparr>cq_pending := hm_remove i (cq_pending q)\<rparr>))"
proof -
  let ?q = "q\<lparr>cq_pending := hm_remove i (cq_pending q)\<rparr>"
  have w: "waiting_of ?q = waiting_of q" by (simp add: waiting_of_def fun_eq_iff)
  have g: "waiting_of q g = ln_waiting l" using lane by (simp add: waiting_of_def)
  have i: "map_option qd_generation (request_of q i) = Some g" using pend gen by (simp add: request_of_def)
  have mem: "j \<in> set (waiting_of q h) \<longleftrightarrow> map_option qd_generation (request_of q j) = Some h"
    and dist: "distinct (waiting_of q h)" for h j
    using assms(1) by (simp_all add: ok_waiting_def)
  note R = ok_requests_take(2) [OF req pend]
  show ?thesis
    unfolding ok_waiting_def waiting_of_set_lane request_of_set_lane R w
    using mem mem [of _ g, unfolded g] dist ws i by auto
qed

lemma backlog_take:
  assumes req: "ok_requests q" and lane: "hm_get (cq_lanes q) g = Some l"
    and pend: "hm_get (cq_pending q) i = Some r" and gen: "qd_generation (fst r) = g" and wait: "ok_waiting q"
    and ws: "filter (\<lambda>j. j \<noteq> i) (ln_waiting l') = filter (\<lambda>j. j \<noteq> i) (ln_waiting l)"
  shows "backlog (set_lane g l' (q\<lparr>cq_pending := hm_remove i (cq_pending q)\<rparr>)) h =
    map queued_sig (List.map_filter (request_of q) (filter (\<lambda>j. j \<noteq> i) (waiting_of q h)))
    @ sigs_of h (map (\<lambda>r. queued_sig (fst r)) (mb_queue (cq_mailbox q)))"
proof -
  let ?q = "q\<lparr>cq_pending := hm_remove i (cq_pending q)\<rparr>"
  have w: "waiting_of ?q = waiting_of q" by (simp add: waiting_of_def fun_eq_iff)
  have "waiting_of q g = ln_waiting l" using lane by (simp add: waiting_of_def)
  with ws have "filter (\<lambda>j. j \<noteq> i) (waiting_of (set_lane g l' ?q) h) = filter (\<lambda>j. j \<noteq> i) (waiting_of q h)"
    by (simp add: w)
  then show ?thesis
    unfolding backlog_def request_of_set_lane
    using map_filter_without [of "request_of ?q" i "request_of q", OF ok_requests_take(2) [OF req pend]] by simp
qed


text \<open>The life of a generation when a request leaves its lane unserved, and when it is served.\<close>

lemma ok_life_dropped:
  assumes life: "ok_life q h"
    and sub: "subseq (backlog q' h) (backlog q h)"
    and trm: "filter sig_terminal (backlog q' h) = filter sig_terminal (backlog q h)"
    and frame: "cq_sent q' = cq_sent q" "cq_effects q' = cq_effects q" "cq_leases q' = cq_leases q"
      "cq_arcs q' = cq_arcs q" "hm_contains (cq_lanes q') h = hm_contains (cq_lanes q) h"
      "runs_terminal q' h = runs_terminal q h"
  shows "ok_life q' h"
proof -
  have "lease_armed q' h = lease_armed q h" by (simp add: lease_armed_def frame)
  moreover have "subseq (started_of q h @ backlog q' h) (sent_of q h)"
    using life sub unfolding ok_life_def
    by (meson list_emb_append_mono subseq_order.order_trans subseq_order.order_refl)
  ultimately show ?thesis using life unfolding ok_life_def frame filter_append trm by simp
qed

lemma ok_life_served:
  assumes life: "ok_life q h"
    and moved: "started_of q' h @ backlog q' h = started_of q h @ backlog q h"
    and frame: "cq_sent q' = cq_sent q" "cq_leases q' = cq_leases q" "cq_arcs q' = cq_arcs q"
      "hm_contains (cq_lanes q') h = hm_contains (cq_lanes q) h"
    and runs: "runs_terminal q' h = (filter sig_terminal (started_of q' h) \<noteq> [] \<and> hm_contains (cq_lanes q) h)"
  shows "ok_life q' h"
proof -
  have "lease_armed q' h = lease_armed q h" by (simp add: lease_armed_def frame)
  with life show ?thesis unfolding ok_life_def frame moved runs by simp
qed

lemma ok_mailbox_discard:
  assumes "ok_mailbox k q" and "hm_get (cq_pending q) i = Some r" and "hm_wf (cq_pending q)"
  shows "ok_mailbox k (discard_expired (set_lane g l (q\<lparr>cq_pending := hm_remove i (cq_pending q)\<rparr>)))"
proof -
  have len: "Suc (length (hm_remove i (cq_pending q))) = length (cq_pending q)"
    using hm_length_remove [OF assms(3), of i] assms(2) by (simp add: hm_contains_def)
  have ok: "mailbox_inv (cq_mailbox q)"
    "mb_working (cq_mailbox q) = Suc (k + length (hm_remove i (cq_pending q)) + length (cq_preparations q) + length (cq_running q))"
    using assms(1) len by (simp_all add: ok_mailbox_def)
  with permit_drop_effect(5) [of "record_expiration (cq_mailbox q)"]
  have "mailbox_inv (permit_drop (record_expiration (cq_mailbox q)))"
    by (simp add: record_expiration_effect)
  with ok(2) show ?thesis
    by (intro ok_mailbox_owner [OF assms(1)])
      (simp_all add: discard_expired_def permit_drop_effect record_expiration_effect)
qed

lemma discard_expired_fields [simp]:
  "cq_lanes (discard_expired q) = cq_lanes q" "cq_pending (discard_expired q) = cq_pending q"
  "cq_preparing (discard_expired q) = cq_preparing q" "cq_preparations (discard_expired q) = cq_preparations q"
  "cq_running (discard_expired q) = cq_running q" "cq_workers (discard_expired q) = cq_workers q"
  "cq_tasks (discard_expired q) = cq_tasks q" "cq_arcs (discard_expired q) = cq_arcs q"
  "cq_sent (discard_expired q) = cq_sent q" "cq_effects (discard_expired q) = cq_effects q"
  "cq_leases (discard_expired q) = cq_leases q" "cq_deadlines (discard_expired q) = cq_deadlines q"
  "cq_open (discard_expired q) = cq_open q" "cq_next_sequence (discard_expired q) = cq_next_sequence q"
  "mb_queue (cq_mailbox (discard_expired q)) = mb_queue (cq_mailbox q)"
  by (simp_all add: discard_expired_def permit_drop_effect record_expiration_effect)

lemma ok_running_lane:
  assumes "ok_running q" and "hm_get (cq_lanes q) g = Some l" and "ln_running l' = ln_running l"
  shows "ok_running (set_lane g l' (q\<lparr>cq_pending := p\<rparr>))"
proof (rule ok_runningI)
  fix h k assume k: "hm_get (cq_lanes (set_lane g l' (q\<lparr>cq_pending := p\<rparr>))) h = Some k"
  show "ln_running k =
      (\<exists>t rn. hm_get (cq_running (set_lane g l' (q\<lparr>cq_pending := p\<rparr>))) t = Some rn \<and> rn_generation rn = h)"
    using k ok_runningD(1) [OF assms(1), of h] assms(2,3) by (cases "h = g") auto
next
  fix t rn assume "hm_get (cq_running (set_lane g l' (q\<lparr>cq_pending := p\<rparr>))) t = Some rn"
  then show "hm_contains (cq_lanes (set_lane g l' (q\<lparr>cq_pending := p\<rparr>))) (rn_generation rn)
      \<and> t < cq_tasks (set_lane g l' (q\<lparr>cq_pending := p\<rparr>))"
    using ok_runningD(2) [OF assms(1), of t rn] by simp
qed (use ok_runningD(3,4) [OF assms(1)] in simp_all)

lemma ok_requests_lane: "ok_requests q \<Longrightarrow> ok_requests (set_lane g l q)"
  by (simp add: ok_requests_def)

lemma backlog_discard [simp]: "backlog (discard_expired q) h = backlog q h"
  unfolding backlog_def request_of_def waiting_of_def discard_expired_fields ..

lemma cq_ok_discard:
  assumes ok: "cq_ok k q" and lane: "hm_get (cq_lanes q) g = Some l"
    and pend: "hm_get (cq_pending q) i = Some r" and gen: "qd_generation (fst r) = g"
    and plain: "\<not> qd_terminal (fst r)"
  shows "cq_ok k (discard_expired (set_lane g (l\<lparr>ln_waiting := filter (\<lambda>j. j \<noteq> i) (ln_waiting l)\<rparr>)
           (q\<lparr>cq_pending := hm_remove i (cq_pending q)\<rparr>)))" (is "cq_ok k (discard_expired ?q)")
proof -
  let ?l = "l\<lparr>ln_waiting := filter (\<lambda>j. j \<noteq> i) (ln_waiting l)\<rparr>"
  have parts: "ok_maps q" "ok_requests q" "ok_waiting q" "ok_running q" "ok_mailbox k q"
    and life: "ok_life q h" for h using ok by (auto simp: cq_ok_def)
  note frame = ok_owner_frame [of "discard_expired ?q" ?q, simplified]
  have dist: "distinct (ln_waiting l)"
    using parts(3) lane unfolding ok_waiting_def waiting_of_def by (metis option.simps(5))
  have "ok_waiting ?q"
    using ok_waiting_take [OF parts(3,2) lane pend gen, of ?l] dist by auto
  moreover have "ok_requests ?q"
    using ok_requests_take(1) [OF parts(2) pend] by (rule ok_requests_lane)
  moreover have "ok_running ?q" by (rule ok_running_lane [OF parts(4) lane]) simp
  moreover have "ok_maps (discard_expired ?q)" using parts(1) by (simp add: ok_maps_def)
  moreover have "ok_mailbox k (discard_expired ?q)"
    using ok_mailbox_discard [OF parts(5) pend] parts(1) by (simp add: ok_maps_def)
  moreover have "ok_life (discard_expired ?q) h" for h
  proof (rule ok_life_dropped [OF life])
    have req: "request_of q i = Some (fst r)" using pend by (simp add: request_of_def)
    note B = backlog_take [OF parts(2) lane pend gen parts(3), of ?l h, simplified]
    show "subseq (backlog (discard_expired ?q) h) (backlog q h)"
      unfolding backlog_discard B unfolding backlog_def
      by (intro list_emb_append_mono subseq_map subseq_map_filter) simp
    show "filter sig_terminal (backlog (discard_expired ?q) h) = filter sig_terminal (backlog q h)"
      unfolding backlog_discard B unfolding backlog_def filter_append
      using filter_map_filter_without [of "request_of q" i, OF req, of sig_terminal queued_sig] plain by simp
    show "hm_contains (cq_lanes (discard_expired ?q)) h = hm_contains (cq_lanes q) h"
      using lane by (auto simp: hm_contains_def)
    show "runs_terminal (discard_expired ?q) h = runs_terminal q h" by (simp add: runs_terminal_def)
  qed simp_all
  ultimately show ?thesis unfolding cq_ok_def using frame by blast
qed


text \<open>Starting the first request of an idle lane.\<close>

lemma ok_running_fresh: "ok_running q \<Longrightarrow> hm_get (cq_running q) (cq_tasks q) = None"
  using ok_runningD(2) [of q "cq_tasks q"] by fastforce

lemma ex_entry_fresh:
  assumes "hm_get m c = None"
  shows "(\<exists>t v. (if t = c then Some x else hm_get m t) = Some v \<and> P v) \<longleftrightarrow> P x \<or> (\<exists>t v. hm_get m t = Some v \<and> P v)"
    (is "?L \<longleftrightarrow> ?R")
proof
  assume ?L
  then show ?R by (auto split: if_splits)
next
  assume ?R
  then show ?L
  proof
    assume "P x"
    then show ?L by (intro exI [of _ c]) simp
  next
    assume "\<exists>t v. hm_get m t = Some v \<and> P v"
    then obtain t v where "hm_get m t = Some v" "P v" by blast
    with assms show ?L by (intro exI [of _ t] exI [of _ v]) auto
  qed
qed

lemma ok_running_spawn:
  assumes "ok_running q" and lane: "hm_get (cq_lanes q) g = Some l" and idle: "\<not> ln_running l"
    and "ln_running l'"
  shows "ok_running (spawn_effect g v (set_lane g l' (q\<lparr>cq_pending := p\<rparr>)))" (is "ok_running ?q")
proof -
  have none: "hm_get (cq_running q) t \<noteq> Some rn" if "rn_generation rn = g" for t rn
    using ok_runningD(1) [OF assms(1) lane] idle that by blast
  note fresh = ex_entry_fresh [OF ok_running_fresh [OF assms(1)]]
  have running: "hm_get (cq_running ?q) t =
      (if t = cq_tasks q then Some \<lparr>rn_generation = g, rn_terminal = qd_terminal v\<rparr> else hm_get (cq_running q) t)" for t
    by (simp add: spawn_effect_def Let_def)
  have lanes: "hm_get (cq_lanes ?q) h = (if h = g then Some l' else hm_get (cq_lanes q) h)" for h
    by (simp add: spawn_effect_def Let_def)
  show ?thesis
  proof (rule ok_runningI)
    fix h k assume k: "hm_get (cq_lanes ?q) h = Some k"
    show "ln_running k = (\<exists>t rn. hm_get (cq_running ?q) t = Some rn \<and> rn_generation rn = h)"
      unfolding running fresh using k lanes assms(4) ok_runningD(1) [OF assms(1), of h k]
      by (cases "h = g") simp_all
  next
    fix t rn assume "hm_get (cq_running ?q) t = Some rn"
    then show "hm_contains (cq_lanes ?q) (rn_generation rn) \<and> t < cq_tasks ?q"
      using ok_runningD(2) [OF assms(1), of t rn] unfolding running hm_contains_def lanes
      by (auto simp: spawn_effect_def Let_def split: if_splits)
  next
    fix t t' rn rn'
    assume t: "hm_get (cq_running ?q) t = Some rn" "hm_get (cq_running ?q) t' = Some rn'"
      and same: "rn_generation rn = rn_generation rn'"
    have "t = cq_tasks q \<longleftrightarrow> t' = cq_tasks q"
      using t none [of rn t] none [of rn' t'] same unfolding running by (metis option.sel running.select_convs(1))
    then show "t = t'"
      using t ok_runningD(3) [OF assms(1) _ _ same, of t t'] unfolding running by (metis (full_types))
  next
    fix t show "t \<in> set (cq_workers ?q) \<longleftrightarrow> hm_contains (cq_running ?q) t"
      unfolding hm_contains_def running using ok_runningD(4) [OF assms(1), of t]
      by (auto simp: spawn_effect_def Let_def hm_contains_def)
  qed
qed

lemma spawn_effect_fields [simp]:
  "cq_mailbox (spawn_effect g v q) = cq_mailbox q" "cq_lanes (spawn_effect g v q) = cq_lanes q"
  "cq_pending (spawn_effect g v q) = cq_pending q" "cq_preparing (spawn_effect g v q) = cq_preparing q"
  "cq_preparations (spawn_effect g v q) = cq_preparations q" "cq_arcs (spawn_effect g v q) = cq_arcs q"
  "cq_leases (spawn_effect g v q) = cq_leases q" "cq_sent (spawn_effect g v q) = cq_sent q"
  "cq_open (spawn_effect g v q) = cq_open q" "cq_deadlines (spawn_effect g v q) = cq_deadlines q"
  "map effect_sig (cq_effects (spawn_effect g v q)) = map effect_sig (cq_effects q) @ [(qd_key v, g,
     if qd_terminal v then None else Some (qd_command v))]"
  by (simp_all add: spawn_effect_def Let_def effect_sig_def)

lemma request_of_spawn [simp]: "request_of (spawn_effect g v q) = request_of q"
  unfolding request_of_def spawn_effect_fields ..

lemma waiting_of_spawn [simp]: "waiting_of (spawn_effect g v q) = waiting_of q"
  unfolding waiting_of_def spawn_effect_fields ..

lemma runs_terminal_spawn:
  assumes "ok_running q"
  shows "runs_terminal (spawn_effect g v (set_lane g l (q\<lparr>cq_pending := p\<rparr>))) h
    \<longleftrightarrow> (h = g \<and> qd_terminal v) \<or> runs_terminal q h"
proof -
  let ?q = "spawn_effect g v (set_lane g l (q\<lparr>cq_pending := p\<rparr>))"
  have running: "hm_get (cq_running ?q) t =
      (if t = cq_tasks q then Some \<lparr>rn_generation = g, rn_terminal = qd_terminal v\<rparr> else hm_get (cq_running q) t)" for t
    by (simp add: spawn_effect_def Let_def)
  show ?thesis
    unfolding runs_terminal_def running ex_entry_fresh [OF ok_running_fresh [OF assms]] by auto
qed

lemma ok_mailbox_spawn:
  assumes "ok_mailbox k q" and "ok_maps q" and "hm_get (cq_pending q) i = Some r" and "ok_running q"
  shows "ok_mailbox k (spawn_effect g v (set_lane g l (q\<lparr>cq_pending := hm_remove i (cq_pending q)\<rparr>)))"
proof -
  have "Suc (length (hm_remove i (cq_pending q))) = length (cq_pending q)"
    using hm_length_remove [of "cq_pending q" i] assms(2,3) by (simp add: hm_contains_def ok_maps_def)
  moreover have "\<not> hm_contains (cq_running q) (cq_tasks q)"
    using ok_running_fresh [OF assms(4)] by (simp add: hm_contains_def)
  ultimately have "length (cq_pending q) + length (cq_running q) = length (hm_remove i (cq_pending q))
      + length (cq_running (spawn_effect g v (set_lane g l (q\<lparr>cq_pending := hm_remove i (cq_pending q)\<rparr>))))"
    by (simp add: spawn_effect_def Let_def hm_length_insert)
  with ok_mailboxD(1,2) [OF assms(1)] show ?thesis
    by (intro ok_mailbox_owner [OF assms(1)]) simp_all
qed

lemma ok_life_spawn:
  assumes life: "ok_life q h" and req: "ok_requests q" and wait: "ok_waiting q" and run: "ok_running q"
    and lane: "hm_get (cq_lanes q) g = Some l" and idle: "\<not> ln_running l"
    and waiting: "ln_waiting l = i # ids" and pend: "hm_get (cq_pending q) i = Some r"
    and gen: "qd_generation (fst r) = g" and dist: "i \<notin> set ids"
  shows "ok_life (spawn_effect g (fst r) (set_lane g (l\<lparr>ln_waiting := ids, ln_running := True\<rparr>)
           (q\<lparr>cq_pending := hm_remove i (cq_pending q)\<rparr>))) h" (is "ok_life ?q h")
proof (rule ok_life_served [OF life])
  let ?l = "l\<lparr>ln_waiting := ids, ln_running := True\<rparr>" and ?p = "q\<lparr>cq_pending := hm_remove i (cq_pending q)\<rparr>"
  have ri: "request_of q i = Some (fst r)" using pend by (simp add: request_of_def)
  have w: "waiting_of q g = i # ids" using lane waiting by (simp add: waiting_of_def)
  have sig: "queued_sig (fst r) = (qd_key (fst r), g, if qd_terminal (fst r) then None else Some (qd_command (fst r)))"
    by (simp add: queued_sig_def gen)
  have ids: "filter (\<lambda>j. j \<noteq> i) ids = ids" using dist by (metis (mono_tags, lifting) filter_True)
  have "i \<notin> set (waiting_of q h)" if "h \<noteq> g"
    using that wait ri gen by (simp add: ok_waiting_def)
  then have oth: "filter (\<lambda>j. j \<noteq> i) (waiting_of q h) = waiting_of q h" if "h \<noteq> g"
    using that by (metis (mono_tags, lifting) filter_True)
  have B: "backlog (set_lane g ?l ?p) h =
      map queued_sig (List.map_filter (request_of q) (filter (\<lambda>j. j \<noteq> i) (waiting_of q h)))
      @ sigs_of h (map (\<lambda>r. queued_sig (fst r)) (mb_queue (cq_mailbox q)))"
    by (rule backlog_take [OF req lane pend gen wait]) (simp add: waiting)
  have "backlog ?q h = backlog (set_lane g ?l ?p) h"
    unfolding backlog_def request_of_spawn waiting_of_spawn spawn_effect_fields ..
  with B show "started_of ?q h @ backlog ?q h = started_of q h @ backlog q h"
    by (cases "h = g") (simp_all add: backlog_def w ids oth map_filter_simps ri sig)
  show "hm_contains (cq_lanes ?q) h = hm_contains (cq_lanes q) h" using lane by (auto simp: hm_contains_def)
  have rt: "runs_terminal ?q h \<longleftrightarrow> (h = g \<and> qd_terminal (fst r)) \<or> runs_terminal q h"
    by (rule runs_terminal_spawn [OF run])
  show "runs_terminal ?q h = (filter sig_terminal (started_of ?q h) \<noteq> [] \<and> hm_contains (cq_lanes q) h)"
  proof (cases "h = g")
    case True
    have "backlog q g \<noteq> []" by (simp add: backlog_def w map_filter_simps ri)
    with True life terminal_last [of q g] have "filter sig_terminal (started_of q g) = []" by blast
    moreover from this life True have "\<not> runs_terminal q g" by (simp add: ok_life_def)
    ultimately show ?thesis using rt True lane by (simp add: hm_contains_def)
  next
    case False
    have "runs_terminal q h \<Longrightarrow> hm_contains (cq_lanes q) h"
      using ok_runningD(2) [OF run] by (auto simp: runs_terminal_def)
    with False rt life show ?thesis by (auto simp: ok_life_def)
  qed
qed simp_all

lemma cq_ok_spawn:
  assumes ok: "cq_ok k q" and lane: "hm_get (cq_lanes q) g = Some l" and idle: "\<not> ln_running l"
    and waiting: "ln_waiting l = i # ids" and pend: "hm_get (cq_pending q) i = Some r"
  shows "cq_ok k (spawn_effect g (fst r) (set_lane g (l\<lparr>ln_waiting := ids, ln_running := True\<rparr>)
           (q\<lparr>cq_pending := hm_remove i (cq_pending q)\<rparr>)))" (is "cq_ok k ?q")
proof -
  let ?l = "l\<lparr>ln_waiting := ids, ln_running := True\<rparr>" and ?p = "q\<lparr>cq_pending := hm_remove i (cq_pending q)\<rparr>"
  have parts: "ok_maps q" "ok_requests q" "ok_waiting q" "ok_running q" "ok_mailbox k q"
    and life: "ok_life q h" for h using ok by (auto simp: cq_ok_def)
  have req: "request_of q i = Some (fst r)" using pend by (simp add: request_of_def)
  have w: "waiting_of q g = i # ids" using lane waiting by (simp add: waiting_of_def)
  have "distinct (waiting_of q g)" using parts(3) unfolding ok_waiting_def by blast
  then have dist: "i \<notin> set ids" "distinct ids" by (simp_all add: w)
  have "i \<in> set (waiting_of q g)" by (simp add: w)
  then have "map_option qd_generation (request_of q i) = Some g"
    using parts(3) unfolding ok_waiting_def by blast
  then have gen: "qd_generation (fst r) = g" by (simp add: req)
  have "ok_waiting (set_lane g ?l ?p)"
    by (rule ok_waiting_take [OF parts(3,2) lane pend gen]) (use dist waiting in auto)
  then have "ok_waiting ?q" by (simp add: ok_waiting_def)
  moreover have "ok_requests ?q"
    using ok_requests_lane [OF ok_requests_take(1) [OF parts(2) pend], of g ?l] by (simp add: ok_requests_def)
  moreover have "ok_running ?q" by (rule ok_running_spawn [OF parts(4) lane idle]) simp
  moreover have "ok_maps ?q" using parts(1) by (simp add: ok_maps_def spawn_effect_def Let_def)
  moreover have "ok_mailbox k ?q"
    by (rule ok_mailbox_spawn [OF parts(5,1) pend parts(4)])
  moreover have "ok_life ?q h" for h
    by (rule ok_life_spawn [OF life parts(2-4) lane idle waiting pend gen dist(1)])
  ultimately show ?thesis unfolding cq_ok_def by blast
qed


text \<open>Deadlines are not part of the invariant, so that \<open>take_pending\<close> acts on the pending map only.\<close>

lemma cq_ok_deadlines: "cq_ok k (q\<lparr>cq_deadlines := ds\<rparr>) = cq_ok k q"
proof -
  have "request_of (q\<lparr>cq_deadlines := ds\<rparr>) = request_of q" "waiting_of (q\<lparr>cq_deadlines := ds\<rparr>) = waiting_of q"
    by (simp_all add: request_of_def waiting_of_def fun_eq_iff split: option.split)
  then show ?thesis
    by (simp add: cq_ok_def cq_ok_defs ok_life_def backlog_def lease_armed_def runs_terminal_def)
qed

lemma take_pending_alt:
  "take_pending i r q = (q\<lparr>cq_pending := hm_remove i (cq_pending q)\<rparr>)\<lparr>cq_deadlines :=
     (case snd r of None \<Rightarrow> cq_deadlines q | Some d \<Rightarrow> removeAll (d, i) (cq_deadlines q))\<rparr>"
  by (simp add: take_pending_def)

lemma set_lane_deadlines: "set_lane g l (q\<lparr>cq_deadlines := ds\<rparr>) = (set_lane g l q)\<lparr>cq_deadlines := ds\<rparr>"
  by (simp add: set_lane_def)

lemma set_lane_pending: "set_lane g l (q\<lparr>cq_pending := p\<rparr>) = (set_lane g l q)\<lparr>cq_pending := p\<rparr>"
  by (simp add: set_lane_def)

lemma set_lane_discard: "set_lane g l (discard_expired q) = discard_expired (set_lane g l q)"
  by (simp add: set_lane_def discard_expired_def)

lemma spawn_deadlines: "spawn_effect g v (q\<lparr>cq_deadlines := ds\<rparr>) = (spawn_effect g v q)\<lparr>cq_deadlines := ds\<rparr>"
  by (simp add: spawn_effect_def Let_def)

lemma discard_deadlines: "discard_expired (q\<lparr>cq_deadlines := ds\<rparr>) = (discard_expired q)\<lparr>cq_deadlines := ds\<rparr>"
  by (simp add: discard_expired_def)

lemma start_loop_ok:
  assumes "cq_ok k (set_lane g (lane\<lparr>ln_waiting := ids\<rparr>) q)" and "\<not> ln_running lane"
  shows "cq_ok k (start_loop clock g lane ids q) \<and> lane_settled (start_loop clock g lane ids q) g
    \<and> (\<forall>h. h \<noteq> g \<longrightarrow> hm_get (cq_lanes (start_loop clock g lane ids q)) h = hm_get (cq_lanes q) h)
    \<and> hm_contains (cq_lanes (start_loop clock g lane ids q)) g
    \<and> cq_preparing (start_loop clock g lane ids q) = cq_preparing q"
  using assms(1)
proof (induction ids arbitrary: q)
  case Nil
  then show ?case by (simp add: lane_settled_def)
next
  case (Cons i ids)
  let ?p = "set_lane g (lane\<lparr>ln_waiting := i # ids\<rparr>) q"
  have lane: "hm_get (cq_lanes ?p) g = Some (lane\<lparr>ln_waiting := i # ids\<rparr>)" by simp
  have parts: "ok_requests ?p" "ok_waiting ?p" using Cons.prems by (auto simp: cq_ok_def)
  have "waiting_of ?p g = i # ids" by simp
  then have dist: "i \<notin> set ids" and req: "map_option qd_generation (request_of ?p i) = Some g"
    using parts(2) unfolding ok_waiting_def by (metis distinct.simps(2), metis list.set_intros(1))
  show ?case
  proof (cases "hm_contains (cq_preparing q) i")
    case True
    with Cons.prems show ?thesis by (simp add: lane_settled_def)
  next
    case False
    then have "hm_get (cq_preparations ?p) i = None"
      using parts(1) by (auto simp: ok_requests_def hm_contains_def)
    with req obtain r where pend: "hm_get (cq_pending ?p) i = Some r" and gen: "qd_generation (fst r) = g"
      by (auto simp: request_of_def split: option.splits)
    show ?thesis
    proof (cases "deadline_passed (clock i) (snd r)")
      case expired: True
      have "\<not> qd_terminal (fst r)"
      proof
        assume "qd_terminal (fst r)"
        with parts(1) pend have "snd r = None" unfolding ok_requests_def by (metis prod.collapse)
        with expired show False by (simp add: deadline_passed_def)
      qed
      note ok = cq_ok_discard [OF Cons.prems lane pend gen this]
      have "filter (\<lambda>j. j \<noteq> i) (i # ids) = ids" using dist by (auto simp: filter_id_conv)
      with ok have "cq_ok k (set_lane g (lane\<lparr>ln_waiting := ids\<rparr>) (discard_expired (take_pending i r q)))"
        by (simp add: set_lane_discard set_lane_deadlines take_pending_alt discard_deadlines cq_ok_deadlines
            set_lane_pending set_lane_twice [unfolded set_lane_pending])
      with Cons.IH [of "discard_expired (take_pending i r q)"] False pend expired show ?thesis
        by (simp add: Let_def take_pending_def)
    next
      case fresh: False
      note ok = cq_ok_spawn [OF Cons.prems lane _ _ pend, of ids, simplified, OF assms(2)]
      with False pend fresh show ?thesis
        by (simp add: Let_def take_pending_alt set_lane_deadlines spawn_deadlines cq_ok_deadlines lane_settled_def
            set_lane_pending set_lane_twice [unfolded set_lane_pending])
    qed
  qed
qed


lemma hm_insert_same: "hm_get m k = Some v \<Longrightarrow> hm_insert k v m = m"
  by (induction m) (auto simp: hm_insert_def split: if_splits)

lemma lane_settled_cong:
  "hm_get (cq_lanes q') h = hm_get (cq_lanes q) h \<Longrightarrow> cq_preparing q' = cq_preparing q \<Longrightarrow>
     lane_settled q' h = lane_settled q h"
  by (simp add: lane_settled_def split: option.split list.split)

lemma request_of_deadlines [simp]: "request_of (q\<lparr>cq_deadlines := ds\<rparr>) = request_of q"
  by (simp add: request_of_def fun_eq_iff split: option.split)

lemma request_of_discard [simp]: "request_of (discard_expired q) = request_of q"
  by (simp add: request_of_def fun_eq_iff split: option.split)

lemma lane_settled_deadlines [simp]: "lane_settled (q\<lparr>cq_deadlines := ds\<rparr>) h = lane_settled q h"
  by (rule lane_settled_cong) simp_all

lemma ok_deadlines_shrink:
  assumes "ok_deadlines q" and "set (cq_deadlines q') \<subseteq> set (cq_deadlines q)" and "cq_arcs q \<le> cq_arcs q'"
    and "\<And>i v. i < cq_arcs q \<Longrightarrow> request_of q' i = Some v \<Longrightarrow>
      \<exists>w. request_of q i = Some w \<and> qd_terminal w = qd_terminal v"
  shows "ok_deadlines q'"
  unfolding ok_deadlines_def
proof (clarify, rule conjI)
  fix d i assume "(d, i) \<in> set (cq_deadlines q')"
  with assms(1,2) have i: "i < cq_arcs q" "case request_of q i of None \<Rightarrow> True | Some v \<Rightarrow> \<not> qd_terminal v"
    unfolding ok_deadlines_def by blast+
  with assms(3) show "i < cq_arcs q'" by simp
  show "case request_of q' i of None \<Rightarrow> True | Some v \<Rightarrow> \<not> qd_terminal v"
  proof (cases "request_of q' i")
    case (Some v)
    with assms(4) [OF i(1) Some] i(2) show ?thesis by auto
  qed simp
qed

text \<open>What \<open>start\<close> does to the requests: it takes some of them away.\<close>

lemma start_loop_requests:
  "set (cq_deadlines (start_loop clock g lane ids q)) \<subseteq> set (cq_deadlines q)
   \<and> cq_arcs (start_loop clock g lane ids q) = cq_arcs q
   \<and> cq_preparations (start_loop clock g lane ids q) = cq_preparations q
   \<and> (\<forall>j r. hm_get (cq_pending (start_loop clock g lane ids q)) j = Some r \<longrightarrow> hm_get (cq_pending q) j = Some r)"
proof (induction ids arbitrary: q)
  case (Cons i ids)
  show ?case
  proof (cases "hm_contains (cq_preparing q) i")
    case True
    then show ?thesis by simp
  next
    case False
    show ?thesis
    proof (cases "hm_get (cq_pending q) i")
      case None
      with False Cons.IH [of q] show ?thesis by simp
    next
      case (Some r)
      have "set (cq_deadlines (take_pending i r q)) \<subseteq> set (cq_deadlines q)"
        by (auto simp: take_pending_def split: option.split)
      moreover have "hm_get (cq_pending (take_pending i r q)) j = Some r' \<Longrightarrow> hm_get (cq_pending q) j = Some r'" for j r'
        by (simp add: take_pending_def split: if_splits)
      ultimately show ?thesis
        using Cons.IH [of "discard_expired (take_pending i r q)"] False Some
        by (simp add: Let_def) (auto simp: take_pending_def)
    qed
  qed
qed simp

text \<open>\<open>start\<close> finds its lane, settles it and keeps the invariant.\<close>

lemma start_ok:
  assumes ok: "cq_ok k q" and lane: "hm_get (cq_lanes q) g = Some l"
    and settled: "\<And>h. h \<noteq> g \<Longrightarrow> lane_settled q h" and dl: "ok_deadlines q"
  shows "\<exists>q'. start clock g q = Some q' \<and> cq_ok k q' \<and> (\<forall>h. lane_settled q' h) \<and> ok_deadlines q'"
proof (cases "ln_running l")
  case True
  then have "lane_settled q h" for h using settled lane by (cases "h = g") (simp_all add: lane_settled_def)
  with True ok lane dl show ?thesis by (intro exI [of _ q]) (simp add: start_def)
next
  case False
  let ?q = "start_loop clock g l (ln_waiting l) q"
  have "set_lane g (l\<lparr>ln_waiting := ln_waiting l\<rparr>) q = q" using lane by (simp add: set_lane_def hm_insert_same)
  with ok False have loop: "cq_ok k ?q" "lane_settled ?q g"
    "\<And>h. h \<noteq> g \<Longrightarrow> hm_get (cq_lanes ?q) h = hm_get (cq_lanes q) h" "cq_preparing ?q = cq_preparing q"
    using start_loop_ok [of k g "ln_waiting l" l q clock] by simp_all
  note req = start_loop_requests [of clock g l "ln_waiting l" q]
  have "ok_deadlines ?q"
  proof (rule ok_deadlines_shrink [OF dl])
    fix i v assume i: "request_of ?q i = Some v"
    have "hm_get (cq_pending ?q) i = Some r \<Longrightarrow> hm_get (cq_pending q) i = Some r" for r using req by blast
    moreover have "hm_get (cq_preparations q) i = Some w \<Longrightarrow> hm_get (cq_pending q) i = None" for w
      using ok unfolding cq_ok_def ok_requests_def by blast
    ultimately have "request_of q i = Some v"
      using i req by (auto simp: request_of_def split: option.splits)
    then show "\<exists>w. request_of q i = Some w \<and> qd_terminal w = qd_terminal v" by blast
  qed (use req in simp_all)
  moreover have "lane_settled ?q h" for h
    using loop settled lane_settled_cong [of ?q h q] by (cases "h = g") simp_all
  ultimately show ?thesis using False lane loop(1) by (intro exI [of _ ?q]) (simp add: start_def)
qed


text \<open>A finished worker gives its permit back.\<close>

lemma cq_ok_release:
  assumes "cq_ok (Suc k) q"
  shows "cq_ok k (release_permit q)"
proof -
  let ?q = "release_permit q"
  note frame = ok_owner_frame [of ?q q, unfolded release_permit_def, simplified, folded release_permit_def]
  have mb: "ok_mailbox (Suc k) q" using assms by (simp add: cq_ok_def)
  then have "mailbox_inv (permit_drop (cq_mailbox q))"
    using ok_mailboxD(1,2) [OF mb] by (intro permit_drop_effect(5)) simp_all
  then have "ok_mailbox k ?q"
    using ok_mailboxD(2) [OF mb]
    by (intro ok_mailbox_owner [OF mb]) (simp_all add: release_permit_def permit_drop_effect)
  moreover have "ok_life ?q h" for h
  proof (rule ok_life_dropped [of q h])
    have B: "backlog ?q h = backlog q h"
      by (simp add: backlog_def frame) (simp add: release_permit_def permit_drop_effect)
    then show "subseq (backlog ?q h) (backlog q h)" by simp
    show "filter sig_terminal (backlog ?q h) = filter sig_terminal (backlog q h)" by (simp only: B)
    show "ok_life q h" using assms by (simp add: cq_ok_def)
    show "runs_terminal ?q h = runs_terminal q h" by (rule frame(5))
  qed (simp_all add: release_permit_def)
  moreover have "ok_maps ?q" using assms by (simp add: cq_ok_def ok_maps_def release_permit_def)
  moreover have "ok_requests ?q" "ok_waiting ?q" "ok_running ?q"
    using frame(1-3) assms by (simp_all add: cq_ok_def)
  ultimately show ?thesis by (simp add: cq_ok_def)
qed

lemma cq_inv_release:
  assumes "cq_ok 1 q" and "\<And>h. lane_settled q h" and "ok_deadlines q"
  shows "cq_inv (release_permit q)"
  using cq_ok_release [of 0 q] assms
    ok_owner_frame(4,7) [of "release_permit q" q, unfolded release_permit_def, simplified, folded release_permit_def]
  by (simp add: cq_inv_def)

text \<open>Expiry drops requests behind the head of their lane or in a lane that is busy.\<close>

lemma lane_settled_expire:
  assumes settled: "lane_settled q h" and ok: "ok_requests q" and lane: "hm_get (cq_lanes q) g = Some l"
    and pend: "hm_get (cq_pending q) i = Some r"
  shows "lane_settled (discard_expired (set_lane g (l\<lparr>ln_waiting := filter (\<lambda>j. j \<noteq> i) (ln_waiting l)\<rparr>)
           (q\<lparr>cq_pending := p\<rparr>))) h"
proof (cases "h = g")
  case True
  have "\<not> hm_contains (cq_preparing q) i"
    using ok pend unfolding ok_requests_def hm_contains_def by (metis option.distinct(1) option.exhaust option.simps(8))
  with True settled lane show ?thesis
    by (cases "ln_waiting l") (auto simp: lane_settled_def)
next
  case False
  with settled show ?thesis by (subst lane_settled_cong [of _ h q]) simp_all
qed

lemma expire_loop_ok:
  assumes "cq_ok k q" and "\<And>h. lane_settled q h" and "ok_deadlines (q\<lparr>cq_deadlines := ds\<rparr>)"
  obtains q' where "expire_loop now ds q = Some q'" and "cq_ok k q'" and "\<And>h. lane_settled q' h"
    and "ok_deadlines q'"
  using assms
proof (induction ds arbitrary: q thesis)
  case Nil
  show ?case
    by (rule Nil(1)) (use Nil in \<open>simp_all add: cq_ok_deadlines\<close>)
next
  case (Cons p ds)
  obtain d i where p: "p = (d, i)" by fastforce
  have dl: "ok_deadlines (q\<lparr>cq_deadlines := ds\<rparr>)"
    using Cons.prems(4) by (rule ok_deadlines_shrink) auto
  show ?case
  proof (cases "now < d")
    case True
    show ?thesis
      by (rule Cons.prems(1)) (use True Cons.prems p in \<open>simp_all add: cq_ok_deadlines\<close>)
  next
    case False
    show ?thesis
    proof (cases "hm_get (cq_pending q) i")
      case None
      show ?thesis
        by (rule Cons.IH [OF _ Cons.prems(2,3) dl], rule Cons.prems(1)) (use None False p in simp_all)
    next
      case (Some r)
      let ?g = "qd_generation (fst r)"
      have req: "request_of q i = Some (fst r)" using Some by (simp add: request_of_def)
      then have plain: "\<not> qd_terminal (fst r)"
        using Cons.prems(4) unfolding ok_deadlines_def p by simp
      have "i \<in> set (waiting_of q ?g)"
        using Cons.prems(2) req unfolding cq_ok_def ok_waiting_def by simp
      then obtain l where l: "hm_get (cq_lanes q) ?g = Some l"
        by (cases "hm_get (cq_lanes q) ?g") (simp_all add: waiting_of_def)
      let ?q = "discard_expired (set_lane ?g (l\<lparr>ln_waiting := filter (\<lambda>j. j \<noteq> i) (ln_waiting l)\<rparr>)
           (q\<lparr>cq_pending := hm_remove i (cq_pending q)\<rparr>))"
      have ok': "cq_ok k ?q" by (rule cq_ok_discard [OF Cons.prems(2) l Some refl plain])
      have st': "lane_settled ?q h" for h
        by (rule lane_settled_expire [OF Cons.prems(3) _ l Some]) (use Cons.prems(2) in \<open>simp add: cq_ok_def\<close>)
      have dl': "ok_deadlines (?q\<lparr>cq_deadlines := ds\<rparr>)"
        using dl
      proof (rule ok_deadlines_shrink)
        fix j v assume "request_of (?q\<lparr>cq_deadlines := ds\<rparr>) j = Some v"
        then have "request_of (q\<lparr>cq_pending := hm_remove i (cq_pending q)\<rparr>) j = Some v"
          by simp
        then have "request_of q j = Some v"
          using ok_requests_take(2) [OF _ Some] Cons.prems(2) by (simp add: cq_ok_def split: if_splits)
        then show "\<exists>w. request_of (q\<lparr>cq_deadlines := ds\<rparr>) j = Some w \<and> qd_terminal w = qd_terminal v"
          by simp
      qed simp_all
      show ?thesis
        by (rule Cons.IH [OF _ ok' st' dl'], rule Cons.prems(1)) (use False Some l p in simp_all)
    qed
  qed
qed


text \<open>A request that enters its lane.\<close>

lemma mailbox_recv_effect:
  assumes "mailbox_recv m = (x, m')"
  shows "mb_reserved m' = mb_reserved m"
    "x = Message v d \<Longrightarrow> mb_queue m = (v, d) # mb_queue m' \<and> mb_working m' = Suc (mb_working m)"
    "x = Finished \<Longrightarrow> mb_queue m' = [] \<and> mb_queue m = [] \<and> mb_reserved m = 0 \<and> mb_channel_closed m'"
    "x \<noteq> Message v d \<Longrightarrow> (\<And>w e. x \<noteq> Message w e) \<Longrightarrow> mb_queue m' = mb_queue m \<and> mb_working m' = mb_working m"
  using assms by (auto simp: mailbox_recv_def try_recv_def Let_def split: list.splits if_splits prod.splits)

lemma enter_lane_fields [simp]:
  "cq_mailbox (enter_lane r q) = cq_mailbox q" "cq_workers (enter_lane r q) = cq_workers q"
  "cq_running (enter_lane r q) = cq_running q" "cq_open (enter_lane r q) = cq_open q"
  "cq_leases (enter_lane r q) = cq_leases q" "cq_arcs (enter_lane r q) = Suc (cq_arcs q)"
  "cq_tasks (enter_lane r q) = cq_tasks q" "cq_sent (enter_lane r q) = cq_sent q"
  "cq_effects (enter_lane r q) = cq_effects q"
  "cq_lanes (enter_lane r q) = hm_insert (qd_generation (fst r))
     ((lane_entry (qd_generation (fst r)) q)
        \<lparr>ln_retiring := ln_retiring (lane_entry (qd_generation (fst r)) q) \<or> qd_terminal (fst r),
         ln_waiting := ln_waiting (lane_entry (qd_generation (fst r)) q) @ [cq_arcs q]\<rparr>) (cq_lanes q)"
  "cq_pending (enter_lane r q) =
     (if qd_terminal (fst r) then cq_pending q else hm_insert (cq_arcs q) r (cq_pending q))"
  "cq_preparing (enter_lane r q) =
     (if qd_terminal (fst r) then hm_insert (cq_arcs q) (qd_generation (fst r)) (cq_preparing q) else cq_preparing q)"
  "cq_preparations (enter_lane r q) =
     (if qd_terminal (fst r) then hm_insert (cq_arcs q) (fst r) (cq_preparations q) else cq_preparations q)"
  "cq_deadlines (enter_lane r q) =
     (case snd r of None \<Rightarrow> cq_deadlines q | Some d \<Rightarrow> bt_insert (d, cq_arcs q) (cq_deadlines q))"
  by (simp_all add: enter_lane_def Let_def split: option.split)

lemma ok_requests_fresh:
  assumes "ok_requests q" and "cq_arcs q \<le> i"
  shows "request_of q i = None" "hm_get (cq_pending q) i = None" "hm_get (cq_preparations q) i = None"
    "hm_get (cq_preparing q) i = None"
proof -
  show r: "request_of q i = None" using assms unfolding ok_requests_def by (meson not_le)
  then show "hm_get (cq_pending q) i = None" by (auto simp: request_of_def split: option.splits)
  with r show p: "hm_get (cq_preparations q) i = None" by (simp add: request_of_def)
  with assms(1) show "hm_get (cq_preparing q) i = None" by (simp add: ok_requests_def)
qed

lemma request_of_enter:
  assumes "ok_requests q"
  shows "request_of (enter_lane r q) j = (if j = cq_arcs q then Some (fst r) else request_of q j)"
  using ok_requests_fresh [OF assms order_refl] by (simp add: request_of_def split: option.split)

lemma waiting_of_enter:
  "waiting_of (enter_lane r q) h =
     (if h = qd_generation (fst r) then waiting_of q h @ [cq_arcs q] else waiting_of q h)"
  by (simp add: waiting_of_def lane_entry_def split: option.split)

lemma ok_requests_enter:
  assumes "ok_requests q" and "qd_terminal (fst r) \<Longrightarrow> snd r = None"
  shows "ok_requests (enter_lane r q)"
  unfolding ok_requests_def
proof (intro conjI allI impI)
  note fresh = ok_requests_fresh [OF assms(1) order_refl]
  have D: "hm_get (cq_preparing q) j = map_option qd_generation (hm_get (cq_preparations q) j)"
    "hm_get (cq_preparations q) j = Some v \<Longrightarrow> hm_get (cq_pending q) j = None \<and> qd_terminal v"
    "hm_get (cq_pending q) j = Some (v, d) \<Longrightarrow> qd_terminal v \<Longrightarrow> d = None"
    "request_of q j \<noteq> None \<Longrightarrow> j < cq_arcs q" for j v d
    using assms(1) unfolding ok_requests_def by blast+
  fix j
  show "hm_get (cq_preparing (enter_lane r q)) j
      = map_option qd_generation (hm_get (cq_preparations (enter_lane r q)) j)"
    using D(1) [of j] by simp
  show "hm_get (cq_pending (enter_lane r q)) j = None" "qd_terminal v"
    if "hm_get (cq_preparations (enter_lane r q)) j = Some v" for v
    using that D(2) [of j v] fresh by (auto split: if_splits)
  show "d = None" if "hm_get (cq_pending (enter_lane r q)) j = Some (v, d)" "qd_terminal v" for v d
    using that D(3) [of j v d] by (auto split: if_splits)
  show "j < cq_arcs (enter_lane r q)" if "request_of (enter_lane r q) j \<noteq> None"
    using that D(4) [of j] by (auto simp: request_of_enter [OF assms(1)] split: if_splits)
qed

lemma ok_waiting_enter:
  assumes "ok_waiting q" and "ok_requests q"
  shows "ok_waiting (enter_lane r q)"
proof -
  have mem: "j \<in> set (waiting_of q h) \<longleftrightarrow> map_option qd_generation (request_of q j) = Some h"
    and dist: "distinct (waiting_of q h)" for h j
    using assms(1) by (simp_all add: ok_waiting_def)
  have "cq_arcs q \<notin> set (waiting_of q h)" for h
    unfolding mem by (simp add: ok_requests_fresh [OF assms(2)])
  with mem dist show ?thesis
    unfolding ok_waiting_def waiting_of_enter request_of_enter [OF assms(2)] by auto
qed

lemma ok_running_enter:
  assumes "ok_running q"
  shows "ok_running (enter_lane r q)"
proof (rule ok_runningI)
  let ?g = "qd_generation (fst r)"
  have none: "\<not> (\<exists>t rn. hm_get (cq_running q) t = Some rn \<and> rn_generation rn = ?g)"
    if "hm_get (cq_lanes q) ?g = None"
    using that ok_runningD(2) [OF assms] unfolding hm_contains_def by metis
  fix h k assume "hm_get (cq_lanes (enter_lane r q)) h = Some k"
  then show "ln_running k = (\<exists>t rn. hm_get (cq_running (enter_lane r q)) t = Some rn \<and> rn_generation rn = h)"
    using none ok_runningD(1) [OF assms, of h]
    by (cases "h = ?g") (auto simp: lane_entry_def split: option.splits)
next
  fix t rn assume "hm_get (cq_running (enter_lane r q)) t = Some rn"
  then show "hm_contains (cq_lanes (enter_lane r q)) (rn_generation rn) \<and> t < cq_tasks (enter_lane r q)"
    using ok_runningD(2) [OF assms, of t rn] by simp
qed (use ok_runningD(3,4) [OF assms] in simp_all)


lemma ok_life_enter:
  assumes life: "ok_life q h" and req: "ok_requests q" and wait: "ok_waiting q" and run: "ok_running q"
    and queue: "mb_queue (cq_mailbox q) = r # mb_queue m"
  shows "ok_life (enter_lane r (q\<lparr>cq_mailbox := m\<rparr>)) h" (is "ok_life ?q h")
proof -
  let ?g = "qd_generation (fst r)" and ?p = "q\<lparr>cq_mailbox := m\<rparr>"
  have same: "request_of ?p = request_of q" "waiting_of ?p = waiting_of q"
    by (simp_all add: request_of_def waiting_of_def fun_eq_iff split: option.split)
  have req': "ok_requests ?p" using req by (simp add: ok_requests_def same)
  have new: "cq_arcs q \<notin> set (waiting_of q h)"
    using wait ok_requests_fresh(1) [OF req order_refl] by (simp add: ok_waiting_def)
  have R: "request_of ?q j = (if j = cq_arcs q then Some (fst r) else request_of q j)" for j
    using request_of_enter [OF req', of r j] by (simp add: same)
  have old: "List.map_filter (request_of ?q) (waiting_of q h) = List.map_filter (request_of q) (waiting_of q h)"
    by (rule map_filter_cong) (use new R in auto)
  have B: "backlog ?q h = backlog q h"
    unfolding backlog_def waiting_of_enter same queue
    by (simp add: old R map_filter_append map_filter_simps)
  have rt: "runs_terminal ?q h = runs_terminal q h" by (simp add: runs_terminal_def)
  have armed: "lease_armed ?q h = lease_armed q h" by (simp add: lease_armed_def)
  have "sent_of q h \<noteq> []" "filter sig_terminal (started_of q h) = []" if "h = ?g"
  proof -
    have ne: "backlog q h \<noteq> []" using that by (simp add: backlog_def queue)
    with life show "sent_of q h \<noteq> []" by (auto simp: ok_life_def)
    from ne terminal_last [OF life] show "filter sig_terminal (started_of q h) = []" by blast
  qed
  moreover have "hm_contains (cq_lanes ?q) h = (h = ?g \<or> hm_contains (cq_lanes q) h)" by simp
  ultimately show ?thesis
    using life unfolding ok_life_def B rt armed by auto
qed

lemma ok_mailbox_enter:
  assumes mb: "ok_mailbox 0 q" and maps: "ok_maps q" and req: "ok_requests q"
    and recv: "mailbox_recv (cq_mailbox q) = (Message v d, m)"
  shows "ok_mailbox 0 (enter_lane (v, d) (q\<lparr>cq_mailbox := m\<rparr>))"
proof -
  note e = mailbox_recv_effect(1) [OF recv] mailbox_recv_effect(2) [OF recv, of v d, simplified]
  note fresh = ok_requests_fresh [OF req order_refl]
  have "mailbox_inv m"
    using mailbox_inv_try_recv [OF ok_mailboxD(1) [OF mb]] mailbox_recv_state [of "cq_mailbox q"] recv by simp
  moreover have "cq_open q" using ok_mailboxD(6) [OF mb] e(2) by auto
  ultimately show ?thesis
    using ok_mailboxD(2) [OF mb] e fresh
    by (intro ok_mailbox_owner [OF mb]) (auto simp: hm_length_insert hm_contains_def)
qed

lemma ok_deadlines_enter:
  assumes dl: "ok_deadlines q" and req: "ok_requests q" and plain: "qd_terminal (fst r) \<Longrightarrow> snd r = None"
  shows "ok_deadlines (enter_lane r q)"
  unfolding ok_deadlines_def
proof clarify
  fix d i assume "(d, i) \<in> set (cq_deadlines (enter_lane r q))"
  then consider "(d, i) \<in> set (cq_deadlines q)" | "i = cq_arcs q" "snd r = Some d"
    by (auto simp: bt_insert_def set_insort_key split: option.splits if_splits)
  then show "i < cq_arcs (enter_lane r q)
      \<and> (case request_of (enter_lane r q) i of None \<Rightarrow> True | Some v \<Rightarrow> \<not> qd_terminal v)"
  proof cases
    case 1
    with dl have "i < cq_arcs q" "case request_of q i of None \<Rightarrow> True | Some v \<Rightarrow> \<not> qd_terminal v"
      unfolding ok_deadlines_def by blast+
    then show ?thesis by (simp add: request_of_enter [OF req])
  next
    case 2
    with plain show ?thesis by (auto simp: request_of_enter [OF req])
  qed
qed

lemma request_turn_ok:
  assumes inv: "cq_inv q" and recv: "mailbox_recv (cq_mailbox q) = (Message v d, m)"
  shows "\<exists>q'. request_turn clock q = Some q' \<and> cq_inv q'"
proof -
  let ?p = "q\<lparr>cq_mailbox := m\<rparr>" and ?q = "enter_lane (v, d) (q\<lparr>cq_mailbox := m\<rparr>)"
  have parts: "ok_maps q" "ok_requests q" "ok_waiting q" "ok_running q" "ok_mailbox 0 q" "ok_deadlines q"
    and life: "ok_life q h" and settled: "lane_settled q h" for h
    using inv by (auto simp: cq_inv_def cq_ok_def)
  have queue: "mb_queue (cq_mailbox q) = (v, d) # mb_queue m"
    using mailbox_recv_effect(2) [OF recv] by simp
  then have plain: "d = None" if "qd_terminal v" using ok_mailboxD(5) [OF parts(5), of v d] that by simp
  note frame = ok_owner_frame [of ?p q, simplified]
  have "cq_ok 0 ?q"
    unfolding cq_ok_def
  proof (intro conjI allI)
    show "ok_maps ?q" using parts(1) by (simp add: ok_maps_def)
    show "ok_requests ?q" by (rule ok_requests_enter [OF frame(1) [OF parts(2)]]) (use plain in simp)
    show "ok_waiting ?q" by (rule ok_waiting_enter [OF frame(2) [OF parts(3)] frame(1) [OF parts(2)]])
    show "ok_running ?q" by (rule ok_running_enter [OF frame(3) [OF parts(4)]])
    show "ok_mailbox 0 ?q" by (rule ok_mailbox_enter [OF parts(5,1,2) recv])
    show "ok_life ?q h" for h by (rule ok_life_enter [OF life parts(2-4) queue])
  qed
  moreover have "hm_get (cq_lanes ?q) (qd_generation v) = Some (the (hm_get (cq_lanes ?q) (qd_generation v)))" by simp
  moreover have "lane_settled ?q h" if "h \<noteq> qd_generation v" for h
    using settled [of h] that by (auto simp: lane_settled_def split: option.splits list.splits)
  moreover have "ok_deadlines ?q"
    by (rule ok_deadlines_enter [OF frame(7) [OF parts(6)] frame(1) [OF parts(2)]]) (use plain in simp)
  ultimately show ?thesis
    unfolding request_turn_def recv accept_def cq_inv_def by (simp add: start_ok)
qed


lemma request_turn_finished:
  assumes inv: "cq_inv q" and recv: "mailbox_recv (cq_mailbox q) = (Finished, m)"
  shows "cq_inv (q\<lparr>cq_mailbox := m, cq_open := False\<rparr>)" (is "cq_inv ?q")
proof -
  note frame = ok_owner_frame [of ?q q, simplified]
  note e = mailbox_recv_effect(1) [OF recv] mailbox_recv_effect(3) [OF recv, simplified]
  have same: "mb_working m = mb_working (cq_mailbox q)" using mailbox_recv_effect(4) [OF recv] by blast
  have parts: "ok_maps q" "ok_requests q" "ok_waiting q" "ok_running q" "ok_mailbox 0 q" "ok_deadlines q"
    and life: "ok_life q h" and settled: "lane_settled q h" for h
    using inv by (auto simp: cq_inv_def cq_ok_def)
  have "mailbox_inv m"
    using mailbox_inv_try_recv [OF ok_mailboxD(1) [OF parts(5)]] mailbox_recv_state [of "cq_mailbox q"] recv by simp
  then have "ok_mailbox 0 ?q"
    using ok_mailboxD(2-4) [OF parts(5)] e same unfolding ok_mailbox_def by simp
  moreover have "ok_life ?q h" for h
  proof (rule ok_life_dropped [OF life])
    have B: "backlog ?q h = backlog q h" unfolding backlog_def frame(6) using e by simp
    then show "subseq (backlog ?q h) (backlog q h)" by simp
    show "filter sig_terminal (backlog ?q h) = filter sig_terminal (backlog q h)" by (simp only: B)
    show "runs_terminal ?q h = runs_terminal q h" by (rule frame(5))
  qed simp_all
  moreover have "ok_maps ?q" using parts(1) by (simp add: ok_maps_def)
  ultimately show ?thesis using frame(1-4,7) parts settled by (simp add: cq_inv_def cq_ok_def)
qed

text \<open>A terminal effect that ends closes its lane; any other makes its lane idle again.\<close>

lemma ok_running_completed:
  assumes "ok_running q" and t: "hm_get (cq_running q) t = Some rn"
    and lanes: "\<And>h. h \<noteq> rn_generation rn \<Longrightarrow> hm_get ls h = hm_get (cq_lanes q) h"
    and mine: "\<And>l. hm_get ls (rn_generation rn) = Some l \<Longrightarrow> \<not> ln_running l"
  shows "ok_running (q\<lparr>cq_lanes := ls, cq_workers := removeAll t (cq_workers q),
           cq_running := hm_remove t (cq_running q)\<rparr>)" (is "ok_running ?q")
proof (rule ok_runningI)
  have alone: "rn_generation rn' \<noteq> rn_generation rn" if "hm_get (cq_running q) t' = Some rn'" "t' \<noteq> t" for t' rn'
    using ok_runningD(3) [OF assms(1) t, of t' rn'] that by metis
  fix h k assume k: "hm_get (cq_lanes ?q) h = Some k"
  show "ln_running k = (\<exists>t rn. hm_get (cq_running ?q) t = Some rn \<and> rn_generation rn = h)"
  proof (cases "h = rn_generation rn")
    case True
    with alone have "\<not> (\<exists>t rn. hm_get (cq_running ?q) t = Some rn \<and> rn_generation rn = h)"
      by (auto split: if_splits)
    with k True mine show ?thesis by simp
  next
    case False
    have "(\<exists>t' rn'. hm_get (cq_running ?q) t' = Some rn' \<and> rn_generation rn' = h)
        = (\<exists>t' rn'. hm_get (cq_running q) t' = Some rn' \<and> rn_generation rn' = h)"
    proof (intro iffI; elim exE conjE)
      fix t' rn' assume "hm_get (cq_running q) t' = Some rn'" "rn_generation rn' = h"
      with t False show "\<exists>t' rn'. hm_get (cq_running ?q) t' = Some rn' \<and> rn_generation rn' = h"
        by (intro exI [of _ t'] exI [of _ rn']) auto
    qed (auto split: if_splits)
    with k lanes [OF False] ok_runningD(1) [OF assms(1), of h k] show ?thesis by simp
  qed
next
  fix t' rn' assume "hm_get (cq_running ?q) t' = Some rn'"
  then have t': "hm_get (cq_running q) t' = Some rn'" "t' \<noteq> t" by (auto split: if_splits)
  then have "rn_generation rn' \<noteq> rn_generation rn" using ok_runningD(3) [OF assms(1) t t'(1)] by metis
  with ok_runningD(2) [OF assms(1) t'(1)] lanes
  show "hm_contains (cq_lanes ?q) (rn_generation rn') \<and> t' < cq_tasks ?q" by (simp add: hm_contains_def)
next
  fix t1 t2 r1 r2
  assume "hm_get (cq_running ?q) t1 = Some r1" "hm_get (cq_running ?q) t2 = Some r2" "rn_generation r1 = rn_generation r2"
  then show "t1 = t2" using ok_runningD(3) [OF assms(1), of t1 r1 t2 r2] by (auto split: if_splits)
next
  fix t' show "t' \<in> set (cq_workers ?q) \<longleftrightarrow> hm_contains (cq_running ?q) t'"
    using ok_runningD(4) [OF assms(1), of t'] by auto
qed

lemma runs_terminal_completed:
  assumes "ok_running q" and t: "hm_get (cq_running q) t = Some rn"
  shows "runs_terminal (q\<lparr>cq_lanes := ls, cq_workers := ws, cq_running := hm_remove t (cq_running q)\<rparr>) h
    \<longleftrightarrow> runs_terminal q h \<and> h \<noteq> rn_generation rn"
proof -
  have "rn_generation rn' \<noteq> rn_generation rn" if "hm_get (cq_running q) t' = Some rn'" "t' \<noteq> t" for t' rn'
    using ok_runningD(3) [OF assms, of t' rn'] that by metis
  with t show ?thesis unfolding runs_terminal_def by (auto split: if_splits) (metis option.sel)+
qed


lemma cq_ok_completed:
  assumes ok: "cq_ok 0 q" and t: "hm_get (cq_running q) t = Some rn" and wf: "hm_wf ls"
    and lanes: "\<And>h. h \<noteq> rn_generation rn \<Longrightarrow> hm_get ls h = hm_get (cq_lanes q) h"
    and mine: "case hm_get ls (rn_generation rn) of
        None \<Rightarrow> rn_terminal rn \<and> waiting_of q (rn_generation rn) = []
      | Some l \<Rightarrow> \<not> rn_terminal rn \<and> \<not> ln_running l \<and> ln_waiting l = waiting_of q (rn_generation rn)"
  shows "cq_ok 1 (q\<lparr>cq_lanes := ls, cq_workers := removeAll t (cq_workers q),
           cq_running := hm_remove t (cq_running q)\<rparr>)" (is "cq_ok 1 ?q")
proof -
  let ?g = "rn_generation rn"
  have parts: "ok_maps q" "ok_requests q" "ok_waiting q" "ok_running q" "ok_mailbox 0 q"
    and life: "ok_life q h" for h using ok by (auto simp: cq_ok_def)
  have R: "request_of ?q = request_of q" by (simp add: request_of_def fun_eq_iff split: option.split)
  have "waiting_of ?q h = waiting_of q h" for h
    using lanes [of h] mine by (cases "h = ?g") (auto simp: waiting_of_def split: option.splits)
  then have W: "waiting_of ?q = waiting_of q" by blast
  have B: "backlog ?q h = backlog q h" for h by (simp add: backlog_def R W)
  note rt = runs_terminal_completed [OF parts(4) t]
  show ?thesis
    unfolding cq_ok_def
  proof (intro conjI allI)
    show "ok_maps ?q" using parts(1) wf by (simp add: ok_maps_def)
    show "ok_requests ?q" using parts(2) by (simp add: ok_requests_def R)
    show "ok_waiting ?q" using parts(3) by (simp add: ok_waiting_def R W)
    show "ok_running ?q"
      by (rule ok_running_completed [OF parts(4) t lanes]) (use mine in auto)
    have "Suc (length (hm_remove t (cq_running q))) = length (cq_running q)"
      using hm_length_remove [of "cq_running q" t] parts(1) t by (simp add: hm_contains_def ok_maps_def)
    then show "ok_mailbox 1 ?q"
      using ok_mailboxD(1,2) [OF parts(5)] by (intro ok_mailbox_owner [OF parts(5)]) simp_all
    fix h
    have armed: "lease_armed ?q h = lease_armed q h" by (simp add: lease_armed_def)
    have lane: "hm_contains (cq_lanes q) ?g" using ok_runningD(2) [OF parts(4) t] by simp
    show "ok_life ?q h"
    proof (cases "h = ?g")
      case True
      have "runs_terminal q h \<longleftrightarrow> rn_terminal rn"
        using ok_runningD(3) [OF parts(4) t] t True unfolding runs_terminal_def by (metis option.sel)
      with life [of h] lane True mine show ?thesis
        unfolding ok_life_def B armed rt by (auto simp: hm_contains_def split: option.splits)
    next
      case False
      with life [of h] lanes [OF False] show ?thesis
        unfolding ok_life_def B armed rt by (simp add: hm_contains_def)
    qed
  qed
qed

lemma lanes_first:
  "q\<lparr>cq_workers := ws, cq_running := rs, cq_lanes := ls\<rparr> = q\<lparr>cq_lanes := ls, cq_workers := ws, cq_running := rs\<rparr>"
  by (cases q) simp

lemma completed_turn_ok:
  assumes inv: "cq_inv q" and ready: "task \<in> set (cq_workers q)"
  shows "\<exists>q'. completed_turn clock task q = Some q' \<and> cq_inv q'"
proof -
  have parts: "ok_maps q" "ok_requests q" "ok_waiting q" "ok_running q" "ok_deadlines q" "cq_ok 0 q"
    and life: "ok_life q h" and settled: "lane_settled q h" for h
    using inv by (auto simp: cq_inv_def cq_ok_def)
  from ready ok_runningD(4) [OF parts(4)] obtain rn where rn: "hm_get (cq_running q) task = Some rn"
    by (auto simp: hm_contains_def)
  let ?g = "rn_generation rn"
  from ok_runningD(2) [OF parts(4) rn] obtain l where l: "hm_get (cq_lanes q) ?g = Some l"
    by (auto simp: hm_contains_def)
  define fin where "fin ls = q\<lparr>cq_lanes := ls, cq_workers := removeAll task (cq_workers q),
    cq_running := hm_remove task (cq_running q)\<rparr>" for ls
  have wfl: "hm_wf (cq_lanes q)" using parts(1) by (simp add: ok_maps_def)
  have dl: "ok_deadlines (fin ls)" for ls
    using parts(5) by (rule ok_deadlines_shrink) (simp_all add: fin_def request_of_def cong: option.case_cong)
  have st: "lane_settled (fin ls) h" if "hm_get ls h = hm_get (cq_lanes q) h" for ls h
    using settled [of h] that by (simp add: lane_settled_def fin_def split: option.splits list.splits)
  show ?thesis
  proof (cases "rn_terminal rn")
    case True
    let ?ls = "hm_remove ?g (cq_lanes q)"
    have "runs_terminal q ?g" using True rn by (auto simp: runs_terminal_def)
    with life [of ?g] have "filter sig_terminal (started_of q ?g) \<noteq> []" unfolding ok_life_def by blast
    from terminal_last [OF life this] have none: "List.map_filter (request_of q) (waiting_of q ?g) = []"
      by (simp add: backlog_def)
    have "waiting_of q ?g = []"
    proof (cases "waiting_of q ?g")
      case (Cons i js)
      then have "request_of q i \<noteq> None" using parts(3) unfolding ok_waiting_def
        by (metis list.set_intros(1) option.distinct(1) option.simps(8))
      with none Cons show ?thesis by (auto simp: map_filter_simps)
    qed
    then have "cq_ok 1 (fin ?ls)"
      unfolding fin_def using True wfl by (intro cq_ok_completed [OF parts(6) rn]) auto
    moreover have "lane_settled (fin ?ls) h" for h
      using st [of ?ls h] by (cases "h = ?g") (simp_all add: lane_settled_def fin_def)
    ultimately have "cq_inv (release_permit (fin ?ls))" using dl by (rule cq_inv_release)
    moreover have "completed_turn clock task q = Some (release_permit (fin ?ls))"
      by (simp add: completed_turn_def rn True Let_def fin_def lanes_first)
    ultimately show ?thesis by blast
  next
    case False
    let ?ls = "hm_insert ?g (l\<lparr>ln_running := False\<rparr>) (cq_lanes q)"
    have "cq_ok 1 (fin ?ls)"
      unfolding fin_def using False wfl l
      by (intro cq_ok_completed [OF parts(6) rn]) (auto simp: waiting_of_def)
    from start_ok [OF this, of ?g "l\<lparr>ln_running := False\<rparr>" clock] st [of ?ls] dl
    obtain q' where q': "start clock ?g (fin ?ls) = Some q'" "cq_ok 1 q'" "\<forall>h. lane_settled q' h" "ok_deadlines q'"
      by (auto simp: fin_def)
    have "completed_turn clock task q = Some (release_permit q')"
      using q'(1) by (simp add: completed_turn_def rn False Let_def fin_def l set_lane_def lanes_first)
    with cq_inv_release [OF q'(2) _ q'(4)] q'(3) show ?thesis by blast
  qed
qed


text \<open>A prepared teardown becomes a pending request of its lane.\<close>

lemma ok_requests_prepared:
  assumes req: "ok_requests q" and v: "hm_get (cq_preparations q) i = Some v"
  shows "ok_requests (q\<lparr>cq_preparations := hm_remove i (cq_preparations q),
    cq_preparing := hm_remove i (cq_preparing q),
    cq_pending := hm_insert i (v\<lparr>qd_command := command\<rparr>, None) (cq_pending q)\<rparr>)" (is "ok_requests ?q")
  unfolding ok_requests_def
proof (intro conjI allI impI)
  have D: "hm_get (cq_preparing q) j = map_option qd_generation (hm_get (cq_preparations q) j)"
    "hm_get (cq_preparations q) j = Some w \<Longrightarrow> hm_get (cq_pending q) j = None \<and> qd_terminal w"
    "hm_get (cq_pending q) j = Some (w, d) \<Longrightarrow> qd_terminal w \<Longrightarrow> d = None"
    "request_of q j \<noteq> None \<Longrightarrow> j < cq_arcs q" for j w d
    using req unfolding ok_requests_def by blast+
  fix j
  show "hm_get (cq_preparing ?q) j = map_option qd_generation (hm_get (cq_preparations ?q) j)"
    using D(1) [of j] by simp
  show "hm_get (cq_pending ?q) j = None" "qd_terminal w" if "hm_get (cq_preparations ?q) j = Some w" for w
    using that D(2) [of j w] by (auto split: if_splits)
  show "d = None" if "hm_get (cq_pending ?q) j = Some (w, d)" "qd_terminal w" for w d
    using that D(3) [of j w d] by (auto split: if_splits)
  have "request_of q i \<noteq> None" using v D(2) [OF v] by (simp add: request_of_def)
  moreover have "request_of ?q j \<noteq> None \<Longrightarrow> j = i \<or> request_of q j \<noteq> None"
    by (auto simp: request_of_def split: option.splits if_splits)
  ultimately show "j < cq_arcs ?q" if "request_of ?q j \<noteq> None" using that D(4) [of j] D(4) [of i] by auto
qed

lemma prepared_turn_ok:
  assumes inv: "cq_inv q" and ready: "hm_contains (cq_preparations q) i"
  shows "\<exists>q'. prepared_turn clock i command q = Some q' \<and> cq_inv q'"
proof -
  have parts: "ok_maps q" "ok_requests q" "ok_waiting q" "ok_running q" "ok_mailbox 0 q" "ok_deadlines q"
    and life: "ok_life q h" and settled: "lane_settled q h" for h
    using inv by (auto simp: cq_inv_def cq_ok_def)
  obtain v where v: "hm_get (cq_preparations q) i = Some v" using ready by (auto simp: hm_contains_def)
  have pend: "hm_get (cq_pending q) i = None" "qd_terminal v"
    and prep: "hm_get (cq_preparing q) i = Some (qd_generation v)"
    using parts(2) v unfolding ok_requests_def by (blast, blast, simp)
  let ?q = "q\<lparr>cq_preparations := hm_remove i (cq_preparations q), cq_preparing := hm_remove i (cq_preparing q),
    cq_pending := hm_insert i (v\<lparr>qd_command := command\<rparr>, None) (cq_pending q)\<rparr>"
  have R: "request_of ?q j = (if j = i then Some (v\<lparr>qd_command := command\<rparr>) else request_of q j)" for j
    by (simp add: request_of_def split: option.split)
  have Ri: "request_of q i = Some v" using pend v by (simp add: request_of_def)
  have W: "waiting_of ?q = waiting_of q" by (simp add: waiting_of_def fun_eq_iff)
  have "i \<in> set (waiting_of q (qd_generation v))" using parts(3) Ri by (simp add: ok_waiting_def)
  then obtain l where l: "hm_get (cq_lanes q) (qd_generation v) = Some l"
    by (cases "hm_get (cq_lanes q) (qd_generation v)") (simp_all add: waiting_of_def)
  have "map queued_sig (List.map_filter (request_of ?q) js) = map queued_sig (List.map_filter (request_of q) js)" for js
    using pend(2) by (induction js) (auto simp: map_filter_simps R Ri queued_sig_def split: option.split)
  then have B: "backlog ?q h = backlog q h" for h by (simp add: backlog_def W)
  have "cq_ok 0 ?q"
    unfolding cq_ok_def
  proof (intro conjI allI)
    show "ok_maps ?q" using parts(1) by (simp add: ok_maps_def)
    show "ok_requests ?q" by (rule ok_requests_prepared [OF parts(2) v])
    show "ok_waiting ?q" using parts(3) Ri by (auto simp: ok_waiting_def W R)
    show "ok_running ?q" using parts(4) by (simp add: ok_running_def)
    have "Suc (length (hm_remove i (cq_preparations q))) = length (cq_preparations q)"
      using hm_length_remove [of "cq_preparations q" i] parts(1) v by (simp add: hm_contains_def ok_maps_def)
    then show "ok_mailbox 0 ?q"
      using ok_mailboxD(1,2) [OF parts(5)] pend(1)
      by (intro ok_mailbox_owner [OF parts(5)]) (simp_all add: hm_length_insert hm_contains_def)
    show "ok_life ?q h" for h
      using life [of h] unfolding ok_life_def B by (simp add: lease_armed_def runs_terminal_def)
  qed
  moreover have "hm_get (cq_lanes ?q) (qd_generation v) = Some l" using l by simp
  moreover have "lane_settled ?q h" if "h \<noteq> qd_generation v" for h
  proof -
    have "i \<notin> set (waiting_of q h)" using parts(3) Ri that by (simp add: ok_waiting_def)
    with settled [of h] show ?thesis
      by (auto simp: lane_settled_def waiting_of_def split: option.splits list.splits)
  qed
  moreover have "ok_deadlines ?q"
    using parts(6) by (rule ok_deadlines_shrink) (auto simp: R Ri split: if_splits)
  ultimately show ?thesis
    using start_ok [of 0 ?q "qd_generation v" l clock]
    unfolding prepared_turn_def cq_inv_def by (simp add: v Let_def prep)
qed

text \<open>Every turn that is ready has a result, which satisfies the invariant again.\<close>

lemma run_turn_ok:
  assumes inv: "cq_inv q" and ready: "turn_ready q t"
  shows "\<exists>q'. run_turn t q = Some q' \<and> cq_inv q'"
proof (cases t)
  case (Deadline now)
  have "ok_deadlines (q\<lparr>cq_deadlines := cq_deadlines q\<rparr>)" using inv by (simp add: cq_inv_def)
  with inv obtain q' where "expire_loop now (cq_deadlines q) q = Some q'" "cq_ok 0 q'" "\<forall>h. lane_settled q' h"
    "ok_deadlines q'" using expire_loop_ok [of 0 q "cq_deadlines q"] unfolding cq_inv_def by blast
  with Deadline show ?thesis by (simp add: expire_def cq_inv_def)
next
  case (Completed task clock)
  with completed_turn_ok [OF inv] ready show ?thesis by simp
next
  case (Prepared i command clock)
  with prepared_turn_ok [OF inv] ready show ?thesis by simp
next
  case (Request clock)
  with ready have waiting: "fst (mailbox_recv (cq_mailbox q)) \<noteq> Waiting" by simp
  obtain x m where recv: "mailbox_recv (cq_mailbox q) = (x, m)" by fastforce
  show ?thesis
  proof (cases x)
    case (Message v d)
    with request_turn_ok [OF inv, of v d m clock] recv Request show ?thesis by simp
  next
    case Finished
    with request_turn_finished [OF inv] recv Request show ?thesis by (simp add: request_turn_def)
  next
    case Waiting
    with waiting recv show ?thesis by simp
  qed
qed

lemma cq_inv_step: "cq_step q q' \<Longrightarrow> cq_inv q \<Longrightarrow> cq_inv q'"
proof (induction rule: cq_step.induct)
  case (turn q t q')
  with run_turn_ok [of q t] show ?case by auto
qed (auto intro: cq_inv_admit cq_inv_close cq_inv_try_send cq_inv_retire cq_inv_drop)

lemma cq_inv_reachable: "cq_reachable capacity q \<Longrightarrow> cq_inv q"
  by (induction rule: cq_reachable.induct) (auto intro: cq_inv_new cq_inv_step)


section \<open>Draining\<close>

text \<open>What the owner still has to do: every turn makes it less, however the turns are chosen.\<close>

definition queue_work :: "('k, 'c) call_queue \<Rightarrow> nat" where
  "queue_work q = 6 * length (mb_queue (cq_mailbox q)) + 4 * length (cq_preparations q)
     + (2 * length (cq_pending q) + length (cq_running q) + length (cq_deadlines q)) + (if cq_open q then 1 else 0)"

lemma spawn_effect_work:
  "length (cq_running (spawn_effect g v q)) \<le> Suc (length (cq_running q))"
  by (simp add: spawn_effect_def Let_def hm_length_insert)

lemma take_pending_work:
  assumes "hm_wf (cq_pending q)" and "hm_get (cq_pending q) i = Some r"
  shows "Suc (length (cq_pending (take_pending i r q))) = length (cq_pending q)"
    and "length (cq_deadlines (take_pending i r q)) \<le> length (cq_deadlines q)"
    and "hm_wf (cq_pending (take_pending i r q))" and "cq_running (take_pending i r q) = cq_running q"
  using hm_length_remove [OF assms(1), of i] assms
  by (auto simp: take_pending_def hm_contains_def length_removeAll_less_eq split: option.split)

lemma start_loop_work:
  assumes "hm_wf (cq_pending q)"
  shows "2 * length (cq_pending (start_loop clock g lane ids q)) + length (cq_running (start_loop clock g lane ids q))
      + length (cq_deadlines (start_loop clock g lane ids q))
    \<le> 2 * length (cq_pending q) + length (cq_running q) + length (cq_deadlines q)"
  using assms
proof (induction ids arbitrary: q)
  case (Cons i ids)
  show ?case
  proof (cases "hm_contains (cq_preparing q) i \<or> hm_get (cq_pending q) i = None")
    case True
    with Cons show ?thesis by (auto simp: hm_contains_def)
  next
    case False
    then obtain r where r: "hm_get (cq_pending q) i = Some r" by blast
    note tk = take_pending_work [OF Cons.prems r]
    show ?thesis
    proof (cases "deadline_passed (clock i) (snd r)")
      case True
      with Cons.IH [of "discard_expired (take_pending i r q)"] False r tk show ?thesis by (simp add: Let_def)
    next
      case fresh: False
      with spawn_effect_work [of g "fst r" "set_lane g (lane\<lparr>ln_waiting := ids, ln_running := True\<rparr>) (take_pending i r q)"]
        False r tk show ?thesis by (simp add: Let_def)
    qed
  qed
qed simp

lemma start_loop_mailbox:
  "mb_queue (cq_mailbox (start_loop clock g lane ids q)) = mb_queue (cq_mailbox q)
   \<and> cq_open (start_loop clock g lane ids q) = cq_open q"
proof (induction ids arbitrary: q)
  case (Cons i ids)
  have "mb_queue (cq_mailbox (take_pending i r q)) = mb_queue (cq_mailbox q)" "cq_open (take_pending i r q) = cq_open q" for r
    by (simp_all add: take_pending_def)
  with Cons show ?case by (simp add: Let_def split: option.split)
qed simp

lemma start_work:
  assumes "start clock g q = Some q'" and "hm_wf (cq_pending q)"
  shows "queue_work q' \<le> queue_work q"
proof -
  obtain l where l: "hm_get (cq_lanes q) g = Some l" using assms(1) by (auto simp: start_def split: option.splits)
  with assms start_loop_work [OF assms(2), of clock g l "ln_waiting l"] start_loop_mailbox [of clock g l "ln_waiting l" q]
    start_loop_requests [of clock g l "ln_waiting l" q]
  show ?thesis by (auto simp: start_def queue_work_def split: if_splits)
qed

lemma expire_loop_work:
  assumes "expire_loop now ds q = Some q'" and "hm_wf (cq_pending q)"
  shows "queue_work q' \<le> queue_work (q\<lparr>cq_deadlines := ds\<rparr>)"
  using assms
proof (induction ds arbitrary: q)
  case Nil
  then show ?case by (auto simp: queue_work_def)
next
  case (Cons p ds)
  obtain d i where p: "p = (d, i)" by fastforce
  show ?case
  proof (cases "now < d \<or> hm_get (cq_pending q) i = None")
    case True
    with Cons p show ?thesis by (cases "now < d") (force simp: queue_work_def)+
  next
    case False
    then obtain r where r: "hm_get (cq_pending q) i = Some r" by blast
    with False Cons.prems p obtain l where l: "hm_get (cq_lanes q) (qd_generation (fst r)) = Some l"
      by (auto split: option.splits)
    let ?q = "discard_expired (set_lane (qd_generation (fst r)) (l\<lparr>ln_waiting := filter (\<lambda>j. j \<noteq> i) (ln_waiting l)\<rparr>)
      (q\<lparr>cq_pending := hm_remove i (cq_pending q)\<rparr>))"
    have "queue_work q' \<le> queue_work (?q\<lparr>cq_deadlines := ds\<rparr>)"
      using Cons.IH [of ?q] Cons.prems False r l p by simp
    moreover have "Suc (length (hm_remove i (cq_pending q))) = length (cq_pending q)"
      using hm_length_remove [OF Cons.prems(2), of i] r by (simp add: hm_contains_def)
    ultimately show ?thesis by (simp add: queue_work_def)
  qed
qed


lemma expire_work:
  assumes inv: "cq_inv q" and ready: "turn_ready q (Deadline now)" and run: "expire now q = Some q'"
  shows "queue_work q' < queue_work q"
proof -
  have wf: "hm_wf (cq_pending q)" using inv by (simp add: cq_inv_def cq_ok_def ok_maps_def)
  obtain d i ds where dl: "cq_deadlines q = (d, i) # ds" "d \<le> now"
    using ready by (auto split: list.splits)
  have loop: "expire_loop now ((d, i) # ds) q = Some q'" using run dl by (simp add: expire_def)
  show ?thesis
  proof (cases "hm_get (cq_pending q) i")
    case None
    with loop dl(2) have "expire_loop now ds q = Some q'" by simp
    from expire_loop_work [OF this wf] show ?thesis by (simp add: queue_work_def dl(1))
  next
    case (Some r)
    with loop dl(2) obtain l where
      "expire_loop now ds (discard_expired (set_lane (qd_generation (fst r))
         (l\<lparr>ln_waiting := filter (\<lambda>j. j \<noteq> i) (ln_waiting l)\<rparr>) (q\<lparr>cq_pending := hm_remove i (cq_pending q)\<rparr>))) = Some q'"
      by (auto split: option.splits)
    from expire_loop_work [OF this] wf hm_length_remove [OF wf, of i] Some
    show ?thesis by (simp add: queue_work_def dl(1) hm_contains_def)
  qed
qed

lemma completed_turn_work:
  assumes inv: "cq_inv q" and run: "completed_turn clock task q = Some q'"
  shows "queue_work q' < queue_work q"
proof -
  let ?q = "q\<lparr>cq_workers := removeAll task (cq_workers q), cq_running := hm_remove task (cq_running q)\<rparr>"
  obtain rn where rn: "hm_get (cq_running q) task = Some rn"
    using run by (auto simp: completed_turn_def split: option.splits)
  have maps: "hm_wf (cq_pending q)" "hm_wf (cq_running q)" using inv by (simp_all add: cq_inv_def cq_ok_def ok_maps_def)
  have less: "queue_work ?q < queue_work q"
    using hm_length_remove [OF maps(2), of task] rn by (simp add: queue_work_def hm_contains_def)
  have rel: "queue_work (release_permit p) = queue_work p" for p :: "('a, 'b) call_queue"
    by (simp add: queue_work_def release_permit_def permit_drop_effect)
  show ?thesis
  proof (cases "rn_terminal rn")
    case True
    with run rn have "q' = release_permit (?q\<lparr>cq_lanes := hm_remove (rn_generation rn) (cq_lanes q)\<rparr>)"
      by (simp add: completed_turn_def Let_def)
    then show ?thesis using less by (simp add: rel) (simp add: queue_work_def)
  next
    case False
    with run rn obtain l p where p: "q' = release_permit p"
      "start clock (rn_generation rn) (set_lane (rn_generation rn) (l\<lparr>ln_running := False\<rparr>) ?q) = Some p"
      by (auto simp: completed_turn_def Let_def split: option.splits)
    from start_work [OF p(2)] maps(1) less show ?thesis by (simp add: p(1) rel) (simp add: queue_work_def)
  qed
qed

lemma prepared_turn_work:
  assumes inv: "cq_inv q" and run: "prepared_turn clock i command q = Some q'"
  shows "queue_work q' < queue_work q"
proof -
  have maps: "hm_wf (cq_pending q)" "hm_wf (cq_preparations q)"
    using inv by (simp_all add: cq_inv_def cq_ok_def ok_maps_def)
  from run obtain v g where v: "hm_get (cq_preparations q) i = Some v"
    "start clock g (q\<lparr>cq_preparations := hm_remove i (cq_preparations q), cq_preparing := hm_remove i (cq_preparing q),
       cq_pending := hm_insert i (v\<lparr>qd_command := command\<rparr>, None) (cq_pending q)\<rparr>) = Some q'"
    by (auto simp: prepared_turn_def Let_def split: option.splits)
  from start_work [OF v(2)] maps hm_length_remove [OF maps(2), of i] v(1)
  show ?thesis by (simp add: queue_work_def hm_contains_def hm_length_insert split: if_splits)
qed

lemma request_turn_work:
  assumes inv: "cq_inv q" and ready: "turn_ready q (Request clock)" and run: "request_turn clock q = Some q'"
  shows "queue_work q' < queue_work q"
proof -
  obtain x m where recv: "mailbox_recv (cq_mailbox q) = (x, m)" by fastforce
  show ?thesis
  proof (cases x)
    case (Message v d)
    have wf: "hm_wf (cq_pending (enter_lane (v, d) (q\<lparr>cq_mailbox := m\<rparr>)))"
      using inv by (simp add: cq_inv_def cq_ok_def ok_maps_def)
    have "start clock (qd_generation v) (enter_lane (v, d) (q\<lparr>cq_mailbox := m\<rparr>)) = Some q'"
      using run recv Message by (simp add: request_turn_def accept_def)
    from start_work [OF this wf] mailbox_recv_effect(2) [OF recv Message]
    show ?thesis
      by (auto simp: queue_work_def hm_length_insert bt_insert_def split: if_splits option.splits)
  next
    case Finished
    then have "q' = q\<lparr>cq_mailbox := m, cq_open := False\<rparr>" "cq_open q"
      using run ready recv by (auto simp: request_turn_def)
    with mailbox_recv_effect(3) [OF recv Finished] show ?thesis by (simp add: queue_work_def)
  next
    case Waiting
    with ready recv show ?thesis by simp
  qed
qed

lemma run_turn_work:
  assumes "cq_inv q" and "turn_ready q t" and "run_turn t q = Some q'"
  shows "queue_work q' < queue_work q"
  using assms by (cases t) (auto intro: expire_work completed_turn_work prepared_turn_work request_turn_work)

text \<open>When the mailbox is closed and no lease is armed, the owner has a turn until it is finished.\<close>

lemma closed_queue_ready:
  assumes inv: "cq_inv q" and closed: "is_closed (cq_mailbox q)" and "\<forall>g. \<not> lease_armed q g" and "queue_active q"
  shows "\<exists>t. turn_ready q t"
proof -
  have parts: "ok_maps q" "ok_mailbox 0 q" using inv by (simp_all add: cq_inv_def cq_ok_def)
  have "filter (\<lambda>p. armed (snd p)) (cq_leases q) = []"
  proof (rule ccontr)
    assume "filter (\<lambda>p. armed (snd p)) (cq_leases q) \<noteq> []"
    then obtain g l where "(g, l) \<in> set (cq_leases q)" "armed l" by (auto simp: filter_empty_conv)
    moreover have "hm_get (cq_leases q) g = Some l"
      using parts(1) calculation(1) by (simp add: ok_maps_def hm_wf_def)
    ultimately show False using spec [OF assms(3), of g] by (simp add: lease_armed_def)
  qed
  then have "mb_reserved (cq_mailbox q) = 0" using ok_mailboxD(3) [OF parts(2)] by simp
  with closed have "fst (mailbox_recv (cq_mailbox q)) \<noteq> Waiting"
    by (auto simp: is_closed_def mailbox_recv_def try_recv_def Let_def split: list.split)
  then have "cq_open q \<Longrightarrow> turn_ready q (Request (\<lambda>_. 0))" by simp
  moreover have "turn_ready q (Completed t (\<lambda>_. 0))" if "cq_workers q = t # ts" for t ts using that by simp
  moreover have "turn_ready q (Prepared i c (\<lambda>_. 0))" if "cq_preparations q = (i, v) # ps" for i c v ps
    using that by (simp add: hm_contains_def)
  ultimately show ?thesis
    using assms(4) unfolding queue_active_def by (metis list.exhaust prod.exhaust)
qed


text \<open>At the end nothing is left, and every call that was admitted has been torn down.\<close>

lemma hm_empty:
  assumes "\<And>k. hm_get m k = None"
  shows "m = []"
proof (cases m)
  case (Cons p ps)
  with assms [of "fst p"] show ?thesis by simp
qed simp

lemma ended_lanes:
  assumes inv: "cq_inv q" and ended: "\<not> queue_active q"
  shows "cq_running q = []" "cq_pending q = []" "waiting_of q g = []"
proof -
  have parts: "ok_requests q" "ok_waiting q" "ok_running q" and settled: "lane_settled q h" for h
    using inv by (auto simp: cq_inv_def cq_ok_def)
  have none: "cq_workers q = []" "cq_preparations q = []" using ended by (simp_all add: queue_active_def)
  then show run: "cq_running q = []"
    using ok_runningD(4) [OF parts(3)] by (intro hm_empty) (simp add: hm_contains_def)
  have prep: "\<not> hm_contains (cq_preparing q) i" for i
    using parts(1) none(2) by (simp add: ok_requests_def hm_contains_def)
  show "waiting_of q g = []" for g
  proof (cases "hm_get (cq_lanes q) g")
    case (Some l)
    with ok_runningD(1) [OF parts(3) Some] run settled [of g] prep show ?thesis
      by (auto simp: lane_settled_def waiting_of_def split: list.splits)
  qed (simp add: waiting_of_def)
  then have "request_of q i = None" for i
    using parts(2) unfolding ok_waiting_def by (metis list.set(1) empty_iff map_option_is_None option.exhaust)
  then have "hm_get (cq_pending q) i = None" for i
    by (cases "hm_get (cq_pending q) i") (simp, metis option.distinct(1) option.simps(5) request_of_def)
  then show "cq_pending q = []" by (rule hm_empty)
qed

lemma ended_teardowns:
  assumes inv: "cq_inv q" and ended: "\<not> queue_active q" and used: "sent_of q g \<noteq> []"
  shows "length (filter sig_terminal (started_of q g)) = 1" and "sig_terminal (last (started_of q g))"
    and "\<not> hm_contains (cq_lanes q) g"
proof -
  have mb: "ok_mailbox 0 q" and life: "ok_life q g" and maps: "ok_maps q"
    using inv by (simp_all add: cq_inv_def cq_ok_def)
  have closed: "mb_queue (cq_mailbox q) = []" "mb_reserved (cq_mailbox q) = 0"
    using ok_mailboxD(6) [OF mb] ended by (simp_all add: queue_active_def)
  then have empty: "backlog q g = []"
    by (simp add: backlog_def ended_lanes(3) [OF inv ended] map_filter_simps)
  have "\<not> lease_armed q g"
  proof
    assume "lease_armed q g"
    then obtain l where "hm_get (cq_leases q) g = Some l" "armed l" by (auto simp: lease_armed_def split: option.splits)
    then have "(g, l) \<in> set (filter (\<lambda>p. armed (snd p)) (cq_leases q))" by (auto dest: map_of_SomeD)
    with ok_mailboxD(3) [OF mb] closed(2) show False by (metis length_0_conv list.set(1) empty_iff)
  qed
  with life used have last: "sig_terminal (last (sent_of q g))"
    and init: "\<forall>s \<in> set (butlast (sent_of q g)). \<not> sig_terminal s" by (simp_all add: ok_life_def)
  have split: "sent_of q g = butlast (sent_of q g) @ [last (sent_of q g)]" using used by simp
  have "filter sig_terminal (sent_of q g) = [last (sent_of q g)]"
    by (subst split, subst filter_append) (use init last in simp)
  then have one: "filter sig_terminal (started_of q g) = [last (sent_of q g)]"
    using life empty unfolding ok_life_def by simp
  then show "length (filter sig_terminal (started_of q g)) = 1" by simp
  have sub: "subseq (started_of q g) (sent_of q g)" using life empty by (simp add: ok_life_def)
  have ne: "started_of q g \<noteq> []" using one by auto
  show "sig_terminal (last (started_of q g))"
  proof (rule ccontr)
    assume "\<not> sig_terminal (last (started_of q g))"
    moreover have "filter sig_terminal (butlast (started_of q g) @ [last (started_of q g)]) = [last (sent_of q g)]"
      using one ne by simp
    ultimately have "filter sig_terminal (butlast (started_of q g)) = [last (sent_of q g)]"
      by (auto split: if_splits)
    then have "last (sent_of q g) \<in> set (butlast (started_of q g))"
      by (metis filter_is_subset list.set_intros(1) subsetD)
    moreover have "set (butlast (started_of q g)) \<subseteq> set (butlast (sent_of q g))"
      using subseq_init [of "butlast (started_of q g)" "[last (started_of q g)]" "sent_of q g"] sub ne by simp
    ultimately show False using init last by blast
  qed
  show "\<not> hm_contains (cq_lanes q) g"
    using life one ended_lanes(1) [OF inv ended] by (auto simp: ok_life_def runs_terminal_def)
qed


section \<open>Properties\<close>

text \<open>
  C39. Calls are served in order, one effect at a time. Whatever clients and runtime do, the effects
  started for a call, followed by what still waits for it, form a subsequence of
  what was sent for it, in the order of sending, and all of it that may not expire; a
  teardown is sent only last. No two effects of a call run at once, a call that runs
  nothing has nothing to run, and no turn of the owner fails.
\<close>

theorem call_queue_in_order:
  assumes "cq_reachable capacity q"
  shows "subseq (started_of q g @ backlog q g) (sent_of q g)
    \<and> filter sig_terminal (started_of q g @ backlog q g) = filter sig_terminal (sent_of q g)
    \<and> (\<forall>s \<in> set (butlast (sent_of q g)). \<not> sig_terminal s)
    \<and> (\<forall>t t' rn rn'. hm_get (cq_running q) t = Some rn \<longrightarrow> hm_get (cq_running q) t' = Some rn' \<longrightarrow>
         rn_generation rn = rn_generation rn' \<longrightarrow> t = t')
    \<and> lane_settled q g
    \<and> (turn_ready q tn \<longrightarrow> (\<exists>q'. run_turn tn q = Some q'))"
proof -
  note inv = cq_inv_reachable [OF assms]
  then have "ok_life q g" "ok_running q" "lane_settled q g" by (simp_all add: cq_inv_def cq_ok_def)
  moreover have "turn_ready q tn \<longrightarrow> (\<exists>q'. run_turn tn q = Some q')" using run_turn_ok [OF inv] by blast
  ultimately show ?thesis unfolding ok_life_def ok_running_def by blast
qed

text \<open>
  C40. The queue shuts down completely: once the mailbox is closed and every lease is
  retired or dropped, the owner always has a turn to take, each turn leaves less to do,
  and when the loop ends no request, lane or permit is left and every call for which
  anything was sent has been torn down exactly once, as its last effect.
\<close>

theorem call_queue_drains:
  assumes "cq_reachable capacity q"
  shows "(is_closed (cq_mailbox q) \<and> (\<forall>g. \<not> lease_armed q g) \<and> queue_active q \<longrightarrow> (\<exists>t. turn_ready q t))
    \<and> (turn_ready q tn \<and> run_turn tn q = Some q' \<longrightarrow> queue_work q' < queue_work q)
    \<and> (\<not> queue_active q \<longrightarrow>
         cq_pending q = [] \<and> cq_lanes q = [] \<and> qs_outstanding (mailbox_snapshot (cq_mailbox q)) = 0
         \<and> (sent_of q g \<noteq> [] \<longrightarrow> length (filter sig_terminal (started_of q g)) = 1
              \<and> sig_terminal (last (started_of q g))))"
proof -
  note inv = cq_inv_reachable [OF assms]
  have mb: "ok_mailbox 0 q" and life: "ok_life q h" for h using inv by (simp_all add: cq_inv_def cq_ok_def)
  have "cq_lanes q = [] \<and> qs_outstanding (mailbox_snapshot (cq_mailbox q)) = 0" if ended: "\<not> queue_active q"
  proof
    show "cq_lanes q = []"
    proof (rule hm_empty)
      fix h show "hm_get (cq_lanes q) h = None"
        using life [of h] ended_teardowns(3) [OF inv ended, of h] by (auto simp: ok_life_def hm_contains_def)
    qed
    show "qs_outstanding (mailbox_snapshot (cq_mailbox q)) = 0"
      using ok_mailboxD(1,2) [OF mb] ok_mailboxD(6) [OF mb] ended ended_lanes(1,2) [OF inv ended]
      by (simp add: mailbox_inv_def mailbox_snapshot_def queue_active_def)
  qed
  then show ?thesis
    using closed_queue_ready [OF inv] run_turn_work [OF inv] ended_lanes(2) [OF inv] ended_teardowns(1,2) [OF inv] by blast
qed


section \<open>Witnesses\<close>

text \<open>A history as a list of actions, for concrete runs.\<close>

datatype ('k, 'c) cq_action =
    AdmitCall 'k 'c
  | CloseHandle
  | SendCommand lane_generation instant 'c "instant option"
  | RetireCall lane_generation instant 'c
  | DropLease lane_generation instant
  | Turn "'c queue_turn"

fun cq_act :: "('k, 'c) cq_action \<Rightarrow> ('k, 'c) call_queue \<Rightarrow> ('k, 'c) call_queue option" where
  "cq_act (AdmitCall key c) q = Some (snd (admit key c q))"
| "cq_act CloseHandle q = Some (handle_close q)"
| "cq_act (SendCommand g now c d) q =
     map_option (\<lambda>l. snd (lease_try_send now c d l q)) (hm_get (cq_leases q) g)"
| "cq_act (RetireCall g now c) q = map_option (\<lambda>l. retire now c l q) (hm_get (cq_leases q) g)"
| "cq_act (DropLease g now) q = map_option (\<lambda>l. lease_drop now l q) (hm_get (cq_leases q) g)"
| "cq_act (Turn t) q = (if queue_active q \<and> turn_ready q t then run_turn t q else None)"

fun cq_exec :: "('k, 'c) cq_action list \<Rightarrow> ('k, 'c) call_queue \<Rightarrow> ('k, 'c) call_queue option" where
  "cq_exec [] q = Some q"
| "cq_exec (a # as) q = (case cq_act a q of None \<Rightarrow> None | Some q' \<Rightarrow> cq_exec as q')"

lemma cq_act_step: "cq_act a q = Some q' \<Longrightarrow> cq_step q q'"
  by (cases a) (auto intro: cq_step.intros split: if_splits)

lemma cq_exec_reachable: "cq_exec as q = Some q' \<Longrightarrow> cq_reachable n q \<Longrightarrow> cq_reachable n q'"
  by (induction as arbitrary: q) (auto split: option.splits dest: cq_act_step intro: cq_reachable.step)

definition sample_queue :: "(nat, nat) call_queue" where
  "sample_queue = the (call_queue_new 3)"

definition sample_history :: "(nat, nat) cq_action list" where
  "sample_history =
     [AdmitCall 1 9, SendCommand 0 0 5 None, SendCommand 0 0 6 (Some 4), Turn (Request (\<lambda>_. 0)), RetireCall 0 0 8,
      CloseHandle, Turn (Request (\<lambda>_. 0)), Turn (Request (\<lambda>_. 0)), Turn (Deadline 4),
      Turn (Completed 0 (\<lambda>_. 5)), Turn (Prepared 3 8 (\<lambda>_. 6))]"

definition sample_state :: "(nat, nat) call_queue" where
  "sample_state = the (cq_exec sample_history sample_queue)"

definition sample_end :: "(nat, nat) call_queue" where
  "sample_end = the (cq_exec [Turn (Completed 1 (\<lambda>_. 7)), Turn (Request (\<lambda>_. 8))] sample_state)"

lemma sample_state_reachable: "cq_reachable 3 sample_state"
proof -
  have "cq_exec sample_history sample_queue = Some sample_state" by code_simp
  moreover have "call_queue_new 3 = Some sample_queue" by code_simp
  ultimately show ?thesis by (blast intro: cq_exec_reachable cq_reachable.init)
qed

lemma sample_end_reachable: "cq_reachable 3 sample_end"
proof -
  have "cq_exec [Turn (Completed 1 (\<lambda>_. 7)), Turn (Request (\<lambda>_. 8))] sample_state = Some sample_end" by code_simp
  then show ?thesis by (rule cq_exec_reachable [OF _ sample_state_reachable])
qed

theorem call_queue_in_order_witness:
  "map ef_command (cq_effects sample_state) = [5, 8]
   \<and> subseq (started_of sample_state 0 @ backlog sample_state 0) (sent_of sample_state 0)
   \<and> (\<exists>q'. run_turn (Completed 1 (\<lambda>_. 7)) sample_state = Some q')"
proof -
  note t = call_queue_in_order [OF sample_state_reachable, of 0 "Completed 1 (\<lambda>_. 7)"]
  have "map ef_command (cq_effects sample_state) = [5, 8]" by code_simp
  moreover have "turn_ready sample_state (Completed 1 (\<lambda>_. 7))" by code_simp
  ultimately show ?thesis using t by blast
qed

theorem call_queue_drains_witness:
  "\<not> queue_active sample_end \<and> cq_lanes sample_end = []
   \<and> length (filter sig_terminal (started_of sample_end 0)) = 1"
proof -
  note t = call_queue_drains [OF sample_end_reachable, of "Deadline 0" sample_end 0]
  have "\<not> queue_active sample_end" by code_simp
  moreover have "sent_of sample_end 0 \<noteq> []" by code_simp
  ultimately show ?thesis using t by blast
qed


end
