(* ===== verification/Call_Media.thy ===== *)
theory Call_Media
  imports Sccp_Prelude
begin

text \<open>
  Media state of one call appearance, \<^verbatim>\<open>asterisk-module/src/runtime/controller.rs\<close>: the
  audio directions and the video state machine. A video plan is kept from negotiation
  to the end of the call; the receive direction opens first, the transmit
  direction only behind it. What the plan and an endpoint hold besides the fields that
  are read here is the type \<open>'x\<close>.
\<close>

section \<open>State\<close>

text \<open>A codec is its wire value.\<close>

type_synonym codec = u32
type_synonym session_generation = u64

datatype 'x media_stream_state = StreamClosed | StreamOpening | StreamOpen 'x

datatype video_fallback_reason =
    NotNegotiated
  | NativeRtpUnavailable
  | LocalEndpointUnavailable
  | DescriptorUnavailable
  | ReceiveFailed
  | TransmitFailed

datatype 'x video_stream_state = VideoClosed | VideoOpening | VideoOpen codec 'x

record 'x video_plan =
  vp_session_generation :: session_generation
  vp_codec :: codec
  vp_rest :: 'x

datatype 'x video_media_state =
    AudioOnly video_fallback_reason
  | Blocked "'x video_plan" video_fallback_reason
  | Ready "'x video_plan" "'x video_stream_state" "'x video_stream_state" "u32 option"

record video_cleanup =
  vc_device_id :: device_id
  vc_call_id :: call_id
  vc_session_generation :: session_generation

section \<open>Operations\<close>

definition video_default :: "'x video_media_state" where
  "video_default = AudioOnly NotNegotiated"

definition video_ready :: "'x video_plan \<Rightarrow> 'x video_media_state" where
  "video_ready plan = Ready plan VideoClosed VideoClosed None"

fun video_plan_of :: "'x video_media_state \<Rightarrow> 'x video_plan option" where
  "video_plan_of (AudioOnly _) = None"
| "video_plan_of (Blocked plan _) = Some plan"
| "video_plan_of (Ready plan _ _ _) = Some plan"

fun video_receive :: "'x video_media_state \<Rightarrow> 'x video_stream_state" where
  "video_receive (Ready _ receive _ _) = receive"
| "video_receive _ = VideoClosed"

fun video_transmit :: "'x video_media_state \<Rightarrow> 'x video_stream_state" where
  "video_transmit (Ready _ _ transmit _) = transmit"
| "video_transmit _ = VideoClosed"

fun fallback_reason :: "'x video_media_state \<Rightarrow> video_fallback_reason option" where
  "fallback_reason (AudioOnly reason) = Some reason"
| "fallback_reason (Blocked _ reason) = Some reason"
| "fallback_reason (Ready _ _ _ _) = None"

fun video_is_idle :: "'x video_media_state \<Rightarrow> bool" where
  "video_is_idle (Ready _ receive transmit _) = (receive = VideoClosed \<and> transmit = VideoClosed)"
| "video_is_idle _ = True"

fun accepts_failure :: "video_fallback_reason \<Rightarrow> 'x video_media_state \<Rightarrow> bool" where
  "accepts_failure ReceiveFailed v = (video_receive v \<noteq> VideoClosed)"
| "accepts_failure TransmitFailed v = (video_transmit v \<noteq> VideoClosed)"
| "accepts_failure _ v = True"

fun close_streams :: "'x video_media_state \<Rightarrow> 'x video_media_state" where
  "close_streams (Ready plan _ _ _) = Ready plan VideoClosed VideoClosed None"
| "close_streams v = v"

text \<open>
  \<open>cleanup\<close>: the plan of a busy video state is expected to exist; a state that is not
  \<open>Ready\<close> is idle, so that the \<open>expect\<close> cannot fail.
\<close>

definition video_cleanup_of :: "device_id \<Rightarrow> call_id \<Rightarrow> 'x video_media_state \<Rightarrow> video_cleanup option" where
  "video_cleanup_of device call v =
     (if video_is_idle v then None
      else map_option (\<lambda>plan. \<lparr>vc_device_id = device, vc_call_id = call,
             vc_session_generation = vp_session_generation plan\<rparr>) (video_plan_of v))"

fun begin_receive :: "'x video_media_state \<Rightarrow> bool \<times> 'x video_media_state" where
  "begin_receive (Ready plan VideoClosed VideoClosed token) = (True, Ready plan VideoOpening VideoClosed token)"
| "begin_receive v = (False, v)"

fun opened_receive :: "codec \<Rightarrow> 'x \<Rightarrow> 'x video_media_state \<Rightarrow> bool \<times> 'x video_media_state" where
  "opened_receive codec endpoint (Ready plan VideoOpening transmit token) =
     (if vp_codec plan = codec then (True, Ready plan (VideoOpen codec endpoint) transmit token)
      else (False, Ready plan VideoOpening transmit token))"
| "opened_receive codec endpoint v = (False, v)"

fun begin_transmit :: "'x video_media_state \<Rightarrow> bool \<times> 'x video_media_state" where
  "begin_transmit (Ready plan (VideoOpen c e) VideoClosed token) =
     (True, Ready plan (VideoOpen c e) VideoOpening token)"
| "begin_transmit v = (False, v)"

fun opened_transmit :: "codec \<Rightarrow> 'x \<Rightarrow> u32 \<Rightarrow> 'x video_media_state \<Rightarrow> bool \<times> 'x video_media_state" where
  "opened_transmit codec endpoint token (Ready plan receive VideoOpening old) =
     (if vp_codec plan = codec then (True, Ready plan receive (VideoOpen codec endpoint) (Some token))
      else (False, Ready plan receive VideoOpening old))"
| "opened_transmit codec endpoint token v = (False, v)"

section \<open>Invariant\<close>

text \<open>
  Transmission only behind an open receive direction, open directions with the codec of
  the plan, and a token exactly for an open transmission.
\<close>

fun stream_codec_ok :: "codec \<Rightarrow> 'x video_stream_state \<Rightarrow> bool" where
  "stream_codec_ok c (VideoOpen c' _) = (c' = c)"
| "stream_codec_ok c _ = True"

fun is_open :: "'x video_stream_state \<Rightarrow> bool" where
  "is_open (VideoOpen _ _) = True"
| "is_open _ = False"

fun video_ok :: "'x video_media_state \<Rightarrow> bool" where
  "video_ok (Ready plan receive transmit token) =
     ((transmit \<noteq> VideoClosed \<longrightarrow> is_open receive)
      \<and> stream_codec_ok (vp_codec plan) receive \<and> stream_codec_ok (vp_codec plan) transmit
      \<and> (token \<noteq> None) = is_open transmit)"
| "video_ok _ = True"

lemma video_ok_default [simp]: "video_ok video_default" "video_ok (video_ready plan)" "video_ok (AudioOnly reason)"
  "video_ok (Blocked plan reason)"
  by (simp_all add: video_default_def video_ready_def)

lemma video_ok_close [simp]: "video_ok (close_streams v)" "video_is_idle (close_streams v)"
  by (cases v; simp)+

lemma video_plan_close [simp]: "video_plan_of (close_streams v) = video_plan_of v"
  by (cases v) simp_all

lemma video_ok_begin_receive: "video_ok v \<Longrightarrow> video_ok (snd (begin_receive v))"
  by (induction v rule: begin_receive.induct) auto

lemma video_ok_opened_receive: "video_ok v \<Longrightarrow> video_ok (snd (opened_receive c e v))"
  by (induction c e v rule: opened_receive.induct) auto

lemma video_ok_begin_transmit: "video_ok v \<Longrightarrow> video_ok (snd (begin_transmit v))"
  by (induction v rule: begin_transmit.induct) auto

lemma video_ok_opened_transmit: "video_ok v \<Longrightarrow> video_ok (snd (opened_transmit c e t v))"
  by (induction c e t v rule: opened_transmit.induct) auto

lemmas video_ok_steps = video_ok_begin_receive video_ok_opened_receive video_ok_begin_transmit video_ok_opened_transmit

text \<open>A refused step changes nothing.\<close>

lemma begin_receive_refused: "\<not> fst (begin_receive v) \<Longrightarrow> snd (begin_receive v) = v"
  by (induction v rule: begin_receive.induct) auto

lemma opened_receive_refused: "\<not> fst (opened_receive c e v) \<Longrightarrow> snd (opened_receive c e v) = v"
  by (induction c e v rule: opened_receive.induct) auto

lemma begin_transmit_refused: "\<not> fst (begin_transmit v) \<Longrightarrow> snd (begin_transmit v) = v"
  by (induction v rule: begin_transmit.induct) auto

lemma opened_transmit_refused: "\<not> fst (opened_transmit c e t v) \<Longrightarrow> snd (opened_transmit c e t v) = v"
  by (induction c e t v rule: opened_transmit.induct) auto

lemmas video_refused = begin_receive_refused opened_receive_refused begin_transmit_refused opened_transmit_refused

text \<open>Cleanup is due exactly for a state that is not idle, with the session of its plan.\<close>

lemma video_cleanup_due: "video_cleanup_of device call v = None \<longleftrightarrow> video_is_idle v"
  by (cases v) (auto simp: video_cleanup_of_def)

end
