(* ===== verification/Call_Registry.thy ===== *)
theory Call_Registry
  imports Mobility Call_Media Id_Allocation
begin

text \<open>
  Calls and their presentations, \<^verbatim>\<open>CallRegistry\<close> of
  \<^verbatim>\<open>asterisk-module/src/runtime/controller.rs\<close>. A PBX call is the state of one
  channel; every phone that shows it has an appearance of it. The registry keeps
  both, with an index from handset calls and one from devices to appearances. This
  theory has the data, the operations that keep the indexes
  (\<^verbatim>\<open>domains/call_registry.rs\<close>) and the registry's own validator
  (\<^verbatim>\<open>invariants/call_registry.rs\<close>), which the debug builds run after every operation.

  The metadata of a call (\<^verbatim>\<open>call/metadata.rs\<close>) is stored and handed out but never read
  by these operations; the record leaves it out. Media endpoints are the type \<open>'x\<close>.
\<close>

section \<open>State\<close>

type_synonym call_appearance_id = u64

datatype call_state =
    StCollecting | StPickupCollecting | StRinging | StCalling | StConnected | StParking
  | StRetrieving | StHeld | StRemoteInUse | StSharedHeld | StBarged | StTransferCollecting | StEnded

datatype call_direction = Inbound | Outbound

datatype outbound_call_phase =
    PhCollecting | PhRouting | PhProceeding | PhRinging | PhProgress | PhAnswered

text \<open>The derived order of the phases is the order of the declaration.\<close>

fun phase_rank :: "outbound_call_phase \<Rightarrow> nat" where
  "phase_rank PhCollecting = 0" | "phase_rank PhRouting = 1" | "phase_rank PhProceeding = 2"
| "phase_rank PhRinging = 3" | "phase_rank PhProgress = 4" | "phase_rank PhAnswered = 5"

datatype outbound_identity_stage = Awaiting | IdentityReady | RingOutPublished

datatype auto_answer_mode = OneWay | TwoWay

record call_info =
  in_direction :: call_direction
  in_calling_name :: rust_str
  in_calling_number :: rust_str
  in_called_name :: rust_str
  in_called_number :: rust_str
  in_original_called_name :: rust_str
  in_original_called_number :: rust_str
  in_last_redirecting_name :: rust_str
  in_last_redirecting_number :: rust_str
  in_original_redirect_reason :: u32
  in_last_redirect_reason :: u32
  in_party_restrictions :: u32

definition call_info_default :: call_info where
  "call_info_default = \<lparr>in_direction = Outbound, in_calling_name = [], in_calling_number = [],
     in_called_name = [], in_called_number = [], in_original_called_name = [],
     in_original_called_number = [], in_last_redirecting_name = [], in_last_redirecting_number = [],
     in_original_redirect_reason = 0, in_last_redirect_reason = 0, in_party_restrictions = 0\<rparr>"

record pending_directed_pickup =
  pp_context :: rust_str
  pp_answer :: bool

record pbx_call =
  pc_id :: pbx_call_id
  pc_line :: rust_str
  pc_context :: rust_str
  pc_direction :: call_direction
  pc_state :: call_state
  pc_outbound_phase :: "outbound_call_phase option"
  pc_outbound_identity_stage :: outbound_identity_stage
  pc_digits :: rust_str
  pc_privacy :: bool
  pc_pending_pickup :: "pending_directed_pickup option"
  pc_appearance_ids :: "call_appearance_id list"
  pc_active_appearance :: "call_appearance_id option"
  pc_digit_deadline :: "instant option"
  pc_last_digit_at :: "instant option"
  pc_simulated_enbloc_eligible :: bool
  pc_overlap_enabled :: bool

record 'x call_appearance =
  ap_id :: call_appearance_id
  ap_sccp_id :: call_id
  ap_pbx_id :: pbx_call_id
  ap_device_id :: device_id
  ap_line_instance :: u32
  ap_state :: call_state
  ap_ring_mode :: appearance_ring_mode
  ap_privacy :: bool
  ap_info :: call_info
  ap_codec :: codec
  ap_audio :: "'x media_stream_state"
  ap_audio_transmit :: "'x media_stream_state"
  ap_video :: "'x video_media_state"
  ap_auto_answer_mode :: "auto_answer_mode option"

record 'x call_registry =
  rg_pbx :: "(pbx_call_id, pbx_call) hash_map"
  rg_appearances :: "(call_appearance_id, 'x call_appearance) hash_map"
  rg_by_sccp :: "(call_id, call_appearance_id) hash_map"
  rg_by_device :: "(device_id, call_appearance_id list) hash_map"

definition call_registry_default :: "'x call_registry" where
  "call_registry_default = \<lparr>rg_pbx = [], rg_appearances = [], rg_by_sccp = [], rg_by_device = []\<rparr>"

section \<open>Operations\<close>

definition appearance_for :: "call_id \<Rightarrow> 'x call_registry \<Rightarrow> 'x call_appearance option" where
  "appearance_for call r = Option.bind (hm_get (rg_by_sccp r) call) (hm_get (rg_appearances r))"

definition attach_appearance :: "'x call_appearance \<Rightarrow> 'x call_registry \<Rightarrow> bool \<times> 'x call_registry" where
  "attach_appearance a r =
     (if \<not> hm_contains (rg_pbx r) (ap_pbx_id a) \<or> hm_contains (rg_appearances r) (ap_id a)
        \<or> hm_contains (rg_by_sccp r) (ap_sccp_id a)
      then (False, r)
      else (True, r\<lparr>
         rg_appearances := hm_insert (ap_id a) a (rg_appearances r),
         rg_by_sccp := hm_insert (ap_sccp_id a) (ap_id a) (rg_by_sccp r),
         rg_by_device := hm_insert (ap_device_id a)
           (List.insert (ap_id a) (case hm_get (rg_by_device r) (ap_device_id a) of None \<Rightarrow> [] | Some s \<Rightarrow> s))
           (rg_by_device r),
         rg_pbx := hm_modify (ap_pbx_id a)
           (\<lambda>call. call\<lparr>pc_appearance_ids := pc_appearance_ids call @ [ap_id a]\<rparr>) (rg_pbx r)\<rparr>))"

definition insert_pbx_call :: "pbx_call \<Rightarrow> 'x call_appearance \<Rightarrow> 'x call_registry \<Rightarrow> bool \<times> 'x call_registry" where
  "insert_pbx_call call a r =
     (if pc_id call \<noteq> ap_pbx_id a \<or> pc_appearance_ids call \<noteq> [] \<or> hm_contains (rg_pbx r) (pc_id call)
      then (False, r)
      else
        case attach_appearance a (r\<lparr>rg_pbx := hm_insert (pc_id call) call (rg_pbx r)\<rparr>) of
          (True, r') \<Rightarrow> (True, r')
        | (False, r') \<Rightarrow> (False, r'\<lparr>rg_pbx := hm_remove (pc_id call) (rg_pbx r')\<rparr>))"

text \<open>
  What \<open>remove_appearance\<close> does to the registry: the appearance leaves the indexes, the
  set of its device (an empty set goes too) and its call, which loses its active
  appearance if it was that one.
\<close>

definition unlink_appearance ::
  "call_appearance_id \<Rightarrow> 'x call_registry \<Rightarrow> 'x call_appearance option \<times> 'x call_registry"
where
  "unlink_appearance i r =
     (case hm_get (rg_appearances r) i of
        None \<Rightarrow> (None, r)
      | Some a \<Rightarrow> (Some a, r\<lparr>
          rg_appearances := hm_remove i (rg_appearances r),
          rg_by_sccp := hm_remove (ap_sccp_id a) (rg_by_sccp r),
          rg_by_device :=
            (case hm_get (rg_by_device r) (ap_device_id a) of
               None \<Rightarrow> rg_by_device r
             | Some s \<Rightarrow>
                 (if removeAll i s = [] then hm_remove (ap_device_id a) (rg_by_device r)
                  else hm_insert (ap_device_id a) (removeAll i s) (rg_by_device r))),
          rg_pbx := hm_modify (ap_pbx_id a)
            (\<lambda>call. call\<lparr>
               pc_appearance_ids := filter (\<lambda>k. k \<noteq> i) (pc_appearance_ids call),
               pc_active_appearance :=
                 (if pc_active_appearance call = Some i then None else pc_active_appearance call)\<rparr>)
            (rg_pbx r)\<rparr>))"

definition appearances_for_device :: "device_id \<Rightarrow> 'x call_registry \<Rightarrow> 'x call_appearance list" where
  "appearances_for_device device r =
     List.map_filter (hm_get (rg_appearances r))
       (case hm_get (rg_by_device r) device of None \<Rightarrow> [] | Some s \<Rightarrow> s)"

definition appearances_for_pbx :: "pbx_call_id \<Rightarrow> 'x call_registry \<Rightarrow> 'x call_appearance list" where
  "appearances_for_pbx pbx r =
     List.map_filter (hm_get (rg_appearances r))
       (case hm_get (rg_pbx r) pbx of None \<Rightarrow> [] | Some call \<Rightarrow> pc_appearance_ids call)"

section \<open>The validator\<close>

text \<open>The states in which an appearance owns the channel of its call.\<close>

fun owning :: "call_state \<Rightarrow> bool" where
  "owning StCollecting = True" | "owning StPickupCollecting = True" | "owning StCalling = True"
| "owning StConnected = True" | "owning StParking = True" | "owning StRetrieving = True"
| "owning StHeld = True" | "owning StTransferCollecting = True" | "owning _ = False"

datatype registry_error =
    PbxKeyMismatch pbx_call_id | InconsistentPickup pbx_call_id | RepeatedAppearance pbx_call_id
  | DanglingAppearance pbx_call_id | DanglingActive pbx_call_id | InvalidActive pbx_call_id
  | MultipleActive pbx_call_id | AppearanceKeyMismatch call_appearance_id | CallNotIndexed call_id
  | DeviceNotIndexed device_id | NoPbxCall call_appearance_id | NotOwned call_appearance_id
  | DanglingCallIndex call_id | DanglingDeviceIndex device_id

fun first_error :: "('a \<Rightarrow> 'e option) \<Rightarrow> 'a list \<Rightarrow> 'e option" where
  "first_error check [] = None"
| "first_error check (x # xs) = (case check x of Some e \<Rightarrow> Some e | None \<Rightarrow> first_error check xs)"

definition or_else :: "'e option \<Rightarrow> 'e option \<Rightarrow> 'e option" where
  "or_else a b = (case a of Some e \<Rightarrow> Some e | None \<Rightarrow> b)"

fun appearances_error ::
  "'x call_registry \<Rightarrow> pbx_call_id \<Rightarrow> call_appearance_id list \<Rightarrow> call_appearance_id list \<Rightarrow> registry_error option"
where
  "appearances_error r pbx unique [] = None"
| "appearances_error r pbx unique (i # ids) =
     (if i \<in> set unique then Some (RepeatedAppearance pbx)
      else
        case hm_get (rg_appearances r) i of
          None \<Rightarrow> Some (DanglingAppearance pbx)
        | Some a \<Rightarrow>
            if ap_pbx_id a \<noteq> pbx then Some (DanglingAppearance pbx)
            else appearances_error r pbx (i # unique) ids)"

definition active_error :: "'x call_registry \<Rightarrow> pbx_call_id \<Rightarrow> pbx_call \<Rightarrow> registry_error option" where
  "active_error r pbx call =
     (case pc_active_appearance call of
        None \<Rightarrow> None
      | Some active \<Rightarrow>
          (case hm_get (rg_appearances r) active of
             None \<Rightarrow> Some (DanglingActive pbx)
           | Some a \<Rightarrow> if ap_pbx_id a \<noteq> pbx \<or> \<not> owning (ap_state a) then Some (InvalidActive pbx) else None))"

definition active_count :: "'x call_registry \<Rightarrow> pbx_call \<Rightarrow> nat" where
  "active_count r call =
     length (filter (\<lambda>a. owning (ap_state a)) (List.map_filter (hm_get (rg_appearances r)) (pc_appearance_ids call)))"

definition pbx_error :: "'x call_registry \<Rightarrow> pbx_call_id \<times> pbx_call \<Rightarrow> registry_error option" where
  "pbx_error r = (\<lambda>(pbx, call).
     if pbx \<noteq> pc_id call then Some (PbxKeyMismatch pbx)
     else if (pc_pending_pickup call \<noteq> None) \<noteq> (pc_state call = StPickupCollecting)
     then Some (InconsistentPickup pbx)
     else
       or_else (appearances_error r pbx [] (pc_appearance_ids call))
         (or_else (active_error r pbx call)
           (if active_count r call > (if pc_active_appearance call \<noteq> None then 1 else 0)
            then Some (MultipleActive pbx) else None)))"

definition appearance_error ::
  "'x call_registry \<Rightarrow> call_appearance_id \<times> 'x call_appearance \<Rightarrow> registry_error option"
where
  "appearance_error r = (\<lambda>(i, a).
     if i \<noteq> ap_id a then Some (AppearanceKeyMismatch i)
     else if hm_get (rg_by_sccp r) (ap_sccp_id a) \<noteq> Some i then Some (CallNotIndexed (ap_sccp_id a))
     else if \<not> (case hm_get (rg_by_device r) (ap_device_id a) of None \<Rightarrow> False | Some s \<Rightarrow> i \<in> set s)
     then Some (DeviceNotIndexed (ap_device_id a))
     else
       case hm_get (rg_pbx r) (ap_pbx_id a) of
         None \<Rightarrow> Some (NoPbxCall i)
       | Some call \<Rightarrow> if i \<notin> set (pc_appearance_ids call) then Some (NotOwned i) else None)"

definition call_index_error :: "'x call_registry \<Rightarrow> call_id \<times> call_appearance_id \<Rightarrow> registry_error option" where
  "call_index_error r = (\<lambda>(call, i).
     case hm_get (rg_appearances r) i of
       None \<Rightarrow> Some (DanglingCallIndex call)
     | Some a \<Rightarrow> if ap_sccp_id a \<noteq> call then Some (DanglingCallIndex call) else None)"

definition device_index_error ::
  "'x call_registry \<Rightarrow> device_id \<times> call_appearance_id list \<Rightarrow> registry_error option"
where
  "device_index_error r = (\<lambda>(device, ids).
     first_error (\<lambda>i.
       case hm_get (rg_appearances r) i of
         None \<Rightarrow> Some (DanglingDeviceIndex device)
       | Some a \<Rightarrow> if ap_device_id a \<noteq> device then Some (DanglingDeviceIndex device) else None) ids)"

definition call_registry_error :: "'x call_registry \<Rightarrow> registry_error option" where
  "call_registry_error r =
     or_else (first_error (pbx_error r) (rg_pbx r))
       (or_else (first_error (appearance_error r) (rg_appearances r))
         (or_else (first_error (call_index_error r) (rg_by_sccp r))
           (first_error (device_index_error r) (rg_by_device r))))"

section \<open>Well-formed registries\<close>

text \<open>
  \<open>index_ok\<close>: the four maps describe the same appearances. \<open>states_ok\<close>: the owner of a
  channel is the one appearance in an owning state, and directed pickup is recorded
  exactly while its digits are collected.
\<close>

definition index_ok :: "'x call_registry \<Rightarrow> bool" where
  "index_ok r \<longleftrightarrow>
     (hm_wf (rg_pbx r) \<and> hm_wf (rg_appearances r) \<and> hm_wf (rg_by_sccp r) \<and> hm_wf (rg_by_device r))
     \<and> (\<forall>p call. hm_get (rg_pbx r) p = Some call \<longrightarrow>
          pc_id call = p \<and> distinct (pc_appearance_ids call)
          \<and> (\<forall>i \<in> set (pc_appearance_ids call). \<exists>a. hm_get (rg_appearances r) i = Some a \<and> ap_pbx_id a = p))
     \<and> (\<forall>i a. hm_get (rg_appearances r) i = Some a \<longrightarrow>
          ap_id a = i \<and> hm_get (rg_by_sccp r) (ap_sccp_id a) = Some i
          \<and> (\<exists>s. hm_get (rg_by_device r) (ap_device_id a) = Some s \<and> i \<in> set s)
          \<and> (\<exists>call. hm_get (rg_pbx r) (ap_pbx_id a) = Some call \<and> i \<in> set (pc_appearance_ids call)))
     \<and> (\<forall>k i. hm_get (rg_by_sccp r) k = Some i \<longrightarrow> (\<exists>a. hm_get (rg_appearances r) i = Some a \<and> ap_sccp_id a = k))
     \<and> (\<forall>d s. hm_get (rg_by_device r) d = Some s \<longrightarrow>
          (\<forall>i \<in> set s. \<exists>a. hm_get (rg_appearances r) i = Some a \<and> ap_device_id a = d))"

definition owner_ok :: "'x call_registry \<Rightarrow> pbx_call_id \<Rightarrow> pbx_call \<Rightarrow> bool" where
  "owner_ok r p call \<longleftrightarrow>
     (pc_pending_pickup call \<noteq> None) = (pc_state call = StPickupCollecting)
     \<and> (\<forall>i. pc_active_appearance call = Some i \<longrightarrow>
          (\<exists>a. hm_get (rg_appearances r) i = Some a \<and> ap_pbx_id a = p \<and> owning (ap_state a)))
     \<and> (\<forall>i a. hm_get (rg_appearances r) i = Some a \<and> ap_pbx_id a = p \<and> owning (ap_state a)
          \<longrightarrow> pc_active_appearance call = Some i)"

definition states_ok :: "'x call_registry \<Rightarrow> bool" where
  "states_ok r \<longleftrightarrow> (\<forall>p call. hm_get (rg_pbx r) p = Some call \<longrightarrow> owner_ok r p call)"

definition calls_ok :: "'x call_registry \<Rightarrow> bool" where
  "calls_ok r \<longleftrightarrow> index_ok r \<and> states_ok r"

lemma owner_okI:
  assumes "(pc_pending_pickup call \<noteq> None) = (pc_state call = StPickupCollecting)"
    and "\<And>i. pc_active_appearance call = Some i \<Longrightarrow>
      \<exists>a. hm_get (rg_appearances r) i = Some a \<and> ap_pbx_id a = p \<and> owning (ap_state a)"
    and "\<And>i a. hm_get (rg_appearances r) i = Some a \<Longrightarrow> ap_pbx_id a = p \<Longrightarrow> owning (ap_state a) \<Longrightarrow>
      pc_active_appearance call = Some i"
  shows "owner_ok r p call"
  unfolding owner_ok_def using assms by blast

lemma owner_okD:
  assumes "owner_ok r p call"
  shows "(pc_pending_pickup call \<noteq> None) = (pc_state call = StPickupCollecting)"
    and "pc_active_appearance call = Some i \<Longrightarrow>
      \<exists>a. hm_get (rg_appearances r) i = Some a \<and> ap_pbx_id a = p \<and> owning (ap_state a)"
    and "hm_get (rg_appearances r) i = Some a \<Longrightarrow> ap_pbx_id a = p \<Longrightarrow> owning (ap_state a) \<Longrightarrow>
      pc_active_appearance call = Some i"
  using assms unfolding owner_ok_def by blast+

lemma states_okI: "(\<And>p call. hm_get (rg_pbx r) p = Some call \<Longrightarrow> owner_ok r p call) \<Longrightarrow> states_ok r"
  unfolding states_ok_def by blast

lemma states_okD: "states_ok r \<Longrightarrow> hm_get (rg_pbx r) p = Some call \<Longrightarrow> owner_ok r p call"
  unfolding states_ok_def by blast

text \<open>What the owner of a call is does not depend on the appearances of other calls.\<close>

lemma owner_ok_cong:
  assumes "owner_ok r p call"
    and "pc_pending_pickup call' = pc_pending_pickup call" "pc_state call' = pc_state call"
      "pc_active_appearance call' = pc_active_appearance call"
    and "\<And>i a. hm_get (rg_appearances r) i = Some a \<Longrightarrow> ap_pbx_id a = p \<Longrightarrow> owning (ap_state a) \<Longrightarrow>
      hm_get (rg_appearances r') i = Some a"
    and "\<And>i a. hm_get (rg_appearances r') i = Some a \<Longrightarrow> ap_pbx_id a = p \<Longrightarrow> owning (ap_state a) \<Longrightarrow>
      hm_get (rg_appearances r) i = Some a"
  shows "owner_ok r' p call'"
proof (rule owner_okI)
  show "(pc_pending_pickup call' \<noteq> None) = (pc_state call' = StPickupCollecting)"
    using owner_okD(1) [OF assms(1)] assms(2,3) by simp
  fix i assume "pc_active_appearance call' = Some i"
  with assms(4) have "pc_active_appearance call = Some i" by simp
  from owner_okD(2) [OF assms(1) this] assms(5)
  show "\<exists>a. hm_get (rg_appearances r') i = Some a \<and> ap_pbx_id a = p \<and> owning (ap_state a)" by blast
next
  fix i a assume a: "hm_get (rg_appearances r') i = Some a" "ap_pbx_id a = p" "owning (ap_state a)"
  from owner_okD(3) [OF assms(1) assms(6) [OF a] a(2,3)] assms(4) show "pc_active_appearance call' = Some i" by simp
qed

lemma index_ok_wf:
  assumes "index_ok r"
  shows "hm_wf (rg_pbx r)" "hm_wf (rg_appearances r)" "hm_wf (rg_by_sccp r)" "hm_wf (rg_by_device r)"
  using assms unfolding index_ok_def by simp_all

lemma index_ok_pbx:
  assumes "index_ok r" and "hm_get (rg_pbx r) p = Some call"
  shows "pc_id call = p" "distinct (pc_appearance_ids call)"
    and "i \<in> set (pc_appearance_ids call) \<Longrightarrow> \<exists>a. hm_get (rg_appearances r) i = Some a \<and> ap_pbx_id a = p"
  using assms unfolding index_ok_def by simp_all

lemma index_ok_appearance:
  assumes "index_ok r" and "hm_get (rg_appearances r) i = Some a"
  shows "ap_id a = i" "hm_get (rg_by_sccp r) (ap_sccp_id a) = Some i"
    "\<exists>s. hm_get (rg_by_device r) (ap_device_id a) = Some s \<and> i \<in> set s"
    "\<exists>call. hm_get (rg_pbx r) (ap_pbx_id a) = Some call \<and> i \<in> set (pc_appearance_ids call)"
  using assms unfolding index_ok_def by simp_all

lemma index_ok_call:
  assumes "index_ok r" and "hm_get (rg_by_sccp r) k = Some i"
  shows "\<exists>a. hm_get (rg_appearances r) i = Some a \<and> ap_sccp_id a = k"
  using assms unfolding index_ok_def by simp

lemma index_ok_device:
  assumes "index_ok r" and "hm_get (rg_by_device r) d = Some s" and "i \<in> set s"
  shows "\<exists>a. hm_get (rg_appearances r) i = Some a \<and> ap_device_id a = d"
  using assms unfolding index_ok_def by blast

text \<open>The handset call of an appearance finds it.\<close>

lemma appearance_for_iff:
  assumes "index_ok r"
  shows "appearance_for k r = Some a \<longleftrightarrow> hm_get (rg_appearances r) (ap_id a) = Some a \<and> ap_sccp_id a = k"
proof
  assume "appearance_for k r = Some a"
  then obtain i where i: "hm_get (rg_by_sccp r) k = Some i" "hm_get (rg_appearances r) i = Some a"
    unfolding appearance_for_def by (auto simp: bind_eq_Some_conv)
  from index_ok_call [OF assms i(1)] i(2) index_ok_appearance(1) [OF assms i(2)]
  show "hm_get (rg_appearances r) (ap_id a) = Some a \<and> ap_sccp_id a = k" by auto
next
  assume a: "hm_get (rg_appearances r) (ap_id a) = Some a \<and> ap_sccp_id a = k"
  with index_ok_appearance(2) [OF assms, of "ap_id a" a] show "appearance_for k r = Some a"
    unfolding appearance_for_def by auto
qed

lemma appearance_for_owned:
  assumes "index_ok r" and "appearance_for k r = Some a"
  shows "hm_get (rg_appearances r) (ap_id a) = Some a" "ap_sccp_id a = k"
    "hm_get (rg_by_sccp r) k = Some (ap_id a)"
    "\<exists>call. hm_get (rg_pbx r) (ap_pbx_id a) = Some call \<and> ap_id a \<in> set (pc_appearance_ids call)"
proof -
  show a: "hm_get (rg_appearances r) (ap_id a) = Some a" and k: "ap_sccp_id a = k"
    using appearance_for_iff [OF assms(1)] assms(2) by auto
  from index_ok_appearance(2,4) [OF assms(1) a] k
  show "hm_get (rg_by_sccp r) k = Some (ap_id a)"
    and "\<exists>call. hm_get (rg_pbx r) (ap_pbx_id a) = Some call \<and> ap_id a \<in> set (pc_appearance_ids call)"
    by simp_all
qed

text \<open>The appearances of a call are those that name it.\<close>

lemma index_ok_members:
  assumes "index_ok r" and "hm_get (rg_pbx r) p = Some call"
  shows "i \<in> set (pc_appearance_ids call) \<longleftrightarrow> (\<exists>a. hm_get (rg_appearances r) i = Some a \<and> ap_pbx_id a = p)"
proof
  show "i \<in> set (pc_appearance_ids call) \<Longrightarrow> \<exists>a. hm_get (rg_appearances r) i = Some a \<and> ap_pbx_id a = p"
    by (rule index_ok_pbx(3) [OF assms])
  assume "\<exists>a. hm_get (rg_appearances r) i = Some a \<and> ap_pbx_id a = p"
  then obtain a where "hm_get (rg_appearances r) i = Some a" "ap_pbx_id a = p" by blast
  with index_ok_appearance(4) [OF assms(1) this(1)] assms(2) show "i \<in> set (pc_appearance_ids call)" by auto
qed

lemma calls_ok_default: "calls_ok call_registry_default"
  by (simp add: calls_ok_def index_ok_def states_ok_def call_registry_default_def)

subsection \<open>The validator decides well-formedness\<close>

lemma first_error_None: "first_error check xs = None \<longleftrightarrow> (\<forall>x \<in> set xs. check x = None)"
  by (induction xs) (auto split: option.split)

lemma or_else_None [simp]: "or_else a b = None \<longleftrightarrow> a = None \<and> b = None"
  by (simp add: or_else_def split: option.split)

lemma appearances_error_None:
  "appearances_error r p unique ids = None \<longleftrightarrow>
     distinct ids \<and> set ids \<inter> set unique = {}
     \<and> (\<forall>i \<in> set ids. \<exists>a. hm_get (rg_appearances r) i = Some a \<and> ap_pbx_id a = p)"
  by (induction ids arbitrary: unique) (auto split: option.split)

lemma hm_all_iff: "hm_wf m \<Longrightarrow> (\<forall>x \<in> set m. P x) \<longleftrightarrow> (\<forall>k v. hm_get m k = Some v \<longrightarrow> P (k, v))"
  unfolding hm_wf_def by (auto dest: map_of_SomeD)

text \<open>Counting the owning appearances is asking who they are.\<close>

lemma active_count_eq:
  assumes "index_ok r" and "hm_get (rg_pbx r) p = Some call"
  shows "active_count r call = card {i. \<exists>a. hm_get (rg_appearances r) i = Some a \<and> ap_pbx_id a = p \<and> owning (ap_state a)}"
proof -
  let ?ids = "filter (\<lambda>i. case hm_get (rg_appearances r) i of None \<Rightarrow> False | Some a \<Rightarrow> owning (ap_state a))
    (pc_appearance_ids call)"
  have "length (filter (\<lambda>a. owning (ap_state a)) (List.map_filter (hm_get (rg_appearances r)) ids))
      = length (filter (\<lambda>i. case hm_get (rg_appearances r) i of None \<Rightarrow> False | Some a \<Rightarrow> owning (ap_state a)) ids)" for ids
    by (induction ids) (auto simp: map_filter_simps split: option.split)
  then have "active_count r call = length ?ids" unfolding active_count_def .
  also have "\<dots> = card (set ?ids)"
    using index_ok_pbx(2) [OF assms] by (simp only: distinct_card [symmetric] distinct_filter)
  also have "set ?ids = {i. \<exists>a. hm_get (rg_appearances r) i = Some a \<and> ap_pbx_id a = p \<and> owning (ap_state a)}"
    using index_ok_members [OF assms] by (auto split: option.splits)
  finally show ?thesis .
qed

lemma card_le_1_iff: "finite S \<Longrightarrow> i \<in> S \<Longrightarrow> card S \<le> 1 \<longleftrightarrow> (\<forall>j \<in> S. j = i)"
  unfolding One_nat_def by (subst card_le_Suc0_iff_eq) (assumption, metis)

lemma states_ok_call:
  assumes "index_ok r" and "hm_get (rg_pbx r) p = Some call"
  shows "active_error r p call = None \<and> active_count r call \<le> (if pc_active_appearance call \<noteq> None then 1 else 0)
    \<longleftrightarrow> (\<forall>i. pc_active_appearance call = Some i \<longrightarrow>
            (\<exists>a. hm_get (rg_appearances r) i = Some a \<and> ap_pbx_id a = p \<and> owning (ap_state a)))
        \<and> (\<forall>i a. hm_get (rg_appearances r) i = Some a \<and> ap_pbx_id a = p \<and> owning (ap_state a)
             \<longrightarrow> pc_active_appearance call = Some i)"
proof -
  let ?S = "{i. \<exists>a. hm_get (rg_appearances r) i = Some a \<and> ap_pbx_id a = p \<and> owning (ap_state a)}"
  have "finite (dom (hm_get (rg_appearances r)))" by (rule finite_dom_map_of)
  then have fin: "finite ?S" by (rule rev_finite_subset) auto
  show ?thesis
  proof (cases "pc_active_appearance call")
    case None
    then show ?thesis using fin by (auto simp: active_error_def active_count_eq [OF assms])
  next
    case (Some i)
    have act: "active_error r p call = None \<longleftrightarrow> i \<in> ?S"
      using Some by (auto simp: active_error_def split: option.split)
    have "(\<forall>j. pc_active_appearance call = Some j \<longrightarrow>
        (\<exists>a. hm_get (rg_appearances r) j = Some a \<and> ap_pbx_id a = p \<and> owning (ap_state a))) \<longleftrightarrow> i \<in> ?S"
      using Some by simp
    moreover have "(\<forall>j a. hm_get (rg_appearances r) j = Some a \<and> ap_pbx_id a = p \<and> owning (ap_state a)
        \<longrightarrow> pc_active_appearance call = Some j) \<longleftrightarrow> (\<forall>j \<in> ?S. j = i)"
      using Some by auto
    moreover have "i \<in> ?S \<Longrightarrow> card ?S \<le> 1 \<longleftrightarrow> (\<forall>j \<in> ?S. j = i)"
      by (rule card_le_1_iff [OF fin])
    moreover have "(if pc_active_appearance call \<noteq> None then 1 else 0) = (1 :: nat)" using Some by simp
    ultimately show ?thesis
      unfolding active_count_eq [OF assms] act by argo
  qed
qed

lemma pbx_error_None:
  "pbx_error r (p, call) = None \<longleftrightarrow> pc_id call = p
     \<and> (pc_pending_pickup call \<noteq> None) = (pc_state call = StPickupCollecting)
     \<and> distinct (pc_appearance_ids call)
     \<and> (\<forall>i \<in> set (pc_appearance_ids call). \<exists>a. hm_get (rg_appearances r) i = Some a \<and> ap_pbx_id a = p)
     \<and> (active_error r p call = None
        \<and> active_count r call \<le> (if pc_active_appearance call \<noteq> None then 1 else 0))"
  by (simp add: pbx_error_def appearances_error_None linorder_not_less)

lemma appearance_error_None:
  "appearance_error r (i, a) = None \<longleftrightarrow> ap_id a = i \<and> hm_get (rg_by_sccp r) (ap_sccp_id a) = Some i
     \<and> (\<exists>s. hm_get (rg_by_device r) (ap_device_id a) = Some s \<and> i \<in> set s)
     \<and> (\<exists>call. hm_get (rg_pbx r) (ap_pbx_id a) = Some call \<and> i \<in> set (pc_appearance_ids call))"
  by (cases "hm_get (rg_by_device r) (ap_device_id a)"; cases "hm_get (rg_pbx r) (ap_pbx_id a)")
    (auto simp: appearance_error_def)

lemma call_index_error_None:
  "call_index_error r (k, i) = None \<longleftrightarrow> (\<exists>a. hm_get (rg_appearances r) i = Some a \<and> ap_sccp_id a = k)"
  by (cases "hm_get (rg_appearances r) i") (auto simp: call_index_error_def)

lemma device_index_error_None:
  "device_index_error r (d, s) = None \<longleftrightarrow>
     (\<forall>i \<in> set s. \<exists>a. hm_get (rg_appearances r) i = Some a \<and> ap_device_id a = d)"
  unfolding device_index_error_def split first_error_None by (intro ball_cong refl) (auto split: option.split)

lemma call_registry_error_None:
  assumes "hm_wf (rg_pbx r)" "hm_wf (rg_appearances r)" "hm_wf (rg_by_sccp r)" "hm_wf (rg_by_device r)"
  shows "call_registry_error r = None \<longleftrightarrow> calls_ok r"
proof -
  have pbx: "first_error (pbx_error r) (rg_pbx r) = None \<longleftrightarrow>
     (\<forall>p call. hm_get (rg_pbx r) p = Some call \<longrightarrow> pc_id call = p
        \<and> (pc_pending_pickup call \<noteq> None) = (pc_state call = StPickupCollecting)
        \<and> distinct (pc_appearance_ids call)
        \<and> (\<forall>i \<in> set (pc_appearance_ids call). \<exists>a. hm_get (rg_appearances r) i = Some a \<and> ap_pbx_id a = p)
        \<and> (active_error r p call = None
           \<and> active_count r call \<le> (if pc_active_appearance call \<noteq> None then 1 else 0)))"
    unfolding first_error_None hm_all_iff [OF assms(1)] pbx_error_None by blast
  have app: "first_error (appearance_error r) (rg_appearances r) = None \<longleftrightarrow>
     (\<forall>i a. hm_get (rg_appearances r) i = Some a \<longrightarrow> ap_id a = i \<and> hm_get (rg_by_sccp r) (ap_sccp_id a) = Some i
        \<and> (\<exists>s. hm_get (rg_by_device r) (ap_device_id a) = Some s \<and> i \<in> set s)
        \<and> (\<exists>call. hm_get (rg_pbx r) (ap_pbx_id a) = Some call \<and> i \<in> set (pc_appearance_ids call)))"
    unfolding first_error_None hm_all_iff [OF assms(2)] appearance_error_None by blast
  have sccp: "first_error (call_index_error r) (rg_by_sccp r) = None \<longleftrightarrow>
     (\<forall>k i. hm_get (rg_by_sccp r) k = Some i \<longrightarrow> (\<exists>a. hm_get (rg_appearances r) i = Some a \<and> ap_sccp_id a = k))"
    unfolding first_error_None hm_all_iff [OF assms(3)] call_index_error_None by blast
  have device: "first_error (device_index_error r) (rg_by_device r) = None \<longleftrightarrow>
     (\<forall>d s. hm_get (rg_by_device r) d = Some s \<longrightarrow>
        (\<forall>i \<in> set s. \<exists>a. hm_get (rg_appearances r) i = Some a \<and> ap_device_id a = d))"
    unfolding first_error_None hm_all_iff [OF assms(4)] device_index_error_None by blast
  have "call_registry_error r = None \<longleftrightarrow> index_ok r
      \<and> (\<forall>p call. hm_get (rg_pbx r) p = Some call \<longrightarrow>
          (pc_pending_pickup call \<noteq> None) = (pc_state call = StPickupCollecting)
          \<and> (active_error r p call = None
             \<and> active_count r call \<le> (if pc_active_appearance call \<noteq> None then 1 else 0)))"
    unfolding call_registry_error_def or_else_None pbx app sccp device index_ok_def using assms by blast
  also have "\<dots> \<longleftrightarrow> calls_ok r"
    unfolding calls_ok_def states_ok_def owner_ok_def using states_ok_call [of r] by (intro conj_cong) auto
  finally show ?thesis .
qed

subsection \<open>The operations keep the registry well formed\<close>

lemma index_okI:
  assumes "hm_wf (rg_pbx r)" "hm_wf (rg_appearances r)" "hm_wf (rg_by_sccp r)" "hm_wf (rg_by_device r)"
    and "\<And>p call. hm_get (rg_pbx r) p = Some call \<Longrightarrow> pc_id call = p"
    and "\<And>p call. hm_get (rg_pbx r) p = Some call \<Longrightarrow> distinct (pc_appearance_ids call)"
    and "\<And>p call i. hm_get (rg_pbx r) p = Some call \<Longrightarrow> i \<in> set (pc_appearance_ids call) \<Longrightarrow>
      \<exists>a. hm_get (rg_appearances r) i = Some a \<and> ap_pbx_id a = p"
    and "\<And>i a. hm_get (rg_appearances r) i = Some a \<Longrightarrow> ap_id a = i"
    and "\<And>i a. hm_get (rg_appearances r) i = Some a \<Longrightarrow> hm_get (rg_by_sccp r) (ap_sccp_id a) = Some i"
    and "\<And>i a. hm_get (rg_appearances r) i = Some a \<Longrightarrow>
      \<exists>s. hm_get (rg_by_device r) (ap_device_id a) = Some s \<and> i \<in> set s"
    and "\<And>i a. hm_get (rg_appearances r) i = Some a \<Longrightarrow>
      \<exists>call. hm_get (rg_pbx r) (ap_pbx_id a) = Some call \<and> i \<in> set (pc_appearance_ids call)"
    and "\<And>k i. hm_get (rg_by_sccp r) k = Some i \<Longrightarrow> \<exists>a. hm_get (rg_appearances r) i = Some a \<and> ap_sccp_id a = k"
    and "\<And>d s i. hm_get (rg_by_device r) d = Some s \<Longrightarrow> i \<in> set s \<Longrightarrow>
      \<exists>a. hm_get (rg_appearances r) i = Some a \<and> ap_device_id a = d"
  shows "index_ok r"
  unfolding index_ok_def using assms by simp

lemma attach_appearance_refused: "\<not> fst (attach_appearance a r) \<Longrightarrow> snd (attach_appearance a r) = r"
  unfolding attach_appearance_def by (auto split: if_splits)

lemma attach_appearance_accepted:
  assumes "attach_appearance a r = (True, r')"
  shows "hm_contains (rg_pbx r) (ap_pbx_id a)" "hm_get (rg_appearances r) (ap_id a) = None"
    "hm_get (rg_by_sccp r) (ap_sccp_id a) = None"
    and "r' = r\<lparr>
         rg_appearances := hm_insert (ap_id a) a (rg_appearances r),
         rg_by_sccp := hm_insert (ap_sccp_id a) (ap_id a) (rg_by_sccp r),
         rg_by_device := hm_insert (ap_device_id a)
           (List.insert (ap_id a) (case hm_get (rg_by_device r) (ap_device_id a) of None \<Rightarrow> [] | Some s \<Rightarrow> s))
           (rg_by_device r),
         rg_pbx := hm_modify (ap_pbx_id a)
           (\<lambda>call. call\<lparr>pc_appearance_ids := pc_appearance_ids call @ [ap_id a]\<rparr>) (rg_pbx r)\<rparr>"
  using assms by (auto simp: attach_appearance_def hm_contains_def split: if_splits)

lemma index_ok_attach_accepted:
  assumes ok: "index_ok r" and att: "attach_appearance a r = (True, r')"
  shows "index_ok r'"
proof -
  note acc = attach_appearance_accepted [OF att] and wf = index_ok_wf [OF ok]
  let ?i = "ap_id a"
  have app: "hm_get (rg_appearances r') k = (if k = ?i then Some a else hm_get (rg_appearances r) k)" for k
    unfolding acc(4) by simp
  have sccp: "hm_get (rg_by_sccp r') k = (if k = ap_sccp_id a then Some ?i else hm_get (rg_by_sccp r) k)" for k
    unfolding acc(4) by simp
  have dev: "hm_get (rg_by_device r') k = (if k = ap_device_id a
      then Some (List.insert ?i (case hm_get (rg_by_device r) k of None \<Rightarrow> [] | Some s \<Rightarrow> s))
      else hm_get (rg_by_device r) k)" for k
    unfolding acc(4) by simp
  have pbx: "hm_get (rg_pbx r') p = (if p = ap_pbx_id a
      then map_option (\<lambda>call. call\<lparr>pc_appearance_ids := pc_appearance_ids call @ [?i]\<rparr>) (hm_get (rg_pbx r) p)
      else hm_get (rg_pbx r) p)" for p
    unfolding acc(4) by simp
  have fresh: "?i \<notin> set (pc_appearance_ids call)" if "hm_get (rg_pbx r) p = Some call" for p call
    using index_ok_pbx(3) [OF ok that, of ?i] acc(2) by auto
  show ?thesis
  proof (rule index_okI)
    show "hm_wf (rg_pbx r')" "hm_wf (rg_appearances r')" "hm_wf (rg_by_sccp r')" "hm_wf (rg_by_device r')"
      unfolding acc(4) using wf by simp_all
  next
    fix p call assume c: "hm_get (rg_pbx r') p = Some call"
    then obtain call0 where c0: "hm_get (rg_pbx r) p = Some call0"
      and ids: "pc_appearance_ids call = pc_appearance_ids call0 @ (if p = ap_pbx_id a then [?i] else [])"
      and idc: "pc_id call = pc_id call0"
      unfolding pbx by (auto split: if_splits)
    show "pc_id call = p" using index_ok_pbx(1) [OF ok c0] idc by simp
    show "distinct (pc_appearance_ids call)" using index_ok_pbx(2) [OF ok c0] fresh [OF c0] ids by simp
    fix i assume "i \<in> set (pc_appearance_ids call)"
    then show "\<exists>b. hm_get (rg_appearances r') i = Some b \<and> ap_pbx_id b = p"
      unfolding app using index_ok_pbx(3) [OF ok c0, of i] ids acc(2) by (auto split: if_splits)
  next
    fix i b assume b: "hm_get (rg_appearances r') i = Some b"
    then have cases: "i = ?i \<and> b = a \<or> i \<noteq> ?i \<and> hm_get (rg_appearances r) i = Some b"
      unfolding app by (auto split: if_splits)
    show "ap_id b = i" using cases index_ok_appearance(1) [OF ok, of i b] by auto
    show "hm_get (rg_by_sccp r') (ap_sccp_id b) = Some i"
      unfolding sccp using cases index_ok_appearance(2) [OF ok, of i b] acc(3) by auto
    show "\<exists>s. hm_get (rg_by_device r') (ap_device_id b) = Some s \<and> i \<in> set s"
      unfolding dev using cases index_ok_appearance(3) [OF ok, of i b] by auto
    show "\<exists>call. hm_get (rg_pbx r') (ap_pbx_id b) = Some call \<and> i \<in> set (pc_appearance_ids call)"
      unfolding pbx using cases index_ok_appearance(4) [OF ok, of i b] acc(1) by (auto simp: hm_contains_def)
  next
    fix k i assume "hm_get (rg_by_sccp r') k = Some i"
    then show "\<exists>b. hm_get (rg_appearances r') i = Some b \<and> ap_sccp_id b = k"
      unfolding sccp app using index_ok_call [OF ok, of k i] acc(2) by (auto split: if_splits)
  next
    fix d s i assume "hm_get (rg_by_device r') d = Some s" and i: "i \<in> set s"
    then have "i = ?i \<and> d = ap_device_id a \<or> (\<exists>s0. hm_get (rg_by_device r) d = Some s0 \<and> i \<in> set s0)"
      unfolding dev by (auto split: if_splits option.splits)
    then show "\<exists>b. hm_get (rg_appearances r') i = Some b \<and> ap_device_id b = d"
      unfolding app using index_ok_device [OF ok, of d _ i] acc(2) by (auto split: if_splits)
  qed
qed

lemma index_ok_attach:
  assumes "index_ok r"
  shows "index_ok (snd (attach_appearance a r))"
proof (cases "fst (attach_appearance a r)")
  case True
  then have "attach_appearance a r = (True, snd (attach_appearance a r))" by (simp add: prod_eq_iff)
  then show ?thesis by (rule index_ok_attach_accepted [OF assms])
qed (use assms in \<open>simp add: attach_appearance_refused\<close>)

text \<open>A call without appearances changes nothing for those that have some.\<close>

lemma index_ok_new_call:
  assumes ok: "index_ok r" and "hm_get (rg_pbx r) (pc_id call) = None" and "pc_appearance_ids call = []"
  shows "index_ok (r\<lparr>rg_pbx := hm_insert (pc_id call) call (rg_pbx r)\<rparr>)"
proof (rule index_okI)
  fix p c assume "hm_get (rg_pbx (r\<lparr>rg_pbx := hm_insert (pc_id call) call (rg_pbx r)\<rparr>)) p = Some c"
  then have c: "p = pc_id call \<and> c = call \<or> hm_get (rg_pbx r) p = Some c" by (auto split: if_splits)
  show "pc_id c = p" "distinct (pc_appearance_ids c)"
    using c index_ok_pbx(1,2) [OF ok, of p c] assms(3) by auto
  fix i assume "i \<in> set (pc_appearance_ids c)"
  with c index_ok_pbx(3) [OF ok, of p c i] assms(3)
  show "\<exists>a. hm_get (rg_appearances (r\<lparr>rg_pbx := hm_insert (pc_id call) call (rg_pbx r)\<rparr>)) i = Some a \<and> ap_pbx_id a = p"
    by auto
next
  fix i a assume a: "hm_get (rg_appearances (r\<lparr>rg_pbx := hm_insert (pc_id call) call (rg_pbx r)\<rparr>)) i = Some a"
  then have a': "hm_get (rg_appearances r) i = Some a" by simp
  from index_ok_appearance(4) [OF ok a'] assms(2)
  show "\<exists>c. hm_get (rg_pbx (r\<lparr>rg_pbx := hm_insert (pc_id call) call (rg_pbx r)\<rparr>)) (ap_pbx_id a) = Some c
      \<and> i \<in> set (pc_appearance_ids c)" by auto
  show "ap_id a = i" "hm_get (rg_by_sccp (r\<lparr>rg_pbx := hm_insert (pc_id call) call (rg_pbx r)\<rparr>)) (ap_sccp_id a) = Some i"
    "\<exists>s. hm_get (rg_by_device (r\<lparr>rg_pbx := hm_insert (pc_id call) call (rg_pbx r)\<rparr>)) (ap_device_id a) = Some s \<and> i \<in> set s"
    using index_ok_appearance(1-3) [OF ok a'] by simp_all
qed (use index_ok_wf [OF ok] index_ok_call [OF ok] index_ok_device [OF ok] in simp_all)

lemma hm_remove_insert: "hm_get m k = None \<Longrightarrow> hm_remove k (hm_insert k v m) = m"
  by (induction m) (auto simp: hm_remove_def hm_insert_def split: if_splits)

lemma insert_pbx_call_refused:
  assumes "\<not> fst (insert_pbx_call call a r)"
  shows "snd (insert_pbx_call call a r) = r"
proof (cases "pc_id call \<noteq> ap_pbx_id a \<or> pc_appearance_ids call \<noteq> [] \<or> hm_contains (rg_pbx r) (pc_id call)")
  case False
  let ?r = "r\<lparr>rg_pbx := hm_insert (pc_id call) call (rg_pbx r)\<rparr>"
  have "\<not> fst (attach_appearance a ?r)"
    using assms False by (simp add: insert_pbx_call_def split: prod.splits bool.splits)
  then have "attach_appearance a ?r = (False, ?r)"
    by (simp add: prod_eq_iff attach_appearance_refused)
  then show ?thesis using False
    by (simp add: insert_pbx_call_def hm_contains_def hm_remove_insert)
qed (simp add: insert_pbx_call_def)

lemma insert_pbx_call_accepted:
  assumes "insert_pbx_call call a r = (True, r')"
  shows "pc_id call = ap_pbx_id a" "pc_appearance_ids call = []" "hm_get (rg_pbx r) (pc_id call) = None"
    and "attach_appearance a (r\<lparr>rg_pbx := hm_insert (pc_id call) call (rg_pbx r)\<rparr>) = (True, r')"
  using assms by (auto simp: insert_pbx_call_def hm_contains_def split: if_splits prod.splits bool.splits)

lemma calls_ok_insert:
  assumes ok: "calls_ok r" and ins: "insert_pbx_call call a r = (True, r')"
    and pick: "(pc_pending_pickup call \<noteq> None) = (pc_state call = StPickupCollecting)"
    and act: "pc_active_appearance call = (if owning (ap_state a) then Some (ap_id a) else None)"
  shows "calls_ok r'"
proof -
  have idx: "index_ok r" and st: "states_ok r" using ok by (simp_all add: calls_ok_def)
  note acc = insert_pbx_call_accepted [OF ins]
  note att = attach_appearance_accepted [OF acc(4)]
  have "index_ok r'"
    by (rule index_ok_attach_accepted [OF index_ok_new_call [OF idx acc(3,2)] acc(4)])
  moreover have "states_ok r'"
  proof (rule states_okI)
    fix p c assume c: "hm_get (rg_pbx r') p = Some c"
    have app: "hm_get (rg_appearances r') i = (if i = ap_id a then Some a else hm_get (rg_appearances r) i)" for i
      unfolding att(4) by simp
    show "owner_ok r' p c"
    proof (cases "p = pc_id call")
      case True
      then have fields: "pc_pending_pickup c = pc_pending_pickup call" "pc_state c = pc_state call"
        "pc_active_appearance c = pc_active_appearance call"
        using c acc(1) unfolding att(4) by auto
      have none: "ap_pbx_id b \<noteq> p" if "hm_get (rg_appearances r) i = Some b" for i b
        using index_ok_appearance(4) [OF idx that] acc(3) True by auto
      show ?thesis
      proof (rule owner_okI)
        show "(pc_pending_pickup c \<noteq> None) = (pc_state c = StPickupCollecting)" unfolding fields by (rule pick)
        fix i assume "pc_active_appearance c = Some i"
        then show "\<exists>b. hm_get (rg_appearances r') i = Some b \<and> ap_pbx_id b = p \<and> owning (ap_state b)"
          unfolding fields act app using acc(1) True by (simp split: if_splits)
      next
        fix i b assume "hm_get (rg_appearances r') i = Some b" "ap_pbx_id b = p" "owning (ap_state b)"
        with none [of i b] show "pc_active_appearance c = Some i"
          unfolding fields act app by (simp split: if_splits)
      qed
    next
      case False
      then have c0: "hm_get (rg_pbx r) p = Some c" using c acc(1) unfolding att(4) by simp
      show ?thesis
        by (rule owner_ok_cong [OF states_okD [OF st c0]])
          (use False acc(1) att(2) in \<open>auto simp: app split: if_splits\<close>)
    qed
  qed
  ultimately show ?thesis by (simp add: calls_ok_def)
qed

lemma calls_ok_attach:
  assumes ok: "calls_ok r" and att: "attach_appearance a r = (True, r')" and "\<not> owning (ap_state a)"
  shows "calls_ok r'"
proof -
  have idx: "index_ok r" and st: "states_ok r" using ok by (simp_all add: calls_ok_def)
  note acc = attach_appearance_accepted [OF att]
  have "states_ok r'"
  proof (rule states_okI)
    fix p c assume "hm_get (rg_pbx r') p = Some c"
    then obtain c0 where c0: "hm_get (rg_pbx r) p = Some c0"
      and fields: "pc_pending_pickup c = pc_pending_pickup c0" "pc_state c = pc_state c0"
        "pc_active_appearance c = pc_active_appearance c0"
      unfolding acc(4) by (auto split: if_splits)
    have app: "hm_get (rg_appearances r') i = (if i = ap_id a then Some a else hm_get (rg_appearances r) i)" for i
      unfolding acc(4) by simp
    show "owner_ok r' p c"
      by (rule owner_ok_cong [OF states_okD [OF st c0] fields])
        (use acc(2) assms(3) in \<open>auto simp: app split: if_splits\<close>)
  qed
  with index_ok_attach_accepted [OF idx att] show ?thesis by (simp add: calls_ok_def)
qed

lemma unlink_appearance_get:
  assumes "hm_get (rg_appearances r) i = Some a" and "unlink_appearance i r = (x, r')"
  shows "x = Some a"
    and "hm_get (rg_appearances r') k = (if k = i then None else hm_get (rg_appearances r) k)"
    and "hm_get (rg_by_sccp r') c = (if c = ap_sccp_id a then None else hm_get (rg_by_sccp r) c)"
    and "hm_get (rg_pbx r') p = (if p = ap_pbx_id a
      then map_option (\<lambda>call. call\<lparr>pc_appearance_ids := filter (\<lambda>k. k \<noteq> i) (pc_appearance_ids call),
        pc_active_appearance := (if pc_active_appearance call = Some i then None else pc_active_appearance call)\<rparr>)
        (hm_get (rg_pbx r) p)
      else hm_get (rg_pbx r) p)"
    and "hm_get (rg_by_device r') d = Some s \<Longrightarrow> \<exists>s0. hm_get (rg_by_device r) d = Some s0
      \<and> set s = (if d = ap_device_id a then set s0 - {i} else set s0)"
    and "hm_get (rg_by_device r) d = Some s0 \<Longrightarrow> k \<in> set s0 \<Longrightarrow> k \<noteq> i \<Longrightarrow>
      \<exists>s. hm_get (rg_by_device r') d = Some s \<and> k \<in> set s"
    and "hm_get (rg_pbx r) p = Some c0 \<Longrightarrow> \<exists>c. hm_get (rg_pbx r') p = Some c
      \<and> set (pc_appearance_ids c) = (if p = ap_pbx_id a then set (pc_appearance_ids c0) - {i} else set (pc_appearance_ids c0))"
  using assms by (auto simp: unlink_appearance_def removeAll_filter_not_eq filter_empty_conv split: option.splits if_splits)

lemma unlink_appearance_call:
  assumes "hm_get (rg_appearances r) i = Some a" and "unlink_appearance i r = (x, r')" and "hm_get (rg_pbx r') p = Some call"
  obtains call0 where "hm_get (rg_pbx r) p = Some call0"
    "pc_id call = pc_id call0" "pc_state call = pc_state call0" "pc_pending_pickup call = pc_pending_pickup call0"
    "pc_appearance_ids call = (if p = ap_pbx_id a then filter (\<lambda>k. k \<noteq> i) (pc_appearance_ids call0) else pc_appearance_ids call0)"
    "pc_active_appearance call = (if p = ap_pbx_id a \<and> pc_active_appearance call0 = Some i then None else pc_active_appearance call0)"
proof -
  note get = unlink_appearance_get(4) [OF assms(1,2), of p]
  from assms(3) obtain call0 where c0: "hm_get (rg_pbx r) p = Some call0"
    unfolding get by (cases "hm_get (rg_pbx r) p") (simp_all split: if_splits)
  have "Some call = (if p = ap_pbx_id a then Some (call0\<lparr>pc_appearance_ids := filter (\<lambda>k. k \<noteq> i) (pc_appearance_ids call0),
      pc_active_appearance := (if pc_active_appearance call0 = Some i then None else pc_active_appearance call0)\<rparr>)
      else Some call0)"
    unfolding assms(3) [symmetric] get c0 by simp
  then show thesis by (intro that [OF c0]) (cases "p = ap_pbx_id a"; simp)+
qed

lemma unlink_appearance_wf:
  assumes "hm_wf (rg_pbx r)" "hm_wf (rg_appearances r)" "hm_wf (rg_by_sccp r)" "hm_wf (rg_by_device r)"
  shows "hm_wf (rg_pbx (snd (unlink_appearance i r)))" "hm_wf (rg_appearances (snd (unlink_appearance i r)))"
    "hm_wf (rg_by_sccp (snd (unlink_appearance i r)))" "hm_wf (rg_by_device (snd (unlink_appearance i r)))"
  using assms by (simp_all add: unlink_appearance_def split: option.split)

lemma index_ok_unlink:
  assumes ok: "index_ok r"
  shows "index_ok (snd (unlink_appearance i r))"
proof (cases "hm_get (rg_appearances r) i")
  case None
  then show ?thesis using ok by (simp add: unlink_appearance_def)
next
  case (Some a)
  define r' where "r' = snd (unlink_appearance i r)"
  have un: "unlink_appearance i r = (fst (unlink_appearance i r), r')" by (simp add: r'_def)
  note get = unlink_appearance_get [OF Some un] and wf = index_ok_wf [OF ok]
  have i: "ap_id a = i" "hm_get (rg_by_sccp r) (ap_sccp_id a) = Some i"
    using index_ok_appearance [OF ok Some] by simp_all
  show ?thesis unfolding r'_def [symmetric]
  proof (rule index_okI)
    show "hm_wf (rg_pbx r')" "hm_wf (rg_appearances r')" "hm_wf (rg_by_sccp r')" "hm_wf (rg_by_device r')"
      unfolding r'_def by (rule unlink_appearance_wf [OF wf])+
  next
    fix p call assume "hm_get (rg_pbx r') p = Some call"
    from unlink_appearance_call [OF Some un this] obtain call0 where c0: "hm_get (rg_pbx r) p = Some call0"
      and idc: "pc_id call = pc_id call0"
      and ids: "pc_appearance_ids call = (if p = ap_pbx_id a then filter (\<lambda>k. k \<noteq> i) (pc_appearance_ids call0)
        else pc_appearance_ids call0)" .
    show "pc_id call = p" using index_ok_pbx(1) [OF ok c0] idc by simp
    show "distinct (pc_appearance_ids call)" using index_ok_pbx(2) [OF ok c0] ids by simp
    fix k assume k: "k \<in> set (pc_appearance_ids call)"
    then have "k \<in> set (pc_appearance_ids call0)" using ids by (auto split: if_splits)
    from index_ok_pbx(3) [OF ok c0 this] obtain b where b: "hm_get (rg_appearances r) k = Some b" "ap_pbx_id b = p"
      by blast
    have "k \<noteq> i" using k ids b Some by (auto split: if_splits)
    with b show "\<exists>b. hm_get (rg_appearances r') k = Some b \<and> ap_pbx_id b = p" unfolding get(2) by simp
  next
    fix k b assume "hm_get (rg_appearances r') k = Some b"
    then have b: "hm_get (rg_appearances r) k = Some b" and ki: "k \<noteq> i" unfolding get(2) by (auto split: if_splits)
    note kb = index_ok_appearance [OF ok b]
    show "ap_id b = k" by (rule kb(1))
    have "ap_sccp_id b \<noteq> ap_sccp_id a" using kb(2) i(2) ki by auto
    then show "hm_get (rg_by_sccp r') (ap_sccp_id b) = Some k" unfolding get(3) using kb(2) by simp
    show "\<exists>s. hm_get (rg_by_device r') (ap_device_id b) = Some s \<and> k \<in> set s"
      using kb(3) get(6) ki by blast
    show "\<exists>call. hm_get (rg_pbx r') (ap_pbx_id b) = Some call \<and> k \<in> set (pc_appearance_ids call)"
      using kb(4) get(7) [of "ap_pbx_id b"] ki by force
  next
    fix c k assume "hm_get (rg_by_sccp r') c = Some k"
    then have c: "hm_get (rg_by_sccp r) c = Some k" and "c \<noteq> ap_sccp_id a" unfolding get(3) by (auto split: if_splits)
    from index_ok_call [OF ok c] this(2) Some show "\<exists>b. hm_get (rg_appearances r') k = Some b \<and> ap_sccp_id b = c"
      unfolding get(2) by auto
  next
    fix d s k assume "hm_get (rg_by_device r') d = Some s" and k: "k \<in> set s"
    from get(5) [OF this(1)] obtain s0 where s0: "hm_get (rg_by_device r) d = Some s0"
      and s: "set s = (if d = ap_device_id a then set s0 - {i} else set s0)" by blast
    from s k have "k \<in> set s0" by (auto split: if_splits)
    from index_ok_device [OF ok s0 this] obtain b where b: "hm_get (rg_appearances r) k = Some b" "ap_device_id b = d"
      by blast
    have "k \<noteq> i" using b Some s k by (auto split: if_splits)
    with b show "\<exists>b. hm_get (rg_appearances r') k = Some b \<and> ap_device_id b = d" unfolding get(2) by simp
  qed
qed

lemma calls_ok_unlink:
  assumes "calls_ok r"
  shows "calls_ok (snd (unlink_appearance i r))"
proof (cases "hm_get (rg_appearances r) i")
  case None
  then show ?thesis using assms by (simp add: unlink_appearance_def)
next
  case (Some a)
  define r' where "r' = snd (unlink_appearance i r)"
  have un: "unlink_appearance i r = (fst (unlink_appearance i r), r')" by (simp add: r'_def)
  note get = unlink_appearance_get [OF Some un]
  have idx: "index_ok r" and st: "states_ok r" using assms by (simp_all add: calls_ok_def)
  have "states_ok r'"
  proof (rule states_okI)
    fix p c assume "hm_get (rg_pbx r') p = Some c"
    from unlink_appearance_call [OF Some un this] obtain c0 where c0: "hm_get (rg_pbx r) p = Some c0"
      and fields: "pc_state c = pc_state c0" "pc_pending_pickup c = pc_pending_pickup c0"
      and act: "pc_active_appearance c = (if p = ap_pbx_id a \<and> pc_active_appearance c0 = Some i then None
        else pc_active_appearance c0)" .
    note own = owner_okD [OF states_okD [OF st c0]]
    show "owner_ok r' p c"
    proof (rule owner_okI)
      show "(pc_pending_pickup c \<noteq> None) = (pc_state c = StPickupCollecting)" unfolding fields by (rule own(1))
      fix k assume k: "pc_active_appearance c = Some k"
      then have k0: "pc_active_appearance c0 = Some k" unfolding act by (simp split: if_splits)
      from own(2) [OF this] obtain b where b: "hm_get (rg_appearances r) k = Some b" "ap_pbx_id b = p" "owning (ap_state b)"
        by blast
      have "k \<noteq> i" using k k0 b Some unfolding act by (auto split: if_splits)
      with b show "\<exists>b. hm_get (rg_appearances r') k = Some b \<and> ap_pbx_id b = p \<and> owning (ap_state b)"
        unfolding get(2) by simp
    next
      fix k b assume b: "hm_get (rg_appearances r') k = Some b" "ap_pbx_id b = p" "owning (ap_state b)"
      then have "hm_get (rg_appearances r) k = Some b" "k \<noteq> i" unfolding get(2) by (auto split: if_splits)
      with own(3) [OF _ b(2,3), of k] show "pc_active_appearance c = Some k" unfolding act by simp
    qed
  qed
  with index_ok_unlink [OF idx, of i] show ?thesis by (simp add: calls_ok_def r'_def)
qed

text \<open>
  Two registries with the same skeleton: the same calls with the same appearances on the
  same phones. The operations of call control that neither create nor end a presentation
  keep the skeleton.
\<close>

definition same_skeleton :: "'x call_registry \<Rightarrow> 'x call_registry \<Rightarrow> bool" where
  "same_skeleton r r' \<longleftrightarrow>
     rg_by_sccp r' = rg_by_sccp r \<and> rg_by_device r' = rg_by_device r
     \<and> hm_wf (rg_pbx r') \<and> hm_wf (rg_appearances r')
     \<and> (\<forall>p. map_option (\<lambda>c. (pc_id c, pc_appearance_ids c)) (hm_get (rg_pbx r') p)
           = map_option (\<lambda>c. (pc_id c, pc_appearance_ids c)) (hm_get (rg_pbx r) p))
     \<and> (\<forall>i. map_option (\<lambda>a. (ap_id a, ap_sccp_id a, ap_pbx_id a, ap_device_id a)) (hm_get (rg_appearances r') i)
           = map_option (\<lambda>a. (ap_id a, ap_sccp_id a, ap_pbx_id a, ap_device_id a)) (hm_get (rg_appearances r) i))"

lemma same_skeleton_pbx:
  assumes "same_skeleton r r'"
  shows "hm_get (rg_pbx r') p = Some c \<Longrightarrow>
      \<exists>c0. hm_get (rg_pbx r) p = Some c0 \<and> pc_id c0 = pc_id c \<and> pc_appearance_ids c0 = pc_appearance_ids c"
    and "hm_get (rg_pbx r) p = Some c0 \<Longrightarrow>
      \<exists>c. hm_get (rg_pbx r') p = Some c \<and> pc_id c = pc_id c0 \<and> pc_appearance_ids c = pc_appearance_ids c0"
proof -
  have *: "map_option (\<lambda>c. (pc_id c, pc_appearance_ids c)) (hm_get (rg_pbx r') p)
           = map_option (\<lambda>c. (pc_id c, pc_appearance_ids c)) (hm_get (rg_pbx r) p)"
    using assms unfolding same_skeleton_def by blast
  show "hm_get (rg_pbx r') p = Some c \<Longrightarrow>
      \<exists>c0. hm_get (rg_pbx r) p = Some c0 \<and> pc_id c0 = pc_id c \<and> pc_appearance_ids c0 = pc_appearance_ids c"
    using * by (cases "hm_get (rg_pbx r) p") auto
  show "hm_get (rg_pbx r) p = Some c0 \<Longrightarrow>
      \<exists>c. hm_get (rg_pbx r') p = Some c \<and> pc_id c = pc_id c0 \<and> pc_appearance_ids c = pc_appearance_ids c0"
    using * by (cases "hm_get (rg_pbx r') p") auto
qed

lemma same_skeleton_appearance:
  assumes "same_skeleton r r'"
  shows "hm_get (rg_appearances r') i = Some a \<Longrightarrow> \<exists>b. hm_get (rg_appearances r) i = Some b
      \<and> ap_id b = ap_id a \<and> ap_sccp_id b = ap_sccp_id a \<and> ap_pbx_id b = ap_pbx_id a \<and> ap_device_id b = ap_device_id a"
    and "hm_get (rg_appearances r) i = Some b \<Longrightarrow> \<exists>a. hm_get (rg_appearances r') i = Some a
      \<and> ap_id a = ap_id b \<and> ap_sccp_id a = ap_sccp_id b \<and> ap_pbx_id a = ap_pbx_id b \<and> ap_device_id a = ap_device_id b"
proof -
  have *: "map_option (\<lambda>a. (ap_id a, ap_sccp_id a, ap_pbx_id a, ap_device_id a)) (hm_get (rg_appearances r') i)
           = map_option (\<lambda>a. (ap_id a, ap_sccp_id a, ap_pbx_id a, ap_device_id a)) (hm_get (rg_appearances r) i)"
    using assms unfolding same_skeleton_def by blast
  show "hm_get (rg_appearances r') i = Some a \<Longrightarrow> \<exists>b. hm_get (rg_appearances r) i = Some b
      \<and> ap_id b = ap_id a \<and> ap_sccp_id b = ap_sccp_id a \<and> ap_pbx_id b = ap_pbx_id a \<and> ap_device_id b = ap_device_id a"
    using * by (cases "hm_get (rg_appearances r) i") auto
  show "hm_get (rg_appearances r) i = Some b \<Longrightarrow> \<exists>a. hm_get (rg_appearances r') i = Some a
      \<and> ap_id a = ap_id b \<and> ap_sccp_id a = ap_sccp_id b \<and> ap_pbx_id a = ap_pbx_id b \<and> ap_device_id a = ap_device_id b"
    using * by (cases "hm_get (rg_appearances r') i") auto
qed

lemma index_ok_skeleton:
  assumes ok: "index_ok r" and sk: "same_skeleton r r'"
  shows "index_ok r'"
proof (rule index_okI)
  have eq: "rg_by_sccp r' = rg_by_sccp r" "rg_by_device r' = rg_by_device r"
    and wf': "hm_wf (rg_pbx r')" "hm_wf (rg_appearances r')"
    using sk unfolding same_skeleton_def by simp_all
  show "hm_wf (rg_pbx r')" "hm_wf (rg_appearances r')" by fact+
  show "hm_wf (rg_by_sccp r')" "hm_wf (rg_by_device r')" unfolding eq using index_ok_wf [OF ok] by simp_all
  note pbx = same_skeleton_pbx [OF sk] and app = same_skeleton_appearance [OF sk]
  fix p c assume "hm_get (rg_pbx r') p = Some c"
  from pbx(1) [OF this] obtain c0 where c0: "hm_get (rg_pbx r) p = Some c0" "pc_id c0 = pc_id c"
    "pc_appearance_ids c0 = pc_appearance_ids c" by blast
  show "pc_id c = p" "distinct (pc_appearance_ids c)" using index_ok_pbx(1,2) [OF ok c0(1)] c0(2,3) by simp_all
  fix i assume "i \<in> set (pc_appearance_ids c)"
  with index_ok_pbx(3) [OF ok c0(1), of i] c0(3) obtain b where "hm_get (rg_appearances r) i = Some b" "ap_pbx_id b = p"
    by auto
  with app(2) [OF this(1)] show "\<exists>a. hm_get (rg_appearances r') i = Some a \<and> ap_pbx_id a = p" by auto
next
  have eq: "rg_by_sccp r' = rg_by_sccp r" "rg_by_device r' = rg_by_device r"
    using sk unfolding same_skeleton_def by simp_all
  note pbx = same_skeleton_pbx [OF sk] and app = same_skeleton_appearance [OF sk]
  {
    fix i a assume "hm_get (rg_appearances r') i = Some a"
    from app(1) [OF this] obtain b where b: "hm_get (rg_appearances r) i = Some b"
      and bf: "ap_id b = ap_id a" "ap_sccp_id b = ap_sccp_id a" "ap_pbx_id b = ap_pbx_id a" "ap_device_id b = ap_device_id a"
      by blast
    note ib = index_ok_appearance [OF ok b, unfolded bf]
    show "ap_id a = i" "hm_get (rg_by_sccp r') (ap_sccp_id a) = Some i"
      "\<exists>s. hm_get (rg_by_device r') (ap_device_id a) = Some s \<and> i \<in> set s"
      unfolding eq using ib by simp_all
    from ib(4) pbx(2) show "\<exists>c. hm_get (rg_pbx r') (ap_pbx_id a) = Some c \<and> i \<in> set (pc_appearance_ids c)"
      by metis
  next
    fix k i assume "hm_get (rg_by_sccp r') k = Some i"
    with index_ok_call [OF ok, of k i] app(2) [of i] eq
    show "\<exists>a. hm_get (rg_appearances r') i = Some a \<and> ap_sccp_id a = k" by fastforce
  next
    fix d s i assume "hm_get (rg_by_device r') d = Some s" "i \<in> set s"
    with index_ok_device [OF ok, of d s i] app(2) [of i] eq
    show "\<exists>a. hm_get (rg_appearances r') i = Some a \<and> ap_device_id a = d" by fastforce
  }
qed

end
