(* ===== verification/Call_Control.thy ===== *)
theory Call_Control
  imports Call_Registry Voicemail Call_Transfer Forwarding
begin

text \<open>
  Call control, \<^verbatim>\<open>Controller\<close> of \<^verbatim>\<open>asterisk-module/src/runtime/controller.rs\<close> with its domains
  \<^verbatim>\<open>call_registry.rs\<close> and \<^verbatim>\<open>voicemail.rs\<close>: outgoing and offered calls, answer, hold and resume,
  switching between calls, steal and barge of shared calls, redirects and hangup, each
  with the effects that it hands to the backend and to the handsets. An operation
  signals by an empty list of effects that it did nothing; its callers decide by that.

  The controller record has the parts that these operations read or write. Of a
  conference they only ask whether a call is in one and which bridge it has; a device
  is its session, its audio codecs and what it shows.
\<close>

section \<open>Effects\<close>

datatype handset_call_state =
    HsOffHook | HsOnHook | HsRingOut | HsRingIn | HsConnected | HsBusy | HsCongestion | HsHold
  | HsCallWaiting | HsTransfer | HsPark | HsProceed | HsRemoteMultiline | HsInvalidNumber
  | HsHoldYellow | HsIntercomOneWay | HsHoldRed

type_synonym pbx_bridge_id = u64

datatype barge_operation =
    BargeJoin pbx_bridge_id pbx_call_id pbx_call_id
  | BargeLeave pbx_bridge_id pbx_call_id bool

datatype pickup_operation =
    GroupPickup pbx_call_id device_id call_id codec bool
  | DirectedPickup pbx_call_id device_id call_id codec rust_str rust_str bool

datatype parking_operation =
    ParkCall pbx_call_id "rust_str option"
  | RetrieveCall pbx_call_id "rust_str option" rust_str

datatype pbx_effect =
    CreateChannel call_id pbx_call_id line_binding codec
  | StartRouting pbx_call_id rust_str rust_str
  | SendDigit pbx_call_id nat
  | PbxPickup pickup_operation
  | PbxParking parking_operation
  | PbxVoicemail voicemail_operation
  | PbxHangup pbx_call_id
  | PbxHold pbx_call_id
  | PbxResume pbx_call_id
  | PbxBarge barge_operation

datatype handset_effect =
    StartTone device_id call_id tone
  | BeginMedia device_id call_id codec
  | BeginAnswerMedia device_id call_id codec
  | BeginEarlyMedia device_id call_id codec
  | BeginOutboundMedia device_id call_id codec
  | CommitOutboundCall device_id call_id call_info
  | PresentOutboundProceeding device_id call_id call_info
  | PresentOutboundRinging device_id call_id call_info
  | SetCallInfo device_id call_id call_info
  | StopVideo device_id call_id session_generation
  | SetCallState device_id call_id handset_call_state bool
  | SetMicrophoneMode device_id call_id bool

datatype driver_effect = Backend pbx_effect | Handset handset_effect

section \<open>State\<close>

record registered_device =
  rd_session_generation :: session_generation
  rd_capabilities :: "codec list option"
  rd_selected_line :: "u32 option"
  rd_active_call :: "call_id option"
  rd_selected_calls :: "call_id list"

datatype dnd_mode = DndOff | DndSilent | DndReject

record forwarding_state =
  fs_all :: "forwarding_destination option"
  fs_busy :: "forwarding_destination option"
  fs_no_answer :: "forwarding_destination option"

record device_feature_state =
  df_dnd :: dnd_mode
  df_privacy :: bool
  df_recording_armed :: bool
  df_forwarding :: forwarding_state
  df_buttons :: "(u32, bool) hash_map"

definition device_feature_state_default :: device_feature_state where
  "device_feature_state_default = \<lparr>df_dnd = DndOff, df_privacy = False, df_recording_armed = False,
     df_forwarding = \<lparr>fs_all = None, fs_busy = None, fs_no_answer = None\<rparr>, df_buttons = []\<rparr>"

datatype shared_control_claim = Steal call_appearance_id | Barge pbx_bridge_id

datatype barge_mode = Directed | ConferenceBarge

record barge_session =
  bs_target_call_id :: pbx_call_id
  bs_barger_call_id :: pbx_call_id
  bs_bridge_id :: pbx_bridge_id
  bs_handset_call_id :: call_id
  bs_mode :: barge_mode

record barge_group =
  bg_bridge_id :: pbx_bridge_id
  bg_mode :: barge_mode
  bg_members :: "call_id list"

record call_waiting_tone_schedule =
  cw_device_id :: device_id
  cw_waiting_call_id :: call_id
  cw_active_call_id :: call_id
  cw_tone :: tone
  cw_interval :: duration
  cw_next_at :: instant

datatype auto_answer_cause = CauseBusy | CauseUnavailable | CauseCongestion

record auto_answer_request =
  aq_mode :: auto_answer_mode
  aq_unavailable_cause :: "auto_answer_cause option"

record pending_auto_answer =
  pa_generation :: u64
  pa_pbx_id :: pbx_call_id
  pa_call_id :: call_id
  pa_deadline :: instant
  pa_request :: auto_answer_request
  pa_tone :: tone

datatype conference_mutation_owner = SessionOwner u32 | DestinationOwner pbx_call_id

record line_dial_tone_config =
  ldt_initial :: tone
  ldt_secondary_prefix :: "rust_str option"
  ldt_secondary :: tone

record 'x controller =
  ct_next_pbx_id :: u64
  ct_next_appearance_id :: u64
  ct_next_bridge_id :: u64
  ct_first_digit :: duration
  ct_interdigit :: duration
  ct_dial_terminator :: nat
  ct_simulate_enbloc :: bool
  ct_overlap_devices :: "device_id list"
  ct_line_dial_tones :: "(rust_str, line_dial_tone_config) hash_map"
  ct_line_incoming_limits :: "(rust_str, u32) hash_map"
  ct_call_waiting_tones :: "(call_id, call_waiting_tone_schedule) hash_map"
  ct_pending_phone_answers :: "(call_id, pbx_call_id) hash_map"
  ct_pending_route_media :: "call_id list"
  ct_auto_answer_requests :: "(pbx_call_id, auto_answer_request) hash_map"
  ct_pending_auto_answers :: "(call_id, pending_auto_answer) hash_map"
  ct_devices :: "(device_id, registered_device) hash_map"
  ct_features :: "(device_id, device_feature_state) hash_map"
  ct_registry :: "'x call_registry"
  ct_shared_control_claims :: "(pbx_call_id, shared_control_claim) hash_map"
  ct_barge_groups :: "(pbx_call_id, barge_group) hash_map"
  ct_barge_by_handset :: "(call_id, barge_session) hash_map"
  ct_barge_by_pbx :: "(pbx_call_id, call_id) hash_map"
  ct_conference_bridges :: "(call_id, pbx_bridge_id) hash_map"
  ct_conference_by_pbx :: "(pbx_call_id, call_id) hash_map"
  ct_conference_mutations :: "(conference_mutation_owner, u64) hash_map"
  ct_transfers :: transfer_registry
  ct_voicemail :: voicemail_registry
  ct_redirect_claims :: "pbx_call_id list"

definition with_digit_timeouts :: "duration \<Rightarrow> duration \<Rightarrow> 'x controller" where
  "with_digit_timeouts first_digit interdigit = \<lparr>
     ct_next_pbx_id = 1, ct_next_appearance_id = 1, ct_next_bridge_id = 1,
     ct_first_digit = first_digit, ct_interdigit = interdigit, ct_dial_terminator = of_char CHR ''#'',
     ct_simulate_enbloc = True, ct_overlap_devices = [], ct_line_dial_tones = [], ct_line_incoming_limits = [], ct_call_waiting_tones = [], ct_pending_phone_answers = [],
     ct_pending_route_media = [], ct_auto_answer_requests = [], ct_pending_auto_answers = [],
     ct_devices = [], ct_features = [], ct_registry = call_registry_default,
     ct_shared_control_claims = [], ct_barge_groups = [], ct_barge_by_handset = [], ct_barge_by_pbx = [],
     ct_conference_bridges = [], ct_conference_by_pbx = [], ct_conference_mutations = [],
     ct_transfers = transfer_registry_default, ct_voicemail = voicemail_registry_default,
     ct_redirect_claims = []\<rparr>"

section \<open>Queries\<close>

abbreviation appearance_for_call :: "'x controller \<Rightarrow> call_id \<Rightarrow> 'x call_appearance option" where
  "appearance_for_call c call \<equiv> appearance_for call (ct_registry c)"

abbreviation pbx_call_of :: "'x controller \<Rightarrow> pbx_call_id \<Rightarrow> pbx_call option" where
  "pbx_call_of c \<equiv> hm_get (rg_pbx (ct_registry c))"

abbreviation appearance_of :: "'x controller \<Rightarrow> call_appearance_id \<Rightarrow> 'x call_appearance option" where
  "appearance_of c \<equiv> hm_get (rg_appearances (ct_registry c))"

definition call_state_of :: "'x controller \<Rightarrow> call_id \<Rightarrow> call_state option" where
  "call_state_of c call = map_option ap_state (appearance_for_call c call)"

definition in_conference :: "'x controller \<Rightarrow> call_id \<Rightarrow> bool" where
  "in_conference c call =
     (case appearance_for_call c call of
        None \<Rightarrow> False
      | Some a \<Rightarrow>
          (case hm_get (ct_conference_by_pbx c) (ap_pbx_id a) of
             None \<Rightarrow> False
           | Some consultation \<Rightarrow> hm_contains (ct_conference_bridges c) consultation))"

fun talking :: "call_state \<Rightarrow> bool" where
  "talking StCollecting = True" | "talking StCalling = True" | "talking StConnected = True"
| "talking StTransferCollecting = True" | "talking _ = False"

definition device_has_active_call :: "'x controller \<Rightarrow> device_id \<Rightarrow> bool" where
  "device_has_active_call c device =
     (case Option.bind (hm_get (ct_devices c) device) rd_active_call of
        None \<Rightarrow> False
      | Some call \<Rightarrow> (case appearance_for_call c call of None \<Rightarrow> False | Some a \<Rightarrow> talking (ap_state a)))"

definition device_is_busy :: "'x controller \<Rightarrow> device_id \<Rightarrow> bool" where
  "device_is_busy c device = list_ex (\<lambda>a. owning (ap_state a)) (appearances_for_device device (ct_registry c))"

definition device_privacy :: "'x controller \<Rightarrow> device_id \<Rightarrow> bool" where
  "device_privacy c device = (case hm_get (ct_features c) device of None \<Rightarrow> False | Some f \<Rightarrow> df_privacy f)"

definition shared_control_eligible :: "'x controller \<Rightarrow> 'x call_appearance \<Rightarrow> bool" where
  "shared_control_eligible c a =
     (ap_ring_mode a \<noteq> Disabled \<and> hm_contains (ct_devices c) (ap_device_id a)
      \<and> \<not> hm_contains (ct_shared_control_claims c) (ap_pbx_id a)
      \<and> (case pbx_call_of c (ap_pbx_id a) of None \<Rightarrow> False | Some call \<Rightarrow> \<not> pc_privacy call))"

text \<open>\<open>Codec::kind\<close>: the identifiers of the enumeration, and those that are not audio.\<close>

definition known_codecs :: "codec list" where
  "known_codecs = [0, 1, 2, 3, 4, 5, 6, 7, 8, 9, 10, 11, 12, 13, 14, 15, 16, 18, 19, 20, 25, 32, 33, 40,
     41, 42, 43, 44, 45, 46, 47, 48, 49, 80, 81, 82, 83, 84, 85, 86, 89, 90, 97, 98, 100, 101, 102, 103,
     104, 105, 106, 107, 108, 109, 110, 111, 112, 113, 114, 115, 120, 222, 257, 258, 259, 260, 261, 262,
     299, 300, 301, 302]"

datatype codec_kind = KindAudio | KindVideo | KindText | KindData | KindTelephoneEvent | KindUnknown

definition codec_kind :: "codec \<Rightarrow> codec_kind" where
  "codec_kind c =
     (if c \<in> set [100, 101, 102, 103, 104, 109, 110, 115] then KindVideo
      else if c \<in> set [105, 106] then KindText
      else if c \<in> set [32, 33, 107, 108, 111, 112, 113, 114, 120, 222, 300, 301, 302] then KindData
      else if c \<in> set [257, 258, 259, 260, 261, 299, 262] then KindTelephoneEvent
      else if c \<in> set [0, 1] \<or> c \<notin> set known_codecs then KindUnknown
      else KindAudio)"

definition device_supports_codec :: "'x controller \<Rightarrow> device_id \<Rightarrow> codec \<Rightarrow> bool" where
  "device_supports_codec c device codec =
     (codec_kind codec = KindAudio
      \<and> (case Option.bind (hm_get (ct_devices c) device) rd_capabilities of
           None \<Rightarrow> False | Some audio \<Rightarrow> codec \<in> set audio))"

section \<open>Selection\<close>

definition select_line :: "device_id \<Rightarrow> u32 \<Rightarrow> 'x controller \<Rightarrow> 'x controller" where
  "select_line device instance c =
     c\<lparr>ct_devices := hm_modify device (\<lambda>d. d\<lparr>rd_selected_line := Some instance\<rparr>) (ct_devices c)\<rparr>"

definition shows_call :: "'x controller \<Rightarrow> device_id \<Rightarrow> call_id \<Rightarrow> bool" where
  "shows_call c device call =
     (case appearance_for_call c call of None \<Rightarrow> False | Some a \<Rightarrow> ap_device_id a = device)"

definition set_active_call :: "device_id \<Rightarrow> call_id option \<Rightarrow> 'x controller \<Rightarrow> 'x controller" where
  "set_active_call device call c =
     (if (case call of None \<Rightarrow> False | Some k \<Rightarrow> \<not> shows_call c device k) then c
      else c\<lparr>ct_devices := hm_modify device (\<lambda>d. d\<lparr>rd_active_call := call\<rparr>) (ct_devices c)\<rparr>)"

definition set_call_selected :: "device_id \<Rightarrow> call_id \<Rightarrow> bool \<Rightarrow> 'x controller \<Rightarrow> 'x controller" where
  "set_call_selected device call selected c =
     (if \<not> shows_call c device call then c
      else c\<lparr>ct_devices := hm_modify device
        (\<lambda>d. d\<lparr>rd_selected_calls :=
           (if selected then List.insert call (rd_selected_calls d) else removeAll call (rd_selected_calls d))\<rparr>)
        (ct_devices c)\<rparr>)"

definition toggle_call_selected :: "device_id \<Rightarrow> call_id \<Rightarrow> 'x controller \<Rightarrow> bool option \<times> 'x controller" where
  "toggle_call_selected device call c =
     (if \<not> shows_call c device call then (None, c)
      else
        case hm_get (ct_devices c) device of
          None \<Rightarrow> (None, c)
        | Some d \<Rightarrow>
            let selected = call \<notin> set (rd_selected_calls d)
            in (Some selected, set_call_selected device call selected c))"

definition deselect :: "device_id \<Rightarrow> call_id \<Rightarrow> 'x controller \<Rightarrow> 'x controller" where
  "deselect device call c =
     c\<lparr>ct_devices := hm_modify device (\<lambda>d. d\<lparr>rd_selected_calls := removeAll call (rd_selected_calls d)\<rparr>)
         (ct_devices c)\<rparr>"

section \<open>Removal\<close>

definition remove_appearance ::
  "call_appearance_id \<Rightarrow> 'x controller \<Rightarrow> 'x call_appearance option \<times> 'x controller"
where
  "remove_appearance i c =
     (case unlink_appearance i (ct_registry c) of
        (None, _) \<Rightarrow> (None, c)
      | (Some a, r) \<Rightarrow> (Some a, c\<lparr>
          ct_registry := r,
          ct_call_waiting_tones := filter (\<lambda>(_, s). cw_waiting_call_id s \<noteq> ap_sccp_id a
            \<and> cw_active_call_id s \<noteq> ap_sccp_id a) (ct_call_waiting_tones c),
          ct_pending_phone_answers := hm_remove (ap_sccp_id a) (ct_pending_phone_answers c),
          ct_pending_route_media := removeAll (ap_sccp_id a) (ct_pending_route_media c),
          ct_shared_control_claims :=
            (if hm_get (ct_shared_control_claims c) (ap_pbx_id a) = Some (Steal i)
             then hm_remove (ap_pbx_id a) (ct_shared_control_claims c) else ct_shared_control_claims c),
          ct_devices := hm_modify (ap_device_id a)
            (\<lambda>d. d\<lparr>rd_selected_calls := removeAll (ap_sccp_id a) (rd_selected_calls d),
                   rd_active_call := (if rd_active_call d = Some (ap_sccp_id a) then None else rd_active_call d)\<rparr>)
            (ct_devices c)\<rparr>))"

definition cancel_auto_answers_for_pbx :: "pbx_call_id \<Rightarrow> 'x controller \<Rightarrow> 'x controller" where
  "cancel_auto_answers_for_pbx pbx c =
     c\<lparr>ct_auto_answer_requests := hm_remove pbx (ct_auto_answer_requests c),
       ct_pending_auto_answers := filter (\<lambda>(_, p). pa_pbx_id p \<noteq> pbx) (ct_pending_auto_answers c)\<rparr>"

text \<open>The claims of a PBX call that \<open>remove_pbx_call\<close> gives up before anything else.\<close>

definition release_pbx_claims :: "pbx_call_id \<Rightarrow> 'x controller \<Rightarrow> 'x controller" where
  "release_pbx_claims pbx c =
     cancel_auto_answers_for_pbx pbx
       (c\<lparr>ct_conference_mutations := hm_remove (DestinationOwner pbx) (ct_conference_mutations c),
          ct_voicemail :=
            (case voicemail_for_pbx (ct_voicemail c) pbx of
               None \<Rightarrow> ct_voicemail c
             | Some t \<Rightarrow> snd (voicemail_cancel (vm_device_id t) (vm_id t) (ct_voicemail c))),
          ct_redirect_claims := removeAll pbx (ct_redirect_claims c),
          ct_shared_control_claims := hm_remove pbx (ct_shared_control_claims c)\<rparr>)"

definition remove_pbx_call :: "pbx_call_id \<Rightarrow> 'x controller \<Rightarrow> pbx_call option \<times> 'x controller" where
  "remove_pbx_call pbx c =
     (let c1 = release_pbx_claims pbx c in
      case pbx_call_of c1 pbx of
        None \<Rightarrow> (None, c1)
      | Some call \<Rightarrow>
          let c2 = fold (\<lambda>i. snd \<circ> remove_appearance i) (pc_appearance_ids call) c1 in
          (map_option (\<lambda>call. call\<lparr>pc_state := StEnded, pc_digit_deadline := None\<rparr>) (pbx_call_of c2 pbx),
           c2\<lparr>ct_registry := (ct_registry c2)\<lparr>rg_pbx := hm_remove pbx (rg_pbx (ct_registry c2))\<rparr>\<rparr>))"

section \<open>New calls\<close>

text \<open>
  The identities: the loops of \<open>allocate_pbx_id\<close>, \<open>allocate_appearance_id\<close> and
  \<open>allocate_bridge_id\<close> try the counter and its successors until one is free. The loop as
  written may not end; \<open>allocate_free\<close> makes one try more than there are identities in use
  and takes the last one untested, which \<open>allocate_free_spin\<close> below shows to be the same.
\<close>

partial_function (option) allocate_spin :: "u64 \<Rightarrow> u64 list \<Rightarrow> (u64 \<times> u64) option" where
  "allocate_spin n used =
     (if n \<notin> set used then Some (n, next_nonzero n) else allocate_spin (next_nonzero n) used)"

fun allocate_free :: "nat \<Rightarrow> u64 \<Rightarrow> u64 list \<Rightarrow> u64 \<times> u64" where
  "allocate_free 0 n used = (n, next_nonzero n)"
| "allocate_free (Suc k) n used =
     (if n \<notin> set used then (n, next_nonzero n) else allocate_free k (next_nonzero n) used)"

definition allocate_pbx_id :: "'x controller \<Rightarrow> pbx_call_id \<times> 'x controller" where
  "allocate_pbx_id c =
     (let used = map fst (rg_pbx (ct_registry c));
          (i, n) = allocate_free (length used) (ct_next_pbx_id c) used
      in (i, c\<lparr>ct_next_pbx_id := n\<rparr>))"

definition allocate_appearance_id :: "'x controller \<Rightarrow> call_appearance_id \<times> 'x controller" where
  "allocate_appearance_id c =
     (let used = map fst (rg_appearances (ct_registry c));
          (i, n) = allocate_free (length used) (ct_next_appearance_id c) used
      in (i, c\<lparr>ct_next_appearance_id := n\<rparr>))"

definition allocate_bridge_id :: "'x controller \<Rightarrow> pbx_bridge_id \<times> 'x controller" where
  "allocate_bridge_id c =
     (let used = map bg_bridge_id (hm_values (ct_barge_groups c)) @ hm_values (ct_conference_bridges c);
          (i, n) = allocate_free (length used) (ct_next_bridge_id c) used
      in (i, c\<lparr>ct_next_bridge_id := n\<rparr>))"

definition saturating_succ :: "u64 \<Rightarrow> u64" where
  "saturating_succ i = (if i = - 1 then i else i + 1)"

definition display_label :: "line_appearance \<Rightarrow> rust_str" where
  "display_label a = (case la_label a of None \<Rightarrow> ld_display_name (la_line a) | Some l \<Rightarrow> l)"

definition with_registry ::
  "('x call_registry \<Rightarrow> bool \<times> 'x call_registry) \<Rightarrow> 'x controller \<Rightarrow> bool \<times> 'x controller"
where
  "with_registry f c = (case f (ct_registry c) of (b, r) \<Rightarrow> (b, c\<lparr>ct_registry := r\<rparr>))"

definition outbound_call ::
  "pbx_call_id \<Rightarrow> call_appearance_id \<Rightarrow> line_binding \<Rightarrow> bool \<Rightarrow> instant \<Rightarrow> 'x controller \<Rightarrow> pbx_call"
where
  "outbound_call pbx appearance binding privacy now c = \<lparr>
     pc_id = pbx, pc_line = lc_number (lb_line binding), pc_context = lc_context (lb_line binding),
     pc_direction = Outbound, pc_state = StCollecting, pc_outbound_phase = Some PhCollecting,
     pc_outbound_identity_stage = Awaiting, pc_digits = [], pc_privacy = privacy,
     pc_pending_pickup = None, pc_appearance_ids = [], pc_active_appearance = Some appearance,
     pc_digit_deadline = Some (now + ct_first_digit c), pc_last_digit_at = None,
     pc_simulated_enbloc_eligible = ct_simulate_enbloc c,
     pc_overlap_enabled = (lb_device_id binding \<in> set (ct_overlap_devices c))\<rparr>"

definition new_appearance ::
  "call_appearance_id \<Rightarrow> call_id \<Rightarrow> pbx_call_id \<Rightarrow> line_binding \<Rightarrow> call_state \<Rightarrow> call_info \<Rightarrow> codec \<Rightarrow> 'x call_appearance"
where
  "new_appearance i sccp pbx binding state info codec = \<lparr>
     ap_id = i, ap_sccp_id = sccp, ap_pbx_id = pbx, ap_device_id = lb_device_id binding,
     ap_line_instance = lb_line_instance binding, ap_state = state,
     ap_ring_mode = la_ring_mode (lb_appearance binding), ap_privacy = la_privacy (lb_appearance binding),
     ap_info = info, ap_codec = codec, ap_audio = StreamClosed, ap_audio_transmit = StreamClosed,
     ap_video = video_default, ap_auto_answer_mode = None\<rparr>"

text \<open>The addition of the first-digit timeout would panic beyond the clock, which is left unbounded here.\<close>

definition begin_phone_call ::
  "call_id \<Rightarrow> line_binding \<Rightarrow> codec \<Rightarrow> instant \<Rightarrow> 'x controller \<Rightarrow> driver_effect list \<times> 'x controller"
where
  "begin_phone_call sccp binding codec now c =
     (if hm_contains (rg_by_sccp (ct_registry c)) sccp then ([], c)
      else
        let device = lb_device_id binding;
            (pbx, c1) = allocate_pbx_id c;
            privacy = (la_privacy (lb_appearance binding) \<or> device_privacy c1 device);
            (appearance, c2) = allocate_appearance_id c1;
            info = call_info_default\<lparr>in_direction := Outbound,
              in_calling_name := lc_caller_name (lb_line binding),
              in_calling_number := lc_caller_number (lb_line binding)\<rparr>;
            (inserted, c3) = with_registry
              (insert_pbx_call (outbound_call pbx appearance binding privacy now c2)
                (new_appearance appearance sccp pbx binding StCollecting info codec)) c2
        in if \<not> inserted then ([], c3)
           else ([Backend (CreateChannel sccp pbx binding codec)],
             set_call_selected device sccp True
               (set_active_call device (Some sccp) (select_line device (lb_line_instance binding) c3))))"

definition inbound_call :: "pbx_call_id \<Rightarrow> rust_str \<Rightarrow> rust_str \<Rightarrow> pbx_call" where
  "inbound_call pbx line context = \<lparr>
     pc_id = pbx, pc_line = line, pc_context = context, pc_direction = Inbound, pc_state = StRinging,
     pc_outbound_phase = None, pc_outbound_identity_stage = Awaiting, pc_digits = [], pc_privacy = False,
     pc_pending_pickup = None, pc_appearance_ids = [], pc_active_appearance = None,
     pc_digit_deadline = None, pc_last_digit_at = None, pc_simulated_enbloc_eligible = False,
     pc_overlap_enabled = False\<rparr>"

definition inbound_info :: "line_binding \<Rightarrow> call_info" where
  "inbound_info binding = call_info_default\<lparr>in_direction := Inbound,
     in_called_name := display_label (lb_appearance binding), in_called_number := lc_number (lb_line binding)\<rparr>"

definition begin_asterisk_call ::
  "call_id \<Rightarrow> pbx_call_id \<Rightarrow> line_binding \<Rightarrow> codec \<Rightarrow> 'x controller \<Rightarrow> 'x controller"
where
  "begin_asterisk_call sccp pbx binding codec c =
     (if hm_contains (rg_by_sccp (ct_registry c)) sccp \<or> hm_contains (rg_pbx (ct_registry c)) pbx then c
      else
        let c1 = c\<lparr>ct_next_pbx_id := max (ct_next_pbx_id c) (saturating_succ pbx)\<rparr>;
            (appearance, c2) = allocate_appearance_id c1
        in snd (with_registry
             (insert_pbx_call (inbound_call pbx (lc_number (lb_line binding)) (lc_context (lb_line binding)))
               (new_appearance appearance sccp pbx binding StRinging (inbound_info binding) codec)) c2))"

fun shared_appearance_state :: "call_state \<Rightarrow> bool \<Rightarrow> call_state" where
  "shared_appearance_state StRinging _ = StRinging"
| "shared_appearance_state StHeld _ = StSharedHeld"
| "shared_appearance_state StConnected _ = StRemoteInUse"
| "shared_appearance_state state active =
     (if active \<and> state \<in> {StCollecting, StPickupCollecting, StCalling, StParking, StRetrieving, StTransferCollecting}
      then StRemoteInUse else state)"

definition add_call_appearance ::
  "pbx_call_id \<Rightarrow> call_id \<Rightarrow> line_binding \<Rightarrow> codec \<Rightarrow> 'x controller \<Rightarrow> call_appearance_id option \<times> 'x controller"
where
  "add_call_appearance pbx sccp binding codec c =
     (case pbx_call_of c pbx of
        None \<Rightarrow> (None, c)
      | Some call \<Rightarrow>
          if pc_line call \<noteq> lc_number (lb_line binding) then (None, c)
          else
            case Option.bind (case pc_appearance_ids call of [] \<Rightarrow> None | i # _ \<Rightarrow> Some i) (appearance_of c) of
              None \<Rightarrow> (None, c)
            | Some first \<Rightarrow>
                if hm_contains (rg_by_sccp (ct_registry c)) sccp then (None, c)
                else
                  let (i, c1) = allocate_appearance_id c;
                      state = shared_appearance_state (pc_state call) (pc_active_appearance call \<noteq> None);
                      info = (if pc_direction call = Inbound
                        then (ap_info first)\<lparr>in_called_name := display_label (lb_appearance binding),
                               in_called_number := lc_number (lb_line binding)\<rparr>
                        else ap_info first);
                      (attached, c2) = with_registry
                        (attach_appearance (new_appearance i sccp pbx binding state info codec)) c1
                  in (if attached then Some i else None, c2))"

section \<open>Answer, hold, resume and steal\<close>

definition appearance_state_effect :: "'x call_appearance \<Rightarrow> handset_call_state \<Rightarrow> bool \<Rightarrow> driver_effect" where
  "appearance_state_effect a state stop_media =
     Handset (SetCallState (ap_device_id a) (ap_sccp_id a) state stop_media)"

definition modify_call :: "pbx_call_id \<Rightarrow> (pbx_call \<Rightarrow> pbx_call) \<Rightarrow> 'x controller \<Rightarrow> 'x controller" where
  "modify_call pbx f c = c\<lparr>ct_registry := (ct_registry c)\<lparr>rg_pbx := hm_modify pbx f (rg_pbx (ct_registry c))\<rparr>\<rparr>"

definition write_appearance :: "call_appearance_id \<Rightarrow> 'x call_appearance \<Rightarrow> 'x controller \<Rightarrow> 'x controller" where
  "write_appearance i a c =
     c\<lparr>ct_registry := (ct_registry c)\<lparr>rg_appearances := hm_insert i a (rg_appearances (ct_registry c))\<rparr>\<rparr>"

text \<open>
  The loops over the appearances of a call: each appearance is rewritten, some effects are
  emitted, and the call may be deselected on the device of the appearance.
\<close>

fun for_appearances ::
  "(call_appearance_id \<Rightarrow> 'x call_appearance \<Rightarrow> 'x call_appearance \<times> driver_effect list \<times> bool)
     \<Rightarrow> call_appearance_id list \<Rightarrow> 'x controller \<Rightarrow> driver_effect list \<times> 'x controller"
where
  "for_appearances f [] c = ([], c)"
| "for_appearances f (i # ids) c =
     (case appearance_of c i of
        None \<Rightarrow> for_appearances f ids c
      | Some a \<Rightarrow>
          (case f i a of
             (a', effects, deselected) \<Rightarrow>
               let c1 = write_appearance i a' c;
                   c2 = (if deselected then deselect (ap_device_id a') (ap_sccp_id a') c1 else c1);
                   (rest, c3) = for_appearances f ids c2
               in (effects @ rest, c3)))"

definition video_effects :: "'x call_appearance \<Rightarrow> driver_effect list" where
  "video_effects a =
     (case video_cleanup_of (ap_device_id a) (ap_sccp_id a) (ap_video a) of
        None \<Rightarrow> []
      | Some v \<Rightarrow> [Handset (StopVideo (vc_device_id v) (vc_call_id v) (vc_session_generation v))])"

definition hold_step ::
  "call_appearance_id \<Rightarrow> call_appearance_id \<Rightarrow> 'x call_appearance \<Rightarrow> 'x call_appearance \<times> driver_effect list \<times> bool"
where
  "hold_step owner i a =
     (let a' = a\<lparr>ap_audio := StreamClosed, ap_audio_transmit := StreamClosed,
                 ap_video := close_streams (ap_video a)\<rparr> in
      if i = owner
      then (a'\<lparr>ap_state := StHeld\<rparr>, video_effects a @ [appearance_state_effect a HsHold True], False)
      else (a'\<lparr>ap_state := StSharedHeld\<rparr>, video_effects a @ [appearance_state_effect a HsHoldRed False], False))"

definition hold :: "call_id \<Rightarrow> 'x controller \<Rightarrow> driver_effect list \<times> 'x controller" where
  "hold call_id c =
     (case appearance_for_call c call_id of
        None \<Rightarrow> ([], c)
      | Some owner \<Rightarrow>
          (case pbx_call_of c (ap_pbx_id owner) of
             None \<Rightarrow> ([], c)
           | Some call \<Rightarrow>
               if ap_pbx_id owner \<in> set (ct_redirect_claims c)
                 \<or> hm_contains (ct_barge_groups c) (ap_pbx_id owner)
                 \<or> hm_contains (ct_pending_phone_answers c) call_id
               then ([], c)
               else if \<not> talking (pc_state call) \<or> pc_active_appearance call \<noteq> Some (ap_id owner)
               then ([], c)
               else
                 let c1 = modify_call (ap_pbx_id owner) (\<lambda>call. call\<lparr>pc_state := StHeld\<rparr>) c;
                     c2 = c1\<lparr>ct_shared_control_claims := hm_remove (ap_pbx_id owner) (ct_shared_control_claims c1)\<rparr>;
                     (effects, c3) = for_appearances (hold_step (ap_id owner)) (pc_appearance_ids call) c2;
                     c4 = (case hm_get (ct_devices c3) (ap_device_id owner) of
                             None \<Rightarrow> c3
                           | Some d \<Rightarrow> if rd_active_call d = Some call_id
                               then set_active_call (ap_device_id owner) None c3 else c3)
                 in (Backend (PbxHold (ap_pbx_id owner)) # effects,
                     set_call_selected (ap_device_id owner) call_id False c4)))"

text \<open>One appearance becomes the owner; the others show the call as in use elsewhere.\<close>

definition present_owner :: "'x call_appearance \<Rightarrow> call_id \<Rightarrow> 'x controller \<Rightarrow> 'x controller" where
  "present_owner a call c =
     set_call_selected (ap_device_id a) call True
       (set_active_call (ap_device_id a) (Some call) (select_line (ap_device_id a) (ap_line_instance a) c))"

definition resume_step ::
  "call_appearance_id \<Rightarrow> call_appearance_id option \<Rightarrow> call_appearance_id \<Rightarrow> 'x call_appearance
     \<Rightarrow> 'x call_appearance \<times> driver_effect list \<times> bool"
where
  "resume_step requester previous_owner i a =
     (if i = requester
      then (a\<lparr>ap_state := StConnected, ap_audio := StreamOpening, ap_audio_transmit := StreamClosed\<rparr>, [], False)
      else (a\<lparr>ap_state := StRemoteInUse\<rparr>,
            [appearance_state_effect a HsRemoteMultiline (previous_owner = Some i)], True))"

definition resume :: "call_id \<Rightarrow> 'x controller \<Rightarrow> driver_effect list \<times> 'x controller" where
  "resume call_id c =
     (case appearance_for_call c call_id of
        None \<Rightarrow> ([], c)
      | Some requester \<Rightarrow>
          if ap_pbx_id requester \<in> set (ct_redirect_claims c)
            \<or> hm_contains (ct_conference_by_pbx c) (ap_pbx_id requester)
          then ([], c)
          else
            case pbx_call_of c (ap_pbx_id requester) of
              None \<Rightarrow> ([], c)
            | Some call \<Rightarrow>
                if pc_state call \<noteq> StHeld \<or> ap_state requester \<notin> {StHeld, StSharedHeld}
                  \<or> (pc_active_appearance call \<noteq> Some (ap_id requester) \<and> \<not> shared_control_eligible c requester)
                then ([], c)
                else
                  let previous_owner = pc_active_appearance call;
                      privacy = (ap_privacy requester \<or> device_privacy c (ap_device_id requester));
                      c1 = modify_call (ap_pbx_id requester)
                        (\<lambda>call. call\<lparr>pc_state := StConnected, pc_active_appearance := Some (ap_id requester),
                           pc_privacy := (pc_privacy call \<or> privacy)\<rparr>) c;
                      c2 = (if previous_owner \<noteq> Some (ap_id requester)
                        then c1\<lparr>ct_shared_control_claims :=
                          hm_insert (ap_pbx_id requester) (Steal (ap_id requester)) (ct_shared_control_claims c1)\<rparr>
                        else c1);
                      (effects, c3) = for_appearances (resume_step (ap_id requester) previous_owner)
                        (pc_appearance_ids call) c2
                  in (Backend (PbxResume (ap_pbx_id requester)) # effects
                        @ [Handset (BeginMedia (ap_device_id requester) (ap_sccp_id requester) (ap_codec requester))],
                      present_owner requester call_id c3))"

definition answer_step ::
  "call_appearance_id \<Rightarrow> call_appearance_id \<Rightarrow> 'x call_appearance \<Rightarrow> 'x call_appearance \<times> driver_effect list \<times> bool"
where
  "answer_step winner i a =
     (if i = winner then (a\<lparr>ap_state := StConnected\<rparr>, [], False)
      else (a\<lparr>ap_state := StRemoteInUse\<rparr>, [appearance_state_effect a HsRemoteMultiline False], True))"

definition phone_answer :: "call_id \<Rightarrow> 'x controller \<Rightarrow> driver_effect list \<times> 'x controller" where
  "phone_answer call_id c =
     (case appearance_for_call c call_id of
        None \<Rightarrow> ([], c)
      | Some winner \<Rightarrow>
          (case pbx_call_of c (ap_pbx_id winner) of
             None \<Rightarrow> ([], c)
           | Some call \<Rightarrow>
               if ap_pbx_id winner \<in> set (ct_redirect_claims c) \<or> pc_state call \<noteq> StRinging
                 \<or> pc_active_appearance call \<noteq> None \<or> ap_state winner \<noteq> StRinging
               then ([], c)
               else
                 let c1 = cancel_auto_answers_for_pbx (ap_pbx_id winner) c;
                     c2 = c1\<lparr>ct_call_waiting_tones := hm_remove call_id (ct_call_waiting_tones c1)\<rparr>;
                     previous = (case Option.bind (hm_get (ct_devices c2) (ap_device_id winner)) rd_active_call of
                       None \<Rightarrow> None | Some k \<Rightarrow> if k \<noteq> call_id then Some k else None)
                 in
                   if (case previous of None \<Rightarrow> False
                       | Some k \<Rightarrow> (case call_state_of c2 k of None \<Rightarrow> False | Some s \<Rightarrow> talking s)
                           \<and> (in_conference c2 k \<or> hm_contains (ct_barge_by_handset c2) k))
                   then ([], c2)
                   else
                     let privacy = (ap_privacy winner \<or> device_privacy c2 (ap_device_id winner));
                         (held, c3) = (case previous of None \<Rightarrow> ([], c2) | Some k \<Rightarrow> hold k c2);
                         c4 = modify_call (ap_pbx_id winner)
                           (\<lambda>call. call\<lparr>pc_state := StConnected, pc_active_appearance := Some (ap_id winner),
                              pc_privacy := (pc_privacy call \<or> privacy)\<rparr>) c3;
                         (effects, c5) = for_appearances (answer_step (ap_id winner)) (pc_appearance_ids call) c4;
                         c6 = c5\<lparr>ct_pending_phone_answers :=
                           hm_insert (ap_sccp_id winner) (ap_pbx_id winner) (ct_pending_phone_answers c5)\<rparr>
                     in (held @ effects
                           @ [Handset (BeginAnswerMedia (ap_device_id winner) (ap_sccp_id winner) (ap_codec winner))],
                         present_owner winner call_id c6)))"

definition steal_step ::
  "call_appearance_id \<Rightarrow> call_appearance_id option \<Rightarrow> call_appearance_id \<Rightarrow> 'x call_appearance
     \<Rightarrow> 'x call_appearance \<times> driver_effect list \<times> bool"
where
  "steal_step requester previous_owner i a =
     (if i = requester then (a\<lparr>ap_state := StConnected\<rparr>, [], False)
      else (a\<lparr>ap_state := StRemoteInUse\<rparr>,
            (if previous_owner = Some i then [appearance_state_effect a HsRemoteMultiline True] else []),
            True))"

definition steal :: "call_id \<Rightarrow> 'x controller \<Rightarrow> driver_effect list \<times> 'x controller" where
  "steal call_id c =
     (case appearance_for_call c call_id of
        None \<Rightarrow> ([], c)
      | Some requester \<Rightarrow>
          (case pbx_call_of c (ap_pbx_id requester) of
             None \<Rightarrow> ([], c)
           | Some call \<Rightarrow>
               if ap_pbx_id requester \<in> set (ct_redirect_claims c)
                 \<or> ap_pbx_id requester \<in> set (hm_values (ct_pending_phone_answers c))
                 \<or> pc_state call \<noteq> StConnected \<or> ap_state requester \<noteq> StRemoteInUse
                 \<or> pc_active_appearance call = Some (ap_id requester)
                 \<or> \<not> shared_control_eligible c requester
               then ([], c)
               else
                 let previous_owner = pc_active_appearance call;
                     privacy = (ap_privacy requester \<or> device_privacy c (ap_device_id requester));
                     c1 = modify_call (ap_pbx_id requester)
                       (\<lambda>call. call\<lparr>pc_active_appearance := Some (ap_id requester),
                          pc_privacy := (pc_privacy call \<or> privacy)\<rparr>) c;
                     c2 = c1\<lparr>ct_shared_control_claims :=
                       hm_insert (ap_pbx_id requester) (Steal (ap_id requester)) (ct_shared_control_claims c1)\<rparr>;
                     (effects, c3) = for_appearances (steal_step (ap_id requester) previous_owner)
                       (pc_appearance_ids call) c2
                 in (effects @ [Handset (BeginMedia (ap_device_id requester) (ap_sccp_id requester) (ap_codec requester))],
                     set_call_selected (ap_device_id requester) call_id True
                       (select_line (ap_device_id requester) (ap_line_instance requester) c3))))"

section \<open>Switching between the calls of a handset\<close>

datatype call_switch_rejection = SwitchUnavailable | SwitchConflict

definition switch_active_call ::
  "device_id \<Rightarrow> call_id \<Rightarrow> 'x controller \<Rightarrow> (call_switch_rejection + driver_effect list) \<times> 'x controller"
where
  "switch_active_call device call_id c =
     (case appearance_for_call c call_id of
        None \<Rightarrow> (Inl SwitchUnavailable, c)
      | Some target \<Rightarrow>
          if ap_device_id target \<noteq> device then (Inl SwitchUnavailable, c)
          else if hm_contains (ct_conference_by_pbx c) (ap_pbx_id target) then (Inl SwitchConflict, c)
          else if ap_state target \<notin> {StRinging, StConnected, StHeld, StSharedHeld} then (Inl SwitchConflict, c)
          else
            case hm_get (ct_devices c) device of
              None \<Rightarrow> (Inl SwitchUnavailable, c)
            | Some d \<Rightarrow>
                if rd_active_call d = Some call_id then (Inr [], c)
                else
                  let busy = (case rd_active_call d of None \<Rightarrow> None
                    | Some k \<Rightarrow> (case call_state_of c k of None \<Rightarrow> None | Some s \<Rightarrow> if talking s then Some k else None))
                  in
                    if (case busy of None \<Rightarrow> False
                        | Some k \<Rightarrow> in_conference c k \<or> hm_contains (ct_barge_by_handset c) k)
                    then (Inl SwitchConflict, c)
                    else
                      let (held, c1) = (case busy of None \<Rightarrow> ([], c) | Some k \<Rightarrow> hold k c) in
                      if busy \<noteq> None \<and> held = [] then (Inl SwitchConflict, c1)
                      else
                        let (activate, c2) =
                          (if ap_state target = StRinging then phone_answer call_id c1
                           else if ap_state target \<in> {StHeld, StSharedHeld} then resume call_id c1
                           else ([Handset (SetCallState device call_id HsConnected False)],
                                 select_line device (ap_line_instance target) (set_active_call device (Some call_id) c1)))
                        in if activate = [] \<and> ap_state target \<noteq> StConnected then (Inl SwitchConflict, c2)
                           else (Inr (held @ activate), c2))"

definition begin_additional_phone_call ::
  "call_id \<Rightarrow> line_binding \<Rightarrow> codec \<Rightarrow> instant \<Rightarrow> 'x controller
     \<Rightarrow> (call_switch_rejection + driver_effect list) \<times> 'x controller"
where
  "begin_additional_phone_call sccp binding codec now c =
     (if hm_contains (rg_by_sccp (ct_registry c)) sccp \<or> \<not> hm_contains (ct_devices c) (lb_device_id binding)
      then (Inl SwitchUnavailable, c)
      else
        let active = Option.bind (hm_get (ct_devices c) (lb_device_id binding)) rd_active_call in
        if (case active of None \<Rightarrow> False
            | Some k \<Rightarrow> in_conference c k \<or> hm_contains (ct_barge_by_handset c) k)
        then (Inl SwitchConflict, c)
        else
          let (held, c1) = (case active of None \<Rightarrow> ([], c)
                | Some k \<Rightarrow> (case call_state_of c k of None \<Rightarrow> ([], c)
                    | Some s \<Rightarrow> if talking s then hold k c else ([], c)));
              (created, c2) = begin_phone_call sccp binding codec now c1
          in if created = [] then (Inl SwitchUnavailable, c2) else (Inr (held @ created), c2))"

section \<open>Barge\<close>

datatype barge_rejection =
    BargeUnavailable | BargeNotRemote | BargePrivate | BargeCapability | BargeConflict | AlreadyBarged

definition barger_call :: "pbx_call_id \<Rightarrow> pbx_call \<Rightarrow> pbx_call" where
  "barger_call i target = \<lparr>
     pc_id = i, pc_line = pc_line target, pc_context = pc_context target, pc_direction = Outbound,
     pc_state = StConnected, pc_outbound_phase = None, pc_outbound_identity_stage = Awaiting,
     pc_digits = [], pc_privacy = True, pc_pending_pickup = None, pc_appearance_ids = [],
     pc_active_appearance = None, pc_digit_deadline = None, pc_last_digit_at = None,
     pc_simulated_enbloc_eligible = False, pc_overlap_enabled = False\<rparr>"

text \<open>The bridge of a barge: that of the group it joins, or a new one.\<close>

definition barge_bridge ::
  "pbx_call \<Rightarrow> barge_mode \<Rightarrow> 'x controller \<Rightarrow> (barge_rejection + pbx_bridge_id \<times> bool) \<times> 'x controller"
where
  "barge_bridge target mode c =
     (case hm_get (ct_shared_control_claims c) (pc_id target) of
        Some (Steal _) \<Rightarrow> (Inl BargeConflict, c)
      | Some (Barge bridge) \<Rightarrow>
          (case hm_get (ct_barge_groups c) (pc_id target) of
             None \<Rightarrow> (Inl BargeConflict, c)
           | Some g \<Rightarrow>
               if mode \<noteq> ConferenceBarge \<or> bg_mode g \<noteq> ConferenceBarge then (Inl AlreadyBarged, c)
               else (Inr (bridge, False), c))
      | None \<Rightarrow> (case allocate_bridge_id c of (bridge, c') \<Rightarrow> (Inr (bridge, True), c')))"

definition barge_refusal ::
  "call_id \<Rightarrow> line_binding \<Rightarrow> codec \<Rightarrow> 'x call_appearance \<Rightarrow> pbx_call \<Rightarrow> 'x controller \<Rightarrow> barge_rejection option"
where
  "barge_refusal call_id binding codec requester target c =
     (if ap_state requester \<noteq> StRemoteInUse \<or> pc_state target \<noteq> StConnected
        \<or> pc_active_appearance target = Some (ap_id requester) then Some BargeNotRemote
      else if pc_privacy target then Some BargePrivate
      else if ap_ring_mode requester = Disabled \<or> lb_device_id binding \<noteq> ap_device_id requester
        \<or> lb_line_instance binding \<noteq> ap_line_instance requester \<or> lc_number (lb_line binding) \<noteq> pc_line target
        \<or> \<not> hm_contains (ct_devices c) (ap_device_id requester) then Some BargeUnavailable
      else
        case Option.bind (pc_active_appearance target) (appearance_of c) of
          None \<Rightarrow> Some BargeUnavailable
        | Some owner \<Rightarrow>
            if \<not> device_supports_codec c (ap_device_id requester) codec
              \<or> \<not> device_supports_codec c (ap_device_id owner) (ap_codec owner) then Some BargeCapability
            else if hm_contains (ct_barge_by_handset c) call_id then Some AlreadyBarged
            else if ap_pbx_id requester \<in> set (ct_redirect_claims c) then Some BargeConflict
            else None)"

definition barge_join ::
  "call_id \<Rightarrow> codec \<Rightarrow> barge_mode \<Rightarrow> 'x call_appearance \<Rightarrow> pbx_call \<Rightarrow> pbx_bridge_id \<Rightarrow> bool \<Rightarrow> pbx_call_id
     \<Rightarrow> 'x controller \<Rightarrow> 'x controller"
where
  "barge_join call_id codec mode requester target bridge first barger c =
     (let r = ct_registry c;
          c1 = c\<lparr>ct_registry := r\<lparr>
            rg_pbx := hm_insert barger (barger_call barger target) (rg_pbx r),
            rg_appearances := hm_modify (ap_id requester)
              (\<lambda>a. a\<lparr>ap_state := StBarged, ap_codec := codec, ap_audio := StreamOpening,
                     ap_video := close_streams (ap_video a)\<rparr>) (rg_appearances r)\<rparr>,
            ct_barge_by_handset := hm_insert call_id \<lparr>bs_target_call_id = pc_id target, bs_barger_call_id = barger,
              bs_bridge_id = bridge, bs_handset_call_id = call_id, bs_mode = mode\<rparr> (ct_barge_by_handset c),
            ct_barge_by_pbx := hm_insert barger call_id (ct_barge_by_pbx c)\<rparr>;
          c2 = (if first
            then c1\<lparr>ct_shared_control_claims := hm_insert (pc_id target) (Barge bridge) (ct_shared_control_claims c1),
                    ct_barge_groups := hm_insert (pc_id target)
                      \<lparr>bg_bridge_id = bridge, bg_mode = mode, bg_members = [call_id]\<rparr> (ct_barge_groups c1)\<rparr>
            else c1\<lparr>ct_barge_groups := hm_modify (pc_id target)
                      (\<lambda>g. g\<lparr>bg_members := bg_members g @ [call_id]\<rparr>) (ct_barge_groups c1)\<rparr>)
      in set_call_selected (ap_device_id requester) call_id True
           (select_line (ap_device_id requester) (ap_line_instance requester) c2))"

definition barge ::
  "call_id \<Rightarrow> line_binding \<Rightarrow> codec \<Rightarrow> barge_mode \<Rightarrow> 'x controller
     \<Rightarrow> (barge_rejection + driver_effect list) \<times> 'x controller"
where
  "barge call_id binding codec mode c =
     (case appearance_for_call c call_id of
        None \<Rightarrow> (Inl BargeUnavailable, c)
      | Some requester \<Rightarrow>
          (case pbx_call_of c (ap_pbx_id requester) of
             None \<Rightarrow> (Inl BargeUnavailable, c)
           | Some target \<Rightarrow>
               (case barge_refusal call_id binding codec requester target c of
                  Some e \<Rightarrow> (Inl e, c)
                | None \<Rightarrow>
                    (case barge_bridge target mode c of
                       (Inl e, c') \<Rightarrow> (Inl e, c')
                     | (Inr (bridge, first), c1) \<Rightarrow>
                         let (barger, c2) = allocate_pbx_id c1 in
                         (Inr [Backend (CreateChannel call_id barger binding codec),
                               Backend (PbxBarge (BargeJoin bridge (pc_id target) barger)),
                               Handset (BeginMedia (ap_device_id requester) call_id codec)],
                          barge_join call_id codec mode requester target bridge first barger c2)))))"

text \<open>
  \<open>end_barge_internal\<close>: the session goes, with the barging channel; the last one of a group
  takes the group and its claim along. The appearance falls back to a remote one, or goes
  with a target that has ended.
\<close>

definition leave_group :: "call_id \<Rightarrow> barge_session \<Rightarrow> 'x controller \<Rightarrow> bool \<times> 'x controller" where
  "leave_group call_id session c =
     (let target = bs_target_call_id session;
          groups = hm_modify target (\<lambda>g. g\<lparr>bg_members := filter (\<lambda>k. k \<noteq> call_id) (bg_members g)\<rparr>) (ct_barge_groups c);
          last_participant = (case hm_get groups target of None \<Rightarrow> True | Some g \<Rightarrow> bg_members g = [])
      in if last_participant
         then (True, c\<lparr>ct_barge_groups := hm_remove target groups,
                ct_shared_control_claims :=
                  (if hm_get (ct_shared_control_claims c) target = Some (Barge (bs_bridge_id session))
                   then hm_remove target (ct_shared_control_claims c) else ct_shared_control_claims c)\<rparr>)
         else (False, c\<lparr>ct_barge_groups := groups\<rparr>))"

definition restore_barged :: "call_id \<Rightarrow> barge_session \<Rightarrow> bool \<Rightarrow> 'x controller \<Rightarrow> driver_effect list \<times> 'x controller" where
  "restore_barged call_id session restore_handset c =
     (case hm_get (rg_by_sccp (ct_registry c)) call_id of
        None \<Rightarrow> ([], c)
      | Some i \<Rightarrow>
          (case appearance_of c i of
             None \<Rightarrow> ([], c)
           | Some a \<Rightarrow>
               if hm_contains (rg_pbx (ct_registry c)) (bs_target_call_id session)
               then ((if restore_handset then [appearance_state_effect a HsRemoteMultiline True] else []),
                     write_appearance i (a\<lparr>ap_state := StRemoteInUse, ap_audio := StreamClosed,
                       ap_audio_transmit := StreamClosed, ap_video := close_streams (ap_video a)\<rparr>) c)
               else ((if restore_handset then [appearance_state_effect a HsOnHook True] else []),
                     snd (remove_appearance i c))))"

definition end_barge_internal ::
  "call_id \<Rightarrow> bool \<Rightarrow> bool \<Rightarrow> bool \<Rightarrow> 'x controller \<Rightarrow> driver_effect list \<times> 'x controller"
where
  "end_barge_internal call_id bridge_joined channel_created restore_handset c =
     (case hm_get (ct_barge_by_handset c) call_id of
        None \<Rightarrow> ([], c)
      | Some session \<Rightarrow>
          let barger = bs_barger_call_id session;
              c1 = c\<lparr>ct_barge_by_handset := hm_remove call_id (ct_barge_by_handset c),
                     ct_barge_by_pbx := hm_remove barger (ct_barge_by_pbx c),
                     ct_registry := (ct_registry c)\<lparr>rg_pbx := hm_remove barger (rg_pbx (ct_registry c))\<rparr>\<rparr>;
              (last_participant, c2) = leave_group call_id session c1;
              (restored, c3) = restore_barged call_id session restore_handset c2
          in ((if bridge_joined then [Backend (PbxBarge (BargeLeave (bs_bridge_id session) barger last_participant))] else [])
                @ (if channel_created then [Backend (PbxHangup barger)] else []) @ restored,
              c3))"

definition end_barges_for_target :: "pbx_call_id \<Rightarrow> 'x controller \<Rightarrow> driver_effect list \<times> 'x controller" where
  "end_barges_for_target target c =
     fold (\<lambda>k (effects, c). case end_barge_internal k True True False c of (es, c') \<Rightarrow> (effects @ es, c'))
       (case hm_get (ct_barge_groups c) target of None \<Rightarrow> [] | Some g \<Rightarrow> bg_members g) ([], c)"

section \<open>The end of a call\<close>

definition appearance_terminal_effects :: "'x call_appearance \<Rightarrow> driver_effect list" where
  "appearance_terminal_effects a =
     (if ap_auto_answer_mode a = Some OneWay
      then [Handset (SetMicrophoneMode (ap_device_id a) (ap_sccp_id a) True)] else [])
     @ [appearance_state_effect a HsOnHook True]"

text \<open>
  \<open>hangup_internal\<close> for a call that is neither waiting out a remote hangup nor in a
  conference: a barging handset leaves its barge, a phone among several that ring only
  stops ringing, and the owner (or the one phone that rings) ends the call.
\<close>

definition hangup_ordinary :: "call_id \<Rightarrow> bool \<Rightarrow> 'x controller \<Rightarrow> driver_effect list \<times> 'x controller" where
  "hangup_ordinary call_id cleanup_current c =
     (if hm_contains (ct_barge_by_handset c) call_id then end_barge_internal call_id True True True c
      else
        case appearance_for_call c call_id of
          None \<Rightarrow> ([], c)
        | Some a \<Rightarrow>
            (case pbx_call_of c (ap_pbx_id a) of
               None \<Rightarrow> ([], c)
             | Some call \<Rightarrow>
                 if (case pc_active_appearance call of None \<Rightarrow> False | Some owner \<Rightarrow> owner \<noteq> ap_id a) then ([], c)
                 else if pc_active_appearance call = None \<and> pc_state call = StRinging
                   \<and> length (pc_appearance_ids call) > 1
                 then ([], snd (remove_appearance (ap_id a) c))
                 else (Backend (PbxHangup (ap_pbx_id a))
                     # (if ap_auto_answer_mode a = Some OneWay
                        then [Handset (SetMicrophoneMode (ap_device_id a) (ap_sccp_id a) True)] else [])
                     @ concat (map appearance_terminal_effects (List.map_filter (appearance_of c)
                         (filter (\<lambda>i. cleanup_current \<or> i \<noteq> ap_id a) (pc_appearance_ids call)))),
                     snd (remove_pbx_call (ap_pbx_id a) c))))"

text \<open>
  The end of \<open>pbx_hangup_with_effects\<close>, for a channel that no transition, transfer or
  conference and no barge of its own claims.
\<close>

definition pbx_hangup_ordinary :: "pbx_call_id \<Rightarrow> 'x controller \<Rightarrow> driver_effect list option \<times> 'x controller" where
  "pbx_hangup_ordinary pbx c =
     (let (ended, c1) = end_barges_for_target pbx c in
      case pbx_call_of c1 pbx of
        None \<Rightarrow> (None, c1)
      | Some call \<Rightarrow>
          (Some (ended @ concat (map appearance_terminal_effects
             (List.map_filter (appearance_of c1) (pc_appearance_ids call)))),
           snd (remove_pbx_call pbx c1)))"

section \<open>Redirects\<close>

definition forward_ringing_call :: "pbx_call_id \<Rightarrow> 'x controller \<Rightarrow> driver_effect list \<times> 'x controller" where
  "forward_ringing_call pbx c =
     (case pbx_call_of c pbx of
        None \<Rightarrow> ([], c)
      | Some call \<Rightarrow>
          if pc_state call \<noteq> StRinging \<or> pc_active_appearance call \<noteq> None then ([], c)
          else (map (\<lambda>a. appearance_state_effect a HsOnHook False)
                  (List.map_filter (appearance_of c) (pc_appearance_ids call)),
                snd (remove_pbx_call pbx c)))"

definition claim_ringing_forward :: "pbx_call_id \<Rightarrow> 'x controller \<Rightarrow> bool \<times> 'x controller" where
  "claim_ringing_forward pbx c =
     (if pbx \<in> set (ct_redirect_claims c)
        \<or> (case pbx_call_of c pbx of None \<Rightarrow> True
           | Some call \<Rightarrow> pc_state call \<noteq> StRinging \<or> pc_active_appearance call \<noteq> None)
      then (False, c)
      else (True, c\<lparr>ct_redirect_claims := List.insert pbx (ct_redirect_claims c)\<rparr>))"

definition complete_ringing_forward :: "pbx_call_id \<Rightarrow> 'x controller \<Rightarrow> driver_effect list \<times> 'x controller" where
  "complete_ringing_forward pbx c =
     (if pbx \<notin> set (ct_redirect_claims c) then ([], c)
      else forward_ringing_call pbx (c\<lparr>ct_redirect_claims := removeAll pbx (ct_redirect_claims c)\<rparr>))"

definition rollback_ringing_forward :: "pbx_call_id \<Rightarrow> 'x controller \<Rightarrow> bool \<times> 'x controller" where
  "rollback_ringing_forward pbx c =
     (pbx \<in> set (ct_redirect_claims c), c\<lparr>ct_redirect_claims := removeAll pbx (ct_redirect_claims c)\<rparr>)"

definition cancel_inbound_offer :: "call_id \<Rightarrow> 'x controller \<Rightarrow> bool \<times> 'x controller" where
  "cancel_inbound_offer call_id c =
     (case appearance_for_call c call_id of
        None \<Rightarrow> (False, c)
      | Some a \<Rightarrow>
          (case pbx_call_of c (ap_pbx_id a) of
             None \<Rightarrow> (False, c)
           | Some call \<Rightarrow>
               if ap_pbx_id a \<in> set (ct_redirect_claims c) \<or> pc_state call \<noteq> StRinging
                 \<or> pc_active_appearance call \<noteq> None
               then (False, c)
               else
                 let c1 = snd (remove_appearance (ap_id a)
                       (c\<lparr>ct_pending_auto_answers := hm_remove call_id (ct_pending_auto_answers c)\<rparr>))
                 in (True,
                     case pbx_call_of c1 (ap_pbx_id a) of
                       None \<Rightarrow> c1
                     | Some call' \<Rightarrow>
                         if pc_appearance_ids call' = []
                         then c1\<lparr>ct_registry := (ct_registry c1)\<lparr>rg_pbx := hm_remove (ap_pbx_id a) (rg_pbx (ct_registry c1))\<rparr>\<rparr>
                         else c1)))"

subsection \<open>Voicemail\<close>

definition appearance_leg :: "'x call_appearance \<Rightarrow> transfer_leg" where
  "appearance_leg a = \<lparr>leg_handset_call_id = ap_sccp_id a, leg_pbx_call_id = ap_pbx_id a\<rparr>"

text \<open>
  \<open>begin_voicemail_claim\<close>: the claim, the redirect and the execution; a redirect or an
  execution that fails after the claim gives the claim back.
\<close>

definition begin_voicemail_claim ::
  "'x call_appearance \<Rightarrow> voicemail_action \<Rightarrow> voicemail_target \<Rightarrow> 'x controller
     \<Rightarrow> (voicemail_rejection + voicemail_transaction \<times> driver_effect list) \<times> 'x controller"
where
  "begin_voicemail_claim a action target c =
     (if ap_pbx_id a \<in> set (ct_redirect_claims c) \<or> hm_contains (ct_conference_by_pbx c) (ap_pbx_id a)
        \<or> hm_contains (ct_barge_by_handset c) (ap_sccp_id a)
        \<or> for_leg (appearance_leg a) (ct_transfers c) \<noteq> None
      then (Inl voicemail_rejection.Conflict, c)
      else
        case voicemail_claim (ap_device_id a) (ap_sccp_id a) (ap_pbx_id a) action target (ct_voicemail c) of
          (Inl e, v) \<Rightarrow> (Inl e, c\<lparr>ct_voicemail := v\<rparr>)
        | (Inr t, v) \<Rightarrow>
            let c1 = c\<lparr>ct_voicemail := v, ct_redirect_claims := List.insert (ap_pbx_id a) (ct_redirect_claims c)\<rparr> in
            case voicemail_begin_execution (ap_device_id a) (vm_id t) (ct_voicemail c1) of
              (Inl e, v') \<Rightarrow>
                (Inl e, c1\<lparr>ct_redirect_claims := removeAll (ap_pbx_id a) (ct_redirect_claims c1),
                           ct_voicemail := snd (voicemail_cancel (ap_device_id a) (vm_id t) v')\<rparr>)
            | (Inr operation, v') \<Rightarrow>
                (Inr (t\<lparr>vm_phase := Executing\<rparr>, [Backend (PbxVoicemail operation)]), c1\<lparr>ct_voicemail := v'\<rparr>))"

definition begin_immediate_divert ::
  "device_id \<Rightarrow> call_id \<Rightarrow> voicemail_target \<Rightarrow> 'x controller
     \<Rightarrow> (voicemail_rejection + voicemail_transaction \<times> driver_effect list) \<times> 'x controller"
where
  "begin_immediate_divert device call_id target c =
     (case appearance_for_call c call_id of
        None \<Rightarrow> (Inl voicemail_rejection.Conflict, c)
      | Some a \<Rightarrow>
          if ap_device_id a \<noteq> device then (Inl voicemail_rejection.Conflict, c)
          else
            case pbx_call_of c (ap_pbx_id a) of
              None \<Rightarrow> (Inl voicemail_rejection.Conflict, c)
            | Some call \<Rightarrow>
                if ap_state a \<noteq> StRinging \<or> pc_state call \<noteq> StRinging \<or> pc_active_appearance call \<noteq> None
                then (Inl voicemail_rejection.InvalidPhase, c)
                else begin_voicemail_claim a ImmediateDivert target c)"

definition abort_voicemail ::
  "device_id \<Rightarrow> voicemail_transaction_id \<Rightarrow> 'x controller \<Rightarrow> (voicemail_rejection + voicemail_transaction) \<times> 'x controller"
where
  "abort_voicemail device i c =
     (case voicemail_cancel device i (ct_voicemail c) of
        (Inl e, v) \<Rightarrow> (Inl e, c\<lparr>ct_voicemail := v\<rparr>)
      | (Inr t, v) \<Rightarrow> (Inr t, c\<lparr>ct_voicemail := v,
          ct_redirect_claims := removeAll (vm_pbx_call_id t) (ct_redirect_claims c)\<rparr>))"

definition voicemail_succeeded ::
  "device_id \<Rightarrow> voicemail_transaction_id \<Rightarrow> 'x controller
     \<Rightarrow> (voicemail_rejection + voicemail_transaction \<times> driver_effect list) \<times> 'x controller"
where
  "voicemail_succeeded device i c =
     (case voicemail_get (ct_voicemail c) device of
        None \<Rightarrow> (Inl voicemail_rejection.Conflict, c)
      | Some t \<Rightarrow>
          if vm_id t \<noteq> i then (Inl voicemail_rejection.Conflict, c)
          else
            let owned = (case appearance_for_call c (vm_handset_call_id t) of
                  None \<Rightarrow> False | Some a \<Rightarrow> ap_pbx_id a = vm_pbx_call_id t);
                disconnected = (\<not> hm_contains (ct_devices c) (vm_device_id t))
            in
              if vm_pbx_call_id t \<notin> set (ct_redirect_claims c) \<or> \<not> owned \<and> \<not> disconnected then (Inl voicemail_rejection.Conflict, c)
              else
                case pbx_call_of c (vm_pbx_call_id t) of
                  None \<Rightarrow> (Inl voicemail_rejection.Conflict, c)
                | Some call \<Rightarrow>
                    let effects = map (\<lambda>a. appearance_state_effect a HsOnHook True)
                          (List.map_filter (appearance_of c) (pc_appearance_ids call))
                    in case voicemail_commit device i (ct_voicemail c) of
                         (Inl e, v) \<Rightarrow> (Inl e, c\<lparr>ct_voicemail := v\<rparr>)
                       | (Inr t', v) \<Rightarrow>
                           (Inr (t', effects),
                            snd (remove_pbx_call (vm_pbx_call_id t')
                              (c\<lparr>ct_voicemail := v,
                                 ct_redirect_claims := removeAll (vm_pbx_call_id t') (ct_redirect_claims c)\<rparr>))))"

datatype voicemail_native_outcome = Committed voicemail_transaction "driver_effect list" | CallAlreadyEnded

definition complete_voicemail_native ::
  "device_id \<Rightarrow> voicemail_transaction_id \<Rightarrow> pbx_call_id \<Rightarrow> 'x controller
     \<Rightarrow> (voicemail_rejection + voicemail_native_outcome) \<times> 'x controller"
where
  "complete_voicemail_native device i pbx c =
     (if (case voicemail_get (ct_voicemail c) device of None \<Rightarrow> False
          | Some t \<Rightarrow> vm_id t = i \<and> vm_pbx_call_id t = pbx)
      then (case voicemail_succeeded device i c of
              (Inl e, c') \<Rightarrow> (Inl e, c') | (Inr (t, effects), c') \<Rightarrow> (Inr (Committed t effects), c'))
      else if \<not> hm_contains (rg_pbx (ct_registry c)) pbx \<and> voicemail_for_pbx (ct_voicemail c) pbx = None
        \<and> pbx \<notin> set (ct_redirect_claims c)
      then (Inr CallAlreadyEnded, c)
      else (Inl voicemail_rejection.Conflict, c))"

end
