(* ===== verification/Inbound_Offers.thy ===== *)
theory Inbound_Offers
  imports Call_Control
begin

text \<open>
  Inbound calls, \<^verbatim>\<open>offer_inbound_call_with_policy\<close> of
  \<^verbatim>\<open>asterisk-module/src/runtime/controller/domains/call_registry.rs\<close>: which of the candidate phones
  ring, when a call is forwarded instead, and why it may be unavailable.
\<close>

section \<open>Candidates and dispositions\<close>

record inbound_appearance =
  ib_call_id :: call_id
  ib_binding :: line_binding
  ib_codec :: codec

record inbound_offer =
  io_device_id :: device_id
  io_line_instance :: u32
  io_call_id :: call_id
  io_ring_mode :: appearance_ring_mode
  io_state :: handset_call_state

datatype inbound_unavailable_reason =
    OfferConflict | NoEligibleAppearance | DoNotDisturb | ForwardingConflict | IncomingLimit

datatype forwarding_route_reason = RouteUnconditional | RouteBusy | RouteNoAnswer

datatype inbound_call_disposition =
    OfferTo "inbound_offer list"
  | ForwardTo line_binding forwarding_destination forwarding_route_reason
  | OfferUnavailable inbound_unavailable_reason

definition inbound_offer_of :: "'x controller \<Rightarrow> inbound_appearance \<Rightarrow> inbound_offer" where
  "inbound_offer_of c x = \<lparr>
     io_device_id = lb_device_id (ib_binding x),
     io_line_instance = lb_line_instance (ib_binding x),
     io_call_id = ib_call_id x,
     io_ring_mode = la_ring_mode (lb_appearance (ib_binding x)),
     io_state = (if device_has_active_call c (lb_device_id (ib_binding x)) then HsCallWaiting else HsRingIn)\<rparr>"

definition inbound_call_appearance :: "call_appearance_id \<Rightarrow> pbx_call_id \<Rightarrow> inbound_appearance \<Rightarrow> 'x call_appearance" where
  "inbound_call_appearance i pbx x =
     new_appearance i (ib_call_id x) pbx (ib_binding x) StRinging
       (inbound_info (ib_binding x)) (ib_codec x)"

text \<open>
  The candidates that may be offered at all: of the line, on a registered device, not
  disabled, and neither their call nor their button seen before. The number is that of
  the candidates left out.
\<close>

fun screen_candidates ::
  "'x controller \<Rightarrow> rust_str \<Rightarrow> call_id list \<Rightarrow> (device_id \<times> u32) list \<Rightarrow> inbound_appearance list
     \<Rightarrow> nat \<times> inbound_appearance list"
where
  "screen_candidates c line seen_calls seen_buttons [] = (0, [])"
| "screen_candidates c line seen_calls seen_buttons (x # xs) =
     (let b = ib_binding x; button = (lb_device_id b, lb_line_instance b) in
      if lc_number (lb_line b) \<noteq> line \<or> \<not> hm_contains (ct_devices c) (lb_device_id b)
        \<or> la_ring_mode (lb_appearance b) = Disabled \<or> hm_contains (rg_by_sccp (ct_registry c)) (ib_call_id x)
        \<or> ib_call_id x \<in> set seen_calls
      then (case screen_candidates c line seen_calls seen_buttons xs of (n, ok) \<Rightarrow> (Suc n, ok))
      else if button \<in> set seen_buttons
      then (case screen_candidates c line (ib_call_id x # seen_calls) seen_buttons xs of (n, ok) \<Rightarrow> (Suc n, ok))
      else (case screen_candidates c line (ib_call_id x # seen_calls) (button # seen_buttons) xs of (n, ok) \<Rightarrow> (n, x # ok)))"

definition forwarding_route ::
  "'x controller \<Rightarrow> device_id \<Rightarrow> forwarding_state \<Rightarrow> (forwarding_destination \<times> forwarding_route_reason) option"
where
  "forwarding_route c device f =
     (case fs_all f of
        Some destination \<Rightarrow> Some (destination, RouteUnconditional)
      | None \<Rightarrow>
          if device_is_busy c device then map_option (\<lambda>destination. (destination, RouteBusy)) (fs_busy f) else None)"

definition silence :: "inbound_appearance \<Rightarrow> inbound_appearance" where
  "silence x = x\<lparr>ib_binding := (ib_binding x)\<lparr>lb_appearance := (lb_appearance (ib_binding x))\<lparr>la_ring_mode := Silent\<rparr>\<rparr>\<rparr>"

text \<open>Do-not-disturb and forwarding of each device: how many reject, who rings, who is forwarded.\<close>

fun apply_policy ::
  "'x controller \<Rightarrow> inbound_appearance list
     \<Rightarrow> nat \<times> inbound_appearance list
       \<times> (inbound_appearance \<times> forwarding_destination \<times> forwarding_route_reason) list"
where
  "apply_policy c [] = (0, [], [])"
| "apply_policy c (x # xs) =
     (let device = lb_device_id (ib_binding x);
          features = (case hm_get (ct_features c) device of None \<Rightarrow> device_feature_state_default | Some f \<Rightarrow> f);
          (rejected, ringable, forwarded) = apply_policy c xs
      in
        if df_dnd features = DndReject then (Suc rejected, ringable, forwarded)
        else
          let x' = (if df_dnd features = DndSilent then silence x else x) in
          case forwarding_route c device (df_forwarding features) of
            Some (destination, reason) \<Rightarrow> (rejected, ringable, (x', destination, reason) # forwarded)
          | None \<Rightarrow> (rejected, x' # ringable, forwarded))"

fun attach_offers ::
  "pbx_call_id \<Rightarrow> inbound_appearance list \<Rightarrow> 'x controller \<Rightarrow> inbound_offer list \<times> 'x controller"
where
  "attach_offers pbx [] c = ([], c)"
| "attach_offers pbx (x # xs) c =
     (let (i, c1) = allocate_appearance_id c;
          (attached, c2) = with_registry (attach_appearance (inbound_call_appearance i pbx x)) c1;
          (offers, c3) = attach_offers pbx xs c2
      in (if attached then inbound_offer_of c2 x # offers else offers, c3))"

definition incoming_calls :: "'x controller \<Rightarrow> rust_str \<Rightarrow> nat" where
  "incoming_calls c line =
     length (filter (\<lambda>call. pc_direction call = Inbound \<and> pc_line call = line) (hm_values (rg_pbx (ct_registry c))))"

definition incoming_limit :: "'x controller \<Rightarrow> rust_str \<Rightarrow> nat" where
  "incoming_limit c line = unat (case hm_get (ct_line_incoming_limits c) line of None \<Rightarrow> 6 | Some n \<Rightarrow> n)"

text \<open>The answer when nobody can ring: the common forward, or why there is none.\<close>

definition unanswered_disposition ::
  "'x controller \<Rightarrow> rust_str \<Rightarrow> nat \<Rightarrow> nat \<Rightarrow> nat
     \<Rightarrow> (inbound_appearance \<times> forwarding_destination \<times> forwarding_route_reason) list \<Rightarrow> inbound_call_disposition"
where
  "unanswered_disposition c line structural eligible rejected forwarded =
     (case forwarded of
        [] \<Rightarrow>
          let dnd_only = (structural = 0 \<and> eligible \<noteq> 0 \<and> rejected = eligible) in
          OfferUnavailable
            (if dnd_only \<and> incoming_calls c line \<ge> incoming_limit c line then IncomingLimit
             else if dnd_only then DoNotDisturb else NoEligibleAppearance)
      | (first, destination, reason) # _ \<Rightarrow>
          if list_ex (\<lambda>(_, d, r). d \<noteq> destination \<or> r \<noteq> reason) forwarded
          then OfferUnavailable ForwardingConflict
          else ForwardTo (ib_binding first) destination reason)"

definition offer_inbound_call_with_policy ::
  "pbx_call_id \<Rightarrow> inbound_appearance list \<Rightarrow> 'x controller \<Rightarrow> inbound_call_disposition \<times> 'x controller"
where
  "offer_inbound_call_with_policy pbx candidates c =
     (if hm_contains (rg_pbx (ct_registry c)) pbx then (OfferUnavailable OfferConflict, c)
      else
        case candidates of
          [] \<Rightarrow> (OfferUnavailable NoEligibleAppearance, c)
        | x # _ \<Rightarrow>
            let line = lc_number (lb_line (ib_binding x));
                (structural, eligible) = screen_candidates c line [] [] candidates;
                (rejected, ringable, forwarded) = apply_policy c eligible
            in
              case ringable of
                [] \<Rightarrow> (unanswered_disposition c line structural (length eligible) rejected forwarded, c)
              | first # others \<Rightarrow>
                  if incoming_calls c line \<ge> incoming_limit c line then (OfferUnavailable IncomingLimit, c)
                  else
                    let c1 = c\<lparr>ct_next_pbx_id := max (ct_next_pbx_id c) (saturating_succ pbx)\<rparr>;
                        (i, c2) = allocate_appearance_id c1;
                        (inserted, c3) = with_registry
                          (insert_pbx_call (inbound_call pbx line (lc_context (lb_line (ib_binding first))))
                            (inbound_call_appearance i pbx first)) c2
                    in
                      if \<not> inserted then (OfferUnavailable OfferConflict, c3)
                      else
                        let (offers, c4) = attach_offers pbx others c3
                        in (OfferTo (inbound_offer_of c3 first # offers), c4))"

end
