(* ===== verification/Call_Invariants.thy ===== *)
theory Call_Invariants
  imports Inbound_Offers
begin

text \<open>
  The validators of the controller, \<^verbatim>\<open>asterisk-module/src/runtime/controller/invariants/\<close>, which
  the debug builds run after every operation, and which operations of call control keep
  them silent.
\<close>

section \<open>The validators\<close>

datatype controller_error =
    CallRegistryError registry_error
  | InvalidActiveCall device_id call_id
  | InvalidSelectedCall device_id
  | RedirectWithoutCall pbx_call_id
  | VoicemailOwnership voicemail_transaction_id
  | ClaimWithoutTarget pbx_call_id
  | StealMismatch pbx_call_id
  | BargeMismatch pbx_call_id
  | EmptyBargeGroup pbx_call_id
  | DanglingBargeMember pbx_call_id call_id
  | InconsistentBarge call_id
  | DanglingBargeIndex pbx_call_id

definition device_registry_error :: "'x controller \<Rightarrow> controller_error option" where
  "device_registry_error c =
     first_error (\<lambda>(device, d).
       or_else
         (case rd_active_call d of None \<Rightarrow> None
          | Some k \<Rightarrow> if shows_call c device k then None else Some (InvalidActiveCall device k))
         (if list_ex (\<lambda>k. \<not> shows_call c device k) (rd_selected_calls d)
          then Some (InvalidSelectedCall device) else None))
       (ct_devices c)"

definition voicemail_ownership_error :: "'x controller \<Rightarrow> voicemail_transaction \<Rightarrow> controller_error option" where
  "voicemail_ownership_error c t =
     (let owned = (case appearance_for_call c (vm_handset_call_id t) of None \<Rightarrow> False
            | Some a \<Rightarrow> ap_pbx_id a = vm_pbx_call_id t \<and> ap_device_id a = vm_device_id t);
          disconnected = (\<not> hm_contains (ct_devices c) (vm_device_id t))
      in if vm_pbx_call_id t \<notin> set (ct_redirect_claims c) \<or> \<not> hm_contains (rg_pbx (ct_registry c)) (vm_pbx_call_id t)
           \<or> \<not> owned \<and> \<not> disconnected
         then Some (VoicemailOwnership (vm_id t)) else None)"

definition ownership_error :: "'x controller \<Rightarrow> controller_error option" where
  "ownership_error c =
     or_else
       (first_error (\<lambda>pbx. if hm_contains (rg_pbx (ct_registry c)) pbx then None else Some (RedirectWithoutCall pbx))
         (ct_redirect_claims c))
       (first_error (voicemail_ownership_error c) (voicemail_transactions (ct_voicemail c)))"

definition claim_error :: "'x controller \<Rightarrow> pbx_call_id \<times> shared_control_claim \<Rightarrow> controller_error option" where
  "claim_error c = (\<lambda>(target, claim).
     case pbx_call_of c target of
       None \<Rightarrow> Some (ClaimWithoutTarget target)
     | Some call \<Rightarrow>
         (case claim of
            Steal winner \<Rightarrow> if pc_active_appearance call \<noteq> Some winner then Some (StealMismatch target) else None
          | Barge bridge \<Rightarrow>
              (case hm_get (ct_barge_groups c) target of
                 None \<Rightarrow> Some (BargeMismatch target)
               | Some g \<Rightarrow> if bg_bridge_id g \<noteq> bridge then Some (BargeMismatch target) else None)))"

definition group_error :: "'x controller \<Rightarrow> pbx_call_id \<times> barge_group \<Rightarrow> controller_error option" where
  "group_error c = (\<lambda>(target, g).
     if bg_members g = [] then Some (EmptyBargeGroup target)
     else
       first_error (\<lambda>k.
         case hm_get (ct_barge_by_handset c) k of
           None \<Rightarrow> Some (DanglingBargeMember target k)
         | Some session \<Rightarrow>
             if bs_target_call_id session \<noteq> target \<or> bs_bridge_id session \<noteq> bg_bridge_id g \<or> bs_mode session \<noteq> bg_mode g
             then Some (DanglingBargeMember target k) else None) (bg_members g))"

definition session_error :: "'x controller \<Rightarrow> call_id \<times> barge_session \<Rightarrow> controller_error option" where
  "session_error c = (\<lambda>(k, session).
     if bs_handset_call_id session \<noteq> k
       \<or> hm_get (ct_barge_by_pbx c) (bs_barger_call_id session) \<noteq> Some k
       \<or> (case pbx_call_of c (bs_barger_call_id session) of None \<Rightarrow> True
          | Some call \<Rightarrow> pc_appearance_ids call \<noteq> [] \<or> pc_state call \<noteq> StConnected)
       \<or> (case appearance_for_call c k of None \<Rightarrow> True
          | Some a \<Rightarrow> ap_pbx_id a \<noteq> bs_target_call_id session \<or> ap_state a \<noteq> StBarged)
     then Some (InconsistentBarge k) else None)"

definition barge_index_error :: "'x controller \<Rightarrow> pbx_call_id \<times> call_id \<Rightarrow> controller_error option" where
  "barge_index_error c = (\<lambda>(pbx, k).
     case hm_get (ct_barge_by_handset c) k of
       None \<Rightarrow> Some (DanglingBargeIndex pbx)
     | Some session \<Rightarrow> if bs_barger_call_id session \<noteq> pbx then Some (DanglingBargeIndex pbx) else None)"

definition shared_control_error :: "'x controller \<Rightarrow> controller_error option" where
  "shared_control_error c =
     or_else (first_error (claim_error c) (ct_shared_control_claims c))
       (or_else (first_error (group_error c) (ct_barge_groups c))
         (or_else (first_error (session_error c) (ct_barge_by_handset c))
           (first_error (barge_index_error c) (ct_barge_by_pbx c))))"

text \<open>
  \<open>validate\<close> without its last two parts, which compare conference and transfer records
  with the calls.
\<close>

definition invariant_error :: "'x controller \<Rightarrow> controller_error option" where
  "invariant_error c =
     or_else (ownership_error c)
       (or_else (device_registry_error c)
         (or_else (map_option CallRegistryError (call_registry_error (ct_registry c)))
           (shared_control_error c)))"

section \<open>Histories\<close>

text \<open>
  The operations of call control as actions. Of \<^verbatim>\<open>register_session\<close> this is the check of the
  generation and the insertion that ends it, without the disconnection of a session that
  the new one replaces.
\<close>

definition register_device :: "session_generation \<Rightarrow> device_id \<Rightarrow> 'x controller \<Rightarrow> 'x controller" where
  "register_device generation device c =
     (if (case hm_get (ct_devices c) device of None \<Rightarrow> False | Some current \<Rightarrow> generation \<le> rd_session_generation current)
      then c
      else c\<lparr>ct_devices := hm_insert device \<lparr>rd_session_generation = generation, rd_capabilities = None,
        rd_selected_line = None, rd_active_call = None, rd_selected_calls = []\<rparr> (ct_devices c)\<rparr>)"

definition update_capabilities :: "device_id \<Rightarrow> session_generation \<Rightarrow> codec list \<Rightarrow> 'x controller \<Rightarrow> 'x controller" where
  "update_capabilities device generation codecs c =
     c\<lparr>ct_devices := hm_modify device
        (\<lambda>d. if rd_session_generation d = generation then d\<lparr>rd_capabilities := Some codecs\<rparr> else d) (ct_devices c)\<rparr>"

datatype call_action =
    Register session_generation device_id
  | UpdateCapabilities device_id session_generation "codec list"
  | SelectLine device_id u32
  | ToggleSelected device_id call_id
  | BeginPhoneCall call_id line_binding codec instant
  | BeginAdditional call_id line_binding codec instant
  | BeginAsteriskCall call_id pbx_call_id line_binding codec
  | AddAppearance pbx_call_id call_id line_binding codec
  | OfferInbound pbx_call_id "inbound_appearance list"
  | HoldCall call_id
  | ResumeCall call_id
  | AnswerCall call_id
  | StealCall call_id
  | SwitchCall device_id call_id
  | BargeCall call_id line_binding codec barge_mode
  | EndBarge call_id bool bool bool
  | HangupCall call_id
  | PbxHangupCall pbx_call_id
  | ClaimForward pbx_call_id
  | CompleteForward pbx_call_id
  | RollbackForward pbx_call_id
  | CancelOffer call_id
  | DivertCall device_id call_id voicemail_target
  | AbortVoicemail device_id voicemail_transaction_id
  | CompleteVoicemail device_id voicemail_transaction_id pbx_call_id

fun call_apply :: "call_action \<Rightarrow> 'x controller \<Rightarrow> 'x controller" where
  "call_apply (Register g d) c = register_device g d c"
| "call_apply (UpdateCapabilities d g codecs) c = update_capabilities d g codecs c"
| "call_apply (SelectLine d l) c = select_line d l c"
| "call_apply (ToggleSelected d k) c = snd (toggle_call_selected d k c)"
| "call_apply (BeginPhoneCall k b codec now) c = snd (begin_phone_call k b codec now c)"
| "call_apply (BeginAdditional k b codec now) c = snd (begin_additional_phone_call k b codec now c)"
| "call_apply (BeginAsteriskCall k p b codec) c = begin_asterisk_call k p b codec c"
| "call_apply (AddAppearance p k b codec) c = snd (add_call_appearance p k b codec c)"
| "call_apply (OfferInbound p candidates) c = snd (offer_inbound_call_with_policy p candidates c)"
| "call_apply (HoldCall k) c = snd (hold k c)"
| "call_apply (ResumeCall k) c = snd (resume k c)"
| "call_apply (AnswerCall k) c = snd (phone_answer k c)"
| "call_apply (StealCall k) c = snd (steal k c)"
| "call_apply (SwitchCall d k) c = snd (switch_active_call d k c)"
| "call_apply (BargeCall k b codec mode) c = snd (barge k b codec mode c)"
| "call_apply (EndBarge k joined created restore) c = snd (end_barge_internal k joined created restore c)"
| "call_apply (HangupCall k) c = snd (hangup_ordinary k True c)"
| "call_apply (PbxHangupCall p) c = snd (pbx_hangup_ordinary p c)"
| "call_apply (ClaimForward p) c = snd (claim_ringing_forward p c)"
| "call_apply (CompleteForward p) c = snd (complete_ringing_forward p c)"
| "call_apply (RollbackForward p) c = snd (rollback_ringing_forward p c)"
| "call_apply (CancelOffer k) c = snd (cancel_inbound_offer k c)"
| "call_apply (DivertCall d k t) c = snd (begin_immediate_divert d k t c)"
| "call_apply (AbortVoicemail d i) c = snd (abort_voicemail d i c)"
| "call_apply (CompleteVoicemail d i p) c = snd (complete_voicemail_native d i p c)"

definition call_run :: "duration \<Rightarrow> duration \<Rightarrow> call_action list \<Rightarrow> 'x controller" where
  "call_run first_digit interdigit actions = fold call_apply actions (with_digit_timeouts first_digit interdigit)"

section \<open>Sample phones\<close>

definition sample_binding :: "string \<Rightarrow> u32 \<Rightarrow> line_binding" where
  "sample_binding device instance = \<lparr>lb_device_id = device, lb_line_instance = instance,
     lb_appearance = \<lparr>la_id = instance, la_instance = instance,
       la_line = \<lparr>ld_number = ascii ''100'', ld_display_name = ascii ''Desk''\<rparr>, la_label = None,
       la_caller_id = \<lparr>co_name = None, co_number = None\<rparr>, la_ring_mode = Normal,
       la_initial_tone = InsideDial, la_subscription_identity = None, la_privacy = False\<rparr>,
     lb_line = \<lparr>lc_number = ascii ''100'', lc_label = ascii ''Desk'', lc_context = ascii ''phones'',
       lc_caller_name = ascii ''Desk'', lc_caller_number = ascii ''100'', lc_mailbox = None, lc_language = ascii ''en'',
       lc_account_code = None, lc_channel_variables = []\<rparr>\<rparr>"

text \<open>Two phones that share the line: both ring, the first answers.\<close>

definition shared_ringing :: "call_action list" where
  "shared_ringing = [Register 1 ''A'', Register 2 ''B'', UpdateCapabilities ''A'' 1 [4], UpdateCapabilities ''B'' 2 [4],
     BeginAsteriskCall 2 8 (sample_binding ''A'' 1) 4, AddAppearance 8 3 (sample_binding ''B'' 1) 4]"

definition barged_call :: "call_action list" where
  "barged_call = shared_ringing @ [AnswerCall 2, BargeCall 3 (sample_binding ''B'' 1) 4 Directed]"

section \<open>The invariant\<close>

text \<open>
  \<open>controller_ok\<close> is what the operations keep. It is stronger than the validators where they
  alone would not be kept: a group has its claim and its members their sessions and vice
  versa, its call is connected, and a call that is being redirected takes no part in a
  barge.
\<close>

definition devices_ok :: "'x controller \<Rightarrow> bool" where
  "devices_ok c \<longleftrightarrow> hm_wf (ct_devices c) \<and>
     (\<forall>d dev. hm_get (ct_devices c) d = Some dev \<longrightarrow>
        (\<forall>k. rd_active_call dev = Some k \<longrightarrow> shows_call c d k) \<and> (\<forall>k \<in> set (rd_selected_calls dev). shows_call c d k))"

definition redirects_ok :: "'x controller \<Rightarrow> bool" where
  "redirects_ok c \<longleftrightarrow>
     (\<forall>p \<in> set (ct_redirect_claims c). hm_contains (rg_pbx (ct_registry c)) p
        \<and> hm_get (ct_barge_groups c) p = None \<and> hm_get (ct_barge_by_pbx c) p = None)"

definition voicemail_ok :: "'x controller \<Rightarrow> bool" where
  "voicemail_ok c \<longleftrightarrow> voicemail_inv (ct_voicemail c) \<and>
     (\<forall>d t. hm_get (vr_by_device (ct_voicemail c)) d = Some t \<longrightarrow>
        vm_pbx_call_id t \<in> set (ct_redirect_claims c)
        \<and> (\<exists>a. appearance_for_call c (vm_handset_call_id t) = Some a \<and> ap_pbx_id a = vm_pbx_call_id t \<and> ap_device_id a = d))"

definition claims_ok :: "'x controller \<Rightarrow> bool" where
  "claims_ok c \<longleftrightarrow> hm_wf (ct_shared_control_claims c) \<and>
     (\<forall>p w. hm_get (ct_shared_control_claims c) p = Some (Steal w) \<longrightarrow>
        (\<exists>call. pbx_call_of c p = Some call \<and> pc_active_appearance call = Some w))
     \<and> (\<forall>p b. hm_get (ct_shared_control_claims c) p = Some (Barge b) \<longleftrightarrow>
        (\<exists>g. hm_get (ct_barge_groups c) p = Some g \<and> bg_bridge_id g = b))"

definition group_ok :: "'x controller \<Rightarrow> pbx_call_id \<Rightarrow> barge_group \<Rightarrow> bool" where
  "group_ok c p g \<longleftrightarrow> bg_members g \<noteq> [] \<and> distinct (bg_members g)
     \<and> (\<exists>call. pbx_call_of c p = Some call \<and> pc_state call = StConnected)
     \<and> (\<forall>k \<in> set (bg_members g). \<exists>s. hm_get (ct_barge_by_handset c) k = Some s
          \<and> bs_target_call_id s = p \<and> bs_bridge_id s = bg_bridge_id g \<and> bs_mode s = bg_mode g)"

definition session_ok :: "'x controller \<Rightarrow> call_id \<Rightarrow> barge_session \<Rightarrow> bool" where
  "session_ok c k s \<longleftrightarrow> bs_handset_call_id s = k \<and> hm_get (ct_barge_by_pbx c) (bs_barger_call_id s) = Some k
     \<and> (\<exists>call. pbx_call_of c (bs_barger_call_id s) = Some call \<and> pc_appearance_ids call = [] \<and> pc_state call = StConnected)
     \<and> (\<exists>a. appearance_for_call c k = Some a \<and> ap_pbx_id a = bs_target_call_id s \<and> ap_state a = StBarged)
     \<and> (\<exists>g. hm_get (ct_barge_groups c) (bs_target_call_id s) = Some g \<and> k \<in> set (bg_members g))"

definition barges_ok :: "'x controller \<Rightarrow> bool" where
  "barges_ok c \<longleftrightarrow>
     (hm_wf (ct_barge_groups c) \<and> hm_wf (ct_barge_by_handset c) \<and> hm_wf (ct_barge_by_pbx c))
     \<and> (\<forall>p g. hm_get (ct_barge_groups c) p = Some g \<longrightarrow> group_ok c p g)
     \<and> (\<forall>k s. hm_get (ct_barge_by_handset c) k = Some s \<longrightarrow> session_ok c k s)
     \<and> (\<forall>p k. hm_get (ct_barge_by_pbx c) p = Some k \<longrightarrow>
          (\<exists>s. hm_get (ct_barge_by_handset c) k = Some s \<and> bs_barger_call_id s = p))"

definition controller_ok :: "'x controller \<Rightarrow> bool" where
  "controller_ok c \<longleftrightarrow> calls_ok (ct_registry c) \<and> devices_ok c \<and> redirects_ok c \<and> voicemail_ok c
     \<and> claims_ok c \<and> barges_ok c \<and> ct_next_pbx_id c \<noteq> 0"

lemma controller_okD:
  assumes "controller_ok c"
  shows "calls_ok (ct_registry c)" "index_ok (ct_registry c)" "states_ok (ct_registry c)"
    "devices_ok c" "redirects_ok c" "voicemail_ok c" "claims_ok c" "barges_ok c" "ct_next_pbx_id c \<noteq> 0"
  using assms unfolding controller_ok_def calls_ok_def by simp_all

lemma controller_ok_new: "controller_ok (with_digit_timeouts t u)"
  unfolding controller_ok_def
  by (simp add: with_digit_timeouts_def calls_ok_default devices_ok_def redirects_ok_def voicemail_ok_def
      voicemail_inv_def voicemail_registry_default_def claims_ok_def barges_ok_def)

lemma shows_callE:
  assumes "shows_call c d k"
  obtains a where "appearance_for_call c k = Some a" "ap_device_id a = d"
  using assms by (auto simp: shows_call_def split: option.splits)

lemma shows_callI: "appearance_for_call c k = Some a \<Longrightarrow> ap_device_id a = d \<Longrightarrow> shows_call c d k"
  by (simp add: shows_call_def)

lemma devices_okD:
  assumes "devices_ok c"
  shows "hm_wf (ct_devices c)"
    and "hm_get (ct_devices c) d = Some dev \<Longrightarrow> rd_active_call dev = Some k \<Longrightarrow> shows_call c d k"
    and "hm_get (ct_devices c) d = Some dev \<Longrightarrow> k \<in> set (rd_selected_calls dev) \<Longrightarrow> shows_call c d k"
  using assms unfolding devices_ok_def by simp_all

lemma barges_okD:
  assumes "barges_ok c"
  shows "hm_wf (ct_barge_groups c)" "hm_wf (ct_barge_by_handset c)" "hm_wf (ct_barge_by_pbx c)"
    and "hm_get (ct_barge_groups c) p = Some g \<Longrightarrow> group_ok c p g"
    and "hm_get (ct_barge_by_handset c) k = Some s \<Longrightarrow> session_ok c k s"
    and "hm_get (ct_barge_by_pbx c) p = Some k \<Longrightarrow>
      \<exists>s. hm_get (ct_barge_by_handset c) k = Some s \<and> bs_barger_call_id s = p"
  using assms unfolding barges_ok_def by simp_all

lemma barges_okI:
  assumes "hm_wf (ct_barge_groups c)" "hm_wf (ct_barge_by_handset c)" "hm_wf (ct_barge_by_pbx c)"
    and "\<And>p g. hm_get (ct_barge_groups c) p = Some g \<Longrightarrow> group_ok c p g"
    and "\<And>k s. hm_get (ct_barge_by_handset c) k = Some s \<Longrightarrow> session_ok c k s"
    and "\<And>p k. hm_get (ct_barge_by_pbx c) p = Some k \<Longrightarrow>
      \<exists>s. hm_get (ct_barge_by_handset c) k = Some s \<and> bs_barger_call_id s = p"
  shows "barges_ok c"
  unfolding barges_ok_def using assms by simp

lemma claims_okD:
  assumes "claims_ok c"
  shows "hm_wf (ct_shared_control_claims c)"
    and "hm_get (ct_shared_control_claims c) p = Some (Steal w) \<Longrightarrow>
      \<exists>call. pbx_call_of c p = Some call \<and> pc_active_appearance call = Some w"
    and "hm_get (ct_shared_control_claims c) p = Some (Barge b) \<longleftrightarrow>
      (\<exists>g. hm_get (ct_barge_groups c) p = Some g \<and> bg_bridge_id g = b)"
  using assms unfolding claims_ok_def by simp_all

lemma claims_okI:
  assumes "hm_wf (ct_shared_control_claims c)"
    and "\<And>p w. hm_get (ct_shared_control_claims c) p = Some (Steal w) \<Longrightarrow>
      \<exists>call. pbx_call_of c p = Some call \<and> pc_active_appearance call = Some w"
    and "\<And>p b. hm_get (ct_shared_control_claims c) p = Some (Barge b) \<longleftrightarrow>
      (\<exists>g. hm_get (ct_barge_groups c) p = Some g \<and> bg_bridge_id g = b)"
  shows "claims_ok c"
  unfolding claims_ok_def using assms by simp

subsection \<open>It keeps the validators silent\<close>

lemma controller_ok_silent:
  assumes "controller_ok c"
  shows "invariant_error c = None"
proof -
  note ok = controller_okD [OF assms]
  have "ownership_error c = None"
    unfolding ownership_error_def or_else_None first_error_None
  proof (intro conjI ballI)
    fix p assume "p \<in> set (ct_redirect_claims c)"
    with ok(5) show "(if hm_contains (rg_pbx (ct_registry c)) p then None else Some (RedirectWithoutCall p)) = None"
      by (simp add: redirects_ok_def)
  next
    fix t assume "t \<in> set (voicemail_transactions (ct_voicemail c))"
    with ok(6) obtain d where d: "hm_get (vr_by_device (ct_voicemail c)) d = Some t"
      by (auto simp: voicemail_transactions_def voicemail_ok_def voicemail_inv_def hm_values_iff)
    with ok(5,6) voicemail_inv_get(1) [of "ct_voicemail c" d t]
    show "voicemail_ownership_error c t = None"
      by (fastforce simp: voicemail_ownership_error_def voicemail_ok_def redirects_ok_def Let_def)
  qed
  moreover have "device_registry_error c = None"
    unfolding device_registry_error_def first_error_None hm_all_iff [OF devices_okD(1) [OF ok(4)]]
    using devices_okD(2,3) [OF ok(4)] by (auto simp: list_ex_iff split: option.split)
  moreover have "call_registry_error (ct_registry c) = None"
    using call_registry_error_None [OF index_ok_wf [OF ok(2)]] ok(1) by simp
  moreover have "first_error (claim_error c) (ct_shared_control_claims c) = None"
    unfolding first_error_None hm_all_iff [OF claims_okD(1) [OF ok(7)]]
  proof (intro allI impI)
    fix p claim assume cl: "hm_get (ct_shared_control_claims c) p = Some claim"
    show "claim_error c (p, claim) = None"
    proof (cases claim)
      case (Steal w)
      with claims_okD(2) [OF ok(7), of p w] cl show ?thesis by (auto simp: claim_error_def)
    next
      case (Barge b)
      with claims_okD(3) [OF ok(7), of p b] cl obtain g where g: "hm_get (ct_barge_groups c) p = Some g" "bg_bridge_id g = b"
        by auto
      with barges_okD(4) [OF ok(8) g(1)] Barge show ?thesis by (auto simp: claim_error_def group_ok_def)
    qed
  qed
  moreover have "first_error (group_error c) (ct_barge_groups c) = None"
    unfolding first_error_None hm_all_iff [OF barges_okD(1) [OF ok(8)]]
    using barges_okD(4) [OF ok(8)] by (fastforce simp: group_error_def group_ok_def first_error_None)
  moreover have "first_error (session_error c) (ct_barge_by_handset c) = None"
    unfolding first_error_None hm_all_iff [OF barges_okD(2) [OF ok(8)]]
    using barges_okD(5) [OF ok(8)] by (fastforce simp: session_error_def session_ok_def)
  moreover have "first_error (barge_index_error c) (ct_barge_by_pbx c) = None"
    unfolding first_error_None hm_all_iff [OF barges_okD(3) [OF ok(8)]]
    using barges_okD(6) [OF ok(8)] by (fastforce simp: barge_index_error_def)
  ultimately show ?thesis by (simp add: invariant_error_def shared_control_error_def)
qed

section \<open>Operations that keep the presentations\<close>

lemma appearance_for_skeleton:
  assumes "same_skeleton r r'" and "appearance_for k r = Some b"
  shows "\<exists>a. appearance_for k r' = Some a \<and> ap_id a = ap_id b \<and> ap_sccp_id a = ap_sccp_id b
    \<and> ap_pbx_id a = ap_pbx_id b \<and> ap_device_id a = ap_device_id b"
proof -
  from assms(2) obtain i where i: "hm_get (rg_by_sccp r) k = Some i" "hm_get (rg_appearances r) i = Some b"
    unfolding appearance_for_def by (auto simp: bind_eq_Some_conv)
  have "hm_get (rg_by_sccp r') k = Some i" using assms(1) i(1) by (simp add: same_skeleton_def)
  with same_skeleton_appearance(2) [OF assms(1) i(2)] show ?thesis
    unfolding appearance_for_def by fastforce
qed

lemma same_skeleton_sym:
  assumes "same_skeleton r r'" and "hm_wf (rg_pbx r)" "hm_wf (rg_appearances r)"
  shows "same_skeleton r' r"
  using assms unfolding same_skeleton_def by (simp add: eq_commute)

lemma same_skeleton_trans [trans]: "same_skeleton r r' \<Longrightarrow> same_skeleton r' r'' \<Longrightarrow> same_skeleton r r''"
  unfolding same_skeleton_def by simp

lemma same_skeleton_refl: "index_ok r \<Longrightarrow> same_skeleton r r"
  unfolding same_skeleton_def by (simp add: index_ok_wf)

lemma shows_call_skeleton:
  assumes "same_skeleton (ct_registry c) (ct_registry c')" and "shows_call c d k"
  shows "shows_call c' d k"
  using appearance_for_skeleton [OF assms(1)] assms(2) by (fastforce elim!: shows_callE intro: shows_callI)

lemma redirects_okD:
  assumes "redirects_ok c" and "p \<in> set (ct_redirect_claims c)"
  shows "hm_contains (rg_pbx (ct_registry c)) p" "hm_get (ct_barge_groups c) p = None" "hm_get (ct_barge_by_pbx c) p = None"
  using assms unfolding redirects_ok_def by simp_all

lemma voicemail_okD:
  assumes "voicemail_ok c"
  shows "voicemail_inv (ct_voicemail c)"
    and "hm_get (vr_by_device (ct_voicemail c)) d = Some t \<Longrightarrow> vm_pbx_call_id t \<in> set (ct_redirect_claims c)"
    and "hm_get (vr_by_device (ct_voicemail c)) d = Some t \<Longrightarrow>
      \<exists>a. appearance_for_call c (vm_handset_call_id t) = Some a \<and> ap_pbx_id a = vm_pbx_call_id t \<and> ap_device_id a = d"
  using assms unfolding voicemail_ok_def by simp_all

lemma voicemail_okI:
  assumes "voicemail_inv (ct_voicemail c)"
    and "\<And>d t. hm_get (vr_by_device (ct_voicemail c)) d = Some t \<Longrightarrow> vm_pbx_call_id t \<in> set (ct_redirect_claims c)"
    and "\<And>d t. hm_get (vr_by_device (ct_voicemail c)) d = Some t \<Longrightarrow>
      \<exists>a. appearance_for_call c (vm_handset_call_id t) = Some a \<and> ap_pbx_id a = vm_pbx_call_id t \<and> ap_device_id a = d"
  shows "voicemail_ok c"
  using assms unfolding voicemail_ok_def by simp

lemma hm_contains_skeleton: "same_skeleton r r' \<Longrightarrow> hm_contains (rg_pbx r) p \<Longrightarrow> hm_contains (rg_pbx r') p"
  unfolding hm_contains_def using same_skeleton_pbx(2) [of r r' p] by auto

lemma controller_ok_restyle:
  assumes ok: "controller_ok c" and sk: "same_skeleton (ct_registry c) (ct_registry c')"
    and st: "states_ok (ct_registry c')" and dev: "devices_ok c'" and cl: "claims_ok c'"
    and same: "ct_redirect_claims c' = ct_redirect_claims c" "ct_voicemail c' = ct_voicemail c"
      "ct_barge_groups c' = ct_barge_groups c" "ct_barge_by_handset c' = ct_barge_by_handset c"
      "ct_barge_by_pbx c' = ct_barge_by_pbx c" "ct_next_pbx_id c' \<noteq> 0"
    and barged: "\<And>i a. appearance_of c i = Some a \<Longrightarrow> ap_state a = StBarged \<Longrightarrow> hm_contains (ct_barge_groups c) (ap_pbx_id a) \<Longrightarrow>
      \<exists>a'. appearance_of c' i = Some a' \<and> ap_state a' = StBarged"
    and conn: "\<And>p call. pbx_call_of c p = Some call \<Longrightarrow> pc_state call = StConnected \<Longrightarrow>
      pc_appearance_ids call = [] \<or> hm_contains (ct_barge_groups c) p \<Longrightarrow>
      \<exists>call'. pbx_call_of c' p = Some call' \<and> pc_state call' = StConnected"
  shows "controller_ok c'"
proof -
  note okD = controller_okD [OF ok]
  have "index_ok (ct_registry c')" by (rule index_ok_skeleton [OF okD(2) sk])
  then have "calls_ok (ct_registry c')" using st by (simp add: calls_ok_def)
  moreover have "redirects_ok c'"
    using okD(5) hm_contains_skeleton [OF sk] unfolding redirects_ok_def same by simp
  moreover have "voicemail_ok c'"
  proof (rule voicemail_okI)
    show "voicemail_inv (ct_voicemail c')" unfolding same by (rule voicemail_okD(1) [OF okD(6)])
    fix d t assume t: "hm_get (vr_by_device (ct_voicemail c')) d = Some t"
    then show "vm_pbx_call_id t \<in> set (ct_redirect_claims c')" unfolding same by (rule voicemail_okD(2) [OF okD(6)])
    from voicemail_okD(3) [OF okD(6) t [unfolded same]] appearance_for_skeleton [OF sk]
    show "\<exists>a. appearance_for_call c' (vm_handset_call_id t) = Some a \<and> ap_pbx_id a = vm_pbx_call_id t \<and> ap_device_id a = d"
      by fastforce
  qed
  moreover have "barges_ok c'"
  proof (rule barges_okI)
    show "hm_wf (ct_barge_groups c')" "hm_wf (ct_barge_by_handset c')" "hm_wf (ct_barge_by_pbx c')"
      unfolding same using barges_okD [OF okD(8)] by blast+
    fix p g assume "hm_get (ct_barge_groups c') p = Some g"
    then have g: "hm_get (ct_barge_groups c) p = Some g" unfolding same .
    then show "group_ok c' p g"
      using barges_okD(4) [OF okD(8) g] conn unfolding group_ok_def same hm_contains_def by blast
  next
    fix k s assume "hm_get (ct_barge_by_handset c') k = Some s"
    then have so: "session_ok c k s" unfolding same by (rule barges_okD(5) [OF okD(8)])
    obtain call where call: "pbx_call_of c (bs_barger_call_id s) = Some call" "pc_appearance_ids call = []" "pc_state call = StConnected"
      using so unfolding session_ok_def by blast
    with conn [OF call(1,3)] same_skeleton_pbx(2) [OF sk call(1)]
    have 1: "\<exists>call. pbx_call_of c' (bs_barger_call_id s) = Some call \<and> pc_appearance_ids call = [] \<and> pc_state call = StConnected"
      by auto
    obtain a where a: "appearance_for_call c k = Some a" "ap_pbx_id a = bs_target_call_id s" "ap_state a = StBarged"
      using so unfolding session_ok_def by blast
    have grp: "hm_contains (ct_barge_groups c) (ap_pbx_id a)"
      using so a(2) unfolding session_ok_def hm_contains_def by auto
    obtain b where b: "appearance_for_call c' k = Some b" "ap_id b = ap_id a" "ap_pbx_id b = ap_pbx_id a"
      using appearance_for_skeleton [OF sk a(1)] by blast
    have "appearance_of c' (ap_id a) = Some b"
      using appearance_for_owned(1) [OF \<open>index_ok (ct_registry c')\<close> b(1)] b(2) by simp
    with barged [OF appearance_for_owned(1) [OF okD(2) a(1)] a(3) grp] b a(2)
    have 2: "\<exists>a. appearance_for_call c' k = Some a \<and> ap_pbx_id a = bs_target_call_id s \<and> ap_state a = StBarged"
      by auto
    show "session_ok c' k s" using so 1 2 unfolding session_ok_def same by blast
  next
    fix p k assume "hm_get (ct_barge_by_pbx c') p = Some k"
    then show "\<exists>s. hm_get (ct_barge_by_handset c') k = Some s \<and> bs_barger_call_id s = p"
      unfolding same by (rule barges_okD(6) [OF okD(8)])
  qed
  ultimately show ?thesis using dev cl same(6) by (simp add: controller_ok_def)
qed

subsection \<open>What a device shows\<close>

definition devices_weaker :: "(device_id, registered_device) hash_map \<Rightarrow> (device_id, registered_device) hash_map \<Rightarrow> bool" where
  "devices_weaker devs devs' \<longleftrightarrow> hm_wf devs' \<and>
     (\<forall>d dev'. hm_get devs' d = Some dev' \<longrightarrow> (\<exists>dev. hm_get devs d = Some dev
        \<and> (rd_active_call dev' = None \<or> rd_active_call dev' = rd_active_call dev)
        \<and> set (rd_selected_calls dev') \<subseteq> set (rd_selected_calls dev)))"

lemma devices_weaker_refl: "hm_wf devs \<Longrightarrow> devices_weaker devs devs"
  unfolding devices_weaker_def by blast

lemma devices_weaker_trans: "devices_weaker a b \<Longrightarrow> devices_weaker b c \<Longrightarrow> devices_weaker a c"
  unfolding devices_weaker_def by (elim conjE, intro conjI allI impI, assumption) fastforce

lemma devices_weaker_modify:
  assumes "hm_wf devs" and "\<And>dev. rd_active_call (f dev) = None \<or> rd_active_call (f dev) = rd_active_call dev"
    and "\<And>dev. set (rd_selected_calls (f dev)) \<subseteq> set (rd_selected_calls dev)"
  shows "devices_weaker devs (hm_modify d f devs)"
  unfolding devices_weaker_def
proof (intro conjI allI impI)
  show "hm_wf (hm_modify d f devs)" using assms(1) by (rule hm_wf_modify)
  fix e dev' assume e: "hm_get (hm_modify d f devs) e = Some dev'"
  show "\<exists>dev. hm_get devs e = Some dev \<and> (rd_active_call dev' = None \<or> rd_active_call dev' = rd_active_call dev)
      \<and> set (rd_selected_calls dev') \<subseteq> set (rd_selected_calls dev)"
  proof (cases "e = d")
    case True
    with e obtain dev where "hm_get devs d = Some dev" "dev' = f dev" by auto
    with True assms(2,3) show ?thesis by blast
  qed (use e in auto)
qed

lemma devices_ok_weaker:
  assumes "devices_ok c" and sk: "same_skeleton (ct_registry c) (ct_registry c')"
    and weak: "devices_weaker (ct_devices c) (ct_devices c')"
  shows "devices_ok c'"
  unfolding devices_ok_def
proof (intro conjI allI impI ballI)
  show "hm_wf (ct_devices c')" using weak by (simp add: devices_weaker_def)
  fix d dev' assume "hm_get (ct_devices c') d = Some dev'"
  with weak obtain dev where dev: "hm_get (ct_devices c) d = Some dev"
    "rd_active_call dev' = None \<or> rd_active_call dev' = rd_active_call dev"
    "set (rd_selected_calls dev') \<subseteq> set (rd_selected_calls dev)"
    unfolding devices_weaker_def by blast
  { fix k assume "rd_active_call dev' = Some k"
    with dev(2) devices_okD(2) [OF assms(1) dev(1), of k] shows_call_skeleton [OF sk]
    show "shows_call c' d k" by simp
  next
    fix k assume "k \<in> set (rd_selected_calls dev')"
    with dev(3) devices_okD(3) [OF assms(1) dev(1), of k] shows_call_skeleton [OF sk]
    show "shows_call c' d k" by blast
  }
qed

lemma shows_call_registry: "ct_registry c' = ct_registry c \<Longrightarrow> shows_call c' = shows_call c"
  by (simp add: shows_call_def fun_eq_iff)

lemma devices_ok_modify:
  assumes "devices_ok c"
    and "\<And>dev k. hm_get (ct_devices c) d = Some dev \<Longrightarrow> rd_active_call (f dev) = Some k \<Longrightarrow> shows_call c d k"
    and "\<And>dev k. hm_get (ct_devices c) d = Some dev \<Longrightarrow> k \<in> set (rd_selected_calls (f dev)) \<Longrightarrow> shows_call c d k"
  shows "devices_ok (c\<lparr>ct_devices := hm_modify d f (ct_devices c)\<rparr>)"
proof -
  have sh: "shows_call (c\<lparr>ct_devices := hm_modify d f (ct_devices c)\<rparr>) = shows_call c"
    by (rule shows_call_registry) simp
  show ?thesis
    unfolding devices_ok_def sh
  proof (intro conjI allI impI ballI)
    show "hm_wf (ct_devices (c\<lparr>ct_devices := hm_modify d f (ct_devices c)\<rparr>))"
      using devices_okD(1) [OF assms(1)] by simp
    fix e dev' assume e: "hm_get (ct_devices (c\<lparr>ct_devices := hm_modify d f (ct_devices c)\<rparr>)) e = Some dev'"
    have cases: "(e = d \<and> (\<exists>dev. hm_get (ct_devices c) d = Some dev \<and> dev' = f dev)) \<or> hm_get (ct_devices c) e = Some dev'"
      using e by (cases "e = d") auto
    { fix k assume "rd_active_call dev' = Some k"
      with cases assms(2) devices_okD(2) [OF assms(1), of e dev' k] show "shows_call c e k" by blast
    next
      fix k assume "k \<in> set (rd_selected_calls dev')"
      with cases assms(3) devices_okD(3) [OF assms(1), of e dev' k] show "shows_call c e k" by blast
    }
  qed
qed

text \<open>Only the devices change.\<close>

lemma controller_ok_devices:
  assumes ok: "controller_ok c" and "devices_ok (c\<lparr>ct_devices := devs\<rparr>)"
  shows "controller_ok (c\<lparr>ct_devices := devs\<rparr>)"
proof -
  have ap: "appearance_for_call (c\<lparr>ct_devices := devs\<rparr>) = appearance_for_call c" by (simp add: fun_eq_iff)
  show ?thesis
    using assms unfolding controller_ok_def
    by (simp add: redirects_ok_def voicemail_ok_def claims_ok_def barges_ok_def group_ok_def session_ok_def)
qed

lemma controller_ok_shows:
  assumes "controller_ok c" and "hm_get (ct_devices c) d = Some dev"
  shows "rd_active_call dev = Some k \<Longrightarrow> shows_call c d k" "k \<in> set (rd_selected_calls dev) \<Longrightarrow> shows_call c d k"
  using devices_okD(2,3) [OF controller_okD(4) [OF assms(1)] assms(2)] by simp_all

lemma select_line_ok: "controller_ok c \<Longrightarrow> controller_ok (select_line d l c)"
  unfolding select_line_def
  by (rule controller_ok_devices, assumption, rule devices_ok_modify)
    (auto dest: controller_okD(4) intro: controller_ok_shows)

lemma set_active_call_ok: "controller_ok c \<Longrightarrow> controller_ok (set_active_call d k c)"
  unfolding set_active_call_def
  by (auto intro!: controller_ok_devices devices_ok_modify dest: controller_okD(4) intro: controller_ok_shows split: option.splits)

lemma set_call_selected_ok: "controller_ok c \<Longrightarrow> controller_ok (set_call_selected d k b c)"
  unfolding set_call_selected_def
  by (auto intro!: controller_ok_devices devices_ok_modify dest: controller_okD(4) intro: controller_ok_shows split: if_splits)

lemma toggle_call_selected_ok: "controller_ok c \<Longrightarrow> controller_ok (snd (toggle_call_selected d k c))"
  by (simp add: toggle_call_selected_def Let_def set_call_selected_ok split: option.split)

lemma present_owner_ok: "controller_ok c \<Longrightarrow> controller_ok (present_owner a k c)"
  by (simp add: present_owner_def select_line_ok set_active_call_ok set_call_selected_ok)

lemma update_capabilities_ok: "controller_ok c \<Longrightarrow> controller_ok (update_capabilities d g codecs c)"
  unfolding update_capabilities_def
  by (rule controller_ok_devices, assumption, rule devices_ok_modify)
    (auto dest: controller_okD(4) intro: controller_ok_shows split: if_splits)

lemma register_device_ok:
  assumes "controller_ok c"
  shows "controller_ok (register_device g d c)"
proof -
  let ?dev = "\<lparr>rd_session_generation = g, rd_capabilities = None, rd_selected_line = None, rd_active_call = None,
    rd_selected_calls = []\<rparr>"
  have sh: "shows_call (c\<lparr>ct_devices := hm_insert d ?dev (ct_devices c)\<rparr>) = shows_call c"
    by (rule shows_call_registry) simp
  have "devices_ok (c\<lparr>ct_devices := hm_insert d ?dev (ct_devices c)\<rparr>)"
    unfolding devices_ok_def sh using devices_okD [OF controller_okD(4) [OF assms]] by auto
  from controller_ok_devices [OF assms this] show ?thesis using assms by (simp add: register_device_def)
qed

subsection \<open>The loops over the appearances of a call\<close>

lemma deselect_weaker: "hm_wf (ct_devices c) \<Longrightarrow> devices_weaker (ct_devices c) (ct_devices (deselect d k c))"
  unfolding deselect_def by (simp, rule devices_weaker_modify) auto

lemma for_appearances_effect:
  assumes "distinct ids" and "hm_wf (rg_appearances (ct_registry c))" and "hm_wf (ct_devices c)"
  shows "\<exists>apps devs. snd (for_appearances f ids c)
      = c\<lparr>ct_registry := (ct_registry c)\<lparr>rg_appearances := apps\<rparr>, ct_devices := devs\<rparr>
    \<and> hm_wf apps \<and> devices_weaker (ct_devices c) devs
    \<and> (\<forall>i. hm_get apps i = (if i \<in> set ids then map_option (\<lambda>a. fst (f i a)) (appearance_of c i) else appearance_of c i))"
  using assms
proof (induction ids arbitrary: c)
  case Nil
  have "snd (for_appearances f [] c)
      = c\<lparr>ct_registry := (ct_registry c)\<lparr>rg_appearances := rg_appearances (ct_registry c)\<rparr>, ct_devices := ct_devices c\<rparr>"
    by simp
  with Nil show ?case by (intro exI conjI) (assumption | simp add: devices_weaker_refl)+
next
  case (Cons i ids)
  show ?case
  proof (cases "appearance_of c i")
    case None
    from Cons.prems obtain apps devs where ih: "snd (for_appearances f ids c)
        = c\<lparr>ct_registry := (ct_registry c)\<lparr>rg_appearances := apps\<rparr>, ct_devices := devs\<rparr>"
      "hm_wf apps" "devices_weaker (ct_devices c) devs"
      "\<And>j. hm_get apps j = (if j \<in> set ids then map_option (\<lambda>a. fst (f j a)) (appearance_of c j) else appearance_of c j)"
      using Cons.IH [of c] by auto
    have "snd (for_appearances f (i # ids) c)
        = c\<lparr>ct_registry := (ct_registry c)\<lparr>rg_appearances := apps\<rparr>, ct_devices := devs\<rparr>"
      using None ih(1) by simp
    moreover have "hm_get apps j = (if j \<in> set (i # ids) then map_option (\<lambda>a. fst (f j a)) (appearance_of c j) else appearance_of c j)" for j
      using ih(4) [of j] None by simp
    ultimately show ?thesis using ih(2,3) by blast
  next
    case (Some a)
    obtain a' es b where f: "f i a = (a', es, b)" by (cases "f i a")
    define c1 where "c1 = write_appearance i a' c"
    define c2 where "c2 = (if b then deselect (ap_device_id a') (ap_sccp_id a') c1 else c1)"
    have run: "snd (for_appearances f (i # ids) c) = snd (for_appearances f ids c2)"
      using Some f by (simp add: c1_def c2_def Let_def split: prod.split)
    have c2: "c2 = c\<lparr>ct_registry := (ct_registry c)\<lparr>rg_appearances := hm_insert i a' (rg_appearances (ct_registry c))\<rparr>,
        ct_devices := ct_devices c2\<rparr>"
      by (simp add: c2_def c1_def write_appearance_def deselect_def)
    have weak: "devices_weaker (ct_devices c) (ct_devices c2)"
      using Cons.prems(3) deselect_weaker [of c1] by (simp add: c2_def c1_def write_appearance_def devices_weaker_refl)
    have pre: "distinct ids" "hm_wf (rg_appearances (ct_registry c2))" "hm_wf (ct_devices c2)"
      using Cons.prems weak by (simp_all add: c2_def c1_def write_appearance_def deselect_def devices_weaker_def)
    obtain apps devs where ih: "snd (for_appearances f ids c2)
        = c2\<lparr>ct_registry := (ct_registry c2)\<lparr>rg_appearances := apps\<rparr>, ct_devices := devs\<rparr>"
      "hm_wf apps" "devices_weaker (ct_devices c2) devs"
      "\<And>j. hm_get apps j = (if j \<in> set ids then map_option (\<lambda>a. fst (f j a)) (appearance_of c2 j) else appearance_of c2 j)"
      using Cons.IH [OF pre] by blast
    have "snd (for_appearances f (i # ids) c)
        = c\<lparr>ct_registry := (ct_registry c)\<lparr>rg_appearances := apps\<rparr>, ct_devices := devs\<rparr>"
      unfolding run ih(1) by (subst c2) (simp add: c2_def c1_def write_appearance_def deselect_def)
    moreover have "appearance_of c2 j = (if j = i then Some a' else appearance_of c j)" for j
      by (subst c2) simp
    then have "hm_get apps j = (if j \<in> set (i # ids) then map_option (\<lambda>a. fst (f j a)) (appearance_of c j) else appearance_of c j)" for j
      using ih(4) [of j] Some f Cons.prems(1) by auto
    moreover note ih(2) devices_weaker_trans [OF weak ih(3)]
    ultimately show ?thesis by blast
  qed
qed

lemma for_appearances_run:
  assumes "distinct ids" and "hm_wf (rg_appearances (ct_registry c))" and "hm_wf (ct_devices c)"
    and "for_appearances f ids c = (es, c')"
  obtains apps devs where "c' = c\<lparr>ct_registry := (ct_registry c)\<lparr>rg_appearances := apps\<rparr>, ct_devices := devs\<rparr>"
    "hm_wf apps" "devices_weaker (ct_devices c) devs"
    "\<And>i. hm_get apps i = (if i \<in> set ids then map_option (\<lambda>a. fst (f i a)) (appearance_of c i) else appearance_of c i)"
  using for_appearances_effect [OF assms(1-3), of f] assms(4) by (metis snd_conv)

text \<open>A step that moves an appearance to another state and leaves its identities alone.\<close>

definition keeps_identity :: "(call_appearance_id \<Rightarrow> 'x call_appearance \<Rightarrow> 'x call_appearance \<times> driver_effect list \<times> bool) \<Rightarrow> bool" where
  "keeps_identity f \<longleftrightarrow> (\<forall>i a. ap_id (fst (f i a)) = ap_id a \<and> ap_sccp_id (fst (f i a)) = ap_sccp_id a
     \<and> ap_pbx_id (fst (f i a)) = ap_pbx_id a \<and> ap_device_id (fst (f i a)) = ap_device_id a)"

lemma keeps_identity_steps:
  "keeps_identity (hold_step w)" "keeps_identity (resume_step w p)" "keeps_identity (answer_step w)"
  "keeps_identity (steal_step w p)"
  by (simp_all add: keeps_identity_def hold_step_def resume_step_def answer_step_def steal_step_def Let_def)

text \<open>
  One call is moved: its record by \<open>g\<close>, its appearances by \<open>f\<close>, of which only that of the
  owner is left in an owning state.
\<close>

lemma move_call:
  assumes ok: "controller_ok c" and call: "pbx_call_of c p = Some call"
    and f: "keeps_identity f" and owner: "appearance_of c w = Some owner" "ap_pbx_id owner = p"
    and st: "\<And>i a. owning (ap_state (fst (f i a))) \<longleftrightarrow> i = w"
    and g: "\<And>k. pc_id (g k) = pc_id k" "\<And>k. pc_appearance_ids (g k) = pc_appearance_ids k"
      "pc_active_appearance (g call) = Some w" "pc_pending_pickup (g call) = pc_pending_pickup call"
      "pc_state (g call) \<noteq> StPickupCollecting" "pc_state call \<noteq> StPickupCollecting"
    and nogroup: "hm_get (ct_barge_groups c) p = None"
    and run: "for_appearances f (pc_appearance_ids call) (c\<lparr>ct_registry := (ct_registry c)\<lparr>rg_pbx := hm_modify p g (rg_pbx (ct_registry c))\<rparr>,
        ct_shared_control_claims := claims\<rparr>) = (es, c')"
    and claims: "hm_wf claims" "\<And>q. q \<noteq> p \<Longrightarrow> hm_get claims q = hm_get (ct_shared_control_claims c) q"
      "hm_get claims p = None \<or> hm_get claims p = Some (Steal w)"
  shows "controller_ok c'" "\<And>i. appearance_of c' i = (if i \<in> set (pc_appearance_ids call)
      then map_option (\<lambda>a. fst (f i a)) (appearance_of c i) else appearance_of c i)"
    "rg_pbx (ct_registry c') = hm_modify p g (rg_pbx (ct_registry c))"
    "same_skeleton (ct_registry c) (ct_registry c')"
    "ct_redirect_claims c' = ct_redirect_claims c"
proof -
  note okD = controller_okD [OF ok]
  define c0 where "c0 = c\<lparr>ct_registry := (ct_registry c)\<lparr>rg_pbx := hm_modify p g (rg_pbx (ct_registry c))\<rparr>,
        ct_shared_control_claims := claims\<rparr>"
  have "hm_wf (rg_appearances (ct_registry c0))" "hm_wf (ct_devices c0)"
    using index_ok_wf(2) [OF okD(2)] devices_okD(1) [OF okD(4)] by (simp_all add: c0_def)
  from for_appearances_run [OF index_ok_pbx(2) [OF okD(2) call] this run [folded c0_def]]
  obtain apps devs where c': "c' = c0\<lparr>ct_registry := (ct_registry c0)\<lparr>rg_appearances := apps\<rparr>, ct_devices := devs\<rparr>"
    and wf: "hm_wf apps" and weak: "devices_weaker (ct_devices c0) devs"
    and apps: "\<And>i. hm_get apps i = (if i \<in> set (pc_appearance_ids call)
      then map_option (\<lambda>a. fst (f i a)) (appearance_of c0 i) else appearance_of c0 i)" by blast
  have c0eq: "appearance_of c0 = appearance_of c" "ct_devices c0 = ct_devices c" by (simp_all add: c0_def)
  show pbx: "rg_pbx (ct_registry c') = hm_modify p g (rg_pbx (ct_registry c))" by (simp add: c' c0_def)
  show app: "appearance_of c' i = (if i \<in> set (pc_appearance_ids call)
      then map_option (\<lambda>a. fst (f i a)) (appearance_of c i) else appearance_of c i)" for i
    by (simp add: c' apps c0eq)
  show "ct_redirect_claims c' = ct_redirect_claims c" by (simp add: c' c0_def)
  have members: "i \<in> set (pc_appearance_ids call) \<longleftrightarrow> (\<exists>a. appearance_of c i = Some a \<and> ap_pbx_id a = p)" for i
    by (rule index_ok_members [OF okD(2) call])
  show sk: "same_skeleton (ct_registry c) (ct_registry c')"
    unfolding same_skeleton_def
  proof (intro conjI allI)
    show "rg_by_sccp (ct_registry c') = rg_by_sccp (ct_registry c)" "rg_by_device (ct_registry c') = rg_by_device (ct_registry c)"
      by (simp_all add: c' c0_def)
    show "hm_wf (rg_pbx (ct_registry c'))" "hm_wf (rg_appearances (ct_registry c'))"
      using index_ok_wf(1) [OF okD(2)] wf by (simp_all add: pbx, simp add: c')
    fix q show "map_option (\<lambda>c. (pc_id c, pc_appearance_ids c)) (pbx_call_of c' q)
        = map_option (\<lambda>c. (pc_id c, pc_appearance_ids c)) (pbx_call_of c q)"
      unfolding pbx by (simp add: g(1,2) option.map_comp comp_def)
  next
    fix i show "map_option (\<lambda>a. (ap_id a, ap_sccp_id a, ap_pbx_id a, ap_device_id a)) (appearance_of c' i)
        = map_option (\<lambda>a. (ap_id a, ap_sccp_id a, ap_pbx_id a, ap_device_id a)) (appearance_of c i)"
      unfolding app using f by (simp add: keeps_identity_def option.map_comp comp_def)
  qed
  have states: "states_ok (ct_registry c')"
  proof (rule states_okI)
    fix q c1 assume c1: "pbx_call_of c' q = Some c1"
    show "owner_ok (ct_registry c') q c1"
    proof (cases "q = p")
      case True
      then have c1': "c1 = g call" using c1 call unfolding pbx by simp
      show ?thesis
      proof (rule owner_okI)
        show "(pc_pending_pickup c1 \<noteq> None) = (pc_state c1 = StPickupCollecting)"
          using owner_okD(1) [OF states_okD [OF okD(3) call]] g(4-6) unfolding c1' by simp
        fix i assume "pc_active_appearance c1 = Some i"
        then have i: "i = w" unfolding c1' g(3) by simp
        show "\<exists>a. appearance_of c' i = Some a \<and> ap_pbx_id a = q \<and> owning (ap_state a)"
          unfolding app i using members [of w] owner f st True by (auto simp: keeps_identity_def)
      next
        fix i a assume a: "appearance_of c' i = Some a" "ap_pbx_id a = q" "owning (ap_state a)"
        with same_skeleton_appearance(1) [OF sk a(1)] members [of i] True have "i \<in> set (pc_appearance_ids call)" by auto
        with a(1,3) st show "pc_active_appearance c1 = Some i" unfolding app c1' g(3) by auto
      qed
    next
      case False
      then have c1': "pbx_call_of c q = Some c1" using c1 unfolding pbx by simp
      have same: "appearance_of c' i = appearance_of c i" if "appearance_of c i = Some a" "ap_pbx_id a \<noteq> p" for i a
        unfolding app using members [of i] that by auto
      show ?thesis
      proof (rule owner_ok_cong [OF states_okD [OF okD(3) c1'] refl refl refl])
        fix i a assume "appearance_of c i = Some a" "ap_pbx_id a = q"
        with same [of i a] False show "appearance_of c' i = Some a" by simp
      next
        fix i a assume a: "appearance_of c' i = Some a" "ap_pbx_id a = q"
        from same_skeleton_appearance(1) [OF sk a(1)] obtain b where b: "appearance_of c i = Some b" "ap_pbx_id b = ap_pbx_id a" by blast
        have "ap_pbx_id b \<noteq> p" using b(2) a(2) False by simp
        from same [OF b(1) this] a(1) show "appearance_of c i = Some a" by simp
      qed
    qed
  qed
  show "controller_ok c'"
  proof (rule controller_ok_restyle [OF ok sk states])
    show "devices_ok c'"
      by (rule devices_ok_weaker [OF okD(4) sk]) (use weak c0eq(2) in \<open>simp add: c'\<close>)
    have grp: "ct_barge_groups c' = ct_barge_groups c" and clm: "ct_shared_control_claims c' = claims"
      by (simp_all add: c' c0_def)
    show "claims_ok c'"
    proof (rule claims_okI)
      show "hm_wf (ct_shared_control_claims c')" unfolding clm by (rule claims(1))
      fix q v assume q: "hm_get (ct_shared_control_claims c') q = Some (Steal v)"
      show "\<exists>call. pbx_call_of c' q = Some call \<and> pc_active_appearance call = Some v"
      proof (cases "q = p")
        case True
        with q claims(3) call g(3) show ?thesis unfolding clm pbx by simp
      next
        case False
        with q claims(2) claims_okD(2) [OF okD(7), of q v] show ?thesis unfolding clm pbx by simp
      qed
    next
      fix q b show "hm_get (ct_shared_control_claims c') q = Some (Barge b) \<longleftrightarrow>
          (\<exists>g. hm_get (ct_barge_groups c') q = Some g \<and> bg_bridge_id g = b)"
        unfolding clm grp using claims(2,3) claims_okD(3) [OF okD(7), of q b] nogroup by (cases "q = p") auto
    qed
    show "ct_redirect_claims c' = ct_redirect_claims c" "ct_voicemail c' = ct_voicemail c"
      "ct_barge_groups c' = ct_barge_groups c" "ct_barge_by_handset c' = ct_barge_by_handset c"
      "ct_barge_by_pbx c' = ct_barge_by_pbx c" "ct_next_pbx_id c' \<noteq> 0"
      using okD(9) by (simp_all add: c' c0_def)
    fix i a assume "appearance_of c i = Some a" "ap_state a = StBarged" "hm_contains (ct_barge_groups c) (ap_pbx_id a)"
    with nogroup members [of i] show "\<exists>a'. appearance_of c' i = Some a' \<and> ap_state a' = StBarged"
      unfolding app by (auto simp: hm_contains_def)
  next
    fix q k assume k: "pbx_call_of c q = Some k" "pc_state k = StConnected"
      "pc_appearance_ids k = [] \<or> hm_contains (ct_barge_groups c) q"
    have "q \<noteq> p" using k call nogroup members [of w] owner by (auto simp: hm_contains_def)
    with k(1,2) show "\<exists>k'. pbx_call_of c' q = Some k' \<and> pc_state k' = StConnected" unfolding pbx by simp
  qed
qed

end
