(* ===== verification/Call_Moves.thy ===== *)
theory Call_Moves
  imports Call_Invariants
begin

text \<open>
  The operations that move a call between phones or add one keep the invariant of
  \<^verbatim>\<open>Call_Invariants\<close>: answer, hold, resume, steal, switch, outgoing and offered calls and
  further appearances of a call.
\<close>

section \<open>Answer, hold, resume, steal and switch\<close>

lemma controller_ok_cong:
  assumes "controller_ok c"
    and "ct_registry c' = ct_registry c" "ct_devices c' = ct_devices c" "ct_redirect_claims c' = ct_redirect_claims c"
      "ct_voicemail c' = ct_voicemail c" "ct_shared_control_claims c' = ct_shared_control_claims c"
      "ct_barge_groups c' = ct_barge_groups c" "ct_barge_by_handset c' = ct_barge_by_handset c"
      "ct_barge_by_pbx c' = ct_barge_by_pbx c" "ct_next_pbx_id c' \<noteq> 0"
  shows "controller_ok c'"
  using assms unfolding controller_ok_def devices_ok_def redirects_ok_def voicemail_ok_def claims_ok_def barges_ok_def
    group_ok_def session_ok_def shows_call_def by simp

lemma group_connected:
  assumes "controller_ok c" and "pbx_call_of c p = Some call" and "pc_state call \<noteq> StConnected"
  shows "hm_get (ct_barge_groups c) p = None"
proof (rule ccontr)
  assume "hm_get (ct_barge_groups c) p \<noteq> None"
  then obtain g where "hm_get (ct_barge_groups c) p = Some g" by blast
  from barges_okD(4) [OF controller_okD(8) [OF assms(1)] this] assms(2,3) show False by (simp add: group_ok_def)
qed

text \<open>Without a barge a call has no claim, or that of its owner.\<close>

lemma claim_of_owner:
  assumes "controller_ok c" and "pbx_call_of c p = Some call" and "hm_get (ct_barge_groups c) p = None"
    and "hm_get (ct_shared_control_claims c) p = Some cl"
  shows "\<exists>w. cl = Steal w \<and> pc_active_appearance call = Some w"
proof (cases cl)
  case (Steal w)
  with claims_okD(2) [OF controller_okD(7) [OF assms(1)], of p w] assms(2,4) show ?thesis by auto
next
  case (Barge b)
  with claims_okD(3) [OF controller_okD(7) [OF assms(1)], of p b] assms(3,4) show ?thesis by auto
qed

lemma no_claim_no_group:
  assumes "controller_ok c" and "hm_get (ct_shared_control_claims c) p = None"
  shows "hm_get (ct_barge_groups c) p = None"
  using claims_okD(3) [OF controller_okD(7) [OF assms(1)], of p] assms(2) by (cases "hm_get (ct_barge_groups c) p") auto

lemma selection_fields [simp]:
  "ct_registry (set_call_selected d k b c) = ct_registry c" "ct_registry (set_active_call d q c) = ct_registry c"
  "ct_registry (select_line d l c) = ct_registry c" "ct_registry (present_owner a k c) = ct_registry c"
  "ct_redirect_claims (set_call_selected d k b c) = ct_redirect_claims c"
  "ct_redirect_claims (set_active_call d q c) = ct_redirect_claims c"
  "ct_redirect_claims (select_line d l c) = ct_redirect_claims c"
  "ct_redirect_claims (present_owner a k c) = ct_redirect_claims c"
  by (simp_all add: set_call_selected_def set_active_call_def select_line_def present_owner_def)

text \<open>A held call; the calls that nobody talks on are left as they are.\<close>

lemma hold_step_owning: "owning (ap_state (fst (hold_step w i a))) \<longleftrightarrow> i = w"
  by (simp add: hold_step_def Let_def)

lemma hold_cases:
  assumes "hold k c = (es, c')" and "c' \<noteq> c"
  obtains owner call es3 c3 where "appearance_for_call c k = Some owner" "pbx_call_of c (ap_pbx_id owner) = Some call"
    "hm_get (ct_barge_groups c) (ap_pbx_id owner) = None" "talking (pc_state call)"
    "pc_active_appearance call = Some (ap_id owner)"
    "for_appearances (hold_step (ap_id owner)) (pc_appearance_ids call)
      (c\<lparr>ct_registry := (ct_registry c)\<lparr>rg_pbx := hm_modify (ap_pbx_id owner) (\<lambda>call. call\<lparr>pc_state := StHeld\<rparr>)
            (rg_pbx (ct_registry c))\<rparr>,
         ct_shared_control_claims := hm_remove (ap_pbx_id owner) (ct_shared_control_claims c)\<rparr>) = (es3, c3)"
    "controller_ok c3 \<Longrightarrow> controller_ok c'" "ct_registry c' = ct_registry c3" "ct_redirect_claims c' = ct_redirect_claims c3"
proof -
  from assms obtain owner where owner: "appearance_for_call c k = Some owner"
    unfolding hold_def by (auto split: option.splits)
  with assms obtain call where call: "pbx_call_of c (ap_pbx_id owner) = Some call"
    unfolding hold_def by (auto split: option.splits)
  have guards: "\<not> (ap_pbx_id owner \<in> set (ct_redirect_claims c) \<or> hm_contains (ct_barge_groups c) (ap_pbx_id owner)
      \<or> hm_contains (ct_pending_phone_answers c) k)"
    "talking (pc_state call)" "pc_active_appearance call = Some (ap_id owner)"
    using assms owner call unfolding hold_def by (auto split: if_splits)
  let ?loop = "for_appearances (hold_step (ap_id owner)) (pc_appearance_ids call)
      (c\<lparr>ct_registry := (ct_registry c)\<lparr>rg_pbx := hm_modify (ap_pbx_id owner) (\<lambda>call. call\<lparr>pc_state := StHeld\<rparr>)
            (rg_pbx (ct_registry c))\<rparr>,
         ct_shared_control_claims := hm_remove (ap_pbx_id owner) (ct_shared_control_claims c)\<rparr>)"
  obtain es3 c3 where loop: "?loop = (es3, c3)" by (cases ?loop)
  have fin: "c' = set_call_selected (ap_device_id owner) k False
        (case hm_get (ct_devices c3) (ap_device_id owner) of None \<Rightarrow> c3
         | Some d \<Rightarrow> if rd_active_call d = Some k then set_active_call (ap_device_id owner) None c3 else c3)"
    using assms(1) owner call guards loop unfolding hold_def modify_call_def by simp
  show thesis
    by (rule that [OF owner call _ guards(2,3) loop])
      (use guards(1) in \<open>auto simp: fin hm_contains_def intro!: set_call_selected_ok set_active_call_ok split: option.split\<close>)
qed

lemma hold_effect:
  assumes ok: "controller_ok c" and run: "hold k c = (es, c')"
  shows "controller_ok c' \<and> same_skeleton (ct_registry c) (ct_registry c') \<and> ct_redirect_claims c' = ct_redirect_claims c
    \<and> (\<forall>p call. pbx_call_of c p = Some call \<longrightarrow> \<not> talking (pc_state call) \<longrightarrow> pbx_call_of c' p = Some call)
    \<and> (\<forall>i a call. appearance_of c i = Some a \<longrightarrow> pbx_call_of c (ap_pbx_id a) = Some call \<longrightarrow> \<not> talking (pc_state call)
      \<longrightarrow> appearance_of c' i = Some a)"
proof (cases "c' = c")
  case True
  then show ?thesis
    using ok same_skeleton_refl [OF controller_okD(2) [OF ok]] by simp
next
  case False
  from hold_cases [OF run False] obtain owner call es3 c3 where owner: "appearance_for_call c k = Some owner"
    and call: "pbx_call_of c (ap_pbx_id owner) = Some call"
    and nogroup: "hm_get (ct_barge_groups c) (ap_pbx_id owner) = None" and talk: "talking (pc_state call)"
    and act: "pc_active_appearance call = Some (ap_id owner)"
    and loop: "for_appearances (hold_step (ap_id owner)) (pc_appearance_ids call)
      (c\<lparr>ct_registry := (ct_registry c)\<lparr>rg_pbx := hm_modify (ap_pbx_id owner) (\<lambda>call. call\<lparr>pc_state := StHeld\<rparr>)
            (rg_pbx (ct_registry c))\<rparr>,
         ct_shared_control_claims := hm_remove (ap_pbx_id owner) (ct_shared_control_claims c)\<rparr>) = (es3, c3)"
    and fin: "controller_ok c3 \<Longrightarrow> controller_ok c'" "ct_registry c' = ct_registry c3" "ct_redirect_claims c' = ct_redirect_claims c3"
    by blast
  note w = appearance_for_owned [OF controller_okD(2) [OF ok] owner]
  note moved = move_call [OF ok call keeps_identity_steps(1) w(1) refl hold_step_owning _ _ _ _ _ _ nogroup loop]
  have talk': "pc_state call \<noteq> StPickupCollecting" using talk by auto
  have wf: "hm_wf (hm_remove (ap_pbx_id owner) (ct_shared_control_claims c))"
    using claims_okD(1) [OF controller_okD(7) [OF ok]] by simp
  have m: "controller_ok c3" "same_skeleton (ct_registry c) (ct_registry c3)" "ct_redirect_claims c3 = ct_redirect_claims c"
    "rg_pbx (ct_registry c3) = hm_modify (ap_pbx_id owner) (\<lambda>call. call\<lparr>pc_state := StHeld\<rparr>) (rg_pbx (ct_registry c))"
    using moved talk' act wf by simp_all
  have app: "appearance_of c3 i = (if i \<in> set (pc_appearance_ids call)
      then map_option (\<lambda>a. fst (hold_step (ap_id owner) i a)) (appearance_of c i) else appearance_of c i)" for i
    using moved(2) talk' act wf by simp
  note members = index_ok_members [OF controller_okD(2) [OF ok] call]
  show ?thesis
    unfolding fin(2,3)
  proof (intro conjI allI impI)
    show "controller_ok c'" "same_skeleton (ct_registry c) (ct_registry c3)" "ct_redirect_claims c3 = ct_redirect_claims c"
      using m fin(1) by blast+
    fix p call' assume "pbx_call_of c p = Some call'" "\<not> talking (pc_state call')"
    with call talk show "pbx_call_of c3 p = Some call'" unfolding m(4) by (cases "p = ap_pbx_id owner") auto
  next
    fix i a call' assume a: "appearance_of c i = Some a" "pbx_call_of c (ap_pbx_id a) = Some call'" "\<not> talking (pc_state call')"
    with call talk have "ap_pbx_id a \<noteq> ap_pbx_id owner" by auto
    with a(1) members [of i] show "appearance_of c3 i = Some a" unfolding app by auto
  qed
qed

lemma hold_keeps:
  assumes "controller_ok c" and "hold k c = (es, c')"
  shows "controller_ok c'" "same_skeleton (ct_registry c) (ct_registry c')"
    "ct_redirect_claims c' = ct_redirect_claims c"
    "pbx_call_of c p = Some call \<Longrightarrow> \<not> talking (pc_state call) \<Longrightarrow> pbx_call_of c' p = Some call"
    "appearance_of c i = Some a \<Longrightarrow> pbx_call_of c (ap_pbx_id a) = Some call \<Longrightarrow> \<not> talking (pc_state call)
      \<Longrightarrow> appearance_of c' i = Some a"
  using hold_effect [OF assms] by blast+

text \<open>A move that leaves the claims alone.\<close>

lemma move_call_quietly:
  assumes ok: "controller_ok c" and call: "pbx_call_of c p = Some call"
    and f: "keeps_identity f" and owner: "appearance_of c w = Some owner" "ap_pbx_id owner = p"
    and st: "\<And>i a. owning (ap_state (fst (f i a))) \<longleftrightarrow> i = w"
    and g: "\<And>k. pc_id (g k) = pc_id k" "\<And>k. pc_appearance_ids (g k) = pc_appearance_ids k"
      "pc_active_appearance (g call) = Some w" "pc_pending_pickup (g call) = pc_pending_pickup call"
      "pc_state (g call) \<noteq> StPickupCollecting" "pc_state call \<noteq> StPickupCollecting"
    and nogroup: "hm_get (ct_barge_groups c) p = None"
    and act: "pc_active_appearance call = None \<or> pc_active_appearance call = Some w"
    and run: "for_appearances f (pc_appearance_ids call) (modify_call p g c) = (es, c')"
  shows "controller_ok c'" "\<And>i. appearance_of c' i = (if i \<in> set (pc_appearance_ids call)
      then map_option (\<lambda>a. fst (f i a)) (appearance_of c i) else appearance_of c i)"
    "rg_pbx (ct_registry c') = hm_modify p g (rg_pbx (ct_registry c))"
    "same_skeleton (ct_registry c) (ct_registry c')"
proof -
  have "modify_call p g c = c\<lparr>ct_registry := (ct_registry c)\<lparr>rg_pbx := hm_modify p g (rg_pbx (ct_registry c))\<rparr>,
      ct_shared_control_claims := ct_shared_control_claims c\<rparr>"
    by (simp add: modify_call_def)
  with run have run': "for_appearances f (pc_appearance_ids call)
      (c\<lparr>ct_registry := (ct_registry c)\<lparr>rg_pbx := hm_modify p g (rg_pbx (ct_registry c))\<rparr>,
         ct_shared_control_claims := ct_shared_control_claims c\<rparr>) = (es, c')"
    by simp
  have cl: "hm_get (ct_shared_control_claims c) p = None \<or> hm_get (ct_shared_control_claims c) p = Some (Steal w)"
    using claim_of_owner [OF ok call nogroup] act by (cases "hm_get (ct_shared_control_claims c) p") auto
  note moved = move_call [OF ok call f owner st g nogroup run' claims_okD(1) [OF controller_okD(7) [OF ok]] refl cl]
  show "controller_ok c'" "\<And>i. appearance_of c' i = (if i \<in> set (pc_appearance_ids call)
      then map_option (\<lambda>a. fst (f i a)) (appearance_of c i) else appearance_of c i)"
    "rg_pbx (ct_registry c') = hm_modify p g (rg_pbx (ct_registry c))"
    "same_skeleton (ct_registry c) (ct_registry c')" by (fact moved)+
qed

lemma step_owning:
  "owning (ap_state (fst (answer_step w i a))) \<longleftrightarrow> i = w" "owning (ap_state (fst (resume_step w q i a))) \<longleftrightarrow> i = w"
  "owning (ap_state (fst (steal_step w q i a))) \<longleftrightarrow> i = w"
  by (simp_all add: answer_step_def resume_step_def steal_step_def)

lemma phone_answer_cases:
  assumes "phone_answer k c = (es, c')" and "es \<noteq> []"
  obtains winner call c2 held c3 es5 c5 where
    "appearance_for_call c k = Some winner" "pbx_call_of c (ap_pbx_id winner) = Some call"
    "ap_pbx_id winner \<notin> set (ct_redirect_claims c)" "pc_state call = StRinging" "pc_active_appearance call = None"
    "ap_state winner = StRinging"
    "c2 = (cancel_auto_answers_for_pbx (ap_pbx_id winner) c)\<lparr>ct_call_waiting_tones := hm_remove k (ct_call_waiting_tones c)\<rparr>"
    "held = [] \<and> c3 = c2 \<or> (\<exists>q. hold q c2 = (held, c3))"
    "for_appearances (answer_step (ap_id winner)) (pc_appearance_ids call)
      (modify_call (ap_pbx_id winner) (\<lambda>call. call\<lparr>pc_state := StConnected, pc_active_appearance := Some (ap_id winner),
         pc_privacy := (pc_privacy call \<or> ap_privacy winner \<or> device_privacy c2 (ap_device_id winner))\<rparr>) c3) = (es5, c5)"
    "es = held @ es5 @ [Handset (BeginAnswerMedia (ap_device_id winner) (ap_sccp_id winner) (ap_codec winner))]"
    "c' = present_owner winner k (c5\<lparr>ct_pending_phone_answers :=
        hm_insert (ap_sccp_id winner) (ap_pbx_id winner) (ct_pending_phone_answers c5)\<rparr>)"
proof -
  from assms obtain winner where winner: "appearance_for_call c k = Some winner"
    unfolding phone_answer_def by (auto split: option.splits)
  with assms obtain call where call: "pbx_call_of c (ap_pbx_id winner) = Some call"
    unfolding phone_answer_def by (auto split: option.splits)
  have guards: "ap_pbx_id winner \<notin> set (ct_redirect_claims c)" "pc_state call = StRinging"
    "pc_active_appearance call = None" "ap_state winner = StRinging"
    using assms winner call unfolding phone_answer_def by (auto split: if_splits)
  define c2 where "c2 = (cancel_auto_answers_for_pbx (ap_pbx_id winner) c)\<lparr>ct_call_waiting_tones := hm_remove k (ct_call_waiting_tones c)\<rparr>"
  have c2': "(cancel_auto_answers_for_pbx (ap_pbx_id winner) c)\<lparr>ct_call_waiting_tones :=
      hm_remove k (ct_call_waiting_tones (cancel_auto_answers_for_pbx (ap_pbx_id winner) c))\<rparr> = c2"
    by (simp add: c2_def cancel_auto_answers_for_pbx_def)
  define previous where "previous = (case Option.bind (hm_get (ct_devices c2) (ap_device_id winner)) rd_active_call of
      None \<Rightarrow> None | Some q \<Rightarrow> if q \<noteq> k then Some q else None)"
  obtain held c3 where hc: "(case previous of None \<Rightarrow> ([], c2) | Some q \<Rightarrow> hold q c2) = (held, c3)" by fastforce
  let ?loop = "for_appearances (answer_step (ap_id winner)) (pc_appearance_ids call)
      (modify_call (ap_pbx_id winner) (\<lambda>call. call\<lparr>pc_state := StConnected, pc_active_appearance := Some (ap_id winner),
         pc_privacy := (pc_privacy call \<or> ap_privacy winner \<or> device_privacy c2 (ap_device_id winner))\<rparr>) c3)"
  obtain es5 c5 where loop: "?loop = (es5, c5)" by (cases ?loop)
  have fin: "es = held @ es5 @ [Handset (BeginAnswerMedia (ap_device_id winner) (ap_sccp_id winner) (ap_codec winner))]
    \<and> c' = present_owner winner k (c5\<lparr>ct_pending_phone_answers :=
        hm_insert (ap_sccp_id winner) (ap_pbx_id winner) (ct_pending_phone_answers c5)\<rparr>)"
    using assms winner call guards hc loop unfolding phone_answer_def
    by (simp add: Let_def c2' previous_def [symmetric] cong: option.case_cong split: if_splits)
  show thesis
    by (rule that [OF winner call guards c2_def _ loop]) (use hc fin in \<open>auto split: option.splits\<close>)
qed

lemma phone_answer_refused:
  assumes "phone_answer k c = ([], c')"
  shows "c' = c \<or> (\<exists>p. c' = (cancel_auto_answers_for_pbx p c)\<lparr>ct_call_waiting_tones := hm_remove k (ct_call_waiting_tones c)\<rparr>)"
proof -
  have w: "ct_call_waiting_tones (cancel_auto_answers_for_pbx p c) = ct_call_waiting_tones c" for p
    by (simp add: cancel_auto_answers_for_pbx_def)
  from assms show ?thesis
    unfolding phone_answer_def Let_def
    by (auto simp: w simp del: for_appearances.simps split: option.splits if_splits prod.splits)
qed

lemma quiet_ok:
  assumes "controller_ok c"
  shows "controller_ok ((cancel_auto_answers_for_pbx p c)\<lparr>ct_call_waiting_tones := w\<rparr>)"
    "controller_ok (c\<lparr>ct_pending_phone_answers := a\<rparr>)"
  by (rule controller_ok_cong [OF assms]; simp add: cancel_auto_answers_for_pbx_def controller_okD(9) [OF assms])+

text \<open>After the previous call of the phone is held, the ringing one is as it was.\<close>

lemma phone_answer_held:
  assumes ok: "controller_ok c" and winner: "appearance_for_call c k = Some winner"
    and call: "pbx_call_of c (ap_pbx_id winner) = Some call" and ring: "pc_state call = StRinging"
    and c2: "c2 = (cancel_auto_answers_for_pbx (ap_pbx_id winner) c)\<lparr>ct_call_waiting_tones := hm_remove k (ct_call_waiting_tones c)\<rparr>"
    and held: "held = [] \<and> c3 = c2 \<or> (\<exists>q. hold q c2 = (held, c3))"
  shows "controller_ok c3" "pbx_call_of c3 (ap_pbx_id winner) = Some call" "appearance_of c3 (ap_id winner) = Some winner"
proof -
  have reg: "ct_registry c2 = ct_registry c" by (simp add: c2 cancel_auto_answers_for_pbx_def)
  have ok2: "controller_ok c2" unfolding c2 by (rule quiet_ok(1) [OF ok])
  note w = appearance_for_owned(1) [OF controller_okD(2) [OF ok] winner]
  have "controller_ok c3 \<and> pbx_call_of c3 (ap_pbx_id winner) = Some call \<and> appearance_of c3 (ap_id winner) = Some winner"
    using held
  proof
    assume "\<exists>q. hold q c2 = (held, c3)"
    then obtain q where q: "hold q c2 = (held, c3)" by blast
    show ?thesis using hold_keeps(1,4,5) [OF ok2 q] call w ring unfolding reg by simp
  qed (use ok2 call w reg in simp)
  then show "controller_ok c3" "pbx_call_of c3 (ap_pbx_id winner) = Some call" "appearance_of c3 (ap_id winner) = Some winner"
    by simp_all
qed

lemma phone_answer_ok:
  assumes ok: "controller_ok c" and run: "phone_answer k c = (es, c')"
  shows "controller_ok c'"
proof (cases "es = []")
  case True
  with phone_answer_refused run ok quiet_ok(1) [OF ok] show ?thesis by metis
next
  case False
  from run False show ?thesis
  proof (rule phone_answer_cases)
    fix winner call c2 held c3 es5 c5
    assume winner: "appearance_for_call c k = Some winner" and call: "pbx_call_of c (ap_pbx_id winner) = Some call"
      and ring: "pc_state call = StRinging" and act: "pc_active_appearance call = None"
      and c2: "c2 = (cancel_auto_answers_for_pbx (ap_pbx_id winner) c)\<lparr>ct_call_waiting_tones := hm_remove k (ct_call_waiting_tones c)\<rparr>"
      and held: "held = [] \<and> c3 = c2 \<or> (\<exists>q. hold q c2 = (held, c3))"
      and loop: "for_appearances (answer_step (ap_id winner)) (pc_appearance_ids call)
        (modify_call (ap_pbx_id winner) (\<lambda>call. call\<lparr>pc_state := StConnected, pc_active_appearance := Some (ap_id winner),
           pc_privacy := (pc_privacy call \<or> ap_privacy winner \<or> device_privacy c2 (ap_device_id winner))\<rparr>) c3) = (es5, c5)"
      and c': "c' = present_owner winner k (c5\<lparr>ct_pending_phone_answers :=
        hm_insert (ap_sccp_id winner) (ap_pbx_id winner) (ct_pending_phone_answers c5)\<rparr>)"
    note c3 = phone_answer_held [OF ok winner call ring c2 held]
    have "controller_ok c5"
      by (rule move_call_quietly(1) [OF c3(1,2) keeps_identity_steps(3) c3(3) refl step_owning(1) _ _ _ _ _ _ _ _ loop])
        (use ring act group_connected [OF c3(1,2)] in simp_all)
    then show ?thesis unfolding c' by (intro present_owner_ok quiet_ok(2))
  qed
qed

lemma resume_ok:
  assumes ok: "controller_ok c" and run: "resume k c = (es, c')"
  shows "controller_ok c'"
proof (cases "c' = c")
  case False
  from run False obtain a where a: "appearance_for_call c k = Some a" unfolding resume_def by (auto split: option.splits)
  from run False a obtain call where call: "pbx_call_of c (ap_pbx_id a) = Some call"
    unfolding resume_def by (auto split: option.splits if_splits)
  have guards: "\<not> (ap_pbx_id a \<in> set (ct_redirect_claims c) \<or> hm_contains (ct_conference_by_pbx c) (ap_pbx_id a))"
    "pc_state call = StHeld" "ap_state a \<in> {StHeld, StSharedHeld}"
    "pc_active_appearance call = Some (ap_id a) \<or> shared_control_eligible c a"
    using run False a call unfolding resume_def by (auto split: if_splits)
  define g :: "pbx_call \<Rightarrow> pbx_call" where "g = (\<lambda>call. call\<lparr>pc_state := StConnected, pc_active_appearance := Some (ap_id a),
      pc_privacy := (pc_privacy call \<or> ap_privacy a \<or> device_privacy c (ap_device_id a))\<rparr>)"
  define claims where "claims = (if pc_active_appearance call \<noteq> Some (ap_id a)
      then hm_insert (ap_pbx_id a) (Steal (ap_id a)) (ct_shared_control_claims c) else ct_shared_control_claims c)"
  let ?loop = "for_appearances (resume_step (ap_id a) (pc_active_appearance call)) (pc_appearance_ids call)
      (c\<lparr>ct_registry := (ct_registry c)\<lparr>rg_pbx := hm_modify (ap_pbx_id a) g (rg_pbx (ct_registry c))\<rparr>,
         ct_shared_control_claims := claims\<rparr>)"
  obtain es3 c3 where loop: "?loop = (es3, c3)" by (cases ?loop)
  have c': "c' = present_owner a k c3"
    using run a call guards loop unfolding resume_def modify_call_def claims_def g_def
    by (auto split: if_splits)
  note idx = controller_okD(2) [OF ok] and wf = claims_okD(1) [OF controller_okD(7) [OF ok]]
  have ng: "hm_get (ct_barge_groups c) (ap_pbx_id a) = None" by (rule group_connected [OF ok call]) (simp add: guards(2))
  have "controller_ok c3"
  proof (rule move_call(1) [OF ok call keeps_identity_steps(2) appearance_for_owned(1) [OF idx a] refl step_owning(2) _ _ _ _ _ _ ng loop])
    show "hm_get claims (ap_pbx_id a) = None \<or> hm_get claims (ap_pbx_id a) = Some (Steal (ap_id a))"
      using claim_of_owner [OF ok call ng] by (cases "hm_get (ct_shared_control_claims c) (ap_pbx_id a)") (auto simp: claims_def)
  qed (use wf guards(2) in \<open>simp_all add: claims_def g_def\<close>)
  then show ?thesis unfolding c' by (rule present_owner_ok)
qed (use ok in simp)

lemma steal_ok:
  assumes ok: "controller_ok c" and run: "steal k c = (es, c')"
  shows "controller_ok c'"
proof (cases "c' = c")
  case False
  from run False obtain a where a: "appearance_for_call c k = Some a" unfolding steal_def by (auto split: option.splits)
  from run False a obtain call where call: "pbx_call_of c (ap_pbx_id a) = Some call"
    unfolding steal_def by (auto split: option.splits if_splits)
  have guards: "\<not> (ap_pbx_id a \<in> set (ct_redirect_claims c) \<or> ap_pbx_id a \<in> set (hm_values (ct_pending_phone_answers c)))"
    "pc_state call = StConnected" "ap_state a = StRemoteInUse" "pc_active_appearance call \<noteq> Some (ap_id a)"
    "shared_control_eligible c a"
    using run False a call unfolding steal_def by (auto split: if_splits)
  define g :: "pbx_call \<Rightarrow> pbx_call" where "g = (\<lambda>call. call\<lparr>pc_active_appearance := Some (ap_id a),
      pc_privacy := (pc_privacy call \<or> ap_privacy a \<or> device_privacy c (ap_device_id a))\<rparr>)"
  define claims where "claims = hm_insert (ap_pbx_id a) (Steal (ap_id a)) (ct_shared_control_claims c)"
  let ?loop = "for_appearances (steal_step (ap_id a) (pc_active_appearance call)) (pc_appearance_ids call)
      (c\<lparr>ct_registry := (ct_registry c)\<lparr>rg_pbx := hm_modify (ap_pbx_id a) g (rg_pbx (ct_registry c))\<rparr>,
         ct_shared_control_claims := claims\<rparr>)"
  obtain es3 c3 where loop: "?loop = (es3, c3)" by (cases ?loop)
  have c': "c' = set_call_selected (ap_device_id a) k True (select_line (ap_device_id a) (ap_line_instance a) c3)"
    using run a call guards loop unfolding steal_def modify_call_def claims_def g_def by auto
  note idx = controller_okD(2) [OF ok] and wf = claims_okD(1) [OF controller_okD(7) [OF ok]]
  have ng: "hm_get (ct_barge_groups c) (ap_pbx_id a) = None"
    by (rule no_claim_no_group [OF ok]) (use guards(5) in \<open>simp add: shared_control_eligible_def hm_contains_def\<close>)
  have "controller_ok c3"
    by (rule move_call(1) [OF ok call keeps_identity_steps(4) appearance_for_owned(1) [OF idx a] refl step_owning(3) _ _ _ _ _ _ ng loop])
      (use wf guards(2) in \<open>simp_all add: claims_def g_def\<close>)
  then show ?thesis unfolding c' by (intro set_call_selected_ok select_line_ok)
qed (use ok in simp)

lemma switch_ok:
  assumes ok: "controller_ok c" and run: "switch_active_call d k c = (x, c')"
  shows "controller_ok c'"
proof (cases "c' = c")
  case False
  from run False obtain target dev where target: "appearance_for_call c k = Some target"
    and dev: "hm_get (ct_devices c) d = Some dev"
    unfolding switch_active_call_def by (auto split: option.splits if_splits)
  define busy where "busy = (case rd_active_call dev of None \<Rightarrow> None
    | Some k \<Rightarrow> (case call_state_of c k of None \<Rightarrow> None | Some s \<Rightarrow> if talking s then Some k else None))"
  obtain held c1 where hc: "(case busy of None \<Rightarrow> ([], c) | Some k \<Rightarrow> hold k c) = (held, c1)" by fastforce
  then have ok1: "controller_ok c1" using ok hold_keeps(1) [OF ok] by (auto split: option.splits)
  let ?act = "if ap_state target = StRinging then phone_answer k c1
     else if ap_state target \<in> {StHeld, StSharedHeld} then resume k c1
     else ([Handset (SetCallState d k HsConnected False)], select_line d (ap_line_instance target) (set_active_call d (Some k) c1))"
  obtain activate c2 where act: "?act = (activate, c2)" by (cases ?act)
  then have "controller_ok c2"
    using phone_answer_ok [OF ok1] resume_ok [OF ok1] select_line_ok [OF set_active_call_ok [OF ok1]] by (auto split: if_splits)
  moreover have "c' = c1 \<or> c' = c2"
    using run False target dev hc act unfolding switch_active_call_def
    by (simp add: Let_def busy_def [symmetric] split: if_splits)
  ultimately show ?thesis using ok1 by blast
qed (use ok in simp)

section \<open>New calls\<close>

text \<open>What phones show and what voicemail refers to only depends on whose the appearances are.\<close>

lemma presentations_kept:
  assumes ok: "controller_ok c"
    and app: "\<And>j b. appearance_for_call c j = Some b \<Longrightarrow>
      \<exists>y. appearance_for_call c' j = Some y \<and> ap_pbx_id y = ap_pbx_id b \<and> ap_device_id y = ap_device_id b"
    and same: "ct_devices c' = ct_devices c" "ct_voicemail c' = ct_voicemail c" "ct_redirect_claims c' = ct_redirect_claims c"
  shows "devices_ok c'" "voicemail_ok c'"
proof -
  note okD = controller_okD [OF ok]
  have "shows_call c' d j" if "shows_call c d j" for d j
    using that app by (fastforce elim!: shows_callE intro: shows_callI)
  then show "devices_ok c'" using okD(4) unfolding devices_ok_def same by blast
  show "voicemail_ok c'"
    by (rule voicemail_okI, unfold same) (use voicemail_okD [OF okD(6)] app in \<open>blast, blast, fastforce\<close>)
qed

text \<open>The registry grows: everything that was there is still there.\<close>

lemma controller_ok_grow:
  assumes ok: "controller_ok c" and calls: "calls_ok (ct_registry c')"
    and app: "\<And>k a. appearance_for_call c k = Some a \<Longrightarrow> appearance_for_call c' k = Some a"
    and pbx: "\<And>p call. pbx_call_of c p = Some call \<Longrightarrow> \<exists>call'. pbx_call_of c' p = Some call' \<and> pc_state call' = pc_state call
      \<and> pc_active_appearance call' = pc_active_appearance call \<and> (pc_appearance_ids call = [] \<longrightarrow> pc_appearance_ids call' = [])"
    and same: "ct_devices c' = ct_devices c" "ct_redirect_claims c' = ct_redirect_claims c"
      "ct_voicemail c' = ct_voicemail c" "ct_shared_control_claims c' = ct_shared_control_claims c"
      "ct_barge_groups c' = ct_barge_groups c" "ct_barge_by_handset c' = ct_barge_by_handset c"
      "ct_barge_by_pbx c' = ct_barge_by_pbx c" "ct_next_pbx_id c' \<noteq> 0"
  shows "controller_ok c'"
proof -
  note okD = controller_okD [OF ok]
  note kept = presentations_kept [OF ok _ same(1,3,2)]
  have "devices_ok c'" "voicemail_ok c'" by (rule kept; use app in blast)+
  moreover have "redirects_ok c'"
    using okD(5) pbx unfolding redirects_ok_def same hm_contains_def by blast
  moreover have "claims_ok c'"
    by (rule claims_okI)
      (use claims_okD [OF okD(7)] pbx in \<open>unfold same, simp, fastforce, blast\<close>)
  moreover have "barges_ok c'"
  proof (rule barges_okI)
    show "hm_wf (ct_barge_groups c')" "hm_wf (ct_barge_by_handset c')" "hm_wf (ct_barge_by_pbx c')"
      unfolding same using barges_okD [OF okD(8)] by blast+
    fix p g assume "hm_get (ct_barge_groups c') p = Some g"
    then have "group_ok c p g" unfolding same by (rule barges_okD(4) [OF okD(8)])
    then show "group_ok c' p g" using pbx unfolding group_ok_def same by fastforce
  next
    fix k s assume "hm_get (ct_barge_by_handset c') k = Some s"
    then have so: "session_ok c k s" unfolding same by (rule barges_okD(5) [OF okD(8)])
    then have "\<exists>call. pbx_call_of c' (bs_barger_call_id s) = Some call \<and> pc_appearance_ids call = [] \<and> pc_state call = StConnected"
      using pbx unfolding session_ok_def by fastforce
    moreover have "\<exists>a. appearance_for_call c' k = Some a \<and> ap_pbx_id a = bs_target_call_id s \<and> ap_state a = StBarged"
      using so app unfolding session_ok_def by blast
    ultimately show "session_ok c' k s" using so unfolding session_ok_def same by blast
  next
    fix p k assume "hm_get (ct_barge_by_pbx c') p = Some k"
    then show "\<exists>s. hm_get (ct_barge_by_handset c') k = Some s \<and> bs_barger_call_id s = p"
      unfolding same by (rule barges_okD(6) [OF okD(8)])
  qed
  ultimately show ?thesis using calls same(8) by (simp add: controller_ok_def)
qed

lemma attach_keeps:
  assumes idx: "index_ok r" and att: "attach_appearance a r = (True, r')"
  shows "appearance_for k r = Some b \<Longrightarrow> appearance_for k r' = Some b"
proof -
  note acc = attach_appearance_accepted [OF att]
  assume b: "appearance_for k r = Some b"
  note o = appearance_for_owned(1,3) [OF idx b]
  have "k \<noteq> ap_sccp_id a" "ap_id b \<noteq> ap_id a" using o acc(2,3) by auto
  with o show "appearance_for k r' = Some b" unfolding acc(4) by (simp add: appearance_for_def)
qed

lemma attach_ok:
  assumes ok: "controller_ok c" and run: "with_registry (attach_appearance a) c = (b, c')"
    and st: "\<not> owning (ap_state a)"
    and call: "pbx_call_of c (ap_pbx_id a) = Some call" "pc_appearance_ids call \<noteq> []"
  shows "controller_ok c'"
proof (cases b)
  case False
  with run ok attach_appearance_refused [of a "ct_registry c"] show ?thesis
    by (auto simp: with_registry_def split: prod.splits)
next
  case True
  with run obtain r' where r': "attach_appearance a (ct_registry c) = (True, r')" "c' = c\<lparr>ct_registry := r'\<rparr>"
    by (auto simp: with_registry_def split: prod.splits)
  note okD = controller_okD [OF ok] and acc = attach_appearance_accepted [OF r'(1)]
  show ?thesis
  proof (rule controller_ok_grow [OF ok])
    show "calls_ok (ct_registry c')" using calls_ok_attach [OF okD(1) r'(1) st] by (simp add: r'(2))
    fix k b assume "appearance_for_call c k = Some b"
    from attach_keeps [OF okD(2) r'(1) this] show "appearance_for_call c' k = Some b" by (simp add: r'(2))
  next
    fix p call' assume "pbx_call_of c p = Some call'"
    then show "\<exists>call''. pbx_call_of c' p = Some call'' \<and> pc_state call'' = pc_state call'
      \<and> pc_active_appearance call'' = pc_active_appearance call' \<and> (pc_appearance_ids call' = [] \<longrightarrow> pc_appearance_ids call'' = [])"
      using call by (auto simp: r'(2) acc(4))
  qed (use okD(9) in \<open>simp_all add: r'(2)\<close>)
qed

lemma insert_ok:
  assumes ok: "controller_ok c" and run: "with_registry (insert_pbx_call call a) c = (b, c')"
    and pick: "pc_pending_pickup call = None" "pc_state call \<noteq> StPickupCollecting"
    and act: "pc_active_appearance call = (if owning (ap_state a) then Some (ap_id a) else None)"
  shows "controller_ok c'"
proof (cases b)
  case False
  with run ok insert_pbx_call_refused [of call a "ct_registry c"] show ?thesis
    by (auto simp: with_registry_def split: prod.splits)
next
  case True
  with run obtain r' where r': "insert_pbx_call call a (ct_registry c) = (True, r')" "c' = c\<lparr>ct_registry := r'\<rparr>"
    by (auto simp: with_registry_def split: prod.splits)
  note okD = controller_okD [OF ok] and ins = insert_pbx_call_accepted [OF r'(1)]
  note acc = attach_appearance_accepted [OF ins(4)]
  let ?r = "(ct_registry c)\<lparr>rg_pbx := hm_insert (pc_id call) call (rg_pbx (ct_registry c))\<rparr>"
  have idx: "index_ok ?r" by (rule index_ok_new_call [OF okD(2) ins(3,2)])
  show ?thesis
  proof (rule controller_ok_grow [OF ok])
    show "calls_ok (ct_registry c')"
      unfolding r'(2) using calls_ok_insert [OF okD(1) r'(1) _ act] pick by simp
    fix k b assume "appearance_for_call c k = Some b"
    then have "appearance_for k ?r = Some b" by (simp add: appearance_for_def)
    from attach_keeps [OF idx ins(4) this] show "appearance_for_call c' k = Some b" by (simp add: r'(2))
  next
    fix p call' assume p: "pbx_call_of c p = Some call'"
    then have "p \<noteq> pc_id call" using ins(3) by auto
    with p show "\<exists>call''. pbx_call_of c' p = Some call'' \<and> pc_state call'' = pc_state call'
      \<and> pc_active_appearance call'' = pc_active_appearance call' \<and> (pc_appearance_ids call' = [] \<longrightarrow> pc_appearance_ids call'' = [])"
      by (auto simp: r'(2) acc(4) ins(1))
  qed (use okD(9) in \<open>simp_all add: r'(2)\<close>)
qed

subsection \<open>Identities\<close>

lemma allocate_free_next: "snd (allocate_free m n used) = next_nonzero (fst (allocate_free m n used))"
  by (induction m n used rule: allocate_free.induct) simp_all

lemma allocate_free_candidate:
  assumes "n \<noteq> 0" and "candidate n k \<notin> set used" and "\<And>j. j < k \<Longrightarrow> candidate n j \<in> set used" and "k \<le> m"
  shows "fst (allocate_free m n used) = candidate n k \<and> allocate_spin n used = Some (allocate_free m n used)"
  using assms
proof (induction k arbitrary: m n)
  case 0
  then have "n \<notin> set used" by (simp add: candidate_0 max_one_nonzero)
  with 0(1) show ?case by (cases m) (simp_all add: candidate_0 max_one_nonzero allocate_spin.simps)
next
  case (Suc k)
  from Suc.prems(4) obtain m' where m: "m = Suc m'" "k \<le> m'" by (cases m) auto
  have step: "candidate n (Suc j) = candidate (next_nonzero n) j" for j
    using Suc.prems(1) by (simp add: candidate_Suc max_one_nonzero)
  have "n \<in> set used" using Suc.prems(3) [of 0] Suc.prems(1) by (simp add: candidate_0 max_one_nonzero)
  moreover have "fst (allocate_free m' (next_nonzero n) used) = candidate (next_nonzero n) k
      \<and> allocate_spin (next_nonzero n) used = Some (allocate_free m' (next_nonzero n) used)"
    by (rule Suc.IH) (use Suc.prems(2,3) m(2) in \<open>simp_all add: step [symmetric]\<close>)
  ultimately show ?case by (simp add: m(1) step allocate_spin.simps [of n])
qed

text \<open>
  While fewer identities are in use than there are nonzero words, the loop ends, with an
  identity that is free.
\<close>

lemma allocate_free_spin:
  assumes "n \<noteq> 0" and "length used < 2 ^ 64 - 1"
  shows "allocate_spin n used = Some (allocate_free (length used) n used)"
    and "fst (allocate_free (length used) n used) \<notin> set used" and "fst (allocate_free (length used) n used) \<noteq> 0"
proof -
  have "\<exists>k \<le> length used. candidate n k \<notin> set used" by (rule candidate_unused) (use assms(2) in simp_all)
  then obtain m where m: "m \<le> length used" "candidate n m \<notin> set used" by blast
  define k where "k = (LEAST k. candidate n k \<notin> set used)"
  have k: "candidate n k \<notin> set used" "k \<le> length used"
    unfolding k_def using LeastI [of "\<lambda>k. candidate n k \<notin> set used", OF m(2)]
      Least_le [of "\<lambda>k. candidate n k \<notin> set used", OF m(2)] m(1) by simp_all
  have below: "candidate n j \<in> set used" if "j < k" for j
    using not_less_Least [OF that [unfolded k_def]] by simp
  from allocate_free_candidate [OF assms(1) k(1) below k(2)] k(1)
  show "allocate_spin n used = Some (allocate_free (length used) n used)"
    "fst (allocate_free (length used) n used) \<notin> set used" "fst (allocate_free (length used) n used) \<noteq> 0"
    by simp_all
qed

text \<open>The identity is free even if the counter starts at zero.\<close>

lemma allocate_free_fresh:
  assumes "length used < 2 ^ 64 - 1"
  shows "fst (allocate_free (length used) n used) \<notin> set used"
proof (cases "n = 0 \<and> n \<in> set used")
  case True
  then obtain m where m: "length used = Suc m" by (cases used) auto
  let ?u = "removeAll 0 used"
  have "length ?u < length used" by (rule length_removeAll_less) (use True in auto)
  then have len: "length ?u \<le> m" "length ?u < 2 ^ 64 - 1" using m assms by simp_all
  have "\<exists>k \<le> length ?u. candidate (1 :: u64) k \<notin> set ?u" by (rule candidate_unused) (use len(2) in simp_all)
  then obtain l where l: "l \<le> m" "candidate (1 :: u64) l \<notin> set used" using len(1) by (auto intro: le_trans)
  define k where "k = (LEAST k. candidate (1 :: u64) k \<notin> set used)"
  have k: "candidate 1 k \<notin> set used" "k \<le> m"
    unfolding k_def using LeastI [of "\<lambda>k. candidate (1 :: u64) k \<notin> set used", OF l(2)]
      Least_le [of "\<lambda>k. candidate (1 :: u64) k \<notin> set used", OF l(2)] l(1) by simp_all
  have below: "candidate 1 j \<in> set used" if "j < k" for j
    using not_less_Least [OF that [unfolded k_def]] by simp
  have "next_nonzero (0 :: u64) = 1" by (simp add: next_nonzero_def)
  with allocate_free_candidate [OF _ k(1) below k(2)] k(1) True m show ?thesis by auto
next
  case False
  then show ?thesis using allocate_free_spin(2) [OF _ assms] by (cases "n = 0"; cases "length used") auto
qed

lemma allocate_ids_ok:
  assumes "controller_ok c"
  shows "controller_ok (snd (allocate_pbx_id c))" "controller_ok (snd (allocate_appearance_id c))"
    "controller_ok (snd (allocate_bridge_id c))"
proof -
  have n: "m \<noteq> 0" if "allocate_free l n used = (i, m)" for l n used i m
    using allocate_free_next [of l n used] that by simp
  show "controller_ok (snd (allocate_pbx_id c))" "controller_ok (snd (allocate_appearance_id c))"
    "controller_ok (snd (allocate_bridge_id c))"
    by (rule controller_ok_cong [OF assms];
      simp add: allocate_pbx_id_def allocate_appearance_id_def allocate_bridge_id_def Let_def controller_okD(9) [OF assms] n
        split: prod.split)+
qed

lemma allocate_ids_fields [simp]:
  "ct_registry (snd (allocate_pbx_id c)) = ct_registry c" "ct_registry (snd (allocate_appearance_id c)) = ct_registry c"
  "ct_registry (snd (allocate_bridge_id c)) = ct_registry c"
  by (simp_all add: allocate_pbx_id_def allocate_appearance_id_def allocate_bridge_id_def Let_def split: prod.split)

lemma max_nonzero: "(n :: 'a::len word) \<noteq> 0 \<Longrightarrow> max n m \<noteq> 0"
  by (metis max.cobounded1 word_gt_0 leD)

subsection \<open>Outgoing and offered calls\<close>

lemma begin_phone_call_ok:
  assumes ok: "controller_ok c" and run: "begin_phone_call k b codec now c = (es, c')"
  shows "controller_ok c'"
proof (cases "c' = c")
  case False
  obtain pbx c1 where c1: "allocate_pbx_id c = (pbx, c1)" by fastforce
  obtain i c2 where c2: "allocate_appearance_id c1 = (i, c2)" by fastforce
  have ok2: "controller_ok c2" using allocate_ids_ok(1) [OF ok] allocate_ids_ok(2) [of c1] c1 c2 by simp
  let ?ins = "with_registry (insert_pbx_call
      (outbound_call pbx i b (la_privacy (lb_appearance b) \<or> device_privacy c1 (lb_device_id b)) now c2)
      (new_appearance i k pbx b StCollecting (call_info_default\<lparr>in_direction := Outbound,
              in_calling_name := lc_caller_name (lb_line b), in_calling_number := lc_caller_number (lb_line b)\<rparr>) codec)) c2"
  obtain inserted c3 where c3: "?ins = (inserted, c3)" by fastforce
  have "controller_ok c3"
    by (rule insert_ok [OF ok2 c3]) (simp_all add: outbound_call_def new_appearance_def)
  moreover have "c' = c3 \<or> c' = set_call_selected (lb_device_id b) k True
      (set_active_call (lb_device_id b) (Some k) (select_line (lb_device_id b) (lb_line_instance b) c3))"
    using run False c1 c2 c3 unfolding begin_phone_call_def by (auto simp: Let_def split: if_splits)
  ultimately show ?thesis by (auto intro: set_call_selected_ok set_active_call_ok select_line_ok)
qed (use ok in simp)

lemma begin_additional_phone_call_ok:
  assumes ok: "controller_ok c" and run: "begin_additional_phone_call k b codec now c = (x, c')"
  shows "controller_ok c'"
proof (cases "c' = c")
  case False
  define active where "active = Option.bind (hm_get (ct_devices c) (lb_device_id b)) rd_active_call"
  let ?held = "case active of None \<Rightarrow> ([], c)
    | Some k \<Rightarrow> (case call_state_of c k of None \<Rightarrow> ([], c) | Some s \<Rightarrow> if talking s then hold k c else ([], c))"
  obtain held c1 where hc: "?held = (held, c1)" by fastforce
  then have ok1: "controller_ok c1" using ok hold_keeps(1) [OF ok] by (auto split: option.splits if_splits)
  obtain created c2 where c2: "begin_phone_call k b codec now c1 = (created, c2)" by fastforce
  have "c' = c2"
    using run False hc c2 unfolding begin_additional_phone_call_def
    by (simp add: Let_def active_def [symmetric] split: if_splits)
  with begin_phone_call_ok [OF ok1 c2] show ?thesis by simp
qed (use ok in simp)

lemma claim_pbx_id_ok:
  assumes "controller_ok c"
  shows "controller_ok (c\<lparr>ct_next_pbx_id := max (ct_next_pbx_id c) n\<rparr>)"
  by (rule controller_ok_cong [OF assms]) (simp_all add: max_nonzero controller_okD(9) [OF assms])

lemma begin_asterisk_call_ok:
  assumes ok: "controller_ok c"
  shows "controller_ok (begin_asterisk_call k p b codec c)"
proof (cases "hm_contains (rg_by_sccp (ct_registry c)) k \<or> hm_contains (rg_pbx (ct_registry c)) p")
  case False
  obtain i c2 where c2: "allocate_appearance_id (c\<lparr>ct_next_pbx_id := max (ct_next_pbx_id c) (saturating_succ p)\<rparr>) = (i, c2)"
    by fastforce
  have ok2: "controller_ok c2" using allocate_ids_ok(2) [OF claim_pbx_id_ok [OF ok]] c2 by (metis snd_conv)
  let ?ins = "with_registry (insert_pbx_call (inbound_call p (lc_number (lb_line b)) (lc_context (lb_line b)))
      (new_appearance i k p b StRinging (inbound_info b) codec)) c2"
  obtain x c3 where c3: "?ins = (x, c3)" by fastforce
  have "controller_ok c3" by (rule insert_ok [OF ok2 c3]) (simp_all add: inbound_call_def new_appearance_def)
  with False c2 c3 show ?thesis by (simp add: begin_asterisk_call_def)
qed (simp add: begin_asterisk_call_def ok)

text \<open>
  A second presentation of a call, which shows what the others show: the call rings, is
  held or in use, or another appearance owns it.
\<close>

definition shareable :: "'x controller \<Rightarrow> pbx_call_id \<Rightarrow> bool" where
  "shareable c p = (case pbx_call_of c p of None \<Rightarrow> True
     | Some call \<Rightarrow> pc_state call \<in> {StRinging, StHeld, StConnected} \<or> pc_active_appearance call \<noteq> None)"

lemma shared_state_not_owning:
  "s \<in> {StRinging, StHeld, StConnected} \<or> b \<Longrightarrow> \<not> owning (shared_appearance_state s b)"
  by (cases s) auto

lemma add_call_appearance_ok:
  assumes ok: "controller_ok c" and run: "add_call_appearance p k b codec c = (x, c')" and sh: "shareable c p"
  shows "controller_ok c'"
proof (cases "c' = c")
  case False
  from run False obtain call i0 ids0 where call: "pbx_call_of c p = Some call" "pc_appearance_ids call = i0 # ids0"
    unfolding add_call_appearance_def by (auto split: option.splits if_splits list.splits)
  with run False obtain first0 where first0: "appearance_of c i0 = Some first0"
    unfolding add_call_appearance_def by (auto split: option.splits if_splits)
  obtain i c1 where c1: "allocate_appearance_id c = (i, c1)" by fastforce
  define a :: "'a call_appearance" where "a = new_appearance i k p b (shared_appearance_state (pc_state call) (pc_active_appearance call \<noteq> None))
    (if pc_direction call = Inbound
     then (ap_info first0)\<lparr>in_called_name := display_label (lb_appearance b), in_called_number := lc_number (lb_line b)\<rparr>
     else ap_info first0) codec"
  obtain y c2 where c2: "with_registry (attach_appearance a) c1 = (y, c2)" by fastforce
  have "ct_registry c1 = ct_registry c" "controller_ok c1"
    using allocate_ids_fields(2) [of c] allocate_ids_ok(2) [OF ok] c1 by simp_all
  moreover have "\<not> owning (ap_state a)"
    unfolding a_def using sh call shared_state_not_owning [of "pc_state call" "pc_active_appearance call \<noteq> None"]
    by (simp add: new_appearance_def shareable_def)
  ultimately have "controller_ok c2"
    by (intro attach_ok [OF _ c2, of call]) (use call in \<open>simp_all add: a_def new_appearance_def\<close>)
  moreover have "c' = c2"
    using run False call first0 c1 c2 unfolding add_call_appearance_def
    by (auto simp: Let_def a_def split: if_splits)
  ultimately show ?thesis by simp
qed (use ok in simp)

end
