(* ===== verification/Call_Endings.thy ===== *)
theory Call_Endings
  imports Call_Moves
begin

text \<open>
  The operations that end a call, a presentation, a barge or a redirect keep the
  invariant of \<^verbatim>\<open>Call_Invariants\<close>, and so does a new barge. Where they do not, the condition
  under which they do is part of the lemma: \<open>hangup_safe\<close> for the hangup of a handset.
\<close>

section \<open>Calls without appearances\<close>

lemma appearance_for_pbx [simp]: "appearance_for k (r\<lparr>rg_pbx := x\<rparr>) = appearance_for k r"
  by (simp add: appearance_for_def)

lemma calls_ok_remove_empty:
  assumes ok: "calls_ok r" and call: "hm_get (rg_pbx r) p = Some call" "pc_appearance_ids call = []"
  shows "calls_ok (r\<lparr>rg_pbx := hm_remove p (rg_pbx r)\<rparr>)"
proof -
  have idx: "index_ok r" and st: "states_ok r" using ok by (simp_all add: calls_ok_def)
  have none: "ap_pbx_id a \<noteq> p" if "hm_get (rg_appearances r) i = Some a" for i a
    using index_ok_members [OF idx call(1), of i] that call(2) by auto
  define r' where "r' = r\<lparr>rg_pbx := hm_remove p (rg_pbx r)\<rparr>"
  have eq: "rg_appearances r' = rg_appearances r" "rg_by_sccp r' = rg_by_sccp r" "rg_by_device r' = rg_by_device r"
    by (simp_all add: r'_def)
  have "index_ok r'"
  proof (rule index_okI)
    show "hm_wf (rg_pbx r')" using index_ok_wf(1) [OF idx] by (simp add: r'_def)
    show "hm_wf (rg_appearances r')" "hm_wf (rg_by_sccp r')" "hm_wf (rg_by_device r')"
      unfolding eq by (rule index_ok_wf [OF idx])+
  next
    fix i a assume "hm_get (rg_appearances r') i = Some a"
    then have a: "hm_get (rg_appearances r) i = Some a" unfolding eq .
    note o = index_ok_appearance [OF idx a]
    show "ap_id a = i" "hm_get (rg_by_sccp r') (ap_sccp_id a) = Some i"
      "\<exists>s. hm_get (rg_by_device r') (ap_device_id a) = Some s \<and> i \<in> set s" unfolding eq by fact+
    show "\<exists>call. hm_get (rg_pbx r') (ap_pbx_id a) = Some call \<and> i \<in> set (pc_appearance_ids call)"
      using none [OF a] o(4) by (simp add: r'_def)
  next
    fix q call' assume "hm_get (rg_pbx r') q = Some call'"
    then have q': "hm_get (rg_pbx r) q = Some call'" by (simp add: r'_def split: if_splits)
    show "pc_id call' = q" "distinct (pc_appearance_ids call')" by (rule index_ok_pbx(1,2) [OF idx q'])+
    show "\<exists>a. hm_get (rg_appearances r') i = Some a \<and> ap_pbx_id a = q" if "i \<in> set (pc_appearance_ids call')" for i
      unfolding eq using index_ok_pbx(3) [OF idx q' that] .
  qed (unfold eq, rule index_ok_call [OF idx], assumption, rule index_ok_device [OF idx])
  moreover have "states_ok r'"
  proof (rule states_okI)
    fix q call' assume "hm_get (rg_pbx r') q = Some call'"
    then have "hm_get (rg_pbx r) q = Some call'" by (simp add: r'_def split: if_splits)
    from states_okD [OF st this] show "owner_ok r' q call'" by (rule owner_ok_cong) (simp_all add: eq)
  qed
  ultimately show ?thesis by (simp add: calls_ok_def r'_def)
qed

lemma empty_call_unclaimed:
  assumes ok: "controller_ok c" and call: "pbx_call_of c p = Some call" "pc_appearance_ids call = []"
  shows "hm_get (ct_barge_groups c) p = None" "hm_get (ct_shared_control_claims c) p = None"
    "\<And>i a. appearance_of c i = Some a \<Longrightarrow> ap_pbx_id a \<noteq> p"
proof -
  note okD = controller_okD [OF ok]
  show none: "ap_pbx_id a \<noteq> p" if "appearance_of c i = Some a" for i a
    using index_ok_members [OF okD(2) call(1), of i] that call(2) by auto
  show ng: "hm_get (ct_barge_groups c) p = None"
  proof (rule ccontr)
    assume "hm_get (ct_barge_groups c) p \<noteq> None"
    then obtain g where g: "hm_get (ct_barge_groups c) p = Some g" by blast
    from barges_okD(4) [OF okD(8) g] obtain k s where s: "hm_get (ct_barge_by_handset c) k = Some s" "bs_target_call_id s = p"
      unfolding group_ok_def by (metis list.set_intros(1) neq_Nil_conv)
    from barges_okD(5) [OF okD(8) s(1)] s(2) obtain a where "appearance_for_call c k = Some a" "ap_pbx_id a = p"
      unfolding session_ok_def by blast
    with none appearance_for_owned(1) [OF okD(2)] show False by blast
  qed
  show "hm_get (ct_shared_control_claims c) p = None"
  proof (rule ccontr)
    assume "hm_get (ct_shared_control_claims c) p \<noteq> None"
    then obtain cl where "hm_get (ct_shared_control_claims c) p = Some cl" by blast
    from claim_of_owner [OF ok call(1) ng this] owner_okD(2) [OF states_okD [OF okD(3) call(1)]] none
    show False by blast
  qed
qed

text \<open>A call that no phone shows any more can go, unless a barge or a redirect needs it.\<close>

lemma remove_empty_call_ok:
  assumes ok: "controller_ok c" and call: "pbx_call_of c p = Some call" "pc_appearance_ids call = []"
    and free: "p \<notin> set (ct_redirect_claims c)" "hm_get (ct_barge_by_pbx c) p = None"
  shows "controller_ok (c\<lparr>ct_registry := (ct_registry c)\<lparr>rg_pbx := hm_remove p (rg_pbx (ct_registry c))\<rparr>\<rparr>)" (is "controller_ok ?c")
proof -
  note okD = controller_okD [OF ok] and un = empty_call_unclaimed [OF ok call]
  have pbx: "pbx_call_of ?c q = (if q = p then None else pbx_call_of c q)" for q by simp
  have sh: "shows_call ?c = shows_call c" by (simp add: fun_eq_iff shows_call_def)
  have "calls_ok (ct_registry ?c)" using calls_ok_remove_empty [OF okD(1) call] by simp
  moreover have "devices_ok ?c" using okD(4) unfolding devices_ok_def sh by simp
  moreover have "redirects_ok ?c" using okD(5) free(1) unfolding redirects_ok_def by (auto simp: hm_contains_def)
  moreover have "voicemail_ok ?c" using okD(6) unfolding voicemail_ok_def by simp
  moreover have "claims_ok ?c"
    by (rule claims_okI) (use claims_okD [OF okD(7)] un(2) in \<open>auto split: if_splits\<close>)
  moreover have "barges_ok ?c"
  proof (rule barges_okI)
    fix q g assume "hm_get (ct_barge_groups ?c) q = Some g"
    with barges_okD(4) [OF okD(8), of q g] un(1) show "group_ok ?c q g" unfolding group_ok_def pbx by auto
  next
    fix k s assume "hm_get (ct_barge_by_handset ?c) k = Some s"
    with barges_okD(5) [OF okD(8), of k s] free(2) show "session_ok ?c k s" unfolding session_ok_def pbx by auto
  qed (use barges_okD [OF okD(8)] in auto)
  ultimately show ?thesis using okD(9) by (simp add: controller_ok_def)
qed

section \<open>Appearances that go\<close>

lemma remove_appearance_run:
  assumes "appearance_of c i = Some a"
  obtains r where "unlink_appearance i (ct_registry c) = (Some a, r)" "ct_registry (snd (remove_appearance i c)) = r"
    "ct_shared_control_claims (snd (remove_appearance i c)) =
      (if hm_get (ct_shared_control_claims c) (ap_pbx_id a) = Some (Steal i)
       then hm_remove (ap_pbx_id a) (ct_shared_control_claims c) else ct_shared_control_claims c)"
    "ct_devices (snd (remove_appearance i c)) = hm_modify (ap_device_id a)
            (\<lambda>d. d\<lparr>rd_selected_calls := removeAll (ap_sccp_id a) (rd_selected_calls d),
                   rd_active_call := (if rd_active_call d = Some (ap_sccp_id a) then None else rd_active_call d)\<rparr>)
            (ct_devices c)"
  using assms by (cases "unlink_appearance i (ct_registry c)") (auto simp: remove_appearance_def unlink_appearance_def)

lemma remove_appearance_fields [simp]:
  "ct_redirect_claims (snd (remove_appearance i c)) = ct_redirect_claims c"
  "ct_voicemail (snd (remove_appearance i c)) = ct_voicemail c"
  "ct_barge_groups (snd (remove_appearance i c)) = ct_barge_groups c"
  "ct_barge_by_handset (snd (remove_appearance i c)) = ct_barge_by_handset c"
  "ct_barge_by_pbx (snd (remove_appearance i c)) = ct_barge_by_pbx c"
  "ct_next_pbx_id (snd (remove_appearance i c)) = ct_next_pbx_id c"
  by (simp_all add: remove_appearance_def split: prod.split option.split)

lemma remove_appearance_absent: "appearance_of c i = None \<Longrightarrow> snd (remove_appearance i c) = c"
  by (simp add: remove_appearance_def unlink_appearance_def)

lemma remove_appearance_ok:
  assumes ok: "controller_ok c" and a: "appearance_of c i = Some a"
    and vm: "\<And>d t. hm_get (vr_by_device (ct_voicemail c)) d = Some t \<Longrightarrow> vm_handset_call_id t \<noteq> ap_sccp_id a"
    and barged: "hm_get (ct_barge_by_handset c) (ap_sccp_id a) = None"
  shows "controller_ok (snd (remove_appearance i c))" (is "controller_ok ?c")
proof -
  note okD = controller_okD [OF ok]
  from remove_appearance_run [OF a] obtain r where un: "unlink_appearance i (ct_registry c) = (Some a, r)" and reg: "ct_registry ?c = r"
    and cl: "ct_shared_control_claims ?c = (if hm_get (ct_shared_control_claims c) (ap_pbx_id a) = Some (Steal i)
       then hm_remove (ap_pbx_id a) (ct_shared_control_claims c) else ct_shared_control_claims c)"
    and dev: "ct_devices ?c = hm_modify (ap_device_id a)
            (\<lambda>d. d\<lparr>rd_selected_calls := removeAll (ap_sccp_id a) (rd_selected_calls d),
                   rd_active_call := (if rd_active_call d = Some (ap_sccp_id a) then None else rd_active_call d)\<rparr>)
            (ct_devices c)" by blast
  note get = unlink_appearance_get [OF a un]
  have app: "appearance_for_call ?c k = (if k = ap_sccp_id a then None else appearance_for_call c k)" for k
  proof (cases "k = ap_sccp_id a")
    case False
    have "j \<noteq> i" if "hm_get (rg_by_sccp (ct_registry c)) k = Some j" for j
      using index_ok_call [OF okD(2) that] a False by auto
    with False show ?thesis unfolding appearance_for_def reg get(3) by (auto simp: get(2) split: Option.bind_split)
  qed (simp add: appearance_for_def reg get(3))
  have pbx: "\<exists>call'. pbx_call_of ?c p = Some call' \<and> pc_state call' = pc_state call
      \<and> (pc_appearance_ids call = [] \<longrightarrow> pc_appearance_ids call' = [])
      \<and> (pc_active_appearance call \<noteq> Some i \<longrightarrow> pc_active_appearance call' = pc_active_appearance call)"
    if "pbx_call_of c p = Some call" for p call unfolding reg get(4) that by simp
  have "calls_ok (ct_registry ?c)" using calls_ok_unlink [OF okD(1), of i] un by (simp add: reg)
  moreover have "devices_ok ?c"
    unfolding devices_ok_def
  proof (intro conjI allI impI ballI)
    show "hm_wf (ct_devices ?c)" using devices_okD(1) [OF okD(4)] unfolding dev by simp
    fix d dv assume dv: "hm_get (ct_devices ?c) d = Some dv"
    have sh: "shows_call ?c d k" if "shows_call c d k" "k \<noteq> ap_sccp_id a" for k
      using that app by (auto simp: shows_call_def)
    have k: "k \<noteq> ap_sccp_id a" if "shows_call c d k" "d \<noteq> ap_device_id a" for k
      using that a index_ok_appearance(1,2) [OF okD(2) a] by (auto simp: shows_call_def appearance_for_def)
    have before: "\<exists>dv0. hm_get (ct_devices c) d = Some dv0 \<and> set (rd_selected_calls dv) \<subseteq> set (rd_selected_calls dv0) - X
        \<and> (rd_active_call dv = None \<or> rd_active_call dv = rd_active_call dv0 \<and> rd_active_call dv \<notin> Some ` X)"
      if "X = (if d = ap_device_id a then {ap_sccp_id a} else {})" for X
      using dv unfolding dev that by (cases "d = ap_device_id a") auto
    define X where "X = (if d = ap_device_id a then {ap_sccp_id a} else {})"
    from before [OF X_def] obtain dv0 where dv0: "hm_get (ct_devices c) d = Some dv0"
      "set (rd_selected_calls dv) \<subseteq> set (rd_selected_calls dv0) - X"
      "rd_active_call dv = None \<or> rd_active_call dv = rd_active_call dv0 \<and> rd_active_call dv \<notin> Some ` X" by blast
    have gone: "k \<noteq> ap_sccp_id a" if "shows_call c d k" "k \<notin> X" for k
      using k [OF that(1)] that(2) by (auto simp: X_def split: if_splits)
    { fix k assume q: "rd_active_call dv = Some k"
      with dv0(3) have "rd_active_call dv0 = Some k" "k \<notin> X" by auto
      with devices_okD(2) [OF okD(4) dv0(1)] sh gone show "shows_call ?c d k" by blast
    next
      fix k assume "k \<in> set (rd_selected_calls dv)"
      with dv0(2) have "k \<in> set (rd_selected_calls dv0)" "k \<notin> X" by auto
      with devices_okD(3) [OF okD(4) dv0(1)] sh gone show "shows_call ?c d k" by blast
    }
  qed
  moreover have "redirects_ok ?c"
    using okD(5) pbx unfolding redirects_ok_def hm_contains_def by fastforce
  moreover have "voicemail_ok ?c"
    by (rule voicemail_okI) (use voicemail_okD [OF okD(6)] vm app in auto)
  moreover have "claims_ok ?c"
  proof (rule claims_okI)
    show "hm_wf (ct_shared_control_claims ?c)" using claims_okD(1) [OF okD(7)] unfolding cl by simp
    fix p w assume "hm_get (ct_shared_control_claims ?c) p = Some (Steal w)"
    then have pw: "hm_get (ct_shared_control_claims c) p = Some (Steal w)" and ne: "p = ap_pbx_id a \<Longrightarrow> w \<noteq> i"
      unfolding cl by (auto split: if_splits)
    from claims_okD(2) [OF okD(7) pw] obtain call where call: "pbx_call_of c p = Some call" "pc_active_appearance call = Some w" by blast
    have "w \<noteq> i" using ne owner_okD(2) [OF states_okD [OF okD(3) call(1)] call(2)] a by auto
    with pbx [OF call(1)] call(2) show "\<exists>call. pbx_call_of ?c p = Some call \<and> pc_active_appearance call = Some w" by auto
  next
    fix p b show "hm_get (ct_shared_control_claims ?c) p = Some (Barge b) \<longleftrightarrow>
        (\<exists>g. hm_get (ct_barge_groups ?c) p = Some g \<and> bg_bridge_id g = b)"
      unfolding cl using claims_okD(3) [OF okD(7), of p b] by auto
  qed
  moreover have "barges_ok ?c"
  proof (rule barges_okI)
    fix p g assume "hm_get (ct_barge_groups ?c) p = Some g"
    with barges_okD(4) [OF okD(8), of p g] pbx show "group_ok ?c p g" unfolding group_ok_def by fastforce
  next
    fix k s assume k: "hm_get (ct_barge_by_handset ?c) k = Some s"
    then have "session_ok c k s" "k \<noteq> ap_sccp_id a" using barges_okD(5) [OF okD(8), of k s] barged by auto
    then show "session_ok ?c k s" using pbx unfolding session_ok_def app by fastforce
  qed (use barges_okD [OF okD(8)] in auto)
  ultimately show ?thesis using okD(9) by (simp add: controller_ok_def)
qed

text \<open>A call that neither a redirect nor a barge holds.\<close>

definition unclaimed :: "'x controller \<Rightarrow> pbx_call_id \<Rightarrow> bool" where
  "unclaimed c p \<longleftrightarrow> p \<notin> set (ct_redirect_claims c) \<and> hm_get (ct_barge_groups c) p = None \<and> hm_get (ct_barge_by_pbx c) p = None"

lemma no_group_not_barged:
  assumes ok: "controller_ok c" and a: "appearance_of c i = Some a" and "hm_get (ct_barge_groups c) (ap_pbx_id a) = None"
  shows "hm_get (ct_barge_by_handset c) (ap_sccp_id a) = None"
proof (rule ccontr)
  note okD = controller_okD [OF ok]
  have self: "appearance_for_call c (ap_sccp_id a) = Some a"
    using index_ok_appearance(1) [OF okD(2) a] a appearance_for_iff [OF okD(2)] by auto
  assume "hm_get (ct_barge_by_handset c) (ap_sccp_id a) \<noteq> None"
  then obtain s where "hm_get (ct_barge_by_handset c) (ap_sccp_id a) = Some s" by blast
  from barges_okD(5) [OF okD(8) this] self assms(3) show False unfolding session_ok_def by auto
qed

lemma voicemail_of_appearance:
  assumes ok: "controller_ok c" and a: "appearance_of c i = Some a"
    and t: "hm_get (vr_by_device (ct_voicemail c)) d = Some t" "vm_handset_call_id t = ap_sccp_id a"
  shows "vm_pbx_call_id t = ap_pbx_id a" "ap_pbx_id a \<in> set (ct_redirect_claims c)"
proof -
  note okD = controller_okD [OF ok]
  have self: "appearance_for_call c (ap_sccp_id a) = Some a"
    using index_ok_appearance(1) [OF okD(2) a] a appearance_for_iff [OF okD(2)] by auto
  from voicemail_okD(3) [OF okD(6) t(1)] self t(2) show p: "vm_pbx_call_id t = ap_pbx_id a" by auto
  from voicemail_okD(2) [OF okD(6) t(1)] p show "ap_pbx_id a \<in> set (ct_redirect_claims c)" by simp
qed

lemma remove_unclaimed_appearance_ok:
  assumes ok: "controller_ok c" and un: "unclaimed c p" and a: "appearance_of c i = Some a" "ap_pbx_id a = p"
  shows "controller_ok (snd (remove_appearance i c))"
proof (rule remove_appearance_ok [OF ok a(1)])
  show "hm_get (ct_barge_by_handset c) (ap_sccp_id a) = None"
    by (rule no_group_not_barged [OF ok a(1)]) (use un a(2) in \<open>simp add: unclaimed_def\<close>)
  show "vm_handset_call_id t \<noteq> ap_sccp_id a" if "hm_get (vr_by_device (ct_voicemail c)) d = Some t" for d t
    using voicemail_of_appearance(2) [OF ok a(1) that] un a(2) by (auto simp: unclaimed_def)
qed

lemma remove_unclaimed_appearances_ok:
  assumes "controller_ok c" and "unclaimed c p" and "pbx_call_of c p = Some call" and "pc_appearance_ids call = ids"
  shows "\<exists>call'. controller_ok (fold (\<lambda>i. snd \<circ> remove_appearance i) ids c) \<and> unclaimed (fold (\<lambda>i. snd \<circ> remove_appearance i) ids c) p
    \<and> pbx_call_of (fold (\<lambda>i. snd \<circ> remove_appearance i) ids c) p = Some call' \<and> pc_appearance_ids call' = []"
  using assms
proof (induction ids arbitrary: c call)
  case (Cons i ids)
  let ?c = "snd (remove_appearance i c)"
  note okD = controller_okD [OF Cons.prems(1)]
  from index_ok_pbx(3) [OF okD(2) Cons.prems(3), of i] Cons.prems(4)
  obtain a where a: "appearance_of c i = Some a" "ap_pbx_id a = p" by auto
  have "controller_ok ?c" by (rule remove_unclaimed_appearance_ok [OF Cons.prems(1,2) a])
  moreover have "unclaimed ?c p" using Cons.prems(2) by (simp add: unclaimed_def)
  moreover obtain r where un: "unlink_appearance i (ct_registry c) = (Some a, r)" and reg: "ct_registry ?c = r"
    using remove_appearance_run [OF a(1)] by blast
  have "i \<notin> set ids" using index_ok_pbx(2) [OF okD(2) Cons.prems(3)] Cons.prems(4) by simp
  then have "\<exists>call'. pbx_call_of ?c p = Some call' \<and> pc_appearance_ids call' = ids"
    unfolding reg unlink_appearance_get(4) [OF a(1) un] Cons.prems(3) using a(2) Cons.prems(4) by (auto simp: filter_id_conv)
  ultimately show ?case using Cons.IH by (auto simp: comp_def)
qed auto

lemma release_pbx_claims_fields [simp]:
  "ct_registry (release_pbx_claims p c) = ct_registry c" "ct_devices (release_pbx_claims p c) = ct_devices c"
  "ct_barge_groups (release_pbx_claims p c) = ct_barge_groups c" "ct_barge_by_handset (release_pbx_claims p c) = ct_barge_by_handset c"
  "ct_barge_by_pbx (release_pbx_claims p c) = ct_barge_by_pbx c" "ct_next_pbx_id (release_pbx_claims p c) = ct_next_pbx_id c"
  "ct_redirect_claims (release_pbx_claims p c) = removeAll p (ct_redirect_claims c)"
  "ct_shared_control_claims (release_pbx_claims p c) = hm_remove p (ct_shared_control_claims c)"
  by (simp_all add: release_pbx_claims_def cancel_auto_answers_for_pbx_def)

lemma release_pbx_claims_voicemail:
  assumes "voicemail_inv (ct_voicemail c)"
  shows "voicemail_inv (ct_voicemail (release_pbx_claims p c))"
    and "hm_get (vr_by_device (ct_voicemail (release_pbx_claims p c))) d = Some t \<longleftrightarrow>
      hm_get (vr_by_device (ct_voicemail c)) d = Some t \<and> vm_pbx_call_id t \<noteq> p"
proof -
  let ?v = "ct_voicemail c"
  have v: "ct_voicemail (release_pbx_claims p c) = (case voicemail_for_pbx ?v p of None \<Rightarrow> ?v
      | Some t \<Rightarrow> snd (voicemail_cancel (vm_device_id t) (vm_id t) ?v))"
    by (simp add: release_pbx_claims_def cancel_auto_answers_for_pbx_def)
  show "voicemail_inv (ct_voicemail (release_pbx_claims p c))"
    unfolding v using assms voicemail_cancel_inv by (auto split: option.split)
  have found: "voicemail_for_pbx ?v p = Some t" if "hm_get (vr_by_device ?v) d = Some t" "vm_pbx_call_id t = p" for d t
    using voicemail_for_pbx_iff [OF assms, of p t] voicemail_inv_get(1) [OF assms that(1)] that by (simp add: voicemail_get_def)
  show "hm_get (vr_by_device (ct_voicemail (release_pbx_claims p c))) d = Some t \<longleftrightarrow>
      hm_get (vr_by_device ?v) d = Some t \<and> vm_pbx_call_id t \<noteq> p"
  proof (cases "voicemail_for_pbx ?v p")
    case None
    with found show ?thesis unfolding v by auto
  next
    case (Some t0)
    then have t0: "hm_get (vr_by_device ?v) (vm_device_id t0) = Some t0" "vm_pbx_call_id t0 = p"
      using voicemail_for_pbx_iff [OF assms] by (auto simp: voicemail_get_def)
    have "d = vm_device_id t0" if "hm_get (vr_by_device ?v) d = Some t" "vm_pbx_call_id t = p"
      using found [OF that] Some voicemail_inv_get(1) [OF assms that(1)] by simp
    then show ?thesis using t0 unfolding v Some by (auto simp: voicemail_cancel_def)
  qed
qed

lemma release_pbx_claims_ok:
  assumes ok: "controller_ok c" and ng: "hm_get (ct_barge_groups c) p = None"
  shows "controller_ok (release_pbx_claims p c)" (is "controller_ok ?c")
proof -
  note okD = controller_okD [OF ok]
  have sh: "shows_call ?c = shows_call c" by (simp add: fun_eq_iff shows_call_def)
  have "devices_ok ?c" using okD(4) unfolding devices_ok_def sh by simp
  moreover have "redirects_ok ?c" using okD(5) unfolding redirects_ok_def by simp
  moreover have "voicemail_ok ?c"
  proof (rule voicemail_okI)
    note vm = release_pbx_claims_voicemail [OF voicemail_okD(1) [OF okD(6)], of p]
    show "voicemail_inv (ct_voicemail ?c)" by (rule vm(1))
    fix d t assume "hm_get (vr_by_device (ct_voicemail ?c)) d = Some t"
    then have t: "hm_get (vr_by_device (ct_voicemail c)) d = Some t" "vm_pbx_call_id t \<noteq> p" unfolding vm(2) by blast+
    show "vm_pbx_call_id t \<in> set (ct_redirect_claims ?c)" using voicemail_okD(2) [OF okD(6) t(1)] t(2) by simp
    show "\<exists>a. appearance_for_call ?c (vm_handset_call_id t) = Some a \<and> ap_pbx_id a = vm_pbx_call_id t \<and> ap_device_id a = d"
      using voicemail_okD(3) [OF okD(6) t(1)] by simp
  qed
  moreover have "claims_ok ?c"
    by (rule claims_okI) (use claims_okD [OF okD(7)] ng in \<open>auto split: if_splits\<close>)
  moreover have "barges_ok ?c"
    using okD(8) unfolding barges_ok_def group_ok_def session_ok_def by simp
  ultimately show ?thesis using okD(1,9) by (simp add: controller_ok_def)
qed

lemma remove_pbx_call_ok:
  assumes ok: "controller_ok c" and free: "hm_get (ct_barge_groups c) p = None" "hm_get (ct_barge_by_pbx c) p = None"
  shows "controller_ok (snd (remove_pbx_call p c))"
proof -
  let ?c = "release_pbx_claims p c"
  have ok1: "controller_ok ?c" by (rule release_pbx_claims_ok [OF ok free(1)])
  show ?thesis
  proof (cases "pbx_call_of ?c p")
    case None
    with ok1 show ?thesis by (simp add: remove_pbx_call_def)
  next
    case (Some call)
    let ?d = "fold (\<lambda>i. snd \<circ> remove_appearance i) (pc_appearance_ids call) ?c"
    have "unclaimed ?c p" using free by (simp add: unclaimed_def)
    from remove_unclaimed_appearances_ok [OF ok1 this Some refl] obtain call' where "controller_ok ?d" "unclaimed ?d p"
      "pbx_call_of ?d p = Some call'" "pc_appearance_ids call' = []" by blast
    with remove_empty_call_ok [of ?d p call'] Some show ?thesis
      by (simp add: remove_pbx_call_def unclaimed_def Let_def)
  qed
qed

section \<open>Barges\<close>

lemma calls_ok_restyle_appearance:
  assumes ok: "calls_ok r" and a: "hm_get (rg_appearances r) i = Some a" and "\<not> owning (ap_state a)" "\<not> owning (ap_state a')"
    and idn: "ap_id a' = ap_id a" "ap_sccp_id a' = ap_sccp_id a" "ap_pbx_id a' = ap_pbx_id a" "ap_device_id a' = ap_device_id a"
    and apps: "hm_wf apps" "\<And>j. hm_get apps j = (if j = i then Some a' else hm_get (rg_appearances r) j)"
  shows "calls_ok (r\<lparr>rg_appearances := apps\<rparr>)" (is "calls_ok ?r")
proof -
  have idx: "index_ok r" and st: "states_ok r" using ok by (simp_all add: calls_ok_def)
  have "same_skeleton r ?r" using index_ok_wf [OF idx] a idn apps by (simp add: same_skeleton_def)
  then have "index_ok ?r" by (rule index_ok_skeleton [OF idx])
  moreover have "states_ok ?r"
  proof (rule states_okI)
    fix p call assume "hm_get (rg_pbx ?r) p = Some call"
    then have "owner_ok r p call" using states_okD [OF st] by simp
    then show "owner_ok ?r p call"
      by (rule owner_ok_cong) (use a assms(3,4) in \<open>auto simp: apps(2) split: if_splits\<close>)
  qed
  ultimately show ?thesis by (simp add: calls_ok_def)
qed

text \<open>What a barge session of a well-formed controller looks like.\<close>

lemma session_facts:
  assumes ok: "controller_ok c" and s: "hm_get (ct_barge_by_handset c) k = Some s"
  obtains a g call barger where "appearance_for_call c k = Some a" "appearance_of c (ap_id a) = Some a" "ap_sccp_id a = k"
    "hm_get (rg_by_sccp (ct_registry c)) k = Some (ap_id a)" "ap_pbx_id a = bs_target_call_id s" "ap_state a = StBarged"
    "hm_get (ct_barge_groups c) (bs_target_call_id s) = Some g" "k \<in> set (bg_members g)" "bg_bridge_id g = bs_bridge_id s"
    "pbx_call_of c (bs_target_call_id s) = Some call" "bs_barger_call_id s \<noteq> bs_target_call_id s"
    "pbx_call_of c (bs_barger_call_id s) = Some barger" "pc_appearance_ids barger = []"
    "hm_get (ct_barge_by_pbx c) (bs_barger_call_id s) = Some k"
proof -
  note okD = controller_okD [OF ok]
  have so: "session_ok c k s" by (rule barges_okD(5) [OF okD(8) s])
  then obtain a where a: "appearance_for_call c k = Some a" "ap_pbx_id a = bs_target_call_id s" "ap_state a = StBarged"
    unfolding session_ok_def by blast
  note ao = appearance_for_owned [OF okD(2) a(1)]
  obtain g where g: "hm_get (ct_barge_groups c) (bs_target_call_id s) = Some g" "k \<in> set (bg_members g)"
    using so unfolding session_ok_def by blast
  have go: "group_ok c (bs_target_call_id s) g" by (rule barges_okD(4) [OF okD(8) g(1)])
  then obtain call where call: "pbx_call_of c (bs_target_call_id s) = Some call" unfolding group_ok_def by blast
  obtain barger where b: "pbx_call_of c (bs_barger_call_id s) = Some barger" "pc_appearance_ids barger = []"
    "hm_get (ct_barge_by_pbx c) (bs_barger_call_id s) = Some k" using so unfolding session_ok_def by blast
  have "bg_bridge_id g = bs_bridge_id s" using go g(2) s unfolding group_ok_def by auto
  moreover have "bs_barger_call_id s \<noteq> bs_target_call_id s"
    using empty_call_unclaimed(3) [OF ok b(1,2) ao(1)] a(2) by auto
  ultimately show thesis using that [OF a(1) ao(1,2,3) a(2,3) g _ call _ b] by blast
qed

text \<open>The controller after the end of one barge, whose target is still there.\<close>

lemma end_barge_run:
  assumes ok: "controller_ok c" and s: "hm_get (ct_barge_by_handset c) k = Some s"
    and a: "appearance_for_call c k = Some a" and g: "hm_get (ct_barge_groups c) (bs_target_call_id s) = Some g"
    and run: "end_barge_internal k joined created restore c = (es, c')"
  defines "ms \<equiv> filter (\<lambda>j. j \<noteq> k) (bg_members g)"
  shows "ct_barge_by_handset c' = hm_remove k (ct_barge_by_handset c)"
    "ct_barge_by_pbx c' = hm_remove (bs_barger_call_id s) (ct_barge_by_pbx c)"
    "ct_registry c' = (ct_registry c)\<lparr>rg_pbx := hm_remove (bs_barger_call_id s) (rg_pbx (ct_registry c)),
      rg_appearances := hm_insert (ap_id a) (a\<lparr>ap_state := StRemoteInUse, ap_audio := StreamClosed,
        ap_audio_transmit := StreamClosed, ap_video := close_streams (ap_video a)\<rparr>) (rg_appearances (ct_registry c))\<rparr>"
    "hm_wf (ct_barge_groups c')" "hm_wf (ct_shared_control_claims c')"
    "\<And>q. hm_get (ct_barge_groups c') q = (if q = bs_target_call_id s then if ms = [] then None else Some (g\<lparr>bg_members := ms\<rparr>)
       else hm_get (ct_barge_groups c) q)"
    "\<And>q. hm_get (ct_shared_control_claims c') q = (if q = bs_target_call_id s \<and> ms = [] then None
       else hm_get (ct_shared_control_claims c) q)"
    "ct_devices c' = ct_devices c" "ct_voicemail c' = ct_voicemail c" "ct_redirect_claims c' = ct_redirect_claims c"
    "ct_next_pbx_id c' = ct_next_pbx_id c"
proof -
  note okD = controller_okD [OF ok]
  from session_facts [OF ok s] obtain call barger where f: "appearance_of c (ap_id a) = Some a"
    "hm_get (rg_by_sccp (ct_registry c)) k = Some (ap_id a)" "bg_bridge_id g = bs_bridge_id s"
    "pbx_call_of c (bs_target_call_id s) = Some call" "bs_barger_call_id s \<noteq> bs_target_call_id s"
    using a g by (metis option.inject)
  have cl: "hm_get (ct_shared_control_claims c) (bs_target_call_id s) = Some (Barge (bs_bridge_id s))"
    using claims_okD(3) [OF okD(7), of "bs_target_call_id s"] g f(3) by auto
  note wf = barges_okD(1) [OF okD(8)] claims_okD(1) [OF okD(7)]
  have tgt: "bs_target_call_id s \<noteq> bs_barger_call_id s" using f(5) by simp
  define c1 where "c1 = c\<lparr>ct_barge_by_handset := hm_remove k (ct_barge_by_handset c),
      ct_barge_by_pbx := hm_remove (bs_barger_call_id s) (ct_barge_by_pbx c),
      ct_registry := (ct_registry c)\<lparr>rg_pbx := hm_remove (bs_barger_call_id s) (rg_pbx (ct_registry c))\<rparr>\<rparr>"
  define gs where "gs = hm_modify (bs_target_call_id s) (\<lambda>g. g\<lparr>bg_members := filter (\<lambda>j. j \<noteq> k) (bg_members g)\<rparr>) (ct_barge_groups c)"
  define c2 where "c2 = c1\<lparr>ct_barge_groups := (if ms = [] then hm_remove (bs_target_call_id s) gs else gs),
      ct_shared_control_claims := (if ms = [] then hm_remove (bs_target_call_id s) (ct_shared_control_claims c)
        else ct_shared_control_claims c)\<rparr>"
  have lg: "leave_group k s c1 = (ms = [], c2)"
    using g cl by (cases "ms = []") (simp_all add: leave_group_def c2_def c1_def gs_def ms_def Let_def)
  have "snd (restore_barged k s restore c2) = write_appearance (ap_id a) (a\<lparr>ap_state := StRemoteInUse, ap_audio := StreamClosed,
        ap_audio_transmit := StreamClosed, ap_video := close_streams (ap_video a)\<rparr>) c2"
    using f(1,2,4) tgt by (simp add: restore_barged_def c2_def c1_def hm_contains_def)
  with run lg s have c': "c' = write_appearance (ap_id a) (a\<lparr>ap_state := StRemoteInUse, ap_audio := StreamClosed,
        ap_audio_transmit := StreamClosed, ap_video := close_streams (ap_video a)\<rparr>) c2"
    by (simp add: end_barge_internal_def Let_def c1_def [symmetric] split: prod.splits)
  show "ct_barge_by_handset c' = hm_remove k (ct_barge_by_handset c)"
    "ct_barge_by_pbx c' = hm_remove (bs_barger_call_id s) (ct_barge_by_pbx c)"
    "ct_registry c' = (ct_registry c)\<lparr>rg_pbx := hm_remove (bs_barger_call_id s) (rg_pbx (ct_registry c)),
      rg_appearances := hm_insert (ap_id a) (a\<lparr>ap_state := StRemoteInUse, ap_audio := StreamClosed,
        ap_audio_transmit := StreamClosed, ap_video := close_streams (ap_video a)\<rparr>) (rg_appearances (ct_registry c))\<rparr>"
    "hm_wf (ct_barge_groups c')" "hm_wf (ct_shared_control_claims c')"
    "ct_devices c' = ct_devices c" "ct_voicemail c' = ct_voicemail c" "ct_redirect_claims c' = ct_redirect_claims c"
    "ct_next_pbx_id c' = ct_next_pbx_id c"
    "\<And>q. hm_get (ct_barge_groups c') q = (if q = bs_target_call_id s then if ms = [] then None else Some (g\<lparr>bg_members := ms\<rparr>)
       else hm_get (ct_barge_groups c) q)"
    "\<And>q. hm_get (ct_shared_control_claims c') q = (if q = bs_target_call_id s \<and> ms = [] then None
       else hm_get (ct_shared_control_claims c) q)"
    using wf g by (simp_all add: c' write_appearance_def c2_def c1_def gs_def ms_def)
qed

lemma end_barge_views:
  assumes ok: "controller_ok c" and s: "hm_get (ct_barge_by_handset c) k = Some s"
    and run: "end_barge_internal k joined created restore c = (es, c')"
  shows "pbx_call_of c' x = (if x = bs_barger_call_id s then None else pbx_call_of c x)"
    "appearance_for_call c j = Some b \<Longrightarrow>
      \<exists>y. appearance_for_call c' j = Some y \<and> ap_pbx_id y = ap_pbx_id b \<and> ap_device_id y = ap_device_id b"
    "j \<noteq> k \<Longrightarrow> appearance_for_call c' j = appearance_for_call c j"
    "calls_ok (ct_registry c')"
proof -
  note okD = controller_okD [OF ok]
  let ?p = "bs_target_call_id s" and ?q = "bs_barger_call_id s"
  from session_facts [OF ok s] obtain a g barger where a: "appearance_for_call c k = Some a"
    and ai: "appearance_of c (ap_id a) = Some a" "ap_sccp_id a = k" "ap_state a = StBarged"
    and g: "hm_get (ct_barge_groups c) ?p = Some g"
    and q: "pbx_call_of c ?q = Some barger" "pc_appearance_ids barger = []"
    by metis
  define a' where "a' = a\<lparr>ap_state := StRemoteInUse, ap_audio := StreamClosed,
        ap_audio_transmit := StreamClosed, ap_video := close_streams (ap_video a)\<rparr>"
  have reg: "ct_registry c' = (ct_registry c)\<lparr>rg_pbx := hm_remove ?q (rg_pbx (ct_registry c)),
      rg_appearances := hm_insert (ap_id a) a' (rg_appearances (ct_registry c))\<rparr>"
    unfolding end_barge_run(3) [OF ok s a g run] a'_def ..
  show "pbx_call_of c' x = (if x = ?q then None else pbx_call_of c x)" unfolding reg by simp
  have a'f: "ap_pbx_id a' = ap_pbx_id a" "ap_device_id a' = ap_device_id a" by (simp_all add: a'_def)
  have app: "appearance_for_call c' j = (if j = k then Some a' else appearance_for_call c j)" for j
  proof (cases "j = k")
    case True
    with appearance_for_owned(3) [OF okD(2) a] show ?thesis unfolding reg by (simp add: appearance_for_def)
  next
    case False
    have "x \<noteq> ap_id a" if "hm_get (rg_by_sccp (ct_registry c)) j = Some x" for x
      using index_ok_call [OF okD(2) that] ai(1,2) False by auto
    with False show ?thesis unfolding reg by (auto simp: appearance_for_def split: Option.bind_split)
  qed
  show "appearance_for_call c j = Some b \<Longrightarrow>
      \<exists>y. appearance_for_call c' j = Some y \<and> ap_pbx_id y = ap_pbx_id b \<and> ap_device_id y = ap_device_id b"
    using a a'f by (auto simp: app)
  show "j \<noteq> k \<Longrightarrow> appearance_for_call c' j = appearance_for_call c j" by (simp add: app)
  from calls_ok_restyle_appearance [OF calls_ok_remove_empty [OF okD(1) q], of "ap_id a" a a'
      "hm_insert (ap_id a) a' (rg_appearances (ct_registry c))"] show "calls_ok (ct_registry c')"
    unfolding reg using ai index_ok_wf(2) [OF okD(2)] by (simp add: a'_def)
qed

lemma end_barge_barges_ok:
  assumes ok: "controller_ok c" and s: "hm_get (ct_barge_by_handset c) k = Some s"
    and run: "end_barge_internal k joined created restore c = (es, c')"
  shows "barges_ok c'"
proof -
  note okD = controller_okD [OF ok]
  let ?p = "bs_target_call_id s" and ?q = "bs_barger_call_id s"
  from session_facts [OF ok s] obtain a g barger where a: "appearance_for_call c k = Some a" "ap_state a = StBarged"
    and g: "hm_get (ct_barge_groups c) ?p = Some g"
    and b: "pbx_call_of c ?q = Some barger" "pc_appearance_ids barger = []" "hm_get (ct_barge_by_pbx c) ?q = Some k"
    by metis
  note r = end_barge_run [OF ok s a(1) g run] and un = empty_call_unclaimed [OF ok b(1,2)]
    and pbx = end_barge_views(1) [OF ok s run] and app = end_barge_views(3) [OF ok s run]
  let ?ms = "filter (\<lambda>j. j \<noteq> k) (bg_members g)"
  show ?thesis
  proof (rule barges_okI)
    show "hm_wf (ct_barge_groups c')" by (rule r(4))
    show "hm_wf (ct_barge_by_handset c')" "hm_wf (ct_barge_by_pbx c')"
      unfolding r(1,2) using barges_okD(2,3) [OF okD(8)] by simp_all
    fix x h assume h: "hm_get (ct_barge_groups c') x = Some h"
    then have "\<exists>h0. hm_get (ct_barge_groups c) x = Some h0 \<and> bg_bridge_id h = bg_bridge_id h0 \<and> bg_mode h = bg_mode h0
      \<and> bg_members h = filter (\<lambda>j. x \<noteq> ?p \<or> j \<noteq> k) (bg_members h0)" "bg_members h \<noteq> []"
      using g barges_okD(4) [OF okD(8), of x h] unfolding r(6) by (auto simp: group_ok_def split: if_splits)
    then obtain h0 where h0: "hm_get (ct_barge_groups c) x = Some h0" "bg_bridge_id h = bg_bridge_id h0" "bg_mode h = bg_mode h0"
      "bg_members h = filter (\<lambda>j. x \<noteq> ?p \<or> j \<noteq> k) (bg_members h0)" by blast
    have go: "group_ok c x h0" by (rule barges_okD(4) [OF okD(8) h0(1)])
    have nk: "j \<noteq> k" if "j \<in> set (bg_members h)" for j
    proof
      assume "j = k"
      with that h0(4) have "x \<noteq> ?p" "k \<in> set (bg_members h0)" by auto
      with go s show False unfolding group_ok_def by auto
    qed
    have "x \<noteq> ?q" using un(1) h0(1) by auto
    with go nk h0(2-4) \<open>bg_members h \<noteq> []\<close> show "group_ok c' x h" unfolding group_ok_def pbx r(1) by auto
  next
    fix j s' assume "hm_get (ct_barge_by_handset c') j = Some s'"
    then have j: "j \<noteq> k" "hm_get (ct_barge_by_handset c) j = Some s'" unfolding r(1) by (simp_all split: if_splits)
    have so: "session_ok c j s'" by (rule barges_okD(5) [OF okD(8) j(2)])
    then have "bs_barger_call_id s' \<noteq> ?q" using b(3) j(1) unfolding session_ok_def by auto
    moreover have "\<exists>h. hm_get (ct_barge_groups c') (bs_target_call_id s') = Some h \<and> j \<in> set (bg_members h)"
    proof (cases "bs_target_call_id s' = ?p")
      case True
      with so g j(1) have "j \<in> set ?ms" unfolding session_ok_def by auto
      then have "?ms \<noteq> []" by (auto simp: filter_empty_conv)
      with True \<open>j \<in> set ?ms\<close> show ?thesis unfolding r(6) by auto
    qed (use so in \<open>simp add: session_ok_def r(6)\<close>)
    ultimately show "session_ok c' j s'" using so j(1) app [OF j(1)] unfolding session_ok_def pbx r(2) by simp
  next
    fix x j assume "hm_get (ct_barge_by_pbx c') x = Some j"
    then have x: "x \<noteq> ?q" "hm_get (ct_barge_by_pbx c) x = Some j" unfolding r(2) by (simp_all split: if_splits)
    from barges_okD(6) [OF okD(8) x(2)] x(1) s
    show "\<exists>s. hm_get (ct_barge_by_handset c') j = Some s \<and> bs_barger_call_id s = x" unfolding r(1) by auto
  qed
qed

lemma end_barge_ok:
  assumes ok: "controller_ok c" and run: "end_barge_internal k joined created restore c = (es, c')"
  shows "controller_ok c'"
proof (cases "hm_get (ct_barge_by_handset c) k")
  case None
  with run ok show ?thesis by (simp add: end_barge_internal_def)
next
  case s: (Some s)
  note okD = controller_okD [OF ok]
  let ?p = "bs_target_call_id s" and ?q = "bs_barger_call_id s"
  from session_facts [OF ok s] obtain a g barger where a: "appearance_for_call c k = Some a" "ap_state a = StBarged"
    and g: "hm_get (ct_barge_groups c) ?p = Some g"
    and b: "pbx_call_of c ?q = Some barger" "pc_appearance_ids barger = []" "hm_get (ct_barge_by_pbx c) ?q = Some k"
    by metis
  note r = end_barge_run [OF ok s a(1) g run] and un = empty_call_unclaimed [OF ok b(1,2)]
    and pbx = end_barge_views(1) [OF ok s run] and app = end_barge_views(2) [OF ok s run]
  note kept = presentations_kept [OF ok app r(8-10)]
  have "redirects_ok c'"
    using okD(5) b(3) g unfolding redirects_ok_def r(2,6,10) hm_contains_def pbx by auto
  moreover have "claims_ok c'"
  proof (rule claims_okI)
    show "hm_wf (ct_shared_control_claims c')" by (rule r(5))
    fix x w assume "hm_get (ct_shared_control_claims c') x = Some (Steal w)"
    then have x: "hm_get (ct_shared_control_claims c) x = Some (Steal w)" unfolding r(7) by (simp split: if_splits)
    with un(2) have "x \<noteq> ?q" by auto
    with claims_okD(2) [OF okD(7) x] show "\<exists>call. pbx_call_of c' x = Some call \<and> pc_active_appearance call = Some w"
      unfolding pbx by simp
  next
    fix x b show "hm_get (ct_shared_control_claims c') x = Some (Barge b) \<longleftrightarrow>
        (\<exists>g. hm_get (ct_barge_groups c') x = Some g \<and> bg_bridge_id g = b)"
      using claims_okD(3) [OF okD(7), of x b] g unfolding r(6,7) by auto
  qed
  ultimately show ?thesis
    using okD(9) r(11) kept end_barge_views(4) [OF ok s run] end_barge_barges_ok [OF ok s run] by (simp add: controller_ok_def)
qed

text \<open>All barges of a target end: its group is gone.\<close>

lemma end_barges_ok:
  assumes "controller_ok c" and "hm_get (ct_barge_groups c) p = (if ks = [] then None else Some g)" "bg_members g = ks"
    and "fold (\<lambda>k (effects, c). case end_barge_internal k True True False c of (es, c') \<Rightarrow> (effects @ es, c')) ks (es0, c) = (es, c')"
  shows "controller_ok c' \<and> hm_get (ct_barge_groups c') p = None \<and> (hm_get (ct_barge_by_pbx c) p = None \<longrightarrow> hm_get (ct_barge_by_pbx c') p = None)"
  using assms
proof (induction ks arbitrary: c es0 g)
  case (Cons k ks)
  note okD = controller_okD [OF Cons.prems(1)]
  have g: "hm_get (ct_barge_groups c) p = Some g" using Cons.prems(2) by simp
  have go: "group_ok c p g" by (rule barges_okD(4) [OF okD(8) g])
  then obtain s where s: "hm_get (ct_barge_by_handset c) k = Some s" "bs_target_call_id s = p"
    using Cons.prems(3) unfolding group_ok_def by auto
  obtain es1 c1 where c1: "end_barge_internal k True True False c = (es1, c1)" by fastforce
  from session_facts [OF Cons.prems(1) s(1)] obtain a where a: "appearance_for_call c k = Some a" by metis
  note run = end_barge_run [OF Cons.prems(1) s(1) a _ c1, unfolded s(2), OF g]
  have ks: "filter (\<lambda>j. j \<noteq> k) (bg_members g) = ks"
    using go Cons.prems(3) unfolding group_ok_def by (auto simp: filter_id_conv)
  have grp: "hm_get (ct_barge_groups c1) p = (if ks = [] then None else Some (g\<lparr>bg_members := ks\<rparr>))"
    using run(6) [of p] ks by simp
  have rest: "fold (\<lambda>k (effects, c). case end_barge_internal k True True False c of (es, c') \<Rightarrow> (effects @ es, c')) ks
      (es0 @ es1, c1) = (es, c')" using Cons.prems(4) c1 by simp
  have "bg_members (g\<lparr>bg_members := ks\<rparr>) = ks" by simp
  from Cons.IH [OF end_barge_ok [OF Cons.prems(1) c1] grp this rest]
  show ?case unfolding run(2) by simp
qed simp

lemma end_barges_for_target_ok:
  assumes ok: "controller_ok c" and run: "end_barges_for_target p c = (es, c')" and "hm_get (ct_barge_by_pbx c) p = None"
  shows "controller_ok c'" "hm_get (ct_barge_groups c') p = None" "hm_get (ct_barge_by_pbx c') p = None"
proof -
  have "controller_ok c' \<and> hm_get (ct_barge_groups c') p = None \<and> hm_get (ct_barge_by_pbx c') p = None"
  proof (cases "hm_get (ct_barge_groups c) p")
    case None
    with run ok assms(3) show ?thesis by (simp add: end_barges_for_target_def)
  next
    case (Some g)
    then have "bg_members g \<noteq> []" using barges_okD(4) [OF controller_okD(8) [OF ok], of p g] by (simp add: group_ok_def)
    with end_barges_ok [OF ok _ refl, of p g "[]" es c'] Some run assms(3) show ?thesis
      by (simp add: end_barges_for_target_def)
  qed
  then show "controller_ok c'" "hm_get (ct_barge_groups c') p = None" "hm_get (ct_barge_by_pbx c') p = None" by simp_all
qed

text \<open>The channel of a barge is connected and shown by no phone.\<close>

lemma barging_call:
  assumes ok: "controller_ok c" and "hm_get (ct_barge_by_pbx c) p = Some k"
  shows "\<exists>call. pbx_call_of c p = Some call \<and> pc_appearance_ids call = [] \<and> pc_state call = StConnected"
proof -
  note okD = controller_okD [OF ok]
  obtain s where s: "hm_get (ct_barge_by_handset c) k = Some s" "bs_barger_call_id s = p"
    using barges_okD(6) [OF okD(8) assms(2)] by blast
  from barges_okD(5) [OF okD(8) s(1)] s(2) show ?thesis unfolding session_ok_def by blast
qed

lemma barge_fresh_channel:
  assumes "controller_ok c" and "pbx_call_of c q = None"
  shows "hm_get (ct_barge_by_pbx c) q = None"
  using barging_call [OF assms(1), of q] assms(2) by (cases "hm_get (ct_barge_by_pbx c) q") auto

subsection \<open>A new barge\<close>

lemma allocate_pbx_id_fresh:
  assumes ok: "controller_ok c" and room: "length (rg_pbx (ct_registry c)) < 2 ^ 64 - 1"
    and run: "allocate_pbx_id c = (i, c')"
  shows "pbx_call_of c i = None" "c' = c\<lparr>ct_next_pbx_id := next_nonzero i\<rparr>"
proof -
  let ?used = "map fst (rg_pbx (ct_registry c))"
  obtain j n where jn: "allocate_free (length ?used) (ct_next_pbx_id c) ?used = (j, n)" by fastforce
  with run have i: "i = j" "c' = c\<lparr>ct_next_pbx_id := n\<rparr>" by (simp_all add: allocate_pbx_id_def Let_def)
  have "i \<notin> set ?used"
    using allocate_free_spin(2) [OF controller_okD(9) [OF ok], of ?used] room jn by (simp add: i(1))
  then show "pbx_call_of c i = None" by (simp add: map_of_eq_None_iff)
  show "c' = c\<lparr>ct_next_pbx_id := next_nonzero i\<rparr>"
    using allocate_free_next [of "length ?used" "ct_next_pbx_id c" ?used] jn by (simp add: i)
qed

lemma calls_ok_add_empty:
  assumes ok: "calls_ok r" and "hm_get (rg_pbx r) (pc_id call) = None" and "pc_appearance_ids call = []"
    "pc_active_appearance call = None" "pc_pending_pickup call = None" "pc_state call \<noteq> StPickupCollecting"
  shows "calls_ok (r\<lparr>rg_pbx := hm_insert (pc_id call) call (rg_pbx r)\<rparr>)" (is "calls_ok ?r")
proof -
  have idx: "index_ok r" and st: "states_ok r" using ok by (simp_all add: calls_ok_def)
  have none: "ap_pbx_id a \<noteq> pc_id call" if "hm_get (rg_appearances r) i = Some a" for i a
    using index_ok_appearance(4) [OF idx that] assms(2) by auto
  have "states_ok ?r"
  proof (rule states_okI)
    fix q call' assume q: "hm_get (rg_pbx ?r) q = Some call'"
    show "owner_ok ?r q call'"
    proof (cases "q = pc_id call")
      case True
      then show ?thesis using q none assms(3-6) by (intro owner_okI) auto
    next
      case False
      with q have "owner_ok r q call'" using states_okD [OF st] by simp
      then show ?thesis by (rule owner_ok_cong) simp_all
    qed
  qed
  with index_ok_new_call [OF idx assms(2,3)] show ?thesis by (simp add: calls_ok_def)
qed

text \<open>What a new barge does to the calls, before the phone selects it.\<close>

lemma barge_views:
  assumes ok: "controller_ok c" and a: "appearance_for_call c k = Some a" "ap_state a = StRemoteInUse"
    and q: "pbx_call_of c q = None"
    and c1: "ct_registry c1 = (ct_registry c)\<lparr>rg_pbx := hm_insert q (barger_call q target) (rg_pbx (ct_registry c)),
      rg_appearances := hm_modify (ap_id a) (\<lambda>a. a\<lparr>ap_state := StBarged, ap_codec := codec, ap_audio := StreamOpening,
        ap_video := close_streams (ap_video a)\<rparr>) (rg_appearances (ct_registry c))\<rparr>"
  shows "calls_ok (ct_registry c1)"
    "pbx_call_of c1 x = (if x = q then Some (barger_call q target) else pbx_call_of c x)"
    "j \<noteq> k \<Longrightarrow> appearance_for_call c1 j = appearance_for_call c j"
    "\<exists>y. appearance_for_call c1 k = Some y \<and> ap_pbx_id y = ap_pbx_id a \<and> ap_device_id y = ap_device_id a \<and> ap_state y = StBarged"
proof -
  note okD = controller_okD [OF ok] and ai = appearance_for_owned [OF controller_okD(2) [OF ok] a(1)]
  define a' where "a' = a\<lparr>ap_state := StBarged, ap_codec := codec, ap_audio := StreamOpening, ap_video := close_streams (ap_video a)\<rparr>"
  have a'f: "ap_pbx_id a' = ap_pbx_id a" "ap_device_id a' = ap_device_id a" "ap_state a' = StBarged" by (simp_all add: a'_def)
  have b: "pc_id (barger_call q target) = q" by (simp add: barger_call_def)
  have apps: "hm_get (rg_appearances (ct_registry c1)) j = (if j = ap_id a then Some a' else appearance_of c j)" for j
    unfolding c1 using ai(1) by (simp add: a'_def)
  from calls_ok_add_empty [OF okD(1), of "barger_call q target"] q
  have "calls_ok ((ct_registry c)\<lparr>rg_pbx := hm_insert q (barger_call q target) (rg_pbx (ct_registry c))\<rparr>)"
    by (simp add: barger_call_def)
  from calls_ok_restyle_appearance [OF this, of "ap_id a" a a' "rg_appearances (ct_registry c1)"] ai(1) a(2) apps index_ok_wf(2) [OF okD(2)]
  show "calls_ok (ct_registry c1)" unfolding c1 by (simp add: a'_def)
  show "pbx_call_of c1 x = (if x = q then Some (barger_call q target) else pbx_call_of c x)" unfolding c1 by simp
  have sccp: "rg_by_sccp (ct_registry c1) = rg_by_sccp (ct_registry c)" unfolding c1 by simp
  show "\<exists>y. appearance_for_call c1 k = Some y \<and> ap_pbx_id y = ap_pbx_id a \<and> ap_device_id y = ap_device_id a \<and> ap_state y = StBarged"
    using ai(3) a'f by (simp add: appearance_for_def sccp apps)
  assume "j \<noteq> k"
  then have "x \<noteq> ap_id a" if "hm_get (rg_by_sccp (ct_registry c)) j = Some x" for x
    using index_ok_call [OF okD(2) that] ai(1,2) by auto
  then show "appearance_for_call c1 j = appearance_for_call c j"
    by (auto simp: appearance_for_def sccp apps split: Option.bind_split)
qed

text \<open>
  The group that a barge joins or founds: it has the bridge and the mode of the session,
  its older members have theirs.
\<close>

definition joined_group :: "call_id \<Rightarrow> barge_mode \<Rightarrow> pbx_bridge_id \<Rightarrow> barge_group option \<Rightarrow> barge_group" where
  "joined_group k mode bridge g =
     (case g of None \<Rightarrow> \<lparr>bg_bridge_id = bridge, bg_mode = mode, bg_members = [k]\<rparr>
      | Some g \<Rightarrow> g\<lparr>bg_members := bg_members g @ [k]\<rparr>)"

lemma barge_barges_ok:
  assumes ok: "controller_ok c" and a: "appearance_for_call c k = Some a" "ap_state a = StRemoteInUse"
    and target: "pbx_call_of c (ap_pbx_id a) = Some target" "pc_state target = StConnected"
    and q: "pbx_call_of c q = None" and fresh: "hm_get (ct_barge_by_handset c) k = None"
    and group: "\<And>g. hm_get (ct_barge_groups c) (ap_pbx_id a) = Some g \<Longrightarrow> bg_bridge_id g = bridge \<and> bg_mode g = mode"
    and c1: "ct_registry c1 = (ct_registry c)\<lparr>rg_pbx := hm_insert q (barger_call q target) (rg_pbx (ct_registry c)),
      rg_appearances := hm_modify (ap_id a) (\<lambda>a. a\<lparr>ap_state := StBarged, ap_codec := codec, ap_audio := StreamOpening,
        ap_video := close_streams (ap_video a)\<rparr>) (rg_appearances (ct_registry c))\<rparr>"
    and s: "s = \<lparr>bs_target_call_id = ap_pbx_id a, bs_barger_call_id = q, bs_bridge_id = bridge, bs_handset_call_id = k, bs_mode = mode\<rparr>"
    and hs: "ct_barge_by_handset c1 = hm_insert k s (ct_barge_by_handset c)"
    and px: "ct_barge_by_pbx c1 = hm_insert q k (ct_barge_by_pbx c)"
    and gs: "hm_wf (ct_barge_groups c1)" "\<And>x. hm_get (ct_barge_groups c1) x = (if x = ap_pbx_id a
      then Some (joined_group k mode bridge (hm_get (ct_barge_groups c) (ap_pbx_id a))) else hm_get (ct_barge_groups c) x)"
  shows "barges_ok c1"
proof (rule barges_okI)
  note okD = controller_okD [OF ok] and v = barge_views [OF ok a q c1]
  let ?g = "joined_group k mode bridge (hm_get (ct_barge_groups c) (ap_pbx_id a))"
  have p: "ap_pbx_id a \<noteq> q" using target(1) q by auto
  show "hm_wf (ct_barge_groups c1)" "hm_wf (ct_barge_by_handset c1)" "hm_wf (ct_barge_by_pbx c1)"
    unfolding hs px using barges_okD(2,3) [OF okD(8)] gs(1) by simp_all
  have old: "j \<noteq> k" if "hm_get (ct_barge_groups c) x = Some g" "j \<in> set (bg_members g)" for x g j
    using barges_okD(4) [OF okD(8) that(1)] that(2) fresh unfolding group_ok_def by auto
  {
    fix x g assume x: "hm_get (ct_barge_groups c1) x = Some g"
    show "group_ok c1 x g"
    proof (cases "x = ap_pbx_id a")
      case False
      with x have go: "group_ok c x g" and g: "hm_get (ct_barge_groups c) x = Some g"
        unfolding gs(2) using barges_okD(4) [OF okD(8)] by simp_all
      from go have "x \<noteq> q" using q unfolding group_ok_def by auto
      with go old [OF g] show ?thesis unfolding group_ok_def hs v(2) by auto
    next
      case True
      with x have g: "g = ?g" unfolding gs(2) by simp
      show ?thesis
      proof (cases "hm_get (ct_barge_groups c) (ap_pbx_id a)")
        case None
        then show ?thesis using target p unfolding g True group_ok_def hs v(2) by (simp add: joined_group_def s)
      next
        case (Some g0)
        note go = barges_okD(4) [OF okD(8) Some]
        from go old [OF Some] target p group [OF Some] show ?thesis
          unfolding g True group_ok_def hs v(2) Some joined_group_def by (auto simp: s)
      qed
    qed
  next
    fix j s' assume j: "hm_get (ct_barge_by_handset c1) j = Some s'"
    show "session_ok c1 j s'"
    proof (cases "j = k")
      case True
      with j have s': "s' = s" unfolding hs by simp
      have "k \<in> set (bg_members ?g)" by (simp add: joined_group_def split: option.split)
      then show ?thesis
        unfolding session_ok_def s' True px v(2) gs(2) using v(4) by (auto simp: s barger_call_def)
    next
      case False
      with j have so: "session_ok c j s'" unfolding hs using barges_okD(5) [OF okD(8)] by simp
      then have "bs_barger_call_id s' \<noteq> q" using q unfolding session_ok_def by auto
      moreover have "\<exists>g. hm_get (ct_barge_groups c1) (bs_target_call_id s') = Some g \<and> j \<in> set (bg_members g)"
        using so unfolding session_ok_def gs(2) by (auto simp: joined_group_def)
      ultimately show ?thesis using so v(3) [OF False] unfolding session_ok_def px v(2) by simp
    qed
  next
    fix x j assume x: "hm_get (ct_barge_by_pbx c1) x = Some j"
    show "\<exists>s. hm_get (ct_barge_by_handset c1) j = Some s \<and> bs_barger_call_id s = x"
    proof (cases "x = q")
      case False
      with x have "hm_get (ct_barge_by_pbx c) x = Some j" unfolding px by simp
      from barges_okD(6) [OF okD(8) this] fresh show ?thesis unfolding hs by auto
    qed (use x in \<open>simp add: px hs s\<close>)
  }
qed

lemma barge_claims_ok:
  assumes ok: "controller_ok c" and group: "if new then hm_get (ct_shared_control_claims c) p = None
      else \<exists>g. hm_get (ct_barge_groups c) p = Some g \<and> bg_bridge_id g = bridge \<and> bg_mode g = mode"
    and pbx: "\<And>x. pbx_call_of c1 x = (if x = q then Some call else pbx_call_of c x)" and q: "pbx_call_of c q = None"
    and cl: "ct_shared_control_claims c1 = (if new then hm_insert p (Barge bridge) (ct_shared_control_claims c) else ct_shared_control_claims c)"
    and gs: "\<And>x. hm_get (ct_barge_groups c1) x = (if x = p then Some (joined_group k mode bridge (hm_get (ct_barge_groups c) p))
      else hm_get (ct_barge_groups c) x)"
  shows "claims_ok c1"
proof (rule claims_okI)
  note ok7 = controller_okD(7) [OF ok]
  show "hm_wf (ct_shared_control_claims c1)" using claims_okD(1) [OF ok7] by (simp add: cl)
  fix x w assume "hm_get (ct_shared_control_claims c1) x = Some (Steal w)"
  then have x: "hm_get (ct_shared_control_claims c) x = Some (Steal w)" by (simp add: cl split: if_splits)
  from claims_okD(2) [OF ok7 x] q show "\<exists>call. pbx_call_of c1 x = Some call \<and> pc_active_appearance call = Some w"
    unfolding pbx by auto
next
  have ng: "new \<Longrightarrow> hm_get (ct_barge_groups c) p = None" using group no_claim_no_group [OF ok] by simp
  fix x b show "hm_get (ct_shared_control_claims c1) x = Some (Barge b) \<longleftrightarrow>
      (\<exists>g. hm_get (ct_barge_groups c1) x = Some g \<and> bg_bridge_id g = b)"
    using claims_okD(3) [OF controller_okD(7) [OF ok], of x b] group ng by (cases new) (auto simp: cl gs joined_group_def)
qed

lemma barge_join_ok:
  assumes ok: "controller_ok c" and a: "appearance_for_call c k = Some a" "ap_state a = StRemoteInUse"
    and target: "pbx_call_of c (ap_pbx_id a) = Some target" "pc_state target = StConnected"
    and q: "pbx_call_of c q = None" and fresh: "hm_get (ct_barge_by_handset c) k = None"
    and free: "ap_pbx_id a \<notin> set (ct_redirect_claims c)"
    and group: "if new then hm_get (ct_shared_control_claims c) (ap_pbx_id a) = None
      else \<exists>g. hm_get (ct_barge_groups c) (ap_pbx_id a) = Some g \<and> bg_bridge_id g = bridge \<and> bg_mode g = mode"
  shows "controller_ok (barge_join k codec mode a target bridge new q c)"
proof -
  note okD = controller_okD [OF ok]
  have pid: "pc_id target = ap_pbx_id a" by (rule index_ok_pbx(1) [OF okD(2) target(1)])
  let ?s = "\<lparr>bs_target_call_id = ap_pbx_id a, bs_barger_call_id = q, bs_bridge_id = bridge, bs_handset_call_id = k, bs_mode = mode\<rparr>"
  define claims where "claims = (if new then hm_insert (ap_pbx_id a) (Barge bridge) (ct_shared_control_claims c) else ct_shared_control_claims c)"
  define groups where "groups = (if new then hm_insert (ap_pbx_id a) \<lparr>bg_bridge_id = bridge, bg_mode = mode, bg_members = [k]\<rparr> (ct_barge_groups c)
    else hm_modify (ap_pbx_id a) (\<lambda>g. g\<lparr>bg_members := bg_members g @ [k]\<rparr>) (ct_barge_groups c))"
  define c1 where "c1 = c\<lparr>ct_registry := (ct_registry c)\<lparr>rg_pbx := hm_insert q (barger_call q target) (rg_pbx (ct_registry c)),
      rg_appearances := hm_modify (ap_id a) (\<lambda>a. a\<lparr>ap_state := StBarged, ap_codec := codec, ap_audio := StreamOpening,
        ap_video := close_streams (ap_video a)\<rparr>) (rg_appearances (ct_registry c))\<rparr>,
      ct_barge_by_handset := hm_insert k ?s (ct_barge_by_handset c), ct_barge_by_pbx := hm_insert q k (ct_barge_by_pbx c),
      ct_shared_control_claims := claims, ct_barge_groups := groups\<rparr>"
  have run: "barge_join k codec mode a target bridge new q c =
      set_call_selected (ap_device_id a) k True (select_line (ap_device_id a) (ap_line_instance a) c1)"
    by (cases new) (simp_all add: barge_join_def Let_def pid c1_def claims_def groups_def)
  have ng: "new \<Longrightarrow> hm_get (ct_barge_groups c) (ap_pbx_id a) = None" using group no_claim_no_group [OF ok] by simp
  have reg: "ct_registry c1 = (ct_registry c)\<lparr>rg_pbx := hm_insert q (barger_call q target) (rg_pbx (ct_registry c)),
      rg_appearances := hm_modify (ap_id a) (\<lambda>a. a\<lparr>ap_state := StBarged, ap_codec := codec, ap_audio := StreamOpening,
        ap_video := close_streams (ap_video a)\<rparr>) (rg_appearances (ct_registry c))\<rparr>" by (simp add: c1_def)
  note v = barge_views [OF ok a q reg]
  have app: "\<exists>y. appearance_for_call c1 j = Some y \<and> ap_pbx_id y = ap_pbx_id b \<and> ap_device_id y = ap_device_id b"
    if "appearance_for_call c j = Some b" for j b
    using that v(4) v(3) [of j] a(1) by (cases "j = k") auto
  have gs: "hm_get groups x = (if x = ap_pbx_id a
      then Some (joined_group k mode bridge (hm_get (ct_barge_groups c) (ap_pbx_id a))) else hm_get (ct_barge_groups c) x)" for x
    using group ng by (cases new) (auto simp: groups_def joined_group_def)
  have "devices_ok c1" "voicemail_ok c1" by (rule presentations_kept [OF ok app]; simp add: c1_def)+
  moreover have "redirects_ok c1"
    unfolding redirects_ok_def
  proof (intro ballI conjI)
    fix x assume "x \<in> set (ct_redirect_claims c1)"
    then have x: "x \<in> set (ct_redirect_claims c)" by (simp add: c1_def)
    note o = redirects_okD [OF okD(5) x]
    show "hm_contains (rg_pbx (ct_registry c1)) x" using o(1) unfolding hm_contains_def v(2) by auto
    show "hm_get (ct_barge_groups c1) x = None" using o(2) free x by (auto simp: c1_def gs)
    show "hm_get (ct_barge_by_pbx c1) x = None" using o(1,3) q by (auto simp: c1_def hm_contains_def)
  qed
  moreover have "claims_ok c1"
    by (rule barge_claims_ok [OF ok group v(2) q]) (simp_all add: c1_def claims_def gs)
  moreover have "barges_ok c1"
  proof (rule barge_barges_ok [OF ok a target q fresh _ reg refl])
    show "bg_bridge_id g = bridge \<and> bg_mode g = mode" if "hm_get (ct_barge_groups c) (ap_pbx_id a) = Some g" for g
      using group ng that by (cases new) auto
    show "hm_wf (ct_barge_groups c1)" using barges_okD(1) [OF okD(8)] by (simp add: c1_def groups_def)
  qed (simp_all add: c1_def gs)
  ultimately have "controller_ok c1" using v(1) okD(9) by (simp add: controller_ok_def c1_def)
  then show ?thesis unfolding run by (intro set_call_selected_ok select_line_ok)
qed

text \<open>An accepted barge.\<close>

lemma barge_bridge_fields:
  assumes "barge_bridge target mode c = (y, c')"
  shows "\<exists>n. c' = c\<lparr>ct_next_bridge_id := n\<rparr>"
  using assms by (auto simp: barge_bridge_def allocate_bridge_id_def Let_def intro: exI [of _ "ct_next_bridge_id c"]
      split: option.splits shared_control_claim.splits if_splits prod.splits)

lemma barge_cases:
  assumes ok: "controller_ok c" and run: "barge k b codec mode c = (Inr es, c')"
    and room: "length (rg_pbx (ct_registry c)) < 2 ^ 64 - 1"
  obtains a target bridge new q n where "appearance_for_call c k = Some a" "ap_state a = StRemoteInUse"
    "pbx_call_of c (ap_pbx_id a) = Some target" "pc_state target = StConnected" "pbx_call_of c q = None"
    "hm_get (ct_barge_by_handset c) k = None" "ap_pbx_id a \<notin> set (ct_redirect_claims c)"
    "if new then hm_get (ct_shared_control_claims c) (ap_pbx_id a) = None
      else \<exists>g. hm_get (ct_barge_groups c) (ap_pbx_id a) = Some g \<and> bg_bridge_id g = bridge \<and> bg_mode g = mode"
    "c' = barge_join k codec mode a target bridge new q (c\<lparr>ct_next_bridge_id := n, ct_next_pbx_id := next_nonzero q\<rparr>)"
    "es = [Backend (CreateChannel k q b codec), Backend (PbxBarge (BargeJoin bridge (ap_pbx_id a) q)),
       Handset (BeginMedia (ap_device_id a) k codec)]"
proof -
  note okD = controller_okD [OF ok]
  from run obtain a target where a: "appearance_for_call c k = Some a" and target: "pbx_call_of c (ap_pbx_id a) = Some target"
    and accept: "barge_refusal k b codec a target c = None"
    unfolding barge_def by (auto split: option.splits)
  have g: "ap_state a = StRemoteInUse" "pc_state target = StConnected" "hm_get (ct_barge_by_handset c) k = None"
    "ap_pbx_id a \<notin> set (ct_redirect_claims c)"
    using accept by (auto simp: barge_refusal_def hm_contains_def split: if_splits option.splits)
  have pid: "pc_id target = ap_pbx_id a" by (rule index_ok_pbx(1) [OF okD(2) target])
  from run a target accept obtain bridge new c1 where y: "barge_bridge target mode c = (Inr (bridge, new), c1)"
    unfolding barge_def by (auto split: prod.splits sum.splits)
  from barge_bridge_fields [OF y] obtain n where n: "c1 = c\<lparr>ct_next_bridge_id := n\<rparr>" by blast
  have ok1: "controller_ok c1" unfolding n by (rule controller_ok_cong [OF ok]) (simp_all add: okD(9))
  have grp: "if new then hm_get (ct_shared_control_claims c) (ap_pbx_id a) = None
    else \<exists>g. hm_get (ct_barge_groups c) (ap_pbx_id a) = Some g \<and> bg_bridge_id g = bridge \<and> bg_mode g = mode"
    using y claims_okD(3) [OF okD(7), of "ap_pbx_id a"]
    by (auto simp: barge_bridge_def pid split: option.splits shared_control_claim.splits if_splits prod.splits)
  obtain q c2 where q: "allocate_pbx_id c1 = (q, c2)" by fastforce
  have c2: "pbx_call_of c q = None" "c2 = c\<lparr>ct_next_bridge_id := n, ct_next_pbx_id := next_nonzero q\<rparr>"
    using allocate_pbx_id_fresh [OF ok1 _ q] room by (simp_all add: n)
  have "es = [Backend (CreateChannel k q b codec), Backend (PbxBarge (BargeJoin bridge (ap_pbx_id a) q)),
       Handset (BeginMedia (ap_device_id a) k codec)] \<and> c' = barge_join k codec mode a target bridge new q c2"
    using run a target accept y q pid by (simp add: barge_def)
  with that [OF a g(1) target g(2) c2(1) g(3,4) grp] c2(2) show thesis by blast
qed

lemma barge_refused:
  assumes "barge k b codec mode c = (Inl e, c')"
  shows "\<exists>n. c' = c\<lparr>ct_next_bridge_id := n\<rparr>"
proof (cases "c' = c")
  case False
  with assms obtain target y where "barge_bridge target mode c = (y, c')"
    unfolding barge_def by (auto split: option.splits prod.splits sum.splits)
  then show ?thesis by (rule barge_bridge_fields)
qed (auto intro: exI [of _ "ct_next_bridge_id c"])

lemma barge_ok:
  assumes ok: "controller_ok c" and run: "barge k b codec mode c = (x, c')"
    and room: "length (rg_pbx (ct_registry c)) < 2 ^ 64 - 1"
  shows "controller_ok c'"
proof (cases x)
  case (Inl e)
  from barge_refused [OF run [unfolded Inl]] obtain n where n: "c' = c\<lparr>ct_next_bridge_id := n\<rparr>" by blast
  show ?thesis unfolding n by (rule controller_ok_cong [OF ok]) (simp_all add: controller_okD(9) [OF ok])
next
  case (Inr es)
  show ?thesis
  proof (rule barge_cases [OF ok run [unfolded Inr] room])
    fix a target bridge new q n
    let ?c = "c\<lparr>ct_next_bridge_id := n, ct_next_pbx_id := next_nonzero q\<rparr>"
    assume h: "appearance_for_call c k = Some a" "ap_state a = StRemoteInUse"
      "pbx_call_of c (ap_pbx_id a) = Some target" "pc_state target = StConnected" "pbx_call_of c q = None"
      "hm_get (ct_barge_by_handset c) k = None" "ap_pbx_id a \<notin> set (ct_redirect_claims c)"
      "if new then hm_get (ct_shared_control_claims c) (ap_pbx_id a) = None
        else \<exists>g. hm_get (ct_barge_groups c) (ap_pbx_id a) = Some g \<and> bg_bridge_id g = bridge \<and> bg_mode g = mode"
      and c': "c' = barge_join k codec mode a target bridge new q ?c"
    have "controller_ok ?c" by (rule controller_ok_cong [OF ok]) simp_all
    then show ?thesis unfolding c' by (rule barge_join_ok) (use h in simp_all)
  qed
qed

section \<open>Hangup\<close>

lemma shown_not_barging:
  assumes ok: "controller_ok c" and "pbx_call_of c p = Some call" "pc_appearance_ids call \<noteq> []"
  shows "hm_get (ct_barge_by_pbx c) p = None"
  using barging_call [OF ok, of p] assms(2,3) by (cases "hm_get (ct_barge_by_pbx c) p") auto

text \<open>
  A hangup is safe unless the owner hangs up a call that others barge into, or a phone
  among several that ring hangs up while its own voicemail redirect runs.
\<close>

definition hangup_safe :: "call_id \<Rightarrow> 'x controller \<Rightarrow> bool" where
  "hangup_safe k c =
     (case appearance_for_call c k of None \<Rightarrow> True
      | Some a \<Rightarrow>
          (case pbx_call_of c (ap_pbx_id a) of None \<Rightarrow> True
           | Some call \<Rightarrow>
               (hm_contains (ct_barge_by_handset c) k \<or> \<not> hm_contains (ct_barge_groups c) (ap_pbx_id a)
                 \<or> pc_active_appearance call \<notin> {None, Some (ap_id a)})
               \<and> (length (pc_appearance_ids call) \<le> 1
                 \<or> list_all (\<lambda>t. vm_handset_call_id t \<noteq> k) (voicemail_transactions (ct_voicemail c)))))"

lemma hangup_ok:
  assumes ok: "controller_ok c" and run: "hangup_ordinary k cleanup c = (es, c')" and safe: "hangup_safe k c"
  shows "controller_ok c'"
proof (cases "hm_contains (ct_barge_by_handset c) k")
  case True
  with run have "end_barge_internal k True True True c = (es, c')" by (simp add: hangup_ordinary_def)
  then show ?thesis by (rule end_barge_ok [OF ok])
next
  case False
  note okD = controller_okD [OF ok]
  show ?thesis
  proof (cases "c' = c")
    case False
    from run \<open>\<not> hm_contains (ct_barge_by_handset c) k\<close> False obtain a call
      where a: "appearance_for_call c k = Some a" and call: "pbx_call_of c (ap_pbx_id a) = Some call"
      unfolding hangup_ordinary_def by (auto split: option.splits)
    note ai = appearance_for_owned [OF okD(2) a]
    have owner: "pc_active_appearance call \<in> {None, Some (ap_id a)}"
      using run False a call \<open>\<not> hm_contains (ct_barge_by_handset c) k\<close>
      by (auto simp: hangup_ordinary_def split: option.splits if_splits)
    have safe': "hm_get (ct_barge_groups c) (ap_pbx_id a) = None" "length (pc_appearance_ids call) \<le> 1
        \<or> list_all (\<lambda>t. vm_handset_call_id t \<noteq> k) (voicemail_transactions (ct_voicemail c))"
      using safe a call owner \<open>\<not> hm_contains (ct_barge_by_handset c) k\<close> by (auto simp: hangup_safe_def hm_contains_def)
    have "c' = snd (remove_pbx_call (ap_pbx_id a) c)
        \<or> c' = snd (remove_appearance (ap_id a) c) \<and> 1 < length (pc_appearance_ids call)"
      using run False a call \<open>\<not> hm_contains (ct_barge_by_handset c) k\<close>
      by (auto simp: hangup_ordinary_def split: if_splits)
    then show ?thesis
    proof
      assume c': "c' = snd (remove_pbx_call (ap_pbx_id a) c)"
      have "pc_appearance_ids call \<noteq> []" using ai(4) call by auto
      then show ?thesis unfolding c' by (rule remove_pbx_call_ok [OF ok safe'(1) shown_not_barging [OF ok call]])
    next
      assume c': "c' = snd (remove_appearance (ap_id a) c) \<and> 1 < length (pc_appearance_ids call)"
      have none: "vm_handset_call_id t \<noteq> ap_sccp_id a" if "hm_get (vr_by_device (ct_voicemail c)) d = Some t" for d t
        using safe'(2) c' hm_get_in_values [OF that] ai(2) by (auto simp: voicemail_transactions_def list_all_iff)
      from remove_appearance_ok [OF ok ai(1) none no_group_not_barged [OF ok ai(1) safe'(1)]] c' show ?thesis by simp
    qed
  qed (use ok in simp)
qed

lemma pbx_hangup_ok:
  assumes ok: "controller_ok c" and run: "pbx_hangup_ordinary p c = (x, c')" and "hm_get (ct_barge_by_pbx c) p = None"
  shows "controller_ok c'"
proof -
  obtain es c1 where c1: "end_barges_for_target p c = (es, c1)" by fastforce
  note e = end_barges_for_target_ok [OF ok c1 assms(3)]
  from run c1 have "c' = c1 \<or> c' = snd (remove_pbx_call p c1)"
    by (auto simp: pbx_hangup_ordinary_def split: option.splits)
  with e remove_pbx_call_ok [OF e] show ?thesis by blast
qed

section \<open>Redirects\<close>

lemma ringing_unbarged:
  assumes ok: "controller_ok c" and call: "pbx_call_of c p = Some call" "pc_state call = StRinging"
  shows "hm_get (ct_barge_groups c) p = None" "hm_get (ct_barge_by_pbx c) p = None"
proof -
  show "hm_get (ct_barge_groups c) p = None" by (rule group_connected [OF ok call(1)]) (simp add: call(2))
  show "hm_get (ct_barge_by_pbx c) p = None"
    using barging_call [OF ok, of p] call by (cases "hm_get (ct_barge_by_pbx c) p") auto
qed

text \<open>Only the redirect claims change.\<close>

lemma redirect_claims_ok:
  assumes ok: "controller_ok c" and "redirects_ok (c\<lparr>ct_redirect_claims := rs\<rparr>)"
    and vm: "\<And>d t. hm_get (vr_by_device (ct_voicemail c)) d = Some t \<Longrightarrow> vm_pbx_call_id t \<in> set rs"
  shows "controller_ok (c\<lparr>ct_redirect_claims := rs\<rparr>)" (is "controller_ok ?c")
proof -
  note okD = controller_okD [OF ok]
  have sh: "shows_call ?c = shows_call c" by (simp add: fun_eq_iff shows_call_def)
  have "devices_ok ?c" using okD(4) unfolding devices_ok_def sh by simp
  moreover have "voicemail_ok ?c"
    by (rule voicemail_okI) (use voicemail_okD [OF okD(6)] vm in simp_all)
  moreover have "claims_ok ?c" using okD(7) unfolding claims_ok_def by simp
  moreover have "barges_ok ?c" using okD(8) unfolding barges_ok_def group_ok_def session_ok_def by simp
  ultimately show ?thesis using okD(1,9) assms(2) by (simp add: controller_ok_def)
qed

lemma unclaim_redirect_ok:
  assumes ok: "controller_ok c" and "voicemail_for_pbx (ct_voicemail c) p = None"
  shows "controller_ok (c\<lparr>ct_redirect_claims := removeAll p (ct_redirect_claims c)\<rparr>)"
proof (rule redirect_claims_ok [OF ok])
  note okD = controller_okD [OF ok]
  show "redirects_ok (c\<lparr>ct_redirect_claims := removeAll p (ct_redirect_claims c)\<rparr>)"
    using okD(5) by (simp add: redirects_ok_def)
  fix d t assume t: "hm_get (vr_by_device (ct_voicemail c)) d = Some t"
  note inv = voicemail_okD(1) [OF okD(6)]
  have "vm_pbx_call_id t \<noteq> p"
    using voicemail_for_pbx_iff [OF inv, of p t] assms(2) t voicemail_inv_get(1) [OF inv t] by (auto simp: voicemail_get_def)
  with voicemail_okD(2) [OF okD(6) t] show "vm_pbx_call_id t \<in> set (removeAll p (ct_redirect_claims c))" by simp
qed

lemma claim_redirect_ok:
  assumes ok: "controller_ok c" and call: "pbx_call_of c p = Some call" "pc_state call = StRinging"
  shows "controller_ok (c\<lparr>ct_redirect_claims := List.insert p (ct_redirect_claims c)\<rparr>)"
proof (rule redirect_claims_ok [OF ok])
  note okD = controller_okD [OF ok]
  show "redirects_ok (c\<lparr>ct_redirect_claims := List.insert p (ct_redirect_claims c)\<rparr>)"
    using okD(5) ringing_unbarged [OF ok call] call(1) by (auto simp: redirects_ok_def hm_contains_def)
  show "vm_pbx_call_id t \<in> set (List.insert p (ct_redirect_claims c))"
    if "hm_get (vr_by_device (ct_voicemail c)) d = Some t" for d t
    using voicemail_okD(2) [OF okD(6) that] by simp
qed

lemma claim_ringing_forward_ok:
  assumes "controller_ok c" and "claim_ringing_forward p c = (x, c')"
  shows "controller_ok c'"
proof (cases "c' = c")
  case False
  with assms(2) obtain call where "pbx_call_of c p = Some call" "pc_state call = StRinging"
    "c' = c\<lparr>ct_redirect_claims := List.insert p (ct_redirect_claims c)\<rparr>"
    by (auto simp: claim_ringing_forward_def split: if_splits option.splits)
  with claim_redirect_ok [OF assms(1), of p call] show ?thesis by simp
qed (use assms(1) in simp)

lemma forward_ringing_call_ok:
  assumes ok: "controller_ok c" and run: "forward_ringing_call p c = (es, c')"
  shows "controller_ok c'"
proof (cases "c' = c")
  case False
  with run obtain call where "pbx_call_of c p = Some call" "pc_state call = StRinging" "c' = snd (remove_pbx_call p c)"
    by (auto simp: forward_ringing_call_def split: if_splits option.splits)
  with remove_pbx_call_ok [OF ok ringing_unbarged [OF ok]] show ?thesis by blast
qed (use ok in simp)

lemma complete_ringing_forward_ok:
  assumes ok: "controller_ok c" and run: "complete_ringing_forward p c = (es, c')"
    and "voicemail_for_pbx (ct_voicemail c) p = None"
  shows "controller_ok c'"
  using run ok forward_ringing_call_ok [OF unclaim_redirect_ok [OF ok assms(3)]]
  by (auto simp: complete_ringing_forward_def split: if_splits)

lemma cancel_inbound_offer_ok:
  assumes ok: "controller_ok c" and run: "cancel_inbound_offer k c = (x, c')"
  shows "controller_ok c'"
proof (cases "c' = c")
  case False
  from run False obtain a call where a: "appearance_for_call c k = Some a" and call: "pbx_call_of c (ap_pbx_id a) = Some call"
    and guards: "ap_pbx_id a \<notin> set (ct_redirect_claims c)" "pc_state call = StRinging"
    unfolding cancel_inbound_offer_def by (auto split: option.splits if_splits)
  define c0 where "c0 = c\<lparr>ct_pending_auto_answers := hm_remove k (ct_pending_auto_answers c)\<rparr>"
  let ?c1 = "snd (remove_appearance (ap_id a) c0)"
  have ok0: "controller_ok c0" unfolding c0_def by (rule controller_ok_cong [OF ok]) (simp_all add: controller_okD(9) [OF ok])
  have un: "unclaimed c0 (ap_pbx_id a)" using ringing_unbarged [OF ok call guards(2)] guards(1) by (simp add: unclaimed_def c0_def)
  have ok1: "controller_ok ?c1"
    by (rule remove_unclaimed_appearance_ok [OF ok0 un])
      (use appearance_for_owned(1) [OF controller_okD(2) [OF ok] a] in \<open>simp_all add: c0_def\<close>)
  have "c' = ?c1 \<or> (\<exists>call'. pbx_call_of ?c1 (ap_pbx_id a) = Some call' \<and> pc_appearance_ids call' = []
      \<and> c' = ?c1\<lparr>ct_registry := (ct_registry ?c1)\<lparr>rg_pbx := hm_remove (ap_pbx_id a) (rg_pbx (ct_registry ?c1))\<rparr>\<rparr>)"
    using run False a call guards unfolding cancel_inbound_offer_def
    by (auto simp: Let_def c0_def split: option.splits if_splits)
  with ok1 remove_empty_call_ok [OF ok1] un show ?thesis by (auto simp: unclaimed_def)
qed (use ok in simp)

subsection \<open>Voicemail\<close>

lemma voicemail_change_ok:
  assumes ok: "controller_ok c" and "voicemail_inv v"
    and vm: "\<And>d t. hm_get (vr_by_device v) d = Some t \<Longrightarrow> vm_pbx_call_id t \<in> set (ct_redirect_claims c)"
      "\<And>d t. hm_get (vr_by_device v) d = Some t \<Longrightarrow>
        \<exists>a. appearance_for_call c (vm_handset_call_id t) = Some a \<and> ap_pbx_id a = vm_pbx_call_id t \<and> ap_device_id a = d"
  shows "controller_ok (c\<lparr>ct_voicemail := v\<rparr>)" (is "controller_ok ?c")
proof -
  note okD = controller_okD [OF ok]
  have sh: "shows_call ?c = shows_call c" by (simp add: fun_eq_iff shows_call_def)
  have "devices_ok ?c" using okD(4) unfolding devices_ok_def sh by simp
  moreover have "redirects_ok ?c" using okD(5) unfolding redirects_ok_def by simp
  moreover have "voicemail_ok ?c" by (rule voicemail_okI) (use assms(2) vm in simp_all)
  moreover have "claims_ok ?c" using okD(7) unfolding claims_ok_def by simp
  moreover have "barges_ok ?c" using okD(8) unfolding barges_ok_def group_ok_def session_ok_def by simp
  ultimately show ?thesis using okD(1,9) by (simp add: controller_ok_def)
qed

lemma voicemail_claimed_executes:
  assumes "voicemail_claim d k p action target r = (Inr t, r')"
  shows "hm_get (vr_by_device r) d = None" "vm_device_id t = d" "vm_handset_call_id t = k" "vm_pbx_call_id t = p"
    "\<exists>oper. voicemail_begin_execution d (vm_id t) r' = (Inr oper, r'\<lparr>vr_by_device := hm_insert d (t\<lparr>vm_phase := Executing\<rparr>) (vr_by_device r')\<rparr>)"
    "vr_by_device r' = hm_insert d t (vr_by_device r)"
  using assms by (auto simp: voicemail_claim_def voicemail_begin_execution_def voicemail_exact_def Let_def hm_contains_def
    split: if_splits option.splits)

lemma begin_voicemail_claim_ok:
  assumes ok: "controller_ok c" and a: "appearance_for_call c (ap_sccp_id a) = Some a"
    and call: "pbx_call_of c (ap_pbx_id a) = Some call" "pc_state call = StRinging"
    and run: "begin_voicemail_claim a action target c = (x, c')"
  shows "controller_ok c'"
proof (cases "c' = c")
  case False
  obtain y v where y: "voicemail_claim (ap_device_id a) (ap_sccp_id a) (ap_pbx_id a) action target (ct_voicemail c) = (y, v)"
    by fastforce
  show ?thesis
  proof (cases y)
    case (Inl e)
    with y have "v = ct_voicemail c" by (auto simp: voicemail_claim_def Let_def split: if_splits option.splits)
    with run False y Inl show ?thesis by (auto simp: begin_voicemail_claim_def split: if_splits)
  next
    case (Inr t)
    note cl = voicemail_claimed_executes [OF y [unfolded Inr]]
    from cl(5) obtain oper where ex: "voicemail_begin_execution (ap_device_id a) (vm_id t) v
        = (Inr oper, v\<lparr>vr_by_device := hm_insert (ap_device_id a) (t\<lparr>vm_phase := Executing\<rparr>) (vr_by_device v)\<rparr>)" by blast
    let ?v = "v\<lparr>vr_by_device := hm_insert (ap_device_id a) (t\<lparr>vm_phase := Executing\<rparr>) (vr_by_device v)\<rparr>"
    let ?c = "c\<lparr>ct_redirect_claims := List.insert (ap_pbx_id a) (ct_redirect_claims c)\<rparr>"
    have c': "c' = ?c\<lparr>ct_voicemail := ?v\<rparr>"
      using run False y Inr ex by (auto simp: begin_voicemail_claim_def Let_def split: if_splits)
    note vm = voicemail_okD [OF controller_okD(6) [OF ok]]
    have "voicemail_inv v"
      using voicemail_inv_claim [OF vm(1), of "ap_device_id a" "ap_sccp_id a" "ap_pbx_id a" action target] y by simp
    with voicemail_inv_execution [of v "ap_device_id a" "vm_id t"] ex have inv: "voicemail_inv ?v" by simp
    have new: "d = ap_device_id a \<and> t' = t\<lparr>vm_phase := Executing\<rparr> \<or> hm_get (vr_by_device (ct_voicemail c)) d = Some t'"
      if "hm_get (vr_by_device ?v) d = Some t'" for d t'
      using that unfolding cl(6) by (simp split: if_splits)
    show ?thesis unfolding c'
    proof (rule voicemail_change_ok [OF claim_redirect_ok [OF ok call] inv])
      fix d t' assume "hm_get (vr_by_device ?v) d = Some t'"
      from new [OF this] vm(2) [of d t'] cl(4)
      show "vm_pbx_call_id t' \<in> set (ct_redirect_claims ?c)" by auto
    next
      fix d t' assume "hm_get (vr_by_device ?v) d = Some t'"
      from new [OF this] vm(3) [of d t'] cl(3,4) a
      show "\<exists>a. appearance_for_call ?c (vm_handset_call_id t') = Some a \<and> ap_pbx_id a = vm_pbx_call_id t' \<and> ap_device_id a = d"
        by auto
    qed
  qed
qed (use ok in simp)

lemma begin_immediate_divert_ok:
  assumes ok: "controller_ok c" and run: "begin_immediate_divert d k target c = (x, c')"
  shows "controller_ok c'"
proof (cases "c' = c")
  case False
  from run False obtain a call where a: "appearance_for_call c k = Some a" and call: "pbx_call_of c (ap_pbx_id a) = Some call"
    "pc_state call = StRinging" and vm: "begin_voicemail_claim a ImmediateDivert target c = (x, c')"
    unfolding begin_immediate_divert_def by (auto split: option.splits if_splits)
  from appearance_for_owned(2) [OF controller_okD(2) [OF ok] a] a have "appearance_for_call c (ap_sccp_id a) = Some a" by simp
  from begin_voicemail_claim_ok [OF ok this call vm] show ?thesis .
qed (use ok in simp)

text \<open>A transaction goes, and its redirect with it.\<close>

lemma drop_transaction_ok:
  assumes ok: "controller_ok c" and t: "hm_get (vr_by_device (ct_voicemail c)) d = Some t"
  shows "controller_ok (c\<lparr>ct_voicemail := (ct_voicemail c)\<lparr>vr_by_device := hm_remove d (vr_by_device (ct_voicemail c))\<rparr>,
    ct_redirect_claims := removeAll (vm_pbx_call_id t) (ct_redirect_claims c)\<rparr>)"
proof -
  note vm = voicemail_okD [OF controller_okD(6) [OF ok]]
  let ?v = "(ct_voicemail c)\<lparr>vr_by_device := hm_remove d (vr_by_device (ct_voicemail c))\<rparr>"
  have inv: "voicemail_inv ?v" by (rule voicemail_inv_remove [OF vm(1)])
  have "controller_ok (c\<lparr>ct_voicemail := ?v\<rparr>)"
    by (rule voicemail_change_ok [OF ok inv]) (use vm(2,3) in \<open>auto split: if_splits\<close>)
  moreover have "voicemail_for_pbx ?v (vm_pbx_call_id t) = None"
  proof (rule ccontr)
    assume "voicemail_for_pbx ?v (vm_pbx_call_id t) \<noteq> None"
    then obtain t' where "voicemail_for_pbx ?v (vm_pbx_call_id t) = Some t'" by blast
    then have t': "hm_get (vr_by_device (ct_voicemail c)) (vm_device_id t') = Some t'" "vm_device_id t' \<noteq> d"
      "vm_pbx_call_id t' = vm_pbx_call_id t"
      unfolding voicemail_for_pbx_iff [OF inv] by (auto simp: voicemail_get_def split: if_splits)
    with vm(1) t show False unfolding voicemail_inv_def exclusive_def voicemail_claims_def by blast
  qed
  ultimately show ?thesis using unclaim_redirect_ok [of "c\<lparr>ct_voicemail := ?v\<rparr>" "vm_pbx_call_id t"] by simp
qed

lemma abort_voicemail_ok:
  assumes ok: "controller_ok c" and run: "abort_voicemail d i c = (x, c')"
  shows "controller_ok c'"
proof (cases "hm_get (vr_by_device (ct_voicemail c)) d")
  case None
  with run ok show ?thesis by (simp add: abort_voicemail_def voicemail_cancel_def)
next
  case (Some t)
  with run ok drop_transaction_ok [OF ok Some] show ?thesis
    by (auto simp: abort_voicemail_def voicemail_cancel_def split: if_splits)
qed

lemma voicemail_succeeded_ok:
  assumes ok: "controller_ok c" and run: "voicemail_succeeded d i c = (x, c')"
  shows "controller_ok c'"
proof (cases "c' = c")
  case False
  from run False obtain t where t: "hm_get (vr_by_device (ct_voicemail c)) d = Some t"
    by (auto simp: voicemail_succeeded_def voicemail_get_def split: option.splits)
  let ?c = "c\<lparr>ct_voicemail := (ct_voicemail c)\<lparr>vr_by_device := hm_remove d (vr_by_device (ct_voicemail c))\<rparr>,
    ct_redirect_claims := removeAll (vm_pbx_call_id t) (ct_redirect_claims c)\<rparr>"
  have "c' = snd (remove_pbx_call (vm_pbx_call_id t) ?c)"
    using run False t by (auto simp: voicemail_succeeded_def voicemail_get_def voicemail_commit_def Let_def
        split: option.splits if_splits)
  moreover have "controller_ok (snd (remove_pbx_call (vm_pbx_call_id t) ?c))"
  proof (rule remove_pbx_call_ok [OF drop_transaction_ok [OF ok t]])
    note o = redirects_okD [OF controller_okD(5) [OF ok] voicemail_okD(2) [OF controller_okD(6) [OF ok] t]]
    show "hm_get (ct_barge_groups ?c) (vm_pbx_call_id t) = None" "hm_get (ct_barge_by_pbx ?c) (vm_pbx_call_id t) = None"
      using o(2,3) by simp_all
  qed
  ultimately show ?thesis by simp
qed (use ok in simp)

lemma complete_voicemail_native_ok:
  assumes "controller_ok c" and "complete_voicemail_native d i p c = (x, c')"
  shows "controller_ok c'"
  using assms(2) voicemail_succeeded_ok [OF assms(1), of d i] assms(1)
  by (auto simp: complete_voicemail_native_def split: if_splits prod.splits sum.splits)

end
