(* ===== verification/Call_Histories.thy ===== *)
theory Call_Histories
  imports Call_Endings
begin

text \<open>
  Histories of call control: any sequence of the operations keeps the invariant and so the
  validators silent, the first of several answers wins, a barge can be undone, and three
  histories in which a validator does complain or a rejected operation leaves a trace.
\<close>

section \<open>Inbound offers\<close>

lemma attach_offers_ok:
  assumes "controller_ok c" and "attach_offers p xs c = (offers, c')"
    and "\<exists>call. pbx_call_of c p = Some call \<and> pc_appearance_ids call \<noteq> []"
  shows "controller_ok c'"
  using assms
proof (induction xs arbitrary: c offers)
  case (Cons x xs)
  obtain i c1 where c1: "allocate_appearance_id c = (i, c1)" by fastforce
  have reg: "ct_registry c1 = ct_registry c" and ok1: "controller_ok c1"
    using allocate_ids_fields(2) [of c] allocate_ids_ok(2) [OF Cons.prems(1)] c1 by simp_all
  obtain b c2 where c2: "with_registry (attach_appearance (inbound_call_appearance i p x)) c1 = (b, c2)" by fastforce
  obtain offers' where rest: "attach_offers p xs c2 = (offers', c')"
    using Cons.prems(2) c1 c2 by (auto split: prod.splits)
  from Cons.prems(3) obtain call where call: "pbx_call_of c p = Some call" "pc_appearance_ids call \<noteq> []" by blast
  have fields: "ap_pbx_id (inbound_call_appearance i p x) = p" "ap_state (inbound_call_appearance i p x) = StRinging"
    by (simp_all add: inbound_call_appearance_def new_appearance_def)
  have "controller_ok c2" by (rule attach_ok [OF ok1 c2, of call]) (use call in \<open>simp_all add: fields reg\<close>)
  moreover have "\<exists>call. pbx_call_of c2 p = Some call \<and> pc_appearance_ids call \<noteq> []"
    using c2 call by (auto simp: with_registry_def attach_appearance_def reg fields(1) split: if_splits)
  ultimately show ?case using Cons.IH rest by blast
qed simp

lemma offer_ok:
  assumes ok: "controller_ok c" and run: "offer_inbound_call_with_policy p xs c = (d, c')"
  shows "controller_ok c'"
proof (cases "c' = c")
  case False
  from run False obtain x xs' where xs: "xs = x # xs'" and np: "\<not> hm_contains (rg_pbx (ct_registry c)) p"
    unfolding offer_inbound_call_with_policy_def by (auto split: if_splits list.splits)
  let ?line = "lc_number (lb_line (ib_binding x))"
  obtain n eligible where scr: "screen_candidates c ?line [] [] xs = (n, eligible)" by fastforce
  obtain m ringable fwd where pol: "apply_policy c eligible = (m, ringable, fwd)" by (cases "apply_policy c eligible")
  obtain y others where ring: "ringable = y # others"
    using run False np scr pol unfolding offer_inbound_call_with_policy_def xs by (cases ringable) auto
  obtain i c2 where c2: "allocate_appearance_id (c\<lparr>ct_next_pbx_id := max (ct_next_pbx_id c) (saturating_succ p)\<rparr>) = (i, c2)"
    by fastforce
  have ok2: "controller_ok c2" using allocate_ids_ok(2) [OF claim_pbx_id_ok [OF ok]] c2 by (metis snd_conv)
  let ?ins = "with_registry (insert_pbx_call (inbound_call p ?line (lc_context (lb_line (ib_binding y))))
      (inbound_call_appearance i p y)) c2"
  obtain inserted c3 where c3: "?ins = (inserted, c3)" by fastforce
  have ok3: "controller_ok c3"
    by (rule insert_ok [OF ok2 c3]) (simp_all add: inbound_call_def inbound_call_appearance_def new_appearance_def)
  obtain offers c4 where c4: "attach_offers p others c3 = (offers, c4)" by fastforce
  have "c' = c3 \<or> inserted \<and> c' = c4"
    using run False np scr pol ring c2 c3 c4 unfolding offer_inbound_call_with_policy_def xs
    by (auto simp: Let_def split: if_splits)
  moreover have "controller_ok c4" if inserted
  proof (rule attach_offers_ok [OF ok3 c4])
    from c3 that obtain r' where "insert_pbx_call (inbound_call p ?line (lc_context (lb_line (ib_binding y))))
      (inbound_call_appearance i p y) (ct_registry c2) = (True, r')" "c3 = c2\<lparr>ct_registry := r'\<rparr>"
      by (auto simp: with_registry_def split: prod.splits)
    from this(2) insert_pbx_call_accepted [OF this(1)]
    show "\<exists>call. pbx_call_of c3 p = Some call \<and> pc_appearance_ids call \<noteq> []"
      using attach_appearance_accepted(4) [OF insert_pbx_call_accepted(4) [OF \<open>insert_pbx_call _ _ _ = _\<close>]]
      by (auto simp: inbound_call_def)
  qed
  ultimately show ?thesis using ok3 by blast
qed (use ok in simp)

section \<open>Every history keeps the validators silent\<close>

text \<open>
  What an action may be applied to. The five conditions are those of the operations that
  would otherwise break an invariant: a further appearance is given to a call that can be
  shared, a barging channel finds a free identity, a handset hangup is safe, the hangup of
  a channel is not that of a barging one (which another branch handles), and a redirect
  that voicemail started is not ended behind its back.
\<close>

fun action_safe :: "call_action \<Rightarrow> 'x controller \<Rightarrow> bool" where
  "action_safe (AddAppearance p k b codec) c = shareable c p"
| "action_safe (BargeCall k b codec mode) c = (int (length (rg_pbx (ct_registry c))) < 2 ^ 64 - 1)"
| "action_safe (HangupCall k) c = hangup_safe k c"
| "action_safe (PbxHangupCall p) c = (\<not> hm_contains (ct_barge_by_pbx c) p)"
| "action_safe (CompleteForward p) c = (voicemail_for_pbx (ct_voicemail c) p = None)"
| "action_safe (RollbackForward p) c = (voicemail_for_pbx (ct_voicemail c) p = None)"
| "action_safe _ c = True"

lemma snd_ok:
  assumes "\<And>x c'. f = (x, c') \<Longrightarrow> controller_ok c'"
  shows "controller_ok (snd f)"
  using assms by (cases f) simp

lemma call_apply_ok:
  assumes ok: "controller_ok c" and safe: "action_safe ac c"
  shows "controller_ok (call_apply ac c)"
proof (cases ac)
  case (AddAppearance p k b codec)
  with safe show ?thesis by (auto intro!: snd_ok add_call_appearance_ok [OF ok])
next
  case (BargeCall k b codec mode)
  with safe have "length (rg_pbx (ct_registry c)) < 2 ^ 64 - 1" by simp
  from snd_ok [OF barge_ok [OF ok _ this]] BargeCall show ?thesis by simp
next
  case (HangupCall k)
  with safe show ?thesis by (auto intro!: snd_ok hangup_ok [OF ok])
next
  case (PbxHangupCall p)
  with safe show ?thesis by (auto simp: hm_contains_def intro!: snd_ok pbx_hangup_ok [OF ok])
next
  case (CompleteForward p)
  with safe show ?thesis by (auto intro!: snd_ok complete_ringing_forward_ok [OF ok])
next
  case (RollbackForward p)
  with safe show ?thesis by (auto simp: rollback_ringing_forward_def intro!: unclaim_redirect_ok [OF ok])
next
  case (Register g d) then show ?thesis by (simp add: register_device_ok [OF ok])
next
  case (UpdateCapabilities d g cs) then show ?thesis by (simp add: update_capabilities_ok [OF ok])
next
  case (SelectLine d l) then show ?thesis by (simp add: select_line_ok [OF ok])
next
  case (ToggleSelected d k) then show ?thesis by (simp add: toggle_call_selected_ok [OF ok])
next
  case (BeginAsteriskCall k p b codec) then show ?thesis by (simp add: begin_asterisk_call_ok [OF ok])
next
  case (HoldCall k)
  with hold_keeps(1) [OF ok] show ?thesis by (cases "hold k c") simp
qed (simp_all add: snd_ok [OF begin_phone_call_ok [OF ok]] snd_ok [OF begin_additional_phone_call_ok [OF ok]] snd_ok [OF offer_ok [OF ok]]
    snd_ok [OF resume_ok [OF ok]] snd_ok [OF phone_answer_ok [OF ok]] snd_ok [OF steal_ok [OF ok]]
    snd_ok [OF switch_ok [OF ok]] snd_ok [OF end_barge_ok [OF ok]] snd_ok [OF claim_ringing_forward_ok [OF ok]]
    snd_ok [OF cancel_inbound_offer_ok [OF ok]] snd_ok [OF begin_immediate_divert_ok [OF ok]] snd_ok [OF abort_voicemail_ok [OF ok]]
    snd_ok [OF complete_voicemail_native_ok [OF ok]])

fun safe_history :: "call_action list \<Rightarrow> 'x controller \<Rightarrow> bool" where
  "safe_history [] c = True"
| "safe_history (ac # acs) c = (action_safe ac c \<and> safe_history acs (call_apply ac c))"

lemma safe_history_ok:
  "controller_ok c \<Longrightarrow> safe_history acs c \<Longrightarrow> controller_ok (fold call_apply (take n acs) c)"
proof (induction acs arbitrary: c n)
  case (Cons ac acs)
  then show ?case by (cases n) (simp_all add: call_apply_ok)
qed simp

lemma call_run_ok:
  assumes "safe_history acs (with_digit_timeouts t u :: 'x controller)"
  shows "controller_ok (call_run t u (take n acs) :: 'x controller)"
  unfolding call_run_def by (rule safe_history_ok [OF controller_ok_new assms])

text \<open>
  Whatever the phones and the channels do, in any order, as long as the five
  conditions of \<open>action_safe\<close> hold, no validator of the controller ever complains: the
  indexes of the calls agree, each channel has at most one owner, which is in an owning
  state, phones show calls of their own, and claims, barges and redirects belong to calls
  that are there.
\<close>

theorem call_histories_valid:
  assumes "safe_history acs (with_digit_timeouts t u :: 'x controller)"
  shows "invariant_error (call_run t u (take n acs) :: 'x controller) = None"
  by (rule controller_ok_silent [OF call_run_ok [OF assms]])

definition sample_history :: "call_action list" where
  "sample_history = barged_call @ [HoldCall 2, HangupCall 3, HoldCall 2, SwitchCall ''B'' 3, EndBarge 3 True True True,
     BeginAdditional 4 (sample_binding ''B'' 1) 4 5, HangupCall 4, HangupCall 3,
     OfferInbound 20 [\<lparr>ib_call_id = 7, ib_binding = sample_binding ''A'' 1, ib_codec = 4\<rparr>,
       \<lparr>ib_call_id = 8, ib_binding = sample_binding ''B'' 1, ib_codec = 4\<rparr>], AnswerCall 8, PbxHangupCall 20]"

theorem call_histories_valid_witness:
  "safe_history sample_history (with_digit_timeouts 10 4 :: unit controller)
    \<and> invariant_error (call_run 10 4 (take 21 sample_history) :: unit controller) = None"
proof
  show safe: "safe_history sample_history (with_digit_timeouts 10 4 :: unit controller)" by code_simp
  show "invariant_error (call_run 10 4 (take 21 sample_history) :: unit controller) = None"
    by (rule call_histories_valid [OF safe])
qed

section \<open>The first answer wins\<close>

lemma phone_answer_effect:
  assumes ok: "controller_ok c" and run: "phone_answer k c = (es, c')" and "es \<noteq> []"
  shows "\<exists>winner call call'. appearance_for_call c k = Some winner \<and> pbx_call_of c (ap_pbx_id winner) = Some call
    \<and> pc_state call = StRinging \<and> pbx_call_of c' (ap_pbx_id winner) = Some call'
    \<and> pc_state call' = StConnected \<and> pc_active_appearance call' = Some (ap_id winner)
    \<and> pc_appearance_ids call' = pc_appearance_ids call
    \<and> (\<forall>i a. appearance_of c' i = Some a \<and> ap_pbx_id a = ap_pbx_id winner \<longrightarrow>
         ap_state a = (if i = ap_id winner then StConnected else StRemoteInUse))"
  using run \<open>es \<noteq> []\<close>
proof (rule phone_answer_cases)
  fix winner call c2 held c3 es5 c5
  assume winner: "appearance_for_call c k = Some winner" and call: "pbx_call_of c (ap_pbx_id winner) = Some call"
    and ring: "pc_state call = StRinging" and act: "pc_active_appearance call = None"
    and c2: "c2 = (cancel_auto_answers_for_pbx (ap_pbx_id winner) c)\<lparr>ct_call_waiting_tones := hm_remove k (ct_call_waiting_tones c)\<rparr>"
    and held: "held = [] \<and> c3 = c2 \<or> (\<exists>q. hold q c2 = (held, c3))"
    and loop: "for_appearances (answer_step (ap_id winner)) (pc_appearance_ids call)
      (modify_call (ap_pbx_id winner) (\<lambda>call. call\<lparr>pc_state := StConnected, pc_active_appearance := Some (ap_id winner),
         pc_privacy := (pc_privacy call \<or> ap_privacy winner \<or> device_privacy c2 (ap_device_id winner))\<rparr>) c3) = (es5, c5)"
    and c': "c' = present_owner winner k (c5\<lparr>ct_pending_phone_answers :=
      hm_insert (ap_sccp_id winner) (ap_pbx_id winner) (ct_pending_phone_answers c5)\<rparr>)"
  note c3 = phone_answer_held [OF ok winner call ring c2 held]
  note moved = move_call_quietly [OF c3(1,2) keeps_identity_steps(3) c3(3) refl step_owning(1) _ _ _ _ _ _ _ _ loop]
  have m: "rg_pbx (ct_registry c5) = hm_modify (ap_pbx_id winner) (\<lambda>call. call\<lparr>pc_state := StConnected,
      pc_active_appearance := Some (ap_id winner),
      pc_privacy := (pc_privacy call \<or> ap_privacy winner \<or> device_privacy c2 (ap_device_id winner))\<rparr>) (rg_pbx (ct_registry c3))"
    "same_skeleton (ct_registry c3) (ct_registry c5)"
    "\<And>i. appearance_of c5 i = (if i \<in> set (pc_appearance_ids call)
      then map_option (\<lambda>a. fst (answer_step (ap_id winner) i a)) (appearance_of c3 i) else appearance_of c3 i)"
    by (rule moved(3,4,2); use ring act group_connected [OF c3(1,2)] in simp)+
  have reg: "ct_registry c' = ct_registry c5" by (simp add: c')
  have st: "ap_state a = (if i = ap_id winner then StConnected else StRemoteInUse)"
    if a: "appearance_of c5 i = Some a" "ap_pbx_id a = ap_pbx_id winner" for i a
  proof -
    from same_skeleton_appearance(1) [OF m(2) a(1)] a(2) index_ok_members [OF controller_okD(2) [OF c3(1)] c3(2), of i]
    have "i \<in> set (pc_appearance_ids call)" by auto
    with a(1) show ?thesis unfolding m(3) by (auto simp: answer_step_def)
  qed
  show ?thesis unfolding reg m(1) using winner call ring c3(2) st by simp
qed

text \<open>
  C3. Several phones ring with the same call and one answers: that phone owns the channel
  and is connected, every other presentation of the call shows it as in use elsewhere,
  and no later answer of any of them does anything.
\<close>

theorem first_answer_wins:
  assumes "safe_history acs (with_digit_timeouts t u :: 'x controller)" and "c = (call_run t u acs :: 'x controller)"
    and "phone_answer k c = (es, c')" and "es \<noteq> []"
  shows "\<exists>winner call call'. appearance_for_call c k = Some winner \<and> pbx_call_of c (ap_pbx_id winner) = Some call
    \<and> pc_state call = StRinging \<and> pbx_call_of c' (ap_pbx_id winner) = Some call'
    \<and> pc_state call' = StConnected \<and> pc_active_appearance call' = Some (ap_id winner)
    \<and> pc_appearance_ids call' = pc_appearance_ids call
    \<and> (\<forall>i a. appearance_of c' i = Some a \<and> ap_pbx_id a = ap_pbx_id winner \<longrightarrow>
         ap_state a = (if i = ap_id winner then StConnected else StRemoteInUse))
    \<and> (\<forall>j a. appearance_for_call c' j = Some a \<and> ap_pbx_id a = ap_pbx_id winner \<longrightarrow> phone_answer j c' = ([], c'))"
proof -
  have ok: "controller_ok c" using call_run_ok [OF assms(1), of "length acs"] by (simp add: assms(2))
  from phone_answer_effect [OF ok assms(3,4)] obtain winner call call' where
    w: "appearance_for_call c k = Some winner" "pbx_call_of c (ap_pbx_id winner) = Some call" "pc_state call = StRinging"
    and w': "pbx_call_of c' (ap_pbx_id winner) = Some call'" "pc_state call' = StConnected"
      "pc_active_appearance call' = Some (ap_id winner)" "pc_appearance_ids call' = pc_appearance_ids call"
    and st: "\<forall>i a. appearance_of c' i = Some a \<and> ap_pbx_id a = ap_pbx_id winner \<longrightarrow>
         ap_state a = (if i = ap_id winner then StConnected else StRemoteInUse)" by blast
  have "phone_answer j c' = ([], c')" if "appearance_for_call c' j = Some a" "ap_pbx_id a = ap_pbx_id winner" for j a
    using that w'(1,2) by (simp add: phone_answer_def)
  with w w' st show ?thesis by blast
qed

theorem first_answer_wins_witness:
  "\<exists>winner call call'. appearance_for_call (call_run 10 4 shared_ringing :: unit controller) 3 = Some winner
    \<and> pbx_call_of (call_run 10 4 shared_ringing :: unit controller) (ap_pbx_id winner) = Some call
    \<and> pc_state call = StRinging \<and> pbx_call_of (snd (phone_answer 3 (call_run 10 4 shared_ringing :: unit controller))) (ap_pbx_id winner) = Some call'
    \<and> pc_state call' = StConnected \<and> pc_active_appearance call' = Some (ap_id winner)
    \<and> pc_appearance_ids call' = pc_appearance_ids call"
proof -
  have safe: "safe_history shared_ringing (with_digit_timeouts 10 4 :: unit controller)" by code_simp
  have es: "fst (phone_answer 3 (call_run 10 4 shared_ringing :: unit controller)) \<noteq> []" by code_simp
  from first_answer_wins [OF safe refl surjective_pairing es] show ?thesis by blast
qed

section \<open>Barge and leave\<close>

lemma barge_join_fields:
  assumes "pc_id target = p" and c': "c' = barge_join k codec mode a target bridge new q c"
  shows "ct_registry c' = (ct_registry c)\<lparr>rg_pbx := hm_insert q (barger_call q target) (rg_pbx (ct_registry c)),
      rg_appearances := hm_modify (ap_id a) (\<lambda>a. a\<lparr>ap_state := StBarged, ap_codec := codec, ap_audio := StreamOpening,
        ap_video := close_streams (ap_video a)\<rparr>) (rg_appearances (ct_registry c))\<rparr>"
    "ct_barge_by_handset c' = hm_insert k \<lparr>bs_target_call_id = p, bs_barger_call_id = q, bs_bridge_id = bridge,
       bs_handset_call_id = k, bs_mode = mode\<rparr> (ct_barge_by_handset c)"
    "ct_barge_by_pbx c' = hm_insert q k (ct_barge_by_pbx c)"
    "ct_shared_control_claims c' = (if new then hm_insert p (Barge bridge) (ct_shared_control_claims c) else ct_shared_control_claims c)"
    "ct_barge_groups c' = (if new then hm_insert p \<lparr>bg_bridge_id = bridge, bg_mode = mode, bg_members = [k]\<rparr> (ct_barge_groups c)
       else hm_modify p (\<lambda>g. g\<lparr>bg_members := bg_members g @ [k]\<rparr>) (ct_barge_groups c))"
  using assms(1)
  by (simp_all add: c' barge_join_def Let_def set_call_selected_def select_line_def)

lemma barge_group_undo:
  assumes ok: "controller_ok c" and grp: "if new then hm_get (ct_shared_control_claims c) p = None
      else \<exists>g. hm_get (ct_barge_groups c) p = Some g \<and> bg_bridge_id g = bridge \<and> bg_mode g = mode"
    and fresh: "hm_get (ct_barge_by_handset c) k = None"
    and gs: "ct_barge_groups c1 = (if new then hm_insert p \<lparr>bg_bridge_id = bridge, bg_mode = mode, bg_members = [k]\<rparr> (ct_barge_groups c0)
       else hm_modify p (\<lambda>g. g\<lparr>bg_members := bg_members g @ [k]\<rparr>) (ct_barge_groups c0))"
    and same: "ct_barge_groups c0 = ct_barge_groups c"
  shows "\<exists>g. hm_get (ct_barge_groups c1) p = Some g
    \<and> (if filter (\<lambda>j. j \<noteq> k) (bg_members g) = [] then None else Some (g\<lparr>bg_members := filter (\<lambda>j. j \<noteq> k) (bg_members g)\<rparr>))
      = hm_get (ct_barge_groups c) p"
proof (cases new)
  case True
  with grp no_claim_no_group [OF ok] show ?thesis unfolding gs same by simp
next
  case False
  with grp obtain g0 where g0: "hm_get (ct_barge_groups c) p = Some g0" by auto
  have "group_ok c p g0" by (rule barges_okD(4) [OF controller_okD(8) [OF ok] g0])
  then have "filter (\<lambda>j. j \<noteq> k) (bg_members g0) = bg_members g0" "bg_members g0 \<noteq> []"
    using fresh by (auto simp: group_ok_def filter_id_conv)
  with False g0 show ?thesis unfolding gs same by simp
qed

lemma end_barge_effects:
  assumes ok: "controller_ok c" and s: "hm_get (ct_barge_by_handset c) k = Some s"
    and a: "appearance_for_call c k = Some a" and g: "hm_get (ct_barge_groups c) (bs_target_call_id s) = Some g"
  shows "fst (end_barge_internal k True True True c) =
    [Backend (PbxBarge (BargeLeave (bs_bridge_id s) (bs_barger_call_id s) (filter (\<lambda>j. j \<noteq> k) (bg_members g) = []))),
     Backend (PbxHangup (bs_barger_call_id s)), appearance_state_effect a HsRemoteMultiline True]"
proof -
  from session_facts [OF ok s] obtain call where f: "appearance_of c (ap_id a) = Some a"
    "hm_get (rg_by_sccp (ct_registry c)) k = Some (ap_id a)"
    "pbx_call_of c (bs_target_call_id s) = Some call" "bs_barger_call_id s \<noteq> bs_target_call_id s"
    using a by (metis option.inject)
  have tgt: "bs_target_call_id s \<noteq> bs_barger_call_id s" using f(4) by simp
  show ?thesis
    using s g f(1-3) tgt by (cases "filter (\<lambda>j. j \<noteq> k) (bg_members g) = []")
      (simp_all add: end_barge_internal_def leave_group_def restore_barged_def Let_def hm_contains_def)
qed

text \<open>
  C4. A phone barges into a shared call and leaves again: every PBX call, every session,
  group and claim is what it was, the phone shows the call as in use elsewhere as before,
  and the effects take the barging channel out of the bridge, which they destroy exactly
  if the phone had created it, and hang that channel up.
\<close>

theorem barge_undone:
  assumes "safe_history acs (with_digit_timeouts t u :: 'x controller)" and "c = (call_run t u acs :: 'x controller)"
    and "int (length (rg_pbx (ct_registry c))) < 2 ^ 64 - 1"
    and "barge k b codec mode c = (Inr es, c1)" and "end_barge_internal k True True True c1 = (es', c2)"
  shows "\<exists>a q bridge. appearance_for_call c k = Some a \<and> pbx_call_of c q = None
    \<and> es = [Backend (CreateChannel k q b codec), Backend (PbxBarge (BargeJoin bridge (ap_pbx_id a) q)),
         Handset (BeginMedia (ap_device_id a) k codec)]
    \<and> es' = [Backend (PbxBarge (BargeLeave bridge q (hm_get (ct_barge_groups c) (ap_pbx_id a) = None))),
         Backend (PbxHangup q), Handset (SetCallState (ap_device_id a) k HsRemoteMultiline True)]
    \<and> (\<forall>p. pbx_call_of c2 p = pbx_call_of c p) \<and> (\<forall>j. j \<noteq> k \<longrightarrow> appearance_for_call c2 j = appearance_for_call c j)
    \<and> call_state_of c2 k = call_state_of c k
    \<and> hm_get (ct_barge_by_handset c2) = hm_get (ct_barge_by_handset c) \<and> hm_get (ct_barge_by_pbx c2) = hm_get (ct_barge_by_pbx c)
    \<and> hm_get (ct_barge_groups c2) = hm_get (ct_barge_groups c)
    \<and> hm_get (ct_shared_control_claims c2) = hm_get (ct_shared_control_claims c)"
proof -
  have ok: "controller_ok c" using call_run_ok [OF assms(1), of "length acs"] by (simp add: assms(2))
  have room: "length (rg_pbx (ct_registry c)) < 2 ^ 64 - 1" using assms(3) by simp
  have ok1: "controller_ok c1" by (rule barge_ok [OF ok assms(4) room])
  show ?thesis
  proof (rule barge_cases [OF ok assms(4) room])
    fix a target bridge new q n
    let ?c = "c\<lparr>ct_next_bridge_id := n, ct_next_pbx_id := next_nonzero q\<rparr>"
    assume a: "appearance_for_call c k = Some a" "ap_state a = StRemoteInUse"
      and target: "pbx_call_of c (ap_pbx_id a) = Some target" and q: "pbx_call_of c q = None"
      and fresh: "hm_get (ct_barge_by_handset c) k = None"
      and grp: "if new then hm_get (ct_shared_control_claims c) (ap_pbx_id a) = None
        else \<exists>g. hm_get (ct_barge_groups c) (ap_pbx_id a) = Some g \<and> bg_bridge_id g = bridge \<and> bg_mode g = mode"
      and c1: "c1 = barge_join k codec mode a target bridge new q ?c"
      and es: "es = [Backend (CreateChannel k q b codec), Backend (PbxBarge (BargeJoin bridge (ap_pbx_id a) q)),
         Handset (BeginMedia (ap_device_id a) k codec)]"
    have pid: "pc_id target = ap_pbx_id a" by (rule index_ok_pbx(1) [OF controller_okD(2) [OF ok] target])
    note j = barge_join_fields [OF pid c1, simplified]
    note v = barge_views [OF ok a q j(1)]
    from v(4) obtain a1 where a1: "appearance_for_call c1 k = Some a1" "ap_device_id a1 = ap_device_id a"
      "ap_pbx_id a1 = ap_pbx_id a" by blast
    have sccp: "ap_sccp_id a1 = k" by (rule appearance_for_owned(2) [OF controller_okD(2) [OF ok1] a1(1)])
    let ?s = "\<lparr>bs_target_call_id = ap_pbx_id a, bs_barger_call_id = q, bs_bridge_id = bridge, bs_handset_call_id = k, bs_mode = mode\<rparr>"
    have s: "hm_get (ct_barge_by_handset c1) k = Some ?s" unfolding j(2) by simp
    have "ct_barge_groups ?c = ct_barge_groups c" by simp
    from barge_group_undo [OF ok grp fresh j(5) this]
    obtain g where g: "hm_get (ct_barge_groups c1) (ap_pbx_id a) = Some g"
      and undo: "(if filter (\<lambda>j. j \<noteq> k) (bg_members g) = [] then None
        else Some (g\<lparr>bg_members := filter (\<lambda>j. j \<noteq> k) (bg_members g)\<rparr>)) = hm_get (ct_barge_groups c) (ap_pbx_id a)" by blast
    have last: "filter (\<lambda>j. j \<noteq> k) (bg_members g) = [] \<longleftrightarrow> hm_get (ct_barge_groups c) (ap_pbx_id a) = None"
      unfolding undo [symmetric] by simp
    note r = end_barge_run [OF ok1 s a1(1) _ assms(5), simplified, OF g]
    note e = end_barge_effects [OF ok1 s a1(1), simplified, OF g]
    have noq: "hm_get (ct_barge_by_pbx c) q = None"
      using barge_fresh_channel [OF ok q] .
    have "hm_get (ct_barge_groups c2) = hm_get (ct_barge_groups c)"
      using undo by (auto simp: fun_eq_iff r(6) j(5))
    moreover have "hm_get (ct_shared_control_claims c2) = hm_get (ct_shared_control_claims c)"
      using grp last no_claim_no_group [OF ok] by (auto simp: fun_eq_iff r(7) j(4))
    moreover have "hm_get (ct_barge_by_handset c2) = hm_get (ct_barge_by_handset c)" "hm_get (ct_barge_by_pbx c2) = hm_get (ct_barge_by_pbx c)"
      using fresh noq by (auto simp: fun_eq_iff r(1,2) j(2,3))
    moreover have "pbx_call_of c2 p = pbx_call_of c p" for p
      using end_barge_views(1) [OF ok1 s assms(5), of p] v(2) [of p] q by simp
    moreover have "appearance_for_call c2 i = appearance_for_call c i" if "i \<noteq> k" for i
      using end_barge_views(3) [OF ok1 s assms(5) that] v(3) [OF that] by simp
    moreover have "call_state_of c2 k = call_state_of c k"
      using appearance_for_owned(3) [OF controller_okD(2) [OF ok1] a1(1)] a by (simp add: call_state_of_def appearance_for_def r(3))
    moreover have "es' = [Backend (PbxBarge (BargeLeave bridge q (hm_get (ct_barge_groups c) (ap_pbx_id a) = None))),
         Backend (PbxHangup q), Handset (SetCallState (ap_device_id a) k HsRemoteMultiline True)]"
      using e assms(5) a1(2) sccp last by (simp add: appearance_state_effect_def)
    ultimately show ?thesis using a(1) q es by blast
  qed
qed

theorem barge_undone_witness:
  "\<exists>a q bridge. appearance_for_call (call_run 10 4 (butlast barged_call) :: unit controller) 3 = Some a
    \<and> pbx_call_of (call_run 10 4 (butlast barged_call) :: unit controller) q = None
    \<and> fst (barge 3 (sample_binding ''B'' 1) 4 Directed (call_run 10 4 (butlast barged_call) :: unit controller))
        = Inr [Backend (CreateChannel 3 q (sample_binding ''B'' 1) 4), Backend (PbxBarge (BargeJoin bridge (ap_pbx_id a) q)),
               Handset (BeginMedia (ap_device_id a) 3 4)]"
proof -
  let ?c = "call_run 10 4 (butlast barged_call) :: unit controller"
  have safe: "safe_history (butlast barged_call) (with_digit_timeouts 10 4 :: unit controller)" by code_simp
  have room: "int (length (rg_pbx (ct_registry ?c))) < 2 ^ 64 - 1" by code_simp
  have "case barge 3 (sample_binding ''B'' 1) 4 Directed ?c of (Inl e, c1) \<Rightarrow> False | (Inr es, c1) \<Rightarrow> True" by code_simp
  then obtain es c1 where run: "barge 3 (sample_binding ''B'' 1) 4 Directed ?c = (Inr es, c1)"
    by (auto split: prod.splits sum.splits)
  from barge_undone [OF safe refl room run surjective_pairing] run show ?thesis by (metis fst_conv)
qed

section \<open>Where the validators do complain\<close>

text \<open>
  The two conditions on a handset hangup are needed. When the owner of a call hangs up
  while another phone barges into it, the session, the group and the barging channel stay
  behind without their presentation, and no effect ends that channel; the hangup of the
  target's channel that follows finds no call and returns nothing, so that its effects,
  which would end it, are dropped. When a phone among several that ring hangs up while its
  own voicemail redirect runs, the transaction refers to a handset call that is not there.
\<close>

theorem hangup_conditions_needed:
  "(let c = (call_run 10 4 barged_call :: unit controller); (es, c') = hangup_ordinary 2 True c
    in invariant_error c = None \<and> \<not> hangup_safe 2 c
      \<and> es = [Backend (PbxHangup 8), Handset (SetCallState ''A'' 2 HsOnHook True), Handset (SetCallState ''B'' 3 HsOnHook True)]
      \<and> hm_contains (ct_barge_by_handset c') 3 \<and> hm_contains (rg_pbx (ct_registry c')) 9
      \<and> invariant_error c' = Some (InconsistentBarge 3)
      \<and> fst (pbx_hangup_ordinary 8 c') = None)
   \<and> (let c = (call_run 10 4 (shared_ringing @ [DivertCall ''A'' 2
         \<lparr>vt_context = VoicemailContext (ascii ''default''), vt_destination = VoicemailDestination (ascii ''100'')\<rparr>]) :: unit controller);
       (es, c') = hangup_ordinary 2 True c
    in invariant_error c = None \<and> \<not> hangup_safe 2 c \<and> invariant_error c' = Some (VoicemailOwnership 1))"
  by code_simp

text \<open>
  A phone that collects digits switches to a ringing call which is being forwarded. The
  call it had is held before the answer fails, and the rejection drops the effects that
  would have told the channel.
\<close>

theorem refused_switch_holds:
  "let c = (call_run 10 4 (shared_ringing @ [BeginPhoneCall 4 (sample_binding ''A'' 1) 4 0, ClaimForward 8]) :: unit controller);
       (x, c') = switch_active_call ''A'' 2 c
   in call_state_of c 4 = Some StCollecting \<and> x = Inl SwitchConflict \<and> call_state_of c' 4 = Some StHeld"
  by code_simp

end
