(* ===== verification/Offer_Policy.thy ===== *)
theory Offer_Policy
  imports Call_Histories
begin

text \<open>
  Inbound calls against a specification of the policy: who passes the screen, whose phone
  rings, rejects or forwards, and what the controller keeps of a call that is offered.
\<close>

section \<open>Screening\<close>

definition button_of :: "inbound_appearance \<Rightarrow> device_id \<times> u32" where
  "button_of x = (lb_device_id (ib_binding x), lb_line_instance (ib_binding x))"

text \<open>The candidates that pass the screen, and how many do not.\<close>

lemma screen_candidates_facts:
  assumes "screen_candidates c line calls buttons xs = (n, ok)"
  shows "n + length ok = length xs" "set ok \<subseteq> set xs" "distinct (map ib_call_id ok)" "distinct (map button_of ok)"
    "set (map ib_call_id ok) \<inter> set calls = {}" "set (map button_of ok) \<inter> set buttons = {}"
    "\<forall>x \<in> set ok. lc_number (lb_line (ib_binding x)) = line \<and> hm_contains (ct_devices c) (lb_device_id (ib_binding x))
       \<and> la_ring_mode (lb_appearance (ib_binding x)) \<noteq> Disabled \<and> \<not> hm_contains (rg_by_sccp (ct_registry c)) (ib_call_id x)"
proof -
  have "n + length ok = length xs \<and> set ok \<subseteq> set xs \<and> distinct (map ib_call_id ok) \<and> distinct (map button_of ok)
    \<and> set (map ib_call_id ok) \<inter> set calls = {} \<and> set (map button_of ok) \<inter> set buttons = {}
    \<and> (\<forall>x \<in> set ok. lc_number (lb_line (ib_binding x)) = line \<and> hm_contains (ct_devices c) (lb_device_id (ib_binding x))
       \<and> la_ring_mode (lb_appearance (ib_binding x)) \<noteq> Disabled \<and> \<not> hm_contains (rg_by_sccp (ct_registry c)) (ib_call_id x))"
    using assms
  proof (induction c line calls buttons xs arbitrary: n ok rule: screen_candidates.induct)
    case (2 c line calls buttons x xs)
    show ?case
    proof (cases "lc_number (lb_line (ib_binding x)) \<noteq> line \<or> \<not> hm_contains (ct_devices c) (lb_device_id (ib_binding x))
        \<or> la_ring_mode (lb_appearance (ib_binding x)) = Disabled \<or> hm_contains (rg_by_sccp (ct_registry c)) (ib_call_id x)
        \<or> ib_call_id x \<in> set calls")
      case True
      with "2.prems" obtain n' where "screen_candidates c line calls buttons xs = (n', ok)" "n = Suc n'"
        by (auto simp: Let_def split: prod.splits)
      with "2.IH"(1) [OF refl refl True] show ?thesis by auto
    next
      case out: False
      show ?thesis
      proof (cases "button_of x \<in> set buttons")
        case True
        with "2.prems" out obtain n' where "screen_candidates c line (ib_call_id x # calls) buttons xs = (n', ok)" "n = Suc n'"
          by (auto simp: Let_def button_of_def split: prod.splits)
        with "2.IH"(2) [OF refl refl out] True show ?thesis by (auto simp: button_of_def)
      next
        case False
        with "2.prems" out obtain ok' where "screen_candidates c line (ib_call_id x # calls) (button_of x # buttons) xs = (n, ok')"
          "ok = x # ok'" by (auto simp: Let_def button_of_def split: prod.splits)
        with "2.IH"(3) [OF refl refl out] False out show ?thesis by (auto simp: button_of_def)
      qed
    qed
  qed simp
  then show "n + length ok = length xs" "set ok \<subseteq> set xs" "distinct (map ib_call_id ok)" "distinct (map button_of ok)"
    "set (map ib_call_id ok) \<inter> set calls = {}" "set (map button_of ok) \<inter> set buttons = {}"
    "\<forall>x \<in> set ok. lc_number (lb_line (ib_binding x)) = line \<and> hm_contains (ct_devices c) (lb_device_id (ib_binding x))
       \<and> la_ring_mode (lb_appearance (ib_binding x)) \<noteq> Disabled \<and> \<not> hm_contains (rg_by_sccp (ct_registry c)) (ib_call_id x)"
    by blast+
qed

section \<open>Policy\<close>

definition features_of :: "'x controller \<Rightarrow> device_id \<Rightarrow> device_feature_state" where
  "features_of c d = (case hm_get (ct_features c) d of None \<Rightarrow> device_feature_state_default | Some f \<Rightarrow> f)"

text \<open>What the features of its device make of a candidate.\<close>

definition rejects :: "'x controller \<Rightarrow> inbound_appearance \<Rightarrow> bool" where
  "rejects c x \<longleftrightarrow> df_dnd (features_of c (lb_device_id (ib_binding x))) = DndReject"

definition route_of :: "'x controller \<Rightarrow> inbound_appearance \<Rightarrow> (forwarding_destination \<times> forwarding_route_reason) option" where
  "route_of c x = forwarding_route c (lb_device_id (ib_binding x)) (df_forwarding (features_of c (lb_device_id (ib_binding x))))"

definition rings :: "'x controller \<Rightarrow> inbound_appearance \<Rightarrow> bool" where
  "rings c x \<longleftrightarrow> \<not> rejects c x \<and> route_of c x = None"

definition presented :: "'x controller \<Rightarrow> inbound_appearance \<Rightarrow> inbound_appearance" where
  "presented c x = (if df_dnd (features_of c (lb_device_id (ib_binding x))) = DndSilent then silence x else x)"

lemma presented_fields [simp]:
  "ib_call_id (presented c x) = ib_call_id x" "lb_device_id (ib_binding (presented c x)) = lb_device_id (ib_binding x)"
  by (simp_all add: presented_def silence_def)

lemma apply_policy_eq:
  "apply_policy c xs = (length (filter (rejects c) xs), map (presented c) (filter (rings c) xs),
     map (\<lambda>x. (presented c x, the (route_of c x))) (filter (\<lambda>x. \<not> rejects c x \<and> route_of c x \<noteq> None) xs))"
proof (induction xs)
  case (Cons x xs)
  let ?d = "lb_device_id (ib_binding x)"
  show ?case
    using Cons by (auto simp: Let_def rings_def rejects_def route_of_def presented_def features_of_def [symmetric] split: option.split)
qed simp

section \<open>Presentation\<close>

lemma allocate_appearance_fresh:
  assumes "length (rg_appearances (ct_registry c)) < 2 ^ 64 - 1" and "allocate_appearance_id c = (i, c')"
  shows "appearance_of c i = None" "ct_registry c' = ct_registry c"
proof -
  let ?used = "map fst (rg_appearances (ct_registry c))"
  have "i = fst (allocate_free (length ?used) (ct_next_appearance_id c) ?used)"
    using assms(2) by (simp add: allocate_appearance_id_def Let_def split: prod.splits)
  with allocate_free_fresh [of ?used] assms(1) show "appearance_of c i = None" by (simp add: map_of_eq_None_iff)
  show "ct_registry c' = ct_registry c" using allocate_ids_fields(2) [of c] assms(2) by simp
qed

text \<open>The appearance of an offered candidate.\<close>

definition shows_offer :: "'x controller \<Rightarrow> pbx_call_id \<Rightarrow> inbound_appearance \<Rightarrow> bool" where
  "shows_offer c p x \<longleftrightarrow> (\<exists>a. appearance_for_call c (ib_call_id x) = Some a \<and> ap_pbx_id a = p \<and> ap_state a = StRinging
     \<and> ap_device_id a = lb_device_id (ib_binding x) \<and> ap_ring_mode a = la_ring_mode (lb_appearance (ib_binding x)))"

lemma inbound_call_appearance_fields [simp]:
  "ap_id (inbound_call_appearance i p x) = i" "ap_sccp_id (inbound_call_appearance i p x) = ib_call_id x"
  "ap_pbx_id (inbound_call_appearance i p x) = p" "ap_device_id (inbound_call_appearance i p x) = lb_device_id (ib_binding x)"
  "ap_state (inbound_call_appearance i p x) = StRinging"
  "ap_ring_mode (inbound_call_appearance i p x) = la_ring_mode (lb_appearance (ib_binding x))"
  by (simp_all add: inbound_call_appearance_def new_appearance_def)

definition offered_call :: "'x controller \<Rightarrow> pbx_call_id \<Rightarrow> rust_str \<Rightarrow> bool" where
  "offered_call c p line \<longleftrightarrow> (\<exists>call. pbx_call_of c p = Some call \<and> pc_state call = StRinging \<and> pc_active_appearance call = None
     \<and> pc_direction call = Inbound \<and> pc_line call = line \<and> pc_appearance_ids call \<noteq> [])"

lemma attach_offers_all:
  assumes "controller_ok c" and "offered_call c p line" and "length (rg_appearances (ct_registry c)) + length xs < 2 ^ 64 - 1"
    and "distinct (map ib_call_id xs)" and "\<forall>x \<in> set xs. hm_get (rg_by_sccp (ct_registry c)) (ib_call_id x) = None"
    and "attach_offers p xs c = (offers, c')"
  shows "map io_call_id offers = map ib_call_id xs \<and> offered_call c' p line \<and> (\<forall>x \<in> set xs. shows_offer c' p x)
    \<and> (\<forall>k a. appearance_for_call c k = Some a \<longrightarrow> appearance_for_call c' k = Some a)"
  using assms
proof (induction xs arbitrary: c offers)
  case (Cons x xs)
  obtain i c1 where c1: "allocate_appearance_id c = (i, c1)" by fastforce
  have fresh: "appearance_of c i = None" and reg: "ct_registry c1 = ct_registry c"
    using allocate_appearance_fresh [OF _ c1] Cons.prems(3) by simp_all
  have ok1: "controller_ok c1" using allocate_ids_ok(2) [OF Cons.prems(1)] c1 by simp
  from Cons.prems(2) obtain call where call: "pbx_call_of c p = Some call" "pc_appearance_ids call \<noteq> []"
    and off: "pc_state call = StRinging" "pc_active_appearance call = None" "pc_direction call = Inbound" "pc_line call = line"
    unfolding offered_call_def by blast
  let ?a = "inbound_call_appearance i p x :: 'a call_appearance"
  obtain r where att: "attach_appearance ?a (ct_registry c) = (True, r)"
    using fresh call(1) Cons.prems(5) by (simp add: attach_appearance_def hm_contains_def)
  define c2 where "c2 = c1\<lparr>ct_registry := r\<rparr>"
  have with2: "with_registry (attach_appearance ?a) c1 = (True, c2)" by (simp add: with_registry_def reg att c2_def)
  note acc = attach_appearance_accepted [OF att]
  obtain offers' where rest: "attach_offers p xs c2 = (offers', c')" and offers: "offers = inbound_offer_of c2 x # offers'"
    using Cons.prems(6) c1 with2 by (auto split: prod.splits)
  have ok2: "controller_ok c2" by (rule attach_ok [OF ok1 with2, of call]) (use call in \<open>simp_all add: reg\<close>)
  have off2: "offered_call c2 p line"
    using call off unfolding offered_call_def by (simp add: c2_def acc(4))
  have "length (rg_appearances (ct_registry c2)) \<le> Suc (length (rg_appearances (ct_registry c)))"
    using fresh by (simp add: c2_def acc(4) hm_length_insert)
  with Cons.prems(3) have room: "length (rg_appearances (ct_registry c2)) + length xs < 2 ^ 64 - 1" by simp
  have ids: "\<forall>y \<in> set xs. hm_get (rg_by_sccp (ct_registry c2)) (ib_call_id y) = None"
    using Cons.prems(4,5) by (auto simp: c2_def acc(4) image_iff)
  have keep: "appearance_for_call c2 k = Some b" if "appearance_for_call c k = Some b" for k b
    using attach_keeps [OF controller_okD(2) [OF Cons.prems(1)] att that] by (simp add: c2_def)
  have self: "appearance_for_call c2 (ib_call_id x) = Some ?a"
    by (simp add: c2_def acc(4) appearance_for_def)
  note ih = Cons.IH [OF ok2 off2 room _ ids rest]
  have "distinct (map ib_call_id xs)" using Cons.prems(4) by simp
  note ih = ih [OF this]
  have "shows_offer c' p x" using ih self unfolding shows_offer_def by force
  with ih keep show ?case by (simp add: offers inbound_offer_of_def)
qed simp

text \<open>A new call with a first candidate, after screening and policy.\<close>

lemma offer_unfold:
  assumes "\<not> hm_contains (rg_pbx (ct_registry c)) p" and "xs = x0 # xs'" and "line = lc_number (lb_line (ib_binding x0))"
    and "screen_candidates c line [] [] xs = (n, eligible)"
  shows "offer_inbound_call_with_policy p xs c =
    (case map (presented c) (filter (rings c) eligible) of
       [] \<Rightarrow> (unanswered_disposition c line n (length eligible) (length (filter (rejects c) eligible))
           (map (\<lambda>x. (presented c x, the (route_of c x))) (filter (\<lambda>x. \<not> rejects c x \<and> route_of c x \<noteq> None) eligible)), c)
     | y # ys \<Rightarrow>
         if incoming_calls c line \<ge> incoming_limit c line then (OfferUnavailable IncomingLimit, c)
         else
           let (i, c2) = allocate_appearance_id (c\<lparr>ct_next_pbx_id := max (ct_next_pbx_id c) (saturating_succ p)\<rparr>);
               (inserted, c3) = with_registry (insert_pbx_call (inbound_call p line (lc_context (lb_line (ib_binding y))))
                 (inbound_call_appearance i p y)) c2
           in if \<not> inserted then (OfferUnavailable OfferConflict, c3)
              else let (offers, c4) = attach_offers p ys c3 in (OfferTo (inbound_offer_of c3 y # offers), c4))"
  using assms(1,4) unfolding offer_inbound_call_with_policy_def assms(2) list.case assms(3) [symmetric]
  by (cases "filter (rings c) eligible") (simp_all add: apply_policy_eq Let_def del: screen_candidates.simps)

lemma offer_rings:
  assumes ok: "controller_ok c" and room: "length (rg_appearances (ct_registry c)) + length xs < 2 ^ 64 - 1"
    and p: "\<not> hm_contains (rg_pbx (ct_registry c)) p" and xs: "xs = x0 # xs'"
    and line: "line = lc_number (lb_line (ib_binding x0))" and scr: "screen_candidates c line [] [] xs = (n, eligible)"
    and ring: "filter (rings c) eligible = y # ys" and limit: "incoming_calls c line < incoming_limit c line"
  shows "\<exists>offers c'. offer_inbound_call_with_policy p xs c = (OfferTo offers, c')
    \<and> map io_call_id offers = map ib_call_id (y # ys) \<and> offered_call c' p line \<and> (\<forall>x \<in> set (y # ys). shows_offer c' p (presented c x))"
proof -
  note sf = screen_candidates_facts [OF scr]
  let ?c1 = "c\<lparr>ct_next_pbx_id := max (ct_next_pbx_id c) (saturating_succ p)\<rparr>"
  obtain i c2 where c2: "allocate_appearance_id ?c1 = (i, c2)" by fastforce
  have fresh: "appearance_of c i = None" and reg: "ct_registry c2 = ct_registry c"
    using allocate_appearance_fresh [OF _ c2] room by simp_all
  have ok2: "controller_ok c2" using allocate_ids_ok(2) [OF claim_pbx_id_ok [OF ok]] c2 by (metis snd_conv)
  have sub: "set (y # ys) \<subseteq> set eligible" unfolding ring [symmetric] by auto
  have new: "hm_get (rg_by_sccp (ct_registry c)) (ib_call_id x) = None" if "x \<in> set (y # ys)" for x
    using sf(7) sub that by (auto simp: hm_contains_def)
  have "distinct (map ib_call_id (filter (rings c) eligible))" by (rule distinct_map_filter [OF sf(3)])
  then have dist: "distinct (map ib_call_id (y # ys))" unfolding ring .
  let ?y = "presented c y" and ?ys = "map (presented c) ys"
  define call where "call = inbound_call p line (lc_context (lb_line (ib_binding ?y)))"
  let ?a = "inbound_call_appearance i p ?y :: 'a call_appearance"
  have callf: "pc_id call = p" "pc_appearance_ids call = []" "pc_state call = StRinging" "pc_active_appearance call = None"
    "pc_direction call = Inbound" "pc_line call = line" "pc_pending_pickup call = None" by (simp_all add: call_def inbound_call_def)
  obtain r where ins: "insert_pbx_call call ?a (ct_registry c) = (True, r)"
    using p fresh new [of y] callf(1,2) by (simp add: insert_pbx_call_def attach_appearance_def hm_contains_def)
  define c3 where "c3 = c2\<lparr>ct_registry := r\<rparr>"
  have with3: "with_registry (insert_pbx_call call ?a) c2 = (True, c3)" by (simp add: with_registry_def reg ins c3_def)
  have ok3: "controller_ok c3" by (rule insert_ok [OF ok2 with3]) (simp_all add: callf)
  note acc = attach_appearance_accepted(4) [OF insert_pbx_call_accepted(4) [OF ins]]
  have off3: "offered_call c3 p line" unfolding offered_call_def by (simp add: c3_def acc callf)
  have self: "appearance_for_call c3 (ib_call_id y) = Some ?a" by (simp add: c3_def acc appearance_for_def)
  have len: "length eligible \<le> length xs" "length (y # ys) \<le> length eligible"
    using sf(1) unfolding ring [symmetric] by simp_all
  have "length (rg_appearances (ct_registry c3)) = Suc (length (rg_appearances (ct_registry c)))"
    using fresh by (simp add: c3_def acc hm_length_insert hm_contains_def)
  then have room3: "length (rg_appearances (ct_registry c3)) + length ?ys < 2 ^ 64 - 1" using room len by simp
  have ids3: "\<forall>x \<in> set ?ys. hm_get (rg_by_sccp (ct_registry c3)) (ib_call_id x) = None"
    using new dist by (auto simp: c3_def acc image_iff)
  obtain offers c4 where c4: "attach_offers p ?ys c3 = (offers, c4)" by fastforce
  have "distinct (map ib_call_id ?ys)" using dist by (simp add: comp_def)
  note all = attach_offers_all [OF ok3 off3 room3 this ids3 c4]
  have "shows_offer c4 p ?y" using all self unfolding shows_offer_def by force
  moreover have "offer_inbound_call_with_policy p xs c = (OfferTo (inbound_offer_of c3 ?y # offers), c4)"
    using limit c2 with3 c4 unfolding offer_unfold [OF p xs line scr] ring by (simp add: call_def [symmetric])
  ultimately show ?thesis using all by (simp add: inbound_offer_of_def comp_def)
qed

text \<open>
  C2. An inbound call rings exactly at the candidates that pass the screen, whose device
  does not reject calls and has no forward in force, in the order given, silently where
  the device is silent, and only below the limit of the line. It is forwarded only if
  nobody can ring and all devices that do not reject agree on destination and reason. In
  every other case nothing is kept of it.
\<close>

theorem offer_follows_policy:
  assumes "controller_ok c" and "int (length (rg_appearances (ct_registry c)) + length xs) < 2 ^ 64 - 1"
    and "\<not> hm_contains (rg_pbx (ct_registry c)) p" and "xs \<noteq> []" and "line = lc_number (lb_line (ib_binding (hd xs)))"
    and "screen_candidates c line [] [] xs = (n, eligible)" and "offer_inbound_call_with_policy p xs c = (d, c')"
  shows "case d of
      OfferTo offers \<Rightarrow> offers \<noteq> [] \<and> map io_call_id offers = map ib_call_id (filter (rings c) eligible)
        \<and> incoming_calls c line < incoming_limit c line \<and> offered_call c' p line
        \<and> (\<forall>x \<in> set (filter (rings c) eligible). shows_offer c' p (presented c x))
    | ForwardTo binding destination reason \<Rightarrow> c' = c \<and> filter (rings c) eligible = [] \<and> (\<exists>x \<in> set eligible. \<not> rejects c x)
        \<and> (\<forall>x \<in> set eligible. rejects c x \<or> route_of c x = Some (destination, reason))
    | OfferUnavailable reason \<Rightarrow> c' = c \<and> (filter (rings c) eligible = []
        \<or> reason = IncomingLimit \<and> incoming_limit c line \<le> incoming_calls c line)"
proof -
  from assms(4) obtain x0 xs' where xs: "xs = x0 # xs'" by (cases xs) auto
  have line: "line = lc_number (lb_line (ib_binding x0))" using assms(5) xs by simp
  show ?thesis
  proof (cases "filter (rings c) eligible")
    case (Cons y ys)
    show ?thesis
    proof (cases "incoming_calls c line < incoming_limit c line")
      case True
      have "length (rg_appearances (ct_registry c)) + length xs < 2 ^ 64 - 1" using assms(2) by simp
      from offer_rings [OF assms(1) this assms(3) xs line assms(6) Cons True] assms(7) True Cons show ?thesis by auto
    next
      case False
      with assms(7) Cons have "(d, c') = (OfferUnavailable IncomingLimit, c)"
        unfolding offer_unfold [OF assms(3) xs line assms(6)] by simp
      with False show ?thesis by simp
    qed
  next
    case Nil
    let ?f = "map (\<lambda>x. (presented c x, the (route_of c x))) (filter (\<lambda>x. \<not> rejects c x \<and> route_of c x \<noteq> None) eligible)"
    have d: "d = unanswered_disposition c line n (length eligible) (length (filter (rejects c) eligible)) ?f" "c' = c"
      using assms(7) unfolding offer_unfold [OF assms(3) xs line assms(6)] Nil list.map list.case prod.inject by blast+
    have some: "route_of c x \<noteq> None" if "x \<in> set eligible" "\<not> rejects c x" for x
      using Nil that by (auto simp: filter_empty_conv rings_def)
    show ?thesis
    proof (cases "filter (\<lambda>x. \<not> rejects c x \<and> route_of c x \<noteq> None) eligible")
      case e: Nil
      then show ?thesis unfolding d by (simp add: unanswered_disposition_def Nil)
    next
      case (Cons y ys)
      have y: "y \<in> set eligible" "\<not> rejects c y" using arg_cong [OF Cons, of set] by auto
      show ?thesis
      proof (cases "\<forall>x \<in> set (y # ys). route_of c x = route_of c y")
        case True
        obtain dest why where r: "route_of c y = Some (dest, why)" using some [OF y] by (cases "route_of c y") auto
        from True have "\<forall>x \<in> set eligible. rejects c x \<or> route_of c x = Some (dest, why)"
          unfolding Cons [symmetric] r using some by auto
        moreover have "d = ForwardTo (ib_binding (presented c y)) dest why"
          unfolding d Cons using True r by (auto simp: unanswered_disposition_def list_ex_iff)
        ultimately show ?thesis using y Nil d(2) by auto
      next
        case False
        then obtain x where x: "x \<in> set ys" "route_of c x \<noteq> route_of c y" by auto
        have "x \<in> set eligible \<and> \<not> rejects c x" using x(1) arg_cong [OF Cons, of set] by auto
        then have "the (route_of c x) \<noteq> the (route_of c y)" using x(2) some [of x] some [OF y] by (metis option.expand)
        with x(1) have "d = OfferUnavailable ForwardingConflict"
          unfolding d Cons by (cases "the (route_of c x)", cases "the (route_of c y)")
            (force simp: unanswered_disposition_def list_ex_iff)
        with Nil d(2) show ?thesis by simp
      qed
    qed
  qed
qed

text \<open>Three phones share a line; the second is silent and the third rejects calls.\<close>

definition policy_phones :: "call_action list" where
  "policy_phones = [Register 1 ''A'', Register 2 ''B'', Register 3 ''C'']"

definition policy_sample :: "unit controller" where
  "policy_sample = (call_run 10 4 policy_phones)\<lparr>ct_features :=
     [(''B'', device_feature_state_default\<lparr>df_dnd := DndSilent\<rparr>), (''C'', device_feature_state_default\<lparr>df_dnd := DndReject\<rparr>)]\<rparr>"

definition policy_candidates :: "inbound_appearance list" where
  "policy_candidates = map (\<lambda>(k, d). \<lparr>ib_call_id = k, ib_binding = sample_binding d 1, ib_codec = 4\<rparr>) [(5, ''A''), (6, ''B''), (7, ''C'')]"

theorem offer_follows_policy_witness:
  "map ib_call_id (filter (rings policy_sample) policy_candidates) = [5, 6]
   \<and> (case fst (offer_inbound_call_with_policy 30 policy_candidates policy_sample) of
        OfferTo offers \<Rightarrow> map io_call_id offers = [5, 6]
          \<and> offered_call (snd (offer_inbound_call_with_policy 30 policy_candidates policy_sample)) 30 (ascii ''100'')
      | _ \<Rightarrow> False)"
proof -
  have safe: "safe_history policy_phones (with_digit_timeouts 10 4 :: unit controller)" by code_simp
  have ok: "controller_ok policy_sample"
    unfolding policy_sample_def
    by (rule controller_ok_cong [OF call_run_ok [OF safe, of 3, unfolded policy_phones_def, simplified, folded policy_phones_def]])
      (simp_all add: controller_okD(9) [OF call_run_ok [OF safe, of 3, unfolded policy_phones_def, simplified, folded policy_phones_def]])
  have h: "int (length (rg_appearances (ct_registry policy_sample)) + length policy_candidates) < 2 ^ 64 - 1"
    "\<not> hm_contains (rg_pbx (ct_registry policy_sample)) 30" "policy_candidates \<noteq> []"
    "ascii ''100'' = lc_number (lb_line (ib_binding (hd policy_candidates)))"
    "screen_candidates policy_sample (ascii ''100'') [] [] policy_candidates = (0, policy_candidates)"
    by code_simp+
  have ids: "map ib_call_id (filter (rings policy_sample) policy_candidates) = [5, 6]" by code_simp
  have "case fst (offer_inbound_call_with_policy 30 policy_candidates policy_sample) of OfferTo offers \<Rightarrow> True | _ \<Rightarrow> False"
    by code_simp
  with offer_follows_policy [OF ok h surjective_pairing] ids show ?thesis
    by (auto split: inbound_call_disposition.splits)
qed

end
