(* ===== verification/Party.thy ===== *)
theory Party
  imports Call_Registry
begin

text \<open>
  Connected-party metadata, \<^verbatim>\<open>asterisk-module/src/pbx/party.rs\<close>: how a snapshot of the
  parties of a channel is written into the information that a phone shows about its call.
  A name or number whose presentation is restricted is not shown, and what is shown fits
  the field of the message.
\<close>

section \<open>Identities\<close>

type_synonym i32 = "32 word"

text \<open>
  \<open>NameCharset\<close>, \<open>Presentation\<close>, \<open>NumberPlan\<close>, \<open>ConnectedLineSource\<close> and
  \<open>RedirectReasonCode\<close> are wrappers of an \<open>i32\<close>.
\<close>

definition is_allowed :: "i32 \<Rightarrow> bool" where
  "is_allowed presentation \<longleftrightarrow> and presentation 0x60 = 0"

record party_identity =
  pi_name :: "rust_str option"
  pi_number :: "rust_str option"
  pi_name_charset :: i32
  pi_name_presentation :: i32
  pi_number_plan :: i32
  pi_number_presentation :: i32

definition party_identity_default :: party_identity where
  "party_identity_default = \<lparr>pi_name = None, pi_number = None, pi_name_charset = 9, pi_name_presentation = 0,
     pi_number_plan = 0, pi_number_presentation = 0\<rparr>"

definition has_identity :: "party_identity \<Rightarrow> bool" where
  "has_identity i \<longleftrightarrow> pi_name i \<noteq> None \<or> pi_number i \<noteq> None"

definition visible_name :: "party_identity \<Rightarrow> rust_str option" where
  "visible_name i = (if is_allowed (pi_name_presentation i) then pi_name i else None)"

definition visible_number :: "party_identity \<Rightarrow> rust_str option" where
  "visible_number i = (if is_allowed (pi_number_presentation i) then pi_number i else None)"

definition is_restricted :: "party_identity \<Rightarrow> bool" where
  "is_restricted i \<longleftrightarrow> \<not> is_allowed (pi_name_presentation i) \<or> \<not> is_allowed (pi_number_presentation i)"

record party_snapshot =
  ps_caller :: party_identity
  ps_connected :: party_identity
  ps_redirecting_original :: party_identity
  ps_redirecting_from :: party_identity
  ps_redirecting_to :: party_identity
  ps_private_redirecting_original :: party_identity
  ps_private_redirecting_from :: party_identity
  ps_private_redirecting_to :: party_identity
  ps_connected_source :: i32
  ps_redirect_reason :: i32
  ps_original_redirect_reason :: i32
  ps_redirect_count :: u32

definition party_snapshot_default :: party_snapshot where
  "party_snapshot_default = \<lparr>ps_caller = party_identity_default, ps_connected = party_identity_default,
     ps_redirecting_original = party_identity_default, ps_redirecting_from = party_identity_default,
     ps_redirecting_to = party_identity_default, ps_private_redirecting_original = party_identity_default,
     ps_private_redirecting_from = party_identity_default, ps_private_redirecting_to = party_identity_default,
     ps_connected_source = 0, ps_redirect_reason = 0, ps_original_redirect_reason = 0, ps_redirect_count = 0\<rparr>"

section \<open>Writing to the call information\<close>

definition CALL_INFO_NAME_MAX_BYTES :: nat where
  "CALL_INFO_NAME_MAX_BYTES = 39"

definition CALL_INFO_NUMBER_MAX_BYTES :: nat where
  "CALL_INFO_NUMBER_MAX_BYTES = 23"

text \<open>
  \<open>str::is_char_boundary\<close> and slicing up to a boundary: offsets count the bytes of the
  UTF-8 form.
\<close>

fun is_char_boundary :: "rust_str \<Rightarrow> nat \<Rightarrow> bool" where
  "is_char_boundary s 0 = True"
| "is_char_boundary [] (Suc n) = False"
| "is_char_boundary (c # s) (Suc n) = (utf8_width c \<le> Suc n \<and> is_char_boundary s (Suc n - utf8_width c))"

fun slice_to :: "rust_str \<Rightarrow> nat \<Rightarrow> rust_str" where
  "slice_to [] n = []"
| "slice_to (c # s) n = (if utf8_width c \<le> n then c # slice_to s (n - utf8_width c) else [])"

text \<open>The loop that walks back to a boundary; it ends at offset zero at the latest.\<close>

fun floor_boundary :: "rust_str \<Rightarrow> nat \<Rightarrow> nat" where
  "floor_boundary s 0 = 0"
| "floor_boundary s (Suc n) = (if is_char_boundary s (Suc n) then Suc n else floor_boundary s n)"

definition assign_visible :: "nat \<Rightarrow> rust_str option \<Rightarrow> rust_str \<Rightarrow> rust_str" where
  "assign_visible maximum_bytes value destination =
     (case value of
        None \<Rightarrow> destination
      | Some v \<Rightarrow> slice_to v (floor_boundary v (min (text_len v) maximum_bytes)))"

definition clear_restricted :: "party_identity \<Rightarrow> party_identity \<Rightarrow> party_identity \<Rightarrow> call_info \<Rightarrow> call_info" where
  "clear_restricted primary original redirecting info =
     (let info1 = (if is_allowed (pi_name_presentation primary) then info
            else case in_direction info of Inbound \<Rightarrow> info\<lparr>in_calling_name := []\<rparr> | Outbound \<Rightarrow> info\<lparr>in_called_name := []\<rparr>);
          info2 = (if is_allowed (pi_number_presentation primary) then info1
            else case in_direction info1 of Inbound \<Rightarrow> info1\<lparr>in_calling_number := []\<rparr> | Outbound \<Rightarrow> info1\<lparr>in_called_number := []\<rparr>);
          info3 = (if is_allowed (pi_name_presentation original) then info2 else info2\<lparr>in_original_called_name := []\<rparr>);
          info4 = (if is_allowed (pi_number_presentation original) then info3 else info3\<lparr>in_original_called_number := []\<rparr>);
          info5 = (if is_allowed (pi_name_presentation redirecting) then info4 else info4\<lparr>in_last_redirecting_name := []\<rparr>)
      in if is_allowed (pi_number_presentation redirecting) then info5 else info5\<lparr>in_last_redirecting_number := []\<rparr>)"

definition apply_with_primary :: "party_snapshot \<Rightarrow> party_identity \<Rightarrow> call_info \<Rightarrow> call_info" where
  "apply_with_primary snapshot primary current =
     (let original = ps_redirecting_original snapshot; from = ps_redirecting_from snapshot;
          restricted = (is_restricted primary \<or> is_restricted original \<or> is_restricted from);
          updated = (case in_direction current of
            Inbound \<Rightarrow> current\<lparr>
              in_calling_name := assign_visible CALL_INFO_NAME_MAX_BYTES (visible_name primary) (in_calling_name current),
              in_calling_number := assign_visible CALL_INFO_NUMBER_MAX_BYTES (visible_number primary) (in_calling_number current)\<rparr>
          | Outbound \<Rightarrow> current\<lparr>
              in_called_name := assign_visible CALL_INFO_NAME_MAX_BYTES (visible_name primary) (in_called_name current),
              in_called_number := assign_visible CALL_INFO_NUMBER_MAX_BYTES (visible_number primary) (in_called_number current)\<rparr>)
      in clear_restricted primary original from (updated\<lparr>
           in_original_called_name := assign_visible CALL_INFO_NAME_MAX_BYTES (visible_name original) (in_original_called_name updated),
           in_original_called_number := assign_visible CALL_INFO_NUMBER_MAX_BYTES (visible_number original) (in_original_called_number updated),
           in_last_redirecting_name := assign_visible CALL_INFO_NAME_MAX_BYTES (visible_name from) (in_last_redirecting_name updated),
           in_last_redirecting_number := assign_visible CALL_INFO_NUMBER_MAX_BYTES (visible_number from) (in_last_redirecting_number updated),
           in_original_redirect_reason := ps_original_redirect_reason snapshot,
           in_last_redirect_reason := ps_redirect_reason snapshot,
           in_party_restrictions := (if restricted then 0xf else 0)\<rparr>))"

text \<open>The party at the other end: for an inbound call the connected one when it is known, else the caller.\<close>

definition primary_party :: "party_snapshot \<Rightarrow> call_direction \<Rightarrow> party_identity" where
  "primary_party snapshot direction =
     (case direction of
        Inbound \<Rightarrow> if has_identity (ps_connected snapshot) then ps_connected snapshot else ps_caller snapshot
      | Outbound \<Rightarrow> ps_connected snapshot)"

definition apply_to_call_info :: "party_snapshot \<Rightarrow> call_info \<Rightarrow> call_info" where
  "apply_to_call_info snapshot current =
     apply_with_primary snapshot (primary_party snapshot (in_direction current)) current"

definition apply_initial_inbound_to_call_info :: "party_snapshot \<Rightarrow> call_info \<Rightarrow> call_info" where
  "apply_initial_inbound_to_call_info snapshot current = apply_with_primary snapshot (ps_caller snapshot) current"

section \<open>What a phone may show\<close>

text \<open>The slice that is kept is the longest part of the text that fits.\<close>

lemma utf8_width_nonzero [simp]: "utf8_width c \<noteq> 0"
  by (simp add: utf8_width_def)

lemma boundary_slice:
  "is_char_boundary s n \<longleftrightarrow> text_len (slice_to s n) = n"
proof (induction s n rule: is_char_boundary.induct)
  case (1 s)
  then show ?case by (cases s) simp_all
qed auto

lemma slice_to_prefix: "\<exists>rest. s = slice_to s n @ rest"
  by (induction s arbitrary: n) auto

lemma slice_to_bound: "text_len (slice_to s n) \<le> n"
proof (induction s arbitrary: n)
  case (Cons c s)
  from Cons [of "n - utf8_width c"] show ?case by (cases "utf8_width c \<le> n") auto
qed simp

lemma floor_boundary_slice: "slice_to s (floor_boundary s n) = slice_to s n"
proof (induction n)
  case 0
  then show ?case by simp
next
  case (Suc n)
  show ?case
  proof (cases "is_char_boundary s (Suc n)")
    case False
    then have lt: "text_len (slice_to s (Suc n)) \<le> n"
      using slice_to_bound [of s "Suc n"] by (simp add: boundary_slice)
    have "slice_to s n = slice_to s (Suc n)" using lt
    proof (induction s arbitrary: n)
      case (Cons c s)
      show ?case
      proof (cases "utf8_width c \<le> Suc n")
        case True
        with Cons.prems have le: "utf8_width c \<le> n" "text_len (slice_to s (Suc n - utf8_width c)) \<le> n - utf8_width c" by auto
        then have "Suc n - utf8_width c = Suc (n - utf8_width c)" by simp
        with Cons.IH [of "n - utf8_width c"] le True show ?thesis by simp
      qed simp
    qed simp
    with Suc False show ?thesis by simp
  qed simp
qed

lemma slice_min: "slice_to s (min (text_len s) n) = slice_to s n"
proof (induction s arbitrary: n)
  case (Cons c s)
  have "min (utf8_width c + text_len s) n - utf8_width c = min (text_len s) (n - utf8_width c)" if "utf8_width c \<le> n"
    using that by simp
  with Cons [of "n - utf8_width c"] show ?case by simp
qed simp

lemma assign_visible_Some [simp]: "assign_visible n (Some v) d = slice_to v n"
  by (simp add: assign_visible_def floor_boundary_slice slice_min)

lemma assign_visible_None [simp]: "assign_visible n None d = d"
  by (simp add: assign_visible_def)

lemma slice_longest:
  assumes "s = t @ rest" and "text_len t \<le> n"
  shows "\<exists>more. slice_to s n = t @ more"
  using assms
proof (induction t arbitrary: s n)
  case (Cons c t)
  from Cons.IH [of "t @ rest" "n - utf8_width c"] Cons.prems show ?case by auto
qed auto

lemma apply_with_primary_direction [simp]: "in_direction (apply_with_primary s q info) = in_direction info"
  by (simp add: apply_with_primary_def clear_restricted_def Let_def split: call_direction.split)

lemma apply_to_call_info_direction [simp]: "in_direction (apply_to_call_info s info) = in_direction info"
  by (simp add: apply_to_call_info_def)

text \<open>What a field holds after a snapshot: nothing if restricted, else the text cut to fit, else what it held.\<close>

definition presented_text :: "i32 \<Rightarrow> rust_str option \<Rightarrow> nat \<Rightarrow> rust_str \<Rightarrow> rust_str" where
  "presented_text presentation text maximum_bytes old =
     (if \<not> is_allowed presentation then [] else case text of None \<Rightarrow> old | Some t \<Rightarrow> slice_to t maximum_bytes)"

lemma visible_text: "visible_name i = (if is_allowed (pi_name_presentation i) then pi_name i else None)"
  "visible_number i = (if is_allowed (pi_number_presentation i) then pi_number i else None)"
  by (simp_all add: visible_name_def visible_number_def)

text \<open>A snapshot in which every restricted name and number is blank.\<close>

definition conceal :: "party_identity \<Rightarrow> party_identity" where
  "conceal i = i\<lparr>
     pi_name := (if is_allowed (pi_name_presentation i) then pi_name i else map_option (\<lambda>_. []) (pi_name i)),
     pi_number := (if is_allowed (pi_number_presentation i) then pi_number i else map_option (\<lambda>_. []) (pi_number i))\<rparr>"

definition conceal_snapshot :: "party_snapshot \<Rightarrow> party_snapshot" where
  "conceal_snapshot s = s\<lparr>ps_caller := conceal (ps_caller s), ps_connected := conceal (ps_connected s),
     ps_redirecting_original := conceal (ps_redirecting_original s), ps_redirecting_from := conceal (ps_redirecting_from s)\<rparr>"

lemma conceal_simps [simp]:
  "pi_name_presentation (conceal i) = pi_name_presentation i" "pi_number_presentation (conceal i) = pi_number_presentation i"
  "has_identity (conceal i) = has_identity i"
  "presented_text (pi_name_presentation i) (pi_name (conceal i)) = presented_text (pi_name_presentation i) (pi_name i)"
  "presented_text (pi_number_presentation i) (pi_number (conceal i)) = presented_text (pi_number_presentation i) (pi_number i)"
  by (simp_all add: conceal_def has_identity_def presented_text_def fun_eq_iff)

lemma clear_restricted_fields:
  "in_direction (clear_restricted q r f info) = in_direction info"
  "in_calling_name (clear_restricted q r f info) =
     (if in_direction info = Inbound \<and> \<not> is_allowed (pi_name_presentation q) then [] else in_calling_name info)"
  "in_calling_number (clear_restricted q r f info) =
     (if in_direction info = Inbound \<and> \<not> is_allowed (pi_number_presentation q) then [] else in_calling_number info)"
  "in_called_name (clear_restricted q r f info) =
     (if in_direction info = Outbound \<and> \<not> is_allowed (pi_name_presentation q) then [] else in_called_name info)"
  "in_called_number (clear_restricted q r f info) =
     (if in_direction info = Outbound \<and> \<not> is_allowed (pi_number_presentation q) then [] else in_called_number info)"
  "in_original_called_name (clear_restricted q r f info) =
     (if is_allowed (pi_name_presentation r) then in_original_called_name info else [])"
  "in_original_called_number (clear_restricted q r f info) =
     (if is_allowed (pi_number_presentation r) then in_original_called_number info else [])"
  "in_last_redirecting_name (clear_restricted q r f info) =
     (if is_allowed (pi_name_presentation f) then in_last_redirecting_name info else [])"
  "in_last_redirecting_number (clear_restricted q r f info) =
     (if is_allowed (pi_number_presentation f) then in_last_redirecting_number info else [])"
  "in_original_redirect_reason (clear_restricted q r f info) = in_original_redirect_reason info"
  "in_last_redirect_reason (clear_restricted q r f info) = in_last_redirect_reason info"
  "in_party_restrictions (clear_restricted q r f info) = in_party_restrictions info"
  by (cases "in_direction info"; simp add: clear_restricted_def Let_def)+

text \<open>The information that a phone is to show after a snapshot, field by field.\<close>

definition presented_info :: "party_snapshot \<Rightarrow> call_info \<Rightarrow> call_info" where
  "presented_info s info =
     (let q = primary_party s (in_direction info); original = ps_redirecting_original s; from = ps_redirecting_from s;
          name = (\<lambda>i. presented_text (pi_name_presentation i) (pi_name i) 39);
          number = (\<lambda>i. presented_text (pi_number_presentation i) (pi_number i) 23);
          incoming = (in_direction info = Inbound)
      in \<lparr>in_direction = in_direction info,
          in_calling_name = (if incoming then name q (in_calling_name info) else in_calling_name info),
          in_calling_number = (if incoming then number q (in_calling_number info) else in_calling_number info),
          in_called_name = (if incoming then in_called_name info else name q (in_called_name info)),
          in_called_number = (if incoming then in_called_number info else number q (in_called_number info)),
          in_original_called_name = name original (in_original_called_name info),
          in_original_called_number = number original (in_original_called_number info),
          in_last_redirecting_name = name from (in_last_redirecting_name info),
          in_last_redirecting_number = number from (in_last_redirecting_number info),
          in_original_redirect_reason = ps_original_redirect_reason s, in_last_redirect_reason = ps_redirect_reason s,
          in_party_restrictions = (if list_all (\<lambda>i. is_allowed (pi_name_presentation i) \<and> is_allowed (pi_number_presentation i))
              [q, original, from] then 0 else 0xf)\<rparr>)"

lemma apply_to_call_info_exact: "apply_to_call_info s info = presented_info s info"
proof -
  define q where "q = primary_party s (in_direction info)"
  define original where "original = ps_redirecting_original s"
  define redirecting where "redirecting = ps_redirecting_from s"
  note folds = q_def [symmetric] original_def [symmetric] redirecting_def [symmetric]
  note defs = CALL_INFO_NAME_MAX_BYTES_def CALL_INFO_NUMBER_MAX_BYTES_def
  show ?thesis
  proof (cases "in_direction info")
    case Inbound
    show ?thesis
      unfolding apply_to_call_info_def apply_with_primary_def presented_info_def Let_def folds Inbound
      by (rule call_info.equality;
          simp add: clear_restricted_fields Inbound visible_text defs is_restricted_def presented_text_def split: option.split)
  next
    case Outbound
    show ?thesis
      unfolding apply_to_call_info_def apply_with_primary_def presented_info_def Let_def folds Outbound
      by (rule call_info.equality;
          simp add: clear_restricted_fields Outbound visible_text defs is_restricted_def presented_text_def split: option.split)
  qed
qed

lemma presented_info_conceal: "presented_info (conceal_snapshot s) info = presented_info s info"
proof -
  have "primary_party (conceal_snapshot s) d = conceal (primary_party s d)" for d
    by (simp add: primary_party_def conceal_snapshot_def split: call_direction.split)
  moreover have "ps_redirecting_original (conceal_snapshot s) = conceal (ps_redirecting_original s)"
    "ps_redirecting_from (conceal_snapshot s) = conceal (ps_redirecting_from s)"
    "ps_original_redirect_reason (conceal_snapshot s) = ps_original_redirect_reason s"
    "ps_redirect_reason (conceal_snapshot s) = ps_redirect_reason s"
    by (simp_all add: conceal_snapshot_def)
  ultimately show ?thesis by (simp only: presented_info_def Let_def conceal_simps list.pred_inject)
qed


text \<open>The connected party's name is restricted and its number is not.\<close>

definition sample_snapshot :: party_snapshot where
  "sample_snapshot = party_snapshot_default\<lparr>ps_connected := party_identity_default\<lparr>
     pi_name := Some (ascii ''Ann''), pi_name_presentation := 0x20, pi_number := Some (ascii ''2200'')\<rparr>\<rparr>"


end
