(* ===== verification/Dialing.thy ===== *)
theory Dialing
  imports Call_Histories Party
begin

text \<open>
  Dialling, outbound progress, pickup and parking: the operations of \<^verbatim>\<open>Controller\<close> that take a
  call from the first digit to the answer of the far end
  (\<^verbatim>\<open>runtime/controller.rs\<close>, \<^verbatim>\<open>domains/call_registry.rs\<close>) and those of
  \<^verbatim>\<open>domains/parking_pickup.rs\<close>. Digits are collected in the call until the terminator, a
  dial key or the interdigit timeout ends the number; a phone that may overlap starts
  routing with the first digit and sends the later ones to the channel.

  Times are in nanoseconds. The additions to the clock would panic beyond its end, which is
  left unbounded here. Names and privacy of conference participants, which some of these
  operations refresh, are no part of the controller record.
\<close>

section \<open>Settings\<close>

definition from_millis :: "nat \<Rightarrow> duration" where
  "from_millis n = n * 1000000"

definition from_secs :: "nat \<Rightarrow> duration" where
  "from_secs n = n * 1000000000"

definition exceeds_millis :: "duration \<Rightarrow> nat \<Rightarrow> bool" where
  "exceeds_millis d n \<longleftrightarrow> d > from_millis n"

definition at_most_secs :: "duration \<Rightarrow> nat \<Rightarrow> duration" where
  "at_most_secs d n = min d (from_secs n)"

text \<open>Evaluated on integers, whose numerals are binary.\<close>

lemma millis_code [code]:
  "exceeds_millis d n \<longleftrightarrow> int d > int n * 1000000"
  "at_most_secs d n = (if int d \<le> int n * 1000000000 then d else nat (int n * 1000000000))"
proof -
  show "exceeds_millis d n \<longleftrightarrow> int d > int n * 1000000" unfolding exceeds_millis_def from_millis_def by linarith
  have "int d \<le> int n * 1000000000 \<longleftrightarrow> d \<le> n * 1000000000" by linarith
  moreover have "nat (int n * 1000000000) = n * 1000000000" by linarith
  ultimately show "at_most_secs d n = (if int d \<le> int n * 1000000000 then d else nat (int n * 1000000000))"
    by (simp add: at_most_secs_def from_secs_def min_def)
qed

definition set_interdigit_timeout :: "duration \<Rightarrow> 'x controller \<Rightarrow> 'x controller" where
  "set_interdigit_timeout t c = c\<lparr>ct_interdigit := t\<rparr>"

definition set_first_digit_timeout :: "duration \<Rightarrow> 'x controller \<Rightarrow> 'x controller" where
  "set_first_digit_timeout t c = c\<lparr>ct_first_digit := t\<rparr>"

definition set_dial_terminator :: "nat \<Rightarrow> 'x controller \<Rightarrow> 'x controller" where
  "set_dial_terminator ch c = c\<lparr>ct_dial_terminator := ch\<rparr>"

definition set_overlap_devices :: "device_id list \<Rightarrow> 'x controller \<Rightarrow> 'x controller" where
  "set_overlap_devices ds c = c\<lparr>ct_overlap_devices := remdups ds\<rparr>"

definition set_line_dial_tones :: "(rust_str \<times> line_dial_tone_config) list \<Rightarrow> 'x controller \<Rightarrow> 'x controller" where
  "set_line_dial_tones ts c = c\<lparr>ct_line_dial_tones := fold (\<lambda>(l, t) m. hm_insert l t m) ts []\<rparr>"

definition feature_state :: "'x controller \<Rightarrow> device_id \<Rightarrow> device_feature_state" where
  "feature_state c d = (case hm_get (ct_features c) d of None \<Rightarrow> device_feature_state_default | Some f \<Rightarrow> f)"

definition feature_state_mut ::
  "device_id \<Rightarrow> (device_feature_state \<Rightarrow> device_feature_state) \<Rightarrow> 'x controller \<Rightarrow> 'x controller"
where
  "feature_state_mut d f c = c\<lparr>ct_features := hm_insert d (f (feature_state c d)) (ct_features c)\<rparr>"

definition set_dnd :: "device_id \<Rightarrow> dnd_mode \<Rightarrow> 'x controller \<Rightarrow> 'x controller" where
  "set_dnd d mode = feature_state_mut d (\<lambda>f. f\<lparr>df_dnd := mode\<rparr>)"

definition set_forwarding :: "device_id \<Rightarrow> forwarding_state \<Rightarrow> 'x controller \<Rightarrow> 'x controller" where
  "set_forwarding d fw = feature_state_mut d (\<lambda>f. f\<lparr>df_forwarding := fw\<rparr>)"

definition set_feature_button :: "device_id \<Rightarrow> u32 \<Rightarrow> bool \<Rightarrow> 'x controller \<Rightarrow> 'x controller" where
  "set_feature_button d b on = feature_state_mut d (\<lambda>f. f\<lparr>df_buttons := hm_insert b on (df_buttons f)\<rparr>)"

definition set_call_privacy :: "call_id \<Rightarrow> bool \<Rightarrow> 'x controller \<Rightarrow> bool \<times> 'x controller" where
  "set_call_privacy k on c =
     (case appearance_for_call c k of
        None \<Rightarrow> (False, c)
      | Some a \<Rightarrow>
          (case pbx_call_of c (ap_pbx_id a) of
             None \<Rightarrow> (False, c)
           | Some call \<Rightarrow>
               if pc_active_appearance call \<noteq> Some (ap_id a) then (False, c)
               else (True, modify_call (ap_pbx_id a) (\<lambda>call. call\<lparr>pc_privacy := on\<rparr>) c)))"

definition set_call_info :: "call_id \<Rightarrow> call_info \<Rightarrow> 'x controller \<Rightarrow> driver_effect list \<times> 'x controller" where
  "set_call_info k info c =
     (case hm_get (rg_by_sccp (ct_registry c)) k of
        None \<Rightarrow> ([], c)
      | Some i \<Rightarrow>
          (case appearance_of c i of
             None \<Rightarrow> ([], c)
           | Some a \<Rightarrow>
               if ap_info a = info then ([], c)
               else ([Handset (SetCallInfo (ap_device_id a) k info)], write_appearance i (a\<lparr>ap_info := info\<rparr>) c)))"

text \<open>\<open>update\<close> is the closure that is applied to the information of every presentation.\<close>

definition update_info_step ::
  "(call_info \<Rightarrow> call_info) \<Rightarrow> call_appearance_id \<Rightarrow> 'x call_appearance \<Rightarrow> 'x call_appearance \<times> driver_effect list \<times> bool"
where
  "update_info_step update i a =
     (let info = update (ap_info a) in
      if ap_info a = info then (a, [], False)
      else (a\<lparr>ap_info := info\<rparr>, [Handset (SetCallInfo (ap_device_id a) (ap_sccp_id a) info)], False))"

definition update_call_info_by_pbx ::
  "pbx_call_id \<Rightarrow> (call_info \<Rightarrow> call_info) \<Rightarrow> 'x controller \<Rightarrow> driver_effect list \<times> 'x controller"
where
  "update_call_info_by_pbx p update c =
     for_appearances (update_info_step update)
       (case pbx_call_of c p of None \<Rightarrow> [] | Some call \<Rightarrow> pc_appearance_ids call) c"

section \<open>Outbound progress\<close>

text \<open>\<open>appearances.get_mut(id)\<close> followed by a write through the reference.\<close>

definition modify_appearance ::
  "call_appearance_id \<Rightarrow> ('x call_appearance \<Rightarrow> 'x call_appearance) \<Rightarrow> 'x controller \<Rightarrow> 'x controller"
where
  "modify_appearance i f c =
     c\<lparr>ct_registry := (ct_registry c)\<lparr>rg_appearances := hm_modify i f (rg_appearances (ct_registry c))\<rparr>\<rparr>"

definition first_of :: "'a list \<Rightarrow> 'a option" where
  "first_of xs = (case xs of [] \<Rightarrow> None | x # _ \<Rightarrow> Some x)"

definition owner_or_first :: "pbx_call \<Rightarrow> call_appearance_id option" where
  "owner_or_first call =
     (case pc_active_appearance call of Some i \<Rightarrow> Some i | None \<Rightarrow> first_of (pc_appearance_ids call))"

definition advance_transfer_for_pbx :: "pbx_call_id \<Rightarrow> transfer_phase \<Rightarrow> 'x controller \<Rightarrow> 'x controller" where
  "advance_transfer_for_pbx p phase c =
     (case Option.bind (Option.bind (pbx_call_of c p) (\<lambda>call. first_of (pc_appearance_ids call))) (appearance_of c) of
        None \<Rightarrow> c
      | Some a \<Rightarrow> c\<lparr>ct_transfers := advance_for_leg
          \<lparr>leg_handset_call_id = ap_sccp_id a, leg_pbx_call_id = p\<rparr> phase (ct_transfers c)\<rparr>)"

text \<open>The number is shown at the owner of the call and the phase becomes routing.\<close>

definition outbound_route_presentation ::
  "pbx_call_id \<Rightarrow> rust_str \<Rightarrow> 'x controller \<Rightarrow> driver_effect list \<times> 'x controller"
where
  "outbound_route_presentation p destination c =
     (case Option.bind (pbx_call_of c p)
         (\<lambda>call. if pc_direction call = Outbound \<and> pc_state call = StCalling then owner_or_first call else None) of
        None \<Rightarrow> ([], c)
      | Some i \<Rightarrow>
          (case appearance_of c i of
             None \<Rightarrow> ([], c)
           | Some a \<Rightarrow>
               let a' = a\<lparr>ap_info := (ap_info a)\<lparr>in_called_number := destination\<rparr>\<rparr> in
               ([Handset (CommitOutboundCall (ap_device_id a') (ap_sccp_id a') (ap_info a'))],
                modify_call p (\<lambda>call. call\<lparr>pc_outbound_phase := Some PhRouting\<rparr>) (write_appearance i a' c))))"

definition advance_outbound_call_phase ::
  "pbx_call_id \<Rightarrow> outbound_call_phase \<Rightarrow> 'x controller \<Rightarrow> 'x call_appearance option \<times> 'x controller"
where
  "advance_outbound_call_phase p phase c =
     (case pbx_call_of c p of
        None \<Rightarrow> (None, c)
      | Some call \<Rightarrow>
          if pc_direction call \<noteq> Outbound \<or> pc_state call \<noteq> StCalling
            \<or> (case pc_outbound_phase call of None \<Rightarrow> True | Some q \<Rightarrow> phase_rank q \<ge> phase_rank phase)
          then (None, c)
          else
            case Option.bind (owner_or_first call) (appearance_of c) of
              None \<Rightarrow> (None, c)
            | Some a \<Rightarrow> (Some a, modify_call p (\<lambda>call. call\<lparr>pc_outbound_phase := Some phase\<rparr>) c))"

definition pbx_proceeding :: "pbx_call_id \<Rightarrow> 'x controller \<Rightarrow> driver_effect list \<times> 'x controller" where
  "pbx_proceeding p c =
     (case advance_outbound_call_phase p PhProceeding c of
        (None, c1) \<Rightarrow> ([], c1)
      | (Some a, c1) \<Rightarrow> ([Handset (PresentOutboundProceeding (ap_device_id a) (ap_sccp_id a) (ap_info a))], c1))"

definition publish_outbound_ring_out :: "pbx_call_id \<Rightarrow> 'x controller \<Rightarrow> driver_effect list \<times> 'x controller" where
  "publish_outbound_ring_out p c =
     (case pbx_call_of c p of
        None \<Rightarrow> ([], c)
      | Some call \<Rightarrow>
          if pc_direction call \<noteq> Outbound \<or> pc_state call \<noteq> StCalling
            \<or> pc_outbound_identity_stage call \<noteq> IdentityReady \<or> pc_outbound_phase call \<noteq> Some PhRinging
          then ([], c)
          else
            case Option.bind (owner_or_first call) (appearance_of c) of
              None \<Rightarrow> ([], c)
            | Some a \<Rightarrow>
                ([Handset (SetCallState (ap_device_id a) (ap_sccp_id a) HsRingOut False),
                  Handset (SetCallInfo (ap_device_id a) (ap_sccp_id a) (ap_info a))],
                 modify_call p (\<lambda>call. call\<lparr>pc_outbound_identity_stage := RingOutPublished\<rparr>) c))"

definition pbx_ringing :: "pbx_call_id \<Rightarrow> 'x controller \<Rightarrow> driver_effect list \<times> 'x controller" where
  "pbx_ringing p c =
     (case advance_outbound_call_phase p PhRinging c of
        (None, c1) \<Rightarrow> ([], c1)
      | (Some a, c1) \<Rightarrow>
          let (published, c2) = publish_outbound_ring_out p (advance_transfer_for_pbx p Ringing c1)
          in (Handset (PresentOutboundRinging (ap_device_id a) (ap_sccp_id a) (ap_info a)) # published, c2))"

text \<open>The identity of the called party is known; ringing is published once both are.\<close>

definition pbx_remote_identity_ready :: "pbx_call_id \<Rightarrow> 'x controller \<Rightarrow> driver_effect list \<times> 'x controller" where
  "pbx_remote_identity_ready p c =
     (case pbx_call_of c p of
        None \<Rightarrow> ([], c)
      | Some call \<Rightarrow>
          if pc_direction call \<noteq> Outbound \<or> pc_state call \<noteq> StCalling then ([], c)
          else publish_outbound_ring_out p
            (if pc_outbound_identity_stage call \<noteq> RingOutPublished
             then modify_call p (\<lambda>call. call\<lparr>pc_outbound_identity_stage := IdentityReady\<rparr>) c else c))"

definition apply_party_snapshot ::
  "pbx_call_id \<Rightarrow> party_snapshot \<Rightarrow> 'x controller \<Rightarrow> driver_effect list \<times> 'x controller"
where
  "apply_party_snapshot p snapshot c =
     (let (effects, c1) = update_call_info_by_pbx p (apply_to_call_info snapshot) c;
          (published, c2) = pbx_remote_identity_ready p c1
      in (effects @ published, c2))"

datatype outbound_media_mode = Staged | Coupled

definition pbx_progress_with_media_mode ::
  "pbx_call_id \<Rightarrow> bool \<Rightarrow> outbound_media_mode \<Rightarrow> 'x controller \<Rightarrow> driver_effect list \<times> 'x controller"
where
  "pbx_progress_with_media_mode p early_media mode c =
     (case pbx_call_of c p of
        None \<Rightarrow> ([], c)
      | Some call \<Rightarrow>
          if pc_direction call \<noteq> Outbound \<or> pc_state call \<noteq> StCalling
            \<or> (case pc_outbound_phase call of None \<Rightarrow> False | Some q \<Rightarrow> phase_rank q > phase_rank PhProgress)
          then ([], c)
          else
            let publish_proceed = (case pc_outbound_phase call of None \<Rightarrow> True | Some q \<Rightarrow> phase_rank q < phase_rank PhRouting)
            in case owner_or_first call of
                 None \<Rightarrow> ([], c)
               | Some i \<Rightarrow>
                   (case appearance_of c i of
                      None \<Rightarrow> ([], c)
                    | Some a \<Rightarrow>
                        let begin_media = (early_media \<and> ap_audio a = StreamClosed);
                            coupled = (begin_media \<and> mode = Coupled);
                            c1 = (if coupled
                              then (modify_appearance i (\<lambda>a. a\<lparr>ap_audio := StreamOpening, ap_audio_transmit := StreamOpening\<rparr>) c)
                                \<lparr>ct_pending_route_media := List.insert (ap_sccp_id a) (ct_pending_route_media c)\<rparr>
                              else if begin_media then modify_appearance i (\<lambda>a. a\<lparr>ap_audio := StreamOpening\<rparr>) c
                              else c);
                            c2 = modify_call p (\<lambda>call. call\<lparr>pc_outbound_phase := Some PhProgress\<rparr>) c1
                        in ((if publish_proceed
                             then [Handset (SetCallState (ap_device_id a) (ap_sccp_id a) HsProceed False)] else [])
                            @ (if coupled then [Handset (BeginOutboundMedia (ap_device_id a) (ap_sccp_id a) (ap_codec a))]
                               else if begin_media then [Handset (BeginEarlyMedia (ap_device_id a) (ap_sccp_id a) (ap_codec a))]
                               else []),
                            advance_transfer_for_pbx p Ringing c2)))"

definition pbx_progress :: "pbx_call_id \<Rightarrow> bool \<Rightarrow> 'x controller \<Rightarrow> driver_effect list \<times> 'x controller" where
  "pbx_progress p early_media c = pbx_progress_with_media_mode p early_media Staged c"

definition pbx_answer_step ::
  "call_appearance_id \<Rightarrow> call_appearance_id \<Rightarrow> 'x call_appearance \<Rightarrow> 'x call_appearance \<times> driver_effect list \<times> bool"
where
  "pbx_answer_step winner i a =
     (if i = winner
      then (a\<lparr>ap_state := StConnected,
             ap_audio := (case ap_audio a of StreamClosed \<Rightarrow> StreamOpening | s \<Rightarrow> s)\<rparr>, [], False)
      else (a\<lparr>ap_state := StRemoteInUse\<rparr>, [appearance_state_effect a HsRemoteMultiline False], True))"

text \<open>What the winner is told: media is opened unless it is open or on its way.\<close>

definition answer_effects ::
  "'x media_stream_state \<Rightarrow> call_direction option \<Rightarrow> 'x call_appearance \<Rightarrow> driver_effect list"
where
  "answer_effects media direction a =
     (case media of
        StreamOpen _ \<Rightarrow> [appearance_state_effect a HsConnected False]
      | StreamOpening \<Rightarrow> (if direction = Some Outbound then [appearance_state_effect a HsConnected False] else [])
      | StreamClosed \<Rightarrow>
          (if direction = Some Outbound then [Handset (BeginMedia (ap_device_id a) (ap_sccp_id a) (ap_codec a))]
           else [Handset (BeginAnswerMedia (ap_device_id a) (ap_sccp_id a) (ap_codec a))]))"

definition pbx_answer :: "pbx_call_id \<Rightarrow> 'x controller \<Rightarrow> driver_effect list \<times> 'x controller" where
  "pbx_answer p c =
     (if p \<in> set (ct_redirect_claims c) then ([], c)
      else
        case pbx_call_of c p of
          None \<Rightarrow> ([], c)
        | Some call \<Rightarrow>
            if pc_state call = StConnected \<and> pc_active_appearance call \<noteq> None
              \<or> (case pc_outbound_phase call of None \<Rightarrow> False | Some q \<Rightarrow> phase_rank q \<ge> phase_rank PhAnswered)
            then ([], c)
            else
              case owner_or_first call of
                None \<Rightarrow> ([], c)
              | Some winner \<Rightarrow>
                  let prior = appearance_of c winner;
                      privacy = (case prior of None \<Rightarrow> False
                        | Some a \<Rightarrow> ap_privacy a \<or> device_privacy c (ap_device_id a));
                      direction = map_option (\<lambda>a. in_direction (ap_info a)) prior;
                      media = (case prior of None \<Rightarrow> StreamClosed
                        | Some a \<Rightarrow> if ap_sccp_id a \<in> set (ct_pending_route_media c) then StreamOpening else ap_audio a);
                      c1 = modify_call p (\<lambda>call. call\<lparr>pc_state := StConnected, pc_active_appearance := Some winner,
                        pc_privacy := (pc_privacy call \<or> privacy),
                        pc_outbound_phase := (if pc_direction call = Outbound \<and> pc_outbound_phase call \<noteq> None
                          then Some PhAnswered else pc_outbound_phase call)\<rparr>) c;
                      (effects, c2) = for_appearances (pbx_answer_step winner) (pc_appearance_ids call) c1
                  in (case appearance_of c2 winner of
                        None \<Rightarrow> ([], c2)
                      | Some a \<Rightarrow>
                          (effects @ answer_effects media direction a,
                           advance_transfer_for_pbx p Connected (present_owner a (ap_sccp_id a) c2))))"

section \<open>Digits\<close>

fun digit_character :: "digit \<Rightarrow> nat option" where
  "digit_character (Number n) = (if n \<le> 9 then Some (of_char CHR ''0'' + unat n) else None)"
| "digit_character Star = Some (of_char CHR ''*'')"
| "digit_character Pound = Some (of_char CHR ''#'')"
| "digit_character A = Some (of_char CHR ''A'')"
| "digit_character B = Some (of_char CHR ''B'')"
| "digit_character C = Some (of_char CHR ''C'')"
| "digit_character D = Some (of_char CHR ''D'')"
| "digit_character (Unknown _) = None"

text \<open>The characters of a dialled number; letters are made upper case.\<close>

definition dial_symbol :: "nat \<Rightarrow> nat option" where
  "dial_symbol ch =
     (if of_char CHR ''0'' \<le> ch \<and> ch \<le> of_char CHR ''9'' \<or> ch = of_char CHR ''*'' \<or> ch = of_char CHR ''#''
        \<or> of_char CHR ''A'' \<le> ch \<and> ch \<le> of_char CHR ''D''
      then Some ch
      else if of_char CHR ''a'' \<le> ch \<and> ch \<le> of_char CHR ''d'' then Some (ch - 32)
      else None)"

definition dial_symbols :: "rust_str \<Rightarrow> rust_str option" where
  "dial_symbols s = those (map dial_symbol s)"

fun collects :: "call_state \<Rightarrow> bool" where
  "collects StCollecting = True" | "collects StPickupCollecting = True" | "collects StTransferCollecting = True"
| "collects _ = False"

definition complete_pickup ::
  "'x call_appearance \<Rightarrow> rust_str \<Rightarrow> pending_directed_pickup \<Rightarrow> call_id \<Rightarrow> 'x controller \<Rightarrow> driver_effect list \<times> 'x controller"
where
  "complete_pickup a destination pickup k c =
     (let state = (if pp_answer pickup then StConnected else StRinging);
          c1 = modify_call (ap_pbx_id a) (\<lambda>call. call\<lparr>pc_digit_deadline := None, pc_pending_pickup := None,
            pc_state := state, pc_active_appearance := (if pp_answer pickup then Some (ap_id a) else None)\<rparr>) c
      in ([Backend (PbxPickup (DirectedPickup (ap_pbx_id a) (ap_device_id a) k (ap_codec a) destination
            (pp_context pickup) (pp_answer pickup)))],
          modify_appearance (ap_id a) (\<lambda>a. a\<lparr>ap_state := state,
            ap_audio := (if pp_answer pickup then StreamOpening else StreamClosed)\<rparr>) c1))"

definition route_call ::
  "'x call_appearance \<Rightarrow> pbx_call \<Rightarrow> call_id \<Rightarrow> 'x controller \<Rightarrow> driver_effect list \<times> 'x controller"
where
  "route_call a call k c =
     (let p = ap_pbx_id a;
          leg = \<lparr>leg_handset_call_id = k, leg_pbx_call_id = p\<rparr>;
          consultation = (case for_leg leg (ct_transfers c) of None \<Rightarrow> False | Some t \<Rightarrow> tt_consultation t = Some leg);
          c1 = modify_call p (\<lambda>call. call\<lparr>pc_digit_deadline := None, pc_state := StCalling\<rparr>) c;
          c2 = modify_appearance (ap_id a) (\<lambda>a. a\<lparr>ap_state := StCalling\<rparr>) c1;
          c3 = (if consultation then advance_transfer_for_pbx p Routing c2 else c2);
          (effects, c4) = outbound_route_presentation p (pc_digits call) c3
      in (effects @ [Backend (StartRouting p (pc_context call) (pc_digits call))], c4))"

definition finish_digits :: "call_id \<Rightarrow> 'x controller \<Rightarrow> driver_effect list \<times> 'x controller" where
  "finish_digits k c =
     (case appearance_for_call c k of
        None \<Rightarrow> ([], c)
      | Some a \<Rightarrow>
          if \<not> collects (ap_state a) then ([], c)
          else
            case pbx_call_of c (ap_pbx_id a) of
              None \<Rightarrow> ([], c)
            | Some call \<Rightarrow>
                if pc_digits call = []
                then ([], modify_call (ap_pbx_id a) (\<lambda>call. call\<lparr>pc_digit_deadline := None\<rparr>) c)
                else
                  case pc_pending_pickup call of
                    Some pickup \<Rightarrow> complete_pickup a (pc_digits call) pickup k c
                  | None \<Rightarrow> route_call a call k c)"

text \<open>A digit is appended to the number; the result tells whether routing starts with it.\<close>

definition collect_digit :: "'x controller \<Rightarrow> call_state \<Rightarrow> nat \<Rightarrow> instant \<Rightarrow> pbx_call \<Rightarrow> bool \<times> pbx_call" where
  "collect_digit c state ch now call0 =
     (let call = call0\<lparr>
            pc_simulated_enbloc_eligible := (pc_simulated_enbloc_eligible call0
              \<and> \<not> (case pc_last_digit_at call0 of None \<Rightarrow> False | Some previous \<Rightarrow> exceeds_millis (now - previous) 400)),
            pc_last_digit_at := Some now,
            pc_digits := pc_digits call0 @ [ch]\<rparr>
      in if state = StCollecting \<and> pc_overlap_enabled call \<and> length (pc_digits call) = 1
         then (True, call\<lparr>pc_state := StCalling, pc_digit_deadline := None\<rparr>)
         else (False, call\<lparr>pc_digit_deadline :=
           (if state \<noteq> StPickupCollecting
            then Some (now + (if pc_simulated_enbloc_eligible call \<and> length (pc_digits call) \<ge> 4
              then at_most_secs (ct_interdigit c) 2 else ct_interdigit c))
            else None)\<rparr>))"

definition secondary_tone :: "'x controller \<Rightarrow> pbx_call \<Rightarrow> tone option" where
  "secondary_tone c call =
     (case hm_get (ct_line_dial_tones c) (pc_line call) of
        None \<Rightarrow> None
      | Some t \<Rightarrow> if ldt_secondary_prefix t = Some (pc_digits call) then Some (ldt_secondary t) else None)"

definition tone_effects :: "device_id \<Rightarrow> call_id \<Rightarrow> tone option \<Rightarrow> driver_effect list" where
  "tone_effects d k tone = (case tone of None \<Rightarrow> [] | Some t \<Rightarrow> [Handset (StartTone d k t)])"

definition press_digit :: "call_id \<Rightarrow> digit \<Rightarrow> instant \<Rightarrow> 'x controller \<Rightarrow> driver_effect list \<times> 'x controller" where
  "press_digit k d now c =
     (case digit_character d of
        None \<Rightarrow> ([], c)
      | Some ch \<Rightarrow>
          (case appearance_for_call c k of
             None \<Rightarrow> ([], c)
           | Some a \<Rightarrow>
               let p = (case hm_get (ct_barge_by_handset c) k of None \<Rightarrow> ap_pbx_id a | Some s \<Rightarrow> bs_barger_call_id s) in
               if collects (ap_state a)
               then
                 if ch = ct_dial_terminator c then finish_digits k c
                 else
                   case pbx_call_of c p of
                     None \<Rightarrow> ([], c)
                   | Some call0 \<Rightarrow>
                       (let (overlap, call) = collect_digit c (ap_state a) ch now call0;
                            tones = tone_effects (ap_device_id a) k (secondary_tone c call);
                            c1 = modify_call p (\<lambda>_. call) c
                        in if overlap
                           then
                             let c2 = (case hm_get (rg_by_sccp (ct_registry c1)) k of None \<Rightarrow> c1
                               | Some i \<Rightarrow> modify_appearance i (\<lambda>a. a\<lparr>ap_state := StCalling\<rparr>) c1);
                                 (effects, c3) = outbound_route_presentation p (pc_digits call) c2
                             in (tones @ effects @ [Backend (StartRouting p (pc_context call) (pc_digits call))], c3)
                           else (tones, c1))
               else if ap_state a = StCalling \<and> (case pbx_call_of c p of None \<Rightarrow> False | Some call \<Rightarrow> pc_overlap_enabled call)
                 \<or> ap_state a \<in> {StConnected, StHeld}
               then ([Backend (SendDigit p ch)], c)
               else ([], c)))"

definition enbloc :: "call_id \<Rightarrow> rust_str \<Rightarrow> 'x controller \<Rightarrow> driver_effect list \<times> 'x controller" where
  "enbloc k number c =
     (case appearance_for_call c k of
        None \<Rightarrow> ([], c)
      | Some a \<Rightarrow>
          if ap_state a \<in> {StConnected, StHeld}
          then (case dial_symbols number of
                  None \<Rightarrow> ([], c)
                | Some digits \<Rightarrow> (map (\<lambda>ch. Backend (SendDigit (ap_pbx_id a) ch)) digits, c))
          else if \<not> collects (ap_state a) then ([], c)
          else finish_digits k
            (if number \<noteq> [] then modify_call (ap_pbx_id a) (\<lambda>call. call\<lparr>pc_digits := number\<rparr>) c else c))"

definition speed_dial :: "call_id \<Rightarrow> rust_str \<Rightarrow> bool \<Rightarrow> instant \<Rightarrow> 'x controller \<Rightarrow> driver_effect list \<times> 'x controller" where
  "speed_dial k number await_further_digits now c =
     (if \<not> await_further_digits then enbloc k number c
      else
        case appearance_for_call c k of
          None \<Rightarrow> ([], c)
        | Some a \<Rightarrow>
            if ap_state a \<notin> {StCollecting, StTransferCollecting} then ([], c)
            else
              case dial_symbols number of
                None \<Rightarrow> ([], c)
              | Some digits \<Rightarrow>
                  (let terminated = (digits \<noteq> [] \<and> last digits = ct_dial_terminator c);
                       kept = (if terminated then butlast digits else digits)
                   in case pbx_call_of c (ap_pbx_id a) of
                        None \<Rightarrow> ([], c)
                      | Some _ \<Rightarrow>
                          (let c1 = modify_call (ap_pbx_id a) (\<lambda>call. call\<lparr>pc_digits := kept, pc_last_digit_at := Some now,
                                 pc_simulated_enbloc_eligible := False,
                                 pc_digit_deadline := Some (now + ct_interdigit c)\<rparr>) c
                           in if terminated then finish_digits k c1 else ([], c1))))"

definition expired_calls :: "instant \<Rightarrow> 'x controller \<Rightarrow> call_id list" where
  "expired_calls now c =
     List.map_filter (\<lambda>call. map_option ap_sccp_id (Option.bind (first_of (pc_appearance_ids call)) (appearance_of c)))
       (filter (\<lambda>call. case pc_digit_deadline call of None \<Rightarrow> False | Some deadline \<Rightarrow> deadline \<le> now)
         (hm_values (rg_pbx (ct_registry c))))"

fun finish_all :: "call_id list \<Rightarrow> 'x controller \<Rightarrow> driver_effect list \<times> 'x controller" where
  "finish_all [] c = ([], c)"
| "finish_all (k # ks) c =
     (let (effects, c1) = finish_digits k c; (rest, c2) = finish_all ks c1 in (effects @ rest, c2))"

definition expire_digits :: "instant \<Rightarrow> 'x controller \<Rightarrow> driver_effect list \<times> 'x controller" where
  "expire_digits now c = finish_all (expired_calls now c) c"

section \<open>Pickup and parking\<close>

datatype pickup_rejection = PickupUnavailable | PickupPermission | PickupDisabled | PickupConflict

datatype parking_rejection = ParkingUnavailable | ParkingDisabled | ParkingConflict

text \<open>Both kinds of pickup start from a call that its owner has just begun.\<close>

definition pickup_conflict :: "'x controller \<Rightarrow> 'x call_appearance \<Rightarrow> pbx_call \<Rightarrow> bool" where
  "pickup_conflict c a call \<longleftrightarrow> pc_state call \<noteq> StCollecting \<or> ap_state a \<noteq> StCollecting
     \<or> pc_active_appearance call \<noteq> Some (ap_id a) \<or> pc_pending_pickup call \<noteq> None
     \<or> \<not> hm_contains (ct_devices c) (ap_device_id a)"

definition begin_directed_pickup ::
  "call_id \<Rightarrow> bool \<Rightarrow> bool \<Rightarrow> rust_str \<Rightarrow> bool \<Rightarrow> 'x controller \<Rightarrow> (pickup_rejection + unit) \<times> 'x controller"
where
  "begin_directed_pickup k permitted enabled context answer c =
     (if \<not> enabled then (Inl PickupDisabled, c)
      else if \<not> permitted then (Inl PickupPermission, c)
      else
        case appearance_for_call c k of
          None \<Rightarrow> (Inl PickupUnavailable, c)
        | Some a \<Rightarrow>
            (case pbx_call_of c (ap_pbx_id a) of
               None \<Rightarrow> (Inl PickupUnavailable, c)
             | Some call \<Rightarrow>
                 if pickup_conflict c a call then (Inl PickupConflict, c)
                 else if trim context = [] then (Inl PickupUnavailable, c)
                 else (Inr (),
                   modify_appearance (ap_id a) (\<lambda>a. a\<lparr>ap_state := StPickupCollecting\<rparr>)
                     (modify_call (ap_pbx_id a) (\<lambda>call. call\<lparr>pc_state := StPickupCollecting, pc_digits := [],
                        pc_digit_deadline := None, pc_last_digit_at := None, pc_simulated_enbloc_eligible := False,
                        pc_pending_pickup := Some \<lparr>pp_context = context, pp_answer = answer\<rparr>\<rparr>) c))))"

definition group_pickup ::
  "call_id \<Rightarrow> bool \<Rightarrow> bool \<Rightarrow> 'x controller \<Rightarrow> (pickup_rejection + driver_effect list) \<times> 'x controller"
where
  "group_pickup k permitted answer c =
     (if \<not> permitted then (Inl PickupPermission, c)
      else
        case appearance_for_call c k of
          None \<Rightarrow> (Inl PickupUnavailable, c)
        | Some a \<Rightarrow>
            (case pbx_call_of c (ap_pbx_id a) of
               None \<Rightarrow> (Inl PickupUnavailable, c)
             | Some call \<Rightarrow>
                 if pickup_conflict c a call then (Inl PickupConflict, c)
                 else
                   let state = (if answer then StConnected else StRinging) in
                   (Inr [Backend (PbxPickup (GroupPickup (ap_pbx_id a) (ap_device_id a) (ap_sccp_id a) (ap_codec a) answer))],
                    modify_appearance (ap_id a) (\<lambda>a. a\<lparr>ap_state := state,
                        ap_audio := (if answer then StreamOpening else StreamClosed)\<rparr>)
                      (modify_call (ap_pbx_id a) (\<lambda>call. call\<lparr>pc_state := state,
                         pc_active_appearance := (if answer then Some (ap_id a) else None), pc_digit_deadline := None\<rparr>) c))))"

text \<open>The call and the presentation of one phone are moved to a state together.\<close>

definition move_both ::
  "'x call_appearance \<Rightarrow> call_state \<Rightarrow> ('x call_appearance \<Rightarrow> 'x call_appearance) \<Rightarrow> 'x controller \<Rightarrow> 'x controller"
where
  "move_both a state f c =
     modify_appearance (ap_id a) (\<lambda>a. f (a\<lparr>ap_state := state\<rparr>))
       (modify_call (ap_pbx_id a) (\<lambda>call. call\<lparr>pc_state := state\<rparr>) c)"

definition park ::
  "call_id \<Rightarrow> bool \<Rightarrow> rust_str option \<Rightarrow> 'x controller \<Rightarrow> (parking_rejection + driver_effect list) \<times> 'x controller"
where
  "park k enabled lot c =
     (if \<not> enabled then (Inl ParkingDisabled, c)
      else
        case appearance_for_call c k of
          None \<Rightarrow> (Inl ParkingUnavailable, c)
        | Some a \<Rightarrow>
            (case pbx_call_of c (ap_pbx_id a) of
               None \<Rightarrow> (Inl ParkingUnavailable, c)
             | Some call \<Rightarrow>
                 if ap_pbx_id a \<in> set (ct_redirect_claims c) \<or> pc_state call \<noteq> StConnected
                   \<or> ap_state a \<noteq> StConnected \<or> pc_active_appearance call \<noteq> Some (ap_id a)
                 then (Inl ParkingConflict, c)
                 else (Inr [Backend (PbxParking (ParkCall (ap_pbx_id a) lot))], move_both a StParking (\<lambda>a. a) c)))"

definition in_state :: "'x controller \<Rightarrow> 'x call_appearance \<Rightarrow> call_state \<Rightarrow> bool" where
  "in_state c a state =
     (case pbx_call_of c (ap_pbx_id a) of None \<Rightarrow> False | Some call \<Rightarrow> pc_state call = state)"

definition parking_failed :: "call_id \<Rightarrow> 'x controller \<Rightarrow> driver_effect list \<times> 'x controller" where
  "parking_failed k c =
     (case appearance_for_call c k of
        None \<Rightarrow> ([], c)
      | Some a \<Rightarrow>
          if \<not> in_state c a StParking then ([], c)
          else ([Handset (SetCallState (ap_device_id a) k HsConnected False)], move_both a StConnected (\<lambda>a. a) c))"

definition parking_confirmed :: "call_id \<Rightarrow> u32 \<Rightarrow> 'x controller \<Rightarrow> driver_effect list \<times> 'x controller" where
  "parking_confirmed k slot c =
     (case appearance_for_call c k of
        None \<Rightarrow> ([], c)
      | Some a \<Rightarrow>
          if \<not> in_state c a StParking then ([], c)
          else
            let (ended, c1) = hangup_ordinary k True c in
            (Handset (SetCallInfo (ap_device_id a) k (call_info_default\<lparr>in_direction := Outbound,
                in_called_name := ascii ''Parked'', in_called_number := decimal (unat slot)\<rparr>))
              # Handset (SetCallState (ap_device_id a) k HsPark True) # ended, c1))"

definition retrieval_call :: "pbx_call_id \<Rightarrow> call_appearance_id \<Rightarrow> line_binding \<Rightarrow> pbx_call" where
  "retrieval_call p i binding = \<lparr>
     pc_id = p, pc_line = lc_number (lb_line binding), pc_context = lc_context (lb_line binding),
     pc_direction = Outbound, pc_state = StRetrieving, pc_outbound_phase = None,
     pc_outbound_identity_stage = Awaiting, pc_digits = [], pc_privacy = True,
     pc_pending_pickup = None, pc_appearance_ids = [], pc_active_appearance = Some i,
     pc_digit_deadline = None, pc_last_digit_at = None, pc_simulated_enbloc_eligible = False,
     pc_overlap_enabled = False\<rparr>"

definition begin_parking_retrieval ::
  "call_id \<Rightarrow> line_binding \<Rightarrow> codec \<Rightarrow> rust_str option \<Rightarrow> u32 \<Rightarrow> call_info \<Rightarrow> 'x controller
     \<Rightarrow> (parking_rejection + driver_effect list) \<times> 'x controller"
where
  "begin_parking_retrieval k binding codec lot slot info c =
     (let device = lb_device_id binding in
      if hm_contains (rg_by_sccp (ct_registry c)) k \<or> \<not> hm_contains (ct_devices c) device \<or> slot = 0
      then (Inl ParkingConflict, c)
      else
        let (p, c1) = allocate_pbx_id c;
            (i, c2) = allocate_appearance_id c1;
            (inserted, c3) = with_registry (insert_pbx_call (retrieval_call p i binding)
              ((new_appearance i k p binding StRetrieving info codec)\<lparr>ap_privacy := True\<rparr>)) c2
        in if \<not> inserted then (Inl ParkingConflict, c3)
           else (Inr [Backend (CreateChannel k p binding codec), Handset (SetCallInfo device k info),
                   Backend (PbxParking (RetrieveCall p lot (decimal (unat slot))))],
                 set_call_selected device k True (select_line device (lb_line_instance binding) c3)))"

definition parking_retrieved :: "call_id \<Rightarrow> 'x controller \<Rightarrow> driver_effect list \<times> 'x controller" where
  "parking_retrieved k c =
     (case appearance_for_call c k of
        None \<Rightarrow> ([], c)
      | Some a \<Rightarrow>
          if \<not> in_state c a StRetrieving then ([], c)
          else ([Handset (SetCallState (ap_device_id a) k HsConnected False),
                 Handset (BeginMedia (ap_device_id a) k (ap_codec a))],
                move_both a StConnected (\<lambda>a. a\<lparr>ap_audio := StreamOpening\<rparr>) c))"

definition parking_retrieval_failed :: "call_id \<Rightarrow> 'x controller \<Rightarrow> driver_effect list \<times> 'x controller" where
  "parking_retrieval_failed k c =
     (case appearance_for_call c k of
        None \<Rightarrow> ([], c)
      | Some a \<Rightarrow> if ap_state a = StRetrieving then hangup_ordinary k True c else ([], c))"

end
