(* ===== verification/Dial_Laws.thy ===== *)
theory Dial_Laws
  imports Dialing
begin

text \<open>
  What dialling, progress, pickup and parking keep: the invariant of call control, for every
  operation and for every history in which they are mixed with the other operations.
\<close>

section \<open>One call and one of its presentations are written\<close>

lemma touch_pbx [simp]:
  "pbx_call_of (modify_appearance i f c) q = pbx_call_of c q"
  "appearance_of (modify_call p g c) j = appearance_of c j"
  "pbx_call_of (modify_call p g c) q = (if q = p then map_option g (pbx_call_of c q) else pbx_call_of c q)"
  "appearance_of (modify_appearance i f c) j = (if j = i then map_option f (appearance_of c j) else appearance_of c j)"
  by (simp_all add: modify_appearance_def modify_call_def)

lemma touch_fields [simp]:
  "rg_by_sccp (ct_registry (modify_call p g c)) = rg_by_sccp (ct_registry c)"
  "rg_by_device (ct_registry (modify_call p g c)) = rg_by_device (ct_registry c)"
  "rg_by_sccp (ct_registry (modify_appearance i f c)) = rg_by_sccp (ct_registry c)"
  "rg_by_device (ct_registry (modify_appearance i f c)) = rg_by_device (ct_registry c)"
  "ct_devices (modify_call p g c) = ct_devices c" "ct_devices (modify_appearance i f c) = ct_devices c"
  "ct_redirect_claims (modify_call p g c) = ct_redirect_claims c"
  "ct_redirect_claims (modify_appearance i f c) = ct_redirect_claims c"
  "ct_voicemail (modify_call p g c) = ct_voicemail c" "ct_voicemail (modify_appearance i f c) = ct_voicemail c"
  "ct_shared_control_claims (modify_call p g c) = ct_shared_control_claims c"
  "ct_shared_control_claims (modify_appearance i f c) = ct_shared_control_claims c"
  "ct_barge_groups (modify_call p g c) = ct_barge_groups c" "ct_barge_groups (modify_appearance i f c) = ct_barge_groups c"
  "ct_barge_by_handset (modify_call p g c) = ct_barge_by_handset c"
  "ct_barge_by_handset (modify_appearance i f c) = ct_barge_by_handset c"
  "ct_barge_by_pbx (modify_call p g c) = ct_barge_by_pbx c" "ct_barge_by_pbx (modify_appearance i f c) = ct_barge_by_pbx c"
  "ct_next_pbx_id (modify_call p g c) = ct_next_pbx_id c" "ct_next_pbx_id (modify_appearance i f c) = ct_next_pbx_id c"
  "ct_transfers (modify_call p g c) = ct_transfers c" "ct_transfers (modify_appearance i f c) = ct_transfers c"
  "hm_wf (rg_pbx (ct_registry c)) \<Longrightarrow> hm_wf (rg_pbx (ct_registry (modify_call p g c)))"
  "rg_pbx (ct_registry (modify_appearance i f c)) = rg_pbx (ct_registry c)"
  "rg_appearances (ct_registry (modify_call p g c)) = rg_appearances (ct_registry c)"
  "hm_wf (rg_appearances (ct_registry c)) \<Longrightarrow> hm_wf (rg_appearances (ct_registry (modify_appearance i f c)))"
  by (simp_all add: modify_appearance_def modify_call_def)

lemma hm_modify_same: "hm_modify k (\<lambda>v. v) m = m"
  by (simp add: hm_modify_def hm_insert_def update_triv split: option.split)

definition same_presentation :: "('x call_appearance \<Rightarrow> 'x call_appearance) \<Rightarrow> bool" where
  "same_presentation f \<longleftrightarrow> (\<forall>a. ap_id (f a) = ap_id a \<and> ap_sccp_id (f a) = ap_sccp_id a
     \<and> ap_pbx_id (f a) = ap_pbx_id a \<and> ap_device_id (f a) = ap_device_id a)"

lemma touch_skeleton:
  assumes "index_ok (ct_registry c)" and "same_presentation f"
    and "\<And>call. pbx_call_of c p = Some call \<Longrightarrow> pc_id (g call) = pc_id call \<and> pc_appearance_ids (g call) = pc_appearance_ids call"
  shows "same_skeleton (ct_registry c) (ct_registry (modify_appearance i f (modify_call p g c)))"
  unfolding same_skeleton_def
proof (intro conjI allI)
  fix q show "map_option (\<lambda>c. (pc_id c, pc_appearance_ids c)) (pbx_call_of (modify_appearance i f (modify_call p g c)) q)
      = map_option (\<lambda>c. (pc_id c, pc_appearance_ids c)) (pbx_call_of c q)"
    using assms(3) by (cases "pbx_call_of c q") auto
  fix j show "map_option (\<lambda>a. (ap_id a, ap_sccp_id a, ap_pbx_id a, ap_device_id a))
      (appearance_of (modify_appearance i f (modify_call p g c)) j)
    = map_option (\<lambda>a. (ap_id a, ap_sccp_id a, ap_pbx_id a, ap_device_id a)) (appearance_of c j)"
    using assms(2) by (cases "appearance_of c j") (auto simp: same_presentation_def)
qed (use index_ok_wf [OF assms(1)] in simp_all)

text \<open>
  The owner stays the owner, or the call loses its owner and has no claim; a call with a
  barge stays connected and its barging presentation barged.
\<close>

lemma touch_ok:
  assumes ok: "controller_ok c" and call: "pbx_call_of c p = Some call"
    and a: "appearance_of c i = Some a" "ap_pbx_id a = p" and f: "same_presentation f"
    and g: "pc_id (g call) = pc_id call" "pc_appearance_ids (g call) = pc_appearance_ids call"
      "(pc_pending_pickup (g call) \<noteq> None) = (pc_state (g call) = StPickupCollecting)"
    and barge: "hm_get (ct_barge_groups c) p = None \<or> pc_state (g call) = StConnected \<and> (ap_state a = StBarged \<longrightarrow> ap_state (f a) = StBarged)"
    and owner: "owning (ap_state (f a)) = owning (ap_state a) \<and> pc_active_appearance (g call) = pc_active_appearance call
      \<or> pc_active_appearance call = Some i \<and> \<not> owning (ap_state (f a)) \<and> pc_active_appearance (g call) = None
        \<and> hm_get (ct_shared_control_claims c) p = None"
  shows "controller_ok (modify_appearance i f (modify_call p g c))" (is "controller_ok ?c")
proof (rule controller_ok_restyle [OF ok])
  note okD = controller_okD [OF ok] and idx = controller_okD(2) [OF ok]
  show sk: "same_skeleton (ct_registry c) (ct_registry ?c)" by (rule touch_skeleton [OF idx f]) (use call g in simp)
  have fs: "ap_pbx_id (f b) = ap_pbx_id b" for b using f by (simp add: same_presentation_def)
  show "states_ok (ct_registry ?c)"
  proof (rule states_okI)
    fix q call' assume q: "pbx_call_of ?c q = Some call'"
    show "owner_ok (ct_registry ?c) q call'"
    proof (cases "q = p")
      case False
      with q have "pbx_call_of c q = Some call'" by simp
      note old = states_okD [OF okD(3) this]
      have other: "appearance_of ?c j = appearance_of c j" if "j \<noteq> i" for j using that by simp
      have pi: "ap_pbx_id b = p" if "appearance_of ?c i = Some b" for b using that a fs by auto
      show ?thesis
      proof (rule owner_okI)
        show "(pc_pending_pickup call' \<noteq> None) = (pc_state call' = StPickupCollecting)" by (rule owner_okD(1) [OF old])
        fix j assume "pc_active_appearance call' = Some j"
        from owner_okD(2) [OF old this] False a other [of j]
        show "\<exists>b. appearance_of ?c j = Some b \<and> ap_pbx_id b = q \<and> owning (ap_state b)" by (cases "j = i") auto
      next
        fix j b assume b: "appearance_of ?c j = Some b" "ap_pbx_id b = q" "owning (ap_state b)"
        then have "j \<noteq> i" using pi False by auto
        with b other owner_okD(3) [OF old, of j b] show "pc_active_appearance call' = Some j" by simp
      qed
    next
      case True
      with q call have c': "call' = g call" by simp
      note old = states_okD [OF okD(3) call]
      show ?thesis
      proof (rule owner_okI)
        show "(pc_pending_pickup call' \<noteq> None) = (pc_state call' = StPickupCollecting)" unfolding c' by (rule g(3))
        fix j assume j: "pc_active_appearance call' = Some j"
        with owner c' have same: "pc_active_appearance call = Some j" "owning (ap_state (f a)) = owning (ap_state a)" by auto
        from owner_okD(2) [OF old same(1)] same(2) a fs True
        show "\<exists>b. appearance_of ?c j = Some b \<and> ap_pbx_id b = q \<and> owning (ap_state b)" by auto
      next
        fix j b assume b: "appearance_of ?c j = Some b" "ap_pbx_id b = q" "owning (ap_state b)"
        show "pc_active_appearance call' = Some j"
        proof (cases "j = i")
          case True
          with b a have "owning (ap_state (f a))" by simp
          with owner owner_okD(3) [OF old a] show ?thesis unfolding c' True by auto
        next
          case False
          with b \<open>q = p\<close> owner_okD(3) [OF old, of j b] have "pc_active_appearance call = Some j" by simp
          with owner False show ?thesis unfolding c' by auto
        qed
      qed
    qed
  qed
  show "devices_ok ?c"
    using okD(4) shows_call_skeleton [OF sk] unfolding devices_ok_def by simp
  show "claims_ok ?c"
  proof (rule claims_okI)
    show "hm_wf (ct_shared_control_claims ?c)" using claims_okD(1) [OF okD(7)] by simp
    fix q w assume w: "hm_get (ct_shared_control_claims ?c) q = Some (Steal w)"
    then have "hm_get (ct_shared_control_claims c) q = Some (Steal w)" by simp
    from claims_okD(2) [OF okD(7) this] w owner call
    show "\<exists>call. pbx_call_of ?c q = Some call \<and> pc_active_appearance call = Some w" by auto
  next
    fix q b show "hm_get (ct_shared_control_claims ?c) q = Some (Barge b) \<longleftrightarrow>
        (\<exists>gr. hm_get (ct_barge_groups ?c) q = Some gr \<and> bg_bridge_id gr = b)"
      using claims_okD(3) [OF okD(7), of q b] by simp
  qed
  show "ct_redirect_claims ?c = ct_redirect_claims c" "ct_voicemail ?c = ct_voicemail c" "ct_barge_groups ?c = ct_barge_groups c"
    "ct_barge_by_handset ?c = ct_barge_by_handset c" "ct_barge_by_pbx ?c = ct_barge_by_pbx c" "ct_next_pbx_id ?c \<noteq> 0"
    using okD(9) by simp_all
  fix j b assume "appearance_of c j = Some b" "ap_state b = StBarged" "hm_contains (ct_barge_groups c) (ap_pbx_id b)"
  with a barge show "\<exists>a'. appearance_of ?c j = Some a' \<and> ap_state a' = StBarged" by (auto simp: hm_contains_def)
next
  fix q k assume q: "pbx_call_of c q = Some k" "pc_state k = StConnected"
    "pc_appearance_ids k = [] \<or> hm_contains (ct_barge_groups c) q"
  have "i \<in> set (pc_appearance_ids call)" using index_ok_members [OF controller_okD(2) [OF ok] call] a by blast
  with q call barge show "\<exists>call'. pbx_call_of ?c q = Some call' \<and> pc_state call' = StConnected"
    by (cases "q = p") (auto simp: hm_contains_def)
qed

text \<open>Writes that move neither states nor the owner.\<close>

lemma modify_call_id [simp]: "modify_call p (\<lambda>call. call) c = c"
  by (simp add: modify_call_def hm_modify_same)

lemma quiet_touch_ok:
  assumes ok: "controller_ok c" and f: "same_presentation f" "\<And>a. appearance_of c i = Some a \<Longrightarrow> ap_state (f a) = ap_state a"
    and g: "\<And>call. pbx_call_of c p = Some call \<Longrightarrow> pc_id (g call) = pc_id call \<and> pc_appearance_ids (g call) = pc_appearance_ids call
      \<and> pc_pending_pickup (g call) = pc_pending_pickup call \<and> pc_state (g call) = pc_state call
      \<and> pc_active_appearance (g call) = pc_active_appearance call"
  shows "controller_ok (modify_appearance i f (modify_call p g c))" (is "controller_ok ?c")
proof (rule controller_ok_restyle [OF ok])
  note okD = controller_okD [OF ok] and idx = controller_okD(2) [OF ok]
  show sk: "same_skeleton (ct_registry c) (ct_registry ?c)" by (rule touch_skeleton [OF idx f(1)]) (use g in simp)
  have app: "appearance_of ?c j = Some b \<Longrightarrow> \<exists>a. appearance_of c j = Some a \<and> ap_pbx_id a = ap_pbx_id b \<and> ap_state a = ap_state b" for j b
    using f by (auto simp: same_presentation_def split: if_splits)
  have app': "appearance_of c j = Some a \<Longrightarrow> \<exists>b. appearance_of ?c j = Some b \<and> ap_pbx_id b = ap_pbx_id a \<and> ap_state b = ap_state a" for j a
    using f by (auto simp: same_presentation_def)
  show "states_ok (ct_registry ?c)"
  proof (rule states_okI)
    fix q call' assume "pbx_call_of ?c q = Some call'"
    then obtain call where call: "pbx_call_of c q = Some call" "pc_pending_pickup call' = pc_pending_pickup call"
      "pc_state call' = pc_state call" "pc_active_appearance call' = pc_active_appearance call"
      using g by (cases "q = p") auto
    note old = states_okD [OF okD(3) call(1)]
    show "owner_ok (ct_registry ?c) q call'"
    proof (rule owner_okI)
      show "(pc_pending_pickup call' \<noteq> None) = (pc_state call' = StPickupCollecting)"
        unfolding call(2,3) by (rule owner_okD(1) [OF old])
      fix j assume "pc_active_appearance call' = Some j"
      with owner_okD(2) [OF old, of j] app' call(4)
      show "\<exists>b. appearance_of ?c j = Some b \<and> ap_pbx_id b = q \<and> owning (ap_state b)" by metis
    next
      fix j b assume "appearance_of ?c j = Some b" "ap_pbx_id b = q" "owning (ap_state b)"
      with app [of j b] owner_okD(3) [OF old, of j] show "pc_active_appearance call' = Some j" unfolding call(4) by auto
    qed
  qed
  show "devices_ok ?c" using okD(4) shows_call_skeleton [OF sk] unfolding devices_ok_def by simp
  show "claims_ok ?c"
  proof (rule claims_okI)
    show "hm_wf (ct_shared_control_claims ?c)" using claims_okD(1) [OF okD(7)] by simp
    fix q w assume "hm_get (ct_shared_control_claims ?c) q = Some (Steal w)"
    then have "hm_get (ct_shared_control_claims c) q = Some (Steal w)" by simp
    from claims_okD(2) [OF okD(7) this] g
    show "\<exists>call. pbx_call_of ?c q = Some call \<and> pc_active_appearance call = Some w" by auto
  next
    fix q b show "hm_get (ct_shared_control_claims ?c) q = Some (Barge b) \<longleftrightarrow>
        (\<exists>gr. hm_get (ct_barge_groups ?c) q = Some gr \<and> bg_bridge_id gr = b)"
      using claims_okD(3) [OF okD(7), of q b] by simp
  qed
  show "ct_redirect_claims ?c = ct_redirect_claims c" "ct_voicemail ?c = ct_voicemail c" "ct_barge_groups ?c = ct_barge_groups c"
    "ct_barge_by_handset ?c = ct_barge_by_handset c" "ct_barge_by_pbx ?c = ct_barge_by_pbx c" "ct_next_pbx_id ?c \<noteq> 0"
    using okD(9) by simp_all
  fix j b assume "appearance_of c j = Some b" "ap_state b = StBarged"
  with app' [of j b] show "\<exists>a'. appearance_of ?c j = Some a' \<and> ap_state a' = StBarged" by auto
next
  fix q k assume "pbx_call_of c q = Some k" "pc_state k = StConnected"
  with g show "\<exists>call'. pbx_call_of ?c q = Some call' \<and> pc_state call' = StConnected" by auto
qed

section \<open>Presentations that collect digits\<close>

text \<open>
  A presentation that collects digits is in the state of its call, and nobody has claimed
  the call. Digits depend on it, because they are guarded by the state of the presentation
  and move the call.
\<close>

definition collecting_ok :: "'x controller \<Rightarrow> bool" where
  "collecting_ok c = list_all (\<lambda>(i, a). collects (ap_state a) \<longrightarrow>
     (case pbx_call_of c (ap_pbx_id a) of None \<Rightarrow> True
      | Some call \<Rightarrow> pc_state call = ap_state a \<and> \<not> hm_contains (ct_shared_control_claims c) (ap_pbx_id a)))
     (rg_appearances (ct_registry c))"

lemma collecting_okD:
  assumes "collecting_ok c" and "appearance_of c i = Some a" and "collects (ap_state a)"
    and "pbx_call_of c (ap_pbx_id a) = Some call"
  shows "pc_state call = ap_state a" "hm_get (ct_shared_control_claims c) (ap_pbx_id a) = None"
  using assms(1) map_of_SomeD [OF assms(2)] assms(3,4) unfolding collecting_ok_def list_all_iff hm_contains_def by auto

lemma collecting_okI:
  assumes "hm_wf (rg_appearances (ct_registry c))"
    and "\<And>i a call. appearance_of c i = Some a \<Longrightarrow> collects (ap_state a) \<Longrightarrow> pbx_call_of c (ap_pbx_id a) = Some call \<Longrightarrow>
      pc_state call = ap_state a \<and> hm_get (ct_shared_control_claims c) (ap_pbx_id a) = None"
  shows "collecting_ok c"
proof -
  have "appearance_of c i = Some a" if "(i, a) \<in> set (rg_appearances (ct_registry c))" for i a
    using assms(1) that by (simp add: hm_wf_def)
  with assms(2) show ?thesis
    unfolding collecting_ok_def list_all_iff hm_contains_def by (fastforce split: option.split)
qed

lemma collects_owning: "collects s \<Longrightarrow> owning s"
  by (cases s) simp_all

lemma touch_collecting:
  assumes ok: "controller_ok c" and col: "collecting_ok c" and call: "pbx_call_of c p = Some call"
    and a: "appearance_of c i = Some a" "ap_pbx_id a = p" and f: "same_presentation f"
    and own: "collects (ap_state (f a)) \<Longrightarrow> pc_state (g call) = ap_state (f a) \<and> hm_get (ct_shared_control_claims c) p = None"
    and other: "pc_active_appearance call = Some i \<or> pc_state (g call) = pc_state call"
  shows "collecting_ok (modify_appearance i f (modify_call p g c))" (is "collecting_ok ?c")
proof (rule collecting_okI)
  show "hm_wf (rg_appearances (ct_registry ?c))" using index_ok_wf(2) [OF controller_okD(2) [OF ok]] by simp
  fix j b call' assume b: "appearance_of ?c j = Some b" "collects (ap_state b)" "pbx_call_of ?c (ap_pbx_id b) = Some call'"
  show "pc_state call' = ap_state b \<and> hm_get (ct_shared_control_claims ?c) (ap_pbx_id b) = None"
  proof (cases "j = i")
    case True
    with a b f have "b = f a" "ap_pbx_id b = p" by (auto simp: same_presentation_def)
    with own b call show ?thesis by simp
  next
    case False
    with b have b0: "appearance_of c j = Some b" by simp
    show ?thesis
    proof (cases "ap_pbx_id b = p")
      case True
      from owner_okD(3) [OF states_okD [OF controller_okD(3) [OF ok] call] b0 True collects_owning [OF b(2)]] False other
      have "pc_state (g call) = pc_state call" by simp
      with collecting_okD [OF col b0 b(2)] call b True show ?thesis by simp
    next
      case False
      with collecting_okD [OF col b0 b(2)] b(3) show ?thesis by simp
    qed
  qed
qed

lemma quiet_touch_collecting:
  assumes ok: "controller_ok c" and col: "collecting_ok c"
    and f: "same_presentation f" "\<And>a. appearance_of c i = Some a \<Longrightarrow> ap_state (f a) = ap_state a"
    and g: "\<And>call. pbx_call_of c p = Some call \<Longrightarrow> pc_state (g call) = pc_state call"
  shows "collecting_ok (modify_appearance i f (modify_call p g c))" (is "collecting_ok ?c")
proof (rule collecting_okI)
  show "hm_wf (rg_appearances (ct_registry ?c))" using index_ok_wf(2) [OF controller_okD(2) [OF ok]] by simp
  fix j b call' assume b: "appearance_of ?c j = Some b" "collects (ap_state b)" "pbx_call_of ?c (ap_pbx_id b) = Some call'"
  obtain a where a: "appearance_of c j = Some a" "ap_pbx_id a = ap_pbx_id b" "ap_state a = ap_state b"
    using b(1) f by (auto simp: same_presentation_def split: if_splits)
  obtain call where call: "pbx_call_of c (ap_pbx_id b) = Some call" "pc_state call' = pc_state call"
    using b(3) g by (cases "ap_pbx_id b = p") auto
  from collecting_okD [OF col a(1), unfolded a, OF b(2) call(1)] call(2)
  show "pc_state call' = ap_state b \<and> hm_get (ct_shared_control_claims ?c) (ap_pbx_id b) = None" by simp
qed

text \<open>Both together, for the operations that follow.\<close>

definition dialling_ok :: "'x controller \<Rightarrow> bool" where
  "dialling_ok c \<longleftrightarrow> controller_ok c \<and> collecting_ok c"

lemma dialling_okD: "dialling_ok c \<Longrightarrow> controller_ok c" "dialling_ok c \<Longrightarrow> collecting_ok c"
  by (simp_all add: dialling_ok_def)

lemma quiet_touch_dialling:
  assumes "dialling_ok c" and "same_presentation f" and "\<And>a. appearance_of c i = Some a \<Longrightarrow> ap_state (f a) = ap_state a"
    and "\<And>call. pbx_call_of c p = Some call \<Longrightarrow> pc_id (g call) = pc_id call \<and> pc_appearance_ids (g call) = pc_appearance_ids call
      \<and> pc_pending_pickup (g call) = pc_pending_pickup call \<and> pc_state (g call) = pc_state call
      \<and> pc_active_appearance (g call) = pc_active_appearance call"
  shows "dialling_ok (modify_appearance i f (modify_call p g c))"
  using quiet_touch_ok [of c f i p g] quiet_touch_collecting [of c f i p g] assms unfolding dialling_ok_def by blast

lemma modify_appearance_id [simp]: "modify_appearance i (\<lambda>a. a) c = c"
  by (simp add: modify_appearance_def hm_modify_same)

lemma quiet_call_dialling:
  assumes "dialling_ok c"
    and "\<And>call. pbx_call_of c p = Some call \<Longrightarrow> pc_id (g call) = pc_id call \<and> pc_appearance_ids (g call) = pc_appearance_ids call
      \<and> pc_pending_pickup (g call) = pc_pending_pickup call \<and> pc_state (g call) = pc_state call
      \<and> pc_active_appearance (g call) = pc_active_appearance call"
  shows "dialling_ok (modify_call p g c)"
  using quiet_touch_dialling [OF assms(1), of "\<lambda>a. a" _ p g] assms(2) by (simp add: same_presentation_def)

lemma dialling_ok_cong:
  assumes "dialling_ok c"
    and "ct_registry c' = ct_registry c" "ct_devices c' = ct_devices c" "ct_redirect_claims c' = ct_redirect_claims c"
      "ct_voicemail c' = ct_voicemail c" "ct_shared_control_claims c' = ct_shared_control_claims c"
      "ct_barge_groups c' = ct_barge_groups c" "ct_barge_by_handset c' = ct_barge_by_handset c"
      "ct_barge_by_pbx c' = ct_barge_by_pbx c" "ct_next_pbx_id c' = ct_next_pbx_id c"
  shows "dialling_ok c'"
proof -
  have "controller_ok c'"
    by (rule controller_ok_cong [OF dialling_okD(1) [OF assms(1)]]) (simp_all add: assms controller_okD(9) [OF dialling_okD(1) [OF assms(1)]])
  moreover have "collecting_ok c' = collecting_ok c" unfolding collecting_ok_def assms(2,6) ..
  ultimately show ?thesis using dialling_okD(2) [OF assms(1)] by (simp add: dialling_ok_def)
qed

section \<open>The operations\<close>

lemma advance_transfer_dialling: "dialling_ok c \<Longrightarrow> dialling_ok (advance_transfer_for_pbx p phase c)"
  by (erule dialling_ok_cong) (simp_all add: advance_transfer_for_pbx_def split: option.split)

lemma write_is_modify: "appearance_of c i = Some a \<Longrightarrow> write_appearance i (f a) c = modify_appearance i f c"
  by (simp add: write_appearance_def modify_appearance_def hm_modify_def)

lemma touch_commute: "modify_call p g (modify_appearance i f c) = modify_appearance i f (modify_call p g c)"
  by (simp add: modify_call_def modify_appearance_def)

lemma outbound_route_cases:
  assumes "outbound_route_presentation p destination c = (es, c')"
  obtains "es = []" "c' = c"
    | call i a where "pbx_call_of c p = Some call" "pc_direction call = Outbound" "pc_state call = StCalling"
      "owner_or_first call = Some i" "appearance_of c i = Some a"
      "es = [Handset (CommitOutboundCall (ap_device_id a) (ap_sccp_id a) ((ap_info a)\<lparr>in_called_number := destination\<rparr>))]"
      "c' = modify_appearance i (\<lambda>a. a\<lparr>ap_info := (ap_info a)\<lparr>in_called_number := destination\<rparr>\<rparr>)
        (modify_call p (\<lambda>call. call\<lparr>pc_outbound_phase := Some PhRouting\<rparr>) c)"
proof (cases "Option.bind (pbx_call_of c p)
         (\<lambda>call. if pc_direction call = Outbound \<and> pc_state call = StCalling then owner_or_first call else None)")
  case None
  with assms show ?thesis using that(1) by (simp add: outbound_route_presentation_def)
next
  case (Some i)
  then obtain call where call: "pbx_call_of c p = Some call" "pc_direction call = Outbound" "pc_state call = StCalling"
    "owner_or_first call = Some i" by (auto simp: bind_eq_Some_conv split: if_splits)
  show ?thesis
  proof (cases "appearance_of c i")
    case None
    with Some assms show ?thesis using that(1) by (simp add: outbound_route_presentation_def)
  next
    case app: (Some a)
    note w = write_is_modify [OF app, of "\<lambda>a. a\<lparr>ap_info := (ap_info a)\<lparr>in_called_number := destination\<rparr>\<rparr>"]
    from Some app assms show ?thesis
      using that(2) [OF call app] by (simp add: outbound_route_presentation_def Let_def w touch_commute)
  qed
qed

lemma outbound_route_dialling:
  assumes "dialling_ok c" and "outbound_route_presentation p destination c = (es, c')"
  shows "dialling_ok c'"
  using assms(2) by (rule outbound_route_cases)
    (use assms(1) in \<open>auto intro!: quiet_touch_dialling simp: same_presentation_def\<close>)

lemma touch_dialling:
  assumes ok: "dialling_ok c" and call: "pbx_call_of c p = Some call"
    and a: "appearance_of c i = Some a" "ap_pbx_id a = p" and f: "same_presentation f"
    and g: "pc_id (g call) = pc_id call" "pc_appearance_ids (g call) = pc_appearance_ids call"
      "(pc_pending_pickup (g call) \<noteq> None) = (pc_state (g call) = StPickupCollecting)"
    and nogroup: "hm_get (ct_barge_groups c) p = None"
    and act: "pc_active_appearance call = Some i" "owning (ap_state a)"
    and owner: "owning (ap_state (f a)) \<and> pc_active_appearance (g call) = Some i
      \<or> \<not> owning (ap_state (f a)) \<and> pc_active_appearance (g call) = None \<and> hm_get (ct_shared_control_claims c) p = None"
    and own: "collects (ap_state (f a)) \<Longrightarrow> pc_state (g call) = ap_state (f a) \<and> hm_get (ct_shared_control_claims c) p = None"
  shows "dialling_ok (modify_appearance i f (modify_call p g c))"
proof -
  have "controller_ok (modify_appearance i f (modify_call p g c))"
    by (rule touch_ok [OF dialling_okD(1) [OF ok] call a f]) (use g nogroup act owner in auto)
  moreover have "collecting_ok (modify_appearance i f (modify_call p g c))"
    by (rule touch_collecting [OF dialling_okD [OF ok] call a f]) (use own act in simp_all)
  ultimately show ?thesis by (simp add: dialling_ok_def)
qed

lemma advance_phase_dialling:
  assumes "dialling_ok c" and "advance_outbound_call_phase p phase c = (x, c')"
  shows "dialling_ok c'"
proof -
  have "c' = c \<or> c' = modify_call p (\<lambda>call. call\<lparr>pc_outbound_phase := Some phase\<rparr>) c"
    using assms(2) by (auto simp: advance_outbound_call_phase_def split: option.splits if_splits)
  with assms(1) show ?thesis by (auto intro: quiet_call_dialling)
qed

lemma pbx_proceeding_dialling:
  assumes "dialling_ok c" and "pbx_proceeding p c = (es, c')"
  shows "dialling_ok c'"
  using assms(2) advance_phase_dialling [OF assms(1)]
  by (auto simp: pbx_proceeding_def split: prod.splits option.splits)

lemma publish_ring_out_dialling:
  assumes "dialling_ok c" and "publish_outbound_ring_out p c = (es, c')"
  shows "dialling_ok c'"
proof -
  have "c' = c \<or> c' = modify_call p (\<lambda>call. call\<lparr>pc_outbound_identity_stage := RingOutPublished\<rparr>) c"
    using assms(2) by (auto simp: publish_outbound_ring_out_def split: option.splits if_splits)
  with assms(1) show ?thesis by (auto intro: quiet_call_dialling)
qed

lemma pbx_ringing_dialling:
  assumes ok: "dialling_ok c" and run: "pbx_ringing p c = (es, c')"
  shows "dialling_ok c'"
proof -
  obtain x c1 where c1: "advance_outbound_call_phase p PhRinging c = (x, c1)" by fastforce
  obtain es2 c2 where c2: "publish_outbound_ring_out p (advance_transfer_for_pbx p Ringing c1) = (es2, c2)" by fastforce
  note ok1 = advance_phase_dialling [OF ok c1]
  from run c1 c2 have "c' = c1 \<or> c' = c2" by (auto simp: pbx_ringing_def split: option.splits)
  with ok1 publish_ring_out_dialling [OF advance_transfer_dialling [OF ok1] c2] show ?thesis by blast
qed

text \<open>A loop over presentations that moves none of them.\<close>

lemma quiet_loop_dialling:
  assumes f: "\<And>i a. ap_id (fst (f i a)) = ap_id a \<and> ap_sccp_id (fst (f i a)) = ap_sccp_id a \<and> ap_pbx_id (fst (f i a)) = ap_pbx_id a
      \<and> ap_device_id (fst (f i a)) = ap_device_id a \<and> ap_state (fst (f i a)) = ap_state a \<and> \<not> snd (snd (f i a))"
  shows "dialling_ok c \<Longrightarrow> for_appearances f ids c = (es, c') \<Longrightarrow> dialling_ok c'"
proof (induction ids arbitrary: c es)
  case (Cons i ids)
  show ?case
  proof (cases "appearance_of c i")
    case None
    with Cons show ?thesis by simp
  next
    case (Some a)
    let ?g = "\<lambda>b. fst (f i b)"
    obtain rest where rest: "for_appearances f ids (write_appearance i (?g a) c) = (rest, c')"
      using Cons.prems(2) Some f [of i a] by (auto simp: Let_def split: prod.splits)
    have c1: "write_appearance i (?g a) c = modify_appearance i ?g (modify_call 0 (\<lambda>call. call) c)"
      using write_is_modify [OF Some, of ?g] by simp
    have "dialling_ok (write_appearance i (?g a) c)"
      unfolding c1 by (rule quiet_touch_dialling [OF Cons.prems(1)]) (use f in \<open>simp_all add: same_presentation_def\<close>)
    from Cons.IH [OF this rest] show ?thesis .
  qed
qed simp

lemma update_call_info_dialling:
  assumes "dialling_ok c" and "update_call_info_by_pbx p update c = (es, c')"
  shows "dialling_ok c'"
  using assms(2) unfolding update_call_info_by_pbx_def
  by (rule quiet_loop_dialling [OF _ assms(1), rotated]) (simp add: update_info_step_def Let_def)

lemma remote_identity_dialling:
  assumes ok: "dialling_ok c" and run: "pbx_remote_identity_ready p c = (es, c')"
  shows "dialling_ok c'"
proof -
  have "dialling_ok (modify_call p (\<lambda>call. call\<lparr>pc_outbound_identity_stage := IdentityReady\<rparr>) c)"
    by (rule quiet_call_dialling [OF ok]) simp
  with ok run publish_ring_out_dialling show ?thesis
    unfolding pbx_remote_identity_ready_def by (auto split: option.splits if_splits)
qed

lemma party_snapshot_dialling:
  assumes ok: "dialling_ok c" and run: "apply_party_snapshot p snapshot c = (es, c')"
  shows "dialling_ok c'"
proof -
  obtain es1 c1 where c1: "update_call_info_by_pbx p (apply_to_call_info snapshot) c = (es1, c1)" by fastforce
  with run obtain es2 where "pbx_remote_identity_ready p c1 = (es2, c')"
    by (auto simp: apply_party_snapshot_def split: prod.splits)
  from remote_identity_dialling [OF update_call_info_dialling [OF ok c1] this] show ?thesis .
qed

text \<open>What a progress report writes, if it is accepted.\<close>

lemma pbx_progress_cases:
  assumes "pbx_progress_with_media_mode p early mode c = (es, c')" and "c' \<noteq> c \<or> es \<noteq> []"
  obtains call i a f ms where "pbx_call_of c p = Some call" "pc_direction call = Outbound" "pc_state call = StCalling"
    "owner_or_first call = Some i" "appearance_of c i = Some a"
    "\<And>b. f b = b\<lparr>ap_audio := (if early \<and> ap_audio a = StreamClosed then StreamOpening else ap_audio b),
        ap_audio_transmit := ap_audio_transmit (f b)\<rparr>"
    "ms = (if early \<and> ap_audio a = StreamClosed \<and> mode = Coupled then List.insert (ap_sccp_id a) (ct_pending_route_media c)
       else ct_pending_route_media c)"
    "c' = advance_transfer_for_pbx p Ringing ((modify_appearance i f
        (modify_call p (\<lambda>call. call\<lparr>pc_outbound_phase := Some PhProgress\<rparr>) c))\<lparr>ct_pending_route_media := ms\<rparr>)"
proof -
  from assms obtain call where call: "pbx_call_of c p = Some call"
    by (auto simp: pbx_progress_with_media_mode_def split: option.splits)
  with assms have guards: "pc_direction call = Outbound" "pc_state call = StCalling"
    unfolding pbx_progress_with_media_mode_def by (auto split: if_splits)
  from assms call obtain i where i: "owner_or_first call = Some i"
    unfolding pbx_progress_with_media_mode_def by (cases "owner_or_first call") (auto simp: Let_def split: if_splits)
  with assms call obtain a where a: "appearance_of c i = Some a"
    unfolding pbx_progress_with_media_mode_def by (cases "appearance_of c i") (auto simp: Let_def split: if_splits)
  define begins where "begins \<longleftrightarrow> early \<and> ap_audio a = StreamClosed"
  define f :: "'a call_appearance \<Rightarrow> 'a call_appearance" where
    "f = (\<lambda>b. b\<lparr>ap_audio := (if begins then StreamOpening else ap_audio b),
       ap_audio_transmit := (if begins \<and> mode = Coupled then StreamOpening else ap_audio_transmit b)\<rparr>)"
  define ms where "ms = (if begins \<and> mode = Coupled then List.insert (ap_sccp_id a) (ct_pending_route_media c)
       else ct_pending_route_media c)"
  have upd: "modify_call p g (d\<lparr>ct_pending_route_media := m\<rparr>) = (modify_call p g d)\<lparr>ct_pending_route_media := m\<rparr>" for g d m
    by (simp add: modify_call_def)
  have same: "f = (\<lambda>b. b)" if "\<not> begins" using that by (simp add: f_def fun_eq_iff)
  have rec: "d\<lparr>ct_pending_route_media := ct_pending_route_media c\<rparr> = d" if "ct_pending_route_media d = ct_pending_route_media c"
    for d :: "'a controller" using that by simp
  have keep: "ct_pending_route_media (modify_appearance i g (modify_call p h c)) = ct_pending_route_media c"
    "ct_pending_route_media (modify_call p h c) = ct_pending_route_media c" for g h
    by (simp_all add: modify_appearance_def modify_call_def)
  have "c' = advance_transfer_for_pbx p Ringing ((modify_appearance i f
        (modify_call p (\<lambda>call. call\<lparr>pc_outbound_phase := Some PhProgress\<rparr>) c))\<lparr>ct_pending_route_media := ms\<rparr>)"
    using assms call i a guards unfolding pbx_progress_with_media_mode_def Let_def
    by (cases begins; cases mode)
      (auto simp: f_def ms_def begins_def [symmetric] upd touch_commute same rec keep split: if_splits)
  then show ?thesis using that [OF call guards i a _ _, of f ms] by (simp add: f_def ms_def begins_def)
qed

lemma pbx_progress_dialling:
  assumes ok: "dialling_ok c" and run: "pbx_progress_with_media_mode p early mode c = (es, c')"
  shows "dialling_ok c'"
proof (cases "c' = c")
  case False
  from run disjI1 [OF False] show ?thesis
  proof (rule pbx_progress_cases)
    fix call i a f ms
    assume f: "\<And>b. f b = b\<lparr>ap_audio := (if early \<and> ap_audio a = StreamClosed then StreamOpening else ap_audio b),
        ap_audio_transmit := ap_audio_transmit (f b)\<rparr>"
      and c': "c' = advance_transfer_for_pbx p Ringing ((modify_appearance i f
        (modify_call p (\<lambda>call. call\<lparr>pc_outbound_phase := Some PhProgress\<rparr>) c))\<lparr>ct_pending_route_media := ms\<rparr>)"
    have fb: "ap_id (f b) = ap_id b" "ap_sccp_id (f b) = ap_sccp_id b" "ap_pbx_id (f b) = ap_pbx_id b"
      "ap_device_id (f b) = ap_device_id b" "ap_state (f b) = ap_state b" for b by (subst f, simp)+
    have "dialling_ok (modify_appearance i f (modify_call p (\<lambda>call. call\<lparr>pc_outbound_phase := Some PhProgress\<rparr>) c))"
      by (rule quiet_touch_dialling [OF ok]) (simp_all add: same_presentation_def fb)
    then show "dialling_ok c'" unfolding c' by (intro advance_transfer_dialling, elim dialling_ok_cong) simp_all
  qed
qed (use ok in simp)

text \<open>The presentation that collects is the owner of its call, and the call has no barge.\<close>

lemma collecting_owner:
  assumes ok: "dialling_ok c" and a: "appearance_for_call c k = Some a" and col: "collects (ap_state a)"
    and call: "pbx_call_of c (ap_pbx_id a) = Some call"
  shows "appearance_of c (ap_id a) = Some a" "pc_active_appearance call = Some (ap_id a)" "pc_state call = ap_state a"
    "hm_get (ct_barge_groups c) (ap_pbx_id a) = None" "hm_get (ct_shared_control_claims c) (ap_pbx_id a) = None"
    "(pc_pending_pickup call \<noteq> None) = (ap_state a = StPickupCollecting)"
proof -
  note c = dialling_okD(1) [OF ok] and oa = controller_okD(2) [OF dialling_okD(1) [OF ok]]
  show ap: "appearance_of c (ap_id a) = Some a" by (rule appearance_for_owned(1) [OF oa a])
  note own = states_okD [OF controller_okD(3) [OF c] call]
  show "pc_active_appearance call = Some (ap_id a)" by (rule owner_okD(3) [OF own ap refl collects_owning [OF col]])
  show st: "pc_state call = ap_state a" and "hm_get (ct_shared_control_claims c) (ap_pbx_id a) = None"
    by (fact collecting_okD [OF dialling_okD(2) [OF ok] ap col call])+
  show "hm_get (ct_barge_groups c) (ap_pbx_id a) = None"
    by (rule group_connected [OF c call]) (use st col in \<open>cases "ap_state a"; simp\<close>)
  show "(pc_pending_pickup call \<noteq> None) = (ap_state a = StPickupCollecting)" using owner_okD(1) [OF own] st by simp
qed

lemma complete_pickup_dialling:
  assumes ok: "dialling_ok c" and a: "appearance_for_call c k = Some a" and col: "collects (ap_state a)"
    and call: "pbx_call_of c (ap_pbx_id a) = Some call" and run: "complete_pickup a destination pickup k c = (es, c')"
  shows "dialling_ok c'"
proof -
  note co = collecting_owner [OF ok a col call]
  let ?st = "if pp_answer pickup then StConnected else StRinging"
  have c': "c' = modify_appearance (ap_id a) (\<lambda>a. a\<lparr>ap_state := ?st, ap_audio := (if pp_answer pickup then StreamOpening else StreamClosed)\<rparr>)
      (modify_call (ap_pbx_id a) (\<lambda>call. call\<lparr>pc_digit_deadline := None, pc_pending_pickup := None,
         pc_state := ?st, pc_active_appearance := (if pp_answer pickup then Some (ap_id a) else None)\<rparr>) c)"
    using run by (simp add: complete_pickup_def Let_def split: if_splits)
  show ?thesis unfolding c'
    by (rule touch_dialling [OF ok call co(1) refl _ _ _ _ co(4) co(2) collects_owning [OF col]])
      (use co(5) in \<open>auto simp: same_presentation_def\<close>)
qed

lemma route_call_dialling:
  assumes ok: "dialling_ok c" and a: "appearance_for_call c k = Some a" and col: "collects (ap_state a)"
    and call: "pbx_call_of c (ap_pbx_id a) = Some call" "pc_pending_pickup call = None" and run: "route_call a call k c = (es, c')"
  shows "dialling_ok c'"
proof -
  note co = collecting_owner [OF ok a col call(1)]
  define c2 where "c2 = modify_appearance (ap_id a) (\<lambda>a. a\<lparr>ap_state := StCalling\<rparr>)
      (modify_call (ap_pbx_id a) (\<lambda>call. call\<lparr>pc_digit_deadline := None, pc_state := StCalling\<rparr>) c)"
  have ok2: "dialling_ok c2" unfolding c2_def
    by (rule touch_dialling [OF ok call(1) co(1) refl _ _ _ _ co(4) co(2) collects_owning [OF col]])
      (use call co(2) in \<open>auto simp: same_presentation_def\<close>)
  define c3 where "c3 = (if (case for_leg \<lparr>leg_handset_call_id = k, leg_pbx_call_id = ap_pbx_id a\<rparr> (ct_transfers c) of None \<Rightarrow> False
      | Some t \<Rightarrow> tt_consultation t = Some \<lparr>leg_handset_call_id = k, leg_pbx_call_id = ap_pbx_id a\<rparr>)
    then advance_transfer_for_pbx (ap_pbx_id a) Routing c2 else c2)"
  have ok3: "dialling_ok c3" using ok2 advance_transfer_dialling [OF ok2] by (simp add: c3_def)
  obtain es4 c4 where c4: "outbound_route_presentation (ap_pbx_id a) (pc_digits call) c3 = (es4, c4)" by fastforce
  have "c' = c4" using run c4 unfolding route_call_def Let_def c2_def [symmetric] c3_def [symmetric] by simp
  with outbound_route_dialling [OF ok3 c4] show ?thesis by simp
qed

lemma finish_digits_dialling:
  assumes ok: "dialling_ok c" and run: "finish_digits k c = (es, c')"
  shows "dialling_ok c'"
proof (cases "c' = c")
  case False
  from run False obtain a call where a: "appearance_for_call c k = Some a" "collects (ap_state a)"
    "pbx_call_of c (ap_pbx_id a) = Some call" unfolding finish_digits_def by (auto split: option.splits if_splits)
  show ?thesis
  proof (cases "pc_digits call = []")
    case True
    with run a have "c' = modify_call (ap_pbx_id a) (\<lambda>call. call\<lparr>pc_digit_deadline := None\<rparr>) c" by (simp add: finish_digits_def)
    with ok show ?thesis by (auto intro: quiet_call_dialling)
  next
    case False
    with run a have "case pc_pending_pickup call of Some pickup \<Rightarrow> complete_pickup a (pc_digits call) pickup k c = (es, c')
        | None \<Rightarrow> route_call a call k c = (es, c')"
      by (simp add: finish_digits_def split: option.splits)
    then show ?thesis using complete_pickup_dialling [OF ok a] route_call_dialling [OF ok a]
      by (auto split: option.splits)
  qed
qed (use ok in simp)

lemma collect_digit_keeps:
  assumes "collect_digit c st ch now call0 = (overlap, call)"
  shows "pc_id call = pc_id call0" "pc_appearance_ids call = pc_appearance_ids call0" "pc_pending_pickup call = pc_pending_pickup call0"
    "pc_active_appearance call = pc_active_appearance call0" "pc_state call = (if overlap then StCalling else pc_state call0)"
    "overlap \<Longrightarrow> st = StCollecting" "pc_digits call = pc_digits call0 @ [ch]" "pc_context call = pc_context call0"
  using assms by (auto simp: collect_digit_def Let_def split: if_splits)

lemma collecting_not_barged:
  assumes ok: "controller_ok c" and a: "appearance_for_call c k = Some a" and col: "collects (ap_state a)"
  shows "hm_get (ct_barge_by_handset c) k = None"
proof (rule ccontr)
  assume "hm_get (ct_barge_by_handset c) k \<noteq> None"
  then obtain s where "hm_get (ct_barge_by_handset c) k = Some s" by blast
  from barges_okD(5) [OF controller_okD(8) [OF ok] this] a col show False by (auto simp: session_ok_def)
qed

lemma press_collecting:
  assumes ok: "controller_ok c" and a: "appearance_for_call c k = Some a" and col: "collects (ap_state a)"
    and call: "pbx_call_of c (ap_pbx_id a) = Some call0" and ch: "digit_character d = Some ch" "ch \<noteq> ct_dial_terminator c"
    and cd: "collect_digit c (ap_state a) ch now call0 = (overlap, call)"
  shows "press_digit k d now c =
    (let tones = tone_effects (ap_device_id a) k (secondary_tone c call); c1 = modify_call (ap_pbx_id a) (\<lambda>_. call) c in
     if overlap
     then (case outbound_route_presentation (ap_pbx_id a) (pc_digits call)
             (modify_appearance (ap_id a) (\<lambda>a. a\<lparr>ap_state := StCalling\<rparr>) c1) of
         (effects, c3) \<Rightarrow> (tones @ effects @ [Backend (StartRouting (ap_pbx_id a) (pc_context call) (pc_digits call))], c3))
     else (tones, c1))"
proof -
  note k = appearance_for_owned(3) [OF controller_okD(2) [OF ok] a]
  show ?thesis
    using collecting_not_barged [OF ok a col] a col call ch cd k by (simp add: press_digit_def Let_def)
qed

lemma press_digit_dialling:
  assumes ok: "dialling_ok c" and run: "press_digit k d now c = (es, c')"
  shows "dialling_ok c'"
proof (cases "c' = c")
  case False
  from run False obtain ch a where ch: "digit_character d = Some ch" and a: "appearance_for_call c k = Some a"
    unfolding press_digit_def by (auto split: option.splits)
  with run False have col: "collects (ap_state a)" by (auto simp: press_digit_def Let_def split: if_splits)
  show ?thesis
  proof (cases "ch = ct_dial_terminator c")
    case True
    with run ch a col have "finish_digits k c = (es, c')" by (simp add: press_digit_def Let_def)
    then show ?thesis by (rule finish_digits_dialling [OF ok])
  next
    case nt: False
    obtain call0 where call0: "pbx_call_of c (ap_pbx_id a) = Some call0"
      using appearance_for_owned(4) [OF controller_okD(2) [OF dialling_okD(1) [OF ok]] a] by blast
    obtain overlap call where cd: "collect_digit c (ap_state a) ch now call0 = (overlap, call)" by fastforce
    note keeps = collect_digit_keeps [OF cd] and co = collecting_owner [OF ok a col call0]
    note press = press_collecting [OF dialling_okD(1) [OF ok] a col call0 ch nt cd, unfolded run]
    show ?thesis
    proof (cases overlap)
      case ov: False
      with press have "c' = modify_call (ap_pbx_id a) (\<lambda>_. call) c" by simp
      with quiet_call_dialling [OF ok, of "ap_pbx_id a" "\<lambda>_. call"] call0 keeps ov show ?thesis by simp
    next
      case True
      let ?c2 = "modify_appearance (ap_id a) (\<lambda>a. a\<lparr>ap_state := StCalling\<rparr>) (modify_call (ap_pbx_id a) (\<lambda>_. call) c)"
      have "dialling_ok ?c2"
        by (rule touch_dialling [OF ok call0 co(1) refl _ _ _ _ co(4) co(2) collects_owning [OF col]])
          (use True keeps co(2,6) in \<open>auto simp: same_presentation_def\<close>)
      moreover obtain effects c3 where "outbound_route_presentation (ap_pbx_id a) (pc_digits call) ?c2 = (effects, c3)" by fastforce
      ultimately show ?thesis using press True outbound_route_dialling by simp
    qed
  qed
qed (use ok in simp)

lemma enbloc_dialling:
  assumes ok: "dialling_ok c" and run: "enbloc k number c = (es, c')"
  shows "dialling_ok c'"
proof (cases "c' = c")
  case False
  from run False obtain a where "appearance_for_call c k = Some a" "finish_digits k
      (if number \<noteq> [] then modify_call (ap_pbx_id a) (\<lambda>call. call\<lparr>pc_digits := number\<rparr>) c else c) = (es, c')"
    unfolding enbloc_def by (auto split: option.splits if_splits)
  moreover have "dialling_ok (if number \<noteq> [] then modify_call p (\<lambda>call. call\<lparr>pc_digits := number\<rparr>) c else c)" for p
    using ok by (auto intro: quiet_call_dialling)
  ultimately show ?thesis by (blast intro: finish_digits_dialling)
qed (use ok in simp)

lemma speed_dial_dialling:
  assumes ok: "dialling_ok c" and run: "speed_dial k number await now c = (es, c')"
  shows "dialling_ok c'"
proof (cases "\<not> await \<or> c' = c")
  case True
  with ok run enbloc_dialling [OF ok, of k number es c'] show ?thesis by (auto simp: speed_dial_def)
next
  case False
  have quiet: "dialling_ok (modify_call p (\<lambda>call. call\<lparr>pc_digits := ds, pc_last_digit_at := Some now,
      pc_simulated_enbloc_eligible := False, pc_digit_deadline := Some (now + ct_interdigit c)\<rparr>) c)" for p ds
    using ok by (auto intro: quiet_call_dialling)
  from run False show ?thesis
    using quiet finish_digits_dialling [OF quiet]
    unfolding speed_dial_def by (auto simp: Let_def split: option.splits if_splits)
qed

lemma finish_all_dialling:
  assumes "dialling_ok c" and "finish_all ks c = (es, c')"
  shows "dialling_ok c'"
  using assms
proof (induction ks arbitrary: c es)
  case (Cons k ks)
  obtain es1 c1 where c1: "finish_digits k c = (es1, c1)" by fastforce
  from Cons.prems(2) c1 obtain es2 where "finish_all ks c1 = (es2, c')" by (auto split: prod.splits)
  with Cons.IH finish_digits_dialling [OF Cons.prems(1) c1] show ?case by blast
qed simp

lemma expire_digits_dialling:
  assumes "dialling_ok c" and "expire_digits now c = (es, c')"
  shows "dialling_ok c'"
  using finish_all_dialling assms unfolding expire_digits_def by blast

lemma pbx_answer_step_laws:
  "keeps_identity (pbx_answer_step w)" "owning (ap_state (fst (pbx_answer_step w i a))) \<longleftrightarrow> i = w"
  "\<not> collects (ap_state (fst (pbx_answer_step w i a)))"
  by (simp_all add: keeps_identity_def pbx_answer_step_def)

lemma for_appearances_claims:
  "for_appearances f ids c = (es, c') \<Longrightarrow> ct_shared_control_claims c' = ct_shared_control_claims c"
proof (induction ids arbitrary: c es)
  case (Cons i ids)
  show ?case
  proof (cases "appearance_of c i")
    case None
    with Cons show ?thesis by simp
  next
    case (Some a)
    obtain a' x b where f: "f i a = (a', x, b)" by (cases "f i a")
    define c2 where "c2 = (if b then deselect (ap_device_id a') (ap_sccp_id a') (write_appearance i a' c) else write_appearance i a' c)"
    obtain rest where "for_appearances f ids c2 = (rest, c')"
      using Cons.prems Some f by (auto simp: c2_def Let_def split: prod.splits)
    from Cons.IH [OF this] show ?thesis by (simp add: c2_def write_appearance_def deselect_def)
  qed
qed simp

definition answerable :: "pbx_call_id \<Rightarrow> 'x controller \<Rightarrow> bool" where
  "answerable p c =
     (case pbx_call_of c p of None \<Rightarrow> True
      | Some call \<Rightarrow> pc_state call \<noteq> StPickupCollecting
          \<and> (hm_contains (ct_barge_groups c) p \<longrightarrow> pc_active_appearance call \<noteq> None))"

text \<open>What an accepted answer does to the call and to its presentations.\<close>

lemma owner_or_first_cases:
  assumes ok: "controller_ok c" and call: "pbx_call_of c p = Some call" and w: "owner_or_first call = Some w"
  shows "pc_active_appearance call = None \<or> pc_active_appearance call = Some w"
    "\<exists>a. appearance_of c w = Some a \<and> ap_pbx_id a = p"
proof -
  show "pc_active_appearance call = None \<or> pc_active_appearance call = Some w"
    using w by (auto simp: owner_or_first_def split: option.splits)
  show "\<exists>a. appearance_of c w = Some a \<and> ap_pbx_id a = p"
  proof (cases "pc_active_appearance call")
    case None
    with w have "w \<in> set (pc_appearance_ids call)" by (auto simp: owner_or_first_def first_of_def split: list.splits)
    then show ?thesis by (rule index_ok_pbx(3) [OF controller_okD(2) [OF ok] call])
  next
    case (Some i)
    with w owner_okD(2) [OF states_okD [OF controller_okD(3) [OF ok] call] Some] show ?thesis
      by (auto simp: owner_or_first_def)
  qed
qed

lemma pbx_answer_cases:
  assumes "pbx_answer p c = (es, c')" and "c' \<noteq> c \<or> es \<noteq> []"
  obtains call w g es2 c2 where "p \<notin> set (ct_redirect_claims c)" "pbx_call_of c p = Some call"
    "\<not> (pc_state call = StConnected \<and> pc_active_appearance call \<noteq> None)"
    "\<And>q. pc_outbound_phase call = Some q \<Longrightarrow> phase_rank q < phase_rank PhAnswered"
    "owner_or_first call = Some w"
    "\<And>k. g k = k\<lparr>pc_state := StConnected, pc_active_appearance := Some w, pc_privacy := pc_privacy (g k),
      pc_outbound_phase := (if pc_direction k = Outbound \<and> pc_outbound_phase k \<noteq> None then Some PhAnswered else pc_outbound_phase k)\<rparr>"
    "for_appearances (pbx_answer_step w) (pc_appearance_ids call) (modify_call p g c) = (es2, c2)"
    "es = [] \<and> c' = c2 \<or> (\<exists>a media direction. appearance_of c2 w = Some a \<and> es = es2 @ answer_effects media direction a
      \<and> c' = advance_transfer_for_pbx p Connected (present_owner a (ap_sccp_id a) c2))"
proof -
  from assms obtain call where call: "p \<notin> set (ct_redirect_claims c)" "pbx_call_of c p = Some call"
    unfolding pbx_answer_def by (auto split: if_splits option.splits)
  with assms have guards: "\<not> (pc_state call = StConnected \<and> pc_active_appearance call \<noteq> None)"
    "\<not> (case pc_outbound_phase call of None \<Rightarrow> False | Some q \<Rightarrow> phase_rank q \<ge> phase_rank PhAnswered)"
    unfolding pbx_answer_def by (auto split: if_splits)
  with assms call obtain w where w: "owner_or_first call = Some w"
    unfolding pbx_answer_def by (cases "owner_or_first call") (auto split: if_splits)
  define priv where "priv = (case appearance_of c w of None \<Rightarrow> False | Some a \<Rightarrow> ap_privacy a \<or> device_privacy c (ap_device_id a))"
  define g :: "pbx_call \<Rightarrow> pbx_call" where "g = (\<lambda>call. call\<lparr>pc_state := StConnected, pc_active_appearance := Some w,
      pc_privacy := (pc_privacy call \<or> priv),
      pc_outbound_phase := (if pc_direction call = Outbound \<and> pc_outbound_phase call \<noteq> None then Some PhAnswered else pc_outbound_phase call)\<rparr>)"
  obtain es2 c2 where loop: "for_appearances (pbx_answer_step w) (pc_appearance_ids call) (modify_call p g c) = (es2, c2)" by fastforce
  define media where "media = (case appearance_of c w of None \<Rightarrow> StreamClosed
      | Some a \<Rightarrow> if ap_sccp_id a \<in> set (ct_pending_route_media c) then StreamOpening else ap_audio a)"
  have "pbx_answer p c = (case for_appearances (pbx_answer_step w) (pc_appearance_ids call) (modify_call p g c) of
      (effects, c2) \<Rightarrow> (case appearance_of c2 w of None \<Rightarrow> ([], c2)
        | Some a \<Rightarrow> (effects @ answer_effects media (map_option (\<lambda>a. in_direction (ap_info a)) (appearance_of c w)) a,
            advance_transfer_for_pbx p Connected (present_owner a (ap_sccp_id a) c2))))"
    using call guards w unfolding pbx_answer_def g_def priv_def media_def Let_def by simp auto
  with assms(1) loop have "es = [] \<and> c' = c2 \<or> (\<exists>a media direction. appearance_of c2 w = Some a
      \<and> es = es2 @ answer_effects media direction a
      \<and> c' = advance_transfer_for_pbx p Connected (present_owner a (ap_sccp_id a) c2))"
    by (auto split: option.splits)
  moreover have "\<And>q. pc_outbound_phase call = Some q \<Longrightarrow> phase_rank q < phase_rank PhAnswered" using guards(2) by simp
  ultimately show ?thesis using that [OF call guards(1) _ w _ loop] by (simp add: g_def)
qed

lemma present_owner_dialling:
  assumes "dialling_ok c"
  shows "dialling_ok (present_owner a k c)"
proof -
  have "ct_shared_control_claims (present_owner a k c) = ct_shared_control_claims c"
    by (simp add: present_owner_def set_call_selected_def set_active_call_def select_line_def)
  then have "collecting_ok (present_owner a k c) = collecting_ok c"
    unfolding collecting_ok_def by (simp only: selection_fields)
  with assms show ?thesis by (simp add: dialling_ok_def present_owner_ok)
qed

lemma pbx_answer_dialling:
  assumes ok: "dialling_ok c" and safe: "answerable p c" and run: "pbx_answer p c = (es, c')"
  shows "dialling_ok c'"
proof (cases "c' = c")
  case False
  from run disjI1 [OF False] show ?thesis
  proof (rule pbx_answer_cases)
    fix call w g es2 c2
    assume call: "pbx_call_of c p = Some call" and nc: "\<not> (pc_state call = StConnected \<and> pc_active_appearance call \<noteq> None)"
      and w: "owner_or_first call = Some w"
      and g: "\<And>k. g k = k\<lparr>pc_state := StConnected, pc_active_appearance := Some w, pc_privacy := pc_privacy (g k),
        pc_outbound_phase := (if pc_direction k = Outbound \<and> pc_outbound_phase k \<noteq> None then Some PhAnswered else pc_outbound_phase k)\<rparr>"
      and loop: "for_appearances (pbx_answer_step w) (pc_appearance_ids call) (modify_call p g c) = (es2, c2)"
      and c': "es = [] \<and> c' = c2 \<or> (\<exists>a media direction. appearance_of c2 w = Some a \<and> es = es2 @ answer_effects media direction a
        \<and> c' = advance_transfer_for_pbx p Connected (present_owner a (ap_sccp_id a) c2))"
    note c = dialling_okD(1) [OF ok]
    have gk: "pc_id (g k) = pc_id k" "pc_appearance_ids (g k) = pc_appearance_ids k" "pc_active_appearance (g k) = Some w"
      "pc_pending_pickup (g k) = pc_pending_pickup k" "pc_state (g k) = StConnected" for k
      by (subst g, simp)+
    have ng: "hm_get (ct_barge_groups c) p = None"
      using group_connected [OF c call] nc safe call by (cases "pc_state call = StConnected") (auto simp: answerable_def hm_contains_def)
    obtain a where a: "appearance_of c w = Some a" "ap_pbx_id a = p" using owner_or_first_cases(2) [OF c call w] by blast
    note moved = move_call_quietly [OF c call pbx_answer_step_laws(1) a pbx_answer_step_laws(2) _ _ _ _ _ _ ng
        owner_or_first_cases(1) [OF c call w] loop]
    have np: "pc_state call \<noteq> StPickupCollecting" using safe call by (simp add: answerable_def)
    note m = moved [OF gk(1,2,3,4) _ np, unfolded gk(5), simplified]
    have "collecting_ok c2"
    proof (rule collecting_okI)
      show "hm_wf (rg_appearances (ct_registry c2))" using index_ok_wf(2) [OF controller_okD(2) [OF m(1)]] .
      fix i b k assume b: "appearance_of c2 i = Some b" "collects (ap_state b)" "pbx_call_of c2 (ap_pbx_id b) = Some k"
      from b(1,2) have out: "i \<notin> set (pc_appearance_ids call)" and b0: "appearance_of c i = Some b"
        using pbx_answer_step_laws(3) [of w i] unfolding m(2) by (auto split: if_splits)
      then have "ap_pbx_id b \<noteq> p" using index_ok_members [OF controller_okD(2) [OF c] call] by blast
      with b(3) have "pbx_call_of c (ap_pbx_id b) = Some k" unfolding m(3) by simp
      from collecting_okD [OF dialling_okD(2) [OF ok] b0 b(2) this] for_appearances_claims [OF loop]
      show "pc_state k = ap_state b \<and> hm_get (ct_shared_control_claims c2) (ap_pbx_id b) = None" by simp
    qed
    with m(1) have "dialling_ok c2" by (simp add: dialling_ok_def)
    with c' show ?thesis using advance_transfer_dialling present_owner_dialling by blast
  qed
qed (use ok in simp)

end
