(* ===== verification/Dial_Frames.thy ===== *)
theory Dial_Frames
  imports Dial_Laws
begin

text \<open>
  What the other operations of call control leave of the presentations that collect digits:
  all of them keep \<open>collecting_ok\<close>. A calm operation makes no presentation collect, and
  neither moves nor claims the call of one that does.
\<close>

section \<open>Calm operations\<close>

definition calm :: "'x controller \<Rightarrow> 'x controller \<Rightarrow> bool" where
  "calm c c' \<longleftrightarrow> (\<forall>i b. appearance_of c' i = Some b \<longrightarrow> collects (ap_state b) \<longrightarrow>
     appearance_of c i = Some b
     \<and> (\<forall>call'. pbx_call_of c' (ap_pbx_id b) = Some call' \<longrightarrow>
          (\<exists>call. pbx_call_of c (ap_pbx_id b) = Some call \<and> pc_state call' = pc_state call))
     \<and> (hm_get (ct_shared_control_claims c) (ap_pbx_id b) = None \<longrightarrow>
          hm_get (ct_shared_control_claims c') (ap_pbx_id b) = None))"

lemma calmI:
  assumes "\<And>i b. appearance_of c' i = Some b \<Longrightarrow> collects (ap_state b) \<Longrightarrow> appearance_of c i = Some b"
    and "\<And>i b call'. appearance_of c' i = Some b \<Longrightarrow> collects (ap_state b) \<Longrightarrow> pbx_call_of c' (ap_pbx_id b) = Some call' \<Longrightarrow>
      \<exists>call. pbx_call_of c (ap_pbx_id b) = Some call \<and> pc_state call' = pc_state call"
    and "\<And>i b. appearance_of c' i = Some b \<Longrightarrow> collects (ap_state b) \<Longrightarrow>
      hm_get (ct_shared_control_claims c) (ap_pbx_id b) = None \<Longrightarrow> hm_get (ct_shared_control_claims c') (ap_pbx_id b) = None"
  shows "calm c c'"
  unfolding calm_def using assms by blast

lemma calm_refl: "calm c c"
  by (simp add: calm_def)

lemma calmD:
  assumes "calm c c'" and "appearance_of c' i = Some b" and "collects (ap_state b)"
  shows "appearance_of c i = Some b"
    and "pbx_call_of c' (ap_pbx_id b) = Some call' \<Longrightarrow> \<exists>call. pbx_call_of c (ap_pbx_id b) = Some call \<and> pc_state call' = pc_state call"
    and "hm_get (ct_shared_control_claims c) (ap_pbx_id b) = None \<Longrightarrow> hm_get (ct_shared_control_claims c') (ap_pbx_id b) = None"
  using assms unfolding calm_def by blast+

lemma calm_trans [trans]:
  assumes "calm c c'" and "calm c' c''"
  shows "calm c c''"
proof (rule calmI)
  fix i b assume b: "appearance_of c'' i = Some b" "collects (ap_state b)"
  note two = calmD [OF assms(2) b] and one = calmD [OF assms(1) calmD(1) [OF assms(2) b] b(2)]
  show "appearance_of c i = Some b" by (rule one(1))
  show "hm_get (ct_shared_control_claims c'') (ap_pbx_id b) = None" if "hm_get (ct_shared_control_claims c) (ap_pbx_id b) = None"
    by (rule two(3) [OF one(3) [OF that]])
  fix call'' assume "pbx_call_of c'' (ap_pbx_id b) = Some call''"
  from two(2) [OF this] obtain call' where call': "pbx_call_of c' (ap_pbx_id b) = Some call'" "pc_state call'' = pc_state call'" by blast
  from one(2) [OF call'(1)] call'(2)
  show "\<exists>call. pbx_call_of c (ap_pbx_id b) = Some call \<and> pc_state call'' = pc_state call" by simp
qed

lemma calm_collecting:
  assumes "calm c c'" and "collecting_ok c" and "hm_wf (rg_appearances (ct_registry c'))"
  shows "collecting_ok c'"
proof (rule collecting_okI [OF assms(3)])
  fix i b call' assume b: "appearance_of c' i = Some b" "collects (ap_state b)" "pbx_call_of c' (ap_pbx_id b) = Some call'"
  from assms(1) b obtain call where old: "appearance_of c i = Some b" "pbx_call_of c (ap_pbx_id b) = Some call"
    "pc_state call' = pc_state call"
    "hm_get (ct_shared_control_claims c) (ap_pbx_id b) = None \<Longrightarrow> hm_get (ct_shared_control_claims c') (ap_pbx_id b) = None"
    unfolding calm_def by blast
  from collecting_okD [OF assms(2) old(1) b(2) old(2)] old(3,4)
  show "pc_state call' = ap_state b \<and> hm_get (ct_shared_control_claims c') (ap_pbx_id b) = None" by simp
qed

lemma calm_ok:
  assumes "calm c c'" and "dialling_ok c" and "controller_ok c'"
  shows "dialling_ok c'"
  unfolding dialling_ok_def
  using assms(3) calm_collecting [OF assms(1) dialling_okD(2) [OF assms(2)] index_ok_wf(2) [OF controller_okD(2) [OF assms(3)]]] by simp

lemma calm_same:
  assumes "ct_registry c' = ct_registry c" and "\<And>p. hm_get (ct_shared_control_claims c) p = None \<Longrightarrow> hm_get (ct_shared_control_claims c') p = None"
  shows "calm c c'"
  by (rule calmI) (use assms in auto)

lemma selection_claims [simp]:
  "ct_shared_control_claims (set_call_selected d k b c) = ct_shared_control_claims c"
  "ct_shared_control_claims (set_active_call d q c) = ct_shared_control_claims c"
  "ct_shared_control_claims (select_line d l c) = ct_shared_control_claims c"
  "ct_shared_control_claims (present_owner a k c) = ct_shared_control_claims c"
  by (simp_all add: set_call_selected_def set_active_call_def select_line_def present_owner_def)

section \<open>Answer, hold, resume, steal and switch\<close>

lemma calm_loop:
  assumes ok: "controller_ok c" and call: "pbx_call_of c p = Some call"
    and f: "\<And>i a. \<not> collects (ap_state (fst (f i a)))"
    and run: "for_appearances f (pc_appearance_ids call) c0 = (es, c')"
    and c0: "rg_appearances (ct_registry c0) = rg_appearances (ct_registry c)" "ct_devices c0 = ct_devices c"
      "\<And>q. q \<noteq> p \<Longrightarrow> pbx_call_of c0 q = pbx_call_of c q"
      "\<And>q. q \<noteq> p \<Longrightarrow> hm_get (ct_shared_control_claims c0) q = hm_get (ct_shared_control_claims c) q"
  shows "calm c c'"
proof -
  note okD = controller_okD [OF ok]
  have wf: "hm_wf (rg_appearances (ct_registry c0))" "hm_wf (ct_devices c0)"
    using index_ok_wf(2) [OF okD(2)] devices_okD(1) [OF okD(4)] by (simp_all add: c0(1,2))
  from for_appearances_run [OF index_ok_pbx(2) [OF okD(2) call] wf run]
  obtain apps devs where c': "c' = c0\<lparr>ct_registry := (ct_registry c0)\<lparr>rg_appearances := apps\<rparr>, ct_devices := devs\<rparr>"
    and apps: "\<And>i. hm_get apps i = (if i \<in> set (pc_appearance_ids call)
      then map_option (\<lambda>a. fst (f i a)) (appearance_of c0 i) else appearance_of c0 i)"
    by blast
  have out: "appearance_of c i = Some b \<and> ap_pbx_id b \<noteq> p" if "appearance_of c' i = Some b" "collects (ap_state b)" for i b
  proof -
    have "appearance_of c' i = (if i \<in> set (pc_appearance_ids call)
      then map_option (\<lambda>a. fst (f i a)) (appearance_of c i) else appearance_of c i)"
      by (simp add: c' apps c0)
    with that f have "i \<notin> set (pc_appearance_ids call)" "appearance_of c i = Some b" by (auto split: if_splits)
    with index_ok_members [OF okD(2) call] show ?thesis by blast
  qed
  show ?thesis
    by (rule calmI) (use out c0 in \<open>auto simp: c'\<close>)
qed

lemma steps_not_collecting:
  "\<not> collects (ap_state (fst (hold_step w i a)))" "\<not> collects (ap_state (fst (answer_step w i a)))"
  "\<not> collects (ap_state (fst (resume_step w q i a)))" "\<not> collects (ap_state (fst (steal_step w q i a)))"
  by (simp_all add: hold_step_def answer_step_def resume_step_def steal_step_def Let_def)

lemma hold_claims:
  assumes "hold k c = (es, c')" and "hm_get (ct_shared_control_claims c) q = None"
  shows "hm_get (ct_shared_control_claims c') q = None"
proof (cases "c' = c")
  case False
  from assms(1) False obtain a call where a: "appearance_for_call c k = Some a" "pbx_call_of c (ap_pbx_id a) = Some call"
    unfolding hold_def by (auto split: option.splits if_splits)
  let ?loop = "for_appearances (hold_step (ap_id a)) (pc_appearance_ids call)
      ((modify_call (ap_pbx_id a) (\<lambda>call. call\<lparr>pc_state := StHeld\<rparr>) c)
        \<lparr>ct_shared_control_claims := hm_remove (ap_pbx_id a) (ct_shared_control_claims c)\<rparr>)"
  obtain es3 c3 where loop: "?loop = (es3, c3)" by fastforce
  have "ct_shared_control_claims c' = ct_shared_control_claims c3"
    using assms(1) False a loop unfolding hold_def by (auto simp: Let_def split: if_splits option.splits)
  with for_appearances_claims [OF loop] assms(2) show ?thesis by simp
qed (use assms in simp)

lemma hold_calm:
  assumes ok: "controller_ok c" and run: "hold k c = (es, c')"
  shows "calm c c'"
proof (cases "c' = c")
  case False
  show ?thesis
  proof (rule hold_cases [OF run False])
    fix owner call es3 c3 assume call: "pbx_call_of c (ap_pbx_id owner) = Some call"
      and loop: "for_appearances (hold_step (ap_id owner)) (pc_appearance_ids call)
        (c\<lparr>ct_registry := (ct_registry c)\<lparr>rg_pbx := hm_modify (ap_pbx_id owner) (\<lambda>call. call\<lparr>pc_state := StHeld\<rparr>)
              (rg_pbx (ct_registry c))\<rparr>,
           ct_shared_control_claims := hm_remove (ap_pbx_id owner) (ct_shared_control_claims c)\<rparr>) = (es3, c3)"
      and reg: "ct_registry c' = ct_registry c3"
    have "calm c c3" by (rule calm_loop [OF ok call steps_not_collecting(1) loop]) simp_all
    then show ?thesis using hold_claims [OF run] unfolding calm_def reg by blast
  qed
qed (simp add: calm_refl)

lemma phone_answer_calm:
  assumes ok: "controller_ok c" and run: "phone_answer k c = (es, c')"
  shows "calm c c'"
proof (cases "es = []")
  case True
  with phone_answer_refused [OF run [unfolded True]]
  have "ct_registry c' = ct_registry c \<and> ct_shared_control_claims c' = ct_shared_control_claims c"
    by (auto simp: cancel_auto_answers_for_pbx_def)
  then show ?thesis by (intro calm_same) simp_all
next
  case False
  from run False show ?thesis
  proof (rule phone_answer_cases)
    fix winner call c2 held c3 es5 c5
    assume winner: "appearance_for_call c k = Some winner" and call: "pbx_call_of c (ap_pbx_id winner) = Some call"
      and ring: "pc_state call = StRinging"
      and c2: "c2 = (cancel_auto_answers_for_pbx (ap_pbx_id winner) c)\<lparr>ct_call_waiting_tones := hm_remove k (ct_call_waiting_tones c)\<rparr>"
      and held: "held = [] \<and> c3 = c2 \<or> (\<exists>q. hold q c2 = (held, c3))"
      and loop: "for_appearances (answer_step (ap_id winner)) (pc_appearance_ids call)
        (modify_call (ap_pbx_id winner) (\<lambda>call. call\<lparr>pc_state := StConnected, pc_active_appearance := Some (ap_id winner),
           pc_privacy := (pc_privacy call \<or> ap_privacy winner \<or> device_privacy c2 (ap_device_id winner))\<rparr>) c3) = (es5, c5)"
      and c': "c' = present_owner winner k (c5\<lparr>ct_pending_phone_answers :=
        hm_insert (ap_sccp_id winner) (ap_pbx_id winner) (ct_pending_phone_answers c5)\<rparr>)"
    note c3 = phone_answer_held [OF ok winner call ring c2 held]
    have ok2: "controller_ok c2" unfolding c2 by (rule quiet_ok(1) [OF ok])
    have "calm c c2" by (rule calm_same) (simp_all add: c2 cancel_auto_answers_for_pbx_def)
    also have "calm c2 c3" using held calm_refl hold_calm [OF ok2] by auto
    also have "calm c3 c5" by (rule calm_loop [OF c3(1,2) steps_not_collecting(2) loop]) simp_all
    also have "calm c5 c'" by (rule calm_same) (simp_all add: c')
    finally show ?thesis .
  qed
qed

lemma resume_calm:
  assumes ok: "controller_ok c" and run: "resume k c = (es, c')"
  shows "calm c c'"
proof (cases "c' = c")
  case False
  from run False obtain a call where a: "appearance_for_call c k = Some a" and call: "pbx_call_of c (ap_pbx_id a) = Some call"
    unfolding resume_def by (auto split: option.splits if_splits)
  define c2 where "c2 = (let c1 = modify_call (ap_pbx_id a) (\<lambda>call. call\<lparr>pc_state := StConnected, pc_active_appearance := Some (ap_id a),
      pc_privacy := (pc_privacy call \<or> ap_privacy a \<or> device_privacy c (ap_device_id a))\<rparr>) c in
    if pc_active_appearance call \<noteq> Some (ap_id a)
    then c1\<lparr>ct_shared_control_claims := hm_insert (ap_pbx_id a) (Steal (ap_id a)) (ct_shared_control_claims c1)\<rparr> else c1)"
  obtain es3 c3 where loop: "for_appearances (resume_step (ap_id a) (pc_active_appearance call)) (pc_appearance_ids call) c2 = (es3, c3)"
    by fastforce
  have c': "c' = present_owner a k c3"
    using run False a call loop unfolding resume_def c2_def Let_def by (auto split: if_splits)
  have "calm c c3"
    by (rule calm_loop [OF ok call steps_not_collecting(3) loop]) (simp_all add: c2_def Let_def modify_call_def)
  also have "calm c3 c'" by (rule calm_same) (simp_all add: c')
  finally show ?thesis .
qed (simp add: calm_refl)

lemma steal_calm:
  assumes ok: "controller_ok c" and run: "steal k c = (es, c')"
  shows "calm c c'"
proof (cases "c' = c")
  case False
  from run False obtain a call where a: "appearance_for_call c k = Some a" and call: "pbx_call_of c (ap_pbx_id a) = Some call"
    unfolding steal_def by (auto split: option.splits if_splits)
  define c2 where "c2 = (let c1 = modify_call (ap_pbx_id a) (\<lambda>call. call\<lparr>pc_active_appearance := Some (ap_id a),
      pc_privacy := (pc_privacy call \<or> ap_privacy a \<or> device_privacy c (ap_device_id a))\<rparr>) c in
    c1\<lparr>ct_shared_control_claims := hm_insert (ap_pbx_id a) (Steal (ap_id a)) (ct_shared_control_claims c1)\<rparr>)"
  obtain es3 c3 where loop: "for_appearances (steal_step (ap_id a) (pc_active_appearance call)) (pc_appearance_ids call) c2 = (es3, c3)"
    by fastforce
  have c': "c' = set_call_selected (ap_device_id a) k True (select_line (ap_device_id a) (ap_line_instance a) c3)"
    using run False a call loop unfolding steal_def c2_def Let_def by (auto split: if_splits)
  have "calm c c3"
    by (rule calm_loop [OF ok call steps_not_collecting(4) loop]) (simp_all add: c2_def Let_def modify_call_def)
  also have "calm c3 c'" by (rule calm_same) (simp_all add: c')
  finally show ?thesis .
qed (simp add: calm_refl)

lemma switch_calm:
  assumes ok: "controller_ok c" and run: "switch_active_call d k c = (x, c')"
  shows "calm c c'"
proof (cases "c' = c")
  case False
  from run False obtain target dev where target: "appearance_for_call c k = Some target"
    and dev: "hm_get (ct_devices c) d = Some dev"
    unfolding switch_active_call_def by (auto split: option.splits if_splits)
  define busy where "busy = (case rd_active_call dev of None \<Rightarrow> None
    | Some k \<Rightarrow> (case call_state_of c k of None \<Rightarrow> None | Some s \<Rightarrow> if talking s then Some k else None))"
  obtain held c1 where hc: "(case busy of None \<Rightarrow> ([], c) | Some k \<Rightarrow> hold k c) = (held, c1)" by fastforce
  then have c1: "calm c c1" "controller_ok c1"
    using ok hold_keeps(1) [OF ok] hold_calm [OF ok] calm_refl by (auto split: option.splits)
  let ?act = "if ap_state target = StRinging then phone_answer k c1
     else if ap_state target \<in> {StHeld, StSharedHeld} then resume k c1
     else ([Handset (SetCallState d k HsConnected False)], select_line d (ap_line_instance target) (set_active_call d (Some k) c1))"
  obtain activate c2 where act: "?act = (activate, c2)" by (cases ?act)
  have "calm c1 (select_line d (ap_line_instance target) (set_active_call d (Some k) c1))" by (rule calm_same) simp_all
  with act have "calm c1 c2"
    using phone_answer_calm [OF c1(2)] resume_calm [OF c1(2)] by (auto split: if_splits)
  moreover have "c' = c1 \<or> c' = c2"
    using run False target dev hc act unfolding switch_active_call_def
    by (simp add: Let_def busy_def [symmetric] split: if_splits)
  ultimately show ?thesis using c1(1) calm_trans by blast
qed (simp add: calm_refl)

section \<open>Removals\<close>

lemma remove_appearance_calm: "calm c (snd (remove_appearance i c))"
proof (cases "appearance_of c i")
  case None
  then show ?thesis by (simp add: remove_appearance_absent calm_refl)
next
  case (Some a)
  define r where "r = snd (remove_appearance i c)"
  have app: "appearance_of r j = (if j = i then None else appearance_of c j)" for j
    using Some by (simp add: r_def remove_appearance_def unlink_appearance_def)
  have pbx: "pbx_call_of r q = Some k \<Longrightarrow> \<exists>k0. pbx_call_of c q = Some k0 \<and> pc_state k = pc_state k0" for q k
    using Some by (cases "q = ap_pbx_id a") (auto simp: r_def remove_appearance_def unlink_appearance_def)
  have claims: "hm_get (ct_shared_control_claims c) q = None \<Longrightarrow> hm_get (ct_shared_control_claims r) q = None" for q
    using Some by (simp add: r_def remove_appearance_def unlink_appearance_def)
  show ?thesis unfolding r_def [symmetric]
  proof (rule calmI)
    fix j b assume b: "appearance_of r j = Some b"
    then show "appearance_of c j = Some b" by (simp add: app split: if_splits)
    show "hm_get (ct_shared_control_claims r) (ap_pbx_id b) = None" if "hm_get (ct_shared_control_claims c) (ap_pbx_id b) = None"
      by (rule claims [OF that])
    show "\<exists>call. pbx_call_of c (ap_pbx_id b) = Some call \<and> pc_state call' = pc_state call"
      if "pbx_call_of r (ap_pbx_id b) = Some call'" for call' by (rule pbx [OF that])
  qed
qed

lemma remove_appearances_calm: "calm c (fold (\<lambda>i. snd \<circ> remove_appearance i) ids c)"
proof (induction ids arbitrary: c)
  case (Cons i ids)
  have "calm c (snd (remove_appearance i c))" by (rule remove_appearance_calm)
  also have "calm (snd (remove_appearance i c)) (fold (\<lambda>i. snd \<circ> remove_appearance i) ids (snd (remove_appearance i c)))" by (rule Cons.IH)
  finally show ?case by (simp add: comp_def)
qed (simp add: calm_refl)

lemma drop_call_calm: "calm c (c\<lparr>ct_registry := (ct_registry c)\<lparr>rg_pbx := hm_remove p (rg_pbx (ct_registry c))\<rparr>\<rparr>)"
  by (rule calmI) (auto split: if_splits)

lemma remove_pbx_call_calm: "calm c (snd (remove_pbx_call p c))"
proof -
  have "calm c (release_pbx_claims p c)"
    by (rule calm_same) (simp_all add: release_pbx_claims_def cancel_auto_answers_for_pbx_def)
  also have "calm (release_pbx_claims p c) (snd (remove_pbx_call p c))"
  proof (cases "pbx_call_of (release_pbx_claims p c) p")
    case (Some call)
    show ?thesis
      unfolding remove_pbx_call_def Let_def Some option.case snd_conv
      by (rule calm_trans [OF remove_appearances_calm drop_call_calm])
  qed (simp add: remove_pbx_call_def calm_refl)
  finally show ?thesis .
qed

lemma end_barge_calm:
  assumes "end_barge_internal k joined created restore c = (es, c')"
  shows "calm c c'"
proof (cases "hm_get (ct_barge_by_handset c) k")
  case None
  with assms show ?thesis by (simp add: end_barge_internal_def calm_refl)
next
  case (Some session)
  define c1 where "c1 = c\<lparr>ct_barge_by_handset := hm_remove k (ct_barge_by_handset c),
       ct_barge_by_pbx := hm_remove (bs_barger_call_id session) (ct_barge_by_pbx c),
       ct_registry := (ct_registry c)\<lparr>rg_pbx := hm_remove (bs_barger_call_id session) (rg_pbx (ct_registry c))\<rparr>\<rparr>"
  obtain b c2 where c2: "leave_group k session c1 = (b, c2)" by fastforce
  obtain es3 c3 where c3: "restore_barged k session restore c2 = (es3, c3)" by fastforce
  have "calm c c1" by (rule calmI) (auto simp: c1_def split: if_splits)
  also have "calm c1 c2" by (rule calm_same) (use c2 in \<open>auto simp: leave_group_def Let_def split: if_splits\<close>)
  also have "calm c2 c3"
  proof (cases "snd (restore_barged k session restore c2) = c2 \<or> (\<exists>i. c3 = snd (remove_appearance i c2))")
    case True
    with c3 calm_refl remove_appearance_calm show ?thesis by auto
  next
    case False
    with c3 obtain i a where "c3 = write_appearance i (a\<lparr>ap_state := StRemoteInUse, ap_audio := StreamClosed,
        ap_audio_transmit := StreamClosed, ap_video := close_streams (ap_video a)\<rparr>) c2"
      by (auto simp: restore_barged_def split: option.splits if_splits)
    then show ?thesis by (intro calmI) (auto simp: write_appearance_def split: if_splits)
  qed
  finally have "calm c c3" .
  with assms Some c2 c3 show ?thesis by (simp add: end_barge_internal_def Let_def c1_def)
qed

lemma end_barges_for_target_calm:
  assumes "end_barges_for_target p c = (es, c')"
  shows "calm c c'"
proof -
  have run: "calm d (snd (fold (\<lambda>k (effects, c). case end_barge_internal k True True False c of (es, c') \<Rightarrow> (effects @ es, c')) ks (xs, d)))"
    for ks xs and d :: "'a controller"
  proof (induction ks arbitrary: xs d)
    case (Cons k ks)
    obtain es1 d1 where d1: "end_barge_internal k True True False d = (es1, d1)" by fastforce
    from calm_trans [OF end_barge_calm [OF d1] Cons.IH [of d1 "xs @ es1"]] show ?case by (simp add: d1)
  qed (simp add: calm_refl)
  show ?thesis using run [of c] assms unfolding end_barges_for_target_def by (metis snd_conv)
qed

lemma hangup_calm:
  assumes "hangup_ordinary k cleanup c = (es, c')"
  shows "calm c c'"
proof (cases "hm_contains (ct_barge_by_handset c) k")
  case True
  with assms end_barge_calm show ?thesis by (auto simp: hangup_ordinary_def)
next
  case False
  with assms have "c' = c \<or> (\<exists>i. c' = snd (remove_appearance i c)) \<or> (\<exists>p. c' = snd (remove_pbx_call p c))"
    by (auto simp: hangup_ordinary_def split: option.splits if_splits)
  then show ?thesis using calm_refl remove_appearance_calm remove_pbx_call_calm by blast
qed

lemma pbx_hangup_calm:
  assumes "pbx_hangup_ordinary p c = (es, c')"
  shows "calm c c'"
proof -
  obtain es1 c1 where c1: "end_barges_for_target p c = (es1, c1)" by fastforce
  with assms have "c' = c1 \<or> c' = snd (remove_pbx_call p c1)" by (auto simp: pbx_hangup_ordinary_def split: option.splits)
  with end_barges_for_target_calm [OF c1] calm_trans [OF _ remove_pbx_call_calm] show ?thesis by blast
qed

lemma redirects_calm:
  "calm c (c\<lparr>ct_redirect_claims := rs\<rparr>)" "calm c (c\<lparr>ct_voicemail := v\<rparr>)" "calm c (c\<lparr>ct_voicemail := v, ct_redirect_claims := rs\<rparr>)"
  by (rule calm_same; simp)+

lemma forward_calm:
  "calm c (snd (claim_ringing_forward p c))" "calm c (snd (complete_ringing_forward p c))"
  "calm c (snd (rollback_ringing_forward p c))"
proof -
  show "calm c (snd (claim_ringing_forward p c))" "calm c (snd (rollback_ringing_forward p c))"
    by (simp_all add: claim_ringing_forward_def rollback_ringing_forward_def redirects_calm calm_refl)
  let ?c = "c\<lparr>ct_redirect_claims := removeAll p (ct_redirect_claims c)\<rparr>"
  have "calm ?c (snd (forward_ringing_call p ?c))"
    using remove_pbx_call_calm [of ?c p] calm_refl [of ?c] by (auto simp: forward_ringing_call_def split: option.split)
  from calm_trans [OF redirects_calm(1) this] show "calm c (snd (complete_ringing_forward p c))"
    by (simp add: complete_ringing_forward_def calm_refl)
qed

lemma cancel_inbound_offer_calm:
  assumes "cancel_inbound_offer k c = (x, c')"
  shows "calm c c'"
proof (cases "c' = c")
  case False
  define c0 where "c0 = c\<lparr>ct_pending_auto_answers := hm_remove k (ct_pending_auto_answers c)\<rparr>"
  from assms False obtain a call where a: "appearance_for_call c k = Some a" "pbx_call_of c (ap_pbx_id a) = Some call"
    unfolding cancel_inbound_offer_def by (auto split: option.splits)
  with assms False have "c' = snd (remove_appearance (ap_id a) c0)
      \<or> c' = (snd (remove_appearance (ap_id a) c0))\<lparr>ct_registry := (ct_registry (snd (remove_appearance (ap_id a) c0)))
        \<lparr>rg_pbx := hm_remove (ap_pbx_id a) (rg_pbx (ct_registry (snd (remove_appearance (ap_id a) c0))))\<rparr>\<rparr>"
    unfolding cancel_inbound_offer_def c0_def by (auto simp: Let_def split: option.splits if_splits)
  moreover have "calm c c0" by (rule calm_same) (simp_all add: c0_def)
  then have "calm c (snd (remove_appearance (ap_id a) c0))" using calm_trans remove_appearance_calm by blast
  ultimately show ?thesis using calm_trans [OF _ drop_call_calm] by auto
qed (simp add: calm_refl)

lemma voicemail_calm:
  "calm c (snd (begin_immediate_divert d k t c))" "calm c (snd (abort_voicemail d i c))"
  "calm c (snd (complete_voicemail_native d i p c))"
proof -
  have quiet: "calm c c'" if "ct_registry c' = ct_registry c" "ct_shared_control_claims c' = ct_shared_control_claims c" for c'
    by (rule calm_same) (simp_all add: that)
  show "calm c (snd (begin_immediate_divert d k t c))"
    by (rule quiet) (auto simp: begin_immediate_divert_def begin_voicemail_claim_def Let_def
        split: option.split prod.split sum.split)
  show "calm c (snd (abort_voicemail d i c))"
    by (rule quiet) (auto simp: abort_voicemail_def split: prod.split sum.split)
  have "snd (voicemail_succeeded d i c) = c \<or> (\<exists>v. snd (voicemail_succeeded d i c) = c\<lparr>ct_voicemail := v\<rparr>)
      \<or> (\<exists>v rs q. snd (voicemail_succeeded d i c) = snd (remove_pbx_call q (c\<lparr>ct_voicemail := v, ct_redirect_claims := rs\<rparr>)))"
    by (fastforce simp: voicemail_succeeded_def Let_def split: option.split prod.split sum.split)
  then have "calm c (snd (voicemail_succeeded d i c))"
    using calm_refl redirects_calm(2,3) calm_trans remove_pbx_call_calm by (metis (no_types))
  then show "calm c (snd (complete_voicemail_native d i p c))"
    by (auto simp: complete_voicemail_native_def calm_refl split: prod.splits sum.splits)
qed

section \<open>New presentations and barges\<close>

lemma attach_calm:
  assumes run: "with_registry (attach_appearance a) c = (b, c')" and st: "\<not> collects (ap_state a)"
  shows "calm c c'"
proof (cases b)
  case False
  with run attach_appearance_refused [of a "ct_registry c"] show ?thesis
    by (auto simp: with_registry_def calm_refl split: prod.splits)
next
  case True
  with run obtain r' where r': "attach_appearance a (ct_registry c) = (True, r')" "c' = c\<lparr>ct_registry := r'\<rparr>"
    by (auto simp: with_registry_def split: prod.splits)
  show ?thesis
    by (rule calmI) (use st in \<open>auto simp: r'(2) attach_appearance_accepted(4) [OF r'(1)] split: if_splits\<close>)
qed

lemma insert_views:
  assumes ok: "controller_ok c" and ins: "insert_pbx_call call a (ct_registry c) = (True, r')"
  shows "hm_get (rg_appearances r') i = (if i = ap_id a then Some a else appearance_of c i)"
    and "appearance_of c i = Some b \<Longrightarrow> hm_get (rg_pbx r') (ap_pbx_id b) = pbx_call_of c (ap_pbx_id b)"
    and "hm_get (rg_pbx r') (ap_pbx_id a) = Some call' \<Longrightarrow> pc_state call' = pc_state call"
    and "hm_get (ct_shared_control_claims c) (ap_pbx_id a) = None"
proof -
  note acc = insert_pbx_call_accepted [OF ins] and at = attach_appearance_accepted(4) [OF insert_pbx_call_accepted(4) [OF ins]]
  show "hm_get (rg_appearances r') i = (if i = ap_id a then Some a else appearance_of c i)" by (simp add: at)
  show "hm_get (rg_pbx r') (ap_pbx_id b) = pbx_call_of c (ap_pbx_id b)" if b: "appearance_of c i = Some b"
  proof -
    obtain k where "pbx_call_of c (ap_pbx_id b) = Some k" using index_ok_appearance(4) [OF controller_okD(2) [OF ok] b] by blast
    with acc(1,3) have "ap_pbx_id b \<noteq> ap_pbx_id a" by auto
    with acc(1) show ?thesis by (simp add: at)
  qed
  show "pc_state call' = pc_state call" if "hm_get (rg_pbx r') (ap_pbx_id a) = Some call'"
    using that acc(1) by (auto simp: at)
  have none: "pbx_call_of c (ap_pbx_id a) = None" using acc(1,3) by simp
  show "hm_get (ct_shared_control_claims c) (ap_pbx_id a) = None"
  proof (rule ccontr)
    assume "hm_get (ct_shared_control_claims c) (ap_pbx_id a) \<noteq> None"
    then obtain cl where cl: "hm_get (ct_shared_control_claims c) (ap_pbx_id a) = Some cl" by blast
    show False
    proof (cases cl)
      case (Steal w)
      with claims_okD(2) [OF controller_okD(7) [OF ok]] cl none show False by fastforce
    next
      case (Barge br)
      with claims_okD(3) [OF controller_okD(7) [OF ok], of "ap_pbx_id a" br] cl
      obtain g where "hm_get (ct_barge_groups c) (ap_pbx_id a) = Some g" by blast
      from barges_okD(4) [OF controller_okD(8) [OF ok] this] none show False by (simp add: group_ok_def)
    qed
  qed
qed

lemma insert_dialling:
  assumes ok: "dialling_ok c" and run: "with_registry (insert_pbx_call call a) c = (b, c')" and ok': "controller_ok c'"
    and st: "pc_state call = ap_state a"
  shows "dialling_ok c'"
proof (cases b)
  case False
  with run ok insert_pbx_call_refused [of call a "ct_registry c"] show ?thesis
    by (auto simp: with_registry_def split: prod.splits)
next
  case True
  with run obtain r' where r': "insert_pbx_call call a (ct_registry c) = (True, r')" "c' = c\<lparr>ct_registry := r'\<rparr>"
    by (auto simp: with_registry_def split: prod.splits)
  note v = insert_views [OF dialling_okD(1) [OF ok] r'(1)]
  have "collecting_ok c'"
  proof (rule collecting_okI)
    show "hm_wf (rg_appearances (ct_registry c'))" by (rule index_ok_wf(2) [OF controller_okD(2) [OF ok']])
    fix i x k assume x: "appearance_of c' i = Some x" "collects (ap_state x)" "pbx_call_of c' (ap_pbx_id x) = Some k"
    show "pc_state k = ap_state x \<and> hm_get (ct_shared_control_claims c') (ap_pbx_id x) = None"
    proof (cases "i = ap_id a")
      case True
      with x v(1) have "x = a" by (simp add: r'(2))
      with x v(3,4) st show ?thesis by (simp add: r'(2))
    next
      case False
      with x v(1) have old: "appearance_of c i = Some x" by (simp add: r'(2))
      with x(3) v(2) have "pbx_call_of c (ap_pbx_id x) = Some k" by (simp add: r'(2))
      from collecting_okD [OF dialling_okD(2) [OF ok] old x(2) this] show ?thesis by (simp add: r'(2))
    qed
  qed
  with ok' show ?thesis by (simp add: dialling_ok_def)
qed

lemma allocate_dialling:
  assumes "dialling_ok c"
  shows "dialling_ok (snd (allocate_pbx_id c))" "dialling_ok (snd (allocate_appearance_id c))"
proof -
  have "calm c (snd (allocate_pbx_id c))" "calm c (snd (allocate_appearance_id c))"
    by (rule calm_same; simp add: allocate_pbx_id_def allocate_appearance_id_def split: prod.split)+
  then show "dialling_ok (snd (allocate_pbx_id c))" "dialling_ok (snd (allocate_appearance_id c))"
    using calm_ok assms allocate_ids_ok dialling_okD(1) [OF assms] by blast+
qed

lemma begin_phone_call_dialling:
  assumes ok: "dialling_ok c" and run: "begin_phone_call k b codec now c = (es, c')"
  shows "dialling_ok c'"
proof (cases "c' = c")
  case False
  obtain pbx c1 where c1: "allocate_pbx_id c = (pbx, c1)" by fastforce
  obtain i c2 where c2: "allocate_appearance_id c1 = (i, c2)" by fastforce
  have ok2: "dialling_ok c2" using allocate_dialling(1) [OF ok] allocate_dialling(2) [of c1] c1 c2 by simp
  let ?ins = "with_registry (insert_pbx_call
      (outbound_call pbx i b (la_privacy (lb_appearance b) \<or> device_privacy c1 (lb_device_id b)) now c2)
      (new_appearance i k pbx b StCollecting (call_info_default\<lparr>in_direction := Outbound,
              in_calling_name := lc_caller_name (lb_line b), in_calling_number := lc_caller_number (lb_line b)\<rparr>) codec)) c2"
  obtain inserted c3 where c3: "?ins = (inserted, c3)" by fastforce
  have "controller_ok c3"
    by (rule insert_ok [OF dialling_okD(1) [OF ok2] c3]) (simp_all add: outbound_call_def new_appearance_def)
  with insert_dialling [OF ok2 c3] have "dialling_ok c3" by (simp add: outbound_call_def new_appearance_def)
  moreover have "c' = c3 \<or> c' = set_call_selected (lb_device_id b) k True
      (set_active_call (lb_device_id b) (Some k) (select_line (lb_device_id b) (lb_line_instance b) c3))"
    using run False c1 c2 c3 unfolding begin_phone_call_def by (auto simp: Let_def split: if_splits)
  then have "calm c3 c'" by (auto intro!: calm_same)
  ultimately show ?thesis using calm_ok begin_phone_call_ok [OF dialling_okD(1) [OF ok] run] by blast
qed (use ok in simp)

lemma begin_additional_dialling:
  assumes ok: "dialling_ok c" and run: "begin_additional_phone_call k b codec now c = (x, c')"
  shows "dialling_ok c'"
proof (cases "c' = c")
  case False
  define active where "active = Option.bind (hm_get (ct_devices c) (lb_device_id b)) rd_active_call"
  let ?held = "case active of None \<Rightarrow> ([], c)
    | Some k \<Rightarrow> (case call_state_of c k of None \<Rightarrow> ([], c) | Some s \<Rightarrow> if talking s then hold k c else ([], c))"
  obtain held c1 where hc: "?held = (held, c1)" by fastforce
  note cok = dialling_okD(1) [OF ok]
  from hc have "c1 = c \<or> (\<exists>q. hold q c = (held, c1))" by (auto split: option.splits if_splits)
  then have ok1: "dialling_ok c1" using ok calm_ok [OF hold_calm [OF cok] ok hold_keeps(1) [OF cok]] by blast
  obtain created c2 where c2: "begin_phone_call k b codec now c1 = (created, c2)" by fastforce
  have "c' = c2"
    using run False hc c2 unfolding begin_additional_phone_call_def
    by (simp add: Let_def active_def [symmetric] split: if_splits)
  with begin_phone_call_dialling [OF ok1 c2] show ?thesis by simp
qed (use ok in simp)

lemma claim_pbx_id_dialling:
  assumes "dialling_ok c"
  shows "dialling_ok (c\<lparr>ct_next_pbx_id := max (ct_next_pbx_id c) n\<rparr>)"
  by (rule calm_ok [OF calm_same assms claim_pbx_id_ok [OF dialling_okD(1) [OF assms]]]) simp_all

lemma begin_asterisk_call_dialling:
  assumes ok: "dialling_ok c"
  shows "dialling_ok (begin_asterisk_call k p b codec c)"
proof (cases "begin_asterisk_call k p b codec c = c")
  case False
  define c1 where "c1 = c\<lparr>ct_next_pbx_id := max (ct_next_pbx_id c) (saturating_succ p)\<rparr>"
  obtain i c2 where c2: "allocate_appearance_id c1 = (i, c2)" by fastforce
  have "dialling_ok c1" unfolding c1_def by (rule claim_pbx_id_dialling [OF ok])
  then have ok2: "dialling_ok c2" using allocate_dialling(2) [of c1] c2 by simp
  obtain x c3 where c3: "with_registry (insert_pbx_call (inbound_call p (lc_number (lb_line b)) (lc_context (lb_line b)))
      (new_appearance i k p b StRinging (inbound_info b) codec)) c2 = (x, c3)" by fastforce
  have ok3: "controller_ok c3"
    by (rule insert_ok [OF dialling_okD(1) [OF ok2] c3]) (simp_all add: inbound_call_def new_appearance_def)
  have "dialling_ok c3"
    by (rule insert_dialling [OF ok2 c3 ok3]) (simp add: inbound_call_def new_appearance_def)
  moreover have "begin_asterisk_call k p b codec c = c3"
    using False c2 c3 unfolding begin_asterisk_call_def by (auto simp: Let_def c1_def split: if_splits)
  ultimately show ?thesis by simp
qed (use ok in simp)

lemma attach_offers_calm:
  assumes "attach_offers p xs c = (offers, c')"
  shows "calm c c'"
  using assms
proof (induction xs arbitrary: c offers)
  case (Cons x xs)
  obtain i c1 where c1: "allocate_appearance_id c = (i, c1)" by fastforce
  obtain b c2 where c2: "with_registry (attach_appearance (inbound_call_appearance i p x)) c1 = (b, c2)" by fastforce
  obtain offers' where rest: "attach_offers p xs c2 = (offers', c')"
    using Cons.prems c1 c2 by (auto split: prod.splits)
  have "calm c c1" by (rule calm_same) (use c1 in \<open>auto simp: allocate_appearance_id_def split: prod.splits\<close>)
  also have "calm c1 c2" by (rule attach_calm [OF c2]) (simp add: inbound_call_appearance_def new_appearance_def)
  also have "calm c2 c'" by (rule Cons.IH [OF rest])
  finally show ?case .
qed (simp add: calm_refl)

lemma offer_dialling:
  assumes ok: "dialling_ok c" and run: "offer_inbound_call_with_policy p xs c = (d, c')"
  shows "dialling_ok c'"
proof (cases "c' = c")
  case False
  from run False obtain x xs' where xs: "xs = x # xs'" and np: "\<not> hm_contains (rg_pbx (ct_registry c)) p"
    unfolding offer_inbound_call_with_policy_def by (auto split: if_splits list.splits)
  let ?line = "lc_number (lb_line (ib_binding x))"
  obtain n eligible where scr: "screen_candidates c ?line [] [] xs = (n, eligible)" by fastforce
  obtain m ringable fwd where pol: "apply_policy c eligible = (m, ringable, fwd)" by (cases "apply_policy c eligible")
  obtain y others where ring: "ringable = y # others"
    using run False np scr pol unfolding offer_inbound_call_with_policy_def xs by (cases ringable) auto
  define c1 where "c1 = c\<lparr>ct_next_pbx_id := max (ct_next_pbx_id c) (saturating_succ p)\<rparr>"
  obtain i c2 where c2: "allocate_appearance_id c1 = (i, c2)" by fastforce
  have "dialling_ok c1" unfolding c1_def by (rule claim_pbx_id_dialling [OF ok])
  then have ok2: "dialling_ok c2" using allocate_dialling(2) [of c1] c2 by simp
  obtain inserted c3 where c3: "with_registry (insert_pbx_call (inbound_call p ?line (lc_context (lb_line (ib_binding y))))
      (inbound_call_appearance i p y)) c2 = (inserted, c3)" by fastforce
  have ok3: "controller_ok c3"
    by (rule insert_ok [OF dialling_okD(1) [OF ok2] c3]) (simp_all add: inbound_call_def inbound_call_appearance_def new_appearance_def)
  have dial3: "dialling_ok c3"
    by (rule insert_dialling [OF ok2 c3 ok3]) (simp add: inbound_call_def inbound_call_appearance_def new_appearance_def)
  obtain offers c4 where c4: "attach_offers p others c3 = (offers, c4)" by fastforce
  have "c' = c3 \<or> c' = c4"
    using run False np scr pol ring c2 c3 c4 unfolding offer_inbound_call_with_policy_def xs c1_def
    by (auto simp: Let_def split: if_splits)
  then have "calm c3 c'" using calm_refl attach_offers_calm [OF c4] by blast
  from calm_ok [OF this dial3 offer_ok [OF dialling_okD(1) [OF ok] run]] show ?thesis .
qed (use ok in simp)

lemma add_call_appearance_calm:
  assumes run: "add_call_appearance p k b codec c = (x, c')" and sh: "shareable c p"
  shows "calm c c'"
proof (cases "c' = c")
  case False
  from run False obtain call i0 ids0 where call: "pbx_call_of c p = Some call" "pc_appearance_ids call = i0 # ids0"
    unfolding add_call_appearance_def by (auto split: option.splits if_splits list.splits)
  with run False obtain first0 where first0: "appearance_of c i0 = Some first0"
    unfolding add_call_appearance_def by (auto split: option.splits if_splits)
  obtain i c1 where c1: "allocate_appearance_id c = (i, c1)" by fastforce
  define a :: "'a call_appearance" where "a = new_appearance i k p b (shared_appearance_state (pc_state call) (pc_active_appearance call \<noteq> None))
    (if pc_direction call = Inbound
     then (ap_info first0)\<lparr>in_called_name := display_label (lb_appearance b), in_called_number := lc_number (lb_line b)\<rparr>
     else ap_info first0) codec"
  obtain y c2 where c2: "with_registry (attach_appearance a) c1 = (y, c2)" by fastforce
  have "\<not> owning (ap_state a)"
    unfolding a_def using sh call shared_state_not_owning [of "pc_state call" "pc_active_appearance call \<noteq> None"]
    by (simp add: new_appearance_def shareable_def)
  then have na: "\<not> collects (ap_state a)" using collects_owning by blast
  have "calm c c1" by (rule calm_same) (use c1 in \<open>auto simp: allocate_appearance_id_def split: prod.splits\<close>)
  also have "calm c1 c2" by (rule attach_calm [OF c2 na])
  also have "c2 = c'"
    using run False call first0 c1 c2 unfolding add_call_appearance_def
    by (auto simp: Let_def a_def split: if_splits)
  finally show ?thesis .
qed (simp add: calm_refl)

lemma barge_dialling:
  assumes ok: "dialling_ok c" and run: "barge k b codec mode c = (x, c')"
    and room: "length (rg_pbx (ct_registry c)) < 2 ^ 64 - 1"
  shows "dialling_ok c'"
proof (cases x)
  case (Inl e)
  from barge_refused [OF run [unfolded Inl]] obtain n where n: "c' = c\<lparr>ct_next_bridge_id := n\<rparr>" by blast
  show ?thesis unfolding n by (rule dialling_ok_cong [OF ok]) simp_all
next
  case (Inr es)
  note cok = dialling_okD(1) [OF ok] and ok' = barge_ok [OF dialling_okD(1) [OF ok] run room]
  show ?thesis
  proof (rule barge_cases [OF cok run [unfolded Inr] room])
    fix a target bridge new q n
    assume a: "appearance_for_call c k = Some a" and target: "pbx_call_of c (ap_pbx_id a) = Some target" "pc_state target = StConnected"
      and q: "pbx_call_of c q = None"
      and c': "c' = barge_join k codec mode a target bridge new q (c\<lparr>ct_next_bridge_id := n, ct_next_pbx_id := next_nonzero q\<rparr>)"
    have pid: "pc_id target = ap_pbx_id a" by (rule index_ok_pbx(1) [OF controller_okD(2) [OF cok] target(1)])
    have app: "appearance_of c' i = (if i = ap_id a then map_option (\<lambda>a. a\<lparr>ap_state := StBarged, ap_codec := codec,
        ap_audio := StreamOpening, ap_video := close_streams (ap_video a)\<rparr>) (appearance_of c i) else appearance_of c i)" for i
      by (simp add: c' barge_join_def Let_def)
    have pbx: "pbx_call_of c' p = (if p = q then Some (barger_call q target) else pbx_call_of c p)" for p
      by (simp add: c' barge_join_def Let_def)
    have cl: "hm_get (ct_shared_control_claims c') p = hm_get (ct_shared_control_claims c) p" if "p \<noteq> ap_pbx_id a" for p
      using that by (simp add: c' barge_join_def Let_def pid)
    have "collecting_ok c'"
    proof (rule collecting_okI)
      show "hm_wf (rg_appearances (ct_registry c'))" by (rule index_ok_wf(2) [OF controller_okD(2) [OF ok']])
      fix i y call assume y: "appearance_of c' i = Some y" "collects (ap_state y)" "pbx_call_of c' (ap_pbx_id y) = Some call"
      then have old: "appearance_of c i = Some y" by (auto simp: app split: if_splits)
      from index_ok_appearance(4) [OF controller_okD(2) [OF cok] old] q y(3)
      have call: "pbx_call_of c (ap_pbx_id y) = Some call" by (auto simp: pbx split: if_splits)
      note agree = collecting_okD [OF dialling_okD(2) [OF ok] old y(2) call]
      with y(2) target call have "ap_pbx_id y \<noteq> ap_pbx_id a" by auto
      with agree cl show "pc_state call = ap_state y \<and> hm_get (ct_shared_control_claims c') (ap_pbx_id y) = None" by simp
    qed
    with ok' show ?thesis by (simp add: dialling_ok_def)
  qed
qed

section \<open>All operations of call control\<close>

lemma call_apply_dialling:
  assumes ok: "dialling_ok c" and safe: "action_safe ac c"
  shows "dialling_ok (call_apply ac c)"
proof -
  note cok = dialling_okD(1) [OF ok]
  note keep = call_apply_ok [OF cok safe]
  have frame: "dialling_ok (call_apply ac c)" if "calm c (call_apply ac c)" by (rule calm_ok [OF that ok keep])
  have quiet: "dialling_ok (call_apply ac c)" if "ct_registry (call_apply ac c) = ct_registry c"
    "ct_shared_control_claims (call_apply ac c) = ct_shared_control_claims c"
    by (rule frame [OF calm_same]) (simp_all add: that)
  show ?thesis
  proof (cases ac)
    case (BeginPhoneCall k b codec now)
    with begin_phone_call_dialling [OF ok] show ?thesis by (cases "begin_phone_call k b codec now c") simp
  next
    case (BeginAdditional k b codec now)
    with begin_additional_dialling [OF ok] show ?thesis by (cases "begin_additional_phone_call k b codec now c") simp
  next
    case (BeginAsteriskCall k p b codec)
    with begin_asterisk_call_dialling [OF ok] show ?thesis by simp
  next
    case (OfferInbound p xs)
    with offer_dialling [OF ok] show ?thesis by (cases "offer_inbound_call_with_policy p xs c") simp
  next
    case (BargeCall k b codec mode)
    with safe have "length (rg_pbx (ct_registry c)) < 2 ^ 64 - 1" by simp
    with BargeCall barge_dialling [OF ok] show ?thesis by (cases "barge k b codec mode c") simp
  next
    case (AddAppearance p k b codec)
    with safe add_call_appearance_calm [of p k b codec c] show ?thesis
      by (intro frame) (cases "add_call_appearance p k b codec c", simp)
  next
    case (HoldCall k) with hold_calm [OF cok] show ?thesis by (intro frame) (cases "hold k c", simp)
  next
    case (ResumeCall k) with resume_calm [OF cok] show ?thesis by (intro frame) (cases "resume k c", simp)
  next
    case (AnswerCall k) with phone_answer_calm [OF cok] show ?thesis by (intro frame) (cases "phone_answer k c", simp)
  next
    case (StealCall k) with steal_calm [OF cok] show ?thesis by (intro frame) (cases "steal k c", simp)
  next
    case (SwitchCall d k) with switch_calm [OF cok] show ?thesis by (intro frame) (cases "switch_active_call d k c", simp)
  next
    case (EndBarge k j r s) with end_barge_calm show ?thesis by (intro frame) (cases "end_barge_internal k j r s c", simp)
  next
    case (HangupCall k) with hangup_calm show ?thesis by (intro frame) (cases "hangup_ordinary k True c", simp)
  next
    case (PbxHangupCall p) with pbx_hangup_calm show ?thesis by (intro frame) (cases "pbx_hangup_ordinary p c", simp)
  next
    case (CancelOffer k) with cancel_inbound_offer_calm show ?thesis by (intro frame) (cases "cancel_inbound_offer k c", simp)
  next
    case (Register g d) then show ?thesis by (intro quiet) (simp_all add: register_device_def)
  next
    case (UpdateCapabilities d g cs) then show ?thesis by (intro quiet) (simp_all add: update_capabilities_def)
  next
    case (SelectLine d l) then show ?thesis by (intro quiet) simp_all
  next
    case (ToggleSelected d k) then show ?thesis
      by (intro quiet) (simp_all add: toggle_call_selected_def Let_def split: option.split)
  qed (intro frame; simp add: forward_calm voicemail_calm)+
qed

end
