(* ===== verification/Dial_Histories.thy ===== *)
theory Dial_Histories
  imports Dial_Frames
begin

text \<open>
  Histories in which phones dial, pick up, park and are answered and calls make progress,
  mixed with all operations of call control: the validators stay silent.
\<close>

section \<open>Settings, pickup and parking\<close>

lemma settings_dialling:
  assumes "dialling_ok c"
  shows "dialling_ok (set_interdigit_timeout t c)" "dialling_ok (set_first_digit_timeout t c)"
    "dialling_ok (set_dial_terminator ch c)" "dialling_ok (set_overlap_devices ds c)" "dialling_ok (set_line_dial_tones ts c)"
    "dialling_ok (set_dnd d m c)" "dialling_ok (set_forwarding d fw c)" "dialling_ok (set_feature_button d i b c)"
  by (rule dialling_ok_cong [OF assms]; simp add: set_interdigit_timeout_def set_first_digit_timeout_def
      set_dial_terminator_def set_overlap_devices_def set_line_dial_tones_def set_dnd_def set_forwarding_def
      set_feature_button_def feature_state_mut_def)+

lemma set_call_privacy_dialling:
  assumes ok: "dialling_ok c" and run: "set_call_privacy k b c = (x, c')"
  shows "dialling_ok c'"
proof -
  have "c' = c \<or> (\<exists>p. c' = modify_call p (\<lambda>call. call\<lparr>pc_privacy := b\<rparr>) c)"
    using run by (auto simp: set_call_privacy_def split: option.splits if_splits)
  with ok show ?thesis by (auto intro: quiet_call_dialling)
qed

lemma set_call_info_dialling:
  assumes ok: "dialling_ok c" and run: "set_call_info k info c = (es, c')"
  shows "dialling_ok c'"
proof (cases "c' = c")
  case False
  from run False obtain i a where a: "appearance_of c i = Some a" and c': "c' = write_appearance i (a\<lparr>ap_info := info\<rparr>) c"
    by (auto simp: set_call_info_def split: option.splits if_splits)
  have c'': "c' = modify_appearance i (\<lambda>a. a\<lparr>ap_info := info\<rparr>) (modify_call 0 (\<lambda>call. call) c)"
    unfolding c' using write_is_modify [OF a, of "\<lambda>a. a\<lparr>ap_info := info\<rparr>"] by simp
  show ?thesis unfolding c'' by (rule quiet_touch_dialling [OF ok]) (simp_all add: same_presentation_def)
qed (use ok in simp)

lemma begin_directed_pickup_dialling:
  assumes ok: "dialling_ok c" and run: "begin_directed_pickup k permitted enabled context answer c = (x, c')"
  shows "dialling_ok c'"
proof (cases "c' = c")
  case False
  from run False obtain a call where a: "appearance_for_call c k = Some a" and call: "pbx_call_of c (ap_pbx_id a) = Some call"
    unfolding begin_directed_pickup_def by (auto split: option.splits if_splits)
  with run False have nc: "\<not> pickup_conflict c a call" unfolding begin_directed_pickup_def by (auto split: if_splits)
  then have col: "collects (ap_state a)" by (simp add: pickup_conflict_def)
  note co = collecting_owner [OF ok a col call]
  have c': "c' = modify_appearance (ap_id a) (\<lambda>a. a\<lparr>ap_state := StPickupCollecting\<rparr>)
      (modify_call (ap_pbx_id a) (\<lambda>call. call\<lparr>pc_state := StPickupCollecting, pc_digits := [],
         pc_digit_deadline := None, pc_last_digit_at := None, pc_simulated_enbloc_eligible := False,
         pc_pending_pickup := Some \<lparr>pp_context = context, pp_answer = answer\<rparr>\<rparr>) c)"
    using run False a call nc unfolding begin_directed_pickup_def by (auto split: if_splits)
  show ?thesis unfolding c'
    by (rule touch_dialling [OF ok call co(1) refl _ _ _ _ co(4) co(2) collects_owning [OF col]])
      (use co(2,5) in \<open>auto simp: same_presentation_def\<close>)
qed (use ok in simp)

lemma group_pickup_dialling:
  assumes ok: "dialling_ok c" and run: "group_pickup k permitted answer c = (x, c')"
  shows "dialling_ok c'"
proof (cases "c' = c")
  case False
  from run False obtain a call where a: "appearance_for_call c k = Some a" and call: "pbx_call_of c (ap_pbx_id a) = Some call"
    unfolding group_pickup_def by (auto split: option.splits if_splits)
  with run False have nc: "\<not> pickup_conflict c a call" unfolding group_pickup_def by (auto split: if_splits)
  then have col: "collects (ap_state a)" and np: "pc_pending_pickup call = None" by (simp_all add: pickup_conflict_def)
  note co = collecting_owner [OF ok a col call]
  let ?st = "if answer then StConnected else StRinging"
  have c': "c' = modify_appearance (ap_id a) (\<lambda>a. a\<lparr>ap_state := ?st, ap_audio := (if answer then StreamOpening else StreamClosed)\<rparr>)
      (modify_call (ap_pbx_id a) (\<lambda>call. call\<lparr>pc_state := ?st,
         pc_active_appearance := (if answer then Some (ap_id a) else None), pc_digit_deadline := None\<rparr>) c)"
    using run False a call nc unfolding group_pickup_def Let_def by (auto split: if_splits)
  show ?thesis unfolding c'
    by (rule touch_dialling [OF ok call co(1) refl _ _ _ _ co(4) co(2) collects_owning [OF col]])
      (use co(5) np in \<open>auto simp: same_presentation_def\<close>)
qed (use ok in simp)

text \<open>The owner of a call and the call move together from one owning state to another.\<close>

lemma move_both_dialling:
  assumes ok: "dialling_ok c" and a: "appearance_for_call c k = Some a" and call: "pbx_call_of c (ap_pbx_id a) = Some call"
    and act: "pc_active_appearance call = Some (ap_id a)" and ng: "hm_get (ct_barge_groups c) (ap_pbx_id a) = None"
    and np: "pc_state call \<noteq> StPickupCollecting" and st: "owning st" "\<not> collects st"
    and f: "same_presentation f" "\<And>b. ap_state (f b) = ap_state b"
  shows "dialling_ok (move_both a st f c)"
proof -
  note cok = dialling_okD(1) [OF ok]
  note ap = appearance_for_owned(1) [OF controller_okD(2) [OF cok] a] and own = states_okD [OF controller_okD(3) [OF cok] call]
  have "owning (ap_state a)" using owner_okD(2) [OF own act] ap by auto
  moreover have "pc_pending_pickup call = None" using owner_okD(1) [OF own] np by simp
  moreover have "same_presentation (\<lambda>a. f (a\<lparr>ap_state := st\<rparr>))" using f(1) by (simp add: same_presentation_def)
  ultimately show ?thesis unfolding move_both_def
    by (intro touch_dialling [OF ok call ap refl _ _ _ _ ng act]) (use st f(2) act in auto)
qed

definition unbarged :: "call_id \<Rightarrow> 'x controller \<Rightarrow> bool" where
  "unbarged k c = (case appearance_for_call c k of None \<Rightarrow> True | Some a \<Rightarrow> \<not> hm_contains (ct_barge_groups c) (ap_pbx_id a))"

definition owns_call :: "call_id \<Rightarrow> 'x controller \<Rightarrow> bool" where
  "owns_call k c =
     (case appearance_for_call c k of None \<Rightarrow> True
      | Some a \<Rightarrow> (case pbx_call_of c (ap_pbx_id a) of None \<Rightarrow> True | Some call \<Rightarrow> pc_active_appearance call = Some (ap_id a)))"

lemma park_cases:
  assumes "park k enabled lot c = (x, c')" and "c' \<noteq> c"
  obtains a call where "appearance_for_call c k = Some a" "pbx_call_of c (ap_pbx_id a) = Some call"
    "pc_state call = StConnected" "ap_state a = StConnected" "pc_active_appearance call = Some (ap_id a)"
    "x = Inr [Backend (PbxParking (ParkCall (ap_pbx_id a) lot))]" "c' = move_both a StParking (\<lambda>a. a) c"
  using assms by (auto simp: park_def split: option.splits if_splits)

lemma park_dialling:
  assumes ok: "dialling_ok c" and run: "park k enabled lot c = (x, c')" and safe: "unbarged k c"
  shows "dialling_ok c'"
proof (cases "c' = c")
  case False
  from run False show ?thesis
  proof (rule park_cases)
    fix a call assume a: "appearance_for_call c k = Some a" and call: "pbx_call_of c (ap_pbx_id a) = Some call"
      "pc_state call = StConnected" "pc_active_appearance call = Some (ap_id a)"
      and c': "c' = move_both a StParking (\<lambda>a. a) c"
    from safe a have "hm_get (ct_barge_groups c) (ap_pbx_id a) = None" by (simp add: unbarged_def hm_contains_def)
    then show ?thesis unfolding c'
      by (rule move_both_dialling [OF ok a call(1,3)]) (use call(2) in \<open>simp_all add: same_presentation_def\<close>)
  qed
qed (use ok in simp)

lemma in_state_call:
  assumes "in_state c a st"
  obtains call where "pbx_call_of c (ap_pbx_id a) = Some call" "pc_state call = st"
  using assms by (auto simp: in_state_def split: option.splits)

lemma settled_move_dialling:
  assumes ok: "dialling_ok c" and a: "appearance_for_call c k = Some a" and safe: "owns_call k c" and st: "in_state c a st"
    and "st \<notin> {StConnected, StPickupCollecting}" and f: "same_presentation f" "\<And>b. ap_state (f b) = ap_state b"
  shows "dialling_ok (move_both a StConnected f c)"
proof -
  from st obtain call where call: "pbx_call_of c (ap_pbx_id a) = Some call" "pc_state call = st" by (rule in_state_call)
  from safe a call have act: "pc_active_appearance call = Some (ap_id a)" by (simp add: owns_call_def)
  have "hm_get (ct_barge_groups c) (ap_pbx_id a) = None"
    by (rule group_connected [OF dialling_okD(1) [OF ok] call(1)]) (use assms(5) call(2) in simp)
  then show ?thesis by (rule move_both_dialling [OF ok a call(1) act]) (use assms(5) call(2) f in simp_all)
qed

lemma parking_failed_dialling:
  assumes ok: "dialling_ok c" and run: "parking_failed k c = (es, c')" and safe: "owns_call k c"
  shows "dialling_ok c'"
proof (cases "c' = c")
  case False
  from run False obtain a where "appearance_for_call c k = Some a" "in_state c a StParking" "c' = move_both a StConnected (\<lambda>a. a) c"
    by (auto simp: parking_failed_def split: option.splits if_splits)
  then show ?thesis using settled_move_dialling [OF ok _ safe, of _ StParking "\<lambda>a. a"] by (simp add: same_presentation_def)
qed (use ok in simp)

lemma parking_retrieved_dialling:
  assumes ok: "dialling_ok c" and run: "parking_retrieved k c = (es, c')" and safe: "owns_call k c"
  shows "dialling_ok c'"
proof (cases "c' = c")
  case False
  from run False obtain a where "appearance_for_call c k = Some a" "in_state c a StRetrieving"
    "c' = move_both a StConnected (\<lambda>a. a\<lparr>ap_audio := StreamOpening\<rparr>) c"
    by (auto simp: parking_retrieved_def split: option.splits if_splits)
  then show ?thesis using settled_move_dialling [OF ok _ safe, of _ StRetrieving "\<lambda>a. a\<lparr>ap_audio := StreamOpening\<rparr>"]
    by (simp add: same_presentation_def)
qed (use ok in simp)

lemma hangup_dialling:
  assumes ok: "dialling_ok c" and run: "hangup_ordinary k True c = (es, c')" and safe: "hangup_safe k c"
  shows "dialling_ok c'"
  by (rule calm_ok [OF hangup_calm [OF run] ok hangup_ok [OF dialling_okD(1) [OF ok] run safe]])

lemma parking_ends_dialling:
  assumes ok: "dialling_ok c" and safe: "hangup_safe k c"
  shows "parking_confirmed k slot c = (es, c') \<Longrightarrow> dialling_ok c'" "parking_retrieval_failed k c = (es, c') \<Longrightarrow> dialling_ok c'"
  using ok hangup_dialling [OF ok _ safe]
  by (auto simp: parking_confirmed_def parking_retrieval_failed_def Let_def split: option.splits if_splits prod.splits)

lemma begin_parking_retrieval_dialling:
  assumes ok: "dialling_ok c" and run: "begin_parking_retrieval k b codec lot slot info c = (x, c')"
  shows "dialling_ok c'"
proof (cases "c' = c")
  case False
  obtain p c1 where c1: "allocate_pbx_id c = (p, c1)" by fastforce
  obtain i c2 where c2: "allocate_appearance_id c1 = (i, c2)" by fastforce
  have ok2: "dialling_ok c2" using allocate_dialling(1) [OF ok] allocate_dialling(2) [of c1] c1 c2 by simp
  obtain y c3 where c3: "with_registry (insert_pbx_call (retrieval_call p i b)
      ((new_appearance i k p b StRetrieving info codec)\<lparr>ap_privacy := True\<rparr>)) c2 = (y, c3)" by fastforce
  have ok3: "controller_ok c3"
    by (rule insert_ok [OF dialling_okD(1) [OF ok2] c3]) (simp_all add: retrieval_call_def new_appearance_def)
  have dial3: "dialling_ok c3" by (rule insert_dialling [OF ok2 c3 ok3]) (simp add: retrieval_call_def new_appearance_def)
  have "c' = c3 \<or> c' = set_call_selected (lb_device_id b) k True (select_line (lb_device_id b) (lb_line_instance b) c3)"
    using run False c1 c2 c3 unfolding begin_parking_retrieval_def by (auto simp: Let_def split: if_splits)
  then show ?thesis
    using dial3 calm_ok [OF calm_same dial3, of c'] set_call_selected_ok [OF select_line_ok [OF ok3]] by auto
qed (use ok in simp)

section \<open>Histories\<close>

datatype dial_action =
    Control call_action
  | PressDigit call_id digit instant
  | EnblocNumber call_id rust_str
  | SpeedDial call_id rust_str bool instant
  | ExpireDigits instant
  | ChannelProceeding pbx_call_id
  | ChannelRinging pbx_call_id
  | ChannelProgress pbx_call_id bool outbound_media_mode
  | PartyUpdate pbx_call_id party_snapshot
  | ChannelAnswered pbx_call_id
  | BeginDirectedPickup call_id bool bool rust_str bool
  | PickupGroup call_id bool bool
  | Park call_id bool "rust_str option"
  | ParkingFailed call_id
  | ParkingConfirmed call_id u32
  | RetrieveParked call_id line_binding codec "rust_str option" u32 call_info
  | ParkingRetrieved call_id
  | RetrievalFailed call_id
  | SetCallPrivacy call_id bool
  | UpdateCallInfo call_id call_info
  | SetInterdigit duration
  | SetFirstDigit duration
  | SetTerminator nat
  | SetOverlapDevices "device_id list"
  | SetLineDialTones "(rust_str \<times> line_dial_tone_config) list"
  | SetDnd device_id dnd_mode
  | SetForwarding device_id forwarding_state
  | SetFeatureButton device_id u32 bool

fun dial_apply :: "dial_action \<Rightarrow> 'x controller \<Rightarrow> 'x controller" where
  "dial_apply (Control ac) c = call_apply ac c"
| "dial_apply (PressDigit k d now) c = snd (press_digit k d now c)"
| "dial_apply (EnblocNumber k number) c = snd (enbloc k number c)"
| "dial_apply (SpeedDial k number await now) c = snd (speed_dial k number await now c)"
| "dial_apply (ExpireDigits now) c = snd (expire_digits now c)"
| "dial_apply (ChannelProceeding p) c = snd (pbx_proceeding p c)"
| "dial_apply (ChannelRinging p) c = snd (pbx_ringing p c)"
| "dial_apply (ChannelProgress p early mode) c = snd (pbx_progress_with_media_mode p early mode c)"
| "dial_apply (PartyUpdate p snapshot) c = snd (apply_party_snapshot p snapshot c)"
| "dial_apply (ChannelAnswered p) c = snd (pbx_answer p c)"
| "dial_apply (BeginDirectedPickup k permitted enabled context answer) c =
     snd (begin_directed_pickup k permitted enabled context answer c)"
| "dial_apply (PickupGroup k permitted answer) c = snd (group_pickup k permitted answer c)"
| "dial_apply (Park k enabled lot) c = snd (park k enabled lot c)"
| "dial_apply (ParkingFailed k) c = snd (parking_failed k c)"
| "dial_apply (ParkingConfirmed k slot) c = snd (parking_confirmed k slot c)"
| "dial_apply (RetrieveParked k b codec lot slot info) c = snd (begin_parking_retrieval k b codec lot slot info c)"
| "dial_apply (ParkingRetrieved k) c = snd (parking_retrieved k c)"
| "dial_apply (RetrievalFailed k) c = snd (parking_retrieval_failed k c)"
| "dial_apply (SetCallPrivacy k b) c = snd (set_call_privacy k b c)"
| "dial_apply (UpdateCallInfo k info) c = snd (set_call_info k info c)"
| "dial_apply (SetInterdigit t) c = set_interdigit_timeout t c"
| "dial_apply (SetFirstDigit t) c = set_first_digit_timeout t c"
| "dial_apply (SetTerminator ch) c = set_dial_terminator ch c"
| "dial_apply (SetOverlapDevices ds) c = set_overlap_devices ds c"
| "dial_apply (SetLineDialTones ts) c = set_line_dial_tones ts c"
| "dial_apply (SetDnd d m) c = set_dnd d m c"
| "dial_apply (SetForwarding d fw) c = set_forwarding d fw c"
| "dial_apply (SetFeatureButton d i b) c = set_feature_button d i b c"

text \<open>
  What an action may be applied to, beyond \<open>action_safe\<close>: an answer does not come for a call
  that still collects the number of a pickup, nor for one with a barge but no owner; a call
  is parked that nobody barges into; the results of parking and retrieval are reported for
  the presentation that asked, which owns the call; and a hangup is safe as before.
\<close>

fun dial_safe :: "dial_action \<Rightarrow> 'x controller \<Rightarrow> bool" where
  "dial_safe (Control ac) c = action_safe ac c"
| "dial_safe (ChannelAnswered p) c = answerable p c"
| "dial_safe (Park k enabled lot) c = unbarged k c"
| "dial_safe (ParkingFailed k) c = owns_call k c"
| "dial_safe (ParkingConfirmed k slot) c = hangup_safe k c"
| "dial_safe (ParkingRetrieved k) c = owns_call k c"
| "dial_safe (RetrievalFailed k) c = hangup_safe k c"
| "dial_safe _ c = True"

fun dial_history :: "dial_action list \<Rightarrow> 'x controller \<Rightarrow> bool" where
  "dial_history [] c = True"
| "dial_history (ac # acs) c = (dial_safe ac c \<and> dial_history acs (dial_apply ac c))"

definition dial_run :: "duration \<Rightarrow> duration \<Rightarrow> dial_action list \<Rightarrow> 'x controller" where
  "dial_run first_digit interdigit acs = fold dial_apply acs (with_digit_timeouts first_digit interdigit)"

lemma snd_dialling:
  assumes "\<And>x c'. f = (x, c') \<Longrightarrow> dialling_ok c'"
  shows "dialling_ok (snd f)"
  using assms by (cases f) simp

lemma dial_apply_dialling:
  assumes ok: "dialling_ok c" and safe: "dial_safe ac c"
  shows "dialling_ok (dial_apply ac c)"
proof (cases ac)
  case (Control a)
  with safe show ?thesis by (simp add: call_apply_dialling [OF ok])
next
  case (ChannelAnswered p)
  with safe show ?thesis by (auto intro!: snd_dialling pbx_answer_dialling [OF ok])
next
  case (Park k enabled lot)
  with safe show ?thesis by (auto intro!: snd_dialling park_dialling [OF ok])
next
  case (ParkingFailed k)
  with safe show ?thesis by (auto intro!: snd_dialling parking_failed_dialling [OF ok])
next
  case (ParkingConfirmed k slot)
  with safe show ?thesis by (auto intro!: snd_dialling parking_ends_dialling(1) [OF ok])
next
  case (ParkingRetrieved k)
  with safe show ?thesis by (auto intro!: snd_dialling parking_retrieved_dialling [OF ok])
next
  case (RetrievalFailed k)
  with safe show ?thesis by (auto intro!: snd_dialling parking_ends_dialling(2) [OF ok])
qed (simp_all add: settings_dialling [OF ok] snd_dialling [OF press_digit_dialling [OF ok]] snd_dialling [OF enbloc_dialling [OF ok]]
    snd_dialling [OF speed_dial_dialling [OF ok]] snd_dialling [OF expire_digits_dialling [OF ok]]
    snd_dialling [OF pbx_proceeding_dialling [OF ok]] snd_dialling [OF pbx_ringing_dialling [OF ok]]
    snd_dialling [OF pbx_progress_dialling [OF ok]] snd_dialling [OF party_snapshot_dialling [OF ok]]
    snd_dialling [OF begin_directed_pickup_dialling [OF ok]] snd_dialling [OF group_pickup_dialling [OF ok]]
    snd_dialling [OF begin_parking_retrieval_dialling [OF ok]] snd_dialling [OF set_call_privacy_dialling [OF ok]]
    snd_dialling [OF set_call_info_dialling [OF ok]])

lemma dial_history_dialling:
  "dialling_ok c \<Longrightarrow> dial_history acs c \<Longrightarrow> dialling_ok (fold dial_apply (take n acs) c)"
proof (induction acs arbitrary: c n)
  case (Cons ac acs)
  then show ?case by (cases n) (simp_all add: dial_apply_dialling)
qed simp

lemma dial_run_dialling:
  assumes "dial_history acs (with_digit_timeouts t u :: 'x controller)"
  shows "dialling_ok (dial_run t u (take n acs) :: 'x controller)"
proof -
  have "collecting_ok (with_digit_timeouts t u :: 'x controller)"
    by (simp add: collecting_ok_def with_digit_timeouts_def call_registry_default_def)
  then have "dialling_ok (with_digit_timeouts t u :: 'x controller)" using controller_ok_new unfolding dialling_ok_def by blast
  from dial_history_dialling [OF this assms] show ?thesis by (simp add: dial_run_def)
qed

lemma dial_run_dialling_all:
  assumes "dial_history acs (with_digit_timeouts t u :: 'x controller)"
  shows "dialling_ok (dial_run t u acs :: 'x controller)"
  using dial_run_dialling [OF assms, of "length acs"] by simp

text \<open>
  C1. Dialling, outbound progress, pickup and parking may be mixed with each other and with
  all operations of call control in any order: as long as the conditions of \<open>dial_safe\<close>
  hold, no validator of the controller ever complains, and at every moment a phone that
  collects digits shows the state of its call, on which nobody else has a claim.
\<close>

theorem dialling_histories_valid:
  assumes "dial_history acs (with_digit_timeouts t u :: 'x controller)"
  shows "invariant_error (dial_run t u (take n acs) :: 'x controller) = None
    \<and> collecting_ok (dial_run t u (take n acs) :: 'x controller)"
  using dialling_okD [OF dial_run_dialling [OF assms, of n]] by (simp add: controller_ok_silent)

text \<open>A call that is dialled, answered and parked, a pickup, and a retrieval.\<close>

definition dialled_history :: "dial_action list" where
  "dialled_history = [Control (Register 1 ''A''), Control (Register 2 ''B''),
     Control (BeginPhoneCall 2 (sample_binding ''A'' 1) 4 0), PressDigit 2 (Number 7) 1, PressDigit 2 (Number 5) 2,
     PressDigit 2 Pound 3, ChannelProceeding 1, ChannelRinging 1, ChannelAnswered 1, PressDigit 2 Star 4,
     Park 2 True None, ParkingFailed 2, Park 2 True None, ParkingConfirmed 2 71,
     Control (BeginPhoneCall 3 (sample_binding ''B'' 1) 4 5), BeginDirectedPickup 3 True True (ascii ''phones'') True,
     PressDigit 3 (Number 9) 6, EnblocNumber 3 [], Control (HangupCall 3),
     RetrieveParked 4 (sample_binding ''A'' 1) 4 None 71 call_info_default, ParkingRetrieved 4,
     Control (BeginPhoneCall 5 (sample_binding ''B'' 1) 4 7), SpeedDial 5 (ascii ''12'') True 8, ExpireDigits 30]"

theorem dialling_histories_valid_witness:
  "dial_history dialled_history (with_digit_timeouts 10 4 :: unit controller)
    \<and> invariant_error (dial_run 10 4 (take 24 dialled_history) :: unit controller) = None
    \<and> collecting_ok (dial_run 10 4 (take 24 dialled_history) :: unit controller)"
proof (rule conjI)
  show safe: "dial_history dialled_history (with_digit_timeouts 10 4 :: unit controller)" by code_simp
  show "invariant_error (dial_run 10 4 (take 24 dialled_history) :: unit controller) = None
    \<and> collecting_ok (dial_run 10 4 (take 24 dialled_history) :: unit controller)"
    by (rule dialling_histories_valid [OF safe])
qed

end
