(* ===== verification/Dial_Progress.thy ===== *)
theory Dial_Progress
  imports Dial_Histories
begin

text \<open>
  Outbound progress, seen from the phone: for every sequence of reports about an outbound
  call, in whatever order and number they come, exactly which stages the phone is shown.
\<close>

section \<open>Reports and stages\<close>

text \<open>What the channel reports: the signals of \<^verbatim>\<open>services.rs\<close>, a snapshot of the parties, an answer.\<close>

datatype progress_report =
    ProceedingReport
  | RingingReport
  | ProgressReport bool outbound_media_mode
  | PartyReport party_snapshot
  | AnswerReport

fun progress_step :: "pbx_call_id \<Rightarrow> progress_report \<Rightarrow> 'x controller \<Rightarrow> driver_effect list \<times> 'x controller" where
  "progress_step p ProceedingReport c = pbx_proceeding p c"
| "progress_step p RingingReport c = pbx_ringing p c"
| "progress_step p (ProgressReport early mode) c = pbx_progress_with_media_mode p early mode c"
| "progress_step p (PartyReport snapshot) c = apply_party_snapshot p snapshot c"
| "progress_step p AnswerReport c = pbx_answer p c"

fun progress_run :: "pbx_call_id \<Rightarrow> progress_report list \<Rightarrow> 'x controller \<Rightarrow> driver_effect list \<times> 'x controller" where
  "progress_run p [] c = ([], c)"
| "progress_run p (ev # evs) c =
     (let (effects, c1) = progress_step p ev c; (rest, c2) = progress_run p evs c1 in (effects @ rest, c2))"

text \<open>
  What a phone is told about the progress of its call. Updates of the party information are
  no stage, and neither is the state of the other phones on the line.
\<close>

datatype progress_stage =
    ProceedingStage call_info
  | RingingStage call_info
  | RingOutStage
  | ProceedStage
  | EarlyMediaStage codec
  | CoupledMediaStage codec
  | MediaStage codec
  | AnswerMediaStage codec
  | ConnectedStage

fun stage_of :: "driver_effect \<Rightarrow> (device_id \<times> call_id \<times> progress_stage) option" where
  "stage_of (Handset (PresentOutboundProceeding d k info)) = Some (d, k, ProceedingStage info)"
| "stage_of (Handset (PresentOutboundRinging d k info)) = Some (d, k, RingingStage info)"
| "stage_of (Handset (SetCallState d k HsRingOut False)) = Some (d, k, RingOutStage)"
| "stage_of (Handset (SetCallState d k HsProceed False)) = Some (d, k, ProceedStage)"
| "stage_of (Handset (BeginEarlyMedia d k codec)) = Some (d, k, EarlyMediaStage codec)"
| "stage_of (Handset (BeginOutboundMedia d k codec)) = Some (d, k, CoupledMediaStage codec)"
| "stage_of (Handset (BeginMedia d k codec)) = Some (d, k, MediaStage codec)"
| "stage_of (Handset (BeginAnswerMedia d k codec)) = Some (d, k, AnswerMediaStage codec)"
| "stage_of (Handset (SetCallState d k HsConnected False)) = Some (d, k, ConnectedStage)"
| "stage_of _ = None"

abbreviation stages :: "driver_effect list \<Rightarrow> (device_id \<times> call_id \<times> progress_stage) list" where
  "stages \<equiv> List.map_filter stage_of"

section \<open>What the phone is to be shown\<close>

fun report_info :: "progress_report \<Rightarrow> call_info \<Rightarrow> call_info" where
  "report_info (PartyReport snapshot) info = apply_to_call_info snapshot info"
| "report_info _ info = info"

fun early_mode :: "progress_report \<Rightarrow> outbound_media_mode option" where
  "early_mode (ProgressReport early mode) = (if early then Some mode else None)"
| "early_mode _ = None"

fun is_progress :: "progress_report \<Rightarrow> bool" where
  "is_progress (ProgressReport early mode) = True"
| "is_progress _ = False"

fun is_party :: "progress_report \<Rightarrow> bool" where
  "is_party (PartyReport snapshot) = True"
| "is_party _ = False"

text \<open>
  The stages of a call that has just been routed. Proceeding counts until the far end rings,
  ringing until it sends progress or answers; the ring-out state needs ringing and the
  called party, in either order; early media is opened by the first progress report that
  allows it, and the answer opens media only if that has not happened.
\<close>

definition expected_stages :: "codec \<Rightarrow> call_info \<Rightarrow> progress_report list \<Rightarrow> progress_stage list" where
  "expected_stages codec info evs =
     (let before = takeWhile (\<lambda>e. \<not> is_progress e \<and> e \<noteq> AnswerReport) evs;
          early = List.map_filter early_mode (takeWhile (\<lambda>e. e \<noteq> AnswerReport) evs)
      in (if ProceedingReport \<in> set (takeWhile (\<lambda>e. e \<noteq> RingingReport) before)
          then [ProceedingStage (fold report_info (takeWhile (\<lambda>e. e \<noteq> ProceedingReport) evs) info)] else [])
       @ (if RingingReport \<in> set before
          then [RingingStage (fold report_info (takeWhile (\<lambda>e. e \<noteq> RingingReport) evs) info)] else [])
       @ (if RingingReport \<in> set before \<and> list_ex is_party before then [RingOutStage] else [])
       @ (case early of [] \<Rightarrow> [] | Staged # _ \<Rightarrow> [EarlyMediaStage codec] | Coupled # _ \<Rightarrow> [CoupledMediaStage codec])
       @ (if AnswerReport \<in> set evs then [if early = [] then MediaStage codec else ConnectedStage] else []))"

section \<open>A call that is followed from the phone\<close>

text \<open>
  The part of a call that the stages depend on: its phase, whether the called party is
  known and published, whether media is still closed, and the information that is shown.
\<close>

record followed =
  fo_phase :: outbound_call_phase
  fo_identity :: outbound_identity_stage
  fo_closed :: bool
  fo_info :: call_info

fun follow :: "codec \<Rightarrow> progress_report \<Rightarrow> followed \<Rightarrow> progress_stage list \<times> followed" where
  "follow codec ProceedingReport s =
     (if fo_phase s = PhRouting then ([ProceedingStage (fo_info s)], s\<lparr>fo_phase := PhProceeding\<rparr>) else ([], s))"
| "follow codec RingingReport s =
     (if fo_phase s \<in> {PhRouting, PhProceeding}
      then if fo_identity s = IdentityReady
        then ([RingingStage (fo_info s), RingOutStage], s\<lparr>fo_phase := PhRinging, fo_identity := RingOutPublished\<rparr>)
        else ([RingingStage (fo_info s)], s\<lparr>fo_phase := PhRinging\<rparr>)
      else ([], s))"
| "follow codec (ProgressReport early mode) s =
     (if fo_phase s = PhAnswered then ([], s)
      else if early \<and> fo_closed s
      then ([case mode of Staged \<Rightarrow> EarlyMediaStage codec | Coupled \<Rightarrow> CoupledMediaStage codec],
        s\<lparr>fo_phase := PhProgress, fo_closed := False\<rparr>)
      else ([], s\<lparr>fo_phase := PhProgress\<rparr>))"
| "follow codec (PartyReport snapshot) s =
     (let s' = s\<lparr>fo_info := apply_to_call_info snapshot (fo_info s)\<rparr> in
      if fo_phase s = PhAnswered \<or> fo_identity s = RingOutPublished then ([], s')
      else if fo_phase s = PhRinging then ([RingOutStage], s'\<lparr>fo_identity := RingOutPublished\<rparr>)
      else ([], s'\<lparr>fo_identity := IdentityReady\<rparr>))"
| "follow codec AnswerReport s =
     (if fo_phase s = PhAnswered then ([], s)
      else ([if fo_closed s then MediaStage codec else ConnectedStage], s\<lparr>fo_phase := PhAnswered, fo_closed := False\<rparr>))"

fun follow_all :: "codec \<Rightarrow> progress_report list \<Rightarrow> followed \<Rightarrow> progress_stage list \<times> followed" where
  "follow_all codec [] s = ([], s)"
| "follow_all codec (ev # evs) s =
     (let (here, s1) = follow codec ev s; (rest, s2) = follow_all codec evs s1 in (here @ rest, s2))"

definition followable :: "followed \<Rightarrow> bool" where
  "followable s \<longleftrightarrow> fo_phase s \<noteq> PhCollecting \<and> \<not> (fo_phase s = PhRinging \<and> fo_identity s = IdentityReady)"

text \<open>The stages that are still to come from any such state.\<close>

definition coming_stages :: "codec \<Rightarrow> progress_report list \<Rightarrow> followed \<Rightarrow> progress_stage list" where
  "coming_stages codec evs s =
     (let before = (if fo_phase s \<in> {PhProgress, PhAnswered} then [] else takeWhile (\<lambda>e. \<not> is_progress e \<and> e \<noteq> AnswerReport) evs);
          early = (if fo_phase s = PhAnswered \<or> \<not> fo_closed s then []
            else List.map_filter early_mode (takeWhile (\<lambda>e. e \<noteq> AnswerReport) evs))
      in (if fo_phase s = PhRouting \<and> ProceedingReport \<in> set (takeWhile (\<lambda>e. e \<noteq> RingingReport) before)
          then [ProceedingStage (fold report_info (takeWhile (\<lambda>e. e \<noteq> ProceedingReport) evs) (fo_info s))] else [])
       @ (if fo_phase s \<noteq> PhRinging \<and> RingingReport \<in> set before
          then [RingingStage (fold report_info (takeWhile (\<lambda>e. e \<noteq> RingingReport) evs) (fo_info s))] else [])
       @ (if fo_identity s \<noteq> RingOutPublished \<and> (fo_phase s = PhRinging \<or> RingingReport \<in> set before)
            \<and> (fo_identity s = IdentityReady \<or> list_ex is_party before) then [RingOutStage] else [])
       @ (case early of [] \<Rightarrow> [] | Staged # _ \<Rightarrow> [EarlyMediaStage codec] | Coupled # _ \<Rightarrow> [CoupledMediaStage codec])
       @ (if fo_phase s \<noteq> PhAnswered \<and> AnswerReport \<in> set evs
          then [if fo_closed s \<and> early = [] then MediaStage codec else ConnectedStage] else []))"

lemma follow_followable: "followable s \<Longrightarrow> followable (snd (follow codec ev s))"
  by (cases ev) (auto simp: followable_def Let_def)

lemma coming_step:
  assumes "followable s"
  shows "coming_stages codec (ev # evs) s = fst (follow codec ev s) @ coming_stages codec evs (snd (follow codec ev s))"
proof (cases ev)
  case ProceedingReport
  with assms show ?thesis
    by (cases "fo_phase s") (simp_all add: coming_stages_def followable_def Let_def map_filter_Cons cong: if_cong split del: if_split)
next
  case RingingReport
  with assms show ?thesis
    by (cases "fo_phase s"; cases "fo_identity s")
      (simp_all add: coming_stages_def followable_def Let_def map_filter_Cons cong: if_cong split del: if_split)
next
  case (ProgressReport early mode)
  with assms show ?thesis
    by (cases "fo_phase s"; cases early; cases mode; cases "fo_closed s")
      (simp_all add: coming_stages_def followable_def Let_def map_filter_Cons cong: if_cong split del: if_split)
next
  case (PartyReport snapshot)
  with assms show ?thesis
    by (cases "fo_phase s"; cases "fo_identity s")
      (simp_all add: coming_stages_def followable_def Let_def map_filter_Cons cong: if_cong split del: if_split)
next
  case AnswerReport
  with assms show ?thesis
    by (cases "fo_phase s") (simp_all add: coming_stages_def followable_def Let_def List.map_filter_simps)
qed

lemma coming_stages_Nil: "followable s \<Longrightarrow> coming_stages codec [] s = []"
  by (auto simp: coming_stages_def followable_def List.map_filter_def)

lemma follow_all_Cons:
  "fst (follow_all codec (ev # evs) s) = fst (follow codec ev s) @ fst (follow_all codec evs (snd (follow codec ev s)))"
  "snd (follow_all codec (ev # evs) s) = snd (follow_all codec evs (snd (follow codec ev s)))"
  by (simp_all add: Let_def split: prod.split)

lemma follow_all_stages: "followable s \<Longrightarrow> fst (follow_all codec evs s) = coming_stages codec evs s"
proof (induction evs arbitrary: s)
  case (Cons ev evs)
  from Cons.IH [OF follow_followable [OF Cons.prems]] coming_step [OF Cons.prems] show ?case
    by (simp only: follow_all_Cons)
qed (simp add: coming_stages_Nil)

lemma coming_expected:
  "coming_stages codec evs \<lparr>fo_phase = PhRouting, fo_identity = Awaiting, fo_closed = True, fo_info = info\<rparr>
    = expected_stages codec info evs"
  by (simp add: coming_stages_def expected_stages_def Let_def)

lemma follow_all_info: "fo_info (snd (follow_all codec evs s)) = fold report_info evs (fo_info s)"
proof (induction evs arbitrary: s)
  case (Cons ev evs)
  have "fo_info (snd (follow codec ev s)) = report_info ev (fo_info s)" by (cases ev) (simp_all add: Let_def)
  with Cons.IH show ?case unfolding follow_all_Cons by simp
qed simp

lemma follow_all_answered:
  "fo_phase (snd (follow_all codec evs s)) = PhAnswered \<longleftrightarrow> fo_phase s = PhAnswered \<or> AnswerReport \<in> set evs"
proof (induction evs arbitrary: s)
  case (Cons ev evs)
  have "fo_phase (snd (follow codec ev s)) = PhAnswered \<longleftrightarrow> fo_phase s = PhAnswered \<or> ev = AnswerReport"
    by (cases ev) (simp_all add: Let_def)
  with Cons.IH show ?case unfolding follow_all_Cons by auto
qed simp

section \<open>The controller follows\<close>

text \<open>
  \<open>tracks\<close>: the controller's record of call \<open>p\<close>, whose owner is the presentation \<open>a\<close>, is in
  the state \<open>s\<close>.
\<close>

definition tracks :: "'x call_appearance \<Rightarrow> followed \<Rightarrow> pbx_call_id \<Rightarrow> 'x controller \<Rightarrow> bool" where
  "tracks a s p c \<longleftrightarrow> p \<notin> set (ct_redirect_claims c)
     \<and> (\<exists>call. pbx_call_of c p = Some call \<and> pc_direction call = Outbound \<and> owner_or_first call = Some (ap_id a)
         \<and> pc_outbound_phase call = Some (fo_phase s) \<and> pc_outbound_identity_stage call = fo_identity s
         \<and> pc_state call = (if fo_phase s = PhAnswered then StConnected else StCalling)
         \<and> distinct (pc_appearance_ids call) \<and> ap_id a \<in> set (pc_appearance_ids call))
     \<and> (\<exists>b. appearance_of c (ap_id a) = Some b \<and> ap_device_id b = ap_device_id a \<and> ap_sccp_id b = ap_sccp_id a
         \<and> ap_codec b = ap_codec a \<and> ap_info b = fo_info s \<and> in_direction (fo_info s) = Outbound
         \<and> fo_closed s = (ap_audio b = StreamClosed) \<and> (fo_closed s \<longrightarrow> ap_sccp_id a \<notin> set (ct_pending_route_media c))
         \<and> (fo_phase s = PhAnswered \<longrightarrow> ap_state b = StConnected))"

lemma tracksE:
  assumes "tracks a s p c"
  obtains call b where "p \<notin> set (ct_redirect_claims c)" "pbx_call_of c p = Some call" "pc_direction call = Outbound"
    "owner_or_first call = Some (ap_id a)" "pc_outbound_phase call = Some (fo_phase s)" "pc_outbound_identity_stage call = fo_identity s"
    "pc_state call = (if fo_phase s = PhAnswered then StConnected else StCalling)"
    "distinct (pc_appearance_ids call)" "ap_id a \<in> set (pc_appearance_ids call)"
    "appearance_of c (ap_id a) = Some b" "ap_device_id b = ap_device_id a" "ap_sccp_id b = ap_sccp_id a" "ap_codec b = ap_codec a"
    "ap_info b = fo_info s" "in_direction (fo_info s) = Outbound" "fo_closed s = (ap_audio b = StreamClosed)"
    "fo_closed s \<Longrightarrow> ap_sccp_id a \<notin> set (ct_pending_route_media c)" "fo_phase s = PhAnswered \<Longrightarrow> ap_state b = StConnected"
  using assms unfolding tracks_def by blast

text \<open>Only these fields matter.\<close>

lemma tracks_cong:
  assumes "tracks a s p c" and "ct_registry c' = ct_registry c" and "ct_redirect_claims c' = ct_redirect_claims c"
    and "ct_pending_route_media c' = ct_pending_route_media c"
  shows "tracks a s p c'"
  using assms unfolding tracks_def by simp

lemma advance_transfer_fields [simp]:
  "ct_registry (advance_transfer_for_pbx p phase c) = ct_registry c"
  "ct_redirect_claims (advance_transfer_for_pbx p phase c) = ct_redirect_claims c"
  "ct_pending_route_media (advance_transfer_for_pbx p phase c) = ct_pending_route_media c"
  by (simp_all add: advance_transfer_for_pbx_def split: option.split)

lemma tracks_advance [simp]: "tracks a s p c \<Longrightarrow> tracks a s p (advance_transfer_for_pbx p' phase c)"
  by (erule tracks_cong) simp_all

lemma touch_pending [simp]:
  "ct_pending_route_media (modify_call p g c) = ct_pending_route_media c"
  "ct_pending_route_media (modify_appearance i f c) = ct_pending_route_media c"
  "ct_pending_route_media (write_appearance i b c) = ct_pending_route_media c"
  "ct_pending_route_media (present_owner b k c) = ct_pending_route_media c"
  by (simp_all add: modify_call_def modify_appearance_def write_appearance_def present_owner_def set_call_selected_def
      set_active_call_def select_line_def)

text \<open>A write to the call that keeps its owner and its state.\<close>

lemma tracks_call:
  assumes t: "tracks a s p c" and g: "\<And>call. pc_direction (g call) = pc_direction call \<and> pc_state (g call) = pc_state call
      \<and> pc_active_appearance (g call) = pc_active_appearance call \<and> pc_appearance_ids (g call) = pc_appearance_ids call"
    and "\<And>call. pbx_call_of c p = Some call \<Longrightarrow> pc_outbound_phase (g call) = Some (fo_phase s')
      \<and> pc_outbound_identity_stage (g call) = fo_identity s'"
    and "fo_closed s' = fo_closed s" "fo_info s' = fo_info s" "(fo_phase s' = PhAnswered) = (fo_phase s = PhAnswered)"
  shows "tracks a s' p (modify_call p g c)"
  using t
proof (rule tracksE)
  fix call b
  assume call: "pbx_call_of c p = Some call" "owner_or_first call = Some (ap_id a)"
  moreover have "owner_or_first (g call) = owner_or_first call" using g [of call] by (simp add: owner_or_first_def split: option.split)
  ultimately show ?thesis using t assms g [of call] assms(3) [OF call(1)] unfolding tracks_def by auto
qed

lemma advance_tracks:
  assumes "tracks a s p c" and "advance_outbound_call_phase p phase c = (x, c')" and "phase \<noteq> PhAnswered"
  shows "if phase_rank (fo_phase s) < phase_rank phase
    then (\<exists>b. x = Some b \<and> ap_device_id b = ap_device_id a \<and> ap_sccp_id b = ap_sccp_id a \<and> ap_info b = fo_info s)
      \<and> tracks a (s\<lparr>fo_phase := phase\<rparr>) p c'
    else x = None \<and> c' = c"
  using assms(1)
proof (rule tracksE)
  fix call b
  assume h: "pbx_call_of c p = Some call" "pc_direction call = Outbound" "owner_or_first call = Some (ap_id a)"
    "pc_outbound_phase call = Some (fo_phase s)" "pc_outbound_identity_stage call = fo_identity s"
    "pc_state call = (if fo_phase s = PhAnswered then StConnected else StCalling)" "appearance_of c (ap_id a) = Some b"
    "ap_device_id b = ap_device_id a" "ap_sccp_id b = ap_sccp_id a" "ap_info b = fo_info s"
  show ?thesis
  proof (cases "phase_rank (fo_phase s) < phase_rank phase")
    case True
    then have na: "fo_phase s \<noteq> PhAnswered" by (cases phase) auto
    have "tracks a (s\<lparr>fo_phase := phase\<rparr>) p (modify_call p (\<lambda>call. call\<lparr>pc_outbound_phase := Some phase\<rparr>) c)"
      by (rule tracks_call [OF assms(1)]) (use h na assms(3) in simp_all)
    moreover have "(x, c') = (Some b, modify_call p (\<lambda>call. call\<lparr>pc_outbound_phase := Some phase\<rparr>) c)"
      unfolding assms(2) [symmetric] using True na h by (simp add: advance_outbound_call_phase_def)
    ultimately show ?thesis using True h by simp
  qed (use h assms(2) in \<open>simp add: advance_outbound_call_phase_def\<close>)
qed

lemma publish_tracks:
  assumes "tracks a s p c" and "publish_outbound_ring_out p c = (es, c')"
  shows "if fo_phase s = PhRinging \<and> fo_identity s = IdentityReady
    then stages es = [(ap_device_id a, ap_sccp_id a, RingOutStage)] \<and> tracks a (s\<lparr>fo_identity := RingOutPublished\<rparr>) p c'
    else es = [] \<and> c' = c"
  using assms(1)
proof (rule tracksE)
  fix call b
  assume h: "pbx_call_of c p = Some call" "pc_direction call = Outbound" "owner_or_first call = Some (ap_id a)"
    "pc_outbound_phase call = Some (fo_phase s)" "pc_outbound_identity_stage call = fo_identity s"
    "pc_state call = (if fo_phase s = PhAnswered then StConnected else StCalling)" "appearance_of c (ap_id a) = Some b"
    "ap_device_id b = ap_device_id a" "ap_sccp_id b = ap_sccp_id a"
  have "tracks a (s\<lparr>fo_identity := RingOutPublished\<rparr>) p (modify_call p (\<lambda>call. call\<lparr>pc_outbound_identity_stage := RingOutPublished\<rparr>) c)"
    by (rule tracks_call [OF assms(1)]) (use h in simp_all)
  with h assms(2) show ?thesis by (auto simp: publish_outbound_ring_out_def map_filter_Cons List.map_filter_simps)
qed

text \<open>A loop over the presentations: what it does to the owner, and which stages it shows.\<close>

lemma loop_others:
  "i \<notin> set ids \<Longrightarrow> for_appearances f ids c = (es, c') \<Longrightarrow> appearance_of c' i = appearance_of c i"
proof (induction ids arbitrary: c es)
  case (Cons j ids)
  show ?case
  proof (cases "appearance_of c j")
    case (Some a)
    obtain a' x d where f: "f j a = (a', x, d)" by (cases "f j a")
    define c2 where "c2 = (if d then deselect (ap_device_id a') (ap_sccp_id a') (write_appearance j a' c) else write_appearance j a' c)"
    obtain rest where "for_appearances f ids c2 = (rest, c')"
      using Cons.prems Some f by (auto simp: c2_def Let_def split: prod.splits)
    from Cons.IH [OF _ this] Cons.prems(1) show ?thesis by (simp add: c2_def write_appearance_def deselect_def)
  qed (use Cons in simp)
qed simp

lemma loop_owner:
  assumes "distinct ids" and "i \<in> set ids" and "appearance_of c i = Some a" and "for_appearances f ids c = (es, c')"
  shows "appearance_of c' i = Some (fst (f i a))"
  using assms
proof (induction ids arbitrary: c es)
  case (Cons j ids)
  show ?case
  proof (cases "appearance_of c j")
    case (Some b)
    obtain b' x d where f: "f j b = (b', x, d)" by (cases "f j b")
    define c2 where "c2 = (if d then deselect (ap_device_id b') (ap_sccp_id b') (write_appearance j b' c) else write_appearance j b' c)"
    obtain rest where rest: "for_appearances f ids c2 = (rest, c')"
      using Cons.prems(4) Some f by (auto simp: c2_def Let_def split: prod.splits)
    have c2: "appearance_of c2 k = (if k = j then Some b' else appearance_of c k)" for k
      by (simp add: c2_def write_appearance_def deselect_def)
    show ?thesis
    proof (cases "i = j")
      case True
      with loop_others [OF _ rest] Cons.prems(1,3) Some c2 f show ?thesis by simp
    next
      case False
      with Cons.IH [OF _ _ _ rest] Cons.prems c2 show ?thesis by simp
    qed
  qed (use Cons in auto)
qed simp

lemma loop_fields:
  "for_appearances f ids c = (es, c') \<Longrightarrow> rg_pbx (ct_registry c') = rg_pbx (ct_registry c)
    \<and> ct_redirect_claims c' = ct_redirect_claims c \<and> ct_pending_route_media c' = ct_pending_route_media c"
proof (induction ids arbitrary: c es)
  case (Cons j ids)
  show ?case
  proof (cases "appearance_of c j")
    case (Some a)
    obtain a' x d where f: "f j a = (a', x, d)" by (cases "f j a")
    define c2 where "c2 = (if d then deselect (ap_device_id a') (ap_sccp_id a') (write_appearance j a' c) else write_appearance j a' c)"
    obtain rest where "for_appearances f ids c2 = (rest, c')"
      using Cons.prems Some f by (auto simp: c2_def Let_def split: prod.splits)
    from Cons.IH [OF this] show ?thesis by (simp add: c2_def write_appearance_def deselect_def)
  qed (use Cons in simp)
qed simp

lemma loop_stages:
  assumes f: "\<And>i a. stages (fst (snd (f i a))) = []"
  shows "for_appearances f ids c = (es, c') \<Longrightarrow> stages es = []"
proof (induction ids arbitrary: c es)
  case (Cons j ids)
  show ?case
  proof (cases "appearance_of c j")
    case (Some a)
    obtain a' x d where fj: "f j a = (a', x, d)" by (cases "f j a")
    define c2 where "c2 = (if d then deselect (ap_device_id a') (ap_sccp_id a') (write_appearance j a' c) else write_appearance j a' c)"
    obtain rest where rest: "for_appearances f ids c2 = (rest, c')" "es = x @ rest"
      using Cons.prems Some fj by (auto simp: c2_def Let_def split: prod.splits)
    from Cons.IH [OF rest(1)] f [of j a] fj show ?thesis by (simp add: rest(2) map_filter_append)
  qed (use Cons in simp)
qed (simp add: List.map_filter_simps)

lemma step_stages:
  "stages (fst (snd (update_info_step f i a))) = []" "stages (fst (snd (pbx_answer_step w i a))) = []"
  by (simp_all add: update_info_step_def pbx_answer_step_def appearance_state_effect_def Let_def map_filter_Cons List.map_filter_simps)

section \<open>One report\<close>

text \<open>The stages of a report are those of the phone's view, and the controller keeps track.\<close>

definition follows :: "'x call_appearance \<Rightarrow> followed \<Rightarrow> pbx_call_id \<Rightarrow> progress_report \<Rightarrow> driver_effect list \<Rightarrow> 'x controller \<Rightarrow> bool" where
  "follows a s p ev es c' \<longleftrightarrow> stages es = map (\<lambda>x. (ap_device_id a, ap_sccp_id a, x)) (fst (follow (ap_codec a) ev s))
     \<and> tracks a (snd (follow (ap_codec a) ev s)) p c'"

lemma proceeding_follows:
  assumes "tracks a s p c" and "followable s" and "pbx_proceeding p c = (es, c')"
  shows "follows a s p ProceedingReport es c'"
proof -
  obtain x c1 where c1: "advance_outbound_call_phase p PhProceeding c = (x, c1)" by fastforce
  have "phase_rank (fo_phase s) < phase_rank PhProceeding \<longleftrightarrow> fo_phase s = PhRouting"
    using assms(2) by (cases "fo_phase s") (simp_all add: followable_def)
  with advance_tracks [OF assms(1) c1] assms(1,3) c1 show ?thesis
    by (auto simp: follows_def pbx_proceeding_def map_filter_Cons List.map_filter_simps split: if_splits)
qed

lemma ringing_follows:
  assumes "tracks a s p c" and "followable s" and "pbx_ringing p c = (es, c')"
  shows "follows a s p RingingReport es c'"
proof -
  obtain x c1 where c1: "advance_outbound_call_phase p PhRinging c = (x, c1)" by fastforce
  obtain es2 c2 where c2: "publish_outbound_ring_out p (advance_transfer_for_pbx p Ringing c1) = (es2, c2)" by fastforce
  have rank: "phase_rank (fo_phase s) < phase_rank PhRinging \<longleftrightarrow> fo_phase s \<in> {PhRouting, PhProceeding}"
    using assms(2) by (cases "fo_phase s") (simp_all add: followable_def)
  show ?thesis
  proof (cases "fo_phase s \<in> {PhRouting, PhProceeding}")
    case True
    with advance_tracks [OF assms(1) c1] rank obtain b where b: "x = Some b" "ap_device_id b = ap_device_id a"
      "ap_sccp_id b = ap_sccp_id a" "ap_info b = fo_info s" and t: "tracks a (s\<lparr>fo_phase := PhRinging\<rparr>) p c1" by auto
    have es: "es = Handset (PresentOutboundRinging (ap_device_id a) (ap_sccp_id a) (fo_info s)) # es2" "c' = c2"
      using assms(3) c1 c2 b by (simp_all add: pbx_ringing_def)
    from publish_tracks [OF tracks_advance [OF t] c2] True t show ?thesis
      unfolding follows_def es by (auto simp: map_filter_Cons List.map_filter_simps split: if_splits)
  next
    case False
    with advance_tracks [OF assms(1) c1] rank have "x = None" "c1 = c" by simp_all
    with assms(1,3) c1 False show ?thesis by (auto simp: follows_def pbx_ringing_def List.map_filter_simps)
  qed
qed

lemma progress_follows:
  assumes "tracks a s p c" and "followable s" and run: "pbx_progress_with_media_mode p early mode c = (es, c')"
  shows "follows a s p (ProgressReport early mode) es c'"
  using assms(1)
proof (rule tracksE)
  fix call b
  assume h: "p \<notin> set (ct_redirect_claims c)" "pbx_call_of c p = Some call" "pc_direction call = Outbound" "owner_or_first call = Some (ap_id a)"
    "pc_outbound_phase call = Some (fo_phase s)" "pc_outbound_identity_stage call = fo_identity s"
    "pc_state call = (if fo_phase s = PhAnswered then StConnected else StCalling)"
    "distinct (pc_appearance_ids call)" "ap_id a \<in> set (pc_appearance_ids call)"
    and b: "appearance_of c (ap_id a) = Some b"
    "ap_device_id b = ap_device_id a" "ap_sccp_id b = ap_sccp_id a" "ap_codec b = ap_codec a" "ap_info b = fo_info s"
    "in_direction (fo_info s) = Outbound" "fo_closed s = (ap_audio b = StreamClosed)"
    "fo_closed s \<Longrightarrow> ap_sccp_id a \<notin> set (ct_pending_route_media c)"
  show ?thesis
  proof (cases "fo_phase s = PhAnswered")
    case True
    then have "es = [] \<and> c' = c" using run h by (simp add: pbx_progress_with_media_mode_def)
    with True assms(1) show ?thesis by (simp add: follows_def List.map_filter_simps)
  next
    case False
    have rank: "\<not> phase_rank PhProgress < phase_rank (fo_phase s)" "\<not> phase_rank (fo_phase s) < phase_rank PhRouting"
      using False assms(2) by (cases "fo_phase s"; simp add: followable_def)+
    let ?g = "\<lambda>call. call\<lparr>pc_outbound_phase := Some PhProgress\<rparr>"
    have oof: "owner_or_first (?g call) = Some (ap_id a)" using h(4) by (simp add: owner_or_first_def split: option.splits)
    show ?thesis
    proof (cases "early \<and> fo_closed s")
      case True
      define f :: "'a call_appearance \<Rightarrow> 'a call_appearance" where "f = (case mode of
          Staged \<Rightarrow> (\<lambda>a. a\<lparr>ap_audio := StreamOpening\<rparr>)
        | Coupled \<Rightarrow> (\<lambda>a. a\<lparr>ap_audio := StreamOpening, ap_audio_transmit := StreamOpening\<rparr>))"
      define c1 where "c1 = (case mode of Staged \<Rightarrow> modify_appearance (ap_id a) f c
        | Coupled \<Rightarrow> (modify_appearance (ap_id a) f c)\<lparr>ct_pending_route_media := List.insert (ap_sccp_id b) (ct_pending_route_media c)\<rparr>)"
      have res: "stages es = [(ap_device_id a, ap_sccp_id a, case mode of Staged \<Rightarrow> EarlyMediaStage (ap_codec a)
          | Coupled \<Rightarrow> CoupledMediaStage (ap_codec a))]" "c' = advance_transfer_for_pbx p Ringing (modify_call p ?g c1)"
        using run h b True False rank
        by (cases mode; auto simp: pbx_progress_with_media_mode_def Let_def f_def c1_def map_filter_Cons List.map_filter_simps)+
      have "tracks a (s\<lparr>fo_phase := PhProgress, fo_closed := False\<rparr>) p (modify_call p ?g c1)"
        using h b oof False by (cases mode) (simp_all add: tracks_def c1_def f_def)
      with res True False show ?thesis by (simp add: follows_def)
    next
      case nomedia: False
      then have res: "es = []" "c' = advance_transfer_for_pbx p Ringing (modify_call p ?g c)"
        using run h b False rank by (auto simp: pbx_progress_with_media_mode_def Let_def)
      have "tracks a (s\<lparr>fo_phase := PhProgress\<rparr>) p (modify_call p ?g c)"
        by (rule tracks_call [OF assms(1)]) (use h False in simp_all)
      with res nomedia False show ?thesis by (auto simp: follows_def List.map_filter_simps)
    qed
  qed
qed

lemma update_info_tracks:
  assumes "tracks a s p c" and "update_call_info_by_pbx p update c = (es, c')" and "in_direction (update (fo_info s)) = Outbound"
  shows "stages es = []" "tracks a (s\<lparr>fo_info := update (fo_info s)\<rparr>) p c'"
proof -
  show "stages es = []"
    using loop_stages [of "update_info_step update"] step_stages(1) assms(2) unfolding update_call_info_by_pbx_def by blast
  show "tracks a (s\<lparr>fo_info := update (fo_info s)\<rparr>) p c'" using assms(1)
  proof (rule tracksE)
    fix call b
    assume h: "pbx_call_of c p = Some call" "distinct (pc_appearance_ids call)" "ap_id a \<in> set (pc_appearance_ids call)"
      and b: "appearance_of c (ap_id a) = Some b" "ap_info b = fo_info s"
    have loop: "for_appearances (update_info_step update) (pc_appearance_ids call) c = (es, c')"
      using assms(2) h(1) by (simp add: update_call_info_by_pbx_def)
    have "appearance_of c' (ap_id a) = Some (b\<lparr>ap_info := update (fo_info s)\<rparr>)"
      using loop_owner [OF h(2,3) b(1) loop] b(2) by (cases b) (auto simp: update_info_step_def Let_def)
    with assms(1,3) b loop_fields [OF loop] show ?thesis by (auto simp: tracks_def)
  qed
qed

lemma party_follows:
  assumes "tracks a s p c" and "followable s" and run: "apply_party_snapshot p snapshot c = (es, c')"
  shows "follows a s p (PartyReport snapshot) es c'"
proof -
  let ?info = "apply_to_call_info snapshot (fo_info s)" and ?s = "s\<lparr>fo_info := apply_to_call_info snapshot (fo_info s)\<rparr>"
  obtain es1 c1 where c1: "update_call_info_by_pbx p (apply_to_call_info snapshot) c = (es1, c1)" by fastforce
  obtain es2 where c2: "pbx_remote_identity_ready p c1 = (es2, c')" and es: "es = es1 @ es2"
    using run c1 by (auto simp: apply_party_snapshot_def split: prod.splits)
  have "in_direction ?info = Outbound" using assms(1) by (auto simp: tracks_def)
  note t = update_info_tracks [OF assms(1) c1 this]
  from t(2) show ?thesis
  proof (rule tracksE)
    fix call b
    assume h: "pbx_call_of c1 p = Some call" "pc_direction call = Outbound" "pc_outbound_phase call = Some (fo_phase ?s)"
      "pc_outbound_identity_stage call = fo_identity ?s" "pc_state call = (if fo_phase ?s = PhAnswered then StConnected else StCalling)"
    let ?ready = "modify_call p (\<lambda>call. call\<lparr>pc_outbound_identity_stage := IdentityReady\<rparr>) c1"
    have ready: "tracks a (?s\<lparr>fo_identity := IdentityReady\<rparr>) p ?ready"
      by (rule tracks_call [OF t(2)]) (use h in simp_all)
    show ?thesis
    proof (cases "fo_phase s = PhAnswered")
      case True
      then have "es2 = [] \<and> c' = c1" using c2 h by (simp add: pbx_remote_identity_ready_def)
      with t True es show ?thesis by (simp add: follows_def Let_def)
    next
      case False
      then have pub: "publish_outbound_ring_out p (if fo_identity s \<noteq> RingOutPublished then ?ready else c1) = (es2, c')"
        using c2 h by (simp add: pbx_remote_identity_ready_def)
      show ?thesis
      proof (cases "fo_identity s = RingOutPublished")
        case True
        with publish_tracks [OF t(2)] pub have "es2 = [] \<and> c' = c1" by simp
        with t True es show ?thesis by (simp add: follows_def Let_def)
      next
        case npub: False
        with pub have "publish_outbound_ring_out p ?ready = (es2, c')" by simp
        from publish_tracks [OF ready this] t(1) ready npub False es show ?thesis
          by (auto simp: follows_def Let_def map_filter_append List.map_filter_simps split: if_splits)
      qed
    qed
  qed
qed

lemma answer_follows:
  assumes "tracks a s p c" and "followable s" and run: "pbx_answer p c = (es, c')"
  shows "follows a s p AnswerReport es c'"
  using assms(1)
proof (rule tracksE)
  fix call b
  assume h: "p \<notin> set (ct_redirect_claims c)" "pbx_call_of c p = Some call" "pc_direction call = Outbound" "owner_or_first call = Some (ap_id a)"
    "pc_outbound_phase call = Some (fo_phase s)" "pc_outbound_identity_stage call = fo_identity s"
    "pc_state call = (if fo_phase s = PhAnswered then StConnected else StCalling)"
    "distinct (pc_appearance_ids call)" "ap_id a \<in> set (pc_appearance_ids call)"
    and b: "appearance_of c (ap_id a) = Some b"
    "ap_device_id b = ap_device_id a" "ap_sccp_id b = ap_sccp_id a" "ap_codec b = ap_codec a" "ap_info b = fo_info s"
    "in_direction (fo_info s) = Outbound" "fo_closed s = (ap_audio b = StreamClosed)"
    "fo_closed s \<Longrightarrow> ap_sccp_id a \<notin> set (ct_pending_route_media c)"
  show ?thesis
  proof (cases "fo_phase s = PhAnswered")
    case True
    then have "es = [] \<and> c' = c" using run h by (simp add: pbx_answer_def)
    with True assms(1) show ?thesis by (simp add: follows_def List.map_filter_simps)
  next
    case False
    then have rank: "phase_rank (fo_phase s) < phase_rank PhAnswered" by (cases "fo_phase s") simp_all
    define g :: "pbx_call \<Rightarrow> pbx_call" where "g = (\<lambda>call. call\<lparr>pc_state := StConnected, pc_active_appearance := Some (ap_id a),
        pc_privacy := (pc_privacy call \<or> ap_privacy b \<or> device_privacy c (ap_device_id b)),
        pc_outbound_phase := (if pc_direction call = Outbound \<and> pc_outbound_phase call \<noteq> None then Some PhAnswered else pc_outbound_phase call)\<rparr>)"
    obtain es2 c2 where loop: "for_appearances (pbx_answer_step (ap_id a)) (pc_appearance_ids call) (modify_call p g c) = (es2, c2)" by fastforce
    define b' where "b' = fst (pbx_answer_step (ap_id a) (ap_id a) b)"
    have b2: "appearance_of c2 (ap_id a) = Some b'" unfolding b'_def using loop_owner [OF h(8,9) _ loop] b(1) by simp
    have res: "es = es2 @ answer_effects (if ap_sccp_id b \<in> set (ct_pending_route_media c) then StreamOpening else ap_audio b) (Some Outbound) b'"
      "c' = advance_transfer_for_pbx p Connected (present_owner b' (ap_sccp_id b') c2)"
      using run h b False rank loop b2 unfolding pbx_answer_def g_def by (simp_all add: Let_def)
    have fields: "ap_device_id b' = ap_device_id a" "ap_sccp_id b' = ap_sccp_id a" "ap_codec b' = ap_codec a" "ap_info b' = fo_info s"
      "ap_state b' = StConnected" "ap_audio b' \<noteq> StreamClosed"
      using b by (simp_all add: b'_def pbx_answer_step_def split: media_stream_state.split)
    have "tracks a (s\<lparr>fo_phase := PhAnswered, fo_closed := False\<rparr>) p c2"
      using h b(6) b2 fields loop_fields [OF loop] by (simp add: tracks_def g_def owner_or_first_def)
    then have t: "tracks a (s\<lparr>fo_phase := PhAnswered, fo_closed := False\<rparr>) p c'"
      unfolding res(2) by (intro tracks_advance, elim tracks_cong) simp_all
    have "stages es = [(ap_device_id a, ap_sccp_id a, if fo_closed s then MediaStage (ap_codec a) else ConnectedStage)]"
      using loop_stages [OF step_stages(2) loop] fields b(2,3,7,8)
      by (cases "ap_audio b") (auto simp: res(1) map_filter_append answer_effects_def appearance_state_effect_def map_filter_Cons List.map_filter_simps)
    with t False show ?thesis by (simp add: follows_def)
  qed
qed

lemma step_follows:
  assumes "tracks a s p c" and "followable s" and "progress_step p ev c = (es, c')"
  shows "follows a s p ev es c'"
  using assms(3)
  by (cases ev) (auto intro: proceeding_follows [OF assms(1,2)] ringing_follows [OF assms(1,2)] progress_follows [OF assms(1,2)]
      party_follows [OF assms(1,2)] answer_follows [OF assms(1,2)])

lemma run_follows:
  "tracks a s p c \<Longrightarrow> followable s \<Longrightarrow> progress_run p evs c = (es, c') \<Longrightarrow>
    stages es = map (\<lambda>x. (ap_device_id a, ap_sccp_id a, x)) (fst (follow_all (ap_codec a) evs s))
    \<and> tracks a (snd (follow_all (ap_codec a) evs s)) p c'"
proof (induction evs arbitrary: s c es)
  case (Cons ev evs)
  obtain es1 c1 where c1: "progress_step p ev c = (es1, c1)" by fastforce
  obtain es2 where rest: "progress_run p evs c1 = (es2, c')" "es = es1 @ es2" using Cons.prems(3) c1 by (auto split: prod.splits)
  note f = step_follows [OF Cons.prems(1,2) c1, unfolded follows_def]
  from Cons.IH [OF conjunct2 [OF f] follow_followable [OF Cons.prems(2)] rest(1)] f show ?case
    unfolding follow_all_Cons rest(2) map_filter_append by simp
qed (simp add: List.map_filter_simps)

section \<open>The whole run\<close>

text \<open>
  C6. The progress of an outbound call that has just been routed, with media closed and the
  called party not yet known: whatever its channel reports, that it proceeds, rings, sends
  progress with or without early media, is answered, or who the parties are, in any order
  and any number of times, the phone that owns the call is shown exactly the stages of
  \<open>expected_stages\<close>, in that order, and no other phone is shown any. So no stage comes
  twice or after a later one; ring-out is published exactly when the far end rings and the
  called party is known before progress or the answer; media is opened exactly once, early
  when progress allows it and else by the answer, which otherwise reports the connection;
  and what is shown of the parties is what had been reported until then.
\<close>

theorem progress_presented_exactly:
  assumes "dial_history acs (with_digit_timeouts t u :: 'x controller)" and "c = (dial_run t u acs :: 'x controller)"
    and "pbx_call_of c p = Some call" and "pc_direction call = Outbound" and "pc_state call = StCalling"
    and "pc_outbound_phase call = Some PhRouting" and "pc_outbound_identity_stage call = Awaiting"
    and "owner_or_first call = Some i" and "appearance_of c i = Some a" and "in_direction (ap_info a) = Outbound"
    and "ap_audio a = StreamClosed" and "ap_sccp_id a \<notin> set (ct_pending_route_media c)" and "p \<notin> set (ct_redirect_claims c)"
    and "progress_run p evs c = (es, c')"
  shows "List.map_filter stage_of es
      = map (\<lambda>x. (ap_device_id a, ap_sccp_id a, x)) (expected_stages (ap_codec a) (ap_info a) evs)
    \<and> (\<exists>b. appearance_of c' i = Some b \<and> ap_info b = fold report_info evs (ap_info a)
         \<and> (AnswerReport \<in> set evs \<longrightarrow> ap_state b = StConnected))"
proof -
  have ok: "dialling_ok c" unfolding assms(2) by (rule dial_run_dialling_all [OF assms(1)])
  note cok = dialling_okD(1) [OF ok] and idx = controller_okD(2) [OF dialling_okD(1) [OF ok]]
  have i: "ap_id a = i" by (rule index_ok_appearance(1) [OF idx assms(9)])
  have "ap_pbx_id a = p" using owner_or_first_cases(2) [OF cok assms(3,8)] assms(9) by simp
  with index_ok_appearance(4) [OF idx assms(9)] assms(3) have mem: "i \<in> set (pc_appearance_ids call)" by auto
  let ?s = "\<lparr>fo_phase = PhRouting, fo_identity = Awaiting, fo_closed = True, fo_info = ap_info a\<rparr>"
  have tr: "tracks a ?s p c"
    using assms(3-13) i mem index_ok_pbx(2) [OF idx assms(3)] by (simp add: tracks_def)
  have fo: "followable ?s" by (simp add: followable_def)
  note run = run_follows [OF tr fo assms(14)]
  have "fst (follow_all (ap_codec a) evs ?s) = expected_stages (ap_codec a) (ap_info a) evs"
    using follow_all_stages [OF fo] coming_expected by simp
  moreover from conjunct2 [OF run] obtain b where "appearance_of c' i = Some b" "ap_info b = fo_info (snd (follow_all (ap_codec a) evs ?s))"
    "fo_phase (snd (follow_all (ap_codec a) evs ?s)) = PhAnswered \<longrightarrow> ap_state b = StConnected"
    unfolding i [symmetric] by (rule tracksE) blast
  ultimately show ?thesis using conjunct1 [OF run] by (simp add: follow_all_info follow_all_answered)
qed

theorem progress_presented_exactly_witness:
  "\<exists>a. appearance_for_call (dial_run 10 4 (take 6 dialled_history) :: unit controller) 2 = Some a
    \<and> List.map_filter stage_of (fst (progress_run 1 [RingingReport, RingingReport, PartyReport sample_snapshot, ProceedingReport,
          ProgressReport True Coupled, RingingReport, AnswerReport, AnswerReport] (dial_run 10 4 (take 6 dialled_history) :: unit controller)))
      = map (\<lambda>x. (ap_device_id a, ap_sccp_id a, x)) [RingingStage (ap_info a), RingOutStage, CoupledMediaStage (ap_codec a), ConnectedStage]"
proof -
  let ?c = "dial_run 10 4 (take 6 dialled_history) :: unit controller"
  let ?evs = "[RingingReport, RingingReport, PartyReport sample_snapshot, ProceedingReport,
    ProgressReport True Coupled, RingingReport, AnswerReport, AnswerReport]"
  have safe: "dial_history (take 6 dialled_history) (with_digit_timeouts 10 4 :: unit controller)" by code_simp
  have facts: "(case pbx_call_of ?c 1 of None \<Rightarrow> False | Some call \<Rightarrow> pc_direction call = Outbound \<and> pc_state call = StCalling
      \<and> pc_outbound_phase call = Some PhRouting \<and> pc_outbound_identity_stage call = Awaiting
      \<and> (case owner_or_first call of None \<Rightarrow> False | Some i \<Rightarrow> (case appearance_of ?c i of None \<Rightarrow> False
         | Some a \<Rightarrow> in_direction (ap_info a) = Outbound \<and> ap_audio a = StreamClosed \<and> appearance_for_call ?c 2 = Some a)))
    \<and> ct_pending_route_media ?c = [] \<and> ct_redirect_claims ?c = []"
    by code_simp
  then obtain call i a where call: "pbx_call_of ?c 1 = Some call" "pc_direction call = Outbound" "pc_state call = StCalling"
      "pc_outbound_phase call = Some PhRouting" "pc_outbound_identity_stage call = Awaiting" "owner_or_first call = Some i"
    and a: "appearance_of ?c i = Some a" "in_direction (ap_info a) = Outbound" "ap_audio a = StreamClosed" "appearance_for_call ?c 2 = Some a"
    and none: "ap_sccp_id a \<notin> set (ct_pending_route_media ?c)" "1 \<notin> set (ct_redirect_claims ?c)"
    by (auto split: option.splits)
  obtain es c' where run: "progress_run 1 ?evs ?c = (es, c')" by fastforce
  have "expected_stages (ap_codec a) (ap_info a) ?evs
      = [RingingStage (ap_info a), RingOutStage, CoupledMediaStage (ap_codec a), ConnectedStage]"
    by (simp add: expected_stages_def Let_def map_filter_Cons List.map_filter_simps)
  with progress_presented_exactly [OF safe refl call a(1-3) none run] run a(4) show ?thesis by simp
qed

end
