(* ===== verification/Dial_Outcomes.thy ===== *)
theory Dial_Outcomes
  imports Dial_Histories
begin

text \<open>
  What dialling achieves: the number that was dialled is the one that is routed, once, and
  parking that fails leaves everything as it was.
\<close>

section \<open>The dialled number\<close>

fun press_all :: "call_id \<Rightarrow> (digit \<times> instant) list \<Rightarrow> 'x controller \<Rightarrow> driver_effect list \<times> 'x controller" where
  "press_all k [] c = ([], c)"
| "press_all k ((d, now) # ds) c =
     (let (effects, c1) = press_digit k d now c; (rest, c2) = press_all k ds c1 in (effects @ rest, c2))"

fun is_tone :: "driver_effect \<Rightarrow> bool" where
  "is_tone (Handset (StartTone d k t)) = True"
| "is_tone _ = False"

definition same_call :: "pbx_call \<Rightarrow> pbx_call \<Rightarrow> bool" where
  "same_call call call' \<longleftrightarrow> call' = call\<lparr>pc_digits := pc_digits call', pc_digit_deadline := pc_digit_deadline call',
     pc_last_digit_at := pc_last_digit_at call', pc_simulated_enbloc_eligible := pc_simulated_enbloc_eligible call'\<rparr>"

lemma same_call_refl: "same_call call call"
  by (simp add: same_call_def)

lemma same_callD:
  assumes "same_call call call'"
  shows "pc_id call' = pc_id call" "pc_appearance_ids call' = pc_appearance_ids call" "pc_state call' = pc_state call"
    "pc_active_appearance call' = pc_active_appearance call" "pc_pending_pickup call' = pc_pending_pickup call"
    "pc_direction call' = pc_direction call" "pc_context call' = pc_context call" "pc_overlap_enabled call' = pc_overlap_enabled call"
  using assms by (cases call; cases call'; simp add: same_call_def)+

lemma same_call_trans:
  assumes "same_call a b" and "same_call b d"
  shows "same_call a d"
  using assms by (cases a; cases b; cases d) (simp add: same_call_def)

lemma modify_call_const:
  "pbx_call_of c p = Some call \<Longrightarrow> modify_call p (\<lambda>_. call) c = c"
  "modify_call p (\<lambda>_. x) (modify_call p (\<lambda>_. y) c) = modify_call p (\<lambda>_. x) c"
proof -
  show "modify_call p (\<lambda>_. call) c = c" if "pbx_call_of c p = Some call"
    using that by (simp add: modify_call_def hm_modify_def hm_insert_def update_triv)
  show "modify_call p (\<lambda>_. x) (modify_call p (\<lambda>_. y) c) = modify_call p (\<lambda>_. x) c"
  proof (cases "pbx_call_of c p")
    case (Some z)
    then have "hm_modify p (\<lambda>_. x) (hm_modify p (\<lambda>_. y) (rg_pbx (ct_registry c))) = hm_modify p (\<lambda>_. x) (rg_pbx (ct_registry c))"
      by (simp add: hm_modify_def hm_insert_def update_conv')
    then show ?thesis by (simp add: modify_call_def)
  qed (simp add: modify_call_def hm_modify_def)
qed

lemma collect_plain:
  assumes "\<not> pc_overlap_enabled call0" and "st \<noteq> StPickupCollecting"
  obtains call deadline where "collect_digit c st ch now call0 = (False, call)" "same_call call0 call"
    "pc_digits call = pc_digits call0 @ [ch]" "pc_digit_deadline call = Some deadline" "deadline \<le> now + ct_interdigit c"
proof (rule that)
  let ?call = "snd (collect_digit c st ch now call0)"
  show "collect_digit c st ch now call0 = (False, ?call)" using assms by (simp add: collect_digit_def Let_def)
  show "same_call call0 ?call" "pc_digits ?call = pc_digits call0 @ [ch]"
    using assms by (simp_all add: collect_digit_def Let_def same_call_def)
  show "pc_digit_deadline ?call = Some (the (pc_digit_deadline ?call))"
    "the (pc_digit_deadline ?call) \<le> now + ct_interdigit c"
    using assms by (simp_all add: collect_digit_def Let_def at_most_secs_def)
qed

lemma tone_effects_tone: "list_all is_tone (tone_effects d k t)"
  by (simp add: tone_effects_def split: option.split)

lemma press_all_collects:
  assumes "dialling_ok c" and "appearance_for_call c k = Some a" and "ap_state a \<in> {StCollecting, StTransferCollecting}"
    and "pbx_call_of c (ap_pbx_id a) = Some call" and "\<not> pc_overlap_enabled call"
    and "map (\<lambda>x. digit_character (fst x)) ds = map Some chs" and "ct_dial_terminator c \<notin> set chs"
    and "press_all k ds c = (es, c')"
  shows "list_all is_tone es \<and> (\<exists>call'. c' = modify_call (ap_pbx_id a) (\<lambda>_. call') c \<and> same_call call call'
    \<and> pc_digits call' = pc_digits call @ chs
    \<and> (ds \<noteq> [] \<longrightarrow> (\<exists>deadline. pc_digit_deadline call' = Some deadline \<and> deadline \<le> snd (last ds) + ct_interdigit c)))"
  using assms
proof (induction ds arbitrary: c call chs es)
  case Nil
  then show ?case using modify_call_const(1) [OF Nil.prems(4)] same_call_refl by force
next
  case (Cons dn ds)
  obtain d now where dn: "dn = (d, now)" by (cases dn)
  from Cons.prems(6) obtain ch chs' where chs: "chs = ch # chs'" "digit_character d = Some ch"
    "map (\<lambda>x. digit_character (fst x)) ds = map Some chs'" by (cases chs) (auto simp: dn)
  have col: "collects (ap_state a)" and np: "ap_state a \<noteq> StPickupCollecting" using Cons.prems(3) by auto
  obtain call1 dl where c1: "collect_digit c (ap_state a) ch now call = (False, call1)" "same_call call call1"
    "pc_digits call1 = pc_digits call @ [ch]" "pc_digit_deadline call1 = Some dl" "dl \<le> now + ct_interdigit c"
    using collect_plain [OF Cons.prems(5) np] by metis
  let ?p = "ap_pbx_id a" and ?c1 = "modify_call (ap_pbx_id a) (\<lambda>_. call1) c"
  have press: "press_digit k d now c = (tone_effects (ap_device_id a) k (secondary_tone c call1), ?c1)"
    using press_collecting [OF dialling_okD(1) [OF Cons.prems(1)] Cons.prems(2) col Cons.prems(4) chs(2) _ c1(1)]
      Cons.prems(7) chs(1) by auto
  obtain rest where rest: "press_all k ds ?c1 = (rest, c')"
    "es = tone_effects (ap_device_id a) k (secondary_tone c call1) @ rest"
    using Cons.prems(8) press by (auto simp: dn split: prod.splits)
  have ok1: "dialling_ok ?c1" by (rule press_digit_dialling [OF Cons.prems(1) press])
  have a1: "appearance_for_call ?c1 k = Some a" using Cons.prems(2) by (simp add: appearance_for_def)
  have call1: "pbx_call_of ?c1 ?p = Some call1" using Cons.prems(4) by simp
  have f: "ct_dial_terminator ?c1 = ct_dial_terminator c" "ct_interdigit ?c1 = ct_interdigit c" by (simp_all add: modify_call_def)
  from Cons.IH [OF ok1 a1 Cons.prems(3) call1 _ chs(3) _ rest(1)] same_callD(8) [OF c1(2)] Cons.prems(5,7) chs(1) f
  obtain call' where ih: "list_all is_tone rest" "c' = modify_call ?p (\<lambda>_. call') ?c1" "same_call call1 call'"
    "pc_digits call' = pc_digits call1 @ chs'"
    "ds \<noteq> [] \<longrightarrow> (\<exists>deadline. pc_digit_deadline call' = Some deadline \<and> deadline \<le> snd (last ds) + ct_interdigit c)"
    by auto
  have "ds = [] \<Longrightarrow> call' = call1"
  proof -
    assume "ds = []"
    with rest(1) have "c' = ?c1" by simp
    then have "pbx_call_of c' ?p = Some call1" using call1 by simp
    then show "call' = call1" using ih(2) call1 by simp
  qed
  then have "\<exists>deadline. pc_digit_deadline call' = Some deadline \<and> deadline \<le> snd (last (dn # ds)) + ct_interdigit c"
    using ih(5) c1(4,5) by (cases "ds = []") (auto simp: dn)
  moreover have "c' = modify_call ?p (\<lambda>_. call') c" using ih(2) by (simp add: modify_call_const(2))
  ultimately show ?case
    using same_call_trans [OF c1(2) ih(3)] ih(1,4) rest(2) tone_effects_tone c1(3) chs(1) by auto
qed

lemma advance_transfer_registry [simp]: "ct_registry (advance_transfer_for_pbx p phase c) = ct_registry c"
  by (simp add: advance_transfer_for_pbx_def split: option.split)

lemma appearance_for_modify_call [simp]: "appearance_for_call (modify_call p g c) k = appearance_for_call c k"
  by (simp add: appearance_for_def)

lemma appearance_for_touched:
  assumes "controller_ok c" and "appearance_for_call c k = Some a"
  shows "appearance_for_call (modify_appearance (ap_id a) f c) k = Some (f a)"
  using appearance_for_owned(1,3) [OF controller_okD(2) [OF assms(1)] assms(2)] by (simp add: appearance_for_def)

lemma route_call_effects:
  assumes ok: "dialling_ok c" and a: "appearance_for_call c k = Some a" and col: "collects (ap_state a)"
    and call: "pbx_call_of c (ap_pbx_id a) = Some call" "pc_direction call = Outbound"
    and run: "route_call a call k c = (es, c')"
  shows "es = [Handset (CommitOutboundCall (ap_device_id a) k ((ap_info a)\<lparr>in_called_number := pc_digits call\<rparr>)),
      Backend (StartRouting (ap_pbx_id a) (pc_context call) (pc_digits call))]"
    "\<exists>a'. appearance_for_call c' k = Some a' \<and> ap_state a' = StCalling \<and> in_called_number (ap_info a') = pc_digits call"
proof -
  note co = collecting_owner [OF ok a col call(1)] and idx = controller_okD(2) [OF dialling_okD(1) [OF ok]]
  define c2 where "c2 = modify_appearance (ap_id a) (\<lambda>a. a\<lparr>ap_state := StCalling\<rparr>)
      (modify_call (ap_pbx_id a) (\<lambda>call. call\<lparr>pc_digit_deadline := None, pc_state := StCalling\<rparr>) c)"
  define c3 where "c3 = (if (case for_leg \<lparr>leg_handset_call_id = k, leg_pbx_call_id = ap_pbx_id a\<rparr> (ct_transfers c) of None \<Rightarrow> False
      | Some t \<Rightarrow> tt_consultation t = Some \<lparr>leg_handset_call_id = k, leg_pbx_call_id = ap_pbx_id a\<rparr>)
    then advance_transfer_for_pbx (ap_pbx_id a) Routing c2 else c2)"
  have reg: "ct_registry c3 = ct_registry c2" by (simp add: c3_def)
  have call3: "pbx_call_of c3 (ap_pbx_id a) = Some (call\<lparr>pc_digit_deadline := None, pc_state := StCalling\<rparr>)"
    and app3: "appearance_of c3 (ap_id a) = Some (a\<lparr>ap_state := StCalling\<rparr>)"
    unfolding reg c2_def using call(1) co(1) by simp_all
  obtain es4 c4 where c4: "outbound_route_presentation (ap_pbx_id a) (pc_digits call) c3 = (es4, c4)" by fastforce
  have fin: "es = es4 @ [Backend (StartRouting (ap_pbx_id a) (pc_context call) (pc_digits call))]" "c' = c4"
    using run c4 unfolding route_call_def Let_def c2_def [symmetric] c3_def [symmetric] by simp_all
  have route: "es4 = [Handset (CommitOutboundCall (ap_device_id a) (ap_sccp_id a) ((ap_info a)\<lparr>in_called_number := pc_digits call\<rparr>))]"
    "c4 = modify_call (ap_pbx_id a) (\<lambda>call. call\<lparr>pc_outbound_phase := Some PhRouting\<rparr>)
      (write_appearance (ap_id a) (a\<lparr>ap_state := StCalling, ap_info := (ap_info a)\<lparr>in_called_number := pc_digits call\<rparr>\<rparr>) c3)"
    using c4 call3 app3 call(2) co(2) by (simp_all add: outbound_route_presentation_def owner_or_first_def Let_def)
  show "es = [Handset (CommitOutboundCall (ap_device_id a) k ((ap_info a)\<lparr>in_called_number := pc_digits call\<rparr>)),
      Backend (StartRouting (ap_pbx_id a) (pc_context call) (pc_digits call))]"
    using fin(1) route(1) appearance_for_owned(2) [OF idx a] by simp
  have "hm_get (rg_by_sccp (ct_registry c3)) k = Some (ap_id a)"
    unfolding reg c2_def using appearance_for_owned(3) [OF idx a] by simp
  then show "\<exists>a'. appearance_for_call c' k = Some a' \<and> ap_state a' = StCalling \<and> in_called_number (ap_info a') = pc_digits call"
    unfolding fin(2) route(2) by (simp add: appearance_for_def write_appearance_def)
qed

lemma finish_routes:
  assumes ok: "dialling_ok c" and a: "appearance_for_call c k = Some a" and st: "ap_state a \<in> {StCollecting, StTransferCollecting}"
    and call: "pbx_call_of c (ap_pbx_id a) = Some call" "pc_direction call = Outbound" "pc_digits call \<noteq> []"
  shows "finish_digits k c = route_call a call k c"
  using collecting_owner(6) [OF ok a _ call(1)] st a call by (auto simp: finish_digits_def)

text \<open>
  C5. A phone collects the number of an outbound call, digit by digit, and ends it with the
  terminator. Until then the only effects are dial tones, and every digit leaves a deadline
  that is at most the interdigit timeout away. The terminator commits the call and starts
  routing to exactly the digits collected, in order; an empty dial key does the same. From
  then on the presentation is calling with that number, and neither the dial key nor the
  end of digits routes the call again.
\<close>

theorem dialled_number_routed:
  assumes "dial_history acs (with_digit_timeouts t u :: 'x controller)" and "c = (dial_run t u acs :: 'x controller)"
    and "appearance_for_call c k = Some a" and "ap_state a \<in> {StCollecting, StTransferCollecting}"
    and "pbx_call_of c (ap_pbx_id a) = Some call" and "pc_direction call = Outbound" and "\<not> pc_overlap_enabled call"
    and "map (\<lambda>x. digit_character (fst x)) ds = map Some chs" and "ct_dial_terminator c \<notin> set chs"
    and "number = pc_digits call @ chs" and "number \<noteq> []" and "digit_character d = Some (ct_dial_terminator c)"
    and "press_all k ds c = (es1, c1)" and "press_digit k d now c1 = (es2, c2)"
  shows "list_all is_tone es1
    \<and> (ds \<noteq> [] \<longrightarrow> (\<exists>call1 deadline. pbx_call_of c1 (ap_pbx_id a) = Some call1 \<and> pc_digit_deadline call1 = Some deadline
         \<and> deadline \<le> snd (last ds) + ct_interdigit c))
    \<and> es2 = [Handset (CommitOutboundCall (ap_device_id a) k ((ap_info a)\<lparr>in_called_number := number\<rparr>)),
             Backend (StartRouting (ap_pbx_id a) (pc_context call) number)]
    \<and> enbloc k [] c1 = (es2, c2)
    \<and> (\<exists>a'. appearance_for_call c2 k = Some a' \<and> ap_state a' = StCalling \<and> in_called_number (ap_info a') = number)
    \<and> finish_digits k c2 = ([], c2) \<and> enbloc k further c2 = ([], c2)"
proof -
  have ok: "dialling_ok c" unfolding assms(2) by (rule dial_run_dialling_all [OF assms(1)])
  have col: "collects (ap_state a)" using assms(4) by auto
  from press_all_collects [OF ok assms(3,4,5,7,8,9,13)] obtain call1 where tones: "list_all is_tone es1"
    and c1: "c1 = modify_call (ap_pbx_id a) (\<lambda>_. call1) c" and same: "same_call call call1"
    and num: "pc_digits call1 = number"
    and dl: "ds \<noteq> [] \<longrightarrow> (\<exists>deadline. pc_digit_deadline call1 = Some deadline \<and> deadline \<le> snd (last ds) + ct_interdigit c)"
    unfolding assms(10) by blast
  note s = same_callD [OF same]
  have ok1: "dialling_ok c1" unfolding c1 by (rule quiet_call_dialling [OF ok]) (use assms(5) s in simp)
  have a1: "appearance_for_call c1 k = Some a" using assms(3) by (simp add: c1)
  have call1: "pbx_call_of c1 (ap_pbx_id a) = Some call1" using assms(5) by (simp add: c1)
  have "pc_direction call1 = Outbound" "pc_digits call1 \<noteq> []" using s(6) assms(6,11) num by simp_all
  note fin = finish_routes [OF ok1 a1 assms(4) call1 this] and out = this(1)
  have "ct_dial_terminator c1 = ct_dial_terminator c" by (simp add: c1 modify_call_def)
  with assms(12,14) a1 col have "finish_digits k c1 = (es2, c2)" by (simp add: press_digit_def)
  then have run: "route_call a call1 k c1 = (es2, c2)" by (simp add: fin)
  note eff = route_call_effects [OF ok1 a1 col call1 out run, unfolded num s(7)]
  obtain a' where a': "appearance_for_call c2 k = Some a'" "ap_state a' = StCalling" "in_called_number (ap_info a') = number"
    using eff(2) by blast
  have "ap_state a \<notin> {StConnected, StHeld}" using assms(4) by auto
  then have "enbloc k [] c1 = (es2, c2)" using a1 col fin run by (simp add: enbloc_def)
  moreover have "finish_digits k c2 = ([], c2)" "enbloc k further c2 = ([], c2)"
    using a' by (simp_all add: finish_digits_def enbloc_def)
  ultimately show ?thesis using tones dl call1 eff(1) a' by blast
qed

theorem dialled_number_routed_witness:
  "\<exists>a. appearance_for_call (dial_run 10 4 (take 3 dialled_history) :: unit controller) 2 = Some a
    \<and> fst (press_digit 2 Pound 3 (snd (press_all 2 [(Number 7, 1), (Number 5, 2)]
        (dial_run 10 4 (take 3 dialled_history) :: unit controller))))
      = [Handset (CommitOutboundCall (ap_device_id a) 2 ((ap_info a)\<lparr>in_called_number := ascii ''75''\<rparr>)),
         Backend (StartRouting (ap_pbx_id a) (ascii ''phones'') (ascii ''75''))]"
proof -
  let ?c = "dial_run 10 4 (take 3 dialled_history) :: unit controller"
  let ?ds = "[(Number 7, 1), (Number 5, 2)] :: (digit \<times> instant) list"
  have safe: "dial_history (take 3 dialled_history) (with_digit_timeouts 10 4 :: unit controller)" by code_simp
  have facts: "(case appearance_for_call ?c 2 of None \<Rightarrow> False
    | Some a \<Rightarrow> ap_state a \<in> {StCollecting, StTransferCollecting}
        \<and> (case pbx_call_of ?c (ap_pbx_id a) of None \<Rightarrow> False
           | Some call \<Rightarrow> pc_direction call = Outbound \<and> \<not> pc_overlap_enabled call \<and> pc_digits call = []
               \<and> pc_context call = ascii ''phones''))
    \<and> ct_dial_terminator ?c = 35"
    by code_simp
  then obtain a call where a: "appearance_for_call ?c 2 = Some a" "ap_state a \<in> {StCollecting, StTransferCollecting}"
    and call: "pbx_call_of ?c (ap_pbx_id a) = Some call" "pc_direction call = Outbound" "\<not> pc_overlap_enabled call"
      "pc_digits call = []" "pc_context call = ascii ''phones''" and hash: "ct_dial_terminator ?c = 35"
    by (auto split: option.splits)
  obtain es1 c1 where c1: "press_all 2 ?ds ?c = (es1, c1)" by fastforce
  obtain es2 c2 where c2: "press_digit 2 Pound 3 c1 = (es2, c2)" by fastforce
  have chs: "map (\<lambda>x. digit_character (fst x)) ?ds = map Some [55, 53]" by simp
  have num: "ascii ''75'' = pc_digits call @ [55, 53]" "ascii ''75'' \<noteq> []" using call(4) by (simp_all add: ascii_def)
  from dialled_number_routed [OF safe refl a call(1,2,3) chs _ num _ c1 c2] hash a c1 c2 call(5) show ?thesis by auto
qed

text \<open>
  The digits of a phone that barges into a call: \<open>press_digit\<close> looks up the channel of the
  barge, but no state of the presentation in which a digit has an effect is that of a
  barging one, so the digit is dropped.
\<close>

lemma barged_digits_dropped:
  assumes "controller_ok c" and "hm_contains (ct_barge_by_handset c) k"
  shows "press_digit k d now c = ([], c)"
proof -
  from assms(2) obtain s where "hm_get (ct_barge_by_handset c) k = Some s" by (auto simp: hm_contains_def)
  from barges_okD(5) [OF controller_okD(8) [OF assms(1)] this] obtain a where "appearance_for_call c k = Some a" "ap_state a = StBarged"
    by (auto simp: session_ok_def)
  then show ?thesis by (simp add: press_digit_def Let_def split: option.split)
qed

section \<open>Parking\<close>

lemma move_both_back:
  assumes "appearance_of c (ap_id a) = Some a" and "pbx_call_of c (ap_pbx_id a) = Some call"
    and "ap_state a = st" and "pc_state call = st"
  shows "move_both (a\<lparr>ap_state := st'\<rparr>) st (\<lambda>a. a) (move_both a st' (\<lambda>a. a) c) = c"
proof -
  let ?apps = "rg_appearances (ct_registry c)" and ?pbx = "rg_pbx (ct_registry c)"
  have "hm_modify (ap_id a) (\<lambda>a. a\<lparr>ap_state := st\<rparr>) (hm_modify (ap_id a) (\<lambda>a. a\<lparr>ap_state := st'\<rparr>) ?apps) = ?apps"
    using assms(1,3) by (simp add: hm_modify_def hm_insert_def update_conv' update_triv)
  moreover have "hm_modify (ap_pbx_id a) (\<lambda>k. k\<lparr>pc_state := st\<rparr>) (hm_modify (ap_pbx_id a) (\<lambda>k. k\<lparr>pc_state := st'\<rparr>) ?pbx) = ?pbx"
    using assms(2,4) by (simp add: hm_modify_def hm_insert_def update_conv' update_triv)
  ultimately show ?thesis by (simp add: move_both_def modify_appearance_def modify_call_def)
qed

text \<open>
  C7. A call is parked by the phone that owns it. If the backend reports that parking
  failed, the controller is exactly as before and the phone is told that it is connected
  again; if it reports the slot, the phone is shown the slot, the call is hung up and is
  gone. A second report of either kind for the failed attempt does nothing.
\<close>

theorem parking_settles:
  assumes "dial_history acs (with_digit_timeouts t u :: 'x controller)" and "c = (dial_run t u acs :: 'x controller)"
    and "park k enabled lot c = (Inr es, c1)"
  shows "\<exists>a. appearance_for_call c k = Some a \<and> es = [Backend (PbxParking (ParkCall (ap_pbx_id a) lot))]
    \<and> parking_failed k c1 = ([Handset (SetCallState (ap_device_id a) k HsConnected False)], c)
    \<and> parking_failed k c = ([], c) \<and> parking_confirmed k slot c = ([], c)
    \<and> (\<exists>rest c2. parking_confirmed k slot c1 =
         (Handset (SetCallInfo (ap_device_id a) k (call_info_default\<lparr>in_direction := Outbound,
            in_called_name := ascii ''Parked'', in_called_number := decimal (unat slot)\<rparr>))
          # Handset (SetCallState (ap_device_id a) k HsPark True) # Backend (PbxHangup (ap_pbx_id a)) # rest, c2)
         \<and> pbx_call_of c2 (ap_pbx_id a) = None)"
proof -
  have ok: "dialling_ok c" unfolding assms(2) by (rule dial_run_dialling_all [OF assms(1)])
  note cok = dialling_okD(1) [OF ok] and idx = controller_okD(2) [OF dialling_okD(1) [OF ok]]
  from assms(3) obtain a call where a: "appearance_for_call c k = Some a" and call: "pbx_call_of c (ap_pbx_id a) = Some call"
    "pc_state call = StConnected" "pc_active_appearance call = Some (ap_id a)" and st: "ap_state a = StConnected"
    and es: "es = [Backend (PbxParking (ParkCall (ap_pbx_id a) lot))]" and c1: "c1 = move_both a StParking (\<lambda>a. a) c"
    by (auto simp: park_def split: option.splits if_splits)
  note ap = appearance_for_owned(1) [OF idx a]
  let ?a = "a\<lparr>ap_state := StParking\<rparr>"
  have a1: "appearance_for_call c1 k = Some ?a"
    using appearance_for_owned(1,3) [OF idx a] by (simp add: c1 move_both_def appearance_for_def)
  have call1: "pbx_call_of c1 (ap_pbx_id a) = Some (call\<lparr>pc_state := StParking\<rparr>)" using call(1) by (simp add: c1 move_both_def)
  have no_barge: "hm_get (ct_barge_by_handset c) k = None"
  proof (rule ccontr)
    assume "hm_get (ct_barge_by_handset c) k \<noteq> None"
    then obtain s where "hm_get (ct_barge_by_handset c) k = Some s" by blast
    from barges_okD(5) [OF controller_okD(8) [OF cok] this] a st show False by (auto simp: session_ok_def)
  qed
  have "parking_failed k c1 = ([Handset (SetCallState (ap_device_id a) k HsConnected False)], c)"
    using a1 call1 move_both_back [OF ap call(1) st call(2), of StParking] by (simp add: parking_failed_def in_state_def c1)
  moreover have "parking_failed k c = ([], c)" "parking_confirmed k slot c = ([], c)"
    using a call by (simp_all add: parking_failed_def parking_confirmed_def in_state_def)
  moreover obtain rest c2 where h: "hangup_ordinary k True c1 = (Backend (PbxHangup (ap_pbx_id a)) # rest, c2)"
    and c2: "c2 = snd (remove_pbx_call (ap_pbx_id a) c1)"
    using a1 call1 call(3) no_barge by (auto simp: hangup_ordinary_def hm_contains_def c1 move_both_def)
  moreover have "pbx_call_of c2 (ap_pbx_id a) = None"
    using call1 by (simp add: c2 remove_pbx_call_def Let_def)
  ultimately show ?thesis
    using a es a1 call1 by (auto simp: parking_confirmed_def in_state_def)
qed

theorem parking_settles_witness:
  "\<exists>a. appearance_for_call (dial_run 10 4 (take 10 dialled_history) :: unit controller) 2 = Some a
    \<and> parking_failed 2 (snd (park 2 True None (dial_run 10 4 (take 10 dialled_history) :: unit controller)))
      = ([Handset (SetCallState (ap_device_id a) 2 HsConnected False)], dial_run 10 4 (take 10 dialled_history))"
proof -
  let ?c = "dial_run 10 4 (take 10 dialled_history) :: unit controller"
  have safe: "dial_history (take 10 dialled_history) (with_digit_timeouts 10 4 :: unit controller)" by code_simp
  have "(case fst (park 2 True None ?c) of Inr es \<Rightarrow> True | Inl e \<Rightarrow> False)" by code_simp
  then obtain es c1 where run: "park 2 True None ?c = (Inr es, c1)" by (cases "park 2 True None ?c") (auto split: sum.splits)
  from parking_settles [OF safe refl run] run show ?thesis by auto
qed

end
