(* ===== verification/Spec2Isabelle.thy ===== *)
theory Spec2Isabelle
  imports Call_Transfer Conference Wire_Framing Forwarding Voicemail Mobility_Login Qos Media_Ownership Mailbox
    Wire_Text Call_Queue Call_Media Offer_Policy Dial_Progress Dial_Outcomes
begin

text \<open>
  \<^bold>\<open>The SCCP channel driver.\<close>

  The program connects SCCP phones to Asterisk. The crate \<^verbatim>\<open>sccp-protocol\<close> speaks the wire
  protocol: it frames and decodes messages, keeps a session per phone and hands events to
  its client. The crate \<^verbatim>\<open>asterisk-module\<close> is that client. Its heart is the \<^verbatim>\<open>Controller\<close> of
  \<^verbatim>\<open>runtime/controller.rs\<close>, a plain state machine without input or output: events of phones
  and of channels are method calls on it, and each returns a list of effects, for the
  channels (\<^verbatim>\<open>PbxEffect\<close>) and for the phones (\<^verbatim>\<open>HandsetEffect\<close>). The controller keeps calls and
  their presentations, and asks smaller registries about transfers, conferences,
  forwarding, voicemail and roaming lines. Around it run tasks that serialise the effects
  of a call, own media paths and admit work through bounded mailboxes.

  \<^bold>\<open>Theories.\<close> Every definition keeps the name of what it models, with a prefix where names
  clash; paths are relative to \<^verbatim>\<open>asterisk-module/src\<close> unless they start with the other crate.

  \<^item> \<open>Sccp_Prelude\<close>, \<open>Rust_Text\<close>, \<open>Id_Allocation\<close>: the vocabulary. A \<^verbatim>\<open>HashMap\<close> is an association
    list with distinct keys (\<open>hm_get\<close>, \<open>hm_insert\<close>, \<open>hm_remove\<close>, \<open>hm_modify\<close>), a fallible
    method \<^verbatim>\<open>&mut self\<close> returns a sum and the state it leaves, a \<^verbatim>\<open>str\<close> is its list of scalar
    values. The locales \<open>guarded_operation\<close> and \<open>terminal_operation\<close> state what a registry
    promises about methods that name a transaction by device and identity, \<open>keyed_sweep\<close> what
    a sweep over due entries does; the registries below interpret them. Identities are
    drawn from wrapping counters; \<open>Id_Allocation\<close> shows once that the search ends.
  \<^item> \<open>Call_Registry\<close>: \<^verbatim>\<open>CallRegistry\<close>, \<^verbatim>\<open>PbxCall\<close> and \<^verbatim>\<open>CallAppearance\<close> of \<^verbatim>\<open>runtime/controller.rs\<close>, the
    operations that keep its indexes, and its validator
    \<^verbatim>\<open>runtime/controller/invariants/call_registry.rs\<close>. The validator is silent exactly on the
    registries that satisfy \<open>calls_ok\<close>, which insertion, attachment and removal keep.
    \<open>Call_Media\<close>: the video state of a call.
  \<^item> \<open>Call_Control\<close>: the operations of \<^verbatim>\<open>runtime/controller/domains/call_registry.rs\<close>,
    \<^verbatim>\<open>domains/voicemail.rs\<close> and \<^verbatim>\<open>controller.rs\<close> on calls: outgoing and offered calls, selection,
    answer, hold, resume, steal, switch, barge, redirects, hangup, each with its guards,
    its effects and every early return. \<open>Inbound_Offers\<close>: \<^verbatim>\<open>offer_inbound_call_with_policy\<close>.
  \<^item> \<open>Call_Invariants\<close>: the validators of \<^verbatim>\<open>runtime/controller/invariants\<close> (those of conferences
    and transfers excepted), the actions that make up a history, and \<open>controller_ok\<close>, the
    invariant that implies their silence. \<open>Call_Moves\<close> and \<open>Call_Endings\<close> show operation by
    operation that it is kept, and \<open>Call_Histories\<close> that every history keeps it, under the five
    conditions of \<open>action_safe\<close>; that the first answer wins; and that a barge can be undone.
    The conditions are needed: three theorems show what happens without them.
    \<open>Offer_Policy\<close>: an inbound call rings where screening, do-not-disturb, forwarding and the
    limit of the line say it rings.
  \<^item> \<open>Party\<close>: \<^verbatim>\<open>pbx/party.rs\<close>, how a snapshot of the parties of a channel becomes what a phone
    shows; restricted names and numbers are blank and have no influence.
  \<^item> \<open>Dialing\<close>: from the first digit to the answer of the far end (\<^verbatim>\<open>digit\<close>, \<^verbatim>\<open>enbloc\<close>, \<^verbatim>\<open>speed_dial\<close>,
    \<^verbatim>\<open>expire_digits\<close>, \<^verbatim>\<open>finish_digits\<close>, \<^verbatim>\<open>pbx_proceeding\<close>, \<^verbatim>\<open>pbx_ringing\<close>, \<^verbatim>\<open>pbx_progress\<close>,
    \<^verbatim>\<open>apply_party_snapshot\<close>, \<^verbatim>\<open>pbx_answer\<close>) and the pickup and parking operations of \<^verbatim>\<open>domains/parking_pickup.rs\<close>. \<open>Dial_Laws\<close> shows that they keep
    \<open>controller_ok\<close> and \<open>collecting_ok\<close> (a phone that collects digits shows the state of its
    call), \<open>Dial_Frames\<close> that all other operations of call control keep the latter,
    \<open>Dial_Histories\<close> that all histories of both keep the validators silent, and
    \<open>Dial_Outcomes\<close> that the dialled number is the one routed and that failed parking leaves
    no trace. \<open>Dial_Progress\<close> says for every sequence of reports about an outbound call exactly
    which stages its phone is shown: the controller simulates a small machine of the phone's
    view (\<open>follow\<close>), whose output has a closed form (\<open>expected_stages\<close>).
  \<^item> \<open>Call_Transfer\<close> (\<^verbatim>\<open>call/transfer.rs\<close>), \<open>Forwarding\<close> (\<^verbatim>\<open>call/forwarding.rs\<close>), \<open>Voicemail\<close>
    (\<^verbatim>\<open>call/voicemail.rs\<close>), \<open>Conference\<close> (\<^verbatim>\<open>conference/mod.rs\<close>), \<open>Mobility\<close> and \<open>Mobility_Login\<close>
    (\<^verbatim>\<open>call/mobility.rs\<close>, \<^verbatim>\<open>asterisk/phone/mobility.rs\<close>): the registries, each with an invariant
    over all histories, the exact effect of its operations, and exclusiveness or
    once-only properties of what it claims. The participants of a conference refine a list
    (\<open>ordered_store\<close>); handsets agree with the roaming registry, except at a
    button whose own write failed (\<open>handset_writer\<close>).
  \<^item> \<open>Wire_Framing\<close> (\<^verbatim>\<open>sccp-protocol/src/message/wire.rs\<close>) and \<open>Wire_Text\<close>
    (\<^verbatim>\<open>message/codec/fixed_text.rs\<close>, \<^verbatim>\<open>codec/io.rs\<close>, \<^verbatim>\<open>bounded.rs\<close>): round trips and bounds, and that
    the stream decoder neither loses bytes nor depends on how they are cut into chunks.
    The derived header layout is the locale \<open>header_codec\<close>, with the layout of the
    documentation as its instance.
  \<^item> \<open>Qos\<close> (\<^verbatim>\<open>sccp-protocol/src/qos.rs\<close>): reservations stay within their limits, identities are
    used once, polls and drains settle exactly what they should.
  \<^item> \<open>Mailbox\<close>, \<open>Call_Queue\<close>, \<open>Media_Ownership\<close> (\<^verbatim>\<open>runtime/\<close>): slots are conserved, messages arrive in
    order, the effects of a call run one at a time and in order with the teardown last,
    media paths have one owner and no waiting request is forgotten. Tasks are step
    functions: a turn of the loop is one step, and what another thread may return is an
    argument of the step.

  \<^bold>\<open>Bounds and fuel.\<close> The identity loops are \<^theory_text>\<open>partial_function\<close>s or searches over one identity
  more than are in use; both are shown to return as long as fewer than \<open>2 ^ 64 - 1\<close> identities
  are in use, and only then is freshness claimed. All other loops are structural or have
  a measure. Clocks are unbounded naturals; where the source adds to an \<^verbatim>\<open>Instant\<close> with a check,
  the check is modelled.

  \<^bold>\<open>Not modelled.\<close> The bodies of the message codec and the sessions of the protocol server
  (derived layouts, sockets, timers); XML and provisioning; the conference and media
  domains of the controller (of the latter, progress with early media is modelled), parking
  lots and the table of pending parking attempts, transitions with rollback and remote
  hangup tones; the tasks that own the controller; everything that calls Asterisk, parses its configuration or formats answers for the manager interface; the SIP bridge,
  the tools and the tests. A hangup is modelled for calls that no conference, transfer or
  transition claims, and a registration with the check of its generation but
  without the disconnection of the session it replaces.
\<close>

end
